(* ===== verification/Prelude.thy ===== *)
theory Prelude
  imports Main "HOL-Library.Word" "HOL-Library.Monad_Syntax"
begin

text \<open>
  Shared vocabulary of the development: the machine types of the C sources, \<open>size_t\<close>
  arithmetic with its wrap-around written out, the fault monad, the allocator's answers,
  blocks of bytes, and the byte representation of words.

  A C function that can go wrong in a way the C standard leaves undefined (an access outside
  an allocated block, a use after \<open>free\<close>) or that can abort through \<open>assert\<close> is a function
  into \<open>'a option\<close>: \<open>None\<close> is the fault, \<open>Some\<close> is a return.  A loop whose termination
  depends on an invariant is also in this monad (\<^theory_text>\<open>partial_function (option)\<close>), so
  a theorem that a call yields \<open>Some\<close> says at once that it returns, that it stays inside its
  memory and that no assertion fails.
\<close>

unbundle bit_operations_syntax

named_theorems wp_rules \<open>weakest-precondition rewriting of the fault monad\<close>
named_theorems sz_simps \<open>unfolding of size_t arithmetic\<close>


section \<open>Machine types\<close>

type_synonym u8 = "8 word"
type_synonym u16 = "16 word"
type_synonym u32 = "32 word"
type_synonym u64 = "64 word"
type_synonym bytes = "u8 list"
type_synonym ptr = "64 word"

text \<open>
  \<open>size_t\<close> values are natural numbers below \<open>2 ^ 64\<close>; the operations that can wrap are
  written with \<open>szadd\<close>, \<open>szsub\<close> and \<open>szmul\<close>.
\<close>

definition SIZE_MAX :: nat where
  "SIZE_MAX = 2 ^ 64 - 1"

definition SSIZE_MAX :: nat where
  "SSIZE_MAX = 2 ^ 63 - 1"

definition szadd :: "nat \<Rightarrow> nat \<Rightarrow> nat" where
  "szadd a b = (a + b) mod 2 ^ 64"

definition szmul :: "nat \<Rightarrow> nat \<Rightarrow> nat" where
  "szmul a b = (a * b) mod 2 ^ 64"

definition szsub :: "nat \<Rightarrow> nat \<Rightarrow> nat" where
  "szsub a b = (a + 2 ^ 64 - b) mod 2 ^ 64"

lemma szadd_id [simp]: "a + b \<le> SIZE_MAX \<Longrightarrow> szadd a b = a + b"
  by (simp add: szadd_def SIZE_MAX_def)

lemma szmul_id [simp]: "a * b \<le> SIZE_MAX \<Longrightarrow> szmul a b = a * b"
  by (simp add: szmul_def SIZE_MAX_def)

lemma mod_wrap_diff: "b \<le> a \<Longrightarrow> a < m \<Longrightarrow> (a + m - b) mod m = a - (b :: nat)"
  by (metis Nat.add_diff_assoc2 less_imp_diff_less mod_add_self2 mod_less)

lemma szsub_id [simp]: "b \<le> a \<Longrightarrow> a \<le> SIZE_MAX \<Longrightarrow> szsub a b = a - b"
  unfolding szsub_def SIZE_MAX_def by (rule mod_wrap_diff) simp_all

lemma szsub_0_1 [simp]: "szsub 0 (Suc 0) = SIZE_MAX"
  by (simp add: szsub_def SIZE_MAX_def)

lemma szadd_le [simp]: "szadd a b \<le> SIZE_MAX"
proof -
  have "(a + b) mod 2 ^ 64 < (2 ^ 64 :: nat)" by (rule mod_less_divisor) simp
  then show ?thesis by (simp add: szadd_def SIZE_MAX_def)
qed

lemma szmul_le [simp]: "szmul a b \<le> SIZE_MAX"
proof -
  have "(a * b) mod 2 ^ 64 < (2 ^ 64 :: nat)" by (rule mod_less_divisor) simp
  then show ?thesis by (simp add: szmul_def SIZE_MAX_def)
qed

lemma le_div_SIZE_MAX: "0 < r \<Longrightarrow> (n \<le> SIZE_MAX div r) = (n * r \<le> SIZE_MAX)"
  by (simp add: less_eq_div_iff_mult_less_eq)

lemma div_SIZE_MAX_less [sz_simps]: "0 < r \<Longrightarrow> (SIZE_MAX div r < n) = (SIZE_MAX < n * r)"
  by (simp add: div_less_iff_less_mult)

lemma SIZE_MAX_pos [simp]: "0 < SIZE_MAX"
  by (simp add: SIZE_MAX_def)

lemma Suc_0_le_SIZE_MAX [simp]: "Suc 0 \<le> SIZE_MAX"
  by (simp add: SIZE_MAX_def)


lemma unat_drop: "unat (drop_bit n w) = unat w div 2 ^ n"
  by (simp add: unat_drop_bit_eq drop_bit_eq_div [of n "unat w"])

lemma unat_take: "unat (take_bit n w) = unat w mod 2 ^ n"
  by (simp add: unsigned_take_bit_eq take_bit_eq_mod [of n "unat w"])


section \<open>The fault monad\<close>

text \<open>\<open>cassert\<close> is the C macro \<open>assert\<close>: it aborts when its argument is false.\<close>

definition cassert :: "bool \<Rightarrow> unit option" where
  "cassert b = (if b then Some () else None)"

text \<open>
  Total correctness: \<open>okp m P\<close> says that \<open>m\<close> returns without a fault and that its result
  satisfies \<open>P\<close>.
\<close>

definition okp :: "'a option \<Rightarrow> ('a \<Rightarrow> bool) \<Rightarrow> bool" where
  "okp m P = (case m of None \<Rightarrow> False | Some x \<Rightarrow> P x)"

lemma okp_Some [simp, wp_rules]: "okp (Some x) P = P x"
  by (simp add: okp_def)

lemma okp_None [simp, wp_rules]: "\<not> okp None P"
  by (simp add: okp_def)

lemma okp_bind [wp_rules]: "okp (Option.bind m f) P = okp m (\<lambda>x. okp (f x) P)"
  by (cases m) simp_all

lemma okp_cassert [wp_rules]: "okp (cassert b) P = (b \<and> P ())"
  by (simp add: cassert_def)

lemma cassert_simps [simp]: "cassert True = Some ()" "cassert False = None"
  by (simp_all add: cassert_def)

lemma okp_mono: "okp m P \<Longrightarrow> (\<And>x. P x \<Longrightarrow> Q x) \<Longrightarrow> okp m Q"
  by (cases m) auto

lemma okp_iff: "okp m P = (\<exists>x. m = Some x \<and> P x)"
  by (cases m) auto

lemma okp_conj: "okp m P \<Longrightarrow> okp m Q \<Longrightarrow> okp m (\<lambda>x. P x \<and> Q x)"
  by (cases m) auto

lemma okp_conjD1: "okp m (\<lambda>x. P x \<and> Q x) \<Longrightarrow> okp m P"
  by (cases m) auto

lemma okp_SomeD: "okp m P \<Longrightarrow> m = Some x \<Longrightarrow> P x"
  by simp

lemma okpE: "okp m P \<Longrightarrow> (\<And>x. m = Some x \<Longrightarrow> P x \<Longrightarrow> thesis) \<Longrightarrow> thesis"
  by (cases m) auto

lemma okp_pairE:
  assumes "okp m (\<lambda>(a, b). P a b)"
  obtains a b where "m = Some (a, b)" "P a b"
  using assms by (auto simp: okp_iff)


section \<open>The allocator and blocks of bytes\<close>

text \<open>
  What the allocator answers to one request is an argument of the operations that allocate:
  \<open>None\<close> for a failed \<open>malloc\<close> or \<open>realloc\<close>, and \<open>Some junk\<close> for a success, where
  \<open>junk i\<close> is the value that the uninitialised byte at offset \<open>i\<close> of the new block happens
  to hold.  Every theorem holds for every answer.
\<close>

type_synonym alloc = "(nat \<Rightarrow> u8) option"

definition c_realloc :: "alloc \<Rightarrow> bytes \<Rightarrow> nat \<Rightarrow> bytes option" where
  "c_realloc a b n = map_option (\<lambda>junk. take n b @ map junk [length b..<n]) a"

lemma c_realloc_None [simp]: "c_realloc None b n = None"
  by (simp add: c_realloc_def)

lemma c_realloc_eq_None [simp]: "c_realloc a b n = None \<longleftrightarrow> a = None"
  by (simp add: c_realloc_def)

lemma length_c_realloc: "c_realloc a b n = Some c \<Longrightarrow> length c = n"
  by (auto simp: c_realloc_def)

lemma take_c_realloc: "c_realloc a b n = Some c \<Longrightarrow> k \<le> n \<Longrightarrow> k \<le> length b \<Longrightarrow> take k c = take k b"
  by (auto simp: c_realloc_def min_def)

text \<open>Loads and stores inside a block; outside of the block they are faults.\<close>

definition mem_load :: "bytes \<Rightarrow> nat \<Rightarrow> nat \<Rightarrow> bytes option" where
  "mem_load b off n = (if off + n \<le> length b then Some (take n (drop off b)) else None)"

definition mem_store :: "bytes \<Rightarrow> nat \<Rightarrow> bytes \<Rightarrow> bytes option" where
  "mem_store b off src =
     (if off + length src \<le> length b
      then Some (take off b @ src @ drop (off + length src) b) else None)"

lemma okp_mem_load [wp_rules]:
  "okp (mem_load b off n) P = (off + n \<le> length b \<and> P (take n (drop off b)))"
  by (simp add: mem_load_def)

lemma okp_mem_store [wp_rules]:
  "okp (mem_store b off src) P =
     (off + length src \<le> length b \<and> P (take off b @ src @ drop (off + length src) b))"
  by (simp add: mem_store_def)

lemma length_mem_store: "mem_store b off src = Some c \<Longrightarrow> length c = length b"
  by (auto simp: mem_store_def split: if_splits)

lemma take_drop_store_same:
  "off + length src \<le> length b \<Longrightarrow>
   take (length src) (drop off (take off b @ src @ drop (off + length src) b)) = src"
  by simp

lemma take_drop_store_other:
  assumes "off + length src \<le> length b" "off' + n \<le> off \<or> off + length src \<le> off'"
  shows "take n (drop off' (take off b @ src @ drop (off + length src) b)) = take n (drop off' b)"
  using assms by (auto simp: take_drop min_def)

lemma take_store:
  assumes "off + length src \<le> k" "k \<le> length b"
  shows "take k (take off b @ src @ drop (off + length src) b)
       = take off (take k b) @ src @ drop (off + length src) (take k b)"
  using assms by (cases "k = off") (auto simp: min_def drop_take)


section \<open>Records in a byte block\<close>

text \<open>A block of bytes read as consecutive records of \<open>r\<close> bytes.\<close>

definition records :: "nat \<Rightarrow> bytes \<Rightarrow> bytes list" where
  "records r bs = map (\<lambda>i. take r (drop (i * r) bs)) [0..<length bs div r]"

lemma length_records [simp]: "length (records r bs) = length bs div r"
  by (simp add: records_def)

lemma nth_records [simp]: "i < length bs div r \<Longrightarrow> records r bs ! i = take r (drop (i * r) bs)"
  by (simp add: records_def)

lemma rec_in_block:
  assumes "i < n div (r :: nat)"
  shows "i * r + r \<le> n"
proof -
  have "Suc i * r \<le> n div r * r" using assms by (intro mult_le_mono1) simp
  also have "\<dots> \<le> n" by (rule div_times_less_eq_dividend)
  finally show ?thesis by simp
qed

lemma length_record: "x \<in> set (records r bs) \<Longrightarrow> length x = r"
  using rec_in_block by (fastforce simp: records_def)

lemma records_Nil [simp]: "records r [] = []"
  by (simp add: records_def)

lemma records_append:
  assumes "0 < r" "r dvd length bs"
  shows "records r (bs @ cs) = records r bs @ records r cs"
proof -
  from assms obtain k where k: "length bs = k * r" by (auto simp: mult.commute)
  have "records r (bs @ cs) ! i = (records r bs @ records r cs) ! i"
    if "i < length (records r (bs @ cs))" for i
  proof (cases "i < k")
    case True
    with k assms have "i * r + r \<le> length bs" by (intro rec_in_block) simp
    with True that k assms show ?thesis by (simp add: nth_append)
  next
    case False
    then obtain j where j: "i = k + j" by (auto simp: not_less le_iff_add)
    from that k assms have "i < k + length cs div r" by simp
    with j have "j < length cs div r" by simp
    with j k assms that show ?thesis by (simp add: nth_append add_mult_distrib)
  qed
  moreover have "length (records r (bs @ cs)) = length (records r bs @ records r cs)"
    using k assms by simp
  ultimately show ?thesis by (rule nth_equalityI [rotated])
qed

lemma records_single [simp]: "0 < r \<Longrightarrow> length x = r \<Longrightarrow> records r x = [x]"
  by (simp add: records_def)

lemma records_take:
  assumes "0 < r"
  shows "records r (take (k * r) bs) = take k (records r bs)"
proof (cases "k \<le> length bs div r")
  case True
  then have "k * r \<le> length bs"
    using div_times_less_eq_dividend [of "length bs" r] mult_le_mono1 order_trans by blast
  then have len: "length (records r (take (k * r) bs)) = k"
    using assms by simp
  have "take r (drop (i * r) (take (k * r) bs)) = take r (drop (i * r) bs)" if "i < k" for i
  proof -
    from that have "Suc i * r \<le> k * r" by (intro mult_le_mono1) simp
    then show ?thesis by (simp add: drop_take)
  qed
  then show ?thesis
    using assms True len by (intro nth_equalityI [of "records r (take (k * r) bs)"]) auto
next
  case False
  then have "length bs div r < k" by simp
  then have "length bs < k * r" using assms by (simp add: div_less_iff_less_mult)
  with False show ?thesis by simp
qed

lemma records_store:
  assumes "0 < r" "i < length bs div r" "length x = r"
  shows "records r (take (i * r) bs @ x @ drop (i * r + r) bs) = (records r bs)[i := x]"
proof -
  have i: "i * r + r \<le> length bs" by (rule rec_in_block) (fact assms(2))
  then have len: "length (take (i * r) bs @ x @ drop (i * r + r) bs) = length bs"
    using assms by simp
  have "records r (take (i * r) bs @ x @ drop (i * r + r) bs) ! j = (records r bs)[i := x] ! j"
    if "j < length bs div r" for j
  proof (cases "j = i")
    case True
    then show ?thesis using assms i len take_drop_store_same [of "i * r" x bs] by simp
  next
    case False
    then have "j * r + r \<le> i * r \<or> i * r + r \<le> j * r"
      by (metis add.commute linorder_neqE_nat mult_Suc mult_le_mono1 Suc_leI)
    then show ?thesis
      using False assms i len that take_drop_store_other [of "i * r" x bs "j * r" r] by simp
  qed
  then show ?thesis
    using len by (intro nth_equalityI [of "records r (take (i * r) bs @ x @ drop (i * r + r) bs)"]) auto
qed


section \<open>Components as machines\<close>

text \<open>
  A component with its client: \<open>init\<close> are the states the constructor can return, \<open>pre\<close> is
  what the documentation asks of the caller, \<open>step\<close> performs one operation (with the answers
  of the allocator part of the operation).  The reachable states are those of any client that
  keeps to \<open>pre\<close>.
\<close>

inductive reach :: "('s \<Rightarrow> bool) \<Rightarrow> ('op \<Rightarrow> 's \<Rightarrow> bool) \<Rightarrow> ('op \<Rightarrow> 's \<Rightarrow> ('s \<times> 'out) option) \<Rightarrow> 's \<Rightarrow> bool"
  for init pre step
where
  reach_init: "init s \<Longrightarrow> reach init pre step s"
| reach_step: "reach init pre step s \<Longrightarrow> pre op s \<Longrightarrow> step op s = Some (s', out) \<Longrightarrow> reach init pre step s'"

text \<open>
  A machine refines an abstract data type when its operations keep an invariant and are, through
  the abstraction \<open>abs\<close>, instances of the specification \<open>spec\<close>.
\<close>

locale machine_refinement =
  fixes init :: "'s \<Rightarrow> bool"
    and pre :: "'op \<Rightarrow> 's \<Rightarrow> bool"
    and step :: "'op \<Rightarrow> 's \<Rightarrow> ('s \<times> 'out) option"
    and inv :: "'s \<Rightarrow> bool"
    and abs :: "'s \<Rightarrow> 'a"
    and spec :: "'op \<Rightarrow> 'a \<Rightarrow> 'out \<Rightarrow> 'a \<Rightarrow> bool"
  assumes init_inv: "init s \<Longrightarrow> inv s"
    and step_spec: "inv s \<Longrightarrow> pre op s \<Longrightarrow>
      okp (step op s) (\<lambda>(s', out). inv s' \<and> spec op (abs s) out (abs s'))"
begin

lemma reach_inv: "reach init pre step s \<Longrightarrow> inv s"
proof (induction rule: reach.induct)
  case (reach_init s)
  then show ?case by (rule init_inv)
next
  case (reach_step s op s' out)
  then show ?case using step_spec [of s op] by auto
qed

lemma reach_spec:
  "reach init pre step s \<Longrightarrow> pre op s \<Longrightarrow> okp (step op s) (\<lambda>(s', out). spec op (abs s) out (abs s'))"
  by (rule okp_mono [OF step_spec [OF reach_inv]]) auto

end

end
