(* ===== verification/Elastic_Array.thy ===== *)
theory Elastic_Array
  imports Prelude
begin

text \<open>
  The elastic array of \<open>datastruct/elasticarray.c\<close>: a byte buffer that grows and shrinks with
  its contents.  The state is the C structure (size in use, size allocated, the block); the
  \<open>NULL\<close> buffer is the empty block.  A pointer into the buffer is its offset from the start
  of the block, and an access through it is checked against the block.
\<close>

section \<open>State and operations\<close>

record elasticarray =
  ea_size :: nat
  ea_alloc :: nat
  ea_buf :: bytes

text \<open>The allocation size chosen by \<open>resize\<close>, in \<open>size_t\<close> arithmetic.\<close>

definition resize_nalloc :: "nat \<Rightarrow> nat \<Rightarrow> nat" where
  "resize_nalloc alloc nsize =
     (if alloc < nsize then
        (let nalloc = szmul alloc 2 in if nalloc < nsize then nsize else nalloc)
      else if alloc div 4 > nsize then szmul nsize 2
      else alloc)"

definition resize :: "alloc \<Rightarrow> elasticarray \<Rightarrow> nat \<Rightarrow> (elasticarray \<times> int) option" where
  "resize a EA nsize =
     (let nalloc = resize_nalloc (ea_alloc EA) nsize in
      if nalloc = 0 then do {
        cassert (nsize = 0);
        Some (EA\<lparr>ea_buf := [], ea_alloc := 0, ea_size := nsize\<rparr>, 0)
      }
      else if nalloc \<noteq> ea_alloc EA then
        (case c_realloc a (ea_buf EA) nalloc of
           None \<Rightarrow> Some (EA, -1)
         | Some nbuf \<Rightarrow> Some (EA\<lparr>ea_buf := nbuf, ea_alloc := nalloc, ea_size := nsize\<rparr>, 0))
      else Some (EA\<lparr>ea_size := nsize\<rparr>, 0))"

definition elasticarray_resize ::
    "alloc \<Rightarrow> elasticarray \<Rightarrow> nat \<Rightarrow> nat \<Rightarrow> (elasticarray \<times> int) option" where
  "elasticarray_resize a EA nrec reclen =
     (if reclen = 0 then None
      else if nrec > SIZE_MAX div reclen then Some (EA, -1)
      else do {
        (EA', r) \<leftarrow> resize a EA (szmul nrec reclen);
        if r \<noteq> 0 then Some (EA', -1) else Some (EA', 0)
      })"

text \<open>
  \<open>elasticarray_init\<close> performs two allocations: the structure (its answer is \<open>ok\<close>) and the
  buffer.  The inner option of the result is the returned pointer, \<open>None\<close> for \<open>NULL\<close>.
\<close>

definition elasticarray_init :: "bool \<Rightarrow> alloc \<Rightarrow> nat \<Rightarrow> nat \<Rightarrow> elasticarray option option" where
  "elasticarray_init ok a nrec reclen = do {
     cassert (reclen > 0);
     if \<not> ok then Some None
     else do {
       (EA, r) \<leftarrow> elasticarray_resize a \<lparr>ea_size = 0, ea_alloc = 0, ea_buf = []\<rparr> nrec reclen;
       Some (if r \<noteq> 0 then None else Some EA)
     }
   }"

text \<open>A division by a zero record length is a fault.\<close>

definition elasticarray_getsize :: "elasticarray \<Rightarrow> nat \<Rightarrow> nat option" where
  "elasticarray_getsize EA reclen = (if reclen = 0 then None else Some (ea_size EA div reclen))"

text \<open>
  The caller's buffer \<open>src\<close> is read for \<open>nrec * reclen\<close> bytes; a shorter buffer is a fault.
\<close>

definition elasticarray_append ::
    "alloc \<Rightarrow> elasticarray \<Rightarrow> bytes \<Rightarrow> nat \<Rightarrow> nat \<Rightarrow> (elasticarray \<times> int) option" where
  "elasticarray_append a EA src nrec reclen =
     (let bufpos = ea_size EA in
      if reclen = 0 then None
      else if nrec > SIZE_MAX div reclen \<or> szmul nrec reclen > szsub SIZE_MAX (ea_size EA)
      then Some (EA, -1)
      else do {
        let nsize = szadd (ea_size EA) (szmul nrec reclen);
        (EA', r) \<leftarrow> resize a EA nsize;
        if r \<noteq> 0 then Some (EA', -1)
        else if nrec > 0 then do {
          cassert (nsize > 0);
          dat \<leftarrow> mem_load src 0 (szmul nrec reclen);
          b \<leftarrow> mem_store (ea_buf EA') bufpos dat;
          Some (EA'\<lparr>ea_buf := b\<rparr>, 0)
        }
        else Some (EA', 0)
      })"

definition elasticarray_shrink :: "alloc \<Rightarrow> elasticarray \<Rightarrow> nat \<Rightarrow> nat \<Rightarrow> elasticarray option" where
  "elasticarray_shrink a EA nrec reclen =
     (if reclen = 0 then None
      else do {
        let nsize = (if nrec > SIZE_MAX div reclen \<or> szmul nrec reclen > ea_size EA then 0
                     else szsub (ea_size EA) (szmul nrec reclen));
        (EA', r) \<leftarrow> resize a EA nsize;
        if r \<noteq> 0 then Some (EA'\<lparr>ea_size := nsize\<rparr>) else Some EA'
      })"

definition elasticarray_truncate :: "alloc \<Rightarrow> elasticarray \<Rightarrow> elasticarray \<times> int" where
  "elasticarray_truncate a EA =
     (if ea_size EA = 0 then (EA\<lparr>ea_buf := [], ea_alloc := 0\<rparr>, 0)
      else if ea_alloc EA > ea_size EA then
        (case c_realloc a (ea_buf EA) (ea_size EA) of
           None \<Rightarrow> (EA, -1)
         | Some nbuf \<Rightarrow> (EA\<lparr>ea_buf := nbuf, ea_alloc := ea_size EA\<rparr>, 0))
      else (EA, 0))"

text \<open>The pointer returned is the offset of the record in the buffer.\<close>

definition elasticarray_get :: "elasticarray \<Rightarrow> nat \<Rightarrow> nat \<Rightarrow> nat" where
  "elasticarray_get EA pos reclen = szmul pos reclen"

text \<open>
  \<open>elasticarray_export\<close> gives the buffer and the number of records to the caller and consumes
  the array (\<open>Inr\<close>); on failure the array is kept (\<open>Inl\<close>).
\<close>

definition elasticarray_export ::
    "alloc \<Rightarrow> elasticarray \<Rightarrow> nat \<Rightarrow> (elasticarray + bytes \<times> nat) option" where
  "elasticarray_export a EA reclen =
     (case elasticarray_truncate a EA of
        (EA', r) \<Rightarrow>
          if r \<noteq> 0 then Some (Inl EA')
          else do {
            n \<leftarrow> elasticarray_getsize EA' reclen;
            Some (Inr (ea_buf EA', n))
          })"

text \<open>\<open>None\<close> inside is the failure return; the array itself is not changed.\<close>

definition elasticarray_exportdup ::
    "alloc \<Rightarrow> elasticarray \<Rightarrow> nat \<Rightarrow> (bytes \<times> nat) option option" where
  "elasticarray_exportdup a EA reclen =
     (if ea_size EA = 0 then do {
        n \<leftarrow> elasticarray_getsize EA reclen;
        Some (Some ([], n))
      }
      else (case c_realloc a [] (ea_size EA) of
              None \<Rightarrow> Some None
            | Some b \<Rightarrow> do {
                dat \<leftarrow> mem_load (ea_buf EA) 0 (ea_size EA);
                b' \<leftarrow> mem_store b 0 dat;
                n \<leftarrow> elasticarray_getsize EA reclen;
                Some (Some (b', n))
              }))"


section \<open>Invariant and contents\<close>

definition ea_inv :: "elasticarray \<Rightarrow> bool" where
  "ea_inv EA \<longleftrightarrow> length (ea_buf EA) = ea_alloc EA \<and> ea_size EA \<le> ea_alloc EA \<and>
     ea_alloc EA \<le> SIZE_MAX"

definition ea_data :: "elasticarray \<Rightarrow> bytes" where
  "ea_data EA = take (ea_size EA) (ea_buf EA)"

lemma length_ea_data [simp]: "ea_inv EA \<Longrightarrow> length (ea_data EA) = ea_size EA"
  by (simp add: ea_inv_def ea_data_def)

lemma ea_inv_sizes: "ea_inv EA \<Longrightarrow> ea_size EA \<le> SIZE_MAX"
  by (simp add: ea_inv_def)

lemma resize_nalloc_bounds:
  assumes "alloc \<le> SIZE_MAX" "nsize \<le> SIZE_MAX"
  shows "nsize \<le> resize_nalloc alloc nsize" "resize_nalloc alloc nsize \<le> SIZE_MAX"
    "alloc < nsize \<or> resize_nalloc alloc nsize \<le> alloc"
proof -
  have "nsize < alloc div 4 \<Longrightarrow> nsize * 2 \<le> SIZE_MAX" using assms by linarith
  then show "nsize \<le> resize_nalloc alloc nsize" "resize_nalloc alloc nsize \<le> SIZE_MAX"
    "alloc < nsize \<or> resize_nalloc alloc nsize \<le> alloc"
    using assms by (auto simp: resize_nalloc_def Let_def)
qed

text \<open>
  The allocation chosen is within the documented factor of the size, up to the rounding of the
  test \<open>alloc / 4 > nsize\<close>: at most \<open>4 * nsize + 3\<close> bytes.
\<close>

lemma resize_nalloc_factor:
  assumes "alloc \<le> SIZE_MAX" "nsize \<le> SIZE_MAX"
  shows "resize_nalloc alloc nsize \<le> 4 * nsize + 3"
proof (cases "alloc < nsize")
  case True
  have "szmul alloc 2 \<le> alloc * 2" by (simp add: szmul_def mod_less_eq_dividend)
  with True show ?thesis by (auto simp: resize_nalloc_def Let_def)
next
  case False
  have "szmul nsize 2 \<le> nsize * 2" by (simp add: szmul_def mod_less_eq_dividend)
  with False show ?thesis by (auto simp: resize_nalloc_def Let_def)
qed


section \<open>Correctness of the operations\<close>

lemma resize_ok:
  assumes inv: "ea_inv EA" and n: "nsize \<le> SIZE_MAX"
  shows "okp (resize a EA nsize) (\<lambda>(EA', r). ea_inv EA' \<and>
     (r = 0 \<and> ea_size EA' = nsize \<and> ea_alloc EA' = resize_nalloc (ea_alloc EA) nsize \<and>
        (\<forall>k. k \<le> nsize \<longrightarrow> k \<le> ea_size EA \<longrightarrow> take k (ea_buf EA') = take k (ea_buf EA))
      \<or> r = -1 \<and> EA' = EA \<and> a = None \<and> resize_nalloc (ea_alloc EA) nsize \<noteq> ea_alloc EA))"
proof -
  let ?na = "resize_nalloc (ea_alloc EA) nsize"
  from inv have "ea_alloc EA \<le> SIZE_MAX" by (simp add: ea_inv_def)
  note b = resize_nalloc_bounds [OF this n]
  show ?thesis
  proof (cases "c_realloc a (ea_buf EA) ?na")
    case None
    with inv b show ?thesis
      by (auto simp: resize_def Let_def wp_rules ea_inv_def)
  next
    case (Some nb)
    with inv b length_c_realloc [OF Some] take_c_realloc [OF Some] show ?thesis
      by (auto simp: resize_def Let_def wp_rules ea_inv_def)
  qed
qed

lemma elasticarray_resize_ok:
  assumes inv: "ea_inv EA" and r: "0 < reclen"
  shows "okp (elasticarray_resize a EA nrec reclen) (\<lambda>(EA', r). ea_inv EA' \<and>
     (r = 0 \<and> ea_size EA' = nrec * reclen \<and>
        ea_alloc EA' \<le> 4 * (nrec * reclen) + 3 \<and>
        take (min (ea_size EA) (nrec * reclen)) (ea_data EA') = take (nrec * reclen) (ea_data EA)
      \<or> r = -1 \<and> EA' = EA \<and> (nrec * reclen > SIZE_MAX \<or> a = None)))"
proof (cases "nrec * reclen \<le> SIZE_MAX")
  case True
  from inv have al: "ea_alloc EA \<le> SIZE_MAX" by (simp add: ea_inv_def)
  have "okp (resize a EA (nrec * reclen)) (\<lambda>(EA', r). ea_inv EA' \<and>
     (r = 0 \<and> ea_size EA' = nrec * reclen \<and>
        ea_alloc EA' \<le> 4 * (nrec * reclen) + 3 \<and>
        take (min (ea_size EA) (nrec * reclen)) (ea_data EA') = take (nrec * reclen) (ea_data EA)
      \<or> r = -1 \<and> EA' = EA \<and> a = None))"
    by (rule okp_mono [OF resize_ok [OF inv True]])
      (use resize_nalloc_factor [OF al True] in \<open>auto simp: ea_data_def min_def\<close>)
  then show ?thesis
    using True r
    by (auto simp: elasticarray_resize_def wp_rules sz_simps elim!: okp_mono)
next
  case False
  then show ?thesis
    using inv r by (simp add: elasticarray_resize_def sz_simps)
qed

lemma ea_inv_empty [simp]: "ea_inv \<lparr>ea_size = 0, ea_alloc = 0, ea_buf = []\<rparr>"
  by (simp add: ea_inv_def)

lemma elasticarray_init_ok:
  assumes r: "0 < reclen"
  shows "okp (elasticarray_init ok a nrec reclen) (\<lambda>res. case res of
     None \<Rightarrow> \<not> ok \<or> a = None \<or> nrec * reclen > SIZE_MAX
   | Some EA \<Rightarrow> ea_inv EA \<and> ea_size EA = nrec * reclen)"
  using elasticarray_resize_ok [OF ea_inv_empty r, of a nrec] r
  by (auto simp: elasticarray_init_def wp_rules elim!: okp_mono)

lemma elasticarray_append_ok:
  assumes inv: "ea_inv EA" and r: "0 < reclen" and src: "nrec * reclen \<le> length src"
  shows "okp (elasticarray_append a EA src nrec reclen) (\<lambda>(EA', r). ea_inv EA' \<and>
     (r = 0 \<and> ea_data EA' = ea_data EA @ take (nrec * reclen) src \<and>
        ea_alloc EA' \<le> 4 * ea_size EA' + 3 \<and> ea_size EA' = ea_size EA + nrec * reclen
      \<or> r = -1 \<and> EA' = EA \<and> (ea_size EA + nrec * reclen > SIZE_MAX \<or> a = None)))"
proof (cases "ea_size EA + nrec * reclen \<le> SIZE_MAX")
  case True
  from inv have al: "ea_alloc EA \<le> SIZE_MAX" "ea_size EA \<le> length (ea_buf EA)"
    by (auto simp: ea_inv_def)
  let ?n = "ea_size EA + nrec * reclen"
  have "okp (resize a EA ?n) (\<lambda>(EA', r). ea_inv EA' \<and>
     (r = 0 \<and> ea_size EA' = ?n \<and> ea_alloc EA' \<le> 4 * ?n + 3 \<and>
        take (ea_size EA) (ea_buf EA') = ea_data EA
      \<or> r = -1 \<and> EA' = EA \<and> a = None))"
    by (rule okp_mono [OF resize_ok [OF inv True]])
      (use resize_nalloc_factor [OF al(1) True] in \<open>auto simp: ea_data_def\<close>)
  then show ?thesis
    using True r src al
    by (auto simp: elasticarray_append_def Let_def wp_rules sz_simps ea_inv_def
        ea_data_def elim!: okp_mono)
next
  case False
  then have "nrec > SIZE_MAX div reclen \<or> szmul nrec reclen > szsub SIZE_MAX (ea_size EA)"
    using r ea_inv_sizes [OF inv] by (cases "nrec * reclen \<le> SIZE_MAX") (auto simp: sz_simps)
  then show ?thesis
    using False inv r by (simp add: elasticarray_append_def Let_def)
qed

lemma elasticarray_shrink_ok:
  assumes inv: "ea_inv EA" and r: "0 < reclen"
  shows "okp (elasticarray_shrink a EA nrec reclen) (\<lambda>EA'. ea_inv EA' \<and>
     ea_size EA' = ea_size EA - nrec * reclen \<and>
     ea_data EA' = take (ea_size EA - nrec * reclen) (ea_data EA) \<and>
     (ea_alloc EA' \<le> 4 * ea_size EA' + 3 \<or> a = None))"
proof -
  let ?n = "ea_size EA - nrec * reclen"
  from inv have al: "ea_alloc EA \<le> SIZE_MAX" "ea_size EA \<le> SIZE_MAX"
    by (auto simp: ea_inv_def)
  then have n: "?n \<le> SIZE_MAX" by simp
  have "(if nrec > SIZE_MAX div reclen \<or> szmul nrec reclen > ea_size EA then 0
         else szsub (ea_size EA) (szmul nrec reclen)) = ?n"
    using r al by (cases "nrec * reclen \<le> SIZE_MAX") (auto simp: sz_simps)
  moreover have "okp (resize a EA ?n) (\<lambda>(EA', r).
      ea_inv (EA'\<lparr>ea_size := ?n\<rparr>) \<and> (r = 0 \<longrightarrow> ea_size EA' = ?n \<and> ea_alloc EA' \<le> 4 * ?n + 3) \<and>
      ea_data (EA'\<lparr>ea_size := ?n\<rparr>) = take ?n (ea_data EA) \<and> (r = 0 \<or> a = None))"
    by (rule okp_mono [OF resize_ok [OF inv n]])
      (use resize_nalloc_factor [OF al(1) n] in \<open>auto simp: ea_data_def ea_inv_def\<close>)
  ultimately show ?thesis
    using r
    by (auto simp: elasticarray_shrink_def Let_def wp_rules ea_inv_def ea_data_def elim!: okp_mono)
qed

lemma elasticarray_truncate_ok:
  assumes inv: "ea_inv EA" and res: "elasticarray_truncate a EA = (EA', r)"
  shows "ea_inv EA' \<and> ea_data EA' = ea_data EA \<and> ea_size EA' = ea_size EA \<and>
     (r = 0 \<and> ea_alloc EA' = ea_size EA \<and> ea_buf EA' = ea_data EA \<or> r = -1 \<and> EA' = EA \<and> a = None)"
proof (cases "c_realloc a (ea_buf EA) (ea_size EA)")
  case None
  with assms show ?thesis
    by (auto simp: elasticarray_truncate_def ea_inv_def ea_data_def split: if_splits)
next
  case (Some nb)
  with assms length_c_realloc [OF Some] take_c_realloc [OF Some, of "ea_size EA"] show ?thesis
    by (auto simp: elasticarray_truncate_def ea_inv_def ea_data_def split: if_splits)
qed

lemma elasticarray_export_ok:
  assumes inv: "ea_inv EA" and r: "0 < reclen"
  shows "okp (elasticarray_export a EA reclen) (\<lambda>res. case res of
     Inl EA' \<Rightarrow> EA' = EA \<and> a = None
   | Inr (b, n) \<Rightarrow> b = ea_data EA \<and> n = ea_size EA div reclen)"
proof -
  obtain EA' k where t: "elasticarray_truncate a EA = (EA', k)" by force
  from elasticarray_truncate_ok [OF inv t] t r show ?thesis
    by (auto simp: elasticarray_export_def elasticarray_getsize_def)
qed

lemma elasticarray_exportdup_ok:
  assumes inv: "ea_inv EA" and r: "0 < reclen"
  shows "okp (elasticarray_exportdup a EA reclen) (\<lambda>res. case res of
     None \<Rightarrow> a = None
   | Some (b, n) \<Rightarrow> b = ea_data EA \<and> n = ea_size EA div reclen)"
proof (cases "c_realloc a [] (ea_size EA)")
  case None
  with inv r show ?thesis
    by (auto simp: elasticarray_exportdup_def elasticarray_getsize_def ea_data_def wp_rules)
next
  case (Some b)
  with inv r length_c_realloc [OF Some] show ?thesis
    by (auto simp: elasticarray_exportdup_def elasticarray_getsize_def ea_data_def ea_inv_def wp_rules)
qed



section \<open>Record arrays\<close>

text \<open>
  What the clients of an elastic array rely on: an array of records with indexed access, an
  append of one record that either adds it or changes nothing, and a shrink that removes
  records at the end.  \<open>cap\<close> bounds the number of records of a well-formed array.
\<close>

locale record_array =
  fixes inv :: "'e \<Rightarrow> bool"
    and recs :: "'e \<Rightarrow> 'r list"
    and wfrec :: "'r \<Rightarrow> bool"
    and load :: "'e \<Rightarrow> nat \<Rightarrow> 'r option"
    and store :: "'e \<Rightarrow> nat \<Rightarrow> 'r \<Rightarrow> 'e option"
    and append1 :: "alloc \<Rightarrow> 'e \<Rightarrow> 'r \<Rightarrow> ('e \<times> int) option"
    and shrink :: "alloc \<Rightarrow> 'e \<Rightarrow> nat \<Rightarrow> 'e option"
  assumes load_ok: "inv e \<Longrightarrow> i < length (recs e) \<Longrightarrow> load e i = Some (recs e ! i)"
    and store_ok: "inv e \<Longrightarrow> i < length (recs e) \<Longrightarrow> wfrec x \<Longrightarrow>
      okp (store e i x) (\<lambda>e'. inv e' \<and> recs e' = (recs e)[i := x])"
    and append1_ok: "inv e \<Longrightarrow> wfrec x \<Longrightarrow>
      okp (append1 a e x) (\<lambda>(e', r). inv e' \<and> (r = 0 \<and> recs e' = recs e @ [x] \<or> r = -1 \<and> e' = e))"
    and shrink_ok: "inv e \<Longrightarrow>
      okp (shrink a e n) (\<lambda>e'. inv e' \<and> recs e' = take (length (recs e) - n) (recs e))"
    and recs_wf: "inv e \<Longrightarrow> x \<in> set (recs e) \<Longrightarrow> wfrec x"
    and recs_bound: "inv e \<Longrightarrow> length (recs e) \<le> SIZE_MAX"
begin

lemma nth_wf: "inv e \<Longrightarrow> i < length (recs e) \<Longrightarrow> wfrec (recs e ! i)"
  by (simp add: recs_wf)

lemma copy_ok:
  assumes "inv e" "i < length (recs e)" "j < length (recs e)"
  shows "okp (do { x \<leftarrow> load e i; store e j x })
    (\<lambda>e'. inv e' \<and> recs e' = (recs e)[j := recs e ! i])"
  using assms store_ok [of e j "recs e ! i"] by (simp add: load_ok nth_wf)

lemma swap_ok:
  assumes "inv e" "i < length (recs e)" "j < length (recs e)"
  shows "okp (do { x \<leftarrow> load e i; y \<leftarrow> load e j; e' \<leftarrow> store e i y; store e' j x })
    (\<lambda>e'. inv e' \<and> recs e' = (recs e)[i := recs e ! j, j := recs e ! i])"
proof -
  have "okp (store e i (recs e ! j)) (\<lambda>e'. inv e' \<and> recs e' = (recs e)[i := recs e ! j])"
    using assms by (simp add: store_ok nth_wf)
  then obtain e' where e': "store e i (recs e ! j) = Some e'" "inv e'"
      "recs e' = (recs e)[i := recs e ! j]"
    by (auto elim: okpE)
  then have "okp (store e' j (recs e ! i)) (\<lambda>e''. inv e'' \<and> recs e'' = (recs e')[j := recs e ! i])"
    using assms by (intro store_ok) (simp_all add: nth_wf)
  with assms e' show ?thesis by (simp add: load_ok)
qed

end

text \<open>Byte records of a fixed length, accessed through the pointer of \<open>elasticarray_get\<close>.\<close>

definition ea_load :: "nat \<Rightarrow> elasticarray \<Rightarrow> nat \<Rightarrow> bytes option" where
  "ea_load reclen EA pos = mem_load (ea_buf EA) (elasticarray_get EA pos reclen) reclen"

definition ea_store :: "nat \<Rightarrow> elasticarray \<Rightarrow> nat \<Rightarrow> bytes \<Rightarrow> elasticarray option" where
  "ea_store reclen EA pos x = do {
     b \<leftarrow> mem_store (ea_buf EA) (elasticarray_get EA pos reclen) x;
     Some (EA\<lparr>ea_buf := b\<rparr>)
   }"

definition ea_append1 :: "nat \<Rightarrow> alloc \<Rightarrow> elasticarray \<Rightarrow> bytes \<Rightarrow> (elasticarray \<times> int) option" where
  "ea_append1 reclen a EA x = elasticarray_append a EA x 1 reclen"

definition ea_recinv :: "nat \<Rightarrow> elasticarray \<Rightarrow> bool" where
  "ea_recinv reclen EA \<longleftrightarrow> ea_inv EA \<and> 0 < reclen \<and> reclen dvd ea_size EA"

definition ea_records :: "nat \<Rightarrow> elasticarray \<Rightarrow> bytes list" where
  "ea_records reclen EA = records reclen (ea_data EA)"

lemma ea_record_pos:
  assumes "ea_recinv r EA" "i < length (ea_records r EA)"
  shows "elasticarray_get EA i r = i * r" "i * r + r \<le> ea_size EA" "i < ea_size EA div r"
    "i * r + r \<le> length (ea_buf EA)"
proof -
  show "i < ea_size EA div r" using assms by (simp add: ea_recinv_def ea_records_def)
  then show "i * r + r \<le> ea_size EA" by (rule rec_in_block)
  with assms show "elasticarray_get EA i r = i * r" "i * r + r \<le> length (ea_buf EA)"
    by (auto simp: elasticarray_get_def ea_recinv_def ea_inv_def)
qed

lemma ea_data_store:
  assumes "ea_recinv r EA" "i < length (ea_records r EA)" "length x = r"
  shows "take (ea_size EA) (take (i * r) (ea_buf EA) @ x @ drop (i * r + r) (ea_buf EA))
       = take (i * r) (ea_data EA) @ x @ drop (i * r + r) (ea_data EA)"
  using take_store [of "i * r" x "ea_size EA" "ea_buf EA"] ea_record_pos [OF assms(1,2)] assms
  by (simp add: ea_data_def ea_recinv_def ea_inv_def)

interpretation byterec: record_array "ea_recinv r" "ea_records r" "\<lambda>x. length x = r"
  "ea_load r" "ea_store r" "ea_append1 r" "\<lambda>a EA n. elasticarray_shrink a EA n r"
  for r
proof (unfold_locales, goal_cases)
  case (1 e i)
  note pos = ea_record_pos [OF 1]
  from 1 pos show ?case
    by (auto simp: ea_load_def mem_load_def ea_records_def ea_recinv_def ea_data_def drop_take
        min_def ea_inv_def)
next
  case (2 e i x)
  note pos = ea_record_pos [OF 2(1,2)]
  have "records r (take (i * r) (ea_data e) @ x @ drop (i * r + r) (ea_data e))
      = (ea_records r e)[i := x]"
    unfolding ea_records_def using 2 pos by (intro records_store) (auto simp: ea_recinv_def)
  with 2 pos ea_data_store [OF 2] show ?case
    by (auto simp: ea_store_def wp_rules ea_recinv_def ea_records_def ea_data_def ea_inv_def)
next
  case (3 e x a)
  then have "ea_inv e" "0 < r" "1 * r \<le> length x" by (auto simp: ea_recinv_def)
  from elasticarray_append_ok [OF this, of a] 3 show ?case
    by (auto simp: ea_append1_def ea_recinv_def ea_records_def records_append elim!: okp_mono)
next
  case (4 e a n)
  then have e: "ea_inv e" "0 < r" "r dvd ea_size e" by (auto simp: ea_recinv_def)
  then obtain k where k: "ea_size e = k * r" by (auto simp: mult.commute)
  then have "ea_size e - n * r = (k - n) * r" by (simp add: diff_mult_distrib)
  with elasticarray_shrink_ok [OF e(1,2), of a n] e k show ?case
    by (auto simp: ea_recinv_def ea_records_def records_take elim!: okp_mono)
next
  case (5 e x)
  then show ?case by (auto simp: ea_records_def length_record)
next
  case (6 e)
  then have "ea_size e div r \<le> SIZE_MAX"
    using ea_inv_sizes [of e] order_trans [OF div_le_dividend] by (auto simp: ea_recinv_def)
  with 6 show ?case by (simp add: ea_recinv_def ea_records_def)
qed


text \<open>
  The macro \<open>ELASTICARRAY_DECL\<close> turns an array of byte records into an array of a C type: an
  encoding into records carries the contract over.
\<close>

locale coded_array = record_array +
  fixes enc :: "'t \<Rightarrow> 'b" and dec :: "'b \<Rightarrow> 't"
  assumes enc_wf: "wfrec (enc t)" and dec_enc: "dec (enc t) = t"

sublocale coded_array \<subseteq> typed: record_array inv "\<lambda>e. map dec (recs e)" "\<lambda>_. True"
  "\<lambda>e i. map_option dec (load e i)" "\<lambda>e i t. store e i (enc t)"
  "\<lambda>a e t. append1 a e (enc t)" shrink
proof (unfold_locales, goal_cases)
  case (2 e i x)
  then show ?case
    using store_ok [of e i "enc x"] by (auto simp: enc_wf dec_enc map_update elim!: okp_mono)
next
  case (3 e x a)
  then show ?case
    using append1_ok [of e "enc x" a] by (auto simp: enc_wf dec_enc elim!: okp_mono)
next
  case (4 e a n)
  then show ?case
    using shrink_ok [of e a n] by (auto simp: take_map elim!: okp_mono)
qed (simp_all add: load_ok recs_bound)


section \<open>The elastic array as an abstract byte string\<close>

text \<open>One call of the interface, and one access through the pointer \<open>elasticarray_get\<close> returns.\<close>

datatype ea_op =
    EaResize alloc nat nat
  | EaGetsize nat
  | EaAppend alloc bytes nat nat
  | EaShrink alloc nat nat
  | EaTruncate alloc
  | EaLoad nat nat
  | EaStore nat nat bytes
  | EaExportdup alloc nat

datatype ea_out = EaRc int | EaNum nat | EaBytes bytes | EaCopy "(bytes \<times> nat) option" | EaVoid

fun ea_step :: "ea_op \<Rightarrow> elasticarray \<Rightarrow> (elasticarray \<times> ea_out) option" where
  "ea_step (EaResize a nrec reclen) EA = do {
     (EA', r) \<leftarrow> elasticarray_resize a EA nrec reclen; Some (EA', EaRc r) }"
| "ea_step (EaGetsize reclen) EA = do { n \<leftarrow> elasticarray_getsize EA reclen; Some (EA, EaNum n) }"
| "ea_step (EaAppend a src nrec reclen) EA = do {
     (EA', r) \<leftarrow> elasticarray_append a EA src nrec reclen; Some (EA', EaRc r) }"
| "ea_step (EaShrink a nrec reclen) EA = do {
     EA' \<leftarrow> elasticarray_shrink a EA nrec reclen; Some (EA', EaVoid) }"
| "ea_step (EaTruncate a) EA = (case elasticarray_truncate a EA of (EA', r) \<Rightarrow> Some (EA', EaRc r))"
| "ea_step (EaLoad pos reclen) EA = do { x \<leftarrow> ea_load reclen EA pos; Some (EA, EaBytes x) }"
| "ea_step (EaStore pos reclen x) EA = do { EA' \<leftarrow> ea_store reclen EA pos x; Some (EA', EaVoid) }"
| "ea_step (EaExportdup a reclen) EA = do {
     c \<leftarrow> elasticarray_exportdup a EA reclen; Some (EA, EaCopy c) }"

text \<open>What the caller has to respect: positive record lengths, and records inside the array.\<close>

fun ea_pre :: "ea_op \<Rightarrow> elasticarray \<Rightarrow> bool" where
  "ea_pre (EaResize a nrec reclen) EA = (0 < reclen)"
| "ea_pre (EaGetsize reclen) EA = (0 < reclen)"
| "ea_pre (EaAppend a src nrec reclen) EA = (0 < reclen \<and> nrec * reclen \<le> length src)"
| "ea_pre (EaShrink a nrec reclen) EA = (0 < reclen)"
| "ea_pre (EaTruncate a) EA = True"
| "ea_pre (EaLoad pos reclen) EA = (pos * reclen + reclen \<le> ea_size EA)"
| "ea_pre (EaStore pos reclen x) EA = (pos * reclen + reclen \<le> ea_size EA \<and> length x = reclen)"
| "ea_pre (EaExportdup a reclen) EA = (0 < reclen)"

fun ea_spec :: "ea_op \<Rightarrow> bytes \<Rightarrow> ea_out \<Rightarrow> bytes \<Rightarrow> bool" where
  "ea_spec (EaResize a nrec reclen) d out d' =
     (out = EaRc 0 \<and> length d' = nrec * reclen \<and> take (length d) d' = take (nrec * reclen) d
      \<or> out = EaRc (-1) \<and> d' = d \<and> (nrec * reclen > SIZE_MAX \<or> a = None))"
| "ea_spec (EaGetsize reclen) d out d' = (out = EaNum (length d div reclen) \<and> d' = d)"
| "ea_spec (EaAppend a src nrec reclen) d out d' =
     (out = EaRc 0 \<and> d' = d @ take (nrec * reclen) src
      \<or> out = EaRc (-1) \<and> d' = d \<and> (length d + nrec * reclen > SIZE_MAX \<or> a = None))"
| "ea_spec (EaShrink a nrec reclen) d out d' =
     (out = EaVoid \<and> d' = take (length d - nrec * reclen) d)"
| "ea_spec (EaTruncate a) d out d' = (d' = d \<and> (out = EaRc 0 \<or> out = EaRc (-1) \<and> a = None))"
| "ea_spec (EaLoad pos reclen) d out d' = (out = EaBytes (take reclen (drop (pos * reclen) d)) \<and> d' = d)"
| "ea_spec (EaStore pos reclen x) d out d' =
     (out = EaVoid \<and> d' = take (pos * reclen) d @ x @ drop (pos * reclen + reclen) d)"
| "ea_spec (EaExportdup a reclen) d out d' =
     (d' = d \<and> (out = EaCopy (Some (d, length d div reclen)) \<or> out = EaCopy None \<and> a = None))"

definition ea_init :: "elasticarray \<Rightarrow> bool" where
  "ea_init EA \<longleftrightarrow> (\<exists>ok a nrec reclen. 0 < reclen \<and> elasticarray_init ok a nrec reclen = Some (Some EA))"

lemma ea_load_data:
  assumes "ea_inv EA" "pos * r + r \<le> ea_size EA"
  shows "ea_load r EA pos = Some (take r (drop (pos * r) (ea_data EA)))"
proof -
  from assms have "pos * r \<le> SIZE_MAX" "pos * r + r \<le> length (ea_buf EA)" by (auto simp: ea_inv_def)
  with assms show ?thesis
    by (simp add: ea_load_def elasticarray_get_def mem_load_def ea_data_def drop_take min_def)
qed

lemma ea_store_data:
  assumes "ea_inv EA" "pos * r + r \<le> ea_size EA" "length x = r"
  shows "okp (ea_store r EA pos x) (\<lambda>EA'. ea_inv EA' \<and>
     ea_data EA' = take (pos * r) (ea_data EA) @ x @ drop (pos * r + r) (ea_data EA))"
proof -
  from assms have "pos * r \<le> SIZE_MAX" "pos * r + r \<le> length (ea_buf EA)" by (auto simp: ea_inv_def)
  with assms take_store [of "pos * r" x "ea_size EA" "ea_buf EA"] show ?thesis
    by (simp add: ea_store_def elasticarray_get_def wp_rules ea_data_def ea_inv_def)
qed

interpretation earray: machine_refinement ea_init ea_pre ea_step ea_inv ea_data ea_spec
proof (unfold_locales, goal_cases)
  case (1 s)
  then obtain ok a nrec reclen where "0 < reclen" "elasticarray_init ok a nrec reclen = Some (Some s)"
    by (auto simp: ea_init_def)
  then show ?case using elasticarray_init_ok [of reclen ok a nrec] by simp
next
  case (2 EA opn)
  note len = length_ea_data [OF 2(1)]
  show ?case
  proof (cases opn)
    case (EaResize a nrec reclen)
    with 2 len show ?thesis
      using elasticarray_resize_ok [of EA reclen a nrec]
      by (auto simp: wp_rules min_def elim!: okp_mono split: if_splits)
  next
    case (EaTruncate a)
    with 2 show ?thesis
      using elasticarray_truncate_ok [of EA a]
      by (cases "elasticarray_truncate a EA") auto
  next
    case (EaExportdup a reclen)
    with 2 len show ?thesis
      using elasticarray_exportdup_ok [of EA reclen a]
      by (auto simp: wp_rules elim!: okp_mono split: option.splits)
  next
    case (EaGetsize reclen)
    with 2 len show ?thesis by (simp add: elasticarray_getsize_def)
  next
    case (EaAppend a src nrec reclen)
    with 2 len show ?thesis
      using elasticarray_append_ok [of EA reclen nrec src a] by (auto simp: wp_rules elim!: okp_mono)
  next
    case (EaShrink a nrec reclen)
    with 2 len show ?thesis
      using elasticarray_shrink_ok [of EA reclen a nrec] by (auto simp: wp_rules elim!: okp_mono)
  next
    case (EaLoad pos reclen)
    with 2 show ?thesis by (simp add: ea_load_data)
  next
    case (EaStore pos reclen x)
    with 2 show ?thesis using ea_store_data [of EA pos reclen x] by (auto simp: wp_rules elim!: okp_mono)
  qed
qed


section \<open>Properties\<close>

definition ea_ex0 :: elasticarray where
  "ea_ex0 = \<lparr>ea_size = 0, ea_alloc = 0, ea_buf = []\<rparr>"

lemma ea_ex0_init: "ea_init ea_ex0"
proof -
  have "elasticarray_init True (Some (\<lambda>_. 0)) 0 1 = Some (Some ea_ex0)"
    by (simp add: ea_ex0_def elasticarray_init_def elasticarray_resize_def resize_def resize_nalloc_def)
  then show ?thesis unfolding ea_init_def using zero_less_one by blast
qed

lemma ea_ex0_reach: "reach ea_init ea_pre ea_step ea_ex0"
  by (rule reach_init) (rule ea_ex0_init)

text \<open>
  C11.  The elastic array refines a byte string.  In every reachable state, and for every
  argument including those whose product overflows \<open>size_t\<close>, each call returns without a fault;
  a failing call (overflow, or the allocator says no) leaves the contents as they were, and a
  succeeding one has the effect of the operation on byte strings.  A shrink never fails.
\<close>

theorem elasticarray_refines:
  assumes "reach ea_init ea_pre ea_step EA" "ea_pre opn EA"
  shows "okp (ea_step opn EA) (\<lambda>(EA', out). ea_spec opn (ea_data EA) out (ea_data EA'))"
  using earray.reach_spec [OF assms] .

theorem elasticarray_refines_witness:
  "okp (ea_step (EaAppend (Some (\<lambda>_. 0)) [1, 2, 3] 3 1) ea_ex0)
     (\<lambda>(EA', out). ea_spec (EaAppend (Some (\<lambda>_. 0)) [1, 2, 3] 3 1) (ea_data ea_ex0) out (ea_data EA'))"
  by (rule elasticarray_refines [OF ea_ex0_reach]) simp

text \<open>
  C33.  Memory use.  After a successful resize, append or (when the allocator lets it) shrink
  the allocation exceeds four times the contents by at most three bytes.
\<close>

theorem elasticarray_memory_bound:
  assumes "ea_inv EA" "0 < reclen" "nrec * reclen \<le> length src"
  shows "okp (elasticarray_append a EA src nrec reclen) (\<lambda>(EA', r). r = 0 \<longrightarrow> ea_alloc EA' \<le> 4 * ea_size EA' + 3)
    \<and> okp (elasticarray_resize a EA nrec reclen) (\<lambda>(EA', r). r = 0 \<longrightarrow> ea_alloc EA' \<le> 4 * ea_size EA' + 3)
    \<and> okp (elasticarray_shrink a EA nrec reclen) (\<lambda>EA'. a \<noteq> None \<longrightarrow> ea_alloc EA' \<le> 4 * ea_size EA' + 3)"
  using elasticarray_append_ok [OF assms, of a] elasticarray_resize_ok [OF assms(1,2), of a nrec]
    elasticarray_shrink_ok [OF assms(1,2), of a nrec]
  by (auto elim!: okp_mono)

theorem elasticarray_memory_bound_witness:
  "okp (elasticarray_shrink (Some (\<lambda>_. 0)) \<lparr>ea_size = 9, ea_alloc = 16, ea_buf = replicate 16 5\<rparr> 4 2)
     (\<lambda>EA'. Some (\<lambda>_. 0 :: u8) \<noteq> None \<longrightarrow> ea_alloc EA' \<le> 4 * ea_size EA' + 3)"
  using elasticarray_memory_bound [of "\<lparr>ea_size = 9, ea_alloc = 16, ea_buf = replicate 16 5\<rparr>" 2 4
      "replicate 8 0" "Some (\<lambda>_. 0)"]
  by (simp add: ea_inv_def SIZE_MAX_def)

end
