(* ===== verification/Elastic_Queue.thy ===== *)
theory Elastic_Queue
  imports Elastic_Array
begin

text \<open>
  The elastic queue of \<open>datastruct/elasticqueue.c\<close>: an elastic array of records of which the
  first \<open>offset\<close> have been deleted.  Deleting moves the remaining records to the front once
  more than half of the array is dead.
\<close>

section \<open>State and operations\<close>

record elasticqueue =
  eq_ea :: elasticarray
  eq_offset :: nat
  eq_len :: nat
  eq_reclen :: nat

definition elasticqueue_init :: "bool \<Rightarrow> bool \<Rightarrow> alloc \<Rightarrow> nat \<Rightarrow> elasticqueue option option" where
  "elasticqueue_init ok ok' a reclen = do {
     cassert (reclen > 0);
     if \<not> ok then Some None
     else do {
       EA \<leftarrow> elasticarray_init ok' a 0 reclen;
       Some (case EA of
          None \<Rightarrow> None
        | Some EA \<Rightarrow> Some \<lparr>eq_ea = EA, eq_offset = 0, eq_len = 0, eq_reclen = reclen\<rparr>)
     }
   }"

definition elasticqueue_add :: "alloc \<Rightarrow> elasticqueue \<Rightarrow> bytes \<Rightarrow> (elasticqueue \<times> int) option" where
  "elasticqueue_add a EQ x = do {
     (EA, r) \<leftarrow> elasticarray_append a (eq_ea EQ) x 1 (eq_reclen EQ);
     if r \<noteq> 0 then Some (EQ\<lparr>eq_ea := EA\<rparr>, -1)
     else Some (EQ\<lparr>eq_ea := EA, eq_len := szadd (eq_len EQ) 1\<rparr>, 0)
   }"

text \<open>The loop of \<open>elasticqueue_delete\<close> that moves the live records to the front.\<close>

function eq_move :: "nat \<Rightarrow> nat \<Rightarrow> nat \<Rightarrow> nat \<Rightarrow> elasticarray \<Rightarrow> elasticarray option" where
  "eq_move reclen offset len i EA =
     (if i < len then do {
        x \<leftarrow> ea_load reclen EA (szadd i offset);
        EA' \<leftarrow> ea_store reclen EA i x;
        eq_move reclen offset len (Suc i) EA'
      }
      else Some EA)"
  by pat_completeness auto
termination
  by (relation "measure (\<lambda>(reclen, offset, len, i, EA). len - i)") auto

declare eq_move.simps [simp del]

definition elasticqueue_delete :: "alloc \<Rightarrow> elasticqueue \<Rightarrow> elasticqueue option" where
  "elasticqueue_delete a EQ =
     (if eq_len EQ = 0 then Some EQ
      else do {
        let offset = szadd (eq_offset EQ) 1;
        let len = szsub (eq_len EQ) 1;
        if offset > len then do {
          EA \<leftarrow> eq_move (eq_reclen EQ) offset len 0 (eq_ea EQ);
          EA' \<leftarrow> elasticarray_shrink a EA offset (eq_reclen EQ);
          Some (EQ\<lparr>eq_ea := EA', eq_offset := 0, eq_len := len\<rparr>)
        }
        else Some (EQ\<lparr>eq_offset := offset, eq_len := len\<rparr>)
      })"

definition elasticqueue_getlen :: "elasticqueue \<Rightarrow> nat" where
  "elasticqueue_getlen EQ = eq_len EQ"

text \<open>\<open>None\<close> is the \<open>NULL\<close> pointer; otherwise the offset of the record in the array.\<close>

definition elasticqueue_get :: "elasticqueue \<Rightarrow> nat \<Rightarrow> nat option" where
  "elasticqueue_get EQ pos =
     (if pos \<ge> eq_len EQ then None
      else Some (elasticarray_get (eq_ea EQ) (szadd pos (eq_offset EQ)) (eq_reclen EQ)))"

text \<open>Reading and writing a record through that pointer; \<open>NULL\<close> is a fault.\<close>

definition eq_load :: "elasticqueue \<Rightarrow> nat \<Rightarrow> bytes option" where
  "eq_load EQ pos = do {
     p \<leftarrow> elasticqueue_get EQ pos;
     mem_load (ea_buf (eq_ea EQ)) p (eq_reclen EQ)
   }"

definition eq_store :: "elasticqueue \<Rightarrow> nat \<Rightarrow> bytes \<Rightarrow> elasticqueue option" where
  "eq_store EQ pos x = do {
     p \<leftarrow> elasticqueue_get EQ pos;
     b \<leftarrow> mem_store (ea_buf (eq_ea EQ)) p x;
     Some (EQ\<lparr>eq_ea := (eq_ea EQ)\<lparr>ea_buf := b\<rparr>\<rparr>)
   }"


section \<open>Invariant and contents\<close>

definition eq_inv :: "elasticqueue \<Rightarrow> bool" where
  "eq_inv EQ \<longleftrightarrow> ea_recinv (eq_reclen EQ) (eq_ea EQ) \<and>
     eq_offset EQ + eq_len EQ = length (ea_records (eq_reclen EQ) (eq_ea EQ)) \<and>
     eq_offset EQ \<le> eq_len EQ"

definition eq_list :: "elasticqueue \<Rightarrow> bytes list" where
  "eq_list EQ = drop (eq_offset EQ) (ea_records (eq_reclen EQ) (eq_ea EQ))"

lemma length_eq_list: "eq_inv EQ \<Longrightarrow> length (eq_list EQ) = eq_len EQ"
  by (auto simp: eq_inv_def eq_list_def)

lemma eq_inv_bound: "eq_inv EQ \<Longrightarrow> eq_offset EQ + eq_len EQ \<le> SIZE_MAX"
  using byterec.recs_bound by (auto simp: eq_inv_def)

lemma elasticqueue_init_ok:
  assumes "0 < reclen"
  shows "okp (elasticqueue_init ok ok' a reclen) (\<lambda>res. case res of
     None \<Rightarrow> \<not> ok \<or> \<not> ok' \<or> a = None
   | Some EQ \<Rightarrow> eq_inv EQ \<and> eq_reclen EQ = reclen \<and> eq_list EQ = [])"
  using elasticarray_init_ok [OF assms, of ok' a 0] assms
  by (auto simp: elasticqueue_init_def wp_rules eq_inv_def eq_list_def ea_recinv_def ea_records_def
      ea_data_def elim!: okp_mono split: option.splits)

lemma elasticqueue_add_ok:
  assumes inv: "eq_inv EQ" and x: "length x = eq_reclen EQ"
  shows "okp (elasticqueue_add a EQ x) (\<lambda>(EQ', r). eq_inv EQ' \<and> eq_reclen EQ' = eq_reclen EQ \<and>
     (r = 0 \<and> eq_list EQ' = eq_list EQ @ [x] \<or> r = -1 \<and> EQ' = EQ))"
proof -
  let ?r = "eq_reclen EQ"
  from inv have i: "ea_recinv ?r (eq_ea EQ)" by (simp add: eq_inv_def)
  have "okp (elasticarray_append a (eq_ea EQ) x 1 ?r) (\<lambda>(e', r). ea_recinv ?r e' \<and>
     (r = 0 \<and> ea_records ?r e' = ea_records ?r (eq_ea EQ) @ [x] \<or> r = -1 \<and> e' = eq_ea EQ))"
    using byterec.append1_ok [OF i x, of a] by (simp add: ea_append1_def)
  then show ?thesis
    unfolding elasticqueue_add_def okp_bind
  proof (rule okp_mono, clarify)
    fix e and r :: int
    assume e: "ea_recinv ?r e"
      and c: "r = 0 \<and> ea_records ?r e = ea_records ?r (eq_ea EQ) @ [x] \<or> r = -1 \<and> e = eq_ea EQ"
    have "length (ea_records ?r e) \<le> SIZE_MAX" by (rule byterec.recs_bound [OF e])
    with e c inv
    show "okp (if r \<noteq> 0 then Some (EQ\<lparr>eq_ea := e\<rparr>, -1)
        else Some (EQ\<lparr>eq_ea := e, eq_len := szadd (eq_len EQ) 1\<rparr>, 0))
       (\<lambda>(EQ', r). eq_inv EQ' \<and> eq_reclen EQ' = eq_reclen EQ \<and>
         (r = 0 \<and> eq_list EQ' = eq_list EQ @ [x] \<or> r = -1 \<and> EQ' = EQ))"
      by (auto simp: eq_inv_def eq_list_def)
  qed
qed

lemma eq_move_ok:
  assumes "ea_recinv r EA" "i \<le> len" "offset + len \<le> length (ea_records r EA)"
  shows "okp (eq_move r offset len i EA) (\<lambda>EA'. ea_recinv r EA' \<and>
     length (ea_records r EA') = length (ea_records r EA) \<and>
     take len (ea_records r EA')
       = take i (ea_records r EA) @ take (len - i) (drop (i + offset) (ea_records r EA)))"
  using assms
proof (induction r offset len i EA rule: eq_move.induct)
  case (1 r offset len i EA)
  let ?L = "ea_records r EA"
  show ?case
  proof (cases "i < len")
    case True
    with 1(4) have b: "i < length ?L" "i + offset < length ?L" by auto
    have "length ?L \<le> SIZE_MAX" by (rule byterec.recs_bound [OF 1(2)])
    with b have sz: "szadd i offset = i + offset" by simp
    have ld: "ea_load r EA (i + offset) = Some (?L ! (i + offset))"
      by (rule byterec.load_ok [OF 1(2) b(2)])
    from byterec.store_ok [OF 1(2) b(1) byterec.nth_wf [OF 1(2) b(2)]]
    obtain EA' where st: "ea_store r EA i (?L ! (i + offset)) = Some EA'"
      and inv: "ea_recinv r EA'" and L': "ea_records r EA' = ?L[i := ?L ! (i + offset)]"
      by (auto elim: okpE)
    have "okp (eq_move r offset len (Suc i) EA') (\<lambda>EA''. ea_recinv r EA'' \<and>
       length (ea_records r EA'') = length (ea_records r EA') \<and>
       take len (ea_records r EA'') = take (Suc i) (ea_records r EA')
         @ take (len - Suc i) (drop (Suc i + offset) (ea_records r EA')))"
      using True 1(4) sz ld st inv L' by (intro 1(1)) auto
    moreover have "take (Suc i) (ea_records r EA')
        @ take (len - Suc i) (drop (Suc i + offset) (ea_records r EA'))
      = take i ?L @ take (len - i) (drop (i + offset) ?L)"
    proof -
      have "take (len - i) (drop (i + offset) ?L)
          = ?L ! (i + offset) # take (len - Suc i) (drop (Suc (i + offset)) ?L)"
        using True b by (metis Cons_nth_drop_Suc Suc_diff_Suc take_Suc_Cons)
      then show ?thesis
        using b by (simp add: L' take_Suc_conv_app_nth)
    qed
    ultimately show ?thesis
      using True sz ld st L' by (simp add: eq_move.simps [of r offset len i EA])
  next
    case False
    with 1(2-4) show ?thesis by (simp add: eq_move.simps [of r offset len])
  qed
qed

lemma elasticqueue_delete_ok:
  assumes inv: "eq_inv EQ"
  shows "okp (elasticqueue_delete a EQ) (\<lambda>EQ'. eq_inv EQ' \<and> eq_reclen EQ' = eq_reclen EQ \<and>
     eq_list EQ' = tl (eq_list EQ))"
proof (cases "eq_len EQ = 0")
  case True
  with inv show ?thesis
    using length_eq_list [OF inv] by (simp add: elasticqueue_delete_def)
next
  case False
  let ?r = "eq_reclen EQ" and ?L = "ea_records (eq_reclen EQ) (eq_ea EQ)"
  let ?o = "Suc (eq_offset EQ)" and ?n = "eq_len EQ - 1"
  from inv have i: "ea_recinv ?r (eq_ea EQ)" and L: "length ?L = ?o + ?n"
    using False by (auto simp: eq_inv_def)
  from eq_inv_bound [OF inv] False have sz: "szadd (eq_offset EQ) 1 = ?o" "szsub (eq_len EQ) 1 = ?n"
    by auto
  show ?thesis
  proof (cases "?o > ?n")
    case True
    from eq_move_ok [OF i, of 0 ?n ?o] L obtain EA where m: "eq_move ?r ?o ?n 0 (eq_ea EQ) = Some EA"
      and EA: "ea_recinv ?r EA" "length (ea_records ?r EA) = ?o + ?n"
        "take ?n (ea_records ?r EA) = take ?n (drop ?o ?L)"
      by (auto elim: okpE)
    from L have "take ?n (drop ?o ?L) = tl (eq_list EQ)"
      by (simp add: eq_list_def tl_drop drop_Suc)
    with True False byterec.shrink_ok [OF EA(1), of a ?o] EA(2,3) sz m L show ?thesis
      by (auto simp: elasticqueue_delete_def wp_rules eq_inv_def eq_list_def elim!: okp_mono)
  next
    case False
    with L i sz \<open>eq_len EQ \<noteq> 0\<close> show ?thesis
      by (auto simp: elasticqueue_delete_def eq_inv_def eq_list_def tl_drop drop_Suc)
  qed
qed

lemma eq_load_ok:
  assumes inv: "eq_inv EQ" and p: "pos < eq_len EQ"
  shows "eq_load EQ pos = Some (eq_list EQ ! pos)"
proof -
  let ?r = "eq_reclen EQ"
  from inv p have i: "ea_recinv ?r (eq_ea EQ)"
    and b: "pos + eq_offset EQ < length (ea_records ?r (eq_ea EQ))"
    by (auto simp: eq_inv_def)
  from byterec.load_ok [OF i b] inv p eq_inv_bound [OF inv] show ?thesis
    by (auto simp: eq_load_def elasticqueue_get_def ea_load_def eq_list_def eq_inv_def add.commute)
qed

lemma eq_store_ok:
  assumes inv: "eq_inv EQ" and p: "pos < eq_len EQ" and x: "length x = eq_reclen EQ"
  shows "okp (eq_store EQ pos x) (\<lambda>EQ'. eq_inv EQ' \<and> eq_reclen EQ' = eq_reclen EQ \<and>
     eq_list EQ' = (eq_list EQ)[pos := x])"
proof -
  let ?r = "eq_reclen EQ"
  from inv p have i: "ea_recinv ?r (eq_ea EQ)"
    and b: "pos + eq_offset EQ < length (ea_records ?r (eq_ea EQ))"
    by (auto simp: eq_inv_def)
  from byterec.store_ok [OF i b x] inv p eq_inv_bound [OF inv] show ?thesis
    by (auto simp: eq_store_def elasticqueue_get_def ea_store_def wp_rules eq_inv_def eq_list_def
        drop_update_swap elim!: okp_mono)
qed


section \<open>The queue contract\<close>

text \<open>
  What the clients of a queue rely on: records in the order of insertion, random access to
  them, and an insertion that adds the record at the end or changes nothing.
\<close>

locale record_queue =
  fixes inv :: "'q \<Rightarrow> bool"
    and items :: "'q \<Rightarrow> 'r list"
    and wfrec :: "'q \<Rightarrow> 'r \<Rightarrow> bool"
    and add :: "alloc \<Rightarrow> 'q \<Rightarrow> 'r \<Rightarrow> ('q \<times> int) option"
    and del :: "alloc \<Rightarrow> 'q \<Rightarrow> 'q option"
    and len :: "'q \<Rightarrow> nat"
    and load :: "'q \<Rightarrow> nat \<Rightarrow> 'r option"
    and store :: "'q \<Rightarrow> nat \<Rightarrow> 'r \<Rightarrow> 'q option"
  assumes add_ok: "inv q \<Longrightarrow> wfrec q x \<Longrightarrow> okp (add a q x) (\<lambda>(q', r). inv q' \<and> wfrec q' = wfrec q \<and>
      (r = 0 \<and> items q' = items q @ [x] \<or> r = -1 \<and> q' = q))"
    and del_ok: "inv q \<Longrightarrow> okp (del a q) (\<lambda>q'. inv q' \<and> wfrec q' = wfrec q \<and> items q' = tl (items q))"
    and len_ok: "inv q \<Longrightarrow> len q = length (items q)"
    and load_ok: "inv q \<Longrightarrow> i < length (items q) \<Longrightarrow> load q i = Some (items q ! i)"
    and store_ok: "inv q \<Longrightarrow> i < length (items q) \<Longrightarrow> wfrec q x \<Longrightarrow>
      okp (store q i x) (\<lambda>q'. inv q' \<and> wfrec q' = wfrec q \<and> items q' = (items q)[i := x])"
    and len_bound: "inv q \<Longrightarrow> length (items q) \<le> SIZE_MAX"
begin

text \<open>A record stays reachable, at a position that moves to the front, until it is deleted.\<close>

lemma load_after_add:
  assumes "inv q" "wfrec q x" "add a q x = Some (q', 0)"
  shows "load q' (len q) = Some x"
  using add_ok [OF assms(1,2), of a] assms(1,3) by (auto simp: len_ok load_ok)

lemma load_after_del:
  assumes "inv q" "del a q = Some q'" "Suc i < len q"
  shows "load q' i = load q (Suc i)"
proof -
  from del_ok [OF assms(1), of a] assms(2) have "inv q'" "items q' = tl (items q)" by auto
  with assms(1,3) show ?thesis by (simp add: load_ok len_ok nth_tl)
qed

end

interpretation eq: record_queue eq_inv eq_list "\<lambda>EQ x. length x = eq_reclen EQ"
  elasticqueue_add elasticqueue_delete elasticqueue_getlen eq_load eq_store
proof (unfold_locales, goal_cases)
  case (1 q x a)
  from elasticqueue_add_ok [OF this, of a] show ?case by (auto elim!: okp_mono)
next
  case (2 q a)
  from elasticqueue_delete_ok [OF this, of a] show ?case by (auto elim!: okp_mono)
next
  case (3 q)
  then show ?case by (simp add: elasticqueue_getlen_def length_eq_list)
next
  case (4 q i)
  then show ?case by (simp add: eq_load_ok length_eq_list)
next
  case (5 q i x)
  then show ?case using eq_store_ok [of q i x] by (auto simp: length_eq_list elim!: okp_mono)
next
  case (6 q)
  then show ?case using eq_inv_bound [of q] by (simp add: length_eq_list)
qed


section \<open>The elastic queue as an abstract list of records\<close>

text \<open>One call of the interface, and one access through the pointer \<open>elasticqueue_get\<close> returns.\<close>

datatype eq_op =
    EqAdd alloc bytes
  | EqDelete alloc
  | EqLen
  | EqGet nat
  | EqSet nat bytes

datatype eq_out = EqRc int | EqVoid | EqNum nat | EqRec "bytes option"

fun eq_step :: "eq_op \<Rightarrow> elasticqueue \<Rightarrow> (elasticqueue \<times> eq_out) option" where
  "eq_step (EqAdd a x) EQ = do { (EQ', r) \<leftarrow> elasticqueue_add a EQ x; Some (EQ', EqRc r) }"
| "eq_step (EqDelete a) EQ = do { EQ' \<leftarrow> elasticqueue_delete a EQ; Some (EQ', EqVoid) }"
| "eq_step EqLen EQ = Some (EQ, EqNum (elasticqueue_getlen EQ))"
| "eq_step (EqGet pos) EQ =
     (case elasticqueue_get EQ pos of
        None \<Rightarrow> Some (EQ, EqRec None)
      | Some p \<Rightarrow> do { x \<leftarrow> mem_load (ea_buf (eq_ea EQ)) p (eq_reclen EQ); Some (EQ, EqRec (Some x)) })"
| "eq_step (EqSet pos x) EQ = do { EQ' \<leftarrow> eq_store EQ pos x; Some (EQ', EqVoid) }"

fun eq_pre :: "eq_op \<Rightarrow> elasticqueue \<Rightarrow> bool" where
  "eq_pre (EqAdd a x) EQ = (length x = eq_reclen EQ)"
| "eq_pre (EqSet pos x) EQ = (length x = eq_reclen EQ \<and> pos < elasticqueue_getlen EQ)"
| "eq_pre _ EQ = True"

text \<open>First in, first out, with access to every element and \<open>NULL\<close> past the end.\<close>

fun eq_spec :: "eq_op \<Rightarrow> bytes list \<Rightarrow> eq_out \<Rightarrow> bytes list \<Rightarrow> bool" where
  "eq_spec (EqAdd a x) xs out xs' = (out = EqRc 0 \<and> xs' = xs @ [x] \<or> out = EqRc (-1) \<and> xs' = xs)"
| "eq_spec (EqDelete a) xs out xs' = (out = EqVoid \<and> xs' = tl xs)"
| "eq_spec EqLen xs out xs' = (out = EqNum (length xs) \<and> xs' = xs)"
| "eq_spec (EqGet pos) xs out xs' =
     (out = EqRec (if pos < length xs then Some (xs ! pos) else None) \<and> xs' = xs)"
| "eq_spec (EqSet pos x) xs out xs' = (out = EqVoid \<and> xs' = xs[pos := x])"

definition eq_init :: "elasticqueue \<Rightarrow> bool" where
  "eq_init EQ \<longleftrightarrow> (\<exists>ok ok' a reclen. 0 < reclen \<and> elasticqueue_init ok ok' a reclen = Some (Some EQ))"

interpretation equeue: machine_refinement eq_init eq_pre eq_step eq_inv eq_list eq_spec
proof (unfold_locales, goal_cases)
  case (1 s)
  then obtain ok ok' a reclen where "0 < reclen" "elasticqueue_init ok ok' a reclen = Some (Some s)"
    by (auto simp: eq_init_def)
  then show ?case using elasticqueue_init_ok [of reclen ok ok' a] by simp
next
  case (2 EQ opn)
  note len = length_eq_list [OF 2(1)]
  show ?case
  proof (cases opn)
    case (EqAdd a x)
    with 2 show ?thesis using elasticqueue_add_ok [of EQ x a] by (auto simp: wp_rules elim!: okp_mono)
  next
    case (EqDelete a)
    with 2 show ?thesis using elasticqueue_delete_ok [of EQ a] by (auto simp: wp_rules elim!: okp_mono)
  next
    case EqLen
    with 2 len show ?thesis by (simp add: elasticqueue_getlen_def)
  next
    case (EqGet pos)
    with 2 len eq_load_ok [of EQ pos] show ?thesis
      by (cases "pos < eq_len EQ") (auto simp: eq_load_def elasticqueue_get_def)
  next
    case (EqSet pos x)
    with 2 show ?thesis
      using eq_store_ok [of EQ pos x] by (auto simp: wp_rules elasticqueue_getlen_def elim!: okp_mono)
  qed
qed


section \<open>Properties\<close>

definition eq_ex0 :: elasticqueue where
  "eq_ex0 = \<lparr>eq_ea = \<lparr>ea_size = 0, ea_alloc = 0, ea_buf = []\<rparr>, eq_offset = 0, eq_len = 0, eq_reclen = 2\<rparr>"

lemma eq_ex0_init: "eq_init eq_ex0"
proof -
  have "elasticqueue_init True True (Some (\<lambda>_. 0)) 2 = Some (Some eq_ex0)"
    by (simp add: eq_ex0_def elasticqueue_init_def elasticarray_init_def elasticarray_resize_def
        resize_def resize_nalloc_def)
  moreover have "0 < (2 :: nat)" by simp
  ultimately show ?thesis unfolding eq_init_def by blast
qed

lemma eq_ex0_reach: "reach eq_init eq_pre eq_step eq_ex0"
  by (rule reach_init) (rule eq_ex0_init)

text \<open>
  C10.  The elastic queue refines a list of records: in every reachable state an addition
  appends the record or reports failure and changes nothing, a deletion drops the first record
  (compacting the array when the dead prefix outgrows the queue), an access at any position
  yields the record there, \<open>NULL\<close> past the end, and a write through the returned pointer
  changes that record only.  No access leaves the allocated block.
\<close>

theorem elasticqueue_refines:
  assumes "reach eq_init eq_pre eq_step EQ" "eq_pre opn EQ"
  shows "okp (eq_step opn EQ) (\<lambda>(EQ', out). eq_spec opn (eq_list EQ) out (eq_list EQ'))"
  using equeue.reach_spec [OF assms] .

theorem elasticqueue_refines_witness:
  "okp (eq_step (EqAdd (Some (\<lambda>_. 0)) [1, 2]) eq_ex0)
     (\<lambda>(EQ', out). eq_spec (EqAdd (Some (\<lambda>_. 0)) [1, 2]) (eq_list eq_ex0) out (eq_list EQ'))"
  by (rule elasticqueue_refines [OF eq_ex0_reach]) (simp add: eq_ex0_def)

end
