(* ===== verification/Sysendian.thy ===== *)
theory Sysendian
  imports Prelude
begin

text \<open>
  The byte-order functions of \<open>util/sysendian.h\<close>.  A decoder reads the bytes its pointer
  points at; an encoder yields the bytes it stores, in memory order.
\<close>

section \<open>Definitions\<close>

definition be16dec :: "bytes \<Rightarrow> u16" where
  "be16dec p = ucast (p ! 1) OR push_bit 8 (ucast (p ! 0))"

definition be16enc :: "u16 \<Rightarrow> bytes" where
  "be16enc x = [ucast (drop_bit 8 x AND 0xff), ucast (x AND 0xff)]"

definition be32dec :: "bytes \<Rightarrow> u32" where
  "be32dec p = ucast (p ! 3) OR push_bit 8 (ucast (p ! 2)) OR
     push_bit 16 (ucast (p ! 1)) OR push_bit 24 (ucast (p ! 0))"

definition be32enc :: "u32 \<Rightarrow> bytes" where
  "be32enc x = [ucast (drop_bit 24 x AND 0xff), ucast (drop_bit 16 x AND 0xff),
     ucast (drop_bit 8 x AND 0xff), ucast (x AND 0xff)]"

definition be64dec :: "bytes \<Rightarrow> u64" where
  "be64dec p = ucast (p ! 7) OR push_bit 8 (ucast (p ! 6)) OR
     push_bit 16 (ucast (p ! 5)) OR push_bit 24 (ucast (p ! 4)) OR
     push_bit 32 (ucast (p ! 3)) OR push_bit 40 (ucast (p ! 2)) OR
     push_bit 48 (ucast (p ! 1)) OR push_bit 56 (ucast (p ! 0))"

definition be64enc :: "u64 \<Rightarrow> bytes" where
  "be64enc x = [ucast (drop_bit 56 x AND 0xff), ucast (drop_bit 48 x AND 0xff),
     ucast (drop_bit 40 x AND 0xff), ucast (drop_bit 32 x AND 0xff),
     ucast (drop_bit 24 x AND 0xff), ucast (drop_bit 16 x AND 0xff),
     ucast (drop_bit 8 x AND 0xff), ucast (x AND 0xff)]"

definition le16dec :: "bytes \<Rightarrow> u16" where
  "le16dec p = ucast (p ! 0) OR push_bit 8 (ucast (p ! 1))"

definition le16enc :: "u16 \<Rightarrow> bytes" where
  "le16enc x = [ucast (x AND 0xff), ucast (drop_bit 8 x AND 0xff)]"

definition le32dec :: "bytes \<Rightarrow> u32" where
  "le32dec p = ucast (p ! 0) OR push_bit 8 (ucast (p ! 1)) OR
     push_bit 16 (ucast (p ! 2)) OR push_bit 24 (ucast (p ! 3))"

definition le32enc :: "u32 \<Rightarrow> bytes" where
  "le32enc x = [ucast (x AND 0xff), ucast (drop_bit 8 x AND 0xff),
     ucast (drop_bit 16 x AND 0xff), ucast (drop_bit 24 x AND 0xff)]"

definition le64dec :: "bytes \<Rightarrow> u64" where
  "le64dec p = ucast (p ! 0) OR push_bit 8 (ucast (p ! 1)) OR
     push_bit 16 (ucast (p ! 2)) OR push_bit 24 (ucast (p ! 3)) OR
     push_bit 32 (ucast (p ! 4)) OR push_bit 40 (ucast (p ! 5)) OR
     push_bit 48 (ucast (p ! 6)) OR push_bit 56 (ucast (p ! 7))"

definition le64enc :: "u64 \<Rightarrow> bytes" where
  "le64enc x = [ucast (x AND 0xff), ucast (drop_bit 8 x AND 0xff),
     ucast (drop_bit 16 x AND 0xff), ucast (drop_bit 24 x AND 0xff),
     ucast (drop_bit 32 x AND 0xff), ucast (drop_bit 40 x AND 0xff),
     ucast (drop_bit 48 x AND 0xff), ucast (drop_bit 56 x AND 0xff)]"


section \<open>Round trips\<close>

text \<open>
  Each round trip is an identity on bit masks: an encoded byte is the word restricted to eight
  bits, and a decoded word is the disjunction of its bytes at their positions.
\<close>

lemma bit_255 [simp]: "bit (255 :: int) n \<longleftrightarrow> n < 8"
proof -
  have "(255 :: int) = mask 8" by (simp add: mask_eq_exp_minus_1)
  then have "bit (255 :: int) n = bit (mask 8 :: int) n" by (simp only:)
  then show ?thesis by (simp only: bit_mask_iff) simp
qed

lemma push_drop_and:
  "push_bit k (drop_bit k x) AND m = x AND (push_bit k (- 1) AND (m :: 'a::len word))"
  by (rule bit_word_eqI) (auto simp: bit_simps)

lemma and_full: "(a :: u16) AND 0xffff = a" "(b :: u32) AND 0xffffffff = b"
  "(c :: u64) AND 0xffffffffffffffff = c"
proof -
  have "(0xffff :: u16) = - 1" "(0xffffffff :: u32) = - 1" "(0xffffffffffffffff :: u64) = - 1"
    by simp_all
  then show "(a :: u16) AND 0xffff = a" "(b :: u32) AND 0xffffffff = b"
    "(c :: u64) AND 0xffffffffffffffff = c"
    by (simp_all only: and.right_neutral)
qed

lemma push_byte:
  "push_bit k (ucast (ucast (drop_bit k x AND 255) :: u8)) = x AND push_bit k (255 :: 'a::len word)"
  by (rule bit_word_eqI) (auto simp: bit_simps)

lemma push_byte0:
  "ucast (ucast (x AND 255) :: u8) = x AND (255 :: 'a::len word)"
  using push_byte [of 0 x] by simp

lemma byte_of_push:
  assumes "i + 8 \<le> LENGTH('a)" "k = i \<or> k + 8 \<le> i \<or> i + 8 \<le> k"
  shows "ucast (drop_bit k (push_bit i (ucast (b :: u8)) :: 'a::len word) AND 255) = (if k = i then b else 0)"
  using assms by (intro bit_word_eqI) (auto simp: bit_simps dest: bit_imp_le_length)

lemma byte_of_push0:
  assumes "8 \<le> LENGTH('a)"
  shows "ucast ((ucast (b :: u8) :: 'a::len word) AND 255) = b"
    "0 < i \<Longrightarrow> 8 \<le> i \<Longrightarrow> i + 8 \<le> LENGTH('a) \<Longrightarrow>
       ucast ((push_bit i (ucast b) :: 'a word) AND 255) = (0 :: u8)"
    "8 \<le> k \<Longrightarrow> ucast (drop_bit k (ucast b :: 'a word) AND 255) = (0 :: u8)"
  using byte_of_push [of 0 0 b, where 'a = 'a] byte_of_push [of i 0 b, where 'a = 'a]
    byte_of_push [of 0 k b, where 'a = 'a] assms by simp_all

lemmas enc_defs = be16enc_def be32enc_def be64enc_def le16enc_def le32enc_def le64enc_def
lemmas dec_defs = be16dec_def be32dec_def be64dec_def le16dec_def le32dec_def le64dec_def
lemmas enc_bytes = drop_bit_or bit.conj_disj_distrib2 unsigned_or_eq byte_of_push byte_of_push0
lemmas dec_masks = push_byte push_byte0 push_drop_and and_full mask_eq_exp_minus_1 bit.conj_disj_distrib [symmetric]

lemma length_enc [simp]:
  "length (be16enc x) = 2" "length (be32enc y) = 4" "length (be64enc z) = 8"
  "length (le16enc x) = 2" "length (le32enc y) = 4" "length (le64enc z) = 8"
  by (simp_all add: enc_defs)

lemma be16dec_enc [simp]: "be16dec (be16enc x @ rest) = x"
  by (simp add: dec_defs enc_defs dec_masks)

lemma be32dec_enc [simp]: "be32dec (be32enc x @ rest) = x"
  by (simp add: dec_defs enc_defs dec_masks)

lemma be64dec_enc [simp]: "be64dec (be64enc x @ rest) = x"
  by (simp add: dec_defs enc_defs dec_masks)

lemma le16dec_enc [simp]: "le16dec (le16enc x @ rest) = x"
  by (simp add: dec_defs enc_defs dec_masks)

lemma le32dec_enc [simp]: "le32dec (le32enc x @ rest) = x"
  by (simp add: dec_defs enc_defs dec_masks)

lemma le64dec_enc [simp]: "le64dec (le64enc x @ rest) = x"
  by (simp add: dec_defs enc_defs dec_masks)

lemma length_2: "length p = 2 \<Longrightarrow> \<exists>a b. p = [a, b]"
  by (auto simp: length_Suc_conv numeral_eq_Suc)

lemma length_4: "length p = 4 \<Longrightarrow> \<exists>a b c d. p = [a, b, c, d]"
  by (auto simp: length_Suc_conv numeral_eq_Suc)

lemma length_8: "length p = 8 \<Longrightarrow> \<exists>a b c d e f g h. p = [a, b, c, d, e, f, g, h]"
  by (auto simp: length_Suc_conv numeral_eq_Suc)

lemma be16enc_dec [simp]: "length p = 2 \<Longrightarrow> be16enc (be16dec p) = p"
  by (auto dest!: length_2 simp: dec_defs enc_defs enc_bytes)

lemma be32enc_dec [simp]: "length p = 4 \<Longrightarrow> be32enc (be32dec p) = p"
  by (auto dest!: length_4 simp: dec_defs enc_defs enc_bytes)

lemma be64enc_dec [simp]: "length p = 8 \<Longrightarrow> be64enc (be64dec p) = p"
  by (auto dest!: length_8 simp: dec_defs enc_defs enc_bytes)

lemma le16enc_dec [simp]: "length p = 2 \<Longrightarrow> le16enc (le16dec p) = p"
  by (auto dest!: length_2 simp: dec_defs enc_defs enc_bytes)

lemma le32enc_dec [simp]: "length p = 4 \<Longrightarrow> le32enc (le32dec p) = p"
  by (auto dest!: length_4 simp: dec_defs enc_defs enc_bytes)

lemma le64enc_dec [simp]: "length p = 8 \<Longrightarrow> le64enc (le64dec p) = p"
  by (auto dest!: length_8 simp: dec_defs enc_defs enc_bytes)

end
