(* ===== verification/Seq_Ptr_Map.thy ===== *)
theory Seq_Ptr_Map
  imports Elastic_Queue Sysendian
begin

text \<open>
  The sequential pointer map of \<open>datastruct/seqptrmap.c\<close>: pointers are numbered in the order
  in which they are added, starting at 0, and looked up by number.  A pointer occupies eight
  bytes of the queue's records (on the modelled platform, in little-endian order).
\<close>

section \<open>State and operations\<close>

definition INT64_MAX :: int where
  "INT64_MAX = 2 ^ 63 - 1"

record seqptrmap =
  sm_ptrs :: elasticqueue
  sm_offset :: int
  sm_len :: nat

definition seqptrmap_init :: "bool \<Rightarrow> bool \<Rightarrow> bool \<Rightarrow> alloc \<Rightarrow> seqptrmap option option" where
  "seqptrmap_init ok ok1 ok2 a =
     (if \<not> ok then Some None
      else do {
        q \<leftarrow> elasticqueue_init ok1 ok2 a 8;
        Some (case q of
           None \<Rightarrow> None
         | Some q \<Rightarrow> Some \<lparr>sm_ptrs = q, sm_offset = 0, sm_len = 0\<rparr>)
      })"

text \<open>A pointer in the queue.\<close>

definition sm_read :: "elasticqueue \<Rightarrow> nat \<Rightarrow> ptr option" where
  "sm_read q pos = map_option le64dec (eq_load q pos)"

definition sm_write :: "elasticqueue \<Rightarrow> nat \<Rightarrow> ptr \<Rightarrow> elasticqueue option" where
  "sm_write q pos p = eq_store q pos (le64enc p)"

text \<open>
  The assertions of \<open>seqptrmap_add\<close> guard the number space: running out of it aborts.
\<close>

definition seqptrmap_add :: "alloc \<Rightarrow> seqptrmap \<Rightarrow> ptr \<Rightarrow> (seqptrmap \<times> int) option" where
  "seqptrmap_add a M p = do {
     (q, r) \<leftarrow> elasticqueue_add a (sm_ptrs M) (le64enc p);
     if r \<noteq> 0 then Some (M\<lparr>sm_ptrs := q\<rparr>, -1)
     else do {
       let len = szadd (sm_len M) 1;
       cassert (int len \<le> INT64_MAX);
       cassert (INT64_MAX - int len \<ge> sm_offset M);
       Some (M\<lparr>sm_ptrs := q, sm_len := len\<rparr>, sm_offset M + int len - 1)
     }
   }"

definition seqptrmap_get :: "seqptrmap \<Rightarrow> int \<Rightarrow> ptr option" where
  "seqptrmap_get M i =
     (if i < sm_offset M then Some 0
      else if i - sm_offset M \<ge> int (sm_len M) then Some 0
      else sm_read (sm_ptrs M) (nat (i - sm_offset M)))"

definition seqptrmap_getmin :: "seqptrmap \<Rightarrow> int" where
  "seqptrmap_getmin M = (if elasticqueue_getlen (sm_ptrs M) = 0 then -1 else sm_offset M)"

text \<open>
  The loop that deletes leading \<open>NULL\<close>s.  Each deletion may shrink the buffer, and the
  answers of the allocator for the successive deletions are a function of the remaining length.
\<close>

partial_function (option) sm_strip :: "(nat \<Rightarrow> alloc) \<Rightarrow> seqptrmap \<Rightarrow> seqptrmap option" where
  "sm_strip a M =
     (if elasticqueue_getlen (sm_ptrs M) > 0 then do {
        p \<leftarrow> sm_read (sm_ptrs M) 0;
        if p = 0 then do {
          q \<leftarrow> elasticqueue_delete (a (sm_len M)) (sm_ptrs M);
          sm_strip a (M\<lparr>sm_ptrs := q, sm_offset := sm_offset M + 1, sm_len := szsub (sm_len M) 1\<rparr>)
        }
        else Some M
      }
      else Some M)"

definition seqptrmap_delete :: "(nat \<Rightarrow> alloc) \<Rightarrow> seqptrmap \<Rightarrow> int \<Rightarrow> seqptrmap option" where
  "seqptrmap_delete a M i =
     (if i < sm_offset M then Some M
      else if i - sm_offset M \<ge> int (sm_len M) then Some M
      else do {
        q \<leftarrow> sm_write (sm_ptrs M) (nat (i - sm_offset M)) 0;
        sm_strip a (M\<lparr>sm_ptrs := q\<rparr>)
      })"


section \<open>Invariant and abstraction\<close>

definition sm_list :: "seqptrmap \<Rightarrow> ptr list" where
  "sm_list M = map le64dec (eq_list (sm_ptrs M))"

definition sm_inv :: "seqptrmap \<Rightarrow> bool" where
  "sm_inv M \<longleftrightarrow> eq_inv (sm_ptrs M) \<and> eq_reclen (sm_ptrs M) = 8 \<and>
     sm_len M = length (sm_list M) \<and> 0 \<le> sm_offset M \<and> sm_offset M + int (sm_len M) \<le> INT64_MAX"

text \<open>No dead slot is kept at the front: the first pointer, if any, is live.\<close>

definition sm_stripped :: "seqptrmap \<Rightarrow> bool" where
  "sm_stripped M \<longleftrightarrow> (sm_list M \<noteq> [] \<longrightarrow> hd (sm_list M) \<noteq> 0)"

text \<open>The map a sequential pointer map stands for, and the number the next pointer gets.\<close>

definition sm_map :: "seqptrmap \<Rightarrow> int \<Rightarrow> ptr option" where
  "sm_map M i =
     (if sm_offset M \<le> i \<and> i < sm_offset M + int (length (sm_list M))
         \<and> sm_list M ! nat (i - sm_offset M) \<noteq> 0
      then Some (sm_list M ! nat (i - sm_offset M)) else None)"

definition sm_next :: "seqptrmap \<Rightarrow> int" where
  "sm_next M = sm_offset M + int (length (sm_list M))"

lemma sm_list_update [simp]:
  "sm_list (M\<lparr>sm_offset := i\<rparr>) = sm_list M" "sm_list (M\<lparr>sm_len := n\<rparr>) = sm_list M"
  by (simp_all add: sm_list_def)

lemma length_sm_list: "eq_inv (sm_ptrs M) \<Longrightarrow> length (sm_list M) = elasticqueue_getlen (sm_ptrs M)"
  by (simp add: sm_list_def eq.len_ok)

lemma sm_read_ok:
  "eq_inv (sm_ptrs M) \<Longrightarrow> i < length (sm_list M) \<Longrightarrow> sm_read (sm_ptrs M) i = Some (sm_list M ! i)"
  by (simp add: sm_read_def sm_list_def eq.load_ok)

lemma seqptrmap_init_ok:
  "okp (seqptrmap_init ok ok1 ok2 a) (\<lambda>res. case res of
     None \<Rightarrow> \<not> ok \<or> \<not> ok1 \<or> \<not> ok2 \<or> a = None
   | Some M \<Rightarrow> sm_inv M \<and> sm_stripped M \<and> sm_map M = Map.empty \<and> sm_next M = 0)"
  using elasticqueue_init_ok [of 8 ok1 ok2 a]
  by (auto simp: seqptrmap_init_def wp_rules sm_inv_def sm_stripped_def sm_map_def sm_next_def
      sm_list_def INT64_MAX_def elim!: okp_mono split: option.splits)

lemma seqptrmap_add_ok:
  assumes inv: "sm_inv M" and room: "sm_next M < INT64_MAX"
  shows "okp (seqptrmap_add a M p) (\<lambda>(M', i). sm_inv M' \<and>
     (i = sm_next M \<and> sm_list M' = sm_list M @ [p] \<and> sm_offset M' = sm_offset M
      \<or> i = -1 \<and> M' = M))"
proof -
  from inv have q: "eq_inv (sm_ptrs M)" "length (le64enc p) = eq_reclen (sm_ptrs M)"
    and l: "sm_len M = length (sm_list M)"
    by (auto simp: sm_inv_def)
  have "length (sm_list M) < SIZE_MAX"
    using room inv by (auto simp: sm_next_def sm_inv_def INT64_MAX_def SIZE_MAX_def)
  then have s: "szadd (sm_len M) 1 = Suc (length (sm_list M))" using l by simp
  from elasticqueue_add_ok [OF q, of a] show ?thesis
    unfolding seqptrmap_add_def okp_bind
    by (rule okp_mono) (use s room inv in \<open>auto simp: wp_rules sm_inv_def sm_list_def sm_next_def
        le64dec_enc [of _ "[]", simplified]\<close>)
qed

lemma sm_map_add:
  assumes "sm_list M' = sm_list M @ [p]" "sm_offset M' = sm_offset M" "p \<noteq> 0"
  shows "sm_map M' = (sm_map M)(sm_next M \<mapsto> p)" "sm_next M' = sm_next M + 1"
proof
  fix i
  show "sm_map M' i = ((sm_map M)(sm_next M \<mapsto> p)) i"
  proof (cases "sm_offset M \<le> i")
    case True
    then have "i < sm_next M \<longleftrightarrow> nat (i - sm_offset M) < length (sm_list M)"
      by (auto simp: sm_next_def nat_less_iff)
    with True assms show ?thesis
      by (auto simp: sm_map_def sm_next_def nth_append)
  next
    case False
    with assms show ?thesis by (auto simp: sm_map_def sm_next_def)
  qed
qed (use assms in \<open>simp add: sm_next_def\<close>)

lemma sm_map_tl:
  assumes "sm_list M = 0 # sm_list M'" "sm_offset M' = sm_offset M + 1"
  shows "sm_map M' = sm_map M" "sm_next M' = sm_next M"
proof
  fix i
  have "sm_offset M + 1 \<le> i \<Longrightarrow> nat (i - sm_offset M) = Suc (nat (i - (sm_offset M + 1)))"
    by simp
  with assms show "sm_map M' i = sm_map M i"
    by (cases "i = sm_offset M") (auto simp: sm_map_def)
qed (use assms in \<open>simp add: sm_next_def\<close>)

lemma sm_map_clear:
  assumes "sm_list M' = (sm_list M)[k := 0]" "sm_offset M' = sm_offset M" "k < length (sm_list M)"
  shows "sm_map M' = (sm_map M)(sm_offset M + int k := None)" "sm_next M' = sm_next M"
proof
  fix i
  have "sm_offset M \<le> i \<Longrightarrow> nat (i - sm_offset M) = k \<longleftrightarrow> i = sm_offset M + int k"
    by auto
  with assms show "sm_map M' i = ((sm_map M)(sm_offset M + int k := None)) i"
    by (auto simp: sm_map_def nth_list_update)
qed (use assms in \<open>simp add: sm_next_def\<close>)

lemma sm_strip_ok:
  assumes "sm_inv M"
  shows "okp (sm_strip a M) (\<lambda>M'. sm_inv M' \<and> sm_stripped M' \<and> sm_map M' = sm_map M \<and>
     sm_next M' = sm_next M)"
  using assms
proof (induction "length (sm_list M)" arbitrary: M)
  case 0
  then have "elasticqueue_getlen (sm_ptrs M) = 0"
    using length_sm_list [of M] by (simp add: sm_inv_def)
  with 0 show ?case by (simp add: sm_strip.simps sm_stripped_def)
next
  case (Suc n)
  from Suc.prems have q: "eq_inv (sm_ptrs M)" "eq_reclen (sm_ptrs M) = 8" by (auto simp: sm_inv_def)
  from Suc.hyps(2) have ne: "sm_list M \<noteq> []" and "elasticqueue_getlen (sm_ptrs M) > 0"
    using length_sm_list [OF q(1)] by auto
  then have rd: "sm_strip a M = (if hd (sm_list M) = 0 then do {
          q \<leftarrow> elasticqueue_delete (a (sm_len M)) (sm_ptrs M);
          sm_strip a (M\<lparr>sm_ptrs := q, sm_offset := sm_offset M + 1, sm_len := szsub (sm_len M) 1\<rparr>)
        } else Some M)"
    using sm_read_ok [OF q(1), of 0] by (subst sm_strip.simps) (simp add: hd_conv_nth)
  show ?case
  proof (cases "hd (sm_list M) = 0")
    case True
    from elasticqueue_delete_ok [OF q(1), of "a (sm_len M)"] obtain q' where
      d: "elasticqueue_delete (a (sm_len M)) (sm_ptrs M) = Some q'" "eq_inv q'"
        "eq_reclen q' = 8" "eq_list q' = tl (eq_list (sm_ptrs M))"
      using q(2) by (auto elim: okpE)
    let ?M = "M\<lparr>sm_ptrs := q', sm_offset := sm_offset M + 1, sm_len := szsub (sm_len M) 1\<rparr>"
    have l: "sm_list M = 0 # sm_list ?M"
      using ne True d(4) by (cases "eq_list (sm_ptrs M)") (auto simp: sm_list_def)
    have "sm_len M \<le> SIZE_MAX"
      using eq.len_bound [OF q(1)] Suc.prems by (simp add: sm_inv_def sm_list_def)
    with l d Suc.prems have "sm_inv ?M" "n = length (sm_list ?M)"
      using Suc.hyps(2) by (auto simp: sm_inv_def)
    from Suc.hyps(1) [OF this(2,1)] sm_map_tl [OF l] True rd d(1) show ?thesis by simp
  next
    case False
    with rd Suc.prems show ?thesis by (simp add: sm_stripped_def)
  qed
qed

lemma seqptrmap_delete_ok:
  assumes inv: "sm_inv M" and st: "sm_stripped M"
  shows "okp (seqptrmap_delete a M i) (\<lambda>M'. sm_inv M' \<and> sm_stripped M' \<and>
     sm_map M' = (sm_map M)(i := None) \<and> sm_next M' = sm_next M)"
proof (cases "sm_offset M \<le> i \<and> i - sm_offset M < int (sm_len M)")
  case True
  let ?k = "nat (i - sm_offset M)"
  from inv True have q: "eq_inv (sm_ptrs M)" "?k < length (eq_list (sm_ptrs M))"
      "length (le64enc 0) = eq_reclen (sm_ptrs M)" "?k < length (sm_list M)"
    by (auto simp: sm_inv_def sm_list_def)
  from eq.store_ok [OF q(1-3)] obtain q' where w: "sm_write (sm_ptrs M) ?k 0 = Some q'"
      "eq_inv q'" "eq_list q' = (eq_list (sm_ptrs M))[?k := le64enc 0]" "eq_reclen q' = 8"
    using eq_store_ok [OF q(1) _ q(3), of ?k] q inv
    by (auto simp: sm_write_def sm_inv_def length_eq_list elim!: okpE)
  then have l: "sm_list (M\<lparr>sm_ptrs := q'\<rparr>) = (sm_list M)[?k := 0]"
    using le64dec_enc [of 0 "[]"] by (simp add: sm_list_def map_update)
  with w inv have "sm_inv (M\<lparr>sm_ptrs := q'\<rparr>)" by (simp add: sm_inv_def)
  from sm_strip_ok [OF this, of a] w(1) sm_map_clear [OF l _ q(4)] True show ?thesis
    by (simp add: seqptrmap_delete_def)
next
  case False
  with inv have "sm_map M i = None" by (auto simp: sm_map_def sm_inv_def)
  with False inv st show ?thesis
    by (auto simp: seqptrmap_delete_def fun_upd_idem_iff)
qed

lemma seqptrmap_get_ok:
  assumes "sm_inv M"
  shows "seqptrmap_get M i = Some (case sm_map M i of None \<Rightarrow> 0 | Some p \<Rightarrow> p)"
  using assms by (auto simp: seqptrmap_get_def sm_map_def sm_inv_def sm_read_ok)

lemma seqptrmap_getmin_ok:
  assumes inv: "sm_inv M" and st: "sm_stripped M"
  shows "seqptrmap_getmin M = (if sm_map M = Map.empty then -1 else LEAST i. i \<in> dom (sm_map M))"
proof (cases "sm_list M = []")
  case True
  with inv show ?thesis
    using length_sm_list [of M] by (auto simp: seqptrmap_getmin_def sm_map_def sm_inv_def)
next
  case False
  with st have d: "sm_offset M \<in> dom (sm_map M)"
    by (auto simp: sm_map_def sm_stripped_def hd_conv_nth)
  then have "(LEAST i. i \<in> dom (sm_map M)) = sm_offset M"
    by (intro Least_equality) (auto simp: sm_map_def split: if_splits)
  with False inv d show ?thesis
    using length_sm_list [of M] by (auto simp: seqptrmap_getmin_def sm_inv_def)
qed


section \<open>The sequential map as an abstract numbered map\<close>

datatype sm_op = SmAdd alloc ptr | SmGet int | SmGetmin | SmDelete "nat \<Rightarrow> alloc" int

datatype sm_out = SmNum int | SmPtr ptr | SmVoid

fun sm_step :: "sm_op \<Rightarrow> seqptrmap \<Rightarrow> (seqptrmap \<times> sm_out) option" where
  "sm_step (SmAdd a p) M = do { (M', i) \<leftarrow> seqptrmap_add a M p; Some (M', SmNum i) }"
| "sm_step (SmGet i) M = do { p \<leftarrow> seqptrmap_get M i; Some (M, SmPtr p) }"
| "sm_step SmGetmin M = Some (M, SmNum (seqptrmap_getmin M))"
| "sm_step (SmDelete a i) M = do { M' \<leftarrow> seqptrmap_delete a M i; Some (M', SmVoid) }"

text \<open>The caller adds no \<open>NULL\<close>, and stops before the numbers run out.\<close>

fun sm_pre :: "sm_op \<Rightarrow> seqptrmap \<Rightarrow> bool" where
  "sm_pre (SmAdd a p) M = (p \<noteq> 0 \<and> sm_next M < INT64_MAX)"
| "sm_pre _ M = True"

text \<open>
  The abstract state is a finite map and the next number.  Numbers are given out in order and
  are never given out again; the least number in use is found.
\<close>

fun sm_spec :: "sm_op \<Rightarrow> (int \<Rightarrow> ptr option) \<times> int \<Rightarrow> sm_out \<Rightarrow> (int \<Rightarrow> ptr option) \<times> int \<Rightarrow> bool" where
  "sm_spec (SmAdd a p) (f, n) out s' =
     (out = SmNum n \<and> s' = (f(n \<mapsto> p), n + 1) \<or> out = SmNum (-1) \<and> s' = (f, n))"
| "sm_spec (SmGet i) (f, n) out s' = (out = SmPtr (case f i of None \<Rightarrow> 0 | Some p \<Rightarrow> p) \<and> s' = (f, n))"
| "sm_spec SmGetmin (f, n) out s' =
     (s' = (f, n) \<and> (if f = Map.empty then out = SmNum (-1)
        else \<exists>i \<in> dom f. out = SmNum i \<and> (\<forall>j \<in> dom f. i \<le> j)))"
| "sm_spec (SmDelete a i) (f, n) out s' = (out = SmVoid \<and> s' = (f(i := None), n))"

definition sm_init :: "seqptrmap \<Rightarrow> bool" where
  "sm_init M \<longleftrightarrow> (\<exists>ok ok1 ok2 a. seqptrmap_init ok ok1 ok2 a = Some (Some M))"

definition sm_abs :: "seqptrmap \<Rightarrow> (int \<Rightarrow> ptr option) \<times> int" where
  "sm_abs M = (sm_map M, sm_next M)"

lemma sm_map_range: "sm_map M i = Some p \<Longrightarrow> sm_offset M \<le> i \<and> i < sm_next M \<and> p \<noteq> 0"
  by (auto simp: sm_map_def sm_next_def split: if_splits)

lemma seqptrmap_getmin_min:
  assumes "sm_inv M" "sm_stripped M" "sm_map M \<noteq> Map.empty"
  shows "seqptrmap_getmin M \<in> dom (sm_map M) \<and> (\<forall>j \<in> dom (sm_map M). seqptrmap_getmin M \<le> j)"
proof -
  from assms(3) obtain i where "i \<in> dom (sm_map M)" by (auto simp: fun_eq_iff)
  then have ne: "sm_list M \<noteq> []" by (auto simp: sm_map_def split: if_splits)
  with assms(2) have "sm_offset M \<in> dom (sm_map M)"
    by (auto simp: sm_map_def sm_stripped_def hd_conv_nth)
  moreover have "seqptrmap_getmin M = sm_offset M"
    using ne assms(1) length_sm_list [of M] by (cases "sm_list M") (auto simp: seqptrmap_getmin_def sm_inv_def)
  ultimately show ?thesis using sm_map_range by fastforce
qed

lemma sm_stripped_append:
  "sm_stripped M \<Longrightarrow> sm_list M' = sm_list M @ [p] \<Longrightarrow> p \<noteq> 0 \<Longrightarrow> sm_stripped M'"
  by (auto simp: sm_stripped_def hd_append)

interpretation smap: machine_refinement sm_init sm_pre sm_step "\<lambda>M. sm_inv M \<and> sm_stripped M" sm_abs sm_spec
proof (unfold_locales, goal_cases)
  case (1 s)
  then obtain ok ok1 ok2 a where "seqptrmap_init ok ok1 ok2 a = Some (Some s)" by (auto simp: sm_init_def)
  then show ?case using seqptrmap_init_ok [of ok ok1 ok2 a] by simp
next
  case (2 M opn)
  show ?case
  proof (cases opn)
    case (SmAdd a p)
    with 2 have "sm_inv M" "sm_next M < INT64_MAX" "p \<noteq> 0" "sm_stripped M" by auto
    with SmAdd seqptrmap_add_ok [of M a p] show ?thesis
      by (auto simp: wp_rules sm_abs_def sm_map_add intro: sm_stripped_append elim!: okp_mono)
  next
    case (SmGet i)
    with 2 show ?thesis by (simp add: seqptrmap_get_ok sm_abs_def)
  next
    case SmGetmin
    with 2 show ?thesis
      using seqptrmap_getmin_min [of M] seqptrmap_getmin_ok [of M] by (auto simp: sm_abs_def)
  next
    case (SmDelete a i)
    with 2 show ?thesis
      using seqptrmap_delete_ok [of M a i] by (auto simp: wp_rules sm_abs_def elim!: okp_mono)
  qed
qed


section \<open>Properties\<close>

text \<open>A map with the pointers 77 and 88 under the numbers 0 and 1.\<close>

definition sm_ex0 :: seqptrmap where
  "sm_ex0 = \<lparr>sm_ptrs = \<lparr>eq_ea = \<lparr>ea_size = 0, ea_alloc = 0, ea_buf = []\<rparr>, eq_offset = 0, eq_len = 0,
     eq_reclen = 8\<rparr>, sm_offset = 0, sm_len = 0\<rparr>"

definition sm_ex1 :: seqptrmap where
  "sm_ex1 = \<lparr>sm_ptrs = \<lparr>eq_ea = \<lparr>ea_size = 8, ea_alloc = 8, ea_buf = le64enc 77\<rparr>, eq_offset = 0,
     eq_len = 1, eq_reclen = 8\<rparr>, sm_offset = 0, sm_len = 1\<rparr>"

lemma sm_ex0_init: "sm_init sm_ex0"
proof -
  have "seqptrmap_init True True True (Some (\<lambda>_. 0)) = Some (Some sm_ex0)"
    by (simp add: sm_ex0_def seqptrmap_init_def elasticqueue_init_def elasticarray_init_def
        elasticarray_resize_def resize_def resize_nalloc_def)
  then show ?thesis unfolding sm_init_def by fast
qed

lemma sm_ex0_reach: "reach sm_init sm_pre sm_step sm_ex0"
  by (rule reach_init) (rule sm_ex0_init)

lemma sm_ex1_step: "sm_step (SmAdd (Some (\<lambda>_. 0)) 77) sm_ex0 = Some (sm_ex1, SmNum 0)"
  by (simp add: sm_ex0_def sm_ex1_def seqptrmap_add_def elasticqueue_add_def elasticarray_append_def
      resize_def resize_nalloc_def SIZE_MAX_def szmul_def szsub_def szadd_def INT64_MAX_def
      mem_store_def mem_load_def c_realloc_def)

lemma sm_ex1_reach: "reach sm_init sm_pre sm_step sm_ex1"
  by (rule reach_step [OF sm_ex0_reach _ sm_ex1_step])
    (simp add: sm_ex0_def sm_next_def sm_list_def eq_list_def ea_records_def ea_data_def INT64_MAX_def)

text \<open>
  C6.  The sequential pointer map refines a finite map with a counter.  In every reachable
  state every call returns without a fault or a failed assertion; an addition binds the next
  number of the sequence (never one given out before) or changes nothing, a lookup returns what
  is bound, a deletion of any number removes exactly that binding, and \<open>seqptrmap_getmin\<close>
  returns the least bound number, in particular after the queue has been compacted.
\<close>

theorem seqptrmap_refines:
  assumes "reach sm_init sm_pre sm_step M" "sm_pre opn M"
  shows "okp (sm_step opn M) (\<lambda>(M', out). sm_spec opn (sm_abs M) out (sm_abs M'))"
  using smap.reach_spec [OF assms] .

theorem seqptrmap_refines_witness:
  "okp (sm_step (SmDelete (\<lambda>_. None) 0) sm_ex1)
     (\<lambda>(M', out). sm_spec (SmDelete (\<lambda>_. None) 0) (sm_abs sm_ex1) out (sm_abs M'))"
  by (rule seqptrmap_refines [OF sm_ex1_reach]) simp

end
