(* ===== verification/Mpool.thy ===== *)
theory Mpool
  imports Prelude "HOL-Library.Multiset"
begin

text \<open>
  The allocator cache of \<open>datastruct/mpool.h\<close>: a stack of released objects in front of
  \<open>malloc\<close> and \<open>free\<close>, which doubles when too many requests find it empty.  The objects that
  an operation hands to \<open>free\<close> are part of its result.
\<close>

section \<open>State and operations\<close>

record mpool =
  mp_stacklen :: nat
  mp_allocsize :: nat
  mp_allocs :: "ptr list"
  mp_nallocs :: u64
  mp_nempties :: u64
  mp_state :: int
  mp_static :: bool \<comment> \<open>\<open>allocs == allocs_static\<close>\<close>

text \<open>The initialiser of \<open>MPOOL\<close>, with the static stack (all \<open>NULL\<close>) of the given size.\<close>

definition mpool_init :: "nat \<Rightarrow> mpool" where
  "mpool_init sz = \<lparr>mp_stacklen = 0, mp_allocsize = sz, mp_allocs = replicate sz 0, mp_nallocs = 0,
     mp_nempties = 0, mp_state = 0, mp_static = True\<rparr>"

definition stk_read :: "mpool \<Rightarrow> nat \<Rightarrow> ptr option" where
  "stk_read M i = (if i < length (mp_allocs M) then Some (mp_allocs M ! i) else None)"

definition stk_write :: "mpool \<Rightarrow> nat \<Rightarrow> ptr \<Rightarrow> mpool option" where
  "stk_write M i p =
     (if i < length (mp_allocs M) then Some (M\<lparr>mp_allocs := (mp_allocs M)[i := p]\<rparr>) else None)"

text \<open>
  \<open>atexit_ok\<close> is the answer of \<open>atexit\<close>, \<open>mem\<close> that of \<open>malloc\<close> (\<open>0\<close> for \<open>NULL\<close>), for
  the calls that reach them.
\<close>

definition mpool_malloc :: "bool \<Rightarrow> ptr \<Rightarrow> mpool \<Rightarrow> (mpool \<times> ptr) option" where
  "mpool_malloc atexit_ok mem M = do {
     let M = M\<lparr>mp_nallocs := mp_nallocs M + 1\<rparr>;
     if mp_stacklen M \<noteq> 0 then do {
       let M = M\<lparr>mp_stacklen := mp_stacklen M - 1\<rparr>;
       p \<leftarrow> stk_read M (mp_stacklen M);
       Some (M, p)
     }
     else do {
       let M = M\<lparr>mp_nempties := mp_nempties M + 1\<rparr>;
       if mp_state M = 0 \<and> \<not> atexit_ok then Some (M, 0)
       else Some (M\<lparr>mp_state := (if mp_state M = 0 then 1 else mp_state M)\<rparr>, mem)
     }
   }"

text \<open>
  \<open>stk\<close> is the answer of \<open>malloc\<close> for a larger stack: \<open>Some\<close> of its uninitialised contents
  beyond the copied part.  The result names the objects handed to \<open>free\<close> and says whether an
  allocated stack was freed too (the static one never is).
\<close>

definition mpool_free :: "(nat \<Rightarrow> ptr) option \<Rightarrow> mpool \<Rightarrow> ptr \<Rightarrow> (mpool \<times> ptr list \<times> bool) option" where
  "mpool_free stk M p =
     (if p = 0 then Some (M, [], False)
      else if mp_stacklen M < mp_allocsize M then do {
        M' \<leftarrow> stk_write M (mp_stacklen M) p;
        Some (M'\<lparr>mp_stacklen := mp_stacklen M + 1\<rparr>, [], False)
      }
      else do {
        (M', freed, stkfreed) \<leftarrow>
          (if mp_nempties M > drop_bit 8 (mp_nallocs M) then do {
             cassert (mp_allocsize M > 0);
             (case (if mp_allocsize M \<le> SIZE_MAX div (2 * 8) then stk else None) of
                Some junk \<Rightarrow> do {
                  let M1 = M\<lparr>mp_allocs := take (mp_allocsize M) (mp_allocs M)
                               @ map junk [mp_allocsize M..<mp_allocsize M * 2],
                             mp_static := False, mp_allocsize := mp_allocsize M * 2\<rparr>;
                  M2 \<leftarrow> stk_write M1 (mp_stacklen M) p;
                  Some (M2\<lparr>mp_stacklen := mp_stacklen M + 1\<rparr>, [], \<not> mp_static M)
                }
              | None \<Rightarrow> Some (M, [p], False))
           }
           else Some (M, [p], False));
        Some (M'\<lparr>mp_nempties := 0, mp_nallocs := 0\<rparr>, freed, stkfreed)
      })"

fun mp_popall :: "nat \<Rightarrow> mpool \<Rightarrow> ptr list option" where
  "mp_popall 0 M = Some []"
| "mp_popall (Suc n) M = do {
     p \<leftarrow> stk_read M n;
     ps \<leftarrow> mp_popall n M;
     Some (p # ps)
   }"

definition mpool_atexit :: "mpool \<Rightarrow> (mpool \<times> ptr list \<times> bool) option" where
  "mpool_atexit M = do {
     ps \<leftarrow> mp_popall (mp_stacklen M) M;
     Some (M\<lparr>mp_stacklen := 0\<rparr>, ps, \<not> mp_static M)
   }"


section \<open>Invariant and conservation of objects\<close>

definition mp_inv :: "mpool \<Rightarrow> bool" where
  "mp_inv M \<longleftrightarrow> mp_stacklen M \<le> mp_allocsize M \<and> length (mp_allocs M) = mp_allocsize M \<and>
     0 < mp_allocsize M \<and> 0 \<notin> set (take (mp_stacklen M) (mp_allocs M))"

definition mp_cached :: "mpool \<Rightarrow> ptr multiset" where
  "mp_cached M = mset (take (mp_stacklen M) (mp_allocs M))"

lemma mpool_init_ok: "0 < sz \<Longrightarrow> mp_inv (mpool_init sz) \<and> mp_cached (mpool_init sz) = {#}"
  by (simp add: mpool_init_def mp_inv_def mp_cached_def)

text \<open>A request is served from the cache, or by \<open>malloc\<close> when the cache is empty.\<close>

lemma mpool_malloc_ok:
  assumes inv: "mp_inv M"
  shows "okp (mpool_malloc atexit_ok mem M) (\<lambda>(M', p). mp_inv M' \<and> mp_allocsize M' = mp_allocsize M \<and>
     (if mp_cached M \<noteq> {#} then p \<noteq> 0 \<and> p \<in># mp_cached M \<and> mp_cached M' = mp_cached M - {# p #}
      else mp_cached M' = {#} \<and> p = (if mp_state M = 0 \<and> \<not> atexit_ok then 0 else mem)))"
proof (cases "mp_stacklen M")
  case 0
  with inv show ?thesis by (auto simp: mpool_malloc_def mp_inv_def mp_cached_def Let_def)
next
  case (Suc n)
  with inv have n: "n < length (mp_allocs M)" by (auto simp: mp_inv_def)
  then have t: "take (Suc n) (mp_allocs M) = take n (mp_allocs M) @ [mp_allocs M ! n]"
    by (rule take_Suc_conv_app_nth)
  with inv Suc have "mp_allocs M ! n \<noteq> 0" by (auto simp: mp_inv_def)
  with Suc n inv t show ?thesis
    by (auto simp: mpool_malloc_def mp_inv_def mp_cached_def stk_read_def Let_def)
qed

text \<open>A released object is cached or handed to \<open>free\<close>, and never both.\<close>

lemma mpool_free_ok:
  assumes inv: "mp_inv M"
  shows "okp (mpool_free stk M p) (\<lambda>(M', freed, stkfreed). mp_inv M' \<and>
     mp_cached M' + mset freed = mp_cached M + (if p = 0 then {#} else {# p #}) \<and>
     (mp_allocsize M' = mp_allocsize M \<or> mp_allocsize M' = 2 * mp_allocsize M))"
proof -
  have push: "take (Suc n) (xs[n := p]) = take n xs @ [p]" if "n < length xs" for n and xs :: "ptr list"
    using that by (simp add: take_Suc_conv_app_nth)
  show ?thesis
  proof (cases "mp_stacklen M < mp_allocsize M")
    case True
    with inv show ?thesis
      by (auto simp: mpool_free_def mp_inv_def mp_cached_def stk_write_def push)
  next
    case False
    with inv have e: "mp_stacklen M = mp_allocsize M" "length (mp_allocs M) = mp_allocsize M"
      by (auto simp: mp_inv_def)
    with inv False show ?thesis
      by (auto simp: mpool_free_def mp_inv_def mp_cached_def stk_write_def push wp_rules Let_def
          split: option.splits)
  qed
qed

lemma mp_popall_ok: "n \<le> length (mp_allocs M) \<Longrightarrow> mp_popall n M = Some (rev (take n (mp_allocs M)))"
  by (induction n) (simp_all add: stk_read_def take_Suc_conv_app_nth)

text \<open>At exit every cached object is freed once.\<close>

lemma mpool_atexit_ok:
  "mp_inv M \<Longrightarrow> okp (mpool_atexit M) (\<lambda>(M', freed, stkfreed). mset freed = mp_cached M \<and> mp_cached M' = {#})"
  by (simp add: mpool_atexit_def mp_popall_ok mp_inv_def mp_cached_def)


section \<open>The pool and its client\<close>

text \<open>The second part of the state is the set of objects the client holds.\<close>

datatype mp_op = MpMalloc bool ptr | MpFree "(nat \<Rightarrow> ptr) option" ptr

datatype mp_out = MpPtr ptr | MpFreed "ptr list"

fun mp_step :: "mp_op \<Rightarrow> mpool \<times> ptr set \<Rightarrow> ((mpool \<times> ptr set) \<times> mp_out) option" where
  "mp_step (MpMalloc ok mem) (M, held) = do {
     (M', p) \<leftarrow> mpool_malloc ok mem M;
     Some ((M', if p = 0 then held else insert p held), MpPtr p) }"
| "mp_step (MpFree stk p) (M, held) = do {
     (M', freed, _) \<leftarrow> mpool_free stk M p; Some ((M', held - {p}), MpFreed freed) }"

text \<open>
  \<open>malloc\<close> answers with \<open>NULL\<close> or with an object that is neither held nor cached, and only
  held objects (or \<open>NULL\<close>) are released.
\<close>

fun mp_pre :: "mp_op \<Rightarrow> mpool \<times> ptr set \<Rightarrow> bool" where
  "mp_pre (MpMalloc ok mem) (M, held) = (mem \<notin> held \<and> mem \<notin># mp_cached M)"
| "mp_pre (MpFree stk p) (M, held) = (p = 0 \<or> p \<in> held)"

text \<open>The abstract state: the objects that are held and those that are cached.\<close>

fun mp_spec :: "mp_op \<Rightarrow> ptr set \<times> ptr set \<Rightarrow> mp_out \<Rightarrow> ptr set \<times> ptr set \<Rightarrow> bool" where
  "mp_spec (MpMalloc ok mem) (held, cached) out (held', cached') =
     (\<exists>p. out = MpPtr p \<and> p \<notin> held \<and> held' = (if p = 0 then held else insert p held) \<and>
        (if cached = {} then (p = mem \<or> p = 0) \<and> cached' = {} else p \<in> cached \<and> cached' = cached - {p}))"
| "mp_spec (MpFree stk p) (held, cached) out (held', cached') =
     (\<exists>freed. out = MpFreed freed \<and> held' = held - {p} \<and> distinct freed \<and>
        set freed \<inter> (held' \<union> cached') = {} \<and>
        held' \<union> cached' \<union> set freed = held \<union> cached)"

definition mp_minv :: "mpool \<times> ptr set \<Rightarrow> bool" where
  "mp_minv = (\<lambda>(M, held). mp_inv M \<and> (\<forall>p. count (mp_cached M) p \<le> 1) \<and> 0 \<notin> held \<and>
     held \<inter> set_mset (mp_cached M) = {})"

definition mp_abs :: "mpool \<times> ptr set \<Rightarrow> ptr set \<times> ptr set" where
  "mp_abs = (\<lambda>(M, held). (held, set_mset (mp_cached M)))"

definition mp_minit :: "mpool \<times> ptr set \<Rightarrow> bool" where
  "mp_minit s \<longleftrightarrow> (\<exists>sz > 0. s = (mpool_init sz, {}))"


lemma set_mset_remove1:
  assumes "\<forall>q. count A q \<le> 1"
  shows "set_mset (A - {#p#}) = set_mset A - {p}"
proof (intro set_eqI)
  fix x
  from assms have "count A x \<le> 1" by blast
  then show "x \<in> set_mset (A - {#p#}) \<longleftrightarrow> x \<in> set_mset A - {p}"
    by (auto simp: in_diff_count count_greater_zero_iff [symmetric] simp del: count_greater_zero_iff)
qed

lemma count_le_1_split:
  assumes "C + mset fs = A" "\<forall>q. count A q \<le> (1 :: nat)"
  shows "distinct fs" "set fs \<inter> set_mset C = {}" "set_mset C \<union> set fs = set_mset A"
    "\<forall>q. count C q \<le> 1"
proof -
  have c: "count C q + count (mset fs) q \<le> 1" for q using assms by (metis count_union)
  then have le: "count (mset fs) q \<le> 1" for q using add_leD2 by blast
  then show "distinct fs"
    by (simp add: distinct_count_atmost_1)
      (metis One_nat_def count_greater_eq_one_iff count_mset le_antisym not_in_iff set_mset_mset)
  have "q \<notin># C" if "q \<in> set fs" for q
    using c [of q] that by (metis Suc_eq_plus1 add_le_same_cancel2 count_greater_eq_one_iff
        le_antisym le_trans not_in_iff not_one_le_zero set_mset_mset add.commute One_nat_def le_add1)
  then show "set fs \<inter> set_mset C = {}" by auto
  show "set_mset C \<union> set fs = set_mset A" using assms(1) by (metis set_mset_mset set_mset_union)
  show "\<forall>q. count C q \<le> 1" using c add_leD1 by blast
qed


lemma mp_free_step:
  assumes m: "mp_minv (M, held)" and p: "p = 0 \<or> p \<in> held"
  shows "okp (mpool_free stk M p) (\<lambda>(M', freed, _). mp_minv (M', held - {p}) \<and>
     mp_spec (MpFree stk p) (mp_abs (M, held)) (MpFreed freed) (mp_abs (M', held - {p})))"
proof -
  let ?A = "mp_cached M + (if p = 0 then {#} else {# p #})"
  from m have inv: "mp_inv M" and z: "0 \<notin> held" and dj: "held \<inter> set_mset (mp_cached M) = {}"
    by (auto simp: mp_minv_def)
  have "p = 0 \<or> p \<notin># mp_cached M" using p dj by blast
  with m have one: "\<forall>q. count ?A q \<le> 1" by (auto simp: mp_minv_def not_in_iff)
  have z': "0 \<notin># mp_cached M" using inv by (auto simp: mp_inv_def mp_cached_def)
  have "mp_minv (M', held - {p}) \<and>
      mp_spec (MpFree stk p) (mp_abs (M, held)) (MpFreed freed) (mp_abs (M', held - {p}))"
    if M': "mp_inv M'" "mp_cached M' + mset freed = ?A" for M' freed
  proof -
    note s = count_le_1_split [OF M'(2) one]
    from s(3) have A: "set_mset (mp_cached M') \<union> set freed = set_mset (mp_cached M) \<union> (if p = 0 then {} else {p})"
      by simp
    with dj z z' p have "(held - {p}) \<inter> (set_mset (mp_cached M') \<union> set freed) = {}"
      by (auto split: if_splits)
    moreover have "held - {p} \<union> (set_mset (mp_cached M') \<union> set freed) = held \<union> set_mset (mp_cached M)"
      using A p z by (auto split: if_splits)
    ultimately show ?thesis using s M'(1) z by (auto simp: mp_minv_def mp_abs_def)
  qed
  then show ?thesis by (intro okp_mono [OF mpool_free_ok [OF inv, of stk p]]) auto
qed

lemma mp_malloc_step:
  assumes m: "mp_minv (M, held)" and fresh: "mem \<notin> held" "mem \<notin># mp_cached M"
  shows "okp (mpool_malloc ok mem M) (\<lambda>(M', p). mp_minv (M', if p = 0 then held else insert p held) \<and>
     mp_spec (MpMalloc ok mem) (mp_abs (M, held)) (MpPtr p) (mp_abs (M', if p = 0 then held else insert p held)))"
proof -
  from m have inv: "mp_inv M" and z: "0 \<notin> held" and dj: "held \<inter> set_mset (mp_cached M) = {}"
    and one: "\<forall>q. count (mp_cached M) q \<le> 1"
    by (auto simp: mp_minv_def)
  then have le: "\<forall>q. count (mp_cached M - {#p#}) q \<le> 1" for p by (auto simp: le_diff_conv le_SucI)
  show ?thesis
  proof (cases "mp_cached M = {#}")
    case True
    with z fresh show ?thesis
      by (intro okp_mono [OF mpool_malloc_ok [OF inv, of ok mem]])
        (auto simp: mp_minv_def mp_abs_def split: if_splits)
  next
    case False
    with z dj le set_mset_remove1 [OF one] show ?thesis
      by (intro okp_mono [OF mpool_malloc_ok [OF inv, of ok mem]]) (auto simp: mp_minv_def mp_abs_def)
  qed
qed

interpretation mp: machine_refinement mp_minit mp_pre mp_step mp_minv mp_abs mp_spec
proof (unfold_locales, goal_cases)
  case (1 s)
  then show ?case using mpool_init_ok by (auto simp: mp_minit_def mp_minv_def)
next
  case (2 s opn)
  obtain M held where s: "s = (M, held)" by force
  show ?case
  proof (cases opn)
    case (MpMalloc ok mem)
    with 2 s mp_malloc_step [of M held mem ok] show ?thesis
      by (auto simp: wp_rules simp del: mp_spec.simps elim!: okp_mono)
  next
    case (MpFree stk p)
    with 2 s mp_free_step [of M held p stk] show ?thesis
      by (auto simp: wp_rules simp del: mp_spec.simps elim!: okp_mono)
  qed
qed


section \<open>Properties\<close>

lemma mp_ex_reach: "reach mp_minit mp_pre mp_step (mpool_init 2, {})"
proof (rule reach_init)
  show "mp_minit (mpool_init 2, {})"
    unfolding mp_minit_def by (intro exI [of _ 2] conjI) simp_all
qed

text \<open>
  C32.  The pool never hands out an object that is in use and never frees one that is still
  held or cached: in every reachable state, whether the stack is grown or not, a request
  returns a cached object when there is one and otherwise what \<open>malloc\<close> gave, and a released
  object ends up in exactly one place, the cache or \<open>free\<close>.
\<close>

theorem mpool_no_double_use:
  assumes "reach mp_minit mp_pre mp_step s" "mp_pre opn s"
  shows "okp (mp_step opn s) (\<lambda>(s', out). mp_spec opn (mp_abs s) out (mp_abs s'))"
  using mp.reach_spec [OF assms] .

theorem mpool_no_double_use_witness:
  "okp (mp_step (MpMalloc True 48) (mpool_init 2, {}))
     (\<lambda>(s', out). mp_spec (MpMalloc True 48) (mp_abs (mpool_init 2, {})) out (mp_abs s'))"
  by (rule mpool_no_double_use [OF mp_ex_reach]) (simp add: mp_cached_def mpool_init_def)

text \<open>
  At exit the pool frees every cached object exactly once and keeps none.
\<close>

theorem mpool_atexit_frees_cache:
  assumes "reach mp_minit mp_pre mp_step (M, held)"
  shows "okp (mpool_atexit M) (\<lambda>(M', freed, _). distinct freed \<and> set freed = set_mset (mp_cached M) \<and>
     set freed \<inter> held = {} \<and> mp_cached M' = {#})"
proof -
  from mp.reach_inv [OF assms] have m: "mp_inv M" "\<forall>p. count (mp_cached M) p \<le> 1"
      "held \<inter> set_mset (mp_cached M) = {}"
    by (auto simp: mp_minv_def)
  have "distinct freed \<and> set freed = set_mset (mp_cached M)" if "mset freed = mp_cached M" for freed
    using that m(2) count_le_1_split(1) [of "{#}" freed "mp_cached M"]
    by (metis add_0 set_mset_mset)
  with m(3) show ?thesis by (intro okp_mono [OF mpool_atexit_ok [OF m(1)]]) auto
qed

theorem mpool_atexit_frees_cache_witness:
  "okp (mpool_atexit (mpool_init 2)) (\<lambda>(M', freed, _). distinct freed \<and>
     set freed = set_mset (mp_cached (mpool_init 2)) \<and> set freed \<inter> {} = {} \<and> mp_cached M' = {#})"
  by (rule mpool_atexit_frees_cache [OF mp_ex_reach])

end
