(* ===== verification/Block_Hash.thy ===== *)
theory Block_Hash
  imports Sysendian
begin

text \<open>
  What the hash functions of \<open>alg/\<close> share: the absorption of a message in blocks of 64 bytes
  through a buffer (the common tail of \<open>SHA256_Update\<close>, \<open>SHA1_Update\<close> and \<open>MD5_Update\<close>),
  vectors of words in big- and little-endian form, the exclusive-or loop of HMAC, and the
  interface of a streaming hash with the HMAC construction over it.
\<close>

section \<open>Absorbing a message\<close>

text \<open>The loop over complete blocks; it leaves the bytes that do not fill a block.\<close>

function md_blocks :: "('s \<Rightarrow> bytes \<Rightarrow> 's) \<Rightarrow> 's \<Rightarrow> bytes \<Rightarrow> 's \<times> bytes" where
  "md_blocks f s src =
     (if length src \<ge> 64 then md_blocks f (f s (take 64 src)) (drop 64 src) else (s, src))"
  by pat_completeness auto
termination
  by (relation "measure (\<lambda>(f, s, src). length src)") auto

text \<open>
  From the comment ``Handle the case where we don't need to perform any transforms'' to the
  end of an update: \<open>r\<close> bytes are in the buffer.
\<close>

definition md_absorb :: "('s \<Rightarrow> bytes \<Rightarrow> 's) \<Rightarrow> nat \<Rightarrow> 's \<Rightarrow> bytes \<Rightarrow> bytes \<Rightarrow> ('s \<times> bytes) option" where
  "md_absorb f r s buf src =
     (if length src < 64 - r then do {
        buf' \<leftarrow> mem_store buf r src;
        Some (s, buf')
      }
      else do {
        buf' \<leftarrow> mem_store buf r (take (64 - r) src);
        let (s', rest) = md_blocks f (f s buf') (drop (64 - r) src);
        buf'' \<leftarrow> mem_store buf' 0 rest;
        Some (s', buf'')
      })"

text \<open>Word vectors as bytes; \<open>len\<close> is the number of bytes.\<close>

definition be32enc_vect :: "u32 list \<Rightarrow> nat \<Rightarrow> bytes" where
  "be32enc_vect src len = concat (map (\<lambda>i. be32enc (src ! i)) [0..<len div 4])"

definition be32dec_vect :: "bytes \<Rightarrow> nat \<Rightarrow> u32 list" where
  "be32dec_vect src len = map (\<lambda>i. be32dec (drop (i * 4) src)) [0..<len div 4]"

definition le32enc_vect :: "u32 list \<Rightarrow> nat \<Rightarrow> bytes" where
  "le32enc_vect src len = concat (map (\<lambda>i. le32enc (src ! i)) [0..<len div 4])"

definition le32dec_vect :: "bytes \<Rightarrow> nat \<Rightarrow> u32 list" where
  "le32dec_vect src len = map (\<lambda>i. le32dec (drop (i * 4) src)) [0..<len div 4]"

text \<open>The loop \<open>pad[i] ^= K[i]\<close>; a write outside of \<open>pad\<close> is a fault.\<close>

fun xor_key :: "bytes \<Rightarrow> bytes \<Rightarrow> nat \<Rightarrow> bytes option" where
  "xor_key pad [] i = Some pad"
| "xor_key pad (k # ks) i =
     (if i < length pad then xor_key (pad[i := pad ! i XOR k]) ks (Suc i) else None)"


text \<open>The padding bytes, and the number of them before the length of a message.\<close>

definition PAD :: bytes where
  "PAD = 0x80 # replicate 63 0"

definition pad_len :: "nat \<Rightarrow> nat" where
  "pad_len r = (if r < 56 then 56 - r else 120 - r)"


section \<open>What absorption computes\<close>

text \<open>
  The chaining value after the complete blocks of a message, and the rest of the message.
\<close>

definition md_state :: "('s \<Rightarrow> bytes \<Rightarrow> 's) \<Rightarrow> 's \<Rightarrow> bytes \<Rightarrow> 's" where
  "md_state f s m = fold (\<lambda>b s. f s b) (records 64 m) s"

definition md_tail :: "bytes \<Rightarrow> bytes" where
  "md_tail m = drop (length m div 64 * 64) m"

definition md_rel :: "('s \<Rightarrow> bytes \<Rightarrow> 's) \<Rightarrow> 's \<Rightarrow> 's \<Rightarrow> bytes \<Rightarrow> bytes \<Rightarrow> bool" where
  "md_rel f iv s buf m \<longleftrightarrow> length buf = 64 \<and> s = md_state f iv m \<and> take (length m mod 64) buf = md_tail m"

declare md_blocks.simps [simp del]

lemma length_md_tail [simp]: "length (md_tail m) = length m mod 64"
  by (simp add: md_tail_def minus_div_mult_eq_mod)

lemma md_split: "m = take (length m div 64 * 64) m @ md_tail m"
  by (simp add: md_tail_def)

lemma md_head_dvd: "64 dvd length (take (length m div 64 * 64) m)"
  using div_times_less_eq_dividend [of "length m" 64] by simp

lemma md_tail_append: "64 dvd length a \<Longrightarrow> md_tail (a @ b) = md_tail b"
  by (auto simp: md_tail_def div_add)

lemma md_tail_short [simp]: "length m < 64 \<Longrightarrow> md_tail m = m"
  by (simp add: md_tail_def)

lemma md_state_append: "64 dvd length a \<Longrightarrow> md_state f s (a @ b) = md_state f (md_state f s a) b"
  by (simp add: md_state_def records_append)

lemma md_state_short [simp]: "length m < 64 \<Longrightarrow> md_state f s m = s"
  by (simp add: md_state_def records_def)

lemma md_state_block [simp]: "length b = 64 \<Longrightarrow> md_state f s b = f s b"
  by (simp add: md_state_def)

lemma md_state_tail:
  "md_state f s (m @ x) = md_state f (md_state f s m) (md_tail m @ x)"
  "md_tail (m @ x) = md_tail (md_tail m @ x)"
proof -
  let ?h = "take (length m div 64 * 64) m"
  note h = md_head_dvd [of m]
  have "md_state f s m = md_state f (md_state f s ?h) (md_tail m)"
    by (subst md_split [of m]) (rule md_state_append [OF h])
  then have "md_state f s m = md_state f s ?h" by simp
  moreover have "md_state f s (m @ x) = md_state f (md_state f s ?h) (md_tail m @ x)"
    by (subst md_split [of m]) (simp only: append_assoc md_state_append [OF h])
  ultimately show "md_state f s (m @ x) = md_state f (md_state f s m) (md_tail m @ x)" by simp
  show "md_tail (m @ x) = md_tail (md_tail m @ x)"
    by (subst md_split [of m]) (simp only: append_assoc md_tail_append [OF h])
qed

lemma md_blocks_eq: "md_blocks f s src = (md_state f s src, md_tail src)"
proof (induction f s src rule: md_blocks.induct)
  case (1 f s src)
  show ?case
  proof (cases "length src \<ge> 64")
    case True
    then have "64 dvd length (take 64 src)" "length (take 64 src) = 64" by simp_all
    from md_state_append [OF this(1), of f s "drop 64 src"] md_tail_append [OF this(1), of "drop 64 src"]
      this(2) 1 True
    show ?thesis by (simp add: md_blocks.simps [of f s src])
  qed (simp add: md_blocks.simps [of f s src])
qed

lemma md_absorb_ok:
  assumes rel: "md_rel f iv s buf m" and r: "r = length m mod 64"
  shows "okp (md_absorb f r s buf src) (\<lambda>(s', buf'). md_rel f iv s' buf' (m @ src))"
proof -
  let ?t = "md_tail m"
  from rel have b: "length buf = 64" "s = md_state f iv m" "take r buf = ?t" by (auto simp: md_rel_def r)
  have r64: "r < 64" by (simp add: r)
  have len: "length (md_tail (m @ src)) = length (m @ src) mod 64" by (rule length_md_tail)
  show ?thesis
  proof (cases "length src < 64 - r")
    case True
    then have tl: "length (?t @ src) < 64" using r by simp
    then have m': "md_state f iv (m @ src) = s" "md_tail (m @ src) = ?t @ src"
      using b(2) by (simp_all add: md_state_tail(1) [of f iv m src] md_state_tail(2) [of m src])
    then have "length (m @ src) mod 64 = r + length src" using len r by simp
    with True b m' r64 show ?thesis
      by (simp add: md_absorb_def wp_rules md_rel_def r [symmetric])
  next
    case False
    let ?blk = "?t @ take (64 - r) src"
    have blk: "length ?blk = 64" "64 dvd length ?blk" using False r by simp_all
    have "?t @ src = ?blk @ drop (64 - r) src" by simp
    then have m': "md_state f iv (m @ src) = md_state f (f s ?blk) (drop (64 - r) src)"
        "md_tail (m @ src) = md_tail (drop (64 - r) src)"
      using b(2) md_state_append [OF blk(2), of f s] md_tail_append [OF blk(2)] blk(1)
      by (simp_all only: md_state_tail(1) [of f iv m src] md_state_tail(2) [of m src] md_state_block)
    have st: "take r buf @ take (64 - r) src @ drop (r + length (take (64 - r) src)) buf = ?blk"
      using False b r64 by simp
    have "length (md_tail (drop (64 - r) src)) = length (m @ src) mod 64"
      unfolding m'(2) [symmetric] by (rule length_md_tail)
    then show ?thesis
      using False b(1) m' st r64 blk(1) mod_less_divisor [of 64 "length src - (64 - r)"]
      by (simp add: md_absorb_def wp_rules md_blocks_eq md_rel_def)
  qed
qed


text \<open>The byte count that an update reads from its bit counter, whatever the counter's width.\<close>

lemma count_mod_64:
  assumes "9 \<le> LENGTH('a)"
  shows "unat (drop_bit 3 (of_nat (8 * n) :: 'a::len word) AND 0x3f) = n mod 64"
proof -
  have mask: "(0x3f :: 'a word) = mask 6" by (simp add: mask_eq_exp_minus_1)
  obtain k where k: "LENGTH('a) = 9 + k" using assms le_Suc_ex by blast
  have "unat (drop_bit 3 w AND 0x3f) = take_bit 6 (drop_bit 3 (unat w))" for w :: "'a word"
    using assms by (simp add: mask take_bit_eq_mask [symmetric] unsigned_take_bit_eq unsigned_drop_bit_eq
        take_bit_nat_eq_self [OF unsigned_less])
  then have "unat (drop_bit 3 (of_nat (8 * n) :: 'a word) AND 0x3f)
      = ((8 * n) mod 2 ^ LENGTH('a) div 8) mod 64"
    by (simp only: unat_of_nat) (simp add: drop_bit_eq_div take_bit_eq_mod)
  also have "(8 * n) mod 2 ^ LENGTH('a) = 8 * (n mod 2 ^ (6 + k))"
    by (simp add: k power_add mult_mod_right)
  also have "8 * (n mod 2 ^ (6 + k)) div 8 mod 64 = n mod 64"
    by (simp add: power_add mod_mult2_eq)
  finally show ?thesis .
qed

text \<open>The padding of a message to a multiple of 64 bytes, up to its length field.\<close>

lemma pad_zeros:
  "(55 + 63 * n) mod 64 = (if n mod 64 < 56 then 55 - n mod 64 else 119 - n mod (64 :: nat))"
proof -
  define r where "r = n mod 64"
  have "(55 + 63 * n) mod 64 = (55 + 63 * r) mod 64"
    unfolding r_def by (metis mod_add_right_eq mod_mult_right_eq)
  also have "\<dots> = (if r < 56 then 55 - r else 119 - r)"
  proof (cases "r < 56")
    case True
    then have "55 + 63 * r = 55 - r + r * 64" by simp
    then have "(55 + 63 * r) mod 64 = (55 - r) mod 64" by (simp only: mod_mult_self1)
    with True show ?thesis by simp
  next
    case False
    moreover have "r < 64" by (simp add: r_def)
    ultimately have "55 + 63 * r = 119 - r + (r - 1) * 64" by simp
    then have "(55 + 63 * r) mod 64 = (119 - r) mod 64" by (simp only: mod_mult_self1)
    with False show ?thesis by simp
  qed
  finally show ?thesis by (simp add: r_def)
qed


lemma take_PAD:
  "take (pad_len (n mod 64)) PAD = [0x80] @ replicate ((55 + 63 * n) mod 64) 0"
  "length (take (pad_len (n mod 64)) PAD) = pad_len (n mod 64)"
  "(n + pad_len (n mod 64) + 8) mod 64 = 0"
proof -
  have r: "n mod 64 < 64" by simp
  show "take (pad_len (n mod 64)) PAD = [0x80] @ replicate ((55 + 63 * n) mod 64) 0"
    unfolding pad_zeros PAD_def pad_len_def using r by (auto simp: take_Cons')
  show "length (take (pad_len (n mod 64)) PAD) = pad_len (n mod 64)"
    using r by (auto simp: PAD_def pad_len_def)
  have "(n + pad_len (n mod 64) + 8) mod 64 = (n mod 64 + (pad_len (n mod 64) + 8)) mod 64"
    by (simp add: mod_add_left_eq add.assoc)
  then show "(n + pad_len (n mod 64) + 8) mod 64 = 0" using r by (auto simp: pad_len_def)
qed


section \<open>Rotations and two-word bit counters\<close>

definition ROTL :: "u32 \<Rightarrow> nat \<Rightarrow> u32" where
  "ROTL x n = push_bit n x OR drop_bit (32 - n) x"

lemma shifts_rotr:
  "0 < n \<Longrightarrow> n < 32 \<Longrightarrow> drop_bit n x OR push_bit (32 - n) x = word_rotr n (x :: u32)"
  by (rule bit_word_eqI)
    (auto simp: bit_simps bit_word_rotr_iff mod_if add.commute [of _ n] dest: bit_imp_le_length)

lemma ROTL_rotl:
  assumes "0 < n" "n < 32"
  shows "ROTL x n = word_rotl n x"
  using assms shifts_rotr [of "32 - n" x]
  by (simp add: ROTL_def word_rotl_eq_word_rotr or.commute)

text \<open>
  SHA-1 and MD5 count bits in two words; \<open>cnt_lo\<close> and \<open>cnt_hi\<close> are the halves after an update
  with \<open>len\<close> bytes.
\<close>

definition cnt_lo :: "u32 \<Rightarrow> nat \<Rightarrow> u32" where
  "cnt_lo lo len = lo + push_bit 3 (of_nat len)"

definition cnt_hi :: "u32 \<Rightarrow> u32 \<Rightarrow> nat \<Rightarrow> u32" where
  "cnt_hi hi lo len =
     (if cnt_lo lo len < push_bit 3 (of_nat len) then hi + 1 else hi) + of_nat (len div 2 ^ 29)"

definition cnt_rel :: "u32 \<Rightarrow> u32 \<Rightarrow> nat \<Rightarrow> bool" where
  "cnt_rel hi lo n \<longleftrightarrow> lo = of_nat (8 * n) \<and> hi = of_nat (8 * n div 2 ^ 32)"

lemma carry_iff:
  fixes x y :: u32
  shows "x + y < y \<longleftrightarrow> 2 ^ 32 \<le> unat x + unat y"
proof -
  have "unat x < 2 ^ 32" "unat y < 2 ^ 32"
    using unsigned_less [of x, where 'a = nat] unsigned_less [of y, where 'a = nat] by simp_all
  moreover have "unat (x + y) = (unat x + unat y) mod 2 ^ 32" by (simp add: unat_word_ariths)
  ultimately show ?thesis by (auto simp: word_less_nat_alt mod_if)
qed

lemma cnt_update:
  assumes "cnt_rel hi lo n"
  shows "cnt_rel (cnt_hi hi lo len) (cnt_lo lo len) (n + len)"
proof -
  let ?a = "8 * n" and ?b = "8 * len" and ?M = "2 ^ 32 :: nat"
  have b: "push_bit 3 (of_nat len) = (of_nat ?b :: u32)" by (simp add: push_bit_eq_mult)
  from assms have lo: "lo = of_nat ?a" and hi: "hi = of_nat (?a div ?M)" by (auto simp: cnt_rel_def)
  have "cnt_lo lo len < push_bit 3 (of_nat len) \<longleftrightarrow> ?M \<le> ?a mod ?M + ?b mod ?M"
    unfolding cnt_lo_def b lo carry_iff by (simp only: unat_of_nat) simp
  moreover have "(?a + ?b) div ?M = ?a div ?M + ?b div ?M + (if ?M \<le> ?a mod ?M + ?b mod ?M then 1 else 0)"
  proof -
    have "?a mod ?M < ?M" "?b mod ?M < ?M" by simp_all
    then have "?a mod ?M + ?b mod ?M < 2 * ?M" by linarith
    then have "(?a mod ?M + ?b mod ?M) div ?M = (if ?M \<le> ?a mod ?M + ?b mod ?M then 1 else 0)"
      by (auto simp: div_nat_eqI)
    then show ?thesis by (simp only: div_add1_eq [of ?a ?b ?M])
  qed
  moreover have "len div 2 ^ 29 = ?b div ?M" by simp
  ultimately have "cnt_hi hi lo len = of_nat ((?a + ?b) div ?M)"
    unfolding cnt_hi_def hi by (auto simp: algebra_simps)
  moreover have "cnt_lo lo len = of_nat (8 * (n + len))" unfolding cnt_lo_def b lo by (simp add: algebra_simps)
  ultimately show ?thesis by (simp add: cnt_rel_def distrib_left)
qed

lemma half_byte:
  "k \<le> 24 \<Longrightarrow> ucast (drop_bit k (ucast (w :: u64) :: u32) AND 255) = (ucast (drop_bit k w AND 255) :: u8)"
  "ucast ((ucast (w :: u64) :: u32) AND 255) = (ucast (w AND 255) :: u8)"
  by (rule bit_word_eqI; auto simp: bit_simps)+

lemma cnt_halves:
  assumes "cnt_rel hi lo n"
  shows "be32enc hi @ be32enc lo = be64enc (of_nat (8 * n))" "le32enc lo @ le32enc hi = le64enc (of_nat (8 * n))"
proof -
  let ?w = "of_nat (8 * n) :: u64"
  have "ucast ?w = (of_nat (8 * n) :: u32)"
    by (simp only: unsigned_of_nat word_of_nat_eq_iff take_bit_take_bit) simp
  then have "lo = ucast ?w" using assms by (simp add: cnt_rel_def)
  moreover have "drop_bit 32 ?w = of_nat (take_bit 32 (drop_bit 32 (8 * n)))"
    by (rule unsigned_word_eqI [where 'a = nat])
      (simp add: unsigned_drop_bit_eq unsigned_of_nat drop_bit_take_bit del: of_nat_mult)
  then have "ucast (drop_bit 32 ?w) = (of_nat (8 * n div 2 ^ 32) :: u32)"
    by (simp only: unsigned_of_nat word_of_nat_eq_iff take_bit_take_bit) (simp add: drop_bit_eq_div)
  then have "hi = ucast (drop_bit 32 ?w)" using assms by (simp add: cnt_rel_def)
  ultimately show "be32enc hi @ be32enc lo = be64enc ?w" "le32enc lo @ le32enc hi = le64enc ?w"
    by (simp_all add: be32enc_def be64enc_def le32enc_def le64enc_def half_byte drop_bit_drop_bit)
qed


section \<open>Vectors and keys\<close>

lemma concat_map_nth: "concat (map (\<lambda>i. f (xs ! i)) [0..<length xs]) = concat (map f xs)"
proof -
  have "map (\<lambda>i. f (xs ! i)) [0..<length xs] = map f (map (nth xs) [0..<length xs])" by simp
  then show ?thesis by (simp only: map_nth)
qed

lemma be32enc_vect_eq: "len = 4 * length xs \<Longrightarrow> be32enc_vect xs len = concat (map be32enc xs)"
  by (simp add: be32enc_vect_def concat_map_nth)

lemma le32enc_vect_eq: "len = 4 * length xs \<Longrightarrow> le32enc_vect xs len = concat (map le32enc xs)"
  by (simp add: le32enc_vect_def concat_map_nth)

lemma length_concat_const: "(\<And>x. x \<in> set xs \<Longrightarrow> length (f x) = n) \<Longrightarrow> length (concat (map f xs)) = n * length xs"
  by (induction xs) auto

lemma length_vect [simp]:
  "length (be32enc_vect xs len) = len div 4 * 4" "length (le32enc_vect xs len) = len div 4 * 4"
  "length (be32dec_vect bs len) = len div 4" "length (le32dec_vect bs len) = len div 4"
  by (simp_all add: be32enc_vect_def le32enc_vect_def be32dec_vect_def le32dec_vect_def
      length_concat_const [where n = 4])

text \<open>Decoding undoes encoding, in both byte orders.\<close>

lemma drop_concat_map:
  assumes "\<And>x. length (f x) = n" "i < length xs"
  shows "drop (i * n) (concat (map f xs)) = f (xs ! i) @ concat (map f (drop (Suc i) xs))"
  using assms(2)
proof (induction xs arbitrary: i)
  case (Cons x xs)
  then show ?case using assms(1) by (cases i) auto
qed simp

lemma vect_roundtrip:
  "be32dec_vect (be32enc_vect xs (4 * length xs)) (4 * length xs) = xs"
  "le32dec_vect (le32enc_vect xs (4 * length xs)) (4 * length xs) = xs"
  by (auto simp: be32enc_vect_eq le32enc_vect_eq be32dec_vect_def le32dec_vect_def
      drop_concat_map [of be32enc 4] drop_concat_map [of le32enc 4] intro!: nth_equalityI)

text \<open>A key with the constant \<open>v\<close> over a block of 64 bytes.\<close>

definition xor_pad :: "u8 \<Rightarrow> bytes \<Rightarrow> bytes" where
  "xor_pad v K = map (\<lambda>k. v XOR k) (K @ replicate (64 - length K) 0)"

lemma length_xor_pad [simp]: "length K \<le> 64 \<Longrightarrow> length (xor_pad v K) = 64"
  by (simp add: xor_pad_def)

lemma xor_key_eq:
  "i + length K \<le> length pad \<Longrightarrow>
   xor_key pad K i = Some (take i pad @ map2 (XOR) (drop i pad) K @ drop (i + length K) pad)"
proof (induction pad K i rule: xor_key.induct)
  case (2 pad k ks i)
  then have "i < length pad" by simp
  then have "drop i pad = pad ! i # drop (Suc i) pad" by (rule Cons_nth_drop_Suc [symmetric])
  with 2 show ?case by (simp add: take_Suc_conv_app_nth)
qed simp

lemma xor_key_pad:
  assumes "length K \<le> 64"
  shows "xor_key (replicate 64 v) K 0 = Some (xor_pad v K)"
proof -
  have "map2 (XOR) (replicate 64 v) K = map (\<lambda>k. v XOR k) K"
    using assms by (intro nth_equalityI) auto
  then show ?thesis
    using assms by (simp add: xor_key_eq xor_pad_def map_replicate_const)
qed


section \<open>Streaming hashes and HMAC\<close>

text \<open>The HMAC construction over a hash with blocks of 64 bytes.\<close>

definition hmac_key :: "(bytes \<Rightarrow> bytes) \<Rightarrow> bytes \<Rightarrow> bytes" where
  "hmac_key H K = (if length K > 64 then H K else K)"

definition hmac :: "(bytes \<Rightarrow> bytes) \<Rightarrow> bytes \<Rightarrow> bytes \<Rightarrow> bytes" where
  "hmac H K m = H (xor_pad 0x5c (hmac_key H K) @ H (xor_pad 0x36 (hmac_key H K) @ m))"

text \<open>
  A streaming hash: an initialisation that works on any context object (\<open>wf\<close>), contexts that
  have absorbed a message, an update that appends to it and a finish that yields the hash of
  everything absorbed.
\<close>

locale hash_stream =
  fixes wf :: "'c \<Rightarrow> bool"
    and init :: "'c \<Rightarrow> 'c"
    and upd :: "'c \<Rightarrow> bytes \<Rightarrow> 'c option"
    and final :: "'c \<Rightarrow> (bytes \<times> 'c) option"
    and H :: "bytes \<Rightarrow> bytes"
    and absorbed :: "'c \<Rightarrow> bytes \<Rightarrow> bool"
  assumes init_absorbed: "wf c \<Longrightarrow> absorbed (init c) []"
    and upd_absorbed: "absorbed c m \<Longrightarrow> okp (upd c xs) (\<lambda>c'. absorbed c' (m @ xs))"
    and final_hash: "absorbed c m \<Longrightarrow> okp (final c) (\<lambda>(d, c'). d = H m \<and> wf c')"
    and hash_length: "length (H m) \<le> 64"
begin

lemma init_upd: "wf c \<Longrightarrow> okp (upd (init c) xs) (\<lambda>c'. absorbed c' xs)"
  using upd_absorbed [OF init_absorbed, of c xs] by simp

lemma hash_whole: "wf c \<Longrightarrow> okp (do { c \<leftarrow> upd (init c) xs; final c }) (\<lambda>(d, c'). d = H xs \<and> wf c')"
  using init_upd [of c xs] by (auto simp: wp_rules elim!: okp_mono dest: final_hash)

text \<open>The pieces of a message may be absorbed in any grouping.\<close>

fun upds :: "'c \<Rightarrow> bytes list \<Rightarrow> 'c option" where
  "upds c [] = Some c"
| "upds c (x # xs) = do { c' \<leftarrow> upd c x; upds c' xs }"

lemma upds_absorbed: "absorbed c m \<Longrightarrow> okp (upds c xs) (\<lambda>c'. absorbed c' (m @ concat xs))"
proof (induction xs arbitrary: c m)
  case (Cons x xs)
  show ?case
    using Cons.IH by (auto simp: wp_rules intro!: okp_mono [OF upd_absorbed [OF Cons.prems, of x]])
      (metis append_assoc)
qed simp

lemma hash_chunks:
  assumes "wf c"
  shows "okp (do { c \<leftarrow> upds (init c) xs; final c }) (\<lambda>(d, c'). d = H (concat xs) \<and> wf c')"
  using upds_absorbed [OF init_absorbed [OF assms], of xs]
  by (auto simp: wp_rules elim!: okp_mono dest: final_hash)

lemma hmac_key_length: "length (hmac_key H K) \<le> 64"
  by (simp add: hmac_key_def hash_length)

lemma key_ok:
  assumes "wf c"
  shows "okp (if length K > 64 then do { c \<leftarrow> upd (init c) K; final c } else Some (K, c))
     (\<lambda>(k, c'). k = hmac_key H K \<and> wf c')"
  using hash_whole [OF assms, of K] assms by (auto simp: hmac_key_def)

text \<open>The two contexts of HMAC after a key and the data so far.\<close>

definition keyed :: "bytes \<Rightarrow> 'c \<Rightarrow> 'c \<Rightarrow> bytes \<Rightarrow> bool" where
  "keyed K ic oc m \<longleftrightarrow> absorbed ic (xor_pad 0x36 (hmac_key H K) @ m) \<and> absorbed oc (xor_pad 0x5c (hmac_key H K))"

lemma keyed_init:
  assumes "wf ic" "wf oc"
  shows "okp (do {
      (k, ic) \<leftarrow> (if length K > 64 then do { c \<leftarrow> upd (init ic) K; final c } else Some (K, ic));
      ip \<leftarrow> xor_key (replicate 64 0x36) k 0;
      ic \<leftarrow> upd (init ic) ip;
      op \<leftarrow> xor_key (replicate 64 0x5c) k 0;
      oc \<leftarrow> upd (init oc) op;
      Some (ic, oc) }) (\<lambda>(ic, oc). keyed K ic oc [])"
proof -
  let ?k = "hmac_key H K"
  have "okp (do {
      ip \<leftarrow> xor_key (replicate 64 0x36) ?k 0;
      ic \<leftarrow> upd (init ic) ip;
      op \<leftarrow> xor_key (replicate 64 0x5c) ?k 0;
      oc \<leftarrow> upd (init oc) op;
      Some (ic, oc) }) (\<lambda>(ic, oc). keyed K ic oc [])" if "wf ic" for ic
    using init_upd [OF that, of "xor_pad 0x36 ?k"] init_upd [OF assms(2), of "xor_pad 0x5c ?k"]
    by (auto simp: wp_rules xor_key_pad [OF hmac_key_length] keyed_def elim!: okp_mono)
  then show ?thesis
    by (subst okp_bind, intro okp_mono [OF key_ok [OF assms(1)]]) auto
qed

lemma keyed_upd: "keyed K ic oc m \<Longrightarrow> okp (upd ic xs) (\<lambda>ic'. keyed K ic' oc (m @ xs))"
  using upd_absorbed [of ic "xor_pad 0x36 (hmac_key H K) @ m" xs]
  by (auto simp: keyed_def elim!: okp_mono)

lemma keyed_final:
  assumes "keyed K ic oc m"
  shows "okp (do { (ih, ic') \<leftarrow> final ic; oc' \<leftarrow> upd oc ih; (d, oc') \<leftarrow> final oc'; Some (d, ic', oc') })
    (\<lambda>(d, ic', oc'). d = hmac H K m \<and> wf ic' \<and> wf oc')"
proof -
  let ?k = "hmac_key H K"
  from assms have a: "absorbed ic (xor_pad 0x36 ?k @ m)" "absorbed oc (xor_pad 0x5c ?k)"
    by (auto simp: keyed_def)
  have "okp (do { oc' \<leftarrow> upd oc (H (xor_pad 0x36 ?k @ m)); final oc' })
      (\<lambda>(d, oc'). d = hmac H K m \<and> wf oc')"
    using upd_absorbed [OF a(2), of "H (xor_pad 0x36 ?k @ m)"] final_hash
    by (fastforce simp: wp_rules hmac_def elim!: okp_mono)
  then show ?thesis
    using final_hash [OF a(1)] by (auto simp: wp_rules elim!: okp_mono)
qed

end

end
