(* ===== verification/Sha256.thy ===== *)
theory Sha256
  imports Block_Hash
begin

text \<open>
  \<open>alg/sha256.c\<close>: the SHA-256 compression function in its rotating, unrolled form, the
  streaming interface, HMAC-SHA256 and PBKDF2-SHA256.  The software path is modelled.  The
  scratch arrays \<open>W\<close> and \<open>S\<close> are arguments of \<open>SHA256_Transform\<close>, whose result does not
  depend on them; its callers pass arrays of zeroes.  A context is the C structure; a copy into
  its buffer that left the buffer would be a fault.
\<close>

section \<open>The compression function\<close>

definition Krnd :: "u32 list" where
  "Krnd =
     [0x428a2f98, 0x71374491, 0xb5c0fbcf, 0xe9b5dba5] @
     [0x3956c25b, 0x59f111f1, 0x923f82a4, 0xab1c5ed5] @
     [0xd807aa98, 0x12835b01, 0x243185be, 0x550c7dc3] @
     [0x72be5d74, 0x80deb1fe, 0x9bdc06a7, 0xc19bf174] @
     [0xe49b69c1, 0xefbe4786, 0x0fc19dc6, 0x240ca1cc] @
     [0x2de92c6f, 0x4a7484aa, 0x5cb0a9dc, 0x76f988da] @
     [0x983e5152, 0xa831c66d, 0xb00327c8, 0xbf597fc7] @
     [0xc6e00bf3, 0xd5a79147, 0x06ca6351, 0x14292967] @
     [0x27b70a85, 0x2e1b2138, 0x4d2c6dfc, 0x53380d13] @
     [0x650a7354, 0x766a0abb, 0x81c2c92e, 0x92722c85] @
     [0xa2bfe8a1, 0xa81a664b, 0xc24b8b70, 0xc76c51a3] @
     [0xd192e819, 0xd6990624, 0xf40e3585, 0x106aa070] @
     [0x19a4c116, 0x1e376c08, 0x2748774c, 0x34b0bcb5] @
     [0x391c0cb3, 0x4ed8aa4a, 0x5b9cca4f, 0x682e6ff3] @
     [0x748f82ee, 0x78a5636f, 0x84c87814, 0x8cc70208] @
     [0x90befffa, 0xa4506ceb, 0xbef9a3f7, 0xc67178f2]"

definition initial_state :: "u32 list" where
  "initial_state = [
     0x6A09E667, 0xBB67AE85, 0x3C6EF372, 0xA54FF53A,
     0x510E527F, 0x9B05688C, 0x1F83D9AB, 0x5BE0CD19
  ]"

definition Ch :: "u32 \<Rightarrow> u32 \<Rightarrow> u32 \<Rightarrow> u32" where
  "Ch x y z = (x AND (y XOR z)) XOR z"

definition Maj :: "u32 \<Rightarrow> u32 \<Rightarrow> u32 \<Rightarrow> u32" where
  "Maj x y z = (x AND (y OR z)) OR (y AND z)"

definition SHR :: "u32 \<Rightarrow> nat \<Rightarrow> u32" where
  "SHR x n = drop_bit n x"

definition ROTR :: "u32 \<Rightarrow> nat \<Rightarrow> u32" where
  "ROTR x n = drop_bit n x OR push_bit (32 - n) x"

definition S0 :: "u32 \<Rightarrow> u32" where
  "S0 x = ROTR x 2 XOR ROTR x 13 XOR ROTR x 22"

definition S1 :: "u32 \<Rightarrow> u32" where
  "S1 x = ROTR x 6 XOR ROTR x 11 XOR ROTR x 25"

definition s0 :: "u32 \<Rightarrow> u32" where
  "s0 x = ROTR x 7 XOR ROTR x 18 XOR SHR x 3"

definition s1 :: "u32 \<Rightarrow> u32" where
  "s1 x = ROTR x 17 XOR ROTR x 19 XOR SHR x 10"

text \<open>The round macro works in place on the entries of \<open>S\<close> that its arguments name.\<close>

definition RND :: "nat \<Rightarrow> nat \<Rightarrow> nat \<Rightarrow> nat \<Rightarrow> nat \<Rightarrow> nat \<Rightarrow> nat \<Rightarrow> nat \<Rightarrow> u32 \<Rightarrow> u32 list \<Rightarrow> u32 list" where
  "RND a b c d e f g h k S =
     (let S = S[h := S ! h + (S1 (S ! e) + Ch (S ! e) (S ! f) (S ! g) + k)];
          S = S[d := S ! d + S ! h];
          S = S[h := S ! h + (S0 (S ! a) + Maj (S ! a) (S ! b) (S ! c))]
      in S)"

definition RNDr :: "u32 list \<Rightarrow> u32 list \<Rightarrow> nat \<Rightarrow> nat \<Rightarrow> u32 list" where
  "RNDr S W i ii =
     RND ((64 - i) mod 8) ((65 - i) mod 8) ((66 - i) mod 8) ((67 - i) mod 8)
         ((68 - i) mod 8) ((69 - i) mod 8) ((70 - i) mod 8) ((71 - i) mod 8)
         (W ! (i + ii) + Krnd ! (i + ii)) S"

definition MSCH :: "u32 list \<Rightarrow> nat \<Rightarrow> nat \<Rightarrow> u32 list" where
  "MSCH W ii i =
     W[i + ii + 16 := s1 (W ! (i + ii + 14)) + W ! (i + ii + 9) + s0 (W ! (i + ii + 1)) + W ! (i + ii)]"

text \<open>The mixing loop; the sixteen macro calls of each kind are folds over their index.\<close>

function sha256_mix :: "nat \<Rightarrow> u32 list \<Rightarrow> u32 list \<Rightarrow> u32 list" where
  "sha256_mix i W S =
     (if i < 64 then
        (let S = fold (\<lambda>j S. RNDr S W j i) [0..<16] S in
         if i = 48 then S
         else
           (let W = fold (\<lambda>j W. MSCH W j i) [0..<16] W in
            sha256_mix (i + 16) W S))
      else S)"
  by pat_completeness auto
termination
  by (relation "measure (\<lambda>(i, W, S). 64 - i)") auto

definition SHA256_Transform :: "u32 list \<Rightarrow> bytes \<Rightarrow> u32 list \<Rightarrow> u32 list \<Rightarrow> u32 list" where
  "SHA256_Transform state block W S =
     (let W = be32dec_vect block 64 @ drop 16 W;
          S = take 8 state;
          S = sha256_mix 0 W S
      in map (\<lambda>i. state ! i + S ! i) [0..<8])"

definition sha256_tr :: "u32 list \<Rightarrow> bytes \<Rightarrow> u32 list" where
  "sha256_tr state block = SHA256_Transform state block (replicate 64 0) (replicate 8 0)"


section \<open>The streaming interface\<close>

record SHA256_CTX =
  sha_state :: "u32 list"
  sha_count :: u64
  sha_buf :: bytes

text \<open>The number of bytes in the buffer.\<close>

definition sha_r :: "SHA256_CTX \<Rightarrow> nat" where
  "sha_r ctx = unat (drop_bit 3 (sha_count ctx) AND 0x3f)"

definition SHA256_Pad :: "SHA256_CTX \<Rightarrow> SHA256_CTX option" where
  "SHA256_Pad ctx = do {
     let r = sha_r ctx;
     ctx \<leftarrow> (if r < 56 then do {
         buf \<leftarrow> mem_store (sha_buf ctx) r (take (56 - r) PAD);
         Some (ctx\<lparr>sha_buf := buf\<rparr>)
       }
       else do {
         buf \<leftarrow> mem_store (sha_buf ctx) r (take (64 - r) PAD);
         let st = sha256_tr (sha_state ctx) buf;
         buf \<leftarrow> mem_store buf 0 (replicate 56 0);
         Some (ctx\<lparr>sha_state := st, sha_buf := buf\<rparr>)
       });
     buf \<leftarrow> mem_store (sha_buf ctx) 56 (be64enc (sha_count ctx));
     Some (ctx\<lparr>sha_state := sha256_tr (sha_state ctx) buf, sha_buf := buf\<rparr>)
   }"

text \<open>
  A context object that is initialised holds indeterminate values; its buffer keeps them.
\<close>

definition SHA256_Init :: "SHA256_CTX \<Rightarrow> SHA256_CTX" where
  "SHA256_Init ctx = ctx\<lparr>sha_count := 0, sha_state := initial_state\<rparr>"

definition SHA256_Update_internal :: "SHA256_CTX \<Rightarrow> bytes \<Rightarrow> SHA256_CTX option" where
  "SHA256_Update_internal ctx src =
     (if length src = 0 then Some ctx
      else do {
        let r = sha_r ctx;
        let ctx = ctx\<lparr>sha_count := sha_count ctx + push_bit 3 (of_nat (length src))\<rparr>;
        (st, buf) \<leftarrow> md_absorb sha256_tr r (sha_state ctx) (sha_buf ctx) src;
        Some (ctx\<lparr>sha_state := st, sha_buf := buf\<rparr>)
      })"

definition SHA256_Update :: "SHA256_CTX \<Rightarrow> bytes \<Rightarrow> SHA256_CTX option" where
  "SHA256_Update ctx src = SHA256_Update_internal ctx src"

definition SHA256_Final_internal :: "SHA256_CTX \<Rightarrow> (bytes \<times> SHA256_CTX) option" where
  "SHA256_Final_internal ctx = do {
     ctx \<leftarrow> SHA256_Pad ctx;
     Some (be32enc_vect (sha_state ctx) 32, ctx)
   }"

text \<open>The context that \<open>insecure_memzero\<close> leaves.\<close>

definition sha_zero :: SHA256_CTX where
  "sha_zero = \<lparr>sha_state = replicate 8 0, sha_count = 0, sha_buf = replicate 64 0\<rparr>"

definition SHA256_Final :: "SHA256_CTX \<Rightarrow> (bytes \<times> SHA256_CTX) option" where
  "SHA256_Final ctx = do {
     (digest, ctx) \<leftarrow> SHA256_Final_internal ctx;
     Some (digest, sha_zero)
   }"

text \<open>The context on the stack is the first argument, with whatever it holds.\<close>

definition SHA256_Buf :: "SHA256_CTX \<Rightarrow> bytes \<Rightarrow> bytes option" where
  "SHA256_Buf ctx src = do {
     ctx \<leftarrow> SHA256_Update_internal (SHA256_Init ctx) src;
     (digest, ctx) \<leftarrow> SHA256_Final_internal ctx;
     Some digest
   }"


section \<open>HMAC\<close>

record HMAC_SHA256_CTX =
  hm_ictx :: SHA256_CTX
  hm_octx :: SHA256_CTX

definition HMAC_SHA256_Init_internal :: "HMAC_SHA256_CTX \<Rightarrow> bytes \<Rightarrow> HMAC_SHA256_CTX option" where
  "HMAC_SHA256_Init_internal ctx K = do {
     (K, ictx) \<leftarrow> (if length K > 64 then do {
         ictx \<leftarrow> SHA256_Update_internal (SHA256_Init (hm_ictx ctx)) K;
         SHA256_Final_internal ictx
       }
       else Some (K, hm_ictx ctx));
     pad \<leftarrow> xor_key (replicate 64 0x36) K 0;
     ictx \<leftarrow> SHA256_Update_internal (SHA256_Init ictx) pad;
     pad \<leftarrow> xor_key (replicate 64 0x5c) K 0;
     octx \<leftarrow> SHA256_Update_internal (SHA256_Init (hm_octx ctx)) pad;
     Some \<lparr>hm_ictx = ictx, hm_octx = octx\<rparr>
   }"

definition HMAC_SHA256_Init :: "HMAC_SHA256_CTX \<Rightarrow> bytes \<Rightarrow> HMAC_SHA256_CTX option" where
  "HMAC_SHA256_Init ctx K = HMAC_SHA256_Init_internal ctx K"

definition HMAC_SHA256_Update_internal :: "HMAC_SHA256_CTX \<Rightarrow> bytes \<Rightarrow> HMAC_SHA256_CTX option" where
  "HMAC_SHA256_Update_internal ctx src = do {
     ictx \<leftarrow> SHA256_Update_internal (hm_ictx ctx) src;
     Some (ctx\<lparr>hm_ictx := ictx\<rparr>)
   }"

definition HMAC_SHA256_Update :: "HMAC_SHA256_CTX \<Rightarrow> bytes \<Rightarrow> HMAC_SHA256_CTX option" where
  "HMAC_SHA256_Update ctx src = HMAC_SHA256_Update_internal ctx src"

definition HMAC_SHA256_Final_internal :: "HMAC_SHA256_CTX \<Rightarrow> (bytes \<times> HMAC_SHA256_CTX) option" where
  "HMAC_SHA256_Final_internal ctx = do {
     (ihash, ictx) \<leftarrow> SHA256_Final_internal (hm_ictx ctx);
     octx \<leftarrow> SHA256_Update_internal (hm_octx ctx) ihash;
     (digest, octx) \<leftarrow> SHA256_Final_internal octx;
     Some (digest, \<lparr>hm_ictx = ictx, hm_octx = octx\<rparr>)
   }"

definition HMAC_SHA256_Final :: "HMAC_SHA256_CTX \<Rightarrow> (bytes \<times> HMAC_SHA256_CTX) option" where
  "HMAC_SHA256_Final ctx = do {
     (digest, ctx) \<leftarrow> HMAC_SHA256_Final_internal ctx;
     Some (digest, \<lparr>hm_ictx = sha_zero, hm_octx = sha_zero\<rparr>)
   }"

definition HMAC_SHA256_Buf :: "HMAC_SHA256_CTX \<Rightarrow> bytes \<Rightarrow> bytes \<Rightarrow> bytes option" where
  "HMAC_SHA256_Buf ctx K src = do {
     ctx \<leftarrow> HMAC_SHA256_Init_internal ctx K;
     ctx \<leftarrow> HMAC_SHA256_Update_internal ctx src;
     (digest, ctx) \<leftarrow> HMAC_SHA256_Final_internal ctx;
     Some digest
   }"


section \<open>PBKDF2\<close>

text \<open>
  The loop over \<open>j\<close>, a \<open>uint64_t\<close> that is compared with \<open>c\<close> and incremented with wrap-around;
  \<open>None\<close> is also the value of a loop that never ends.
\<close>

partial_function (option) pbkdf2_iter :: "HMAC_SHA256_CTX \<Rightarrow> u64 \<Rightarrow> u64 \<Rightarrow> bytes \<Rightarrow> bytes \<Rightarrow> bytes option" where
  "pbkdf2_iter Phctx c j U T =
     (if j \<le> c then do {
        hctx \<leftarrow> HMAC_SHA256_Update_internal Phctx U;
        (U, hctx) \<leftarrow> HMAC_SHA256_Final_internal hctx;
        T \<leftarrow> xor_key T U 0;
        pbkdf2_iter Phctx c (j + 1) U T
      }
      else Some T)"

text \<open>The loop over the blocks of the output; \<open>buf\<close> is the caller's buffer.\<close>

partial_function (option) pbkdf2_blocks ::
    "HMAC_SHA256_CTX \<Rightarrow> HMAC_SHA256_CTX \<Rightarrow> u64 \<Rightarrow> nat \<Rightarrow> nat \<Rightarrow> bytes \<Rightarrow> bytes option" where
  "pbkdf2_blocks Phctx PShctx c dkLen i buf =
     (if szmul i 32 < dkLen then do {
        let ivec = be32enc (of_nat (szadd i 1));
        hctx \<leftarrow> HMAC_SHA256_Update_internal PShctx ivec;
        (U, hctx) \<leftarrow> HMAC_SHA256_Final_internal hctx;
        T \<leftarrow> pbkdf2_iter Phctx c 2 U U;
        let clen = szsub dkLen (szmul i 32);
        let clen = (if clen > 32 then 32 else clen);
        buf \<leftarrow> mem_store buf (szmul i 32) (take clen T);
        pbkdf2_blocks Phctx PShctx c dkLen (szadd i 1) buf
      }
      else Some buf)"

definition PBKDF2_SHA256 :: "HMAC_SHA256_CTX \<Rightarrow> bytes \<Rightarrow> bytes \<Rightarrow> u64 \<Rightarrow> bytes \<Rightarrow> nat \<Rightarrow> bytes option" where
  "PBKDF2_SHA256 Phctx passwd salt c buf dkLen = do {
     cassert (dkLen \<le> 32 * 0xffffffff);
     Phctx \<leftarrow> HMAC_SHA256_Init_internal Phctx passwd;
     PShctx \<leftarrow> HMAC_SHA256_Update_internal Phctx salt;
     pbkdf2_blocks Phctx PShctx c dkLen 0 buf
   }"


section \<open>The standard\<close>

text \<open>
  FIPS 180-4: the functions of section 4.1.2, the message schedule and the computation of
  section 6.2.2 on eight working variables, and the padding of section 5.1.1.
\<close>

definition fips_Ch :: "u32 \<Rightarrow> u32 \<Rightarrow> u32 \<Rightarrow> u32" where
  "fips_Ch x y z = (x AND y) XOR (NOT x AND z)"

definition fips_Maj :: "u32 \<Rightarrow> u32 \<Rightarrow> u32 \<Rightarrow> u32" where
  "fips_Maj x y z = (x AND y) XOR (x AND z) XOR (y AND z)"

definition fips_Sigma0 :: "u32 \<Rightarrow> u32" where
  "fips_Sigma0 x = word_rotr 2 x XOR word_rotr 13 x XOR word_rotr 22 x"

definition fips_Sigma1 :: "u32 \<Rightarrow> u32" where
  "fips_Sigma1 x = word_rotr 6 x XOR word_rotr 11 x XOR word_rotr 25 x"

definition fips_sigma0 :: "u32 \<Rightarrow> u32" where
  "fips_sigma0 x = word_rotr 7 x XOR word_rotr 18 x XOR drop_bit 3 x"

definition fips_sigma1 :: "u32 \<Rightarrow> u32" where
  "fips_sigma1 x = word_rotr 17 x XOR word_rotr 19 x XOR drop_bit 10 x"

fun fips_W :: "u32 list \<Rightarrow> nat \<Rightarrow> u32" where
  "fips_W M t =
     (if t < 16 then M ! t
      else fips_sigma1 (fips_W M (t - 2)) + fips_W M (t - 7) + fips_sigma0 (fips_W M (t - 15))
           + fips_W M (t - 16))"

declare fips_W.simps [simp del]

type_synonym vars = "u32 \<times> u32 \<times> u32 \<times> u32 \<times> u32 \<times> u32 \<times> u32 \<times> u32"

fun fips_round :: "u32 \<Rightarrow> vars \<Rightarrow> vars" where
  "fips_round kw (a, b, c, d, e, f, g, h) =
     (let T1 = h + fips_Sigma1 e + fips_Ch e f g + kw; T2 = fips_Sigma0 a + fips_Maj a b c in
      (T1 + T2, a, b, c, d + T1, e, f, g))"

definition fips_rounds :: "u32 list \<Rightarrow> nat \<Rightarrow> vars \<Rightarrow> vars" where
  "fips_rounds M n = fold (\<lambda>t. fips_round (Krnd ! t + fips_W M t)) [0..<n]"

definition vars_of :: "u32 list \<Rightarrow> vars" where
  "vars_of S = (S ! 0, S ! 1, S ! 2, S ! 3, S ! 4, S ! 5, S ! 6, S ! 7)"

fun list_of_vars :: "vars \<Rightarrow> u32 list" where
  "list_of_vars (a, b, c, d, e, f, g, h) = [a, b, c, d, e, f, g, h]"

definition fips_compress :: "u32 list \<Rightarrow> bytes \<Rightarrow> u32 list" where
  "fips_compress H blk =
     map2 (+) H (list_of_vars (fips_rounds (map be32dec (records 4 blk)) 64 (vars_of H)))"

definition fips_pad :: "bytes \<Rightarrow> bytes" where
  "fips_pad m = m @ [0x80] @ replicate ((55 + 63 * length m) mod 64) 0 @ be64enc (of_nat (8 * length m))"

definition sha256 :: "bytes \<Rightarrow> bytes" where
  "sha256 m = concat (map be32enc (fold (\<lambda>b H. fips_compress H b) (records 64 (fips_pad m)) initial_state))"


section \<open>The compression function is that of the standard\<close>

lemma Ch_fips: "Ch x y z = fips_Ch x y z"
  unfolding Ch_def fips_Ch_def by (rule bit_word_eqI) (auto simp: bit_simps)

lemma Maj_fips: "Maj x y z = fips_Maj x y z"
  unfolding Maj_def fips_Maj_def by (rule bit_word_eqI) (auto simp: bit_simps)

lemma ROTR_rotr: "0 < n \<Longrightarrow> n < 32 \<Longrightarrow> ROTR x n = word_rotr n x"
  unfolding ROTR_def by (rule shifts_rotr)

lemma sigma_fips: "S0 = fips_Sigma0" "S1 = fips_Sigma1" "s0 = fips_sigma0" "s1 = fips_sigma1"
  by (auto simp: fun_eq_iff S0_def S1_def s0_def s1_def SHR_def fips_Sigma0_def fips_Sigma1_def
      fips_sigma0_def fips_sigma1_def ROTR_rotr)

lemmas fips_funs = Ch_fips Maj_fips sigma_fips

text \<open>The working variables of round \<open>i\<close>, as the rotating state holds them.\<close>

definition rot :: "nat \<Rightarrow> u32 list \<Rightarrow> vars" where
  "rot i S = (S ! ((64 - i) mod 8), S ! ((65 - i) mod 8), S ! ((66 - i) mod 8), S ! ((67 - i) mod 8),
     S ! ((68 - i) mod 8), S ! ((69 - i) mod 8), S ! ((70 - i) mod 8), S ! ((71 - i) mod 8))"

lemma length_8_vars: "length S = 8 \<Longrightarrow> \<exists>a b c d e f g h. S = [a, b, c, d, e, f, g, h]"
  by (auto simp: length_Suc_conv numeral_eq_Suc)

lemma rot_RNDr:
  assumes "length S = 8" "i < 16"
  shows "rot (Suc i) (RNDr S W i ii) = fips_round (Krnd ! (i + ii) + W ! (i + ii)) (rot i S)"
proof -
  from assms(1) obtain a b c d e f g h where S: "S = [a, b, c, d, e, f, g, h]" using length_8_vars by blast
  from assms(2) have "i \<in> {0, 1, 2, 3, 4, 5, 6, 7, 8, 9, 10, 11, 12, 13, 14, 15}"
    by (simp add: less_Suc_eq numeral_eq_Suc)
  then show ?thesis
    by (elim insertE) (simp_all add: S rot_def RNDr_def RND_def Let_def fips_funs ac_simps)
qed


lemma length_RNDr [simp]: "length (RNDr S W i ii) = length S"
  by (simp add: RNDr_def RND_def Let_def)

lemma rot_id: "rot 0 S = vars_of S" "rot 16 S = vars_of S"
  by (simp_all add: rot_def vars_of_def)

lemma fold_RNDr:
  assumes "length S = 8" "n \<le> 16"
  shows "length (fold (\<lambda>j S. RNDr S W j i) [0..<n] S) = 8"
    "rot n (fold (\<lambda>j S. RNDr S W j i) [0..<n] S)
       = fold (\<lambda>t. fips_round (Krnd ! t + W ! t)) [i..<i + n] (vars_of S)"
  using assms
proof (induction n)
  case (Suc n)
  {
    case 1
    then show ?case using Suc by simp
  next
    case 2
    then show ?case using Suc rot_RNDr [of _ n W i] by (simp add: add.commute [of n i])
  }
qed (simp_all add: rot_id)

lemma length_fold_MSCH [simp]: "length (fold (\<lambda>j W. MSCH W j i) js W) = length W"
  by (induction js arbitrary: W) (simp_all add: MSCH_def)

text \<open>A schedule array whose first \<open>n\<close> entries are final.\<close>

definition sched :: "u32 list \<Rightarrow> u32 list \<Rightarrow> nat \<Rightarrow> bool" where
  "sched M W n \<longleftrightarrow> length W = 64 \<and> (\<forall>t<n. W ! t = fips_W M t)"

lemma sched_MSCH:
  assumes "sched M W (i + n + 16)" "i + n < 48"
  shows "sched M (MSCH W n i) (i + Suc n + 16)"
proof -
  let ?t = "i + n + 16"
  have "fips_W M ?t = fips_sigma1 (fips_W M (i + n + 14)) + fips_W M (i + n + 9)
      + fips_sigma0 (fips_W M (i + n + 1)) + fips_W M (i + n)"
    by (subst fips_W.simps) (simp add: ac_simps)
  moreover have "W ! (i + n + 14) = fips_W M (i + n + 14)" "W ! (i + n + 9) = fips_W M (i + n + 9)"
    "W ! (i + n + 1) = fips_W M (i + n + 1)" "W ! (i + n) = fips_W M (i + n)"
    using assms(1) by (simp_all add: sched_def)
  ultimately show ?thesis
    using assms unfolding sched_def MSCH_def sigma_fips by (auto simp: nth_list_update less_Suc_eq)
qed

lemma sched_fold:
  "sched M W (i + 16) \<Longrightarrow> i + n \<le> 48 \<Longrightarrow> sched M (fold (\<lambda>j W. MSCH W j i) [0..<n] W) (i + n + 16)"
proof (induction n)
  case (Suc n)
  then show ?case using sched_MSCH [of M _ i n] by simp
qed simp

lemma fold_sched_rounds:
  assumes "sched M W (i + 16)" "i \<le> 48"
  shows "fold (\<lambda>t. fips_round (Krnd ! t + W ! t)) [i..<i + 16] (fips_rounds M i v) = fips_rounds M (i + 16) v"
proof -
  have "fips_rounds M (i + 16) v = fold (\<lambda>t. fips_round (Krnd ! t + fips_W M t)) [i..<i + 16] (fips_rounds M i v)"
    unfolding fips_rounds_def using upt_add_eq_append [of 0 i 16] by simp
  also have "\<dots> = fold (\<lambda>t. fips_round (Krnd ! t + W ! t)) [i..<i + 16] (fips_rounds M i v)"
    using assms by (intro fold_cong) (auto simp: sched_def)
  finally show ?thesis by simp
qed

declare sha256_mix.simps [simp del]

lemma sha256_mix_fips:
  "16 dvd i \<Longrightarrow> i \<le> 48 \<Longrightarrow> length S = 8 \<Longrightarrow> sched M W (i + 16) \<Longrightarrow> vars_of S = fips_rounds M i v \<Longrightarrow>
   length (sha256_mix i W S) = 8 \<and> vars_of (sha256_mix i W S) = fips_rounds M 64 v"
proof (induction i W S rule: sha256_mix.induct)
  case (1 i W S)
  let ?S = "fold (\<lambda>j S. RNDr S W j i) [0..<16] S"
  let ?W = "fold (\<lambda>j W. MSCH W j i) [0..<16] W"
  have S: "length ?S = 8" "vars_of ?S = fips_rounds M (i + 16) v"
    using fold_RNDr [of S 16 W i] fold_sched_rounds [of M W i v] 1(2-6) by (simp_all add: rot_id)
  show ?case
  proof (cases "i = 48")
    case True
    have "sha256_mix i W S = ?S" using True by (subst sha256_mix.simps) (simp add: Let_def)
    with S True show ?thesis by simp
  next
    case False
    with 1(2,3) have i: "i + 16 \<le> 48" "i < 64" "16 dvd i + 16" by (auto elim!: dvdE)
    have W: "sched M ?W (i + 16 + 16)" using sched_fold [OF 1(5) i(1)] .
    have "sha256_mix i W S = sha256_mix (i + 16) ?W ?S"
      using i False by (simp add: sha256_mix.simps [of i] Let_def)
    with 1(1) [OF i(2) refl False refl i(3,1) S(1) W S(2)] show ?thesis by simp
  qed
qed

lemma records_4_words:
  assumes "length blk = 64"
  shows "be32dec_vect blk 64 = map be32dec (records 4 blk)"
proof -
  have "be32dec (drop (i * 4) blk) = be32dec (take 4 (drop (i * 4) blk))" for i
    by (simp add: be32dec_def)
  then show ?thesis using assms by (simp add: be32dec_vect_def records_def)
qed

lemma vars_of_list: "length S = 8 \<Longrightarrow> list_of_vars (vars_of S) = S"
  using length_8_vars [of S] by (auto simp: vars_of_def)

text \<open>The result does not depend on the scratch arrays.\<close>

lemma SHA256_Transform_fips:
  assumes "length state = 8" "length block = 64" "length W = 64"
  shows "SHA256_Transform state block W S = fips_compress state block"
proof -
  let ?M = "map be32dec (records 4 block)"
  let ?W = "be32dec_vect block 64 @ drop 16 W"
  have "length ?M = 16" using assms by simp
  then have "sched ?M ?W (0 + 16)"
    using assms by (auto simp: sched_def records_4_words nth_append fips_W.simps)
  from sha256_mix_fips [OF _ _ assms(1) this, of "vars_of state"]
  have mix: "length (sha256_mix 0 ?W state) = 8"
    "vars_of (sha256_mix 0 ?W state) = fips_rounds ?M 64 (vars_of state)"
    by (simp_all add: fips_rounds_def)
  have "fips_compress state block = map2 (+) state (sha256_mix 0 ?W state)"
    unfolding fips_compress_def mix(2) [symmetric] vars_of_list [OF mix(1)] ..
  also have "\<dots> = SHA256_Transform state block W S"
    using assms mix(1) by (intro nth_equalityI) (auto simp: SHA256_Transform_def Let_def)
  finally show ?thesis by simp
qed

lemma length_list_of_vars [simp]: "length (list_of_vars v) = 8"
  by (cases v rule: list_of_vars.cases) simp

lemma length_fips_compress [simp]: "length H = 8 \<Longrightarrow> length (fips_compress H b) = 8"
  by (simp add: fips_compress_def)

lemma sha256_tr_fips: "length H = 8 \<Longrightarrow> length b = 64 \<Longrightarrow> sha256_tr H b = fips_compress H b"
  by (simp add: sha256_tr_def SHA256_Transform_fips)


section \<open>Streaming\<close>

text \<open>A context that has absorbed the message \<open>m\<close>, in any number of pieces.\<close>

definition sha_absorbed :: "SHA256_CTX \<Rightarrow> bytes \<Rightarrow> bool" where
  "sha_absorbed ctx m \<longleftrightarrow> md_rel sha256_tr initial_state (sha_state ctx) (sha_buf ctx) m \<and>
     sha_count ctx = of_nat (8 * length m)"

lemma sha_absorbed_r: "sha_absorbed ctx m \<Longrightarrow> sha_r ctx = length m mod 64"
  by (simp only: sha_absorbed_def sha_r_def) (rule count_mod_64, simp)

lemma sha_absorbed_init: "length (sha_buf ctx) = 64 \<Longrightarrow> sha_absorbed (SHA256_Init ctx) []"
  by (simp add: sha_absorbed_def SHA256_Init_def md_rel_def)

lemma SHA256_Update_ok:
  assumes "sha_absorbed ctx m"
  shows "okp (SHA256_Update_internal ctx src) (\<lambda>ctx'. sha_absorbed ctx' (m @ src))"
proof -
  from assms have "md_rel sha256_tr initial_state (sha_state ctx) (sha_buf ctx) m"
    by (simp add: sha_absorbed_def)
  from md_absorb_ok [OF this sha_absorbed_r [OF assms], of src] assms show ?thesis
    by (auto simp: SHA256_Update_internal_def Let_def wp_rules sha_absorbed_def push_bit_eq_mult
        algebra_simps elim!: okp_mono)
qed

lemma PAD_split:
  "k < 64 \<Longrightarrow> take (64 - k) PAD = [0x80] @ replicate (63 - k) 0"
  "k < 56 \<Longrightarrow> take (56 - k) PAD = [0x80] @ replicate (55 - k) 0"
  by (auto simp: PAD_def take_Cons' min_def)

text \<open>Padding finishes the blocks of the padded message.\<close>

lemma SHA256_Pad_ok:
  assumes "sha_absorbed ctx m"
  shows "okp (SHA256_Pad ctx) (\<lambda>ctx'. sha_state ctx' = md_state sha256_tr initial_state (fips_pad m) \<and>
    length (sha_buf ctx') = 64)"
proof -
  let ?t = "md_tail m" and ?r = "length m mod 64" and ?c = "be64enc (of_nat (8 * length m))"
  note r = sha_absorbed_r [OF assms]
  from assms have b: "length (sha_buf ctx) = 64" "sha_state ctx = md_state sha256_tr initial_state m"
      "take ?r (sha_buf ctx) = ?t" "sha_count ctx = of_nat (8 * length m)"
    by (auto simp: sha_absorbed_def md_rel_def)
  have r64: "?r < 64" by simp
  have pad: "md_state sha256_tr initial_state (fips_pad m) = md_state sha256_tr (sha_state ctx)
      (?t @ [0x80] @ replicate ((55 + 63 * length m) mod 64) 0 @ ?c)"
    unfolding fips_pad_def b(2) by (rule md_state_tail(1))
  show ?thesis
  proof (cases "?r < 56")
    case True
    then have "md_state sha256_tr initial_state (fips_pad m)
        = sha256_tr (sha_state ctx) (?t @ [0x80] @ replicate (55 - ?r) 0 @ ?c)"
      unfolding pad pad_zeros by (simp add: md_state_block)
    with True r b show ?thesis
      by (simp add: SHA256_Pad_def Let_def wp_rules PAD_split take_Cons')
  next
    case False
    let ?b1 = "?t @ [0x80] @ replicate (63 - ?r) 0" and ?b2 = "replicate 56 0 @ ?c"
    have l: "length ?b1 = 64" "64 dvd length ?b1" "length ?b2 = 64" using False r64 by simp_all
    have "replicate (119 - ?r) (0 :: u8) = replicate (63 - ?r) 0 @ replicate 56 0"
      using False r64 by (simp add: replicate_add [symmetric])
    then have "md_state sha256_tr initial_state (fips_pad m) = md_state sha256_tr (sha_state ctx) (?b1 @ ?b2)"
      using False unfolding pad pad_zeros by simp
    also have "\<dots> = sha256_tr (sha256_tr (sha_state ctx) ?b1) ?b2"
      using md_state_append [OF l(2), of sha256_tr "sha_state ctx" ?b2] l by (simp only: md_state_block)
    finally show ?thesis
      using False r64 r b by (simp add: SHA256_Pad_def Let_def wp_rules PAD_split)
  qed
qed

lemma fold_compress:
  "length H = 8 \<Longrightarrow> \<forall>b \<in> set bs. length b = 64 \<Longrightarrow>
   fold (\<lambda>b s. sha256_tr s b) bs H = fold (\<lambda>b H. fips_compress H b) bs H"
  by (induction bs arbitrary: H) (simp_all add: sha256_tr_fips)

lemma length_fold_compress: "length H = 8 \<Longrightarrow> length (fold (\<lambda>b H. fips_compress H b) bs H) = 8"
  by (induction bs arbitrary: H) simp_all

lemma length_initial_state [simp]: "length initial_state = 8"
  by (simp add: initial_state_def)

lemma md_state_fips:
  "md_state sha256_tr initial_state m = fold (\<lambda>b H. fips_compress H b) (records 64 m) initial_state"
  "length (md_state sha256_tr initial_state m) = 8"
proof -
  show "md_state sha256_tr initial_state m = fold (\<lambda>b H. fips_compress H b) (records 64 m) initial_state"
    unfolding md_state_def by (rule fold_compress) (use length_record in auto)
  then show "length (md_state sha256_tr initial_state m) = 8" by (simp add: length_fold_compress)
qed

lemma SHA256_Final_ok:
  assumes "sha_absorbed ctx m"
  shows "okp (SHA256_Final_internal ctx) (\<lambda>(d, ctx'). d = sha256 m \<and> length (sha_buf ctx') = 64)"
proof -
  have "be32enc_vect (md_state sha256_tr initial_state (fips_pad m)) 32 = sha256 m"
    using md_state_fips [of "fips_pad m"] by (simp add: be32enc_vect_eq sha256_def)
  with SHA256_Pad_ok [OF assms] show ?thesis
    by (auto simp: SHA256_Final_internal_def wp_rules elim!: okp_mono)
qed

lemma length_sha256 [simp]: "length (sha256 m) = 32"
  by (simp add: sha256_def length_concat_const [where n = 4] length_fold_compress)

interpretation sha: hash_stream "\<lambda>ctx. length (sha_buf ctx) = 64" SHA256_Init
  SHA256_Update_internal SHA256_Final_internal sha256 sha_absorbed
  by unfold_locales (simp_all add: sha_absorbed_init SHA256_Update_ok SHA256_Final_ok)


section \<open>HMAC and PBKDF2 compute their definitions\<close>

definition hm_wf :: "HMAC_SHA256_CTX \<Rightarrow> bool" where
  "hm_wf ctx \<longleftrightarrow> length (sha_buf (hm_ictx ctx)) = 64 \<and> length (sha_buf (hm_octx ctx)) = 64"

definition hm_keyed :: "bytes \<Rightarrow> HMAC_SHA256_CTX \<Rightarrow> bytes \<Rightarrow> bool" where
  "hm_keyed K ctx m \<longleftrightarrow> sha.keyed K (hm_ictx ctx) (hm_octx ctx) m"

lemma HMAC_SHA256_Init_ok:
  "hm_wf ctx \<Longrightarrow> okp (HMAC_SHA256_Init_internal ctx K) (\<lambda>ctx'. hm_keyed K ctx' [])"
  using sha.keyed_init [of "hm_ictx ctx" "hm_octx ctx" K]
  by (simp add: hm_wf_def HMAC_SHA256_Init_internal_def wp_rules hm_keyed_def case_prod_beta)

lemma HMAC_SHA256_Update_ok:
  "hm_keyed K ctx m \<Longrightarrow> okp (HMAC_SHA256_Update_internal ctx src) (\<lambda>ctx'. hm_keyed K ctx' (m @ src))"
  using sha.keyed_upd [of K "hm_ictx ctx" "hm_octx ctx" m src]
  by (simp add: HMAC_SHA256_Update_internal_def wp_rules hm_keyed_def)

lemma HMAC_SHA256_Final_ok:
  "hm_keyed K ctx m \<Longrightarrow> okp (HMAC_SHA256_Final_internal ctx) (\<lambda>(d, ctx'). d = hmac sha256 K m)"
  using sha.keyed_final [of K "hm_ictx ctx" "hm_octx ctx" m]
  by (auto simp: HMAC_SHA256_Final_internal_def wp_rules hm_keyed_def case_prod_beta elim!: okp_mono)

lemma hmac_more:
  assumes "hm_keyed K ctx m"
  shows "okp (do { ctx \<leftarrow> HMAC_SHA256_Update_internal ctx src; HMAC_SHA256_Final_internal ctx })
    (\<lambda>(d, ctx'). d = hmac sha256 K (m @ src))"
  using HMAC_SHA256_Update_ok [OF assms, of src] HMAC_SHA256_Final_ok
  by (fastforce simp: wp_rules elim!: okp_mono)

text \<open>RFC 8018, section 5.2, with HMAC-SHA256: \<open>U\<close> starts at index 0 here.\<close>

fun pbk_U :: "bytes \<Rightarrow> bytes \<Rightarrow> nat \<Rightarrow> bytes" where
  "pbk_U P x 0 = hmac sha256 P x"
| "pbk_U P x (Suc n) = hmac sha256 P (pbk_U P x n)"

fun pbk_T :: "bytes \<Rightarrow> bytes \<Rightarrow> nat \<Rightarrow> bytes" where
  "pbk_T P x 0 = pbk_U P x 0"
| "pbk_T P x (Suc n) = map2 (XOR) (pbk_T P x n) (pbk_U P x (Suc n))"

definition pbk_block :: "bytes \<Rightarrow> bytes \<Rightarrow> nat \<Rightarrow> nat \<Rightarrow> bytes" where
  "pbk_block P S c i = pbk_T P (S @ be32enc (of_nat (i + 1))) (c - 1)"

definition pbkdf2 :: "bytes \<Rightarrow> bytes \<Rightarrow> nat \<Rightarrow> nat \<Rightarrow> bytes" where
  "pbkdf2 P S c dkLen = take dkLen (concat (map (pbk_block P S c) [0..<(dkLen + 31) div 32]))"

lemma length_hmac [simp]: "length (hmac sha256 K m) = 32"
  by (simp add: hmac_def)

lemma length_pbk [simp]: "length (pbk_U P x n) = 32" "length (pbk_T P x n) = 32"
proof -
  show U: "length (pbk_U P x n) = 32" for n by (cases n) simp_all
  show "length (pbk_T P x n) = 32" by (induction n) (use U in simp_all)
qed

lemma length_pbk_block [simp]: "length (pbk_block P S c i) = 32"
  by (simp add: pbk_block_def)

lemma unat_of_nat_eq: "n < 2 ^ 64 \<Longrightarrow> unat (of_nat n :: u64) = n"
  by (simp add: unat_of_nat)

lemma unat_less_max:
  assumes "(c :: u64) \<noteq> - 1"
  shows "unat c < 2 ^ 64 - 1"
proof (rule ccontr)
  assume "\<not> unat c < 2 ^ 64 - 1"
  moreover have "unat c < 2 ^ 64" using unsigned_less [of c, where 'a = nat] by simp
  ultimately have "unat c = unat (- 1 :: u64)"
    by (simp add: unsigned_minus_1_eq_mask mask_eq_exp_minus_1)
  then show False using assms by (simp add: unsigned_word_eqI)
qed

text \<open>
  The inner loop ends whenever the iteration count is not the largest \<open>uint64_t\<close>, for which
  \<open>j <= c\<close> never fails.
\<close>

lemma pbkdf2_iter_ok:
  assumes "hm_keyed P Phctx []" "c \<noteq> - 1" "n + 1 \<le> max 1 (unat c)"
  shows "pbkdf2_iter Phctx c (of_nat (n + 2)) (pbk_U P x n) (pbk_T P x n) = Some (pbk_T P x (unat c - 1))"
  using assms(3)
proof (induction "unat c - (n + 1)" arbitrary: n)
  case 0
  note lt = unat_less_max [OF assms(2)]
  have "unat (of_nat (n + 2) :: u64) = n + 2"
    by (rule unat_of_nat_eq) (use 0 lt in \<open>auto split: if_splits simp: max_def\<close>)
  with 0 have "\<not> of_nat (n + 2) \<le> c" by (auto simp: word_le_nat_alt)
  moreover have "n = unat c - 1" using 0 by (auto simp: max_def split: if_splits)
  ultimately show ?case by (subst pbkdf2_iter.simps) simp
next
  case (Suc k)
  note lt = unat_less_max [OF assms(2)]
  have "unat (of_nat (n + 2) :: u64) = n + 2" by (rule unat_of_nat_eq) (use Suc lt in auto)
  with Suc have le: "of_nat (n + 2) \<le> c" by (auto simp: word_le_nat_alt)
  obtain ctx where f: "do { ctx \<leftarrow> HMAC_SHA256_Update_internal Phctx (pbk_U P x n); HMAC_SHA256_Final_internal ctx }
      = Some (pbk_U P x (Suc n), ctx)"
    using hmac_more [OF assms(1), of "pbk_U P x n"] by (auto elim!: okpE)
  have "xor_key (pbk_T P x n) (pbk_U P x (Suc n)) 0 = Some (pbk_T P x (Suc n))"
    by (subst xor_key_eq) simp_all
  moreover have "of_nat (n + 2) + 1 = (of_nat (Suc n + 2) :: u64)" by simp
  ultimately have "pbkdf2_iter Phctx c (of_nat (n + 2)) (pbk_U P x n) (pbk_T P x n)
      = pbkdf2_iter Phctx c (of_nat (Suc n + 2)) (pbk_U P x (Suc n)) (pbk_T P x (Suc n))"
    using le f by (subst pbkdf2_iter.simps) (auto simp: bind_eq_Some_conv simp del: of_nat_add of_nat_Suc)
  with Suc.hyps(1) [of "Suc n"] Suc.hyps(2) Suc.prems show ?case by auto
qed


lemma pbkdf2_block_ok:
  assumes "hm_keyed P Phctx []" "hm_keyed P PShctx salt" "c \<noteq> - 1"
  shows "okp (do { hctx \<leftarrow> HMAC_SHA256_Update_internal PShctx (be32enc (of_nat (i + 1)));
      (U, hctx) \<leftarrow> HMAC_SHA256_Final_internal hctx; pbkdf2_iter Phctx c 2 U U })
    (\<lambda>T. T = pbk_block P salt (unat c) i)"
proof -
  let ?x = "salt @ be32enc (of_nat (i + 1))"
  obtain ctx where f: "do { ctx \<leftarrow> HMAC_SHA256_Update_internal PShctx (be32enc (of_nat (i + 1)));
      HMAC_SHA256_Final_internal ctx } = Some (pbk_U P ?x 0, ctx)"
    using hmac_more [OF assms(2), of "be32enc (of_nat (i + 1))"] by (auto elim!: okpE)
  have "pbkdf2_iter Phctx c 2 (pbk_U P ?x 0) (pbk_U P ?x 0) = Some (pbk_T P ?x (unat c - 1))"
    using pbkdf2_iter_ok [OF assms(1,3), of 0 ?x] by simp
  with f show ?thesis
    by (auto simp: bind_eq_Some_conv pbk_block_def simp del: of_nat_add of_nat_Suc)
qed

lemma take_block_concat:
  assumes "length b = k"
  shows "take n (b @ rest) = take (min k n) b @ take (n - k) rest"
  using assms by (simp add: min_def)

lemma pbkdf2_blocks_ok:
  assumes k: "hm_keyed P Phctx []" "hm_keyed P PShctx salt" "c \<noteq> - 1"
    and dk: "dkLen \<le> 32 * 0xffffffff" "dkLen \<le> length buf" and i: "i \<le> (dkLen + 31) div 32"
  shows "okp (pbkdf2_blocks Phctx PShctx c dkLen i buf) (\<lambda>buf'.
     buf' = take (min dkLen (i * 32)) buf
       @ take (dkLen - i * 32) (concat (map (pbk_block P salt (unat c)) [i..<(dkLen + 31) div 32]))
       @ drop dkLen buf)"
  using dk(2) i
proof (induction "(dkLen + 31) div 32 - i" arbitrary: i buf)
  case 0
  then have "dkLen \<le> i * 32" by linarith
  moreover from 0 dk(1) have "i * 32 \<le> SIZE_MAX" by (simp add: SIZE_MAX_def)
  ultimately show ?case by (subst pbkdf2_blocks.simps) simp
next
  case (Suc n)
  let ?N = "(dkLen + 31) div 32" and ?B = "pbk_block P salt (unat c)"
  let ?cl = "min 32 (dkLen - i * 32)"
  from Suc.hyps(2) have lt: "i * 32 < dkLen" "i < ?N" by linarith+
  with dk(1) have sz: "i * 32 \<le> SIZE_MAX" "i + 1 \<le> SIZE_MAX" "dkLen \<le> SIZE_MAX" by (simp_all add: SIZE_MAX_def)
  let ?b = "take (i * 32) buf @ take ?cl (?B i) @ drop (i * 32 + ?cl) buf"
  have le: "i * 32 + ?cl \<le> dkLen" using lt by simp
  have "mem_store buf (i * 32) (take ?cl (?B i)) = Some ?b"
    using le Suc.prems(1) by (simp add: mem_store_def min.commute)
  moreover obtain h U h' where
    "HMAC_SHA256_Update_internal PShctx (be32enc (of_nat (i + 1))) = Some h"
    "HMAC_SHA256_Final_internal h = Some (U, h')" "pbkdf2_iter Phctx c 2 U U = Some (?B i)"
    using pbkdf2_block_ok [OF k, of i] by (auto simp: okp_iff bind_eq_Some_conv)
  moreover have "(if dkLen - i * 32 > 32 then 32 else dkLen - i * 32) = ?cl" by simp
  ultimately have step: "pbkdf2_blocks Phctx PShctx c dkLen i buf = pbkdf2_blocks Phctx PShctx c dkLen (Suc i) ?b"
    using lt sz by (subst pbkdf2_blocks.simps) (simp add: Let_def del: of_nat_add of_nat_Suc)
  have b: "length ?b = length buf" "drop dkLen ?b = drop dkLen buf"
      "take (min dkLen (Suc i * 32)) ?b = take (i * 32) buf @ take ?cl (?B i)"
    using le lt Suc.prems(1) by (auto simp: min_def)
  have "take (dkLen - i * 32) (concat (map ?B [i..<?N]))
      = take ?cl (?B i) @ take (dkLen - Suc i * 32) (concat (map ?B [Suc i..<?N]))"
    using lt take_block_concat [of "?B i" 32 "dkLen - i * 32"] by (simp add: upt_conv_Cons add.commute [of 32])
  moreover have "min dkLen (i * 32) = i * 32" using lt by simp
  moreover have "n = ?N - Suc i" "dkLen \<le> length ?b" "Suc i \<le> ?N"
    using Suc.hyps(2) Suc.prems(1) lt(2) b(1) by simp_all
  note Suc.hyps(1) [OF this]
  ultimately show ?case unfolding step b(2,3) by (simp only: append_assoc)
qed

lemma PBKDF2_SHA256_ok:
  assumes "hm_wf Phctx" "c \<noteq> - 1" "dkLen \<le> 32 * 0xffffffff" "dkLen \<le> length buf"
  shows "PBKDF2_SHA256 Phctx passwd salt c buf dkLen = Some (pbkdf2 passwd salt (unat c) dkLen @ drop dkLen buf)"
proof -
  obtain Ph where Ph: "HMAC_SHA256_Init_internal Phctx passwd = Some Ph" "hm_keyed passwd Ph []"
    using HMAC_SHA256_Init_ok [OF assms(1)] by (auto elim!: okpE)
  obtain PS where PS: "HMAC_SHA256_Update_internal Ph salt = Some PS" "hm_keyed passwd PS salt"
    using HMAC_SHA256_Update_ok [OF Ph(2), of salt] by (auto elim!: okpE)
  show ?thesis
    using pbkdf2_blocks_ok [OF Ph(2) PS(2) assms(2-4), of 0] Ph(1) PS(1) assms(3)
    by (simp add: PBKDF2_SHA256_def pbkdf2_def okp_iff)
qed


text \<open>With the largest iteration count the inner loop has no last iteration.\<close>

lemma pbkdf2_iter_max: "pbkdf2_iter Phctx (- 1) j U T = None"
proof -
  have "c \<noteq> - 1" if "pbkdf2_iter Phctx c j U T = Some y" for c y
  proof (rule pbkdf2_iter.raw_induct [where P = "\<lambda>Phctx c j U T y. c \<noteq> - 1", OF _ that], goal_cases)
    case (1 f Phctx c j U T z)
    show ?case
    proof
      assume c: "c = - 1"
      then have "j \<le> c" by simp
      with 1(2) have "\<exists>U' T'. f Phctx c (j + 1) U' T' = Some z"
        by (auto simp: bind_eq_Some_conv)
      with 1(1) c show False by blast
    qed
  qed
  then show ?thesis by (cases "pbkdf2_iter Phctx (- 1) j U T") auto
qed


section \<open>Properties\<close>

text \<open>What a client does: updates with the pieces of a message, in order.\<close>

fun sha256_updates :: "SHA256_CTX \<Rightarrow> bytes list \<Rightarrow> SHA256_CTX option" where
  "sha256_updates ctx [] = Some ctx"
| "sha256_updates ctx (x # xs) = do { ctx \<leftarrow> SHA256_Update ctx x; sha256_updates ctx xs }"

fun hmac_updates :: "HMAC_SHA256_CTX \<Rightarrow> bytes list \<Rightarrow> HMAC_SHA256_CTX option" where
  "hmac_updates ctx [] = Some ctx"
| "hmac_updates ctx (x # xs) = do { ctx \<leftarrow> HMAC_SHA256_Update ctx x; hmac_updates ctx xs }"

lemma sha256_updates_upds: "sha256_updates ctx xs = sha.upds ctx xs"
  by (induction xs arbitrary: ctx) (simp_all add: SHA256_Update_def)

lemma hmac_updates_ok:
  "hm_keyed K ctx m \<Longrightarrow> okp (hmac_updates ctx xs) (\<lambda>ctx'. hm_keyed K ctx' (m @ concat xs))"
proof (induction xs arbitrary: ctx m)
  case (Cons x xs)
  have "okp (hmac_updates ctx' xs) (\<lambda>c. hm_keyed K c (m @ concat (x # xs)))" if "hm_keyed K ctx' (m @ x)" for ctx'
    using Cons.IH [OF that] by simp
  with HMAC_SHA256_Update_ok [OF Cons.prems, of x] show ?case
    by (auto simp: HMAC_SHA256_Update_def wp_rules elim!: okp_mono)
qed simp

definition sha_ctx0 :: SHA256_CTX where
  "sha_ctx0 = \<lparr>sha_state = [], sha_count = 7, sha_buf = replicate 64 0xaa\<rparr>"

definition hm_ctx0 :: HMAC_SHA256_CTX where
  "hm_ctx0 = \<lparr>hm_ictx = sha_ctx0, hm_octx = sha_ctx0\<rparr>"

text \<open>
  The compression function of the code, with its rotating working variables, its in-place
  message schedule and its simplified boolean functions, is the compression function of
  FIPS 180-4, whatever the scratch arrays hold.
\<close>

theorem SHA256_Transform_is_fips:
  assumes "length state = 8" "length block = 64" "length W = 64"
  shows "SHA256_Transform state block W S = fips_compress state block"
  using assms by (rule SHA256_Transform_fips)

theorem SHA256_Transform_is_fips_witness:
  "SHA256_Transform initial_state (replicate 64 0x61) (replicate 64 9) (replicate 8 9)
     = fips_compress initial_state (replicate 64 0x61)"
  by (rule SHA256_Transform_is_fips) simp_all

text \<open>
  C5.  Streaming SHA-256 is SHA-256: from any context object, initialising, absorbing a
  message in any pieces (of any lengths, empty ones included) and finishing returns, never
  writes outside of the buffer, yields the FIPS 180-4 hash of the whole message, and leaves the
  context cleared.
\<close>

theorem SHA256_streaming:
  assumes "length (sha_buf ctx) = 64"
  shows "okp (do { ctx \<leftarrow> sha256_updates (SHA256_Init ctx) xs; SHA256_Final ctx })
    (\<lambda>(digest, ctx'). digest = sha256 (concat xs) \<and> ctx' = sha_zero)"
  using sha.hash_chunks [OF assms, of xs]
  by (auto simp: sha256_updates_upds SHA256_Final_def wp_rules elim!: okp_mono)

theorem SHA256_streaming_witness:
  "okp (do { ctx \<leftarrow> sha256_updates (SHA256_Init sha_ctx0) [[0x61], [], [0x62, 0x63]]; SHA256_Final ctx })
    (\<lambda>(digest, ctx'). digest = sha256 (concat [[0x61], [], [0x62, 0x63]]) \<and> ctx' = sha_zero)"
  by (rule SHA256_streaming) (simp add: sha_ctx0_def)

text \<open>
  C28.  HMAC-SHA256, with a key of any length and the data in any pieces, is the construction
  of RFC 2104 over SHA-256; both contexts are cleared at the end.
\<close>

theorem HMAC_SHA256_is_hmac:
  assumes "hm_wf ctx"
  shows "okp (do { ctx \<leftarrow> HMAC_SHA256_Init ctx K; ctx \<leftarrow> hmac_updates ctx xs; HMAC_SHA256_Final ctx })
    (\<lambda>(digest, ctx'). digest = hmac sha256 K (concat xs) \<and> ctx' = \<lparr>hm_ictx = sha_zero, hm_octx = sha_zero\<rparr>)"
proof -
  have f: "okp (HMAC_SHA256_Final c) (\<lambda>(d, c'). d = hmac sha256 K m \<and> c' = \<lparr>hm_ictx = sha_zero, hm_octx = sha_zero\<rparr>)"
    if "hm_keyed K c m" for c m
    using HMAC_SHA256_Final_ok [OF that] by (auto simp: HMAC_SHA256_Final_def wp_rules elim!: okp_mono)
  have "okp (do { c \<leftarrow> hmac_updates c xs; HMAC_SHA256_Final c })
    (\<lambda>(d, c'). d = hmac sha256 K (concat xs) \<and> c' = \<lparr>hm_ictx = sha_zero, hm_octx = sha_zero\<rparr>)"
    if "hm_keyed K c []" for c
    using hmac_updates_ok [OF that, of xs] f by (auto simp: wp_rules elim!: okp_mono)
  with HMAC_SHA256_Init_ok [OF assms, of K] show ?thesis
    by (auto simp: HMAC_SHA256_Init_def wp_rules elim!: okp_mono)
qed

theorem HMAC_SHA256_is_hmac_witness:
  "okp (do { ctx \<leftarrow> HMAC_SHA256_Init hm_ctx0 (replicate 70 1); ctx \<leftarrow> hmac_updates ctx [[2], [3]];
        HMAC_SHA256_Final ctx })
    (\<lambda>(digest, ctx'). digest = hmac sha256 (replicate 70 1) (concat [[2], [3]]) \<and>
        ctx' = \<lparr>hm_ictx = sha_zero, hm_octx = sha_zero\<rparr>)"
  by (rule HMAC_SHA256_is_hmac) (simp add: hm_wf_def hm_ctx0_def sha_ctx0_def)

text \<open>
  C26.  PBKDF2-SHA256 returns, writes exactly the first \<open>dkLen\<close> bytes of the caller's buffer
  and makes them the key of RFC 8018, for every password, salt and iteration count below
  \<open>2 ^ 64 - 1\<close> and every permitted key length; an iteration count of 0 acts as 1.
\<close>

theorem PBKDF2_SHA256_correct:
  assumes "hm_wf Phctx" "c \<noteq> - 1" "dkLen \<le> 32 * 0xffffffff" "dkLen \<le> length buf"
  shows "PBKDF2_SHA256 Phctx passwd salt c buf dkLen = Some (pbkdf2 passwd salt (unat c) dkLen @ drop dkLen buf)"
  using assms by (rule PBKDF2_SHA256_ok)

theorem PBKDF2_SHA256_correct_witness:
  "PBKDF2_SHA256 hm_ctx0 [1, 2] [3] 1000 (replicate 50 0) 40
     = Some (pbkdf2 [1, 2] [3] 1000 40 @ drop 40 (replicate 50 0))"
  using PBKDF2_SHA256_correct [of hm_ctx0 1000 40 "replicate 50 0" "[1, 2]" "[3]"]
  by (simp add: hm_wf_def hm_ctx0_def sha_ctx0_def)

text \<open>
  C34.  With the iteration count \<open>2 ^ 64 - 1\<close> and a key of at least one byte \<open>PBKDF2_SHA256\<close>
  does not return: the loop condition \<open>j <= c\<close> holds for every \<open>uint64_t\<close>.
\<close>

theorem PBKDF2_SHA256_max_count:
  assumes "0 < dkLen"
  shows "PBKDF2_SHA256 Phctx passwd salt (- 1) buf dkLen = None"
  using assms
  by (auto simp: PBKDF2_SHA256_def cassert_def pbkdf2_blocks.simps [of _ _ "- 1" _ 0] pbkdf2_iter_max Let_def
      szmul_def split: option.splits intro!: bind_eq_None_conv [THEN iffD2] simp: bind_eq_None_conv)

theorem PBKDF2_SHA256_max_count_witness:
  "PBKDF2_SHA256 hm_ctx0 [1] [2] (- 1) [0] 1 = None"
  by (rule PBKDF2_SHA256_max_count) simp

end
