(* ===== verification/Sha1.thy ===== *)
theory Sha1
  imports Sha256
begin

text \<open>
  \<open>alg/sha1.c\<close>: the SHA-1 compression function with rotating working variables, the streaming
  interface with its two-word bit counter, and HMAC-SHA1.  The choice and majority macros are
  those of \<open>alg/sha256.c\<close>.
\<close>

section \<open>The compression function\<close>

definition RND0 :: "nat \<Rightarrow> nat \<Rightarrow> nat \<Rightarrow> nat \<Rightarrow> nat \<Rightarrow> u32 \<Rightarrow> u32 list \<Rightarrow> u32 list" where
  "RND0 a b c d e k S =
     (let S = S[e := ROTL (S ! a) 5 + Ch (S ! b) (S ! c) (S ! d) + S ! e + k + 0x5A827999]
      in S[b := ROTL (S ! b) 30])"

definition RND1 :: "nat \<Rightarrow> nat \<Rightarrow> nat \<Rightarrow> nat \<Rightarrow> nat \<Rightarrow> u32 \<Rightarrow> u32 list \<Rightarrow> u32 list" where
  "RND1 a b c d e k S =
     (let S = S[e := ROTL (S ! a) 5 + (S ! b XOR S ! c XOR S ! d) + S ! e + k + 0x6ED9EBA1]
      in S[b := ROTL (S ! b) 30])"

definition RND2 :: "nat \<Rightarrow> nat \<Rightarrow> nat \<Rightarrow> nat \<Rightarrow> nat \<Rightarrow> u32 \<Rightarrow> u32 list \<Rightarrow> u32 list" where
  "RND2 a b c d e k S =
     (let S = S[e := ROTL (S ! a) 5 + Maj (S ! b) (S ! c) (S ! d) + S ! e + k + 0x8F1BBCDC]
      in S[b := ROTL (S ! b) 30])"

definition RND3 :: "nat \<Rightarrow> nat \<Rightarrow> nat \<Rightarrow> nat \<Rightarrow> nat \<Rightarrow> u32 \<Rightarrow> u32 list \<Rightarrow> u32 list" where
  "RND3 a b c d e k S =
     (let S = S[e := ROTL (S ! a) 5 + (S ! b XOR S ! c XOR S ! d) + S ! e + k + 0xCA62C1D6]
      in S[b := ROTL (S ! b) 30])"

definition RND0r :: "u32 list \<Rightarrow> nat \<Rightarrow> u32 list \<Rightarrow> u32 list" where
  "RND0r W i S = RND0 ((80 - i) mod 5) ((81 - i) mod 5) ((82 - i) mod 5) ((83 - i) mod 5) ((84 - i) mod 5) (W ! i) S"

definition RND1r :: "u32 list \<Rightarrow> nat \<Rightarrow> u32 list \<Rightarrow> u32 list" where
  "RND1r W i S = RND1 ((80 - i) mod 5) ((81 - i) mod 5) ((82 - i) mod 5) ((83 - i) mod 5) ((84 - i) mod 5) (W ! i) S"

definition RND2r :: "u32 list \<Rightarrow> nat \<Rightarrow> u32 list \<Rightarrow> u32 list" where
  "RND2r W i S = RND2 ((80 - i) mod 5) ((81 - i) mod 5) ((82 - i) mod 5) ((83 - i) mod 5) ((84 - i) mod 5) (W ! i) S"

definition RND3r :: "u32 list \<Rightarrow> nat \<Rightarrow> u32 list \<Rightarrow> u32 list" where
  "RND3r W i S = RND3 ((80 - i) mod 5) ((81 - i) mod 5) ((82 - i) mod 5) ((83 - i) mod 5) ((84 - i) mod 5) (W ! i) S"

text \<open>One pass of the loop that extends the message schedule.\<close>

definition sha1_sched :: "nat \<Rightarrow> u32 list \<Rightarrow> u32 list" where
  "sha1_sched i W =
     (let W = W[i := W ! (i - 3) XOR W ! (i - 8) XOR W ! (i - 14) XOR W ! (i - 16)]
      in W[i := ROTL (W ! i) 1])"

text \<open>The eighty macro calls are four folds over their index.\<close>

definition SHA1_Transform :: "u32 list \<Rightarrow> bytes \<Rightarrow> u32 list" where
  "SHA1_Transform state block =
     (let W = be32dec_vect block 64 @ replicate 64 0;
          W = fold sha1_sched [16..<80] W;
          S = take 5 state;
          S = fold (RND0r W) [0..<20] S;
          S = fold (RND1r W) [20..<40] S;
          S = fold (RND2r W) [40..<60] S;
          S = fold (RND3r W) [60..<80] S
      in map (\<lambda>i. state ! i + S ! i) [0..<5])"


section \<open>The streaming interface\<close>

record SHA1_CTX =
  s1_state :: "u32 list"
  s1_count0 :: u32
  s1_count1 :: u32
  s1_buf :: bytes

definition SHA1_Init :: "SHA1_CTX \<Rightarrow> SHA1_CTX" where
  "SHA1_Init ctx = ctx\<lparr>s1_count0 := 0, s1_count1 := 0,
     s1_state := [0x67452301, 0xEFCDAB89, 0x98BADCFE, 0x10325476, 0xC3D2E1F0]\<rparr>"

definition s1_r :: "SHA1_CTX \<Rightarrow> nat" where
  "s1_r ctx = unat (drop_bit 3 (s1_count1 ctx) AND 0x3f)"

definition SHA1_Update :: "SHA1_CTX \<Rightarrow> bytes \<Rightarrow> SHA1_CTX option" where
  "SHA1_Update ctx src =
     (if length src = 0 then Some ctx
      else do {
        let r = s1_r ctx;
        let hi = cnt_hi (s1_count0 ctx) (s1_count1 ctx) (length src);
        let lo = cnt_lo (s1_count1 ctx) (length src);
        (st, buf) \<leftarrow> md_absorb SHA1_Transform r (s1_state ctx) (s1_buf ctx) src;
        Some (ctx\<lparr>s1_state := st, s1_count0 := hi, s1_count1 := lo, s1_buf := buf\<rparr>)
      })"

definition SHA1_Pad :: "SHA1_CTX \<Rightarrow> SHA1_CTX option" where
  "SHA1_Pad ctx = do {
     let len = be32enc_vect [s1_count0 ctx, s1_count1 ctx] 8;
     let plen = pad_len (s1_r ctx);
     ctx \<leftarrow> SHA1_Update ctx (take plen PAD);
     SHA1_Update ctx len
   }"

definition s1_zero :: SHA1_CTX where
  "s1_zero = \<lparr>s1_state = replicate 5 0, s1_count0 = 0, s1_count1 = 0, s1_buf = replicate 64 0\<rparr>"

definition SHA1_Final :: "SHA1_CTX \<Rightarrow> (bytes \<times> SHA1_CTX) option" where
  "SHA1_Final ctx = do {
     ctx \<leftarrow> SHA1_Pad ctx;
     Some (be32enc_vect (s1_state ctx) 20, s1_zero)
   }"

definition SHA1_Buf :: "SHA1_CTX \<Rightarrow> bytes \<Rightarrow> bytes option" where
  "SHA1_Buf ctx src = do {
     ctx \<leftarrow> SHA1_Update (SHA1_Init ctx) src;
     (digest, ctx) \<leftarrow> SHA1_Final ctx;
     Some digest
   }"

record HMAC_SHA1_CTX =
  hm1_ictx :: SHA1_CTX
  hm1_octx :: SHA1_CTX

definition HMAC_SHA1_Init :: "HMAC_SHA1_CTX \<Rightarrow> bytes \<Rightarrow> HMAC_SHA1_CTX option" where
  "HMAC_SHA1_Init ctx K = do {
     (K, ictx) \<leftarrow> (if length K > 64 then do {
         ictx \<leftarrow> SHA1_Update (SHA1_Init (hm1_ictx ctx)) K;
         SHA1_Final ictx
       }
       else Some (K, hm1_ictx ctx));
     pad \<leftarrow> xor_key (replicate 64 0x36) K 0;
     ictx \<leftarrow> SHA1_Update (SHA1_Init ictx) pad;
     pad \<leftarrow> xor_key (replicate 64 0x5c) K 0;
     octx \<leftarrow> SHA1_Update (SHA1_Init (hm1_octx ctx)) pad;
     Some \<lparr>hm1_ictx = ictx, hm1_octx = octx\<rparr>
   }"

definition HMAC_SHA1_Update :: "HMAC_SHA1_CTX \<Rightarrow> bytes \<Rightarrow> HMAC_SHA1_CTX option" where
  "HMAC_SHA1_Update ctx src = do {
     ictx \<leftarrow> SHA1_Update (hm1_ictx ctx) src;
     Some (ctx\<lparr>hm1_ictx := ictx\<rparr>)
   }"

definition HMAC_SHA1_Final :: "HMAC_SHA1_CTX \<Rightarrow> (bytes \<times> HMAC_SHA1_CTX) option" where
  "HMAC_SHA1_Final ctx = do {
     (ihash, ictx) \<leftarrow> SHA1_Final (hm1_ictx ctx);
     octx \<leftarrow> SHA1_Update (hm1_octx ctx) ihash;
     (digest, octx) \<leftarrow> SHA1_Final octx;
     Some (digest, \<lparr>hm1_ictx = ictx, hm1_octx = octx\<rparr>)
   }"

definition HMAC_SHA1_Buf :: "HMAC_SHA1_CTX \<Rightarrow> bytes \<Rightarrow> bytes \<Rightarrow> bytes option" where
  "HMAC_SHA1_Buf ctx K src = do {
     ctx \<leftarrow> HMAC_SHA1_Init ctx K;
     ctx \<leftarrow> HMAC_SHA1_Update ctx src;
     (digest, ctx) \<leftarrow> HMAC_SHA1_Final ctx;
     Some digest
   }"


section \<open>The standard\<close>

text \<open>FIPS 180-4, sections 4.1.1, 4.2.1, 5.3.1 and 6.1.\<close>

definition fips1_f :: "nat \<Rightarrow> u32 \<Rightarrow> u32 \<Rightarrow> u32 \<Rightarrow> u32" where
  "fips1_f t x y z =
     (if t < 20 then fips_Ch x y z
      else if t < 40 then x XOR y XOR z
      else if t < 60 then fips_Maj x y z
      else x XOR y XOR z)"

definition fips1_K :: "nat \<Rightarrow> u32" where
  "fips1_K t =
     (if t < 20 then 0x5a827999 else if t < 40 then 0x6ed9eba1 else if t < 60 then 0x8f1bbcdc else 0xca62c1d6)"

fun fips1_W :: "u32 list \<Rightarrow> nat \<Rightarrow> u32" where
  "fips1_W M t =
     (if t < 16 then M ! t
      else word_rotl 1 (fips1_W M (t - 3) XOR fips1_W M (t - 8) XOR fips1_W M (t - 14) XOR fips1_W M (t - 16)))"

declare fips1_W.simps [simp del]

type_synonym vars5 = "u32 \<times> u32 \<times> u32 \<times> u32 \<times> u32"

fun fips1_round :: "nat \<Rightarrow> u32 \<Rightarrow> vars5 \<Rightarrow> vars5" where
  "fips1_round t w (a, b, c, d, e) =
     (word_rotl 5 a + fips1_f t b c d + e + fips1_K t + w, a, word_rotl 30 b, c, d)"

definition vars5_of :: "u32 list \<Rightarrow> vars5" where
  "vars5_of S = (S ! 0, S ! 1, S ! 2, S ! 3, S ! 4)"

fun list_of_vars5 :: "vars5 \<Rightarrow> u32 list" where
  "list_of_vars5 (a, b, c, d, e) = [a, b, c, d, e]"

definition fips1_compress :: "u32 list \<Rightarrow> bytes \<Rightarrow> u32 list" where
  "fips1_compress H blk =
     map2 (+) H (list_of_vars5
       (fold (\<lambda>t. fips1_round t (fips1_W (map be32dec (records 4 blk)) t)) [0..<80] (vars5_of H)))"

definition fips1_iv :: "u32 list" where
  "fips1_iv = [0x67452301, 0xefcdab89, 0x98badcfe, 0x10325476, 0xc3d2e1f0]"

definition sha1 :: "bytes \<Rightarrow> bytes" where
  "sha1 m = concat (map be32enc (fold (\<lambda>b H. fips1_compress H b) (records 64 (fips_pad m)) fips1_iv))"


section \<open>The compression function is that of the standard\<close>

text \<open>The working variables, as the rotating state holds them: \<open>j\<close> is \<open>80 - i\<close> in round \<open>i\<close>.\<close>

definition rot5 :: "nat \<Rightarrow> u32 list \<Rightarrow> vars5" where
  "rot5 j S = (S ! (j mod 5), S ! ((j + 1) mod 5), S ! ((j + 2) mod 5), S ! ((j + 3) mod 5), S ! ((j + 4) mod 5))"

text \<open>The macro of round \<open>i\<close>.\<close>

definition rnd5 :: "u32 list \<Rightarrow> nat \<Rightarrow> u32 list \<Rightarrow> u32 list" where
  "rnd5 W i = (if i < 20 then RND0r W i else if i < 40 then RND1r W i else if i < 60 then RND2r W i else RND3r W i)"

lemma length_5: "length S = 5 \<Longrightarrow> \<exists>a b c d e. S = [a, b, c, d, e]"
  by (auto simp: length_Suc_conv numeral_eq_Suc)

lemma rnd5_eq:
  assumes "i < 80" "j = 80 - i"
  shows "rnd5 W i S = (let S = S[(j + 4) mod 5 := ROTL (S ! (j mod 5)) 5
      + fips1_f i (S ! ((j + 1) mod 5)) (S ! ((j + 2) mod 5)) (S ! ((j + 3) mod 5)) + S ! ((j + 4) mod 5) + W ! i + fips1_K i]
    in S[(j + 1) mod 5 := ROTL (S ! ((j + 1) mod 5)) 30])"
proof -
  from assms have "81 - i = j + 1" "82 - i = j + 2" "83 - i = j + 3" "84 - i = j + 4" by auto
  with assms show ?thesis
    by (auto simp: rnd5_def RND0r_def RND1r_def RND2r_def RND3r_def RND0_def RND1_def RND2_def RND3_def
        fips1_f_def fips1_K_def Ch_fips Maj_fips Let_def simp flip: assms(2))
qed

lemma rot5_rnd5:
  assumes "length S = 5" "i < 80"
  shows "rot5 (80 - Suc i) (rnd5 W i S) = fips1_round i (W ! i) (rot5 (80 - i) S)"
proof -
  define j where "j = 80 - i"
  define p where "p = j mod 5"
  from assms(2) have j: "80 - Suc i = j - 1" "0 < j" by (auto simp: j_def)
  have jk: "(j + k) mod 5 = (p + k) mod 5" for k unfolding p_def by (simp add: mod_add_left_eq)
  have "(j - 1) mod 5 = (j + 4) mod 5"
    using j(2) mod_add_self2 [of "j - 1" 5] by (simp add: add.commute)
  then have j0: "(j - 1) mod 5 = (p + 4) mod 5" by (simp only: jk)
  have "j - 1 + 1 = j" "j - 1 + 2 = j + 1" "j - 1 + 3 = j + 2" "j - 1 + 4 = j + 3" using j(2) by simp_all
  then have j1: "(j - 1 + 1) mod 5 = p" "(j - 1 + 2) mod 5 = (p + 1) mod 5"
    "(j - 1 + 3) mod 5 = (p + 2) mod 5" "(j - 1 + 4) mod 5 = (p + 3) mod 5"
    by (simp_all only: jk p_def)
  from assms(1) obtain a b c d e where S: "S = [a, b, c, d, e]" using length_5 by blast
  have "p < 5" by (simp add: p_def)
  then have "p \<in> {0, 1, 2, 3, 4}" by auto
  then show ?thesis
    unfolding j(1) j_def [symmetric] rnd5_eq [OF assms(2) j_def] rot5_def j0 j1 jk p_def [symmetric]
    by (elim insertE) (simp_all add: S ROTL_rotl Let_def)
qed


lemma rot5_id: "rot5 0 S = vars5_of S" "rot5 80 S = vars5_of S"
  by (simp_all add: rot5_def vars5_of_def del: add_2_eq_Suc add_2_eq_Suc')

lemma length_rnd5 [simp]: "length (rnd5 W i S) = length S"
  by (simp add: rnd5_def RND0r_def RND1r_def RND2r_def RND3r_def RND0_def RND1_def RND2_def RND3_def Let_def)

lemma fold_rnd5:
  assumes "length S = 5" "n \<le> 80"
  shows "length (fold (rnd5 W) [0..<n] S) = 5"
    "rot5 (80 - n) (fold (rnd5 W) [0..<n] S) = fold (\<lambda>t. fips1_round t (W ! t)) [0..<n] (rot5 80 S)"
  using assms
proof (induction n)
  case (Suc n)
  {
    case 1
    then show ?case using Suc by simp
  next
    case 2
    then show ?case using Suc rot5_rnd5 [of _ n W] by simp
  }
qed simp_all

lemma rounds_rnd5:
  "fold (RND3r W) [60..<80] (fold (RND2r W) [40..<60] (fold (RND1r W) [20..<40] (fold (RND0r W) [0..<20] S)))
   = fold (rnd5 W) [0..<80] S"
proof -
  have "[0..<80] = [0..<20] @ [20..<40] @ [40..<60] @ [60..<80]"
    using upt_add_eq_append [of 0 20 60] upt_add_eq_append [of 20 40 40] upt_add_eq_append [of 40 60 20] by simp
  moreover have "fold (RND0r W) [0..<20] S = fold (rnd5 W) [0..<20] S"
    "fold (RND1r W) [20..<40] S = fold (rnd5 W) [20..<40] S"
    "fold (RND2r W) [40..<60] S = fold (rnd5 W) [40..<60] S"
    "fold (RND3r W) [60..<80] S = fold (rnd5 W) [60..<80] S" for S
    by (auto simp: rnd5_def intro!: fold_cong)
  ultimately show ?thesis by simp
qed

definition sched1 :: "u32 list \<Rightarrow> u32 list \<Rightarrow> nat \<Rightarrow> bool" where
  "sched1 M W n \<longleftrightarrow> length W = 80 \<and> (\<forall>t<n. W ! t = fips1_W M t)"

lemma sched1_step:
  assumes "sched1 M W n" "16 \<le> n" "n < 80"
  shows "sched1 M (sha1_sched n W) (Suc n)"
proof -
  have "W ! (n - k) = fips1_W M (n - k)" if "0 < k" for k
    using assms that by (simp add: sched1_def)
  moreover have "fips1_W M n
      = word_rotl 1 (fips1_W M (n - 3) XOR fips1_W M (n - 8) XOR fips1_W M (n - 14) XOR fips1_W M (n - 16))"
    using assms(2) by (subst fips1_W.simps) simp
  ultimately show ?thesis
    using assms by (auto simp: sched1_def sha1_sched_def Let_def nth_list_update ROTL_rotl less_Suc_eq)
qed

lemma sched1_fold: "sched1 M W 16 \<Longrightarrow> n \<le> 64 \<Longrightarrow> sched1 M (fold sha1_sched [16..<16 + n] W) (16 + n)"
proof (induction n)
  case (Suc n)
  have "[16..<16 + Suc n] = [16..<16 + n] @ [16 + n]" by (simp only: add_Suc_right upt_Suc_append le_add1)
  with Suc sched1_step [of M "fold sha1_sched [16..<16 + n] W" "16 + n"] show ?case
    by (simp only: fold_append) simp
qed simp

lemma length_list_of_vars5 [simp]: "length (list_of_vars5 v) = 5"
  by (cases v rule: list_of_vars5.cases) simp

lemma vars5_of_list: "length S = 5 \<Longrightarrow> list_of_vars5 (vars5_of S) = S"
  using length_5 [of S] by (auto simp: vars5_of_def)

lemma SHA1_Transform_fips:
  assumes "length state = 5" "length block = 64"
  shows "SHA1_Transform state block = fips1_compress state block"
proof -
  let ?M = "map be32dec (records 4 block)"
  define W where "W = fold sha1_sched [16..<80] (be32dec_vect block 64 @ replicate 64 0)"
  define S where "S = fold (rnd5 W) [0..<80] state"
  have "length ?M = 16" using assms by simp
  then have "sched1 ?M (be32dec_vect block 64 @ replicate 64 0) 16"
    using assms by (auto simp: sched1_def records_4_words nth_append fips1_W.simps)
  from sched1_fold [OF this, of 64] have W: "sched1 ?M W 80" by (simp add: W_def)
  have "fold (\<lambda>t. fips1_round t (W ! t)) [0..<80] (rot5 80 state)
      = fold (\<lambda>t. fips1_round t (fips1_W ?M t)) [0..<80] (vars5_of state)"
    using W by (intro fold_cong) (auto simp: sched1_def rot5_id)
  with fold_rnd5 [OF assms(1), of 80 W] have S: "length S = 5"
      "vars5_of S = fold (\<lambda>t. fips1_round t (fips1_W ?M t)) [0..<80] (vars5_of state)"
    unfolding S_def by (simp_all add: rot5_id)
  have "fips1_compress state block = map2 (+) state S"
    unfolding fips1_compress_def S(2) [symmetric] vars5_of_list [OF S(1)] ..
  also have "\<dots> = SHA1_Transform state block"
    unfolding SHA1_Transform_def Let_def W_def [symmetric] rounds_rnd5 using assms S(1)
    by (intro nth_equalityI) (simp_all add: S_def)
  finally show ?thesis by simp
qed

lemma length_fips1_compress [simp]: "length H = 5 \<Longrightarrow> length (fips1_compress H b) = 5"
  by (simp add: fips1_compress_def)


section \<open>Streaming and HMAC\<close>

definition s1_absorbed :: "SHA1_CTX \<Rightarrow> bytes \<Rightarrow> bool" where
  "s1_absorbed ctx m \<longleftrightarrow> md_rel SHA1_Transform fips1_iv (s1_state ctx) (s1_buf ctx) m \<and>
     cnt_rel (s1_count0 ctx) (s1_count1 ctx) (length m)"

lemma s1_absorbed_r: "s1_absorbed ctx m \<Longrightarrow> s1_r ctx = length m mod 64"
  by (simp only: s1_absorbed_def s1_r_def cnt_rel_def) (rule count_mod_64, simp)

lemma s1_absorbed_init: "length (s1_buf ctx) = 64 \<Longrightarrow> s1_absorbed (SHA1_Init ctx) []"
  by (simp add: s1_absorbed_def SHA1_Init_def md_rel_def cnt_rel_def fips1_iv_def)

lemma SHA1_Update_ok:
  assumes "s1_absorbed ctx m"
  shows "okp (SHA1_Update ctx src) (\<lambda>ctx'. s1_absorbed ctx' (m @ src))"
proof -
  from assms have "md_rel SHA1_Transform fips1_iv (s1_state ctx) (s1_buf ctx) m"
    and c: "cnt_rel (s1_count0 ctx) (s1_count1 ctx) (length m)"
    by (simp_all add: s1_absorbed_def)
  from md_absorb_ok [OF this(1) s1_absorbed_r [OF assms], of src] assms cnt_update [OF c] show ?thesis
    by (auto simp: SHA1_Update_def Let_def wp_rules s1_absorbed_def elim!: okp_mono)
qed

lemma fold_compress1:
  "length H = 5 \<Longrightarrow> \<forall>b \<in> set bs. length b = 64 \<Longrightarrow>
   fold (\<lambda>b s. SHA1_Transform s b) bs H = fold (\<lambda>b H. fips1_compress H b) bs H"
  by (induction bs arbitrary: H) (simp_all add: SHA1_Transform_fips)

lemma length_fold_compress1: "length H = 5 \<Longrightarrow> length (fold (\<lambda>b H. fips1_compress H b) bs H) = 5"
  by (induction bs arbitrary: H) simp_all

lemma length_fips1_iv [simp]: "length fips1_iv = 5"
  by (simp add: fips1_iv_def)

lemma sha1_md_state:
  "md_state SHA1_Transform fips1_iv m = fold (\<lambda>b H. fips1_compress H b) (records 64 m) fips1_iv"
  unfolding md_state_def by (rule fold_compress1) (use length_record in auto)

lemma fips_pad_take:
  "m @ take (pad_len (length m mod 64)) PAD @ be64enc (of_nat (8 * length m)) = fips_pad m"
  by (simp only: take_PAD(1) fips_pad_def append_assoc)

lemma SHA1_Pad_ok:
  assumes "s1_absorbed ctx m"
  shows "okp (SHA1_Pad ctx) (\<lambda>ctx'. s1_state ctx' = md_state SHA1_Transform fips1_iv (fips_pad m))"
proof -
  from assms have "cnt_rel (s1_count0 ctx) (s1_count1 ctx) (length m)" by (simp add: s1_absorbed_def)
  then have len: "be32enc_vect [s1_count0 ctx, s1_count1 ctx] 8 = be64enc (of_nat (8 * length m))"
    using cnt_halves(1) by (simp add: be32enc_vect_eq)
  have "okp (SHA1_Update c (be64enc (of_nat (8 * length m)))) (\<lambda>c'. s1_state c' = md_state SHA1_Transform fips1_iv (fips_pad m))"
    if "s1_absorbed c (m @ take (pad_len (length m mod 64)) PAD)" for c
    using SHA1_Update_ok [OF that, of "be64enc (of_nat (8 * length m))"]
    unfolding append_assoc fips_pad_take by (auto simp: s1_absorbed_def md_rel_def elim!: okp_mono)
  with SHA1_Update_ok [OF assms, of "take (pad_len (length m mod 64)) PAD"] show ?thesis
    unfolding SHA1_Pad_def Let_def len s1_absorbed_r [OF assms] by (auto simp: wp_rules elim!: okp_mono)
qed

lemma SHA1_Final_ok:
  assumes "s1_absorbed ctx m"
  shows "okp (SHA1_Final ctx) (\<lambda>(d, ctx'). d = sha1 m \<and> ctx' = s1_zero)"
proof -
  have "be32enc_vect (md_state SHA1_Transform fips1_iv (fips_pad m)) 20 = sha1 m"
    by (simp add: be32enc_vect_eq sha1_def sha1_md_state length_fold_compress1)
  with SHA1_Pad_ok [OF assms] show ?thesis
    by (auto simp: SHA1_Final_def wp_rules elim!: okp_mono)
qed

lemma length_sha1 [simp]: "length (sha1 m) = 20"
  by (simp add: sha1_def length_concat_const [where n = 4] length_fold_compress1)

interpretation sha1s: hash_stream "\<lambda>ctx. length (s1_buf ctx) = 64" SHA1_Init SHA1_Update SHA1_Final
  sha1 s1_absorbed
proof (unfold_locales, goal_cases)
  case (3 c m)
  then show ?case
    by (intro okp_mono [OF SHA1_Final_ok]) (auto simp: s1_zero_def)
qed (simp_all add: s1_absorbed_init SHA1_Update_ok)


section \<open>Properties\<close>

text \<open>A client: updates with the pieces of a message, in order.\<close>

fun sha1_updates :: "SHA1_CTX \<Rightarrow> bytes list \<Rightarrow> SHA1_CTX option" where
  "sha1_updates ctx [] = Some ctx"
| "sha1_updates ctx (x # xs) = do { ctx \<leftarrow> SHA1_Update ctx x; sha1_updates ctx xs }"

lemma sha1_updates_upds: "sha1_updates ctx xs = sha1s.upds ctx xs"
  by (induction xs arbitrary: ctx) simp_all

definition s1_ctx0 :: SHA1_CTX where
  "s1_ctx0 = \<lparr>s1_state = [], s1_count0 = 5, s1_count1 = 6, s1_buf = replicate 64 0xaa\<rparr>"

text \<open>
  C35.  Streaming SHA-1, with the message in any pieces, returns the FIPS 180-4 SHA-1 hash of
  the whole message (its two-word bit counter carrying as it should) and clears the context.
\<close>

theorem SHA1_streaming:
  assumes "length (s1_buf ctx) = 64"
  shows "okp (do { ctx \<leftarrow> sha1_updates (SHA1_Init ctx) xs; SHA1_Final ctx })
    (\<lambda>(digest, ctx'). digest = sha1 (concat xs) \<and> ctx' = s1_zero)"
  using sha1s.upds_absorbed [OF s1_absorbed_init [OF assms], of xs] SHA1_Final_ok
  by (auto simp: sha1_updates_upds wp_rules elim!: okp_mono)

theorem SHA1_streaming_witness:
  "okp (do { ctx \<leftarrow> sha1_updates (SHA1_Init s1_ctx0) [[0x61], [], [0x62, 0x63]]; SHA1_Final ctx })
    (\<lambda>(digest, ctx'). digest = sha1 (concat [[0x61], [], [0x62, 0x63]]) \<and> ctx' = s1_zero)"
  by (rule SHA1_streaming) (simp add: s1_ctx0_def)

text \<open>
  \<open>HMAC_SHA1_Buf\<close> computes the construction of RFC 2104 over SHA-1, for keys and messages
  of every length.
\<close>

theorem HMAC_SHA1_Buf_is_hmac:
  assumes "length (s1_buf (hm1_ictx ctx)) = 64" "length (s1_buf (hm1_octx ctx)) = 64"
  shows "HMAC_SHA1_Buf ctx K src = Some (hmac sha1 K src)"
proof -
  obtain c where c: "HMAC_SHA1_Init ctx K = Some c" "sha1s.keyed K (hm1_ictx c) (hm1_octx c) []"
    using sha1s.keyed_init [OF assms, of K]
    by (simp add: HMAC_SHA1_Init_def wp_rules case_prod_beta) (auto simp: okp_iff bind_eq_Some_conv)
  obtain i where i: "SHA1_Update (hm1_ictx c) src = Some i" "sha1s.keyed K i (hm1_octx c) src"
    using sha1s.keyed_upd [OF c(2), of src] by (auto elim!: okpE)
  show ?thesis
    using sha1s.keyed_final [OF i(2)] c(1) i(1)
    by (auto simp: HMAC_SHA1_Buf_def HMAC_SHA1_Update_def HMAC_SHA1_Final_def okp_iff bind_eq_Some_conv)
qed

theorem HMAC_SHA1_Buf_is_hmac_witness:
  "HMAC_SHA1_Buf \<lparr>hm1_ictx = s1_ctx0, hm1_octx = s1_ctx0\<rparr> (replicate 65 1) [2, 3]
     = Some (hmac sha1 (replicate 65 1) [2, 3])"
  by (rule HMAC_SHA1_Buf_is_hmac) (simp_all add: s1_ctx0_def)

end
