(* ===== verification/Md5.thy ===== *)
theory Md5
  imports Block_Hash
begin

text \<open>
  \<open>alg/md5.c\<close>: the MD5 compression function with rotating working variables, the streaming
  interface with its two-word bit counter, and HMAC-MD5.
\<close>

section \<open>The compression function\<close>

definition md5_F :: "u32 \<Rightarrow> u32 \<Rightarrow> u32 \<Rightarrow> u32" where
  "md5_F x y z = (x AND (y XOR z)) XOR z"

definition md5_G :: "u32 \<Rightarrow> u32 \<Rightarrow> u32 \<Rightarrow> u32" where
  "md5_G x y z = (z AND (x XOR y)) XOR y"

definition md5_H :: "u32 \<Rightarrow> u32 \<Rightarrow> u32 \<Rightarrow> u32" where
  "md5_H x y z = x XOR y XOR z"

definition md5_I :: "u32 \<Rightarrow> u32 \<Rightarrow> u32 \<Rightarrow> u32" where
  "md5_I x y z = (x OR NOT z) XOR y"

definition FF :: "nat \<Rightarrow> nat \<Rightarrow> nat \<Rightarrow> nat \<Rightarrow> u32 \<Rightarrow> nat \<Rightarrow> u32 list \<Rightarrow> u32 list" where
  "FF a b c d x s S = S[a := S ! b + ROTL (S ! a + md5_F (S ! b) (S ! c) (S ! d) + x) s]"

definition GG :: "nat \<Rightarrow> nat \<Rightarrow> nat \<Rightarrow> nat \<Rightarrow> u32 \<Rightarrow> nat \<Rightarrow> u32 list \<Rightarrow> u32 list" where
  "GG a b c d x s S = S[a := S ! b + ROTL (S ! a + md5_G (S ! b) (S ! c) (S ! d) + x) s]"

definition HH :: "nat \<Rightarrow> nat \<Rightarrow> nat \<Rightarrow> nat \<Rightarrow> u32 \<Rightarrow> nat \<Rightarrow> u32 list \<Rightarrow> u32 list" where
  "HH a b c d x s S = S[a := S ! b + ROTL (S ! a + md5_H (S ! b) (S ! c) (S ! d) + x) s]"

definition II :: "nat \<Rightarrow> nat \<Rightarrow> nat \<Rightarrow> nat \<Rightarrow> u32 \<Rightarrow> nat \<Rightarrow> u32 list \<Rightarrow> u32 list" where
  "II a b c d x s S = S[a := S ! b + ROTL (S ! a + md5_I (S ! b) (S ! c) (S ! d) + x) s]"

definition FFr :: "u32 list \<Rightarrow> u32 list \<Rightarrow> nat \<Rightarrow> nat \<Rightarrow> u32 \<Rightarrow> u32 list" where
  "FFr S W i s T = FF ((64 - i) mod 4) ((65 - i) mod 4) ((66 - i) mod 4) ((67 - i) mod 4)
     (W ! ((i * 1 + 0) mod 16) + T) s S"

definition GGr :: "u32 list \<Rightarrow> u32 list \<Rightarrow> nat \<Rightarrow> nat \<Rightarrow> u32 \<Rightarrow> u32 list" where
  "GGr S W i s T = GG ((64 - i) mod 4) ((65 - i) mod 4) ((66 - i) mod 4) ((67 - i) mod 4)
     (W ! ((i * 5 + 1) mod 16) + T) s S"

definition HHr :: "u32 list \<Rightarrow> u32 list \<Rightarrow> nat \<Rightarrow> nat \<Rightarrow> u32 \<Rightarrow> u32 list" where
  "HHr S W i s T = HH ((64 - i) mod 4) ((65 - i) mod 4) ((66 - i) mod 4) ((67 - i) mod 4)
     (W ! ((i * 3 + 5) mod 16) + T) s S"

definition IIr :: "u32 list \<Rightarrow> u32 list \<Rightarrow> nat \<Rightarrow> nat \<Rightarrow> u32 \<Rightarrow> u32 list" where
  "IIr S W i s T = II ((64 - i) mod 4) ((65 - i) mod 4) ((66 - i) mod 4) ((67 - i) mod 4)
     (W ! ((i * 7 + 0) mod 16) + T) s S"

text \<open>The shift and the constant of each of the sixty-four macro calls.\<close>

definition md5_args :: "(nat \<times> u32) list" where
  "md5_args = [
     (7, 0xd76aa478), (12, 0xe8c7b756), (17, 0x242070db), (22, 0xc1bdceee),
     (7, 0xf57c0faf), (12, 0x4787c62a), (17, 0xa8304613), (22, 0xfd469501),
     (7, 0x698098d8), (12, 0x8b44f7af), (17, 0xffff5bb1), (22, 0x895cd7be),
     (7, 0x6b901122), (12, 0xfd987193), (17, 0xa679438e), (22, 0x49b40821),
     (5, 0xf61e2562), (9, 0xc040b340), (14, 0x265e5a51), (20, 0xe9b6c7aa),
     (5, 0xd62f105d), (9, 0x02441453), (14, 0xd8a1e681), (20, 0xe7d3fbc8),
     (5, 0x21e1cde6), (9, 0xc33707d6), (14, 0xf4d50d87), (20, 0x455a14ed),
     (5, 0xa9e3e905), (9, 0xfcefa3f8), (14, 0x676f02d9), (20, 0x8d2a4c8a),
     (4, 0xfffa3942), (11, 0x8771f681), (16, 0x6d9d6122), (23, 0xfde5380c),
     (4, 0xa4beea44), (11, 0x4bdecfa9), (16, 0xf6bb4b60), (23, 0xbebfbc70),
     (4, 0x289b7ec6), (11, 0xeaa127fa), (16, 0xd4ef3085), (23, 0x04881d05),
     (4, 0xd9d4d039), (11, 0xe6db99e5), (16, 0x1fa27cf8), (23, 0xc4ac5665),
     (6, 0xf4292244), (10, 0x432aff97), (15, 0xab9423a7), (21, 0xfc93a039),
     (6, 0x655b59c3), (10, 0x8f0ccc92), (15, 0xffeff47d), (21, 0x85845dd1),
     (6, 0x6fa87e4f), (10, 0xfe2ce6e0), (15, 0xa3014314), (21, 0x4e0811a1),
     (6, 0xf7537e82), (10, 0xbd3af235), (15, 0x2ad7d2bb), (21, 0xeb86d391)
  ]"

definition MD5_Transform :: "u32 list \<Rightarrow> bytes \<Rightarrow> u32 list" where
  "MD5_Transform state block =
     (let W = le32dec_vect block 64;
          S = take 4 state;
          S = fold (\<lambda>i S. FFr S W i (fst (md5_args ! i)) (snd (md5_args ! i))) [0..<16] S;
          S = fold (\<lambda>i S. GGr S W i (fst (md5_args ! i)) (snd (md5_args ! i))) [16..<32] S;
          S = fold (\<lambda>i S. HHr S W i (fst (md5_args ! i)) (snd (md5_args ! i))) [32..<48] S;
          S = fold (\<lambda>i S. IIr S W i (fst (md5_args ! i)) (snd (md5_args ! i))) [48..<64] S
      in map (\<lambda>i. state ! i + S ! i) [0..<4])"


section \<open>The streaming interface\<close>

record MD5_CTX =
  m5_state :: "u32 list"
  m5_count0 :: u32
  m5_count1 :: u32
  m5_buf :: bytes

definition MD5_Init :: "MD5_CTX \<Rightarrow> MD5_CTX" where
  "MD5_Init ctx = ctx\<lparr>m5_count0 := 0, m5_count1 := 0,
     m5_state := [0x67452301, 0xEFCDAB89, 0x98BADCFE, 0x10325476]\<rparr>"

definition m5_r :: "MD5_CTX \<Rightarrow> nat" where
  "m5_r ctx = unat (drop_bit 3 (m5_count0 ctx) AND 0x3f)"

definition MD5_Update :: "MD5_CTX \<Rightarrow> bytes \<Rightarrow> MD5_CTX option" where
  "MD5_Update ctx src =
     (if length src = 0 then Some ctx
      else do {
        let r = m5_r ctx;
        let hi = cnt_hi (m5_count1 ctx) (m5_count0 ctx) (length src);
        let lo = cnt_lo (m5_count0 ctx) (length src);
        (st, buf) \<leftarrow> md_absorb MD5_Transform r (m5_state ctx) (m5_buf ctx) src;
        Some (ctx\<lparr>m5_state := st, m5_count0 := lo, m5_count1 := hi, m5_buf := buf\<rparr>)
      })"

definition MD5_Pad :: "MD5_CTX \<Rightarrow> MD5_CTX option" where
  "MD5_Pad ctx = do {
     let len = le32enc_vect [m5_count0 ctx, m5_count1 ctx] 8;
     let plen = pad_len (m5_r ctx);
     ctx \<leftarrow> MD5_Update ctx (take plen PAD);
     MD5_Update ctx len
   }"

definition m5_zero :: MD5_CTX where
  "m5_zero = \<lparr>m5_state = replicate 4 0, m5_count0 = 0, m5_count1 = 0, m5_buf = replicate 64 0\<rparr>"

definition MD5_Final :: "MD5_CTX \<Rightarrow> (bytes \<times> MD5_CTX) option" where
  "MD5_Final ctx = do {
     ctx \<leftarrow> MD5_Pad ctx;
     Some (le32enc_vect (m5_state ctx) 16, m5_zero)
   }"

definition MD5_Buf :: "MD5_CTX \<Rightarrow> bytes \<Rightarrow> bytes option" where
  "MD5_Buf ctx src = do {
     ctx \<leftarrow> MD5_Update (MD5_Init ctx) src;
     (digest, ctx) \<leftarrow> MD5_Final ctx;
     Some digest
   }"

record HMAC_MD5_CTX =
  hm5_ictx :: MD5_CTX
  hm5_octx :: MD5_CTX

definition HMAC_MD5_Init :: "HMAC_MD5_CTX \<Rightarrow> bytes \<Rightarrow> HMAC_MD5_CTX option" where
  "HMAC_MD5_Init ctx K = do {
     (K, ictx) \<leftarrow> (if length K > 64 then do {
         ictx \<leftarrow> MD5_Update (MD5_Init (hm5_ictx ctx)) K;
         MD5_Final ictx
       }
       else Some (K, hm5_ictx ctx));
     pad \<leftarrow> xor_key (replicate 64 0x36) K 0;
     ictx \<leftarrow> MD5_Update (MD5_Init ictx) pad;
     pad \<leftarrow> xor_key (replicate 64 0x5c) K 0;
     octx \<leftarrow> MD5_Update (MD5_Init (hm5_octx ctx)) pad;
     Some \<lparr>hm5_ictx = ictx, hm5_octx = octx\<rparr>
   }"

definition HMAC_MD5_Update :: "HMAC_MD5_CTX \<Rightarrow> bytes \<Rightarrow> HMAC_MD5_CTX option" where
  "HMAC_MD5_Update ctx src = do {
     ictx \<leftarrow> MD5_Update (hm5_ictx ctx) src;
     Some (ctx\<lparr>hm5_ictx := ictx\<rparr>)
   }"

definition HMAC_MD5_Final :: "HMAC_MD5_CTX \<Rightarrow> (bytes \<times> HMAC_MD5_CTX) option" where
  "HMAC_MD5_Final ctx = do {
     (ihash, ictx) \<leftarrow> MD5_Final (hm5_ictx ctx);
     octx \<leftarrow> MD5_Update (hm5_octx ctx) ihash;
     (digest, octx) \<leftarrow> MD5_Final octx;
     Some (digest, \<lparr>hm5_ictx = ictx, hm5_octx = octx\<rparr>)
   }"

definition HMAC_MD5_Buf :: "HMAC_MD5_CTX \<Rightarrow> bytes \<Rightarrow> bytes \<Rightarrow> bytes option" where
  "HMAC_MD5_Buf ctx K src = do {
     ctx \<leftarrow> HMAC_MD5_Init ctx K;
     ctx \<leftarrow> HMAC_MD5_Update ctx src;
     (digest, ctx) \<leftarrow> HMAC_MD5_Final ctx;
     Some digest
   }"


section \<open>The reference\<close>

text \<open>
  RFC 1321, section 3: the auxiliary functions, the order of the message words, the shift
  amounts by round, and the rotation of the four words.  The constants (the integer parts of
  \<open>4294967296 * abs (sin i)\<close>) are those of the table above.
\<close>

definition rfc_f :: "nat \<Rightarrow> u32 \<Rightarrow> u32 \<Rightarrow> u32 \<Rightarrow> u32" where
  "rfc_f i x y z =
     (if i < 16 then (x AND y) OR (NOT x AND z)
      else if i < 32 then (x AND z) OR (y AND NOT z)
      else if i < 48 then x XOR y XOR z
      else y XOR (x OR NOT z))"

definition rfc_k :: "nat \<Rightarrow> nat" where
  "rfc_k i =
     (if i < 16 then i else if i < 32 then (1 + 5 * i) mod 16
      else if i < 48 then (5 + 3 * i) mod 16 else 7 * i mod 16)"

definition rfc_s :: "nat \<Rightarrow> nat" where
  "rfc_s i =
     (if i < 16 then [7, 12, 17, 22] else if i < 32 then [5, 9, 14, 20]
      else if i < 48 then [4, 11, 16, 23] else [6, 10, 15, 21]) ! (i mod 4)"

type_synonym vars4 = "u32 \<times> u32 \<times> u32 \<times> u32"

fun rfc_step :: "u32 list \<Rightarrow> nat \<Rightarrow> vars4 \<Rightarrow> vars4" where
  "rfc_step X i (a, b, c, d) =
     (d, b + word_rotl (rfc_s i) (a + rfc_f i b c d + X ! rfc_k i + snd (md5_args ! i)), b, c)"

definition vars4_of :: "u32 list \<Rightarrow> vars4" where
  "vars4_of S = (S ! 0, S ! 1, S ! 2, S ! 3)"

fun list_of_vars4 :: "vars4 \<Rightarrow> u32 list" where
  "list_of_vars4 (a, b, c, d) = [a, b, c, d]"

definition rfc_compress :: "u32 list \<Rightarrow> bytes \<Rightarrow> u32 list" where
  "rfc_compress H blk =
     map2 (+) H (list_of_vars4 (fold (rfc_step (map le32dec (records 4 blk))) [0..<64] (vars4_of H)))"

definition rfc_pad :: "bytes \<Rightarrow> bytes" where
  "rfc_pad m = m @ [0x80] @ replicate ((55 + 63 * length m) mod 64) 0 @ le64enc (of_nat (8 * length m))"

definition rfc_iv :: "u32 list" where
  "rfc_iv = [0x67452301, 0xefcdab89, 0x98badcfe, 0x10325476]"

definition md5 :: "bytes \<Rightarrow> bytes" where
  "md5 m = concat (map le32enc (fold (\<lambda>b H. rfc_compress H b) (records 64 (rfc_pad m)) rfc_iv))"


section \<open>The compression function is that of the reference\<close>

lemma md5_fun_bits:
  "md5_F x y z = (x AND y) OR (NOT x AND z)" "md5_G x y z = (x AND z) OR (y AND NOT z)"
  "md5_H x y z = x XOR y XOR z" "md5_I x y z = y XOR (x OR NOT z)"
  unfolding md5_F_def md5_G_def md5_H_def md5_I_def by (rule bit_word_eqI; auto simp: bit_simps)+

definition rot4 :: "nat \<Rightarrow> u32 list \<Rightarrow> vars4" where
  "rot4 j S = (S ! (j mod 4), S ! ((j + 1) mod 4), S ! ((j + 2) mod 4), S ! ((j + 3) mod 4))"

definition rnd4 :: "u32 list \<Rightarrow> nat \<Rightarrow> u32 list \<Rightarrow> u32 list" where
  "rnd4 W i S =
     (let s = fst (md5_args ! i); T = snd (md5_args ! i) in
      if i < 16 then FFr S W i s T else if i < 32 then GGr S W i s T
      else if i < 48 then HHr S W i s T else IIr S W i s T)"

lemma md5_args_shift:
  assumes "i < 64"
  shows "fst (md5_args ! i) = rfc_s i" "0 < rfc_s i" "rfc_s i < 32"
proof -
  have "\<forall>i \<in> set [0..<64]. fst (md5_args ! i) = rfc_s i \<and> 0 < rfc_s i \<and> rfc_s i < 32"
    by code_simp
  with assms show "fst (md5_args ! i) = rfc_s i" "0 < rfc_s i" "rfc_s i < 32" by auto
qed

lemma length_4': "length S = 4 \<Longrightarrow> \<exists>a b c d. S = [a, b, c, d]"
  by (auto simp: length_Suc_conv numeral_eq_Suc)

lemma rnd4_eq:
  assumes "i < 64" "j = 64 - i"
  shows "rnd4 W i S = S[j mod 4 := S ! ((j + 1) mod 4) + ROTL (S ! (j mod 4)
    + rfc_f i (S ! ((j + 1) mod 4)) (S ! ((j + 2) mod 4)) (S ! ((j + 3) mod 4))
    + (W ! rfc_k i + snd (md5_args ! i))) (rfc_s i)]"
proof -
  from assms have "65 - i = j + 1" "66 - i = j + 2" "67 - i = j + 3" by auto
  with assms show ?thesis
    by (auto simp: rnd4_def FFr_def GGr_def HHr_def IIr_def FF_def GG_def HH_def II_def Let_def
        rfc_f_def rfc_k_def md5_fun_bits md5_args_shift algebra_simps simp flip: assms(2))
qed

lemma rot4_rnd4:
  assumes "length S = 4" "i < 64"
  shows "rot4 (64 - Suc i) (rnd4 W i S) = rfc_step W i (rot4 (64 - i) S)"
proof -
  define j where "j = 64 - i"
  define p where "p = j mod 4"
  from assms(2) have j: "64 - Suc i = j - 1" "0 < j" by (auto simp: j_def)
  have jk: "(j + k) mod 4 = (p + k) mod 4" for k unfolding p_def by (simp add: mod_add_left_eq)
  have "(j - 1) mod 4 = (j + 3) mod 4"
    using j(2) mod_add_self2 [of "j - 1" 4] by (simp add: add.commute)
  then have j0: "(j - 1) mod 4 = (p + 3) mod 4" by (simp only: jk)
  have "j - 1 + 1 = j" "j - 1 + 2 = j + 1" "j - 1 + 3 = j + 2" using j(2) by simp_all
  then have j1: "(j - 1 + 1) mod 4 = p" "(j - 1 + 2) mod 4 = (p + 1) mod 4" "(j - 1 + 3) mod 4 = (p + 2) mod 4"
    by (simp_all only: jk p_def)
  from assms(1) obtain a b c d where S: "S = [a, b, c, d]" using length_4' by blast
  have "p < 4" by (simp add: p_def)
  then have "p \<in> {0, 1, 2, 3}" by auto
  then show ?thesis
    unfolding j(1) j_def [symmetric] rnd4_eq [OF assms(2) j_def] rot4_def j0 j1 jk p_def [symmetric]
      ROTL_rotl [OF md5_args_shift(2,3) [OF assms(2)]]
    by (elim insertE) (simp_all add: S add.assoc)
qed

lemma length_rnd4 [simp]: "length (rnd4 W i S) = length S"
  by (simp add: rnd4_def FFr_def GGr_def HHr_def IIr_def FF_def GG_def HH_def II_def Let_def)

lemma rot4_id: "rot4 0 S = vars4_of S" "rot4 64 S = vars4_of S"
  by (simp_all add: rot4_def vars4_of_def del: add_2_eq_Suc add_2_eq_Suc')

lemma fold_rnd4:
  assumes "length S = 4" "n \<le> 64"
  shows "length (fold (rnd4 W) [0..<n] S) = 4"
    "rot4 (64 - n) (fold (rnd4 W) [0..<n] S) = fold (rfc_step W) [0..<n] (rot4 64 S)"
  using assms
proof (induction n)
  case (Suc n)
  {
    case 1
    then show ?case using Suc by simp
  next
    case 2
    then show ?case using Suc rot4_rnd4 [of _ n W] by simp
  }
qed simp_all

lemma rounds_rnd4:
  "fold (\<lambda>i S. IIr S W i (fst (md5_args ! i)) (snd (md5_args ! i))) [48..<64]
    (fold (\<lambda>i S. HHr S W i (fst (md5_args ! i)) (snd (md5_args ! i))) [32..<48]
     (fold (\<lambda>i S. GGr S W i (fst (md5_args ! i)) (snd (md5_args ! i))) [16..<32]
      (fold (\<lambda>i S. FFr S W i (fst (md5_args ! i)) (snd (md5_args ! i))) [0..<16] S)))
   = fold (rnd4 W) [0..<64] S"
proof -
  have "[0..<64] = [0..<16] @ [16..<32] @ [32..<48] @ [48..<64]"
    using upt_add_eq_append [of 0 16 48] upt_add_eq_append [of 16 32 32] upt_add_eq_append [of 32 48 16] by simp
  moreover have
    "fold (\<lambda>i S. FFr S W i (fst (md5_args ! i)) (snd (md5_args ! i))) [0..<16] S = fold (rnd4 W) [0..<16] S"
    "fold (\<lambda>i S. GGr S W i (fst (md5_args ! i)) (snd (md5_args ! i))) [16..<32] S = fold (rnd4 W) [16..<32] S"
    "fold (\<lambda>i S. HHr S W i (fst (md5_args ! i)) (snd (md5_args ! i))) [32..<48] S = fold (rnd4 W) [32..<48] S"
    "fold (\<lambda>i S. IIr S W i (fst (md5_args ! i)) (snd (md5_args ! i))) [48..<64] S = fold (rnd4 W) [48..<64] S" for S
    by (auto simp: rnd4_def Let_def intro!: fold_cong)
  ultimately show ?thesis by simp
qed

lemma records_4_words_le:
  assumes "length blk = 64"
  shows "le32dec_vect blk 64 = map le32dec (records 4 blk)"
proof -
  have "le32dec (drop (i * 4) blk) = le32dec (take 4 (drop (i * 4) blk))" for i
    by (simp add: le32dec_def)
  then show ?thesis using assms by (simp add: le32dec_vect_def records_def)
qed

lemma length_list_of_vars4 [simp]: "length (list_of_vars4 v) = 4"
  by (cases v rule: list_of_vars4.cases) simp

lemma vars4_of_list: "length S = 4 \<Longrightarrow> list_of_vars4 (vars4_of S) = S"
  using length_4' [of S] by (auto simp: vars4_of_def)

lemma MD5_Transform_rfc:
  assumes "length state = 4" "length block = 64"
  shows "MD5_Transform state block = rfc_compress state block"
proof -
  define W where "W = le32dec_vect block 64"
  define S where "S = fold (rnd4 W) [0..<64] state"
  have W: "W = map le32dec (records 4 block)" using assms by (simp add: W_def records_4_words_le)
  from fold_rnd4 [OF assms(1), of 64 W] have S: "length S = 4"
      "vars4_of S = fold (rfc_step W) [0..<64] (vars4_of state)"
    unfolding S_def by (simp_all add: rot4_id)
  have "rfc_compress state block = map2 (+) state S"
    unfolding rfc_compress_def W [symmetric] S(2) [symmetric] vars4_of_list [OF S(1)] ..
  also have "\<dots> = MD5_Transform state block"
    unfolding MD5_Transform_def Let_def W_def [symmetric] rounds_rnd4 using assms S(1)
    by (intro nth_equalityI) (simp_all add: S_def)
  finally show ?thesis by simp
qed

lemma length_rfc_compress [simp]: "length H = 4 \<Longrightarrow> length (rfc_compress H b) = 4"
  by (simp add: rfc_compress_def)


section \<open>Streaming and HMAC\<close>

definition m5_absorbed :: "MD5_CTX \<Rightarrow> bytes \<Rightarrow> bool" where
  "m5_absorbed ctx m \<longleftrightarrow> md_rel MD5_Transform rfc_iv (m5_state ctx) (m5_buf ctx) m \<and>
     cnt_rel (m5_count1 ctx) (m5_count0 ctx) (length m)"

lemma m5_absorbed_r: "m5_absorbed ctx m \<Longrightarrow> m5_r ctx = length m mod 64"
  by (simp only: m5_absorbed_def m5_r_def cnt_rel_def) (rule count_mod_64, simp)

lemma m5_absorbed_init: "length (m5_buf ctx) = 64 \<Longrightarrow> m5_absorbed (MD5_Init ctx) []"
  by (simp add: m5_absorbed_def MD5_Init_def md_rel_def cnt_rel_def rfc_iv_def)

lemma MD5_Update_ok:
  assumes "m5_absorbed ctx m"
  shows "okp (MD5_Update ctx src) (\<lambda>ctx'. m5_absorbed ctx' (m @ src))"
proof -
  from assms have "md_rel MD5_Transform rfc_iv (m5_state ctx) (m5_buf ctx) m"
    and c: "cnt_rel (m5_count1 ctx) (m5_count0 ctx) (length m)"
    by (simp_all add: m5_absorbed_def)
  from md_absorb_ok [OF this(1) m5_absorbed_r [OF assms], of src] assms cnt_update [OF c] show ?thesis
    by (auto simp: MD5_Update_def Let_def wp_rules m5_absorbed_def elim!: okp_mono)
qed

lemma fold_compress5:
  "length H = 4 \<Longrightarrow> \<forall>b \<in> set bs. length b = 64 \<Longrightarrow>
   fold (\<lambda>b s. MD5_Transform s b) bs H = fold (\<lambda>b H. rfc_compress H b) bs H"
  by (induction bs arbitrary: H) (simp_all add: MD5_Transform_rfc)

lemma length_fold_compress5: "length H = 4 \<Longrightarrow> length (fold (\<lambda>b H. rfc_compress H b) bs H) = 4"
  by (induction bs arbitrary: H) simp_all

lemma length_rfc_iv [simp]: "length rfc_iv = 4"
  by (simp add: rfc_iv_def)

lemma md5_md_state:
  "md_state MD5_Transform rfc_iv m = fold (\<lambda>b H. rfc_compress H b) (records 64 m) rfc_iv"
  unfolding md_state_def by (rule fold_compress5) (use length_record in auto)

lemma rfc_pad_take:
  "m @ take (pad_len (length m mod 64)) PAD @ le64enc (of_nat (8 * length m)) = rfc_pad m"
  by (simp only: take_PAD(1) rfc_pad_def append_assoc)

lemma MD5_Pad_ok:
  assumes "m5_absorbed ctx m"
  shows "okp (MD5_Pad ctx) (\<lambda>ctx'. m5_state ctx' = md_state MD5_Transform rfc_iv (rfc_pad m))"
proof -
  from assms have "cnt_rel (m5_count1 ctx) (m5_count0 ctx) (length m)" by (simp add: m5_absorbed_def)
  then have len: "le32enc_vect [m5_count0 ctx, m5_count1 ctx] 8 = le64enc (of_nat (8 * length m))"
    using cnt_halves(2) by (simp add: le32enc_vect_eq)
  have "okp (MD5_Update c (le64enc (of_nat (8 * length m)))) (\<lambda>c'. m5_state c' = md_state MD5_Transform rfc_iv (rfc_pad m))"
    if "m5_absorbed c (m @ take (pad_len (length m mod 64)) PAD)" for c
    using MD5_Update_ok [OF that, of "le64enc (of_nat (8 * length m))"]
    unfolding append_assoc rfc_pad_take by (auto simp: m5_absorbed_def md_rel_def elim!: okp_mono)
  with MD5_Update_ok [OF assms, of "take (pad_len (length m mod 64)) PAD"] show ?thesis
    unfolding MD5_Pad_def Let_def len m5_absorbed_r [OF assms] by (auto simp: wp_rules elim!: okp_mono)
qed

lemma MD5_Final_ok:
  assumes "m5_absorbed ctx m"
  shows "okp (MD5_Final ctx) (\<lambda>(d, ctx'). d = md5 m \<and> ctx' = m5_zero)"
proof -
  have "le32enc_vect (md_state MD5_Transform rfc_iv (rfc_pad m)) 16 = md5 m"
    by (simp add: le32enc_vect_eq md5_def md5_md_state length_fold_compress5)
  with MD5_Pad_ok [OF assms] show ?thesis
    by (auto simp: MD5_Final_def wp_rules elim!: okp_mono)
qed

lemma length_md5 [simp]: "length (md5 m) = 16"
  by (simp add: md5_def length_concat_const [where n = 4] length_fold_compress5)

interpretation md5s: hash_stream "\<lambda>ctx. length (m5_buf ctx) = 64" MD5_Init MD5_Update MD5_Final
  md5 m5_absorbed
proof (unfold_locales, goal_cases)
  case (3 c m)
  then show ?case
    by (intro okp_mono [OF MD5_Final_ok]) (auto simp: m5_zero_def)
qed (simp_all add: m5_absorbed_init MD5_Update_ok)


section \<open>Properties\<close>

text \<open>A client: updates with the pieces of a message, in order.\<close>

fun md5_updates :: "MD5_CTX \<Rightarrow> bytes list \<Rightarrow> MD5_CTX option" where
  "md5_updates ctx [] = Some ctx"
| "md5_updates ctx (x # xs) = do { ctx \<leftarrow> MD5_Update ctx x; md5_updates ctx xs }"

lemma md5_updates_upds: "md5_updates ctx xs = md5s.upds ctx xs"
  by (induction xs arbitrary: ctx) simp_all

definition m5_ctx0 :: MD5_CTX where
  "m5_ctx0 = \<lparr>m5_state = [], m5_count0 = 5, m5_count1 = 6, m5_buf = replicate 64 0xaa\<rparr>"

text \<open>
  Streaming MD5, with the message in any pieces, returns the RFC 1321 MD5 hash of
  the whole message (its two-word bit counter carrying as it should) and clears the context.
\<close>

theorem MD5_streaming:
  assumes "length (m5_buf ctx) = 64"
  shows "okp (do { ctx \<leftarrow> md5_updates (MD5_Init ctx) xs; MD5_Final ctx })
    (\<lambda>(digest, ctx'). digest = md5 (concat xs) \<and> ctx' = m5_zero)"
  using md5s.upds_absorbed [OF m5_absorbed_init [OF assms], of xs] MD5_Final_ok
  by (auto simp: md5_updates_upds wp_rules elim!: okp_mono)

theorem MD5_streaming_witness:
  "okp (do { ctx \<leftarrow> md5_updates (MD5_Init m5_ctx0) [[0x61], [], [0x62, 0x63]]; MD5_Final ctx })
    (\<lambda>(digest, ctx'). digest = md5 (concat [[0x61], [], [0x62, 0x63]]) \<and> ctx' = m5_zero)"
  by (rule MD5_streaming) (simp add: m5_ctx0_def)

text \<open>
  \<open>HMAC_MD5_Buf\<close> computes the construction of RFC 2104 over MD5, for keys and messages
  of every length.
\<close>

theorem HMAC_MD5_Buf_is_hmac:
  assumes "length (m5_buf (hm5_ictx ctx)) = 64" "length (m5_buf (hm5_octx ctx)) = 64"
  shows "HMAC_MD5_Buf ctx K src = Some (hmac md5 K src)"
proof -
  obtain c where c: "HMAC_MD5_Init ctx K = Some c" "md5s.keyed K (hm5_ictx c) (hm5_octx c) []"
    using md5s.keyed_init [OF assms, of K]
    by (simp add: HMAC_MD5_Init_def wp_rules case_prod_beta) (auto simp: okp_iff bind_eq_Some_conv)
  obtain i where i: "MD5_Update (hm5_ictx c) src = Some i" "md5s.keyed K i (hm5_octx c) src"
    using md5s.keyed_upd [OF c(2), of src] by (auto elim!: okpE)
  show ?thesis
    using md5s.keyed_final [OF i(2)] c(1) i(1)
    by (auto simp: HMAC_MD5_Buf_def HMAC_MD5_Update_def HMAC_MD5_Final_def okp_iff bind_eq_Some_conv)
qed

theorem HMAC_MD5_Buf_is_hmac_witness:
  "HMAC_MD5_Buf \<lparr>hm5_ictx = m5_ctx0, hm5_octx = m5_ctx0\<rparr> (replicate 65 1) [2, 3]
     = Some (hmac md5 (replicate 65 1) [2, 3])"
  by (rule HMAC_MD5_Buf_is_hmac) (simp_all add: m5_ctx0_def)

end
