(* ===== verification/C_String.thy ===== *)
theory C_String
  imports Prelude "HOL-Library.Char_ord"
begin

text \<open>
  Character arrays.  An array of \<open>char\<close> is a \<open>string\<close> whose bytes are written out, the
  terminating NUL included; reading past its end is a fault.  Output written through a moving
  pointer (\<open>*p++ = c\<close>) is the list of the characters written, so that its length is the space
  the caller must provide.
\<close>

abbreviation NUL :: char where
  "NUL \<equiv> CHR 0x00"

text \<open>
  \<open>strchr s c\<close> for a constant string \<open>s\<close> without its NUL: the offset of the first \<open>c\<close>; the
  terminating NUL is part of the string.
\<close>

fun strchr :: "string \<Rightarrow> char \<Rightarrow> nat option" where
  "strchr [] c = (if c = NUL then Some 0 else None)"
| "strchr (x # s) c = (if c = x then Some 0 else map_option Suc (strchr s c))"

lemma strchr_Some: "strchr s c = Some i \<Longrightarrow> c \<noteq> NUL \<Longrightarrow> i < length s \<and> s ! i = c"
  by (induction s arbitrary: i) (auto split: if_splits)

lemma strchr_None: "c \<noteq> NUL \<Longrightarrow> strchr s c = None \<longleftrightarrow> c \<notin> set s"
  by (induction s) auto

lemma strchr_nth:
  "i < length s \<Longrightarrow> (\<forall>j < i. s ! j \<noteq> s ! i) \<Longrightarrow> strchr s (s ! i) = Some i"
proof (induction s arbitrary: i)
  case (Cons x s)
  show ?case
  proof (cases i)
    case (Suc j)
    have "\<forall>k < j. s ! k \<noteq> s ! j" using Cons.prems(2) Suc by (metis Suc_mono nth_Cons_Suc)
    moreover have "x \<noteq> s ! j" using Cons.prems(2) Suc by (metis nth_Cons_0 nth_Cons_Suc zero_less_Suc)
    ultimately show ?thesis using Cons Suc by auto
  qed simp
qed simp


section \<open>Decimal numbers\<close>

text \<open>What \<open>%d\<close>, \<open>%u\<close> and \<open>%zu\<close> print for a number that is not negative.\<close>

definition dec_digit :: "nat \<Rightarrow> char" where
  "dec_digit n = char_of (48 + n)"

fun dec :: "nat \<Rightarrow> string" where
  "dec n = (if n < 10 then [dec_digit n] else dec (n div 10) @ [dec_digit (n mod 10)])"

declare dec.simps [simp del]

definition isdigit :: "char \<Rightarrow> bool" where
  "isdigit c \<longleftrightarrow> CHR ''0'' \<le> c \<and> c \<le> CHR ''9''"

definition digit_val :: "char \<Rightarrow> nat" where
  "digit_val c = of_char c - 48"

text \<open>The number that digits denote when they follow a number \<open>n\<close>.\<close>

definition digits_from :: "nat \<Rightarrow> string \<Rightarrow> nat" where
  "digits_from n ds = foldl (\<lambda>n c. n * 10 + digit_val c) n ds"

lemma digits_from_simps [simp]:
  "digits_from n [] = n" "digits_from n (c # ds) = digits_from (n * 10 + digit_val c) ds"
  "digits_from n (ds @ es) = digits_from (digits_from n ds) es"
  by (simp_all add: digits_from_def)

lemma digits_from_mono: "n \<le> digits_from n ds"
proof (induction ds arbitrary: n)
  case (Cons c ds)
  have "n \<le> n * 10 + digit_val c" by simp
  also have "\<dots> \<le> digits_from n (c # ds)" using Cons by simp
  finally show ?case .
qed simp

lemma digit_val_dec_digit [simp]: "n < 10 \<Longrightarrow> digit_val (dec_digit n) = n"
  by (simp add: digit_val_def dec_digit_def)

lemma isdigit_dec_digit [simp]: "n < 10 \<Longrightarrow> isdigit (dec_digit n)"
  by (simp add: isdigit_def dec_digit_def less_eq_char_def)

lemma digit_val_le: "isdigit c \<Longrightarrow> digit_val c \<le> 9"
  by (auto simp: isdigit_def digit_val_def less_eq_char_def)

lemma digits_split:
  "(\<exists>ds r. c # t = ds @ r \<and> (\<forall>d \<in> set ds. isdigit d) \<and> Q ds r) \<longleftrightarrow>
   Q [] (c # t) \<or> isdigit c \<and> (\<exists>ds r. t = ds @ r \<and> (\<forall>d \<in> set ds. isdigit d) \<and> Q (c # ds) r)"
proof
  assume "\<exists>ds r. c # t = ds @ r \<and> (\<forall>d \<in> set ds. isdigit d) \<and> Q ds r"
  then obtain ds r where "c # t = ds @ r" "\<forall>d \<in> set ds. isdigit d" "Q ds r" by blast
  then show "Q [] (c # t) \<or> isdigit c \<and> (\<exists>ds r. t = ds @ r \<and> (\<forall>d \<in> set ds. isdigit d) \<and> Q (c # ds) r)"
    by (cases ds) auto
next
  assume "Q [] (c # t) \<or> isdigit c \<and> (\<exists>ds r. t = ds @ r \<and> (\<forall>d \<in> set ds. isdigit d) \<and> Q (c # ds) r)"
  then show "\<exists>ds r. c # t = ds @ r \<and> (\<forall>d \<in> set ds. isdigit d) \<and> Q ds r"
  proof
    assume "Q [] (c # t)"
    then show ?thesis by (intro exI [of _ "[]"] exI [of _ "c # t"]) simp
  next
    assume "isdigit c \<and> (\<exists>ds r. t = ds @ r \<and> (\<forall>d \<in> set ds. isdigit d) \<and> Q (c # ds) r)"
    then show ?thesis by (metis append_Cons set_ConsD)
  qed
qed

lemma dec_round: "digits_from 0 (dec n) = n"
proof (induction n rule: dec.induct)
  case (1 n)
  then show ?case by (cases "n < 10") (simp_all add: dec.simps [of n])
qed

lemma dec_isdigit: "c \<in> set (dec n) \<Longrightarrow> isdigit c"
proof (induction n rule: dec.induct)
  case (1 n)
  then show ?case by (cases "n < 10") (auto simp: dec.simps [of n])
qed

lemma dec_not_Nil [simp]: "dec n \<noteq> []"
  by (simp add: dec.simps [of n])

end
