(* ===== verification/Hexify.thy ===== *)
theory Hexify
  imports C_String
begin

text \<open>Hexadecimal text, from \<open>util/hexify.c\<close>.\<close>

section \<open>Definitions\<close>

definition hexchars :: string where
  "hexchars = ''0123456789abcdef0123456789ABCDEF''"

fun hexify :: "bytes \<Rightarrow> nat \<Rightarrow> string option" where
  "hexify p 0 = Some [NUL]"
| "hexify [] (Suc len) = None"
| "hexify (b # p) (Suc len) = do {
     out \<leftarrow> hexify p len;
     Some (hexchars ! unat (drop_bit 4 b) # hexchars ! unat (b AND 0x0f) # out)
   }"

text \<open>The first loop of \<open>unhexify\<close>: are the next \<open>n\<close> characters hexadecimal digits?\<close>

fun hex_check :: "string \<Rightarrow> nat \<Rightarrow> bool option" where
  "hex_check p 0 = Some True"
| "hex_check [] (Suc n) = None"
| "hex_check (c # p) (Suc n) =
     (if c = NUL \<or> strchr hexchars c = None then Some False else hex_check p n)"

text \<open>The second loop: pairs of characters become bytes.  Subtracting from NULL is a fault.\<close>

definition hex_digit :: "char \<Rightarrow> u8 option" where
  "hex_digit c = map_option (\<lambda>pos. of_nat pos AND 0x0f) (strchr hexchars c)"

fun hex_pairs :: "string \<Rightarrow> nat \<Rightarrow> bytes option" where
  "hex_pairs p 0 = Some []"
| "hex_pairs (c # d # p) (Suc n) = do {
     hi \<leftarrow> hex_digit c;
     lo \<leftarrow> hex_digit d;
     out \<leftarrow> hex_pairs p n;
     Some ((push_bit 4 hi + lo) # out)
   }"
| "hex_pairs p (Suc n) = None"

text \<open>The value of \<open>unhexify\<close> is its return code and what it wrote to \<open>out\<close>.\<close>

definition unhexify :: "string \<Rightarrow> nat \<Rightarrow> (int \<times> bytes) option" where
  "unhexify p len = do {
     ok \<leftarrow> hex_check p (szmul 2 len);
     if ok then do {
       out \<leftarrow> hex_pairs p len;
       Some (0, out)
     } else Some (-1, [])
   }"


section \<open>Correctness\<close>

definition is_hex :: "char \<Rightarrow> bool" where
  "is_hex c \<longleftrightarrow> c \<in> set ''0123456789abcdefABCDEF''"

lemma strchr_hexchars_None: "c \<noteq> NUL \<Longrightarrow> strchr hexchars c = None \<longleftrightarrow> \<not> is_hex c"
  by (auto simp: strchr_None hexchars_def is_hex_def)


lemma hex_check_eq:
  "NUL \<notin> set s \<Longrightarrow>
   hex_check (s @ NUL # rest) n = Some (n \<le> length s \<and> (\<forall>c \<in> set (take n s). is_hex c))"
proof (induction n arbitrary: s)
  case (Suc n)
  then show ?case
    using strchr_hexchars_None [of "hd s"] by (cases s) auto
qed simp

definition tolower :: "char \<Rightarrow> char" where
  "tolower c = (if 65 \<le> (of_char c :: nat) \<and> (of_char c :: nat) \<le> 90
                then char_of ((of_char c :: nat) + 32) else c)"

text \<open>A digit's value is below 16 and printing it gives the lower-case digit again.\<close>

lemma hex_digit_ok:
  assumes "is_hex c"
  shows "\<exists>i < 16. hex_digit c = Some (of_nat i) \<and> hexchars ! i = tolower c"
proof -
  have "list_all (\<lambda>c. list_ex (\<lambda>i. hex_digit c = Some (of_nat i) \<and> hexchars ! i = tolower c) [0..<16])
          ''0123456789abcdefABCDEF''"
    by code_simp
  with assms show ?thesis by (auto simp: list_all_iff list_ex_iff is_hex_def)
qed

lemma hexchars_digit:
  assumes "i < 16"
  shows "hex_digit (hexchars ! i) = Some (of_nat i)" "is_hex (hexchars ! i)" "hexchars ! i \<noteq> NUL"
proof -
  have "list_all (\<lambda>i. hex_digit (hexchars ! i) = Some (of_nat i) \<and> is_hex (hexchars ! i)
          \<and> hexchars ! i \<noteq> NUL) [0..<16]"
    unfolding is_hex_def by code_simp
  with assms show "hex_digit (hexchars ! i) = Some (of_nat i)" "is_hex (hexchars ! i)" "hexchars ! i \<noteq> NUL"
    by (auto simp: list_all_iff)
qed

lemma nibble_less: "unat (drop_bit 4 (b :: u8)) < 16" "unat (b AND 0x0f) < 16"
proof -
  show "unat (drop_bit 4 b) < 16"
    using unsigned_less [of b, where 'a = nat] by (simp add: unat_drop)
  have "b AND 0x0f = take_bit 4 b" by (simp add: take_bit_eq_mask mask_eq_exp_minus_1)
  then show "unat (b AND 0x0f) < 16" by (simp add: unat_take)
qed

lemma nibbles_join: "push_bit 4 (drop_bit 4 b) + (b AND 0x0f) = (b :: u8)"
proof -
  have "b AND 0x0f = take_bit 4 b" by (simp add: take_bit_eq_mask mask_eq_exp_minus_1)
  then show ?thesis by (simp add: bits_ident)
qed

lemma nibbles_split:
  assumes "i < 16" "j < 16"
  shows "unat (drop_bit 4 (push_bit 4 (of_nat i) + of_nat j :: u8)) = i"
    "unat ((push_bit 4 (of_nat i) + of_nat j :: u8) AND 0x0f) = j"
proof -
  let ?w = "push_bit 4 (of_nat i) + of_nat j :: u8"
  have "?w = of_nat (i * 16 + j)" by (simp add: push_bit_eq_mult mult.commute)
  then have w: "unat ?w = i * 16 + j" using assms by (simp only: unat_of_nat take_bit_eq_mod) simp
  show "unat (drop_bit 4 ?w) = i" using assms w by (simp add: unat_drop)
  have "?w AND 0x0f = take_bit 4 ?w" by (simp add: take_bit_eq_mask mask_eq_exp_minus_1)
  then show "unat (?w AND 0x0f) = j" using assms w by (simp add: unat_take)
qed

lemma hexify_total: "len \<le> length p \<Longrightarrow> \<exists>s. hexify p len = Some (s @ [NUL]) \<and> length s = 2 * len
    \<and> NUL \<notin> set s \<and> (\<forall>c \<in> set s. is_hex c) \<and> hex_pairs (s @ rest) len = Some (take len p)"
proof (induction p len rule: hexify.induct)
  case (3 b p len)
  then obtain s where s: "hexify p len = Some (s @ [NUL])" "length s = 2 * len" "NUL \<notin> set s"
    "\<forall>c \<in> set s. is_hex c" "hex_pairs (s @ rest) len = Some (take len p)"
    by auto
  let ?c = "hexchars ! unat (drop_bit 4 b)" and ?d = "hexchars ! unat (b AND 0x0f)"
  have "hex_digit ?c = Some (drop_bit 4 b)" "hex_digit ?d = Some (b AND 0x0f)"
    using hexchars_digit(1) nibble_less by simp_all
  then have "hex_pairs ((?c # ?d # s) @ rest) (Suc len) = Some (take (Suc len) (b # p))"
    using s(5) by (simp add: nibbles_join)
  moreover have "hexify (b # p) (Suc len) = Some ((?c # ?d # s) @ [NUL])" using s(1) by simp
  moreover have "NUL \<notin> set (?c # ?d # s)"
    using s(3) hexchars_digit(3) [OF nibble_less(1), of b] hexchars_digit(3) [OF nibble_less(2), of b]
    by simp
  moreover have "\<forall>c \<in> set (?c # ?d # s). is_hex c"
    using s(4) hexchars_digit(2) nibble_less by simp
  ultimately show ?case using s(2) by (metis length_Cons mult_Suc_right add_2_eq_Suc)
qed simp_all

lemma hex_pairs_total:
  "2 * len \<le> length s \<Longrightarrow> \<forall>c \<in> set (take (2 * len) s). is_hex c \<Longrightarrow>
   \<exists>out. hex_pairs (s @ rest) len = Some out \<and> length out = len \<and>
     hexify out len = Some (map tolower (take (2 * len) s) @ [NUL])"
proof (induction len arbitrary: s)
  case (Suc len)
  then obtain c d t where s: "s = c # d # t"
    by (cases s; cases "tl s") auto
  with Suc.prems have t: "2 * len \<le> length t" "\<forall>c \<in> set (take (2 * len) t). is_hex c" "is_hex c" "is_hex d"
    by auto
  from Suc.IH [OF t(1,2)] obtain out where out: "hex_pairs (t @ rest) len = Some out"
    "length out = len" "hexify out len = Some (map tolower (take (2 * len) t) @ [NUL])" by blast
  from hex_digit_ok [OF t(3)] obtain i where i: "i < 16" "hex_digit c = Some (of_nat i)" "hexchars ! i = tolower c"
    by blast
  from hex_digit_ok [OF t(4)] obtain j where j: "j < 16" "hex_digit d = Some (of_nat j)" "hexchars ! j = tolower d"
    by blast
  show ?case
    using s out i j nibbles_split [OF i(1) j(1)] by simp
qed simp


section \<open>Properties\<close>

text \<open>
  C30.  Hexadecimal round trip: \<open>hexify\<close> writes \<open>2 * len + 1\<close> characters, and
  \<open>unhexify\<close> of any memory that starts with them returns 0 and the original bytes.
\<close>

theorem unhexify_hexify:
  assumes "len \<le> length p" "2 * len \<le> SIZE_MAX"
  shows "\<exists>s. hexify p len = Some s \<and> length s = 2 * len + 1 \<and>
             unhexify (s @ rest) len = Some (0, take len p)"
proof -
  from hexify_total [OF assms(1), of "NUL # rest"] obtain s where
    s: "hexify p len = Some (s @ [NUL])" "length s = 2 * len" "NUL \<notin> set s"
      "\<forall>c \<in> set s. is_hex c" "hex_pairs (s @ NUL # rest) len = Some (take len p)" by blast
  then have "unhexify (s @ NUL # rest) len = Some (0, take len p)"
    using assms(2) by (simp add: unhexify_def hex_check_eq)
  with s(1,2) show ?thesis by simp
qed

theorem unhexify_hexify_witness:
  "2 \<le> length [0xca, 0xfe :: u8] \<and> hexify [0xca, 0xfe] 2 = Some (''cafe'' @ [NUL]) \<and>
   unhexify (''cafe'' @ [NUL] @ ''x'') 2 = Some (0, [0xca, 0xfe])"
proof -
  have h: "hexify [0xca, 0xfe] 2 = Some (''cafe'' @ [NUL])" by code_simp
  have "2 * 2 \<le> SIZE_MAX" by (simp add: SIZE_MAX_def)
  with unhexify_hexify [of 2 "[0xca, 0xfe]" "''x''"] h show ?thesis by simp
qed

text \<open>
  \<open>unhexify\<close> on a NUL-terminated string never reads past the NUL; it returns 0 exactly
  when the first \<open>2 * len\<close> characters exist and are hexadecimal digits, and then the bytes it
  wrote print as those digits in lower case; otherwise it returns -1 and writes nothing.
\<close>

theorem unhexify_accepts:
  assumes "NUL \<notin> set s" "2 * len \<le> SIZE_MAX"
  shows "if 2 * len \<le> length s \<and> (\<forall>c \<in> set (take (2 * len) s). is_hex c)
         then \<exists>out. unhexify (s @ NUL # rest) len = Some (0, out) \<and> length out = len \<and>
                hexify out len = Some (map tolower (take (2 * len) s) @ [NUL])
         else unhexify (s @ NUL # rest) len = Some (-1, [])"
proof (cases "2 * len \<le> length s \<and> (\<forall>c \<in> set (take (2 * len) s). is_hex c)")
  case True
  with hex_pairs_total [of len s "NUL # rest"] obtain out where
    "hex_pairs (s @ NUL # rest) len = Some out" "length out = len"
    "hexify out len = Some (map tolower (take (2 * len) s) @ [NUL])" by blast
  with True assms show ?thesis by (simp add: unhexify_def hex_check_eq)
next
  case False
  with assms have "hex_check (s @ NUL # rest) (2 * len) = Some False" by (simp add: hex_check_eq)
  with False assms show ?thesis by (auto simp: unhexify_def)
qed

theorem unhexify_accepts_witness:
  "unhexify (''1G'' @ [NUL]) 1 = Some (-1, [])"
  using unhexify_accepts [of "''1G''" 1 "[]"] by (simp add: is_hex_def SIZE_MAX_def)

end
