(* ===== verification/Base64.thy ===== *)
theory Base64
  imports C_String
begin

text \<open>Base-64 text, from \<open>util/b64encode.c\<close>.\<close>

section \<open>Definitions\<close>

definition b64chars :: string where
  "b64chars = ''ABCDEFGHIJKLMNOPQRSTUVWXYZabcdefghijklmnopqrstuvwxyz0123456789+/=''"

text \<open>Read up to 3 bytes: the loop \<open>for (t = 0, j = 0; j < 3; j++)\<close>.\<close>

function b64_read :: "nat \<Rightarrow> nat \<Rightarrow> u32 \<Rightarrow> bytes \<Rightarrow> (u32 \<times> bytes) option" where
  "b64_read len j t p =
     (if j < 3 then
        (if j < len then
           (case p of [] \<Rightarrow> None
            | b # p' \<Rightarrow> b64_read len (j + 1) (push_bit 8 t + ucast b) p')
         else b64_read len (j + 1) (push_bit 8 t) p)
      else Some (t, p))"
  by pat_completeness auto
termination by (relation "measure (\<lambda>(len, j, t, p). 3 - j)") auto

text \<open>Write 4 bytes: the loop \<open>for (j = 0; j < 4; j++)\<close>.\<close>

function b64_write :: "nat \<Rightarrow> nat \<Rightarrow> u32 \<Rightarrow> string" where
  "b64_write len j t =
     (if j < 4 then
        (if j \<le> len then b64chars ! unat (drop_bit 18 t AND 0x3f) else CHR ''='')
          # b64_write len (j + 1) (push_bit 6 t)
      else [])"
  by pat_completeness auto
termination by (relation "measure (\<lambda>(len, j, t). 4 - j)") auto

function b64encode :: "bytes \<Rightarrow> nat \<Rightarrow> string option" where
  "b64encode p len =
     (if len \<noteq> 0 then do {
        (t, p') \<leftarrow> b64_read len 0 0 p;
        out \<leftarrow> b64encode p' (if len < 3 then 0 else len - 3);
        Some (b64_write len 0 t @ out)
      } else Some [NUL])"
  by pat_completeness auto
termination by (relation "measure snd") auto

declare b64_read.simps [simp del] b64_write.simps [simp del] b64encode.simps [simp del]

text \<open>
  The validation loop of \<open>b64decode\<close>, with \<open>deadbytes\<close>; \<open>Some None\<close> is the jump to \<open>bad\<close>.
\<close>

fun b64_check :: "string \<Rightarrow> nat \<Rightarrow> nat \<Rightarrow> nat option option" where
  "b64_check p 0 deadbytes = Some (Some deadbytes)"
| "b64_check [] (Suc n) deadbytes = None"
| "b64_check (c # p) (Suc n) deadbytes =
     (if c = NUL \<or> strchr b64chars c = None then Some None
      else let deadbytes' = (if c = CHR ''='' then deadbytes + 1 else deadbytes) in
           if c \<noteq> CHR ''='' \<and> deadbytes' > 0 then Some None
           else b64_check p n deadbytes')"

text \<open>Parse 4 bytes, output 3 bytes.\<close>

fun b64_parse :: "nat \<Rightarrow> u32 \<Rightarrow> string \<Rightarrow> (u32 \<times> string) option" where
  "b64_parse 0 t p = Some (t, p)"
| "b64_parse (Suc n) t [] = None"
| "b64_parse (Suc n) t (c # p) = do {
     pos \<leftarrow> strchr b64chars c;
     b64_parse n (push_bit 6 t + (of_nat pos AND 0x3f)) p
   }"

fun b64_out :: "nat \<Rightarrow> u32 \<Rightarrow> bytes" where
  "b64_out 0 t = []"
| "b64_out (Suc n) t = ucast (drop_bit 16 t AND 0xff) # b64_out n (push_bit 8 t)"

text \<open>The decoding loop; its value is the bytes written, three for each block.\<close>

function b64_loop :: "string \<Rightarrow> nat \<Rightarrow> bytes option" where
  "b64_loop p inlen =
     (if inlen \<noteq> 0 then do {
        (t, p') \<leftarrow> b64_parse 4 0 p;
        out \<leftarrow> b64_loop p' (inlen - 4);
        Some (b64_out 3 t @ out)
      } else Some [])"
  by pat_completeness auto
termination by (relation "measure snd") auto

declare b64_loop.simps [simp del]

text \<open>
  The value of \<open>b64decode\<close>: the return code, what it wrote to \<open>out\<close> and what it stored in
  \<open>*outlen\<close> (\<open>None\<close> when it stored nothing).
\<close>

definition b64decode :: "string \<Rightarrow> nat \<Rightarrow> (int \<times> bytes \<times> nat option) option" where
  "b64decode p inlen =
     (if inlen mod 4 \<noteq> 0 then Some (1, [], None)
      else do {
        chk \<leftarrow> b64_check p inlen 0;
        (case chk of
           None \<Rightarrow> Some (1, [], None)
         | Some deadbytes \<Rightarrow>
             (if deadbytes > 2 then Some (1, [], None)
              else do {
                out \<leftarrow> b64_loop p inlen;
                Some (0, out, Some (szsub (length out) deadbytes))
              }))
      })"


section \<open>The encoding of RFC 1421\<close>

text \<open>
  Three bytes are a number below \<open>2 ^ 24\<close>, written with four digits of base 64; a final group of
  one or two bytes is padded with zero bits to a multiple of six, and the text with \<open>=\<close>.
\<close>

fun digits64 :: "nat \<Rightarrow> nat \<Rightarrow> string" where
  "digits64 0 v = []"
| "digits64 (Suc k) v = b64chars ! (v div 64 ^ k mod 64) # digits64 k v"

fun base64 :: "bytes \<Rightarrow> string" where
  "base64 [] = []"
| "base64 [a] = digits64 2 (unat a * 16) @ ''==''"
| "base64 [a, b] = digits64 3 (unat a * 1024 + unat b * 4) @ ''=''"
| "base64 (a # b # c # p) = digits64 4 (unat a * 65536 + unat b * 256 + unat c) @ base64 p"

lemma length_digits64 [simp]: "length (digits64 k v) = k"
  by (induction k) auto

lemma digits64_234:
  "digits64 2 v = [b64chars ! (v div 64 mod 64), b64chars ! (v mod 64)]"
  "digits64 3 v = [b64chars ! (v div 64 ^ 2 mod 64), b64chars ! (v div 64 mod 64), b64chars ! (v mod 64)]"
  "digits64 4 v = [b64chars ! (v div 64 ^ 3 mod 64), b64chars ! (v div 64 ^ 2 mod 64),
     b64chars ! (v div 64 mod 64), b64chars ! (v mod 64)]"
  using digits64.simps(2) [of 3 v] digits64.simps(2) [of 2 v] digits64.simps(2) [of 1 v]
    digits64.simps(2) [of 0 v] by (simp_all flip: numeral_2_eq_2)

lemma base64_length: "length (base64 p) = (length p + 2) div 3 * 4"
proof (induction p rule: base64.induct)
  case (4 a b c p)
  have "(length (a # b # c # p) + 2) div 3 = (length p + 2) div 3 + 1"
    by (simp add: div_add_self1 [of 3 "length p + 2", symmetric] del: div_add_self1)
  with 4 show ?case by simp
qed simp_all


section \<open>Encoding\<close>

lemma read_byte: "push_bit 8 (of_nat x) + ucast (b :: u8) = (of_nat (x * 256 + unat b) :: u32)"
  by (simp add: push_bit_eq_mult mult.commute)

lemma read_zero: "push_bit 8 (of_nat x) = (of_nat (x * 256) :: u32)"
  by (simp add: push_bit_eq_mult mult.commute)

lemma sextet_shift:
  assumes "m \<le> 18"
  shows "drop_bit 18 (push_bit m t) AND 0x3f = drop_bit (18 - m) t AND (0x3f :: u32)"
proof -
  have m: "(0x3f :: u32) = mask 6" by (simp add: mask_eq_exp_minus_1)
  show ?thesis unfolding m using assms by (intro bit_word_eqI) (auto simp: bit_simps add.commute)
qed

lemma unat_sextet: "v < 2 ^ 32 \<Longrightarrow> unat (drop_bit n (of_nat v :: u32) AND 0x3f) = v div 2 ^ n mod 64"
proof -
  assume "v < 2 ^ 32"
  moreover have "drop_bit n (of_nat v :: u32) AND 0x3f = take_bit 6 (drop_bit n (of_nat v))"
    by (simp add: take_bit_eq_mask mask_eq_exp_minus_1)
  moreover have "unat (of_nat v :: u32) = v mod 2 ^ 32" by (simp only: unat_of_nat take_bit_eq_mod) simp
  ultimately show ?thesis by (simp only: unat_take unat_drop) simp
qed

lemma b64_write_eq:
  assumes "v < 2 ^ 24" "0 < len"
  shows "b64_write len 0 (of_nat v) =
    b64chars ! (v div 64 ^ 3 mod 64) # b64chars ! (v div 64 ^ 2 mod 64) #
    (if 2 \<le> len then b64chars ! (v div 64 mod 64) else CHR ''='') #
    (if 3 \<le> len then b64chars ! (v mod 64) else CHR ''='') # []"
proof -
  have d: "unat (drop_bit 18 (push_bit m (of_nat v :: u32)) AND 0x3f) = v div 2 ^ (18 - m) mod 64"
    if "m \<le> 18" for m
    using that assms by (simp add: sextet_shift unat_sextet)
  show ?thesis
    using assms d [of 0] d [of 6] d [of 12] d [of 18]
    by (simp add: b64_write.simps [of _ 0] b64_write.simps [of _ 1] b64_write.simps [of _ "Suc 0"]
        b64_write.simps [of _ 2] b64_write.simps [of _ 3] b64_write.simps [of _ 4]
        numeral_2_eq_2 [symmetric] push_bit_push_bit)
qed

lemmas b64_read_unfold =
  b64_read.simps [of _ 0] b64_read.simps [of _ "Suc 0"]
  b64_read.simps [of _ "Suc (Suc 0)"] b64_read.simps [of _ "Suc (Suc (Suc 0))"]

lemma b64_read_eq:
  "b64_read (Suc 0) 0 0 (a # p) = Some (of_nat (unat a * 65536), p)"
  "b64_read 2 0 0 (a # b # p) = Some (of_nat (unat a * 65536 + unat b * 256), p)"
  "3 \<le> len \<Longrightarrow> b64_read len 0 0 (a # b # c # p) =
     Some (of_nat (unat a * 65536 + unat b * 256 + unat c), p)"
  using read_byte [of 0 a] read_zero [of "unat a"] read_zero [of "unat a * 256"]
    read_byte [of "unat a" b] read_zero [of "unat a * 256 + unat b"]
    read_byte [of "unat a * 256 + unat b" c]
  by (simp_all add: b64_read_unfold algebra_simps del: of_nat_add of_nat_mult)

lemma byte_less: "unat (b :: u8) < 256"
  using unsigned_less [of b, where 'a = nat] by simp

lemma group_less: "unat (a :: u8) * 65536 + unat (b :: u8) * 256 + unat (c :: u8) < 2 ^ 24"
  using byte_less [of a] byte_less [of b] byte_less [of c] by simp

lemma b64encode_eq: "len \<le> length p \<Longrightarrow> b64encode p len = Some (base64 (take len p) @ [NUL])"
proof (induction len arbitrary: p rule: less_induct)
  case (less len)
  consider "len = 0" | "len = 1" | "len = 2" | n where "len = n + 3"
    by (atomize_elim) presburger
  then show ?case
  proof cases
    case 1
    then show ?thesis by (simp add: b64encode.simps)
  next
    case 2
    with less.prems obtain a q where p: "p = a # q" by (cases p) auto
    define w where "w = unat a * 16"
    have w: "unat a * 65536 = w * 4096" by (simp add: w_def)
    have "w * 4096 < 2 ^ 24" using byte_less [of a] by (simp add: w_def)
    then show ?thesis
      using 2 p by (simp add: b64encode.simps [of _ "Suc 0"] b64encode.simps [of _ 0] b64_read_eq w b64_write_eq
        w_def [symmetric] digits64_234 del: of_nat_mult)
  next
    case 3
    with less.prems obtain a b q where p: "p = a # b # q" by (cases p; cases "tl p") auto
    define w where "w = unat a * 1024 + unat b * 4"
    have w: "unat a * 65536 + unat b * 256 = w * 64" by (simp add: w_def)
    have "w * 64 < 2 ^ 24" using byte_less [of a] byte_less [of b] by (simp add: w_def)
    then show ?thesis
      using 3 p by (simp add: b64encode.simps [of _ 2] b64encode.simps [of _ 0] b64_read_eq w b64_write_eq
        w_def [symmetric] digits64_234 del: of_nat_mult of_nat_add)
  next
    case (4 n)
    with less.prems obtain a b c q where p: "p = a # b # c # q"
      by (cases p; cases "tl p"; cases "tl (tl p)") auto
    have "b64encode q n = Some (base64 (take n q) @ [NUL])"
      using less.IH [of n q] less.prems 4 p by simp
    moreover have "take (n + 3) p = a # b # c # take n q" using p by (simp add: numeral_3_eq_3)
    ultimately show ?thesis
      using 4 p group_less [of a b c] by (simp add: digits64_234 b64encode.simps [of _ "n + 3"] b64_read_eq b64_write_eq del: of_nat_mult of_nat_add)
  qed
qed


section \<open>Decoding\<close>

lemma strchr_b64chars:
  assumes "i < 65"
  shows "strchr b64chars (b64chars ! i) = Some i" "b64chars ! i \<noteq> NUL"
    "b64chars ! i = CHR ''='' \<longleftrightarrow> i = 64"
proof -
  have "list_all (\<lambda>i. strchr b64chars (b64chars ! i) = Some i \<and> b64chars ! i \<noteq> NUL \<and>
          (b64chars ! i = CHR ''='' \<longleftrightarrow> i = 64)) [0..<65]"
    by code_simp
  with assms show "strchr b64chars (b64chars ! i) = Some i" "b64chars ! i \<noteq> NUL"
    "b64chars ! i = CHR ''='' \<longleftrightarrow> i = 64"
    by (auto simp: list_all_iff)
qed

lemma b64chars_64: "b64chars ! 64 = CHR ''=''"
  by code_simp

lemma parse_digit: "i < 64 \<Longrightarrow> push_bit 6 (of_nat x) + (of_nat i AND 0x3f) = (of_nat (x * 64 + i) :: u32)"
proof -
  assume "i < 64"
  have "of_nat i AND 0x3f = (take_bit 6 (of_nat i) :: u32)" by (simp add: take_bit_eq_mask mask_eq_exp_minus_1)
  also have "\<dots> = of_nat (take_bit 6 i)" by (rule of_nat_take_bit [symmetric])
  also have "take_bit 6 i = i" using \<open>i < 64\<close> by (simp add: take_bit_eq_mod)
  finally show ?thesis by (simp add: push_bit_eq_mult mult.commute)
qed

lemma parse_pad: "push_bit 6 (of_nat x) + (of_nat 64 AND 0x3f) = (of_nat (x * 64) :: u32)"
  by (simp add: push_bit_eq_mult mult.commute)

lemma b64_parse_digits:
  "b64_parse (k + n) (of_nat x) (digits64 k v @ p) = b64_parse n (of_nat (x * 64 ^ k + v mod 64 ^ k)) p"
proof (induction k arbitrary: x)
  case (Suc k)
  have "v mod 64 ^ Suc k = v div 64 ^ k mod 64 * 64 ^ k + v mod 64 ^ k"
    using mod_mult2_eq [of v "64 ^ k" 64] by (simp only: power_Suc2 mult.commute)
  then have "(x * 64 + v div 64 ^ k mod 64) * 64 ^ k + v mod 64 ^ k = x * 64 ^ Suc k + v mod 64 ^ Suc k"
    by (simp add: add_mult_distrib mult.assoc)
  with Suc show ?case
    by (simp add: strchr_b64chars parse_digit del: of_nat_add of_nat_mult power_Suc)
qed simp

lemma b64_parse_pad:
  "b64_parse (Suc n) (of_nat x) (CHR ''='' # p) = b64_parse n (of_nat (x * 64)) p"
  using strchr_b64chars(1) [of 64] by (simp add: b64chars_64 parse_pad del: of_nat_mult of_nat_numeral)

lemma out_shift:
  assumes "m \<le> 16"
  shows "(ucast (drop_bit 16 (push_bit m t) AND (0xff :: u32)) :: u8) = ucast (drop_bit (16 - m) t)"
proof -
  have m: "(0xff :: u32) = mask 8" by (simp add: mask_eq_exp_minus_1)
  show ?thesis unfolding m using assms by (intro bit_word_eqI) (auto simp: bit_simps add.commute)
qed

lemma ucast_drop: "v < 2 ^ 32 \<Longrightarrow> (ucast (drop_bit n (of_nat v :: u32)) :: u8) = of_nat (v div 2 ^ n)"
proof (rule unsigned_word_eqI)
  assume "v < 2 ^ 32"
  then have "unat (of_nat v :: u32) = v" by (simp only: unat_of_nat take_bit_eq_mod) simp
  then show "unat (ucast (drop_bit n (of_nat v :: u32)) :: u8) = unat (of_nat (v div 2 ^ n) :: u8)"
    by (simp only: unsigned_ucast_eq unat_of_nat unat_drop take_bit_eq_mod)
qed

lemma b64_out_eq:
  assumes "v < 2 ^ 24"
  shows "b64_out 3 (of_nat v) = [of_nat (v div 65536), of_nat (v div 256), of_nat v]"
  using assms out_shift [of 0 "of_nat v"] out_shift [of 8 "of_nat v"] out_shift [of 16 "of_nat v"]
    ucast_drop [of v 16] ucast_drop [of v 8] ucast_drop [of v 0]
  by (simp add: numeral_3_eq_3 push_bit_push_bit)

lemma of_nat_byte: "of_nat (x * 256 + unat b) = (b :: u8)"
proof (rule unsigned_word_eqI)
  show "unat (of_nat (x * 256 + unat b) :: u8) = unat b"
    by (simp only: unat_of_nat take_bit_eq_mod) (simp add: byte_less)
qed

lemma b64_out_bytes:
  "b64_out 3 (of_nat (unat a * 65536 + unat b * 256 + unat c)) = [a, b, c]"
proof -
  let ?v = "unat a * 65536 + unat b * 256 + unat c"
  have "?v div 65536 = unat a" using byte_less [of b] byte_less [of c] by simp
  moreover have "?v div 256 = unat a * 256 + unat b" using byte_less [of c] by simp
  moreover have "?v = (unat a * 256 + unat b) * 256 + unat c" by simp
  ultimately show ?thesis
    using b64_out_eq [OF group_less [of a b c]] of_nat_byte [of 0 a] by (simp only: of_nat_byte) simp
qed

lemma b64_parse_pads:
  "b64_parse (j + n) (of_nat x) (replicate j (CHR ''='') @ p) = b64_parse n (of_nat (x * 64 ^ j)) p"
proof (induction j arbitrary: x)
  case (Suc j)
  have "x * 64 * 64 ^ j = x * 64 ^ Suc j" by simp
  with Suc show ?case
    using b64_parse_pad [of "j + n" x] by (simp only: replicate_Suc append_Cons add_Suc)
qed simp

lemma b64_parse_group:
  assumes "k \<le> 4" "v < 64 ^ k"
  shows "b64_parse 4 0 (digits64 k v @ replicate (4 - k) (CHR ''='') @ rest) = Some (of_nat (v * 64 ^ (4 - k)), rest)"
  using b64_parse_digits [of k "4 - k" 0 v "replicate (4 - k) (CHR ''='') @ rest"]
    b64_parse_pads [of "4 - k" 0 v rest] assms by (simp del: of_nat_mult)

text \<open>The number of \<open>=\<close> at the end of the text of \<open>n\<close> bytes.\<close>

definition pad64 :: "nat \<Rightarrow> nat" where
  "pad64 n = (n + 2) div 3 * 3 - n"

lemma pad64_simps [simp]: "pad64 0 = 0" "pad64 (Suc 0) = 2" "pad64 (Suc (Suc 0)) = 1"
  "pad64 (Suc (Suc (Suc n))) = pad64 n"
  unfolding pad64_def by presburger+

lemma pad64_le: "pad64 n \<le> 2"
  unfolding pad64_def by presburger

lemma b64_loop_base64: "b64_loop (base64 p @ rest) (length (base64 p)) =
   Some (p @ replicate (pad64 (length p)) 0)"
proof (induction p rule: base64.induct)
  case (2 a)
  have "b64_parse 4 0 (base64 [a] @ rest) = Some (of_nat (unat a * 16 * 64 ^ 2), rest)"
    using b64_parse_group [of 2 "unat a * 16" rest] byte_less [of a] by (simp add: numeral_2_eq_2)
  with b64_out_bytes [of a 0 0] show ?case by (simp add: b64_loop.simps mult.commute numeral_2_eq_2)
next
  case (3 a b)
  have "b64_parse 4 0 (base64 [a, b] @ rest) = Some (of_nat ((unat a * 1024 + unat b * 4) * 64), rest)"
    using b64_parse_group [of 3 "unat a * 1024 + unat b * 4" rest] byte_less [of a] byte_less [of b] by simp
  with b64_out_bytes [of a b 0] show ?case by (simp add: b64_loop.simps mult.commute)
next
  case (4 a b c p)
  have "b64_parse 4 0 (base64 (a # b # c # p) @ rest) =
      Some (of_nat (unat a * 65536 + unat b * 256 + unat c), base64 p @ rest)"
    using b64_parse_group [of 4 "unat a * 65536 + unat b * 256 + unat c" "base64 p @ rest"] group_less [of a b c]
    by simp
  with b64_out_bytes [of a b c] 4 show ?case by (simp add: b64_loop.simps [of _ "4 + _"])
qed (simp add: b64_loop.simps)

text \<open>What the validation loop accepts: alphabet characters, then only \<open>=\<close>.\<close>

definition b64_alpha :: "char \<Rightarrow> bool" where
  "b64_alpha c \<longleftrightarrow> c \<in> set (take 64 b64chars)"

lemma b64_alpha_iff: "b64_alpha c \<longleftrightarrow> c \<noteq> NUL \<and> strchr b64chars c \<noteq> None \<and> c \<noteq> CHR ''=''"
proof -
  have s: "set b64chars = insert (CHR ''='') (set (take 64 b64chars))"
    "CHR ''='' \<notin> set (take 64 b64chars)" "NUL \<notin> set (take 64 b64chars)"
    by code_simp+
  then show ?thesis by (cases "c = NUL") (auto simp: b64_alpha_def strchr_None)
qed

lemma strchr_pad: "strchr b64chars (CHR ''='') \<noteq> None"
  by code_simp

lemma b64_check_dead:
  "n \<le> length p \<Longrightarrow> 0 < d \<Longrightarrow>
   b64_check p n d = Some (if \<forall>c \<in> set (take n p). c = CHR ''='' then Some (d + n) else None)"
  by (induction p n d rule: b64_check.induct) (use strchr_pad in \<open>auto simp: Let_def\<close>)

lemma b64_check_eq:
  "n \<le> length p \<Longrightarrow>
   b64_check p n 0 = Some (let body = takeWhile b64_alpha (take n p);
                               tail = dropWhile b64_alpha (take n p) in
                           if \<forall>c \<in> set tail. c = CHR ''='' then Some (length tail) else None)"
proof (induction n arbitrary: p)
  case (Suc n)
  then obtain c q where p: "p = c # q" "n \<le> length q" by (cases p) auto
  show ?case
  proof (cases "b64_alpha c")
    case True
    with Suc.IH [OF p(2)] p show ?thesis using b64_alpha_iff [of c] by (simp add: Let_def)
  next
    case False
    have "b64_check p (Suc n) 0 =
        (if c = CHR ''='' then b64_check q n 1 else Some None)"
      using False p strchr_pad by (auto simp: Let_def b64_alpha_iff)
    moreover have "b64_check q n 1 =
        Some (if \<forall>c \<in> set (take n q). c = CHR ''='' then Some (Suc n) else None)"
      using b64_check_dead [of n q 1] p by simp
    ultimately show ?thesis using False p by (simp add: Let_def)
  qed
qed (simp add: Let_def)

lemma b64_parse_total:
  "\<forall>c \<in> set (take n p). strchr b64chars c \<noteq> None \<Longrightarrow> n \<le> length p \<Longrightarrow>
   \<exists>t. b64_parse n t0 p = Some (t, drop n p)"
  by (induction n t0 p rule: b64_parse.induct) auto

lemma length_b64_out [simp]: "length (b64_out n t) = n"
  by (induction n t rule: b64_out.induct) auto

lemma b64_loop_total:
  "4 dvd n \<Longrightarrow> n \<le> length p \<Longrightarrow> \<forall>c \<in> set (take n p). strchr b64chars c \<noteq> None \<Longrightarrow>
   \<exists>out. b64_loop p n = Some out \<and> length out = n div 4 * 3"
proof (induction n arbitrary: p rule: less_induct)
  case (less n)
  show ?case
  proof (cases "n = 0")
    case False
    with less.prems(1) obtain m where n: "n = 4 + m" "4 dvd m"
      by (metis dvd_imp_le dvd_minus_self gr0I le_add_diff_inverse)
    have sub: "set (take 4 p) \<subseteq> set (take n p)" "set (take m (drop 4 p)) \<subseteq> set (take n p)"
      using n by (auto simp: take_add)
    then obtain t where t: "b64_parse 4 0 p = Some (t, drop 4 p)"
      using b64_parse_total [of 4 p 0] less.prems n by fastforce
    from less.IH [of m "drop 4 p"] less.prems sub n obtain out
      where "b64_loop (drop 4 p) m = Some out" "length out = m div 4 * 3" by fastforce
    with t n show ?thesis by (simp add: b64_loop.simps [of p])
  qed (simp add: b64_loop.simps)
qed

lemma in_set_take_nth: "i < n \<Longrightarrow> i < length s \<Longrightarrow> s ! i \<in> set (take n s)"
  by (metis in_set_conv_nth length_take min_less_iff_conj nth_take)

lemma digits64_alpha: "c \<in> set (digits64 k v) \<Longrightarrow> b64_alpha c"
proof (induction k)
  case (Suc k)
  have "b64chars ! (v div 64 ^ k mod 64) \<in> set (take 64 b64chars)"
    by (rule in_set_take_nth) (simp_all add: b64chars_def)
  with Suc show ?case by (auto simp: b64_alpha_def)
qed simp

lemma base64_shape:
  "\<exists>body. base64 p = body @ replicate (pad64 (length p)) (CHR ''='') \<and> (\<forall>c \<in> set body. b64_alpha c)"
proof (induction p rule: base64.induct)
  case (2 a)
  then show ?case using digits64_alpha by (auto simp: numeral_2_eq_2 simp del: digits64.simps)
next
  case (3 a b)
  then show ?case using digits64_alpha by (auto simp del: digits64.simps)
next
  case (4 a b c p)
  then obtain body where "base64 p = body @ replicate (pad64 (length p)) (CHR ''='')"
    "\<forall>c \<in> set body. b64_alpha c" by blast
  then show ?case using digits64_alpha
    by (intro exI [of _ "digits64 4 (unat a * 65536 + unat b * 256 + unat c) @ body"]) auto
qed (simp add: pad64_def)

lemma b64_check_base64: "b64_check (base64 p @ rest) (length (base64 p)) 0 = Some (Some (pad64 (length p)))"
proof -
  from base64_shape obtain body where b: "base64 p = body @ replicate (pad64 (length p)) (CHR ''='')"
    "\<forall>c \<in> set body. b64_alpha c" by blast
  have "\<not> b64_alpha (CHR ''='')" by (simp add: b64_alpha_iff)
  with b(2) have "dropWhile b64_alpha (body @ replicate (pad64 (length p)) (CHR ''=''))
      = replicate (pad64 (length p)) (CHR ''='')"
    by (simp add: dropWhile_append2)
  with b(1) show ?thesis by (simp add: b64_check_eq)
qed


section \<open>Properties\<close>

text \<open>
  \<open>b64encode\<close> reads exactly \<open>len\<close> bytes and writes their RFC 1421 encoding,
  \<open>((len + 2) / 3) * 4\<close> characters, and a NUL.
\<close>

theorem b64encode_is_base64:
  assumes "len \<le> length p"
  shows "b64encode p len = Some (base64 (take len p) @ [NUL]) \<and>
         length (base64 (take len p)) = (len + 2) div 3 * 4"
  using assms by (simp add: b64encode_eq base64_length)

lemma base64_Ma: "base64 [0x4d, 0x61] = ''TWE=''"
  by (simp add: digits64_234 b64chars_def)

theorem b64encode_is_base64_witness: "b64encode [0x4d, 0x61] 2 = Some (''TWE='' @ [NUL])"
  using b64encode_is_base64 [of 2 "[0x4d, 0x61]"] base64_Ma by simp

text \<open>
  C27.  Base-64 round trip: \<open>b64decode\<close> of an encoded message returns 0, stores the length of
  the message in \<open>*outlen\<close> and writes the message to the start of \<open>out\<close>, which receives
  \<open>(inlen / 4) * 3\<close> bytes.
\<close>

theorem b64decode_b64encode:
  assumes "length p \<le> SIZE_MAX div 4"
  shows "\<exists>s. b64encode p (length p) = Some (s @ [NUL]) \<and>
     b64decode (s @ rest) (length s) =
       Some (0, p @ replicate (length s div 4 * 3 - length p) 0, Some (length p))"
proof (intro exI conjI)
  show "b64encode p (length p) = Some (base64 p @ [NUL])" by (simp add: b64encode_eq)
  have out: "length (base64 p) div 4 * 3 - length p = pad64 (length p)"
    by (simp add: base64_length pad64_def)
  have "length p + pad64 (length p) \<le> SIZE_MAX"
    using assms pad64_le [of "length p"] by (simp add: SIZE_MAX_def)
  moreover have "length (base64 p) mod 4 = 0" by (simp add: base64_length)
  ultimately show "b64decode (base64 p @ rest) (length (base64 p)) =
      Some (0, p @ replicate (length (base64 p) div 4 * 3 - length p) 0, Some (length p))"
    using pad64_le [of "length p"]
    by (simp add: b64decode_def b64_check_base64 b64_loop_base64 out)
qed

theorem b64decode_b64encode_witness:
  "b64decode (''TWE='' @ ''!'') 4 = Some (0, [0x4d, 0x61, 0], Some 2)"
proof -
  have "b64encode [0x4d, 0x61] 2 = Some (''TWE='' @ [NUL])"
    using b64encode_eq [of 2 "[0x4d, 0x61]"] base64_Ma by simp
  moreover have "length [0x4d, 0x61 :: u8] \<le> SIZE_MAX div 4" by (simp add: SIZE_MAX_def)
  ultimately have "b64decode (''TWE='' @ ''!'') (length ''TWE='') = Some (0, [0x4d, 0x61] @
      replicate (length ''TWE='' div 4 * 3 - length [0x4d, 0x61 :: u8]) 0, Some (length [0x4d, 0x61 :: u8]))"
    using b64decode_b64encode [of "[0x4d, 0x61]" "''!''"] by (auto simp: numeral_2_eq_2)
  moreover have "length ''TWE='' = 4" "length [0x4d, 0x61 :: u8] = 2" "4 div 4 * 3 - 2 = (1 :: nat)" by simp_all
  ultimately show ?thesis by (simp only:) simp
qed

text \<open>
  \<open>b64decode\<close> on \<open>inlen\<close> readable characters always returns, and returns 0 exactly when
  \<open>inlen\<close> is a multiple of 4 and the text is alphabet characters followed by at most two \<open>=\<close>;
  it then writes \<open>(inlen / 4) * 3\<close> bytes, of which all but one per \<open>=\<close> count.  Otherwise it
  returns 1 and writes nothing.
\<close>

theorem b64decode_accepts:
  assumes "inlen \<le> length p" "inlen \<le> SIZE_MAX"
  shows "let tail = dropWhile b64_alpha (take inlen p) in
     if inlen mod 4 = 0 \<and> length tail \<le> 2 \<and> (\<forall>c \<in> set tail. c = CHR ''='')
     then \<exists>out. b64decode p inlen = Some (0, out, Some (inlen div 4 * 3 - length tail)) \<and>
            length out = inlen div 4 * 3
     else b64decode p inlen = Some (1, [], None)"
proof -
  define u where "u = take inlen p"
  define tail where "tail = dropWhile b64_alpha u"
  have check: "b64_check p inlen 0 = Some (if \<forall>c \<in> set tail. c = CHR ''='' then Some (length tail) else None)"
    using b64_check_eq [OF assms(1)] by (simp only: Let_def tail_def u_def)
  show ?thesis unfolding u_def [symmetric] tail_def [symmetric] Let_def
  proof (split if_split, intro conjI impI)
    assume ok: "inlen mod 4 = 0 \<and> length tail \<le> 2 \<and> (\<forall>c \<in> set tail. c = CHR ''='')"
    then have mod: "inlen mod 4 = 0" "length tail \<le> 2" and all: "\<forall>c \<in> set tail. c = CHR ''=''" by blast+
    note check' = check [unfolded if_P [OF all]]
    have "b64_alpha c \<or> c \<in> set tail" if "c \<in> set u" for c
      using that set_takeWhileD [of c b64_alpha u] takeWhile_dropWhile_id [of b64_alpha u]
      unfolding tail_def by (metis Un_iff set_append)
    with all have "\<forall>c \<in> set u. strchr b64chars c \<noteq> None"
      using strchr_pad b64_alpha_iff by metis
    with b64_loop_total [of inlen p] mod assms(1) obtain out where
      out: "b64_loop p inlen = Some out" "length out = inlen div 4 * 3" unfolding u_def by auto
    have "length tail \<le> inlen"
      using length_dropWhile_le [of b64_alpha u] assms(1) by (simp add: tail_def u_def)
    then have "length tail \<le> inlen div 4 * 3" using mod by (cases "inlen < 4") auto
    moreover have "inlen div 4 * 3 \<le> SIZE_MAX" using assms(2) by simp
    ultimately show "\<exists>out. b64decode p inlen = Some (0, out, Some (inlen div 4 * 3 - length tail)) \<and>
        length out = inlen div 4 * 3"
      using mod out check' by (simp add: b64decode_def)
  next
    assume bad: "\<not> (inlen mod 4 = 0 \<and> length tail \<le> 2 \<and> (\<forall>c \<in> set tail. c = CHR ''=''))"
    show "b64decode p inlen = Some (1, [], None)"
    proof (cases "\<forall>c \<in> set tail. c = CHR ''=''")
      case True
      with bad have "inlen mod 4 \<noteq> 0 \<or> 2 < length tail" by linarith
      with check [unfolded if_P [OF True]] show ?thesis by (auto simp: b64decode_def)
    next
      case False
      from check [unfolded if_not_P [OF False]] show ?thesis by (simp add: b64decode_def)
    qed
  qed
qed

theorem b64decode_accepts_witness:
  "b64decode ''TW=E'' 4 = Some (1, [], None)"
proof -
  have t: "dropWhile b64_alpha ''TW=E'' = ''=E''" unfolding b64_alpha_def by code_simp
  have "4 \<le> SIZE_MAX" by (simp add: SIZE_MAX_def)
  with b64decode_accepts [of 4 "''TW=E''"] t show ?thesis by simp
qed

end
