(* ===== verification/Humansize.thy ===== *)
theory Humansize
  imports C_String
begin

text \<open>
  Sizes for humans, from \<open>util/humansize.c\<close>.  A \<open>uint64_t\<close> is a natural number; the products are
  taken modulo \<open>2 ^ 64\<close>.
\<close>

section \<open>Definitions\<close>

fun hs_loop :: "nat \<Rightarrow> nat \<Rightarrow> nat \<times> nat" where
  "hs_loop sz shiftcnt =
     (if sz \<ge> 10000 then hs_loop (sz div 1000) (shiftcnt + 1) else (sz, shiftcnt))"

declare hs_loop.simps [simp del]

text \<open>
  \<open>ok\<close> is whether \<open>asprintf\<close> finds memory.  The outer option is the fault of an access outside
  of \<open>" kMGTPE"\<close> (seven characters and a NUL), the inner one is NULL.
\<close>

definition humansize :: "bool \<Rightarrow> nat \<Rightarrow> string option option" where
  "humansize ok sz =
     (if sz < 1000 then Some (if ok then Some (dec sz @ '' B'') else None)
      else let (sz, shiftcnt) = hs_loop (sz div 100) 1;
               prefixes = '' kMGTPE'' @ [NUL] in
        if shiftcnt < length prefixes then
          let prefix = prefixes ! shiftcnt in
          Some (if \<not> ok then None
                else if sz < 100
                then Some (dec (sz div 10) @ ''.'' @ dec (sz mod 10) @ '' '' @ [prefix] @ ''B'')
                else Some (dec (sz div 10) @ '' '' @ [prefix] @ ''B''))
        else None)"

text \<open>
  The switch of \<open>humansize_parse\<close>, from its last case to its first, so that a fall through is a
  call of the case that follows.  The state is the state number, \<open>*size\<close> and the multiplier.
\<close>

type_synonym hp_state = "int \<times> nat \<times> nat"

definition hp_case5 :: "char \<Rightarrow> nat \<Rightarrow> nat \<Rightarrow> hp_state" where
  "hp_case5 c sz mult = (-1, sz, mult)"

definition hp_case4 :: "char \<Rightarrow> nat \<Rightarrow> nat \<Rightarrow> hp_state" where
  "hp_case4 c sz mult = (if c = CHR ''B'' then (5, sz, mult) else hp_case5 c sz mult)"

definition hp_prefix :: "char \<Rightarrow> nat \<Rightarrow> nat" where
  "hp_prefix c mult =
     (let k = (\<lambda>m. szmul m 1000);
          M = (\<lambda>m. k (szmul m 1000));
          G = (\<lambda>m. M (szmul m 1000));
          T = (\<lambda>m. G (szmul m 1000));
          P = (\<lambda>m. T (szmul m 1000));
          E = (\<lambda>m. P (szmul m 1000)) in
      if c = CHR ''E'' then E mult
      else if c = CHR ''P'' then P mult
      else if c = CHR ''T'' then T mult
      else if c = CHR ''G'' then G mult
      else if c = CHR ''M'' then M mult
      else if c = CHR ''k'' then k mult
      else mult)"

definition hp_case3 :: "char \<Rightarrow> nat \<Rightarrow> nat \<Rightarrow> hp_state" where
  "hp_case3 c sz mult =
     (let mult' = hp_prefix c mult in
      if mult' \<noteq> 1 then (4, sz, mult') else hp_case4 c sz mult')"

definition hp_case2 :: "char \<Rightarrow> nat \<Rightarrow> nat \<Rightarrow> hp_state" where
  "hp_case2 c sz mult = (if c = CHR '' '' then (3, sz, mult) else hp_case3 c sz mult)"

definition hp_case1 :: "char \<Rightarrow> nat \<Rightarrow> nat \<Rightarrow> hp_state" where
  "hp_case1 c sz mult =
     (if isdigit c then
        let (state, sz) = (if sz > SIZE_MAX div 10 then (-1, sz) else (1, szmul sz 10));
            (state, sz) = (if sz > SIZE_MAX - digit_val c then (-1, sz)
                             else (state, szadd sz (digit_val c)))
        in (state, sz, mult)
      else hp_case2 c sz mult)"

definition hp_case0 :: "char \<Rightarrow> nat \<Rightarrow> nat \<Rightarrow> hp_state" where
  "hp_case0 c sz mult = (if \<not> isdigit c then (-1, 0, mult) else hp_case1 c 0 mult)"

fun hp_step :: "char \<Rightarrow> hp_state \<Rightarrow> hp_state" where
  "hp_step c (state, sz, mult) =
     (if state = 0 then hp_case0 c sz mult
      else if state = 1 then hp_case1 c sz mult
      else if state = 2 then hp_case2 c sz mult
      else if state = 3 then hp_case3 c sz mult
      else if state = 4 then hp_case4 c sz mult
      else if state = 5 then hp_case5 c sz mult
      else (state, sz, mult))"

fun hp_loop :: "string \<Rightarrow> hp_state \<Rightarrow> hp_state option" where
  "hp_loop [] st = None"
| "hp_loop (c # p) st =
     (let st' = hp_step c st in
      if fst st' = -1 then Some st'
      else case p of [] \<Rightarrow> None
        | d # _ \<Rightarrow> if d = NUL then Some st' else hp_loop p st')"

text \<open>The return code and \<open>*size\<close>, whose value before the call is \<open>size0\<close>.\<close>

definition humansize_parse :: "string \<Rightarrow> nat \<Rightarrow> (int \<times> nat) option" where
  "humansize_parse s size0 = do {
     (state, sz, mult) \<leftarrow> hp_loop s (0, size0, 1);
     (let (state, sz) = (if sz > SIZE_MAX div mult then (-1, sz) else (state, szmul sz mult))
      in Some (if state = -1 then -1 else 0, sz))
   }"


section \<open>Printing\<close>

text \<open>
  The texts of the documentation with the sizes they stand for: \<open>N B\<close> with \<open>N \<le> 999\<close>, and for a
  prefix of value \<open>1000 ^ k\<close> either \<open>X\<close> from 10 to 999 or tenths from 1.0 to 9.9.
\<close>

definition shows_bytes :: "string \<Rightarrow> nat \<Rightarrow> bool" where
  "shows_bytes s v \<longleftrightarrow> v \<le> 999 \<and> s = dec v @ '' B''"

definition shows_tenths :: "nat \<Rightarrow> string \<Rightarrow> nat \<Rightarrow> bool" where
  "shows_tenths k s v \<longleftrightarrow> (\<exists>t. 10 \<le> t \<and> t \<le> 99 \<and> v = t * (100 * 1000 ^ (k - 1)) \<and>
     s = dec (t div 10) @ ''.'' @ dec (t mod 10) @ '' '' @ ['' kMGTPE'' ! k] @ ''B'')"

definition shows_units :: "nat \<Rightarrow> string \<Rightarrow> nat \<Rightarrow> bool" where
  "shows_units k s v \<longleftrightarrow> (\<exists>x. 10 \<le> x \<and> x \<le> 999 \<and> v = x * 1000 ^ k \<and>
     s = dec x @ '' '' @ ['' kMGTPE'' ! k] @ ''B'')"

definition shows_size :: "string \<Rightarrow> nat \<Rightarrow> bool" where
  "shows_size s v \<longleftrightarrow> shows_bytes s v \<or> (\<exists>k \<in> {1..6}. shows_tenths k s v \<or> shows_units k s v)"

lemma hs_loop_eq:
  "hs_loop (n div (100 * 1000 ^ i)) (Suc i) = (sz, j) \<Longrightarrow> 10 \<le> n div (100 * 1000 ^ i) \<Longrightarrow>
   \<exists>k. j = Suc k \<and> sz = n div (100 * 1000 ^ k) \<and> 10 \<le> sz \<and> sz < 10000 \<and> i \<le> k"
proof (induction "n div (100 * 1000 ^ i)" "Suc i" arbitrary: i rule: hs_loop.induct)
  case 1
  show ?case
  proof (cases "10000 \<le> n div (100 * 1000 ^ i)")
    case True
    have d: "n div (100 * 1000 ^ i) div 1000 = n div (100 * 1000 ^ Suc i)"
      by (simp add: div_mult2_eq [symmetric] ac_simps)
    moreover have "10 \<le> n div (100 * 1000 ^ i) div 1000" using True by simp
    ultimately show ?thesis
      using 1(1) [OF True, of "Suc i"] 1(2) True hs_loop.simps [of "n div (100 * 1000 ^ i)"]
      by (auto simp: Suc_le_eq)
  next
    case False
    with 1 show ?thesis using hs_loop.simps [of "n div (100 * 1000 ^ i)"] by auto
  qed
qed

lemma multiple_between:
  assumes "m dvd w" "x * m < w" "w < (x + 1) * (m :: nat)"
  shows False
proof -
  from assms(1) obtain y where "w = y * m" by (metis dvdE mult.commute)
  with assms(2,3) show False by (simp only: mult_less_cancel2) simp
qed

lemma pow1000_le: "i \<le> j \<Longrightarrow> (1000 :: nat) ^ i \<le> 1000 ^ j"
  by (rule power_increasing) simp_all

lemma tenths_less:
  assumes "shows_tenths k s v" "1 \<le> k"
  shows "v < 10 * 1000 ^ k" "100 * 1000 ^ (k - 1) dvd v"
proof -
  from assms(2) have k: "(1000 :: nat) ^ k = 1000 * 1000 ^ (k - 1)" by (cases k) auto
  from assms(1) obtain t where t: "t \<le> 99" "v = t * (100 * 1000 ^ (k - 1))" by (auto simp: shows_tenths_def)
  then have "v \<le> 99 * (100 * 1000 ^ (k - 1))" by simp
  with k show "v < 10 * 1000 ^ k" using pow1000_le [of 0 "k - 1", unfolded power_0] by linarith
  from t(2) show "100 * 1000 ^ (k - 1) dvd v" by simp
qed

lemma units_less:
  assumes "shows_units k s v"
  shows "v < 1000 ^ Suc k" "1000 ^ k dvd v"
proof -
  from assms obtain x where x: "x \<le> 999" "v = x * 1000 ^ k" by (auto simp: shows_units_def)
  then have "v \<le> 999 * 1000 ^ k" by simp
  then show "v < 1000 ^ Suc k" using pow1000_le [of 0 k, unfolded power_0] unfolding power_Suc by linarith
  from x(2) show "1000 ^ k dvd v" by simp
qed

lemma shows_size_dvd:
  assumes "shows_size t w" "1 \<le> k" "1000 ^ k \<le> w"
  shows "100 * 1000 ^ (k - 1) dvd w" "10 * 1000 ^ k \<le> w \<Longrightarrow> 1000 ^ k dvd w"
proof -
  have k: "(1000 :: nat) ^ k = 1000 * 1000 ^ (k - 1)" using assms(2) by (cases k) auto
  have "\<not> shows_bytes t w"
    using assms(3) pow1000_le [OF assms(2)] by (auto simp: shows_bytes_def)
  with assms(1) obtain k' where k': "1 \<le> k'" "shows_tenths k' t w \<or> shows_units k' t w"
    by (auto simp: shows_size_def)
  have ge: "k \<le> k'"
  proof (rule ccontr)
    assume "\<not> k \<le> k'"
    then have "(1000 :: nat) ^ Suc k' \<le> 1000 ^ k" by (intro pow1000_le) simp
    with assms(3) k' show False
      using tenths_less(1) [of k' t w] units_less(1) [of k' t w] by auto
  qed
  have u: "100 * 1000 ^ (k - 1) dvd (100 * 1000 ^ (k' - 1) :: nat)" "(1000 :: nat) ^ k dvd 1000 ^ k'"
    using ge by (auto intro!: mult_dvd_mono le_imp_power_dvd)
  have "100 * 1000 ^ (k - 1) dvd (1000 :: nat) ^ k" unfolding k by (intro mult_dvd_mono) simp_all
  with u k' show "100 * 1000 ^ (k - 1) dvd w"
    using tenths_less(2) [of k' t w] units_less(2) [of k' t w] dvd_trans by blast
  assume big: "10 * 1000 ^ k \<le> w"
  show "1000 ^ k dvd w"
  proof (cases "shows_units k' t w")
    case True
    with u(2) show ?thesis using units_less(2) dvd_trans by blast
  next
    case False
    with k' have t: "shows_tenths k' t w" by blast
    with big k'(1) have "k' \<noteq> k" using tenths_less(1) by fastforce
    with ge have "(1000 :: nat) ^ k dvd 100 * 1000 ^ (k' - 1)"
      by (intro dvd_mult le_imp_power_dvd) simp
    with t k'(1) show ?thesis using tenths_less(2) dvd_trans by blast
  qed
qed

lemma hs_prefix_bound:
  assumes "(n :: nat) < 2 ^ 64" "10 \<le> n div (100 * 1000 ^ k)"
  shows "k \<le> 5"
proof (rule ccontr)
  assume "\<not> k \<le> 5"
  then have "(1000 :: nat) ^ 6 \<le> 1000 ^ k" by (intro pow1000_le) simp
  then have "10 * (100 * 1000 ^ 6) \<le> 10 * (100 * (1000 :: nat) ^ k)" by simp
  also have "\<dots> \<le> n" using assms(2) by (simp add: less_eq_div_iff_mult_less_eq)
  finally show False using assms(1) by simp
qed

lemma quotient_bounds: "0 < m \<Longrightarrow> n div m * m \<le> n" "0 < m \<Longrightarrow> n < (n div m + 1) * (m :: nat)"
  by (simp, metis Suc_eq_plus1 dividend_less_div_times mult_Suc add.commute)

lemma largest_tenths:
  assumes "sz = n div (100 * 1000 ^ k)" "10 \<le> sz"
  shows "sz * (100 * 1000 ^ k) \<le> n \<and>
    (\<forall>t w. shows_size t w \<longrightarrow> w \<le> n \<longrightarrow> w \<le> sz * (100 * 1000 ^ k))"
proof (intro conjI allI impI)
  let ?m = "100 * 1000 ^ k :: nat"
  show "sz * ?m \<le> n" using assms(1) quotient_bounds(1) [of ?m n] by simp
  fix t w assume w: "shows_size t w" "w \<le> n"
  show "w \<le> sz * ?m"
  proof (rule ccontr)
    assume "\<not> w \<le> sz * ?m"
    then have less: "sz * ?m < w" by simp
    have "10 * ?m \<le> sz * ?m" using assms(2) by (intro mult_le_mono1)
    with less have "1000 ^ Suc k \<le> w" unfolding power_Suc by linarith
    with w have "?m dvd w" using shows_size_dvd(1) [of t w "Suc k"] by simp
    moreover have "w < (sz + 1) * ?m" using w(2) assms(1) quotient_bounds(2) [of ?m n] by simp
    ultimately show False using less multiple_between by blast
  qed
qed

lemma largest_units:
  assumes "sz = n div (100 * 1000 ^ k)" "\<not> sz < 100" "j = Suc k"
  shows "sz div 10 * 1000 ^ j \<le> n \<and>
    (\<forall>t w. shows_size t w \<longrightarrow> w \<le> n \<longrightarrow> w \<le> sz div 10 * 1000 ^ j)"
proof (intro conjI allI impI)
  let ?m = "1000 ^ j :: nat"
  have x: "sz div 10 = n div ?m" using assms(1,3) by (simp add: div_mult2_eq [symmetric] ac_simps)
  show "sz div 10 * ?m \<le> n" using x quotient_bounds(1) [of ?m n] by simp
  fix t w assume w: "shows_size t w" "w \<le> n"
  show "w \<le> sz div 10 * ?m"
  proof (rule ccontr)
    assume "\<not> w \<le> sz div 10 * ?m"
    then have less: "sz div 10 * ?m < w" by simp
    have "10 * ?m \<le> sz div 10 * ?m" using assms(2) by (intro mult_le_mono1) simp
    with less have "10 * ?m \<le> w" by linarith
    with w assms(3) have "?m dvd w" using shows_size_dvd(2) [of t w j] by simp
    moreover have "w < (sz div 10 + 1) * ?m" using w(2) x quotient_bounds(2) [of ?m n] by simp
    ultimately show False using less multiple_between by blast
  qed
qed

text \<open>
  For every 64-bit size \<open>humansize\<close> reads inside its table of prefixes and, when there is
  memory, returns a text of the documented form whose value is the largest that such a text can
  have without exceeding the size; without memory it returns NULL.
\<close>

theorem humansize_largest:
  assumes "n < 2 ^ 64"
  shows "humansize False n = Some None \<and>
    (\<exists>s v. humansize True n = Some (Some s) \<and> shows_size s v \<and> v \<le> n \<and>
       (\<forall>t w. shows_size t w \<longrightarrow> w \<le> n \<longrightarrow> w \<le> v))"
proof (cases "n < 1000")
  case True
  then show ?thesis by (auto simp: humansize_def shows_size_def shows_bytes_def intro!: exI [of _ n])
next
  case False
  obtain sz j where l: "hs_loop (n div 100) 1 = (sz, j)" by fastforce
  moreover have "10 \<le> n div 100" using False by (simp add: less_eq_div_iff_mult_less_eq)
  ultimately obtain k where k: "j = Suc k" "sz = n div (100 * 1000 ^ k)" "10 \<le> sz" "sz < 10000"
    using hs_loop_eq [of n 0 sz j] by auto
  have "k \<le> 5" using assms k by (intro hs_prefix_bound) simp_all
  then have j: "j \<in> {1..6}" "j < 8" using k(1) by simp_all
  then have p: "('' kMGTPE'' @ [NUL]) ! j = '' kMGTPE'' ! j" by (intro nth_append_left) simp
  show ?thesis
  proof (cases "sz < 100")
    case True
    let ?s = "dec (sz div 10) @ ''.'' @ dec (sz mod 10) @ '' '' @ ['' kMGTPE'' ! j] @ ''B''"
    let ?v = "sz * (100 * 1000 ^ k)"
    have "shows_tenths j ?s ?v" using True k by (auto simp: shows_tenths_def)
    with j have "shows_size ?s ?v" by (auto simp: shows_size_def)
    moreover have "humansize True n = Some (Some ?s)" "humansize False n = Some None"
      using False True l j p [simplified] by (simp_all add: humansize_def)
    ultimately show ?thesis using largest_tenths [OF k(2,3)] by blast
  next
    case False
    let ?s = "dec (sz div 10) @ '' '' @ ['' kMGTPE'' ! j] @ ''B''"
    let ?v = "sz div 10 * 1000 ^ j"
    have "shows_units j ?s ?v" using False k by (auto simp: shows_units_def)
    with j have "shows_size ?s ?v" by (auto simp: shows_size_def)
    moreover have "humansize True n = Some (Some ?s)" "humansize False n = Some None"
      using False \<open>\<not> n < 1000\<close> l j p [simplified] by (simp_all add: humansize_def)
    ultimately show ?thesis using largest_units [OF k(2)] False k(1) by blast
  qed
qed

theorem humansize_largest_witness:
  "\<exists>s v. humansize True 18446744073709551615 = Some (Some s) \<and> shows_size s v \<and> v \<le> 18446744073709551615"
  using humansize_largest [of 18446744073709551615] by auto


section \<open>Parsing\<close>

text \<open>
  The documented syntax \<open>[0-9]+ ?[kMGTPE]?B?\<close> with the size that a text of it stands for.
\<close>

definition si_value :: "string \<Rightarrow> nat" where
  "si_value pf =
     (if pf = ''k'' then 10 ^ 3 else if pf = ''M'' then 10 ^ 6 else if pf = ''G'' then 10 ^ 9
      else if pf = ''T'' then 10 ^ 12 else if pf = ''P'' then 10 ^ 15
      else if pf = ''E'' then 10 ^ 18 else 1)"

definition opt_of :: "string \<Rightarrow> string \<Rightarrow> bool" where
  "opt_of cs s \<longleftrightarrow> s = [] \<or> (\<exists>c \<in> set cs. s = [c])"

definition size_syntax :: "string \<Rightarrow> nat \<Rightarrow> bool" where
  "size_syntax s v \<longleftrightarrow> (\<exists>ds sp pf b. s = ds @ sp @ pf @ b \<and> ds \<noteq> [] \<and> (\<forall>c \<in> set ds. isdigit c) \<and>
     opt_of '' '' sp \<and> opt_of ''kMGTPE'' pf \<and> opt_of ''B'' b \<and> v = digits_from 0 ds * si_value pf)"

fun hp_run :: "string \<Rightarrow> hp_state \<Rightarrow> hp_state" where
  "hp_run [] st = st"
| "hp_run (c # s) st = (let st' = hp_step c st in if fst st' = -1 then st' else hp_run s st')"

lemma hp_loop_run:
  "NUL \<notin> set s \<Longrightarrow> s \<noteq> [] \<Longrightarrow> hp_loop (s @ NUL # rest) st = Some (hp_run s st)"
proof (induction s arbitrary: st)
  case (Cons c s)
  then show ?case by (cases s) (auto simp: Let_def)
qed simp

text \<open>What the end of the function makes of a final state.\<close>

fun hp_value :: "hp_state \<Rightarrow> nat option" where
  "hp_value (state, sz, mult) = (if state = -1 \<or> sz > SIZE_MAX div mult then None else Some (sz * mult))"

lemma run_5: "hp_value (hp_run s (5, sz, m)) = (if s = [] then hp_value (5, sz, m) else None)"
  by (cases s) (auto simp: hp_case5_def)

lemma run_4: "hp_value (hp_run s (4, sz, m)) = (if opt_of ''B'' s then hp_value (4, sz, m) else None)"
proof (cases s)
  case (Cons c t)
  then show ?thesis using run_5 [of t sz m] by (auto simp: hp_case4_def hp_case5_def opt_of_def Let_def)
qed (simp add: opt_of_def)

lemma hp_prefix_eq: "hp_prefix c 1 = si_value [c]"
  by (simp add: hp_prefix_def si_value_def szmul_def Let_def)

lemma si_value_eq_1: "si_value [c] = 1 \<longleftrightarrow> c \<notin> set ''kMGTPE''"
  by (simp add: si_value_def)

lemma si_value_ge: "1 \<le> si_value pf"
  by (simp add: si_value_def)

lemma si_value_Nil [simp]: "si_value [] = 1"
  by (simp add: si_value_def)

lemma opt_of_simps [simp]: "opt_of cs []" "opt_of cs (c # s) \<longleftrightarrow> s = [] \<and> c \<in> set cs"
  by (auto simp: opt_of_def)

lemma hp_value_iff:
  "1 \<le> m \<Longrightarrow> hp_value (state, sz, m) = Some v \<longleftrightarrow> state \<noteq> -1 \<and> v = sz * m \<and> v \<le> SIZE_MAX"
  by (auto simp: div_less_iff_less_mult)

lemma opt_append_split:
  "(\<exists>pf b. c # t = pf @ b \<and> opt_of cs pf \<and> Q pf b) \<longleftrightarrow> (c \<in> set cs \<and> Q [c] t) \<or> Q [] (c # t)"
proof
  assume "\<exists>pf b. c # t = pf @ b \<and> opt_of cs pf \<and> Q pf b"
  then obtain pf b where "c # t = pf @ b" "opt_of cs pf" "Q pf b" by blast
  then show "(c \<in> set cs \<and> Q [c] t) \<or> Q [] (c # t)" by (cases pf) auto
next
  assume "(c \<in> set cs \<and> Q [c] t) \<or> Q [] (c # t)"
  then show "\<exists>pf b. c # t = pf @ b \<and> opt_of cs pf \<and> Q pf b"
    by (metis append_Cons append_Nil opt_of_simps)
qed

lemma run_3:
  "hp_value (hp_run s (3, sz, 1)) = Some v \<longleftrightarrow>
   (\<exists>pf b. s = pf @ b \<and> opt_of ''kMGTPE'' pf \<and> opt_of ''B'' b \<and> v = sz * si_value pf \<and> v \<le> SIZE_MAX)"
proof (cases s)
  case Nil
  then show ?thesis by (auto simp: hp_value_iff simp del: hp_value.simps)
next
  case (Cons c t)
  have split: "(\<exists>pf b. c # t = pf @ b \<and> opt_of ''kMGTPE'' pf \<and> opt_of ''B'' b \<and> v = sz * si_value pf \<and> v \<le> SIZE_MAX) \<longleftrightarrow>
     (c \<in> set ''kMGTPE'' \<and> opt_of ''B'' t \<and> v = sz * si_value [c] \<and> v \<le> SIZE_MAX) \<or>
     (opt_of ''B'' (c # t) \<and> v = sz \<and> v \<le> SIZE_MAX)"
    using opt_append_split [of c t "''kMGTPE''" "\<lambda>pf b. opt_of ''B'' b \<and> v = sz * si_value pf \<and> v \<le> SIZE_MAX"]
    by simp
  show ?thesis
  proof (cases "c \<in> set ''kMGTPE''")
    case True
    then have "si_value [c] \<noteq> 1" using si_value_eq_1 by blast
    then have "hp_run s (3, sz, 1) = hp_run t (4, sz, si_value [c])"
      using Cons by (simp add: hp_case3_def hp_prefix_eq [simplified])
    moreover have "c \<noteq> CHR ''B''" using True by auto
    ultimately show ?thesis
      using True Cons split si_value_ge [of "[c]"] run_4 [of t sz "si_value [c]"]
      by (auto simp: hp_value_iff simp del: hp_value.simps)
  next
    case False
    then have "si_value [c] = 1" using si_value_eq_1 by blast
    then have "hp_run s (3, sz, 1) = hp_run s (4, sz, 1)"
      using Cons by (simp add: hp_case3_def hp_prefix_eq [simplified])
    then show ?thesis
      using False Cons split run_4 [of s sz 1] by (auto simp: hp_value_iff simp del: hp_value.simps hp_run.simps)
  qed
qed

text \<open>What may follow the digits, after a number \<open>sz\<close>.\<close>

definition size_tail :: "string \<Rightarrow> nat \<Rightarrow> nat \<Rightarrow> bool" where
  "size_tail s sz v \<longleftrightarrow> (\<exists>sp r. s = sp @ r \<and> opt_of '' '' sp \<and>
     (\<exists>pf b. r = pf @ b \<and> opt_of ''kMGTPE'' pf \<and> opt_of ''B'' b \<and> v = sz * si_value pf \<and> v \<le> SIZE_MAX))"

lemma tail_first:
  assumes "c # t = pf @ b" "opt_of ''kMGTPE'' pf" "opt_of ''B'' b"
  shows "c \<noteq> CHR '' ''" "\<not> isdigit c"
proof -
  have "c \<in> set ''kMGTPEB''" using assms by (cases pf) auto
  then show "c \<noteq> CHR '' ''" "\<not> isdigit c" by (auto simp: isdigit_def less_eq_char_def)
qed

lemma size_tail_digit: "isdigit c \<Longrightarrow> \<not> size_tail (c # t) sz v"
  unfolding size_tail_def opt_append_split
  by (auto simp: isdigit_def less_eq_char_def dest: tail_first(2))

lemma size_tail_ge: "size_tail s sz v \<Longrightarrow> sz \<le> SIZE_MAX"
  unfolding size_tail_def by (metis le_trans mult_le_mono2 mult.right_neutral si_value_ge)

lemma run_2:
  "\<not> isdigit c \<Longrightarrow> hp_value (hp_run (c # t) (1, sz, 1)) = Some v \<longleftrightarrow> size_tail (c # t) sz v"
proof -
  assume nd: "\<not> isdigit c"
  have "hp_run (c # t) (1, sz, 1) = (if c = CHR '' '' then hp_run t (3, sz, 1) else hp_run (c # t) (3, sz, 1))"
    using nd by (simp add: hp_case1_def hp_case2_def)
  moreover have "hp_value (hp_run (c # t) (3, sz, 1)) \<noteq> Some v" if "c = CHR '' ''"
    using that tail_first(1) unfolding run_3 by blast
  ultimately show ?thesis
    unfolding size_tail_def opt_append_split run_3 [symmetric] by (simp del: hp_run.simps hp_value.simps)
qed

lemma digit_step:
  assumes "isdigit c" "sz \<le> SIZE_MAX"
  shows "hp_step c (1, sz, 1) = (1, sz * 10 + digit_val c, 1) \<and> sz * 10 + digit_val c \<le> SIZE_MAX \<or>
         fst (hp_step c (1, sz, 1)) = -1 \<and> SIZE_MAX < sz * 10 + digit_val c"
proof -
  have "digit_val c \<le> SIZE_MAX" using digit_val_le [OF assms(1)] by (simp add: SIZE_MAX_def)
  then show ?thesis using assms by (auto simp: hp_case1_def Let_def div_less_iff_less_mult not_less)
qed

lemma run_1:
  "sz \<le> SIZE_MAX \<Longrightarrow> hp_value (hp_run s (1, sz, 1)) = Some v \<longleftrightarrow>
   (\<exists>ds r. s = ds @ r \<and> (\<forall>c \<in> set ds. isdigit c) \<and> size_tail r (digits_from sz ds) v)"
proof (induction s arbitrary: sz)
  case Nil
  then show ?case by (auto simp: size_tail_def hp_value_iff simp del: hp_value.simps)
next
  case (Cons c t)
  show ?case
  proof (cases "isdigit c")
    case False
    have "(\<exists>ds r. c # t = ds @ r \<and> (\<forall>c \<in> set ds. isdigit c) \<and> size_tail r (digits_from sz ds) v) \<longleftrightarrow>
        size_tail (c # t) sz v"
      using False unfolding digits_split by simp
    with run_2 [OF False] show ?thesis by blast
  next
    case True
    have D: "(\<exists>ds r. c # t = ds @ r \<and> (\<forall>c \<in> set ds. isdigit c) \<and> size_tail r (digits_from sz ds) v) \<longleftrightarrow>
        (\<exists>ds r. t = ds @ r \<and> (\<forall>c \<in> set ds. isdigit c) \<and> size_tail r (digits_from (sz * 10 + digit_val c) ds) v)"
      using True size_tail_digit [OF True] unfolding digits_split by simp
    from digit_step [OF True Cons.prems] show ?thesis
    proof
      assume "hp_step c (1, sz, 1) = (1, sz * 10 + digit_val c, 1) \<and> sz * 10 + digit_val c \<le> SIZE_MAX"
      then show ?thesis using Cons.IH D by (simp del: hp_step.simps)
    next
      assume o: "fst (hp_step c (1, sz, 1)) = -1 \<and> SIZE_MAX < sz * 10 + digit_val c"
      then have "\<not> size_tail r (digits_from (sz * 10 + digit_val c) ds) v" for r ds
        using size_tail_ge [of r "digits_from (sz * 10 + digit_val c) ds" v]
          digits_from_mono [of "sz * 10 + digit_val c" ds] by linarith
      moreover have "hp_value (hp_step c (1, sz, 1)) = None"
        using o by (cases "hp_step c (1, sz, 1)") auto
      ultimately show ?thesis using o D by (simp del: hp_step.simps)
    qed
  qed
qed

lemma run_0:
  "hp_value (hp_run s (0, sz, 1)) = Some v \<longleftrightarrow> size_syntax s v \<and> v \<le> SIZE_MAX" if "s \<noteq> []"
proof -
  from that obtain c t where s: "s = c # t" by (cases s) auto
  have syn: "size_syntax s v \<and> v \<le> SIZE_MAX \<longleftrightarrow>
      (\<exists>ds r. s = ds @ r \<and> (\<forall>c \<in> set ds. isdigit c) \<and> ds \<noteq> [] \<and> size_tail r (digits_from 0 ds) v)"
    unfolding size_syntax_def size_tail_def by blast
  show ?thesis
  proof (cases "isdigit c")
    case True
    then have "hp_run s (0, sz, 1) = hp_run s (1, 0, 1)" using s by (simp add: hp_case0_def)
    moreover have "ds \<noteq> []" if "s = ds @ r" "size_tail r (digits_from 0 ds) v" for ds r
      using that s size_tail_digit [OF True] by auto
    ultimately show ?thesis using run_1 [OF le0, of s v] syn by (metis (no_types, lifting))
  next
    case False
    then have "hp_value (hp_run s (0, sz, 1)) = None" using s by (simp add: hp_case0_def)
    moreover have "\<not> (\<exists>ds r. s = ds @ r \<and> (\<forall>c \<in> set ds. isdigit c) \<and> ds \<noteq> [] \<and> size_tail r (digits_from 0 ds) v)"
      using False s by (auto simp: Cons_eq_append_conv)
    ultimately show ?thesis using syn by simp
  qed
qed

text \<open>
  C31.  \<open>humansize_parse\<close> on any NUL-terminated string returns without reading past the NUL.  It
  returns 0 exactly when the string matches \<open>[0-9]+ ?[kMGTPE]?B?\<close> and its size fits in 64
  bits, and then stores that size; otherwise it returns -1.
\<close>

theorem humansize_parse_accepts:
  assumes "NUL \<notin> set s"
  shows "\<exists>rc sz. humansize_parse (s @ NUL # rest) size0 = Some (rc, sz) \<and>
           (rc = 0 \<and> size_syntax s sz \<and> sz \<le> SIZE_MAX \<or>
            rc = -1 \<and> \<not> (\<exists>v. size_syntax s v \<and> v \<le> SIZE_MAX))"
proof (cases "s = []")
  case True
  then have "\<not> size_syntax s v" for v by (auto simp: size_syntax_def)
  then show ?thesis
    using True by (simp add: humansize_parse_def hp_case0_def isdigit_def less_eq_char_def)
next
  case False
  obtain st sz m where run: "hp_run s (0, size0, 1) = (st, sz, m)" by (metis prod_cases3)
  with hp_loop_run [OF assms False, of rest "(0, size0, 1)"]
  have p: "humansize_parse (s @ NUL # rest) size0 =
      Some (if SIZE_MAX div m < sz then (-1, sz) else (if st = -1 then -1 else 0, szmul sz m))"
    by (simp add: humansize_parse_def)
  have v: "(hp_value (st, sz, m) = Some v) = (size_syntax s v \<and> v \<le> SIZE_MAX)" for v
    using run_0 [OF False, of size0 v] run by simp
  show ?thesis
  proof (cases "hp_value (st, sz, m)")
    case None
    with v have "\<not> (\<exists>v. size_syntax s v \<and> v \<le> SIZE_MAX)" by simp
    with None p show ?thesis by (auto split: if_splits)
  next
    case (Some w)
    with v have w: "size_syntax s w" "w \<le> SIZE_MAX" by simp_all
    from Some have "w = sz * m" "st \<noteq> -1" "\<not> SIZE_MAX div m < sz" by (auto split: if_splits)
    with p w show ?thesis by auto
  qed
qed

theorem humansize_parse_accepts_witness:
  "humansize_parse (''12 kB'' @ [NUL]) 7 = Some (0, 12000) \<and> size_syntax ''12 kB'' 12000"
proof -
  have "humansize_parse (''12 kB'' @ [NUL]) 7 = Some (0, 12000)"
    by (simp add: humansize_parse_def hp_case0_def hp_case1_def hp_case2_def hp_case3_def hp_case4_def
        hp_prefix_def isdigit_def less_eq_char_def digit_val_def szmul_def szadd_def SIZE_MAX_def)
  with humansize_parse_accepts [of "''12 kB''" "[]" 7] show ?thesis by auto
qed

end
