(* ===== verification/Json.thy ===== *)
theory Json
  imports C_String "HOL-Library.Sublist"
begin

text \<open>
  The search in a JSON object of \<open>util/json.c\<close>.  A pointer into the buffer is the part of the
  buffer from there to its end, so that \<open>buf == end\<close> is \<open>buf = []\<close> and \<open>end - buf\<close> is its length.
  A read at or past the end, and an advance past it, are faults, so that every test of the length in
  the code is needed for the result to be \<open>Some\<close>.  The recursion through arrays and objects has
  fuel, with \<open>None\<close> when there is not enough; \<open>json_find\<close> starts it with enough.
\<close>

section \<open>Definitions\<close>

abbreviation QUOTE :: char where "QUOTE \<equiv> CHR 0x22"
abbreviation BACKSLASH :: char where "BACKSLASH \<equiv> CHR 0x5C"

text \<open>\<open>buf[0]\<close>, \<open>*buf++\<close>, \<open>buf += n\<close> and \<open>memcmp(buf, lit, strlen(lit)) == 0\<close>.\<close>

definition rd :: "string \<Rightarrow> char option" where
  "rd buf = (case buf of [] \<Rightarrow> None | c # _ \<Rightarrow> Some c)"

definition adv :: "nat \<Rightarrow> string \<Rightarrow> string option" where
  "adv n buf = (if n \<le> length buf then Some (drop n buf) else None)"

definition getc :: "string \<Rightarrow> (char \<times> string) option" where
  "getc buf = do { c \<leftarrow> rd buf; buf \<leftarrow> adv 1 buf; Some (c, buf) }"

definition memeq :: "string \<Rightarrow> string \<Rightarrow> bool option" where
  "memeq buf lit = (if length lit \<le> length buf then Some (take (length lit) buf = lit) else None)"

lemma rd_simps [simp]: "rd [] = None" "rd (c # buf) = Some c"
  by (simp_all add: rd_def)

lemma getc_simps [simp]: "getc [] = None" "getc (c # buf) = Some (c, buf)"
  by (simp_all add: getc_def adv_def)

lemma adv_Cons [simp]: "adv 1 (c # buf) = Some buf" "adv (Suc 0) (c # buf) = Some buf"
  by (simp_all add: adv_def)

lemma adv_less: "adv n buf = Some b \<Longrightarrow> 0 < n \<Longrightarrow> buf \<noteq> [] \<Longrightarrow> length b < length buf"
  by (auto simp: adv_def split: if_splits)

lemma adv_le: "adv n buf = Some b \<Longrightarrow> length b \<le> length buf"
  by (auto simp: adv_def split: if_splits)

lemma getc_less: "getc buf = Some (c, b) \<Longrightarrow> length b < length buf"
  by (cases buf) auto

function skip_ws :: "string \<Rightarrow> string option" where
  "skip_ws buf =
     (if buf \<noteq> [] then do {
        c \<leftarrow> rd buf;
        if c \<noteq> CHR 0x09 \<and> c \<noteq> CHR 0x0A \<and> c \<noteq> CHR 0x0D \<and> c \<noteq> CHR 0x20 then Some buf
        else do { buf \<leftarrow> adv 1 buf; skip_ws buf }
      }
      else Some buf)"
  by pat_completeness auto
termination by (relation "measure length") (auto dest: adv_less)

definition is_literal :: "string \<Rightarrow> string \<Rightarrow> bool option" where
  "is_literal buf lit = (if length buf \<ge> length lit then memeq buf lit else Some False)"

definition skip_literal :: "string \<Rightarrow> string option" where
  "skip_literal buf = do {
     f \<leftarrow> is_literal buf ''false'';
     if f then adv 5 buf else do {
       n \<leftarrow> is_literal buf ''null'';
       if n then adv 4 buf else do {
         t \<leftarrow> is_literal buf ''true'';
         if t then adv 4 buf else Some [] } } }"

function skip_string_loop :: "string \<Rightarrow> string option" where
  "skip_string_loop buf =
     (if buf \<noteq> [] then do {
        (ch, buf) \<leftarrow> getc buf;
        if ch = QUOTE then Some buf
        else if ch = BACKSLASH then
          if buf = [] then Some buf
          else do {
            (ch, buf) \<leftarrow> getc buf;
            if ch = CHR ''u'' then
              if length buf < 4 then Some buf
              else do { buf \<leftarrow> adv 4 buf; skip_string_loop buf }
            else skip_string_loop buf
          }
        else skip_string_loop buf
      }
      else Some buf)"
  by pat_completeness auto
termination by (relation "measure length") (auto dest!: getc_less adv_le)

definition skip_string :: "string \<Rightarrow> string option" where
  "skip_string buf = do { buf \<leftarrow> adv 1 buf; skip_string_loop buf }"

definition numchars :: string where
  "numchars = ''+-0123456789.eE''"

function skip_number :: "string \<Rightarrow> string option" where
  "skip_number buf =
     (if buf \<noteq> [] then do {
        c \<leftarrow> rd buf;
        if c = NUL \<or> strchr numchars c = None then Some buf
        else do { buf \<leftarrow> adv 1 buf; skip_number buf }
      }
      else Some buf)"
  by pat_completeness auto
termination by (relation "measure length") (auto dest: adv_less)

fun skip_value :: "nat \<Rightarrow> string \<Rightarrow> string option"
  and skip_array :: "nat \<Rightarrow> string \<Rightarrow> string option"
  and array_loop :: "nat \<Rightarrow> string \<Rightarrow> string option"
  and skip_object :: "nat \<Rightarrow> string \<Rightarrow> string option"
  and object_loop :: "nat \<Rightarrow> string \<Rightarrow> string option"
where
  "skip_value 0 buf = None"
| "skip_value (Suc n) buf =
     (if buf = [] then Some []
      else do {
        c \<leftarrow> rd buf;
        if c = CHR ''f'' \<or> c = CHR ''n'' \<or> c = CHR ''t'' then skip_literal buf
        else if c = QUOTE then skip_string buf
        else if c = CHR ''['' then skip_array n buf
        else if c = CHR ''{'' then skip_object n buf
        else if c \<noteq> NUL \<and> strchr numchars c \<noteq> None then skip_number buf
        else Some []
      })"
| "skip_array 0 buf = None"
| "skip_array (Suc n) buf = do {
     buf \<leftarrow> adv 1 buf;
     buf \<leftarrow> skip_ws buf;
     if buf = [] then Some []
     else do {
       c \<leftarrow> rd buf;
       if c = CHR '']'' then adv 1 buf else array_loop n buf
     }
   }"
| "array_loop 0 buf = None"
| "array_loop (Suc n) buf = do {
     buf \<leftarrow> skip_value n buf;
     buf \<leftarrow> skip_ws buf;
     if buf = [] then Some []
     else do {
       c \<leftarrow> rd buf;
       if c = CHR '']'' then adv 1 buf
       else do {
         (c, buf) \<leftarrow> getc buf;
         if c \<noteq> CHR '','' then Some []
         else do { buf \<leftarrow> skip_ws buf; array_loop n buf }
       }
     }
   }"
| "skip_object 0 buf = None"
| "skip_object (Suc n) buf = do {
     buf \<leftarrow> adv 1 buf;
     buf \<leftarrow> skip_ws buf;
     if buf = [] then Some []
     else do {
       c \<leftarrow> rd buf;
       if c = CHR ''}'' then adv 1 buf else object_loop n buf
     }
   }"
| "object_loop 0 buf = None"
| "object_loop (Suc n) buf =
     (if buf = [] then Some []
      else do {
        c \<leftarrow> rd buf;
        if c \<noteq> QUOTE then Some []
        else do {
          buf \<leftarrow> skip_string buf;
          buf \<leftarrow> skip_ws buf;
          if buf = [] then Some []
          else do {
            (c, buf) \<leftarrow> getc buf;
            if c \<noteq> CHR '':'' then Some []
            else do {
              buf \<leftarrow> skip_ws buf;
              buf \<leftarrow> skip_value n buf;
              buf \<leftarrow> skip_ws buf;
              if buf = [] then Some []
              else do {
                c \<leftarrow> rd buf;
                if c = CHR ''}'' then adv 1 buf
                else do {
                  (c, buf) \<leftarrow> getc buf;
                  if c \<noteq> CHR '','' then Some []
                  else do { buf \<leftarrow> skip_ws buf; object_loop n buf }
                }
              }
            }
          }
        }
      })"

text \<open>The escapes that stand for one character; \<open>s\<close> is a C string without its NUL.\<close>

definition esc_char :: "char \<Rightarrow> char option" where
  "esc_char e =
     (if e = QUOTE then Some QUOTE
      else if e = BACKSLASH then Some BACKSLASH
      else if e = CHR ''/'' then Some (CHR ''/'')
      else if e = CHR ''b'' then Some (CHR 0x08)
      else if e = CHR ''f'' then Some (CHR 0x0C)
      else if e = CHR ''n'' then Some (CHR 0x0A)
      else if e = CHR ''r'' then Some (CHR 0x0D)
      else if e = CHR ''t'' then Some (CHR 0x09)
      else None)"

definition first_char :: "string \<Rightarrow> char" where
  "first_char s = (case s of [] \<Rightarrow> NUL | c # _ \<Rightarrow> c)"

function match_loop :: "string \<Rightarrow> string \<Rightarrow> bool \<Rightarrow> (bool \<times> string) option" where
  "match_loop buf s foundit =
     (if buf = [] then Some (foundit, [])
      else do {
        (ch, buf) \<leftarrow> getc buf;
        if ch = QUOTE then Some (foundit \<and> first_char s = NUL, buf)
        else if ch = BACKSLASH then
          if buf = [] then Some (foundit, [])
          else do {
            (e, buf) \<leftarrow> getc buf;
            (case esc_char e of
               Some ch \<Rightarrow> match_loop buf (tl s) (foundit \<and> ch = first_char s)
             | None \<Rightarrow>
                 if e = CHR ''u'' then
                   if length buf < 4 then Some (foundit, [])
                   else do { buf \<leftarrow> adv 4 buf; match_loop buf (tl s) False }
                 else Some (False, []))
          }
        else match_loop buf (tl s) (foundit \<and> ch = first_char s)
      })"
  by pat_completeness auto
termination by (relation "measure (\<lambda>(buf, s, f). length buf)") (auto dest!: getc_less adv_le)

declare skip_ws.simps [simp del] skip_string_loop.simps [simp del] skip_number.simps [simp del]
  match_loop.simps [simp del]

definition match_str :: "string \<Rightarrow> string \<Rightarrow> (bool \<times> string) option" where
  "match_str buf s = match_loop buf s True"

text \<open>\<open>SCAN\<close>: \<open>Some None\<close> means that the function returns \<open>end\<close>.\<close>

definition scan :: "char \<Rightarrow> string \<Rightarrow> string option option" where
  "scan ch buf = do {
     buf \<leftarrow> skip_ws buf;
     if buf = [] then Some None
     else do { (c, buf) \<leftarrow> getc buf; Some (if c \<noteq> ch then None else Some buf) }
   }"

fun find_loop :: "nat \<Rightarrow> string \<Rightarrow> string \<Rightarrow> string option" where
  "find_loop 0 buf s = None"
| "find_loop (Suc n) buf s = do {
     r \<leftarrow> scan QUOTE buf;
     (case r of
        None \<Rightarrow> Some []
      | Some buf \<Rightarrow> do {
          (foundit, buf) \<leftarrow> match_str buf s;
          r \<leftarrow> scan (CHR '':'') buf;
          (case r of
             None \<Rightarrow> Some []
           | Some buf \<Rightarrow> do {
               buf \<leftarrow> skip_ws buf;
               if foundit then Some buf
               else do {
                 buf \<leftarrow> skip_value (3 * length buf + 1) buf;
                 r \<leftarrow> scan (CHR '','') buf;
                 (case r of None \<Rightarrow> Some [] | Some buf \<Rightarrow> find_loop n buf s)
               }
             })
        })
   }"

definition json_find :: "string \<Rightarrow> string \<Rightarrow> string option" where
  "json_find buf s = do {
     r \<leftarrow> scan (CHR ''{'') buf;
     (case r of None \<Rightarrow> Some [] | Some buf \<Rightarrow> find_loop (length buf + 1) buf s)
   }"


section \<open>The loops over characters never fault\<close>

text \<open>
  Where each loop stops, as a total function: the tests of the length come before each read.
\<close>

fun ws_end :: "string \<Rightarrow> string" where
  "ws_end [] = []"
| "ws_end (c # buf) =
     (if c \<noteq> CHR 0x09 \<and> c \<noteq> CHR 0x0A \<and> c \<noteq> CHR 0x0D \<and> c \<noteq> CHR 0x20 then c # buf else ws_end buf)"

definition literal_end :: "string \<Rightarrow> string" where
  "literal_end buf =
     (if prefix ''false'' buf then drop 5 buf
      else if prefix ''null'' buf \<or> prefix ''true'' buf then drop 4 buf
      else [])"

fun string_end :: "string \<Rightarrow> string" where
  "string_end [] = []"
| "string_end (ch # buf) =
     (if ch = QUOTE then buf
      else if ch = BACKSLASH then
        (case buf of
           [] \<Rightarrow> []
         | ch # buf \<Rightarrow>
             if ch = CHR ''u'' then (if length buf < 4 then buf else string_end (drop 4 buf))
             else string_end buf)
      else string_end buf)"

definition number_end :: "string \<Rightarrow> string" where
  "number_end buf = dropWhile (\<lambda>c. c \<in> set numchars) buf"

fun match_end :: "string \<Rightarrow> string \<Rightarrow> bool \<Rightarrow> bool \<times> string" where
  "match_end [] s foundit = (foundit, [])"
| "match_end (ch # buf) s foundit =
     (if ch = QUOTE then (foundit \<and> first_char s = NUL, buf)
      else if ch = BACKSLASH then
        (case buf of
           [] \<Rightarrow> (foundit, [])
         | e # buf \<Rightarrow>
             (case esc_char e of
                Some ch \<Rightarrow> match_end buf (tl s) (foundit \<and> ch = first_char s)
              | None \<Rightarrow>
                  if e = CHR ''u'' then
                    (if length buf < 4 then (foundit, []) else match_end (drop 4 buf) (tl s) False)
                  else (False, [])))
      else match_end buf (tl s) (foundit \<and> ch = first_char s))"

definition scan_end :: "char \<Rightarrow> string \<Rightarrow> string option" where
  "scan_end ch buf = (case ws_end buf of [] \<Rightarrow> None | c # rest \<Rightarrow> if c \<noteq> ch then None else Some rest)"

lemma skip_ws_eq [simp]: "skip_ws buf = Some (ws_end buf)"
  by (induction buf) (subst skip_ws.simps, simp)+

lemma is_literal_eq [simp]: "is_literal buf lit = Some (prefix lit buf)"
proof -
  have "take (length lit) buf = lit \<longleftrightarrow> prefix lit buf"
    by (metis append_eq_conv_conj prefix_def take_is_prefix)
  then show ?thesis by (auto simp: is_literal_def memeq_def dest: prefix_length_le)
qed

lemma skip_literal_eq [simp]: "skip_literal buf = Some (literal_end buf)"
  by (auto simp: skip_literal_def literal_end_def adv_def dest!: prefix_length_le)

lemma skip_string_loop_eq [simp]: "skip_string_loop buf = Some (string_end buf)"
proof (induction buf rule: string_end.induct)
  case 1
  show ?case by (subst skip_string_loop.simps) simp
next
  case (2 ch buf)
  show ?case
  proof (cases buf)
    case Nil
    then show ?thesis by (subst skip_string_loop.simps) (simp add: skip_string_loop.simps [of "[]"])
  next
    case (Cons e b)
    have eq: "skip_string_loop (ch # e # b) =
      (if ch = QUOTE then Some (e # b)
       else if ch = BACKSLASH then
         if e = CHR ''u'' then if length b < 4 then Some b else skip_string_loop (drop 4 b) else skip_string_loop b
       else skip_string_loop (e # b))"
      by (subst skip_string_loop.simps) (simp add: adv_def)
    show ?thesis unfolding Cons eq using 2 Cons by simp
  qed
qed

lemma numchars_strchr: "c \<noteq> NUL \<and> strchr numchars c \<noteq> None \<longleftrightarrow> c \<in> set numchars"
proof -
  have "NUL \<notin> set numchars" by (simp add: numchars_def)
  then show ?thesis using strchr_None [of c numchars] by auto
qed

lemma skip_number_eq [simp]: "skip_number buf = Some (number_end buf)"
proof (induction buf)
  case (Cons c buf)
  then show ?case using numchars_strchr [of c] by (subst skip_number.simps) (auto simp: number_end_def)
qed (subst skip_number.simps, simp add: number_end_def)

lemma match_loop_eq [simp]: "match_loop buf s f = Some (match_end buf s f)"
proof (induction buf s f rule: match_end.induct)
  case (1 s f)
  show ?case by (subst match_loop.simps) simp
next
  case (2 ch buf s f)
  show ?case
  proof (cases buf)
    case Nil
    then show ?thesis by (subst match_loop.simps) (simp add: match_loop.simps [of "[]"])
  next
    case (Cons e b)
    have eq: "match_loop (ch # e # b) s f =
      (if ch = QUOTE then Some (f \<and> first_char s = NUL, e # b)
       else if ch = BACKSLASH then
         (case esc_char e of
            Some c \<Rightarrow> match_loop b (tl s) (f \<and> c = first_char s)
          | None \<Rightarrow>
              if e = CHR ''u'' then if length b < 4 then Some (f, []) else match_loop (drop 4 b) (tl s) False
              else Some (False, []))
       else match_loop (e # b) (tl s) (f \<and> ch = first_char s))"
      by (subst match_loop.simps) (simp add: adv_def split: option.split)
    show ?thesis unfolding Cons eq using 2 Cons by (simp split: option.split)
  qed
qed

lemma scan_eq [simp]: "scan ch buf = Some (scan_end ch buf)"
  by (auto simp: scan_def scan_end_def split: list.split)

text \<open>The recursive functions, written with these.\<close>

lemma skip_value_Suc:
  "skip_value (Suc n) buf =
     (case buf of
        [] \<Rightarrow> Some []
      | c # b \<Rightarrow>
          if c = CHR ''f'' \<or> c = CHR ''n'' \<or> c = CHR ''t'' then Some (literal_end buf)
          else if c = QUOTE then Some (string_end b)
          else if c = CHR ''['' then skip_array n buf
          else if c = CHR ''{'' then skip_object n buf
          else if c \<in> set numchars then Some (number_end buf)
          else Some [])"
  using numchars_strchr by (auto simp: skip_string_def split: list.split)

lemma skip_array_Suc:
  "skip_array (Suc n) (c # buf) =
     (case ws_end buf of
        [] \<Rightarrow> Some []
      | c # rest \<Rightarrow> if c = CHR '']'' then Some rest else array_loop n (c # rest))"
  by (auto split: list.split)

lemma array_loop_Suc:
  "array_loop (Suc n) buf = do {
     buf \<leftarrow> skip_value n buf;
     (case ws_end buf of
        [] \<Rightarrow> Some []
      | c # rest \<Rightarrow>
          if c = CHR '']'' then Some rest
          else if c \<noteq> CHR '','' then Some []
          else array_loop n (ws_end rest)) }"
  by (cases "skip_value n buf") (auto split: list.split)

lemma skip_object_Suc:
  "skip_object (Suc n) (c # buf) =
     (case ws_end buf of
        [] \<Rightarrow> Some []
      | c # rest \<Rightarrow> if c = CHR ''}'' then Some rest else object_loop n (c # rest))"
  by (auto split: list.split)

lemma object_loop_Suc:
  "object_loop (Suc n) buf =
     (case buf of
        [] \<Rightarrow> Some []
      | c # b \<Rightarrow>
          if c \<noteq> QUOTE then Some []
          else (case ws_end (string_end b) of
             [] \<Rightarrow> Some []
           | c # rest \<Rightarrow>
               if c \<noteq> CHR '':'' then Some []
               else do {
                 buf \<leftarrow> skip_value n (ws_end rest);
                 (case ws_end buf of
                    [] \<Rightarrow> Some []
                  | c # rest \<Rightarrow>
                      if c = CHR ''}'' then Some rest
                      else if c \<noteq> CHR '','' then Some []
                      else object_loop n (ws_end rest)) }))"
proof -
  have tail: "(do { buf \<leftarrow> skip_ws buf; if buf = [] then Some []
      else do { c \<leftarrow> rd buf; if c = CHR ''}'' then adv 1 buf
        else do { (c, buf) \<leftarrow> getc buf; if c \<noteq> CHR '','' then Some []
          else do { buf \<leftarrow> skip_ws buf; object_loop n buf } } } }) =
     (case ws_end buf of [] \<Rightarrow> Some [] | c # rest \<Rightarrow> if c = CHR ''}'' then Some rest
        else if c \<noteq> CHR '','' then Some [] else object_loop n (ws_end rest))" for buf
    by (auto split: list.split)
  show ?thesis
    unfolding object_loop.simps tail by (auto simp: skip_string_def split: list.split)
qed

lemma find_loop_Suc:
  "find_loop (Suc n) buf s =
     (case scan_end QUOTE buf of
        None \<Rightarrow> Some []
      | Some buf \<Rightarrow>
          (case match_end buf s True of (foundit, buf) \<Rightarrow>
             (case scan_end (CHR '':'') buf of
                None \<Rightarrow> Some []
              | Some buf \<Rightarrow>
                  let buf = ws_end buf in
                  if foundit then Some buf
                  else do {
                    buf \<leftarrow> skip_value (3 * length buf + 1) buf;
                    (case scan_end (CHR '','') buf of None \<Rightarrow> Some [] | Some buf \<Rightarrow> find_loop n buf s)
                  })))"
  by (simp add: match_str_def Let_def split: option.split prod.split)

lemma json_find_eq:
  "json_find buf s =
     (case scan_end (CHR ''{'') buf of None \<Rightarrow> Some [] | Some buf \<Rightarrow> find_loop (length buf + 1) buf s)"
  by (auto simp: json_find_def split: option.split)

declare skip_value.simps(2) [simp del] skip_array.simps(2) [simp del] array_loop.simps(2) [simp del]
  skip_object.simps(2) [simp del] object_loop.simps(2) [simp del] find_loop.simps(2) [simp del]


section \<open>Every pointer stays inside the buffer\<close>

lemma suffix_skip_ws: "suffix (ws_end buf) buf"
  by (induction buf) (auto intro: suffix_ConsI)

lemma skip_ws_length: "length (ws_end buf) \<le> length buf"
  using suffix_skip_ws by (rule suffix_length_le)

lemma skip_ws_Cons: "ws_end buf = c # rest \<Longrightarrow> suffix rest buf \<and> length rest < length buf"
proof -
  assume eq: "ws_end buf = c # rest"
  have "suffix rest (c # rest)" by (simp add: suffix_ConsI)
  then have "suffix rest buf" using suffix_skip_ws [of buf] eq by (metis suffix_order.trans)
  moreover have "length (c # rest) \<le> length buf" using skip_ws_length [of buf] eq by simp
  ultimately show ?thesis by simp
qed

lemma suffix_skip_literal: "suffix (literal_end buf) buf"
  by (simp add: literal_end_def suffix_drop)

lemma suffix_skip_number: "suffix (number_end buf) buf"
  by (simp add: number_end_def suffix_dropWhile)

lemma suffix_two: "suffix r buf \<Longrightarrow> suffix r (x # y # buf)"
  by (intro suffix_ConsI)

lemma suffix_skip_string_loop: "suffix (string_end buf) buf"
proof (induction buf rule: string_end.induct)
  case (2 ch buf)
  show ?case
  proof (cases "ch = BACKSLASH")
    case True
    show ?thesis
    proof (cases buf)
      case (Cons e b)
      have "suffix (string_end (drop 4 b)) (ch # e # b)" if "e = CHR ''u''" "\<not> length b < 4"
        using suffix_order.trans [OF "2.IH"(1) suffix_drop] that True Cons by (simp add: suffix_two)
      moreover have "suffix (string_end b) (ch # e # b)" if "e \<noteq> CHR ''u''"
        using "2.IH"(2) that True Cons by (simp add: suffix_two)
      moreover have "suffix b (ch # e # b)" by (simp add: suffix_two)
      ultimately show ?thesis using True Cons by auto
    qed (use True in simp)
  next
    case False
    then show ?thesis using "2.IH"(3) by (auto intro: suffix_ConsI)
  qed
qed simp

lemma skip_string_Cons: "skip_string (c # buf) = Some (string_end buf)"
  by (simp add: skip_string_def)

text \<open>Enough fuel: three units for each character that is left.\<close>

definition inside :: "string \<Rightarrow> string option \<Rightarrow> bool" where
  "inside buf res \<longleftrightarrow> okp res (\<lambda>r. suffix r buf)"

lemma inside_Some [simp]: "inside buf (Some r) = suffix r buf"
  by (simp add: inside_def)

lemma inside_trans: "inside b res \<Longrightarrow> suffix b buf \<Longrightarrow> inside buf res"
  unfolding inside_def by (erule okp_mono) (rule suffix_order.trans)

lemma inside_bind: "inside buf res \<Longrightarrow> (\<And>r. res = Some r \<Longrightarrow> suffix r buf \<Longrightarrow> inside buf (f r)) \<Longrightarrow> inside buf (Option.bind res f)"
  by (auto simp: inside_def okp_iff)

lemma after_inside:
  assumes "inside buf (skip_value n b0)"
    and "\<And>b c r. skip_value n b0 = Some b \<Longrightarrow> suffix b buf \<Longrightarrow> ws_end b = c # r \<Longrightarrow> c = CHR '','' \<Longrightarrow> inside buf (next_loop (ws_end r))"
  shows "inside buf (do { buf \<leftarrow> skip_value n b0;
      (case ws_end buf of [] \<Rightarrow> Some [] | c # rest \<Rightarrow> if c = close then Some rest
        else if c \<noteq> CHR '','' then Some [] else next_loop (ws_end rest)) })"
  using assms(1)
proof (rule inside_bind)
  fix b assume eqb: "skip_value n b0 = Some b" and b: "suffix b buf"
  show "inside buf (case ws_end b of [] \<Rightarrow> Some [] | c # rest \<Rightarrow> if c = close then Some rest
      else if c \<noteq> CHR '','' then Some [] else next_loop (ws_end rest))"
  proof (cases "ws_end b")
    case (Cons c r)
    then show ?thesis
      using assms(2) [OF eqb b Cons] skip_ws_Cons [OF Cons] suffix_order.trans [OF _ b] by auto
  qed simp
qed

lemma skip_inside:
  "3 * length buf + 1 \<le> n \<Longrightarrow> inside buf (skip_value n buf)"
  "buf \<noteq> [] \<Longrightarrow> 3 * length buf \<le> n \<Longrightarrow> inside buf (skip_array n buf)"
  "3 * length buf + 2 \<le> n \<Longrightarrow> inside buf (array_loop n buf)"
  "buf \<noteq> [] \<Longrightarrow> 3 * length buf \<le> n \<Longrightarrow> inside buf (skip_object n buf)"
  "3 * length buf + 2 \<le> n \<Longrightarrow> inside buf (object_loop n buf)"
proof (induction n arbitrary: buf)
  case (Suc n)
  note IH = Suc.IH
  have next_inside: "inside buf (loop (ws_end r))"
    if loop: "\<And>b. 3 * length b + 2 \<le> n \<Longrightarrow> inside b (loop b)" and r: "suffix r buf" "length r < length buf"
      and n: "3 * length buf + 2 \<le> Suc n" for loop buf r
    using inside_trans [OF loop [of "ws_end r"] suffix_order.trans [OF suffix_skip_ws [of r] r(1)]] r(2) n
      skip_ws_length [of r] by simp
  {
    case 1
    show ?case
    proof (cases buf)
      case (Cons c b)
      then show ?thesis using 1 IH(2,4) [of buf] suffix_skip_literal [of buf] suffix_skip_number [of buf] suffix_skip_string_loop [of b]
        by (auto simp: skip_value_Suc intro: suffix_ConsI)
    qed (simp add: skip_value_Suc)
  next
    case 2
    then obtain c b where buf: "buf = c # b" by (cases buf) auto
    show ?case
    proof (cases "ws_end b")
      case (Cons d r)
      have "suffix (d # r) buf" using suffix_skip_ws [of b] Cons buf by (simp add: suffix_ConsI)
      moreover have "inside (d # r) (array_loop n (d # r))"
        using IH(3) [of "d # r"] Cons 2 skip_ws_length [of b] buf by simp
      ultimately show ?thesis using Cons buf inside_trans by (auto simp: skip_array_Suc suffix_ConsD)
    qed (simp add: buf skip_array_Suc)
  next
    case 3
    have "inside buf (skip_value n buf)" using IH(1) 3 by simp
    then show ?case unfolding array_loop_Suc
    proof (rule after_inside)
      fix b c r assume b: "suffix b buf" and r: "ws_end b = c # r"
      show "inside buf (array_loop n (ws_end r))"
        using skip_ws_Cons [OF r] b suffix_length_le [OF b] 3
        by (intro next_inside [where loop = "array_loop n" and r = r, OF IH(3)]) (auto intro: suffix_order.trans)
    qed
  next
    case 4
    then obtain c b where buf: "buf = c # b" by (cases buf) auto
    show ?case
    proof (cases "ws_end b")
      case (Cons d r)
      have "suffix (d # r) buf" using suffix_skip_ws [of b] Cons buf by (simp add: suffix_ConsI)
      moreover have "inside (d # r) (object_loop n (d # r))"
        using IH(5) [of "d # r"] Cons 4 skip_ws_length [of b] buf by simp
      ultimately show ?thesis using Cons buf inside_trans by (auto simp: skip_object_Suc suffix_ConsD)
    qed (simp add: buf skip_object_Suc)
  next
    case 5
    show ?case
    proof (cases buf)
      case buf: (Cons q b0)
      define b1 where "b1 = string_end b0"
      have b1: "suffix b1 buf" using suffix_skip_string_loop [of b0] by (simp add: b1_def buf suffix_ConsI)
      show ?thesis
      proof (cases "ws_end b1")
        case (Cons d r)
        have r: "suffix (ws_end r) buf" "length (ws_end r) < length buf"
          using skip_ws_Cons [OF Cons] b1 suffix_length_le [OF b1] suffix_skip_ws [of r] skip_ws_length [of r]
          by (auto intro: suffix_order.trans)
        have v: "inside buf (skip_value n (ws_end r))" using IH(1) r 5 by (intro inside_trans [OF _ r(1)]) simp
        have "inside buf (do { buf \<leftarrow> skip_value n (ws_end r);
            (case ws_end buf of [] \<Rightarrow> Some [] | c # rest \<Rightarrow> if c = CHR ''}'' then Some rest
              else if c \<noteq> CHR '','' then Some [] else object_loop n (ws_end rest)) })"
          using v
        proof (rule after_inside)
          fix b c t assume b: "skip_value n (ws_end r) = Some b" "suffix b buf" and t: "ws_end b = c # t"
          show "inside buf (object_loop n (ws_end t))"
            using skip_ws_Cons [OF t] b(2) suffix_length_le [OF b(2)] 5
            by (intro next_inside [where loop = "object_loop n" and r = t, OF IH(5)]) (auto intro: suffix_order.trans)
        qed
        then show ?thesis using Cons by (cases "q = QUOTE") (simp_all add: buf object_loop_Suc b1_def)
      qed (simp add: buf object_loop_Suc b1_def)
    qed (simp add: object_loop_Suc)
  }
qed simp_all


declare skip_value_Suc [simp] skip_array_Suc [simp] array_loop_Suc [simp] skip_object_Suc [simp] object_loop_Suc [simp]
  find_loop_Suc [simp]

lemma suffix_match_loop: "suffix (snd (match_end buf s f)) buf"
proof (induction buf s f rule: match_end.induct)
  case (2 ch buf s f)
  show ?case
  proof (cases "ch = BACKSLASH")
    case True
    show ?thesis
    proof (cases buf)
      case (Cons e b)
      have "suffix (snd (match_end (drop 4 b) (tl s) False)) (ch # e # b)" if "esc_char e = None" "e = CHR ''u''" "\<not> length b < 4"
      proof -
        have "suffix (snd (match_end (drop 4 b) (tl s) False)) (drop 4 b)"
          using "2.IH"(1,2) that True Cons by simp
        then show ?thesis by (rule suffix_two [OF suffix_order.trans]) (rule suffix_drop)
      qed
      moreover have "suffix (snd (match_end b (tl s) (f \<and> c = first_char s))) (ch # e # b)" if "esc_char e = Some c" for c
        using "2.IH"(1,2) that True Cons by (simp add: suffix_two)
      ultimately show ?thesis using True Cons by (auto split: option.split)
    qed (use True in simp)
  next
    case False
    then show ?thesis using "2.IH"(3) by (auto intro: suffix_ConsI)
  qed
qed simp

lemma scan_Some: "scan_end ch buf = Some rest \<Longrightarrow> suffix rest buf \<and> length rest < length buf"
  using skip_ws_Cons by (auto simp: scan_end_def split: list.splits if_splits)

lemma skip_value_inside: "inside buf (skip_value (3 * length buf + 1) buf)"
  by (rule skip_inside(1)) simp

lemma find_loop_inside: "length buf < n \<Longrightarrow> inside buf (find_loop n buf s)"
proof (induction n arbitrary: buf)
  case (Suc n)
  show ?case
  proof (cases "scan_end QUOTE buf")
    case (Some b1)
    obtain foundit b2 where m: "match_end b1 s True = (foundit, b2)" by fastforce
    have b2: "suffix b2 buf" "length b2 < length buf"
      using scan_Some [OF Some] suffix_match_loop [of b1 s True] m
      by (auto dest: suffix_length_le intro: suffix_order.trans)
    show ?thesis
    proof (cases "scan_end (CHR '':'') b2")
      case b3: (Some b3)
      define b4 where "b4 = ws_end b3"
      have b4: "suffix b4 buf" "length b4 < length buf"
        using scan_Some [OF b3] b2 suffix_skip_ws [of b3] skip_ws_length [of b3]
        by (auto simp: b4_def intro: suffix_order.trans)
      have eq: "find_loop (Suc n) buf s = (if foundit then Some b4 else do {
          buf \<leftarrow> skip_value (3 * length b4 + 1) b4;
          (case scan_end (CHR '','') buf of None \<Rightarrow> Some [] | Some buf \<Rightarrow> find_loop n buf s) })"
        using Some m b3 by (simp add: b4_def Let_def)
      have "inside buf (do { buf \<leftarrow> skip_value (3 * length b4 + 1) b4;
          (case scan_end (CHR '','') buf of None \<Rightarrow> Some [] | Some buf \<Rightarrow> find_loop n buf s) })"
      proof (rule inside_bind [OF inside_trans [OF skip_value_inside b4(1)]])
        fix b assume "skip_value (3 * length b4 + 1) b4 = Some b" and "suffix b buf"
        then have b: "suffix b buf" "length b < length buf"
          using skip_value_inside [of b4] b4(2) by (auto dest: suffix_length_le)
        show "inside buf (case scan_end (CHR '','') b of None \<Rightarrow> Some [] | Some buf \<Rightarrow> find_loop n buf s)"
        proof (cases "scan_end (CHR '','') b")
          case (Some r)
          have r: "suffix r buf" "length r < n"
            using scan_Some [OF Some] b Suc.prems by (auto intro: suffix_order.trans)
          then show ?thesis using inside_trans [OF Suc.IH [OF r(2)] r(1)] Some by simp
        qed simp
      qed
      then show ?thesis unfolding eq using b4(1) by simp
    qed (use Some m in simp)
  qed simp
qed simp

text \<open>
  C22. For every buffer and every name, also for text that is not JSON, \<open>json_find\<close> returns,
  reads no byte outside of the buffer, and returns a pointer into the buffer or to its end.
\<close>

theorem json_find_safe: "\<exists>r. json_find buf s = Some r \<and> suffix r buf"
proof (cases "scan_end (CHR ''{'') buf")
  case None
  then show ?thesis by (simp add: json_find_eq)
next
  case (Some b)
  then have "inside buf (find_loop (length b + 1) b s)"
    using inside_trans [OF find_loop_inside [of b "length b + 1" s]] scan_Some [OF Some] by simp
  then show ?thesis using Some by (auto simp: json_find_eq inside_def okp_iff)
qed


section \<open>JSON texts\<close>

text \<open>
  Strings are made of characters, of escapes, and of \<open>\u\<close> with four digits; values carry the white
  space that is around them.  Numbers and the digits of \<open>\u\<close> are more liberal than in JSON.
\<close>

datatype jitem = JChar char | JEsc char | JUni string

datatype json =
    JLit string
  | JNum string
  | JStr "jitem list"
  | JArr string "json_elem list"
  | JObj string "json_member list"
and json_elem = JElem string json string
and json_member = JMember string "jitem list" string json_elem

fun item_text :: "jitem \<Rightarrow> string" where
  "item_text (JChar c) = [c]"
| "item_text (JEsc e) = [BACKSLASH, e]"
| "item_text (JUni ds) = BACKSLASH # CHR ''u'' # ds"

definition string_text :: "jitem list \<Rightarrow> string" where
  "string_text is = QUOTE # concat (map item_text is) @ [QUOTE]"

fun commas :: "string list \<Rightarrow> string" where
  "commas [] = []"
| "commas [x] = x"
| "commas (x # y # xs) = x @ CHR '','' # commas (y # xs)"

fun json_text :: "json \<Rightarrow> string" and elem_text :: "json_elem \<Rightarrow> string" and member_text :: "json_member \<Rightarrow> string" where
  "json_text (JLit t) = t"
| "json_text (JNum t) = t"
| "json_text (JStr is) = string_text is"
| "json_text (JArr w es) = CHR ''['' # (if es = [] then w else commas (map elem_text es)) @ [CHR '']'']"
| "json_text (JObj w ms) = CHR ''{'' # (if ms = [] then w else commas (map member_text ms)) @ [CHR ''}'']"
| "elem_text (JElem w1 v w2) = w1 @ json_text v @ w2"
| "member_text (JMember w1 name w2 e) = w1 @ string_text name @ w2 @ CHR '':'' # elem_text e"

definition is_ws :: "string \<Rightarrow> bool" where
  "is_ws w \<longleftrightarrow> set w \<subseteq> {CHR 0x09, CHR 0x0A, CHR 0x0D, CHR 0x20}"

fun item_ok :: "jitem \<Rightarrow> bool" where
  "item_ok (JChar c) \<longleftrightarrow> c \<noteq> QUOTE \<and> c \<noteq> BACKSLASH \<and> CHR 0x20 \<le> c"
| "item_ok (JEsc e) \<longleftrightarrow> esc_char e \<noteq> None"
| "item_ok (JUni ds) \<longleftrightarrow> length ds = 4"

fun json_ok :: "json \<Rightarrow> bool" and elem_ok :: "json_elem \<Rightarrow> bool" and member_ok :: "json_member \<Rightarrow> bool" where
  "json_ok (JLit t) \<longleftrightarrow> t = ''false'' \<or> t = ''null'' \<or> t = ''true''"
| "json_ok (JNum t) \<longleftrightarrow> t \<noteq> [] \<and> set t \<subseteq> set numchars"
| "json_ok (JStr is) \<longleftrightarrow> list_all item_ok is"
| "json_ok (JArr w es) \<longleftrightarrow> is_ws w \<and> list_all elem_ok es"
| "json_ok (JObj w ms) \<longleftrightarrow> is_ws w \<and> list_all member_ok ms"
| "elem_ok (JElem w1 v w2) \<longleftrightarrow> is_ws w1 \<and> json_ok v \<and> is_ws w2"
| "member_ok (JMember w1 name w2 e) \<longleftrightarrow> is_ws w1 \<and> list_all item_ok name \<and> is_ws w2 \<and> elem_ok e"

lemma skip_ws_append: "is_ws w \<Longrightarrow> ws_end (w @ buf) = ws_end buf"
  by (induction w) (auto simp: is_ws_def)

lemma skip_ws_idem: "ws_end (ws_end buf) = ws_end buf"
  by (induction buf) auto

lemma skip_number_text: "set t \<subseteq> set numchars \<Longrightarrow> rest = [] \<or> hd rest \<notin> set numchars \<Longrightarrow> number_end (t @ rest) = rest"
  by (cases rest) (auto simp: number_end_def dropWhile_append3 subset_iff dropWhile_append)

lemma skip_string_text: "list_all item_ok is \<Longrightarrow> string_end (concat (map item_text is) @ QUOTE # rest) = rest"
proof (induction "is")
  case (Cons i "is")
  have "\<not> CHR 0x20 \<le> NUL" by (simp add: less_eq_char_def)
  then show ?case using Cons
    by (cases i) (auto simp: esc_char_def split: if_splits)
qed simp

lemma match_text:
  "list_all item_ok name \<Longrightarrow> NUL \<notin> set s \<Longrightarrow>
    match_end (concat (map item_text name) @ QUOTE # rest) s f =
    (f \<and> map (\<lambda>i. case i of JChar c \<Rightarrow> Some c | JEsc e \<Rightarrow> esc_char e | JUni ds \<Rightarrow> None) name = map Some s, rest)"
proof (induction name arbitrary: s f)
  case Nil
  then show ?case by (cases s) (auto simp: first_char_def)
next
  case (Cons i name)
  have nul: "NUL \<notin> set (tl s)" using Cons.prems by (cases s) auto
  have low: "\<not> CHR 0x20 \<le> NUL" by (simp add: less_eq_char_def)
  show ?case
  proof (cases i)
    case (JChar c)
    then have "c \<noteq> NUL" "c \<noteq> QUOTE" "c \<noteq> BACKSLASH" using Cons.prems low by auto
    then show ?thesis using Cons JChar nul by (cases s) (auto simp: first_char_def)
  next
    case (JEsc e)
    then obtain c where c: "esc_char e = Some c" using Cons.prems by auto
    then have "c \<noteq> NUL" by (auto simp: esc_char_def split: if_splits)
    then show ?thesis using Cons JEsc c nul by (cases s) (auto simp: first_char_def)
  next
    case (JUni ds)
    have "esc_char (CHR ''u'') = None" by (simp add: esc_char_def)
    then show ?thesis using Cons JUni nul by (cases s) auto
  qed
qed


section \<open>Skipping the text of a value\<close>

definition ends_value :: "string \<Rightarrow> bool" where
  "ends_value rest \<longleftrightarrow> rest = [] \<or> hd rest \<notin> set numchars"

definition skips :: "json \<Rightarrow> bool" where
  "skips v \<longleftrightarrow> (\<forall>rest n. json_ok v \<longrightarrow> ends_value rest \<longrightarrow> 3 * length (json_text v @ rest) + 1 \<le> n \<longrightarrow>
     skip_value n (json_text v @ rest) = Some rest)"

definition skips_elem :: "json_elem \<Rightarrow> bool" where
  "skips_elem e \<longleftrightarrow> (\<forall>d rest n. elem_ok e \<longrightarrow> d \<in> {CHR '','', CHR '']'', CHR ''}''} \<longrightarrow>
     3 * length (ws_end (elem_text e @ d # rest)) + 1 \<le> n \<longrightarrow>
     (\<exists>b. skip_value n (ws_end (elem_text e @ d # rest)) = Some b \<and> ws_end b = d # rest))"

fun member_elem :: "json_member \<Rightarrow> json_elem" where
  "member_elem (JMember w1 name w2 e) = e"

lemma numchars_ends [simp]: "CHR '','' \<notin> set numchars" "CHR '']'' \<notin> set numchars" "CHR ''}'' \<notin> set numchars"
  "CHR 0x09 \<notin> set numchars" "CHR 0x0A \<notin> set numchars" "CHR 0x0D \<notin> set numchars" "CHR 0x20 \<notin> set numchars"
  by (simp_all add: numchars_def)

lemma text_head:
  assumes "json_ok v"
  obtains c t where "json_text v = c # t" "c \<notin> {CHR 0x09, CHR 0x0A, CHR 0x0D, CHR 0x20, CHR '']'', CHR ''}''}"
proof (cases v)
  case (JNum u)
  then obtain c t where u: "u = c # t" "c \<in> set numchars" using assms by (cases u) auto
  then have "c \<notin> {CHR 0x09, CHR 0x0A, CHR 0x0D, CHR 0x20, CHR '']'', CHR ''}''}" using numchars_ends by blast
  then show ?thesis using that JNum u by simp
qed (use assms that in \<open>auto simp: string_text_def\<close>)

lemma skip_ws_value: "json_ok v \<Longrightarrow> ws_end (json_text v @ rest) = json_text v @ rest"
  by (erule text_head [of v]) auto

lemma skip_ws_elem: "elem_ok (JElem w1 v w2) \<Longrightarrow> ws_end (elem_text (JElem w1 v w2) @ rest) = json_text v @ w2 @ rest"
  by (simp add: skip_ws_append skip_ws_value)

lemma skips_elemI: "skips v \<Longrightarrow> skips_elem (JElem w1 v w2)"
  unfolding skips_elem_def
proof (intro allI impI)
  fix d rest n
  assume v: "skips v" and ok: "elem_ok (JElem w1 v w2)" and d: "d \<in> {CHR '','', CHR '']'', CHR ''}''}"
    and n: "3 * length (ws_end (elem_text (JElem w1 v w2) @ d # rest)) + 1 \<le> n"
  have w: "json_ok v" "is_ws w2" using ok by auto
  have "ends_value (w2 @ d # rest)"
    using d w(2) by (cases w2) (auto simp: ends_value_def is_ws_def)
  then have "skip_value n (json_text v @ w2 @ d # rest) = Some (w2 @ d # rest)"
    using v w n skip_ws_elem [OF ok] by (simp add: skips_def)
  moreover have "ws_end (w2 @ d # rest) = d # rest" using d w(2) by (auto simp: skip_ws_append)
  ultimately show "\<exists>b. skip_value n (ws_end (elem_text (JElem w1 v w2) @ d # rest)) = Some b \<and> ws_end b = d # rest"
    using skip_ws_elem [OF ok] by simp
qed

lemma commas_Cons: "commas (x # xs) = x @ (if xs = [] then [] else CHR '','' # commas xs)"
  by (cases xs) auto

lemma array_loop_text:
  "es \<noteq> [] \<Longrightarrow> \<forall>e \<in> set es. skips_elem e \<and> elem_ok e \<Longrightarrow>
    3 * length (ws_end (commas (map elem_text es) @ CHR '']'' # rest)) + 2 \<le> n \<Longrightarrow>
    array_loop n (ws_end (commas (map elem_text es) @ CHR '']'' # rest)) = Some rest"
proof (induction es arbitrary: n)
  case (Cons e es)
  define tail where "tail = (if es = [] then CHR '']'' # rest else CHR '','' # commas (map elem_text es) @ CHR '']'' # rest)"
  obtain d t where d: "tail = d # t" "d \<in> {CHR '','', CHR '']'', CHR ''}''}" by (cases "es = []") (auto simp: tail_def)
  have shape: "commas (map elem_text (e # es)) @ CHR '']'' # rest = elem_text e @ d # t"
    using d(1) by (cases "es = []") (auto simp: commas_Cons tail_def)
  obtain m where m: "n = Suc m" using Cons.prems(3) by (cases n) auto
  have "3 * length (ws_end (elem_text e @ d # t)) + 1 \<le> m" using Cons.prems(3) m by (simp only: shape)
  then obtain b where b: "skip_value m (ws_end (elem_text e @ d # t)) = Some b" "ws_end b = d # t"
    using Cons.prems(2) d(2) unfolding skips_elem_def by (meson list.set_intros(1))
  show ?case
  proof (cases "es = []")
    case True
    then show ?thesis using b d(1) m by (simp only: shape) (simp add: tail_def)
  next
    case False
    have t: "t = commas (map elem_text es) @ CHR '']'' # rest" "d = CHR '',''" using d(1) False by (simp_all add: tail_def)
    have "length (d # t) \<le> length (ws_end (elem_text e @ d # t))"
    proof -
      have "inside (ws_end (elem_text e @ d # t)) (skip_value m (ws_end (elem_text e @ d # t)))"
        using Cons.prems(3) m by (intro skip_inside(1)) (simp only: shape)
      then show ?thesis using b skip_ws_length [of b] by (auto dest: suffix_length_le)
    qed
    then have "3 * length (ws_end t) + 2 \<le> m"
      using Cons.prems(3) m skip_ws_length [of t] by (simp only: shape) simp
    then have "array_loop m (ws_end t) = Some rest" using Cons.IH [of m] Cons.prems(2) False t(1) by simp
    then show ?thesis using b t(2) m by (simp only: shape) simp
  qed
qed simp

lemma skip_string_name:
  "list_all item_ok name \<Longrightarrow> skip_string (string_text name @ rest) = Some rest"
  using skip_string_text [of name rest] by (simp add: string_text_def skip_string_Cons)

lemma object_loop_text:
  "ms \<noteq> [] \<Longrightarrow> \<forall>x \<in> set ms. skips_elem (member_elem x) \<and> member_ok x \<Longrightarrow>
    3 * length (ws_end (commas (map member_text ms) @ CHR ''}'' # rest)) + 2 \<le> n \<Longrightarrow>
    object_loop n (ws_end (commas (map member_text ms) @ CHR ''}'' # rest)) = Some rest"
proof (induction ms arbitrary: n)
  case (Cons x ms)
  obtain w1 name w2 e where x: "x = JMember w1 name w2 e" by (cases x)
  have ok: "is_ws w1" "list_all item_ok name" "is_ws w2" "elem_ok e" "skips_elem e" using Cons.prems(2) x by auto
  define tail where "tail = (if ms = [] then CHR ''}'' # rest else CHR '','' # commas (map member_text ms) @ CHR ''}'' # rest)"
  obtain d t where d: "tail = d # t" "d \<in> {CHR '','', CHR '']'', CHR ''}''}" by (cases "ms = []") (auto simp: tail_def)
  have shape: "ws_end (commas (map member_text (x # ms)) @ CHR ''}'' # rest) = string_text name @ w2 @ CHR '':'' # elem_text e @ d # t"
  proof -
    have "commas (map member_text (x # ms)) @ CHR ''}'' # rest = w1 @ string_text name @ w2 @ CHR '':'' # elem_text e @ d # t"
      using d(1) x by (cases "ms = []") (auto simp: commas_Cons tail_def)
    then show ?thesis using ok(1) by (simp add: skip_ws_append) (simp add: string_text_def)
  qed
  obtain m where m: "n = Suc m" using Cons.prems(3) by (cases n) auto
  let ?e = "ws_end (elem_text e @ d # t)"
  have len: "3 * length ?e + 1 \<le> m"
    using Cons.prems(3) m skip_ws_length [of "elem_text e @ d # t"] unfolding shape by simp
  then obtain b where b: "skip_value m ?e = Some b" "ws_end b = d # t"
    using ok(4, 5) d(2) unfolding skips_elem_def by meson
  have colon: "ws_end (w2 @ CHR '':'' # elem_text e @ d # t) = CHR '':'' # elem_text e @ d # t"
    using ok(3) by (simp add: skip_ws_append)
  have loop: "object_loop n (string_text name @ w2 @ CHR '':'' # elem_text e @ d # t) =
      (if d = CHR ''}'' then Some t else if d \<noteq> CHR '','' then Some [] else object_loop m (ws_end t))"
    using skip_string_name [OF ok(2), of "w2 @ CHR '':'' # elem_text e @ d # t"] b colon m
    by (simp add: string_text_def skip_string_Cons)
  show ?case
  proof (cases "ms = []")
    case True
    then show ?thesis using d(1) unfolding shape loop by (simp add: tail_def)
  next
    case False
    have t: "t = commas (map member_text ms) @ CHR ''}'' # rest" "d = CHR '',''" using d(1) False by (simp_all add: tail_def)
    have "length (d # t) \<le> length ?e"
      using skip_inside(1) [OF len] b skip_ws_length [of b] by (auto dest: suffix_length_le)
    then have "3 * length (ws_end t) + 2 \<le> m" using len skip_ws_length [of t] by simp
    then have "object_loop m (ws_end t) = Some rest" using Cons.IH [of m] Cons.prems(2) False t(1) by simp
    then show ?thesis unfolding shape loop by (simp add: t(2))
  qed
qed simp

lemma elems_head:
  assumes "es \<noteq> []" "list_all elem_ok es"
  obtains c t where "ws_end (commas (map elem_text es) @ rest) = c # t" "c \<noteq> CHR '']''"
proof -
  obtain w1 v w2 es' where e: "es = JElem w1 v w2 # es'" using assms(1) by (metis json_elem.exhaust list.exhaust)
  then have ok: "elem_ok (JElem w1 v w2)" using assms(2) by simp
  then obtain c t where ct: "json_text v = c # t" "c \<noteq> CHR '']''" by (auto elim: text_head)
  have "commas (map elem_text es) @ rest = elem_text (JElem w1 v w2) @ (if es' = [] then [] else CHR '','' # commas (map elem_text es')) @ rest"
    by (simp add: e commas_Cons)
  then show ?thesis using that skip_ws_elem [OF ok] ct by (metis append_Cons)
qed

lemma members_head:
  assumes "ms \<noteq> []" "list_all member_ok ms"
  obtains t where "ws_end (commas (map member_text ms) @ rest) = QUOTE # t"
proof -
  obtain w1 name w2 e ms' where x: "ms = JMember w1 name w2 e # ms'" using assms(1) by (metis json_member.exhaust list.exhaust)
  then have "is_ws w1" using assms(2) by simp
  then show ?thesis using that x by (auto simp: commas_Cons skip_ws_append string_text_def)
qed

lemma skips_all: "skips v" "skips_elem e" "skips_elem (member_elem x)"
proof (induction v and e and x)
  case (JLit t)
  show ?case unfolding skips_def
  proof (intro allI impI)
    fix rest n assume ok: "json_ok (JLit t)" "3 * length (json_text (JLit t) @ rest) + 1 \<le> n"
    obtain m where "n = Suc m" using ok(2) by (cases n) auto
    then show "skip_value n (json_text (JLit t) @ rest) = Some rest" using ok(1) by (auto simp: literal_end_def)
  qed
next
  case (JNum t)
  show ?case unfolding skips_def
  proof (intro allI impI)
    fix rest n assume ok: "json_ok (JNum t)" "ends_value rest" "3 * length (json_text (JNum t) @ rest) + 1 \<le> n"
    obtain c u where t: "t = c # u" "c \<in> set numchars" using ok(1) by (cases t) auto
    obtain m where "n = Suc m" using ok(3) by (cases n) auto
    moreover have "c \<notin> {CHR ''f'', CHR ''n'', CHR ''t'', QUOTE, CHR ''['', CHR ''{''}"
      using t(2) by (auto simp: numchars_def)
    moreover have "number_end (t @ rest) = rest"
      using ok(1, 2) by (intro skip_number_text) (auto simp: ends_value_def)
    ultimately show "skip_value n (json_text (JNum t) @ rest) = Some rest"
      using numchars_strchr [of c] t by (auto simp del: skip_number.simps)
  qed
next
  case (JStr "is")
  show ?case unfolding skips_def
  proof (intro allI impI)
    fix rest n assume ok: "json_ok (JStr is)" "3 * length (json_text (JStr is) @ rest) + 1 \<le> n"
    obtain m where "n = Suc m" using ok(2) by (cases n) auto
    then show "skip_value n (json_text (JStr is) @ rest) = Some rest"
      using skip_string_name [of "is" rest] ok(1) by (simp add: string_text_def skip_string_Cons)
  qed
next
  case (JArr w es)
  show ?case unfolding skips_def
  proof (intro allI impI)
    fix rest n assume ok: "json_ok (JArr w es)" and n: "3 * length (json_text (JArr w es) @ rest) + 1 \<le> n"
    define body where "body = (if es = [] then w else commas (map elem_text es)) @ CHR '']'' # rest"
    have shape: "json_text (JArr w es) @ rest = CHR ''['' # body" by (simp add: body_def)
    obtain m where m: "n = Suc (Suc m)" using n by (cases n; cases "n - 1") auto
    have eq: "skip_value n (json_text (JArr w es) @ rest) =
        (case ws_end body of [] \<Rightarrow> Some [] | c # r \<Rightarrow> if c = CHR '']'' then Some r else array_loop m (c # r))"
      unfolding shape m by (simp add: adv_def)
    show "skip_value n (json_text (JArr w es) @ rest) = Some rest"
    proof (cases "es = []")
      case True
      then have "ws_end body = CHR '']'' # rest" using ok by (simp add: body_def skip_ws_append)
      then show ?thesis unfolding eq by simp
    next
      case False
      have body: "body = commas (map elem_text es) @ CHR '']'' # rest" using False by (simp add: body_def)
      obtain c t where ct: "ws_end body = c # t" "c \<noteq> CHR '']''"
        using elems_head [OF False] ok unfolding body by auto
      have "3 * length (ws_end body) + 2 \<le> m"
        using n skip_ws_length [of body] unfolding shape m by simp
      then have "array_loop m (ws_end body) = Some rest"
        unfolding body using JArr ok by (intro array_loop_text False) (auto simp: list_all_iff)
      then show ?thesis unfolding eq using ct by simp
    qed
  qed
next
  case (JObj w ms)
  show ?case unfolding skips_def
  proof (intro allI impI)
    fix rest n assume ok: "json_ok (JObj w ms)" and n: "3 * length (json_text (JObj w ms) @ rest) + 1 \<le> n"
    define body where "body = (if ms = [] then w else commas (map member_text ms)) @ CHR ''}'' # rest"
    have shape: "json_text (JObj w ms) @ rest = CHR ''{'' # body" by (simp add: body_def)
    obtain m where m: "n = Suc (Suc m)" using n by (cases n; cases "n - 1") auto
    have eq: "skip_value n (json_text (JObj w ms) @ rest) =
        (case ws_end body of [] \<Rightarrow> Some [] | c # r \<Rightarrow> if c = CHR ''}'' then Some r else object_loop m (c # r))"
      unfolding shape m by (simp add: adv_def)
    show "skip_value n (json_text (JObj w ms) @ rest) = Some rest"
    proof (cases "ms = []")
      case True
      then have "ws_end body = CHR ''}'' # rest" using ok by (simp add: body_def skip_ws_append)
      then show ?thesis unfolding eq by simp
    next
      case False
      have body: "body = commas (map member_text ms) @ CHR ''}'' # rest" using False by (simp add: body_def)
      obtain t where t: "ws_end body = QUOTE # t"
        using members_head [OF False] ok unfolding body by auto
      have "3 * length (ws_end body) + 2 \<le> m"
        using n skip_ws_length [of body] unfolding shape m by simp
      then have "object_loop m (ws_end body) = Some rest"
        unfolding body using JObj ok by (intro object_loop_text False) (auto simp: list_all_iff)
      then show ?thesis unfolding eq using t by simp
    qed
  qed
qed (simp_all add: skips_elemI)


section \<open>Looking up a name\<close>

text \<open>What a name stands for; a name with a \<open>\u\<close> escape stands for no C string.\<close>

definition named :: "jitem list \<Rightarrow> string \<Rightarrow> bool" where
  "named name s \<longleftrightarrow>
     map (\<lambda>i. case i of JChar c \<Rightarrow> Some c | JEsc e \<Rightarrow> esc_char e | JUni ds \<Rightarrow> None) name = map Some s"

text \<open>The text from the value of the first member with the name \<open>s\<close>; \<open>t\<close> follows the members.\<close>

fun member_value :: "json_member list \<Rightarrow> string \<Rightarrow> string \<Rightarrow> string" where
  "member_value [] s t = []"
| "member_value (JMember w1 name w2 (JElem w3 v w4) # ms) s t =
     (if named name s then json_text v @ w4 @ (if ms = [] then [] else CHR '','' # commas (map member_text ms)) @ t
      else member_value ms s t)"

lemma scan_ws: "is_ws w \<Longrightarrow> scan_end ch (w @ buf) = scan_end ch buf"
  by (simp add: scan_end_def skip_ws_append)

lemma scan_here: "ch \<notin> {CHR 0x09, CHR 0x0A, CHR 0x0D, CHR 0x20} \<Longrightarrow> scan_end ch (ch # buf) = Some buf"
  by (simp add: scan_end_def)

lemma find_loop_text:
  "\<forall>x \<in> set ms. member_ok x \<Longrightarrow> ms \<noteq> [] \<Longrightarrow> NUL \<notin> set s \<Longrightarrow>
    length (commas (map member_text ms) @ CHR ''}'' # rest) < n \<Longrightarrow>
    find_loop n (commas (map member_text ms) @ CHR ''}'' # rest) s = Some (member_value ms s (CHR ''}'' # rest))"
proof (induction ms arbitrary: n)
  case (Cons x ms)
  obtain w1 name w2 w3 v w4 where x: "x = JMember w1 name w2 (JElem w3 v w4)"
    by (metis json_member.exhaust json_elem.exhaust)
  have ok: "is_ws w1" "list_all item_ok name" "is_ws w2" "elem_ok (JElem w3 v w4)" "json_ok v" "is_ws w4" "is_ws w3"
    using Cons.prems(1) x by auto
  define tail where "tail = (if ms = [] then CHR ''}'' # rest else CHR '','' # commas (map member_text ms) @ CHR ''}'' # rest)"
  obtain d t where d: "tail = d # t" "d \<in> {CHR '','', CHR '']'', CHR ''}''}" by (cases "ms = []") (auto simp: tail_def)
  have shape: "commas (map member_text (x # ms)) @ CHR ''}'' # rest =
      w1 @ QUOTE # concat (map item_text name) @ QUOTE # w2 @ CHR '':'' # w3 @ json_text v @ w4 @ tail"
    using x by (simp add: commas_Cons tail_def string_text_def)
  obtain m where m: "n = Suc m" using Cons.prems(4) by (cases n) auto
  let ?buf = "json_text v @ w4 @ tail"
  have "ends_value (w4 @ tail)" using d ok(6) by (cases w4) (auto simp: ends_value_def is_ws_def)
  then have skip: "skip_value (3 * length ?buf + 1) ?buf = Some (w4 @ tail)"
    using skips_all(1) [of v] ok(5) unfolding skips_def by blast
  have step: "find_loop n (commas (map member_text (x # ms)) @ CHR ''}'' # rest) s =
      (if named name s then Some ?buf
       else case scan_end (CHR '','') tail of None \<Rightarrow> Some [] | Some buf \<Rightarrow> find_loop m buf s)"
    using skip match_text [OF ok(2) Cons.prems(3)] ok skip_ws_value [OF ok(5)] unfolding shape m
    by (simp add: scan_ws scan_here named_def skip_ws_append Let_def del: skip_value_Suc)
  have len: "length tail < n" using Cons.prems(4) unfolding shape by simp
  have val: "member_value (x # ms) s (CHR ''}'' # rest) = (if named name s then ?buf else member_value ms s (CHR ''}'' # rest))"
    by (simp add: x tail_def)
  show ?case
  proof (cases "ms = []")
    case True
    then have "scan_end (CHR '','') tail = None" by (simp add: tail_def scan_end_def)
    then show ?thesis unfolding step val using True by simp
  next
    case False
    have tail: "tail = CHR '','' # commas (map member_text ms) @ CHR ''}'' # rest" using False by (simp add: tail_def)
    have "find_loop m (commas (map member_text ms) @ CHR ''}'' # rest) s = Some (member_value ms s (CHR ''}'' # rest))"
      using Cons.prems len m tail by (intro Cons.IH False) auto
    then show ?thesis unfolding step val using tail by (simp add: scan_here)
  qed
qed simp

text \<open>
  C19. In the text of an object, with any white space and whatever follows it, \<open>json_find\<close> returns
  the pointer to the value of the first member with the name, and the end if there is none.
  Escapes in names are decoded, but a name that is written with \<open>\u\<close> is never found, also if it
  stands for the characters of the name.
\<close>

theorem json_find_correct:
  assumes "is_ws w" "json_ok (JObj w0 ms)" "NUL \<notin> set s"
  shows "json_find (w @ json_text (JObj w0 ms) @ rest) s = Some (member_value ms s (CHR ''}'' # rest))"
proof -
  have scan_end: "scan_end (CHR ''{'') (w @ json_text (JObj w0 ms) @ rest) =
      Some ((if ms = [] then w0 else commas (map member_text ms)) @ CHR ''}'' # rest)"
    using assms(1) by (simp add: scan_ws scan_here)
  show ?thesis
  proof (cases "ms = []")
    case True
    have "scan_end QUOTE (w0 @ CHR ''}'' # rest) = None" using assms(2) by (simp add: scan_ws) (simp add: scan_end_def)
    then show ?thesis using True scan_end by (simp add: json_find_eq)
  next
    case False
    have "find_loop (length (commas (map member_text ms) @ CHR ''}'' # rest) + 1) (commas (map member_text ms) @ CHR ''}'' # rest) s =
        Some (member_value ms s (CHR ''}'' # rest))"
      using assms(2, 3) False by (intro find_loop_text) (auto simp: list_all_iff)
    then show ?thesis using False scan_end by (simp add: json_find_eq)
  qed
qed

theorem json_find_correct_witness:
  "json_find ('' '' @ json_text (JObj [] [JMember [] [JUni ''0061''] [] (JElem [] (JNum ''1'') []),
       JMember '' '' [JChar (CHR ''a'')] [] (JElem [] (JArr [] [JElem [] (JLit ''null'') []]) [])]) @ ''x'') ''a'' = Some ''[null]}x''"
  by (subst json_find_correct)
    (simp_all add: is_ws_def numchars_def less_eq_char_def named_def esc_char_def)

end
