(* ===== verification/Crc32c.thy ===== *)
theory Crc32c
  imports Sysendian
begin

text \<open>
  CRC32C, from \<open>alg/crc32c.c\<close>, \<open>alg/crc32c_sse42.c\<close> and \<open>alg/crc32c_arm.c\<close>.  The CRC
  instructions of the processor are parameters.
\<close>

section \<open>Definitions\<close>

definition T_0_0x80 :: u32 where
  "T_0_0x80 = 0x82f63b78"

definition reverse :: "u32 \<Rightarrow> u32" where
  "reverse x =
     (let x = drop_bit 16 (x AND 0xffff0000) OR push_bit 16 (x AND 0x0000ffff);
          x = drop_bit 8 (x AND 0xff00ff00) OR push_bit 8 (x AND 0x00ff00ff);
          x = drop_bit 4 (x AND 0xf0f0f0f0) OR push_bit 4 (x AND 0x0f0f0f0f);
          x = drop_bit 2 (x AND 0xcccccccc) OR push_bit 2 (x AND 0x33333333);
          x = drop_bit 1 (x AND 0xaaaaaaaa) OR push_bit 1 (x AND 0x55555555)
      in x)"

text \<open>The body of the loop in \<open>times256\<close>, and the loop.\<close>

definition times2 :: "u32 \<Rightarrow> u32" where
  "times2 r = (if r AND 0x80000000 \<noteq> 0 then push_bit 1 r XOR 0x1EDC6F41 else push_bit 1 r)"

definition times256 :: "u32 \<Rightarrow> u32" where
  "times256 r = (times2 ^^ 8) r"

text \<open>The static variables of the file.\<close>

datatype crc_hw = HW_SOFTWARE | HW_X86_CRC32 | HW_ARM_CRC32_64 | HW_UNSET

record crc_static =
  T0 :: "u32 list"
  T1 :: "u32 list"
  T2 :: "u32 list"
  T3 :: "u32 list"
  initdone :: bool
  hwaccel :: crc_hw

definition crc_static0 :: crc_static where
  "crc_static0 = \<lparr>T0 = replicate 256 0, T1 = replicate 256 0, T2 = replicate 256 0, T3 = replicate 256 0,
     initdone = False, hwaccel = HW_UNSET\<rparr>"

definition crc_entry :: "nat \<Rightarrow> nat \<Rightarrow> u32" where
  "crc_entry k i = reverse ((times256 ^^ k) (reverse (of_nat i)))"

definition crc_init :: "crc_static \<Rightarrow> crc_static option" where
  "crc_init g =
     (let g = g\<lparr>T0 := map (crc_entry 1) [0..<256], T1 := map (crc_entry 2) [0..<256],
               T2 := map (crc_entry 3) [0..<256], T3 := map (crc_entry 4) [0..<256]\<rparr>
      in do {
        cassert (T0 g ! 0x80 = T_0_0x80);
        Some g
      })"

text \<open>
  The processor: which accelerated routine is compiled in, whether the processor has it, and its
  instructions on one byte and on eight.
\<close>

record crc_cpu =
  crc_built :: "crc_hw option"
  crc_has :: bool
  crc_u8 :: "u32 \<Rightarrow> u8 \<Rightarrow> u32"
  crc_u64 :: "u32 \<Rightarrow> u64 \<Rightarrow> u32"

fun crc_bytes :: "(u32 \<Rightarrow> u8 \<Rightarrow> u32) \<Rightarrow> bytes \<Rightarrow> nat \<Rightarrow> nat \<Rightarrow> u32 \<Rightarrow> u32 option" where
  "crc_bytes f buf i 0 st = Some st"
| "crc_bytes f buf i (Suc n) st =
     (if i < length buf then crc_bytes f buf (i + 1) n (f st (buf ! i)) else None)"

function crc_blocks :: "(u32 \<Rightarrow> u64 \<Rightarrow> u32) \<Rightarrow> bytes \<Rightarrow> nat \<Rightarrow> nat \<Rightarrow> u32 \<Rightarrow> (nat \<times> u32) option" where
  "crc_blocks f buf i in_block st =
     (if i < in_block then do {
        w \<leftarrow> mem_load buf i 8;
        crc_blocks f buf (i + 8) in_block (f st (le64dec w))
      } else Some (i, st))"
  by pat_completeness auto
termination by (relation "measure (\<lambda>(f, buf, i, in_block, st). in_block - i)") auto

declare crc_blocks.simps [simp del]

text \<open>\<open>addr\<close> is the address of \<open>buf\<close>; the two routines differ only in the instructions.\<close>

definition crc_update_hw ::
  "(u32 \<Rightarrow> u8 \<Rightarrow> u32) \<Rightarrow> (u32 \<Rightarrow> u64 \<Rightarrow> u32) \<Rightarrow> u32 \<Rightarrow> nat \<Rightarrow> bytes \<Rightarrow> nat \<Rightarrow> u32 option" where
  "crc_update_hw u8 u64 st addr buf len = do {
     cassert (8 \<le> len);
     let pre_block = szsub 8 (addr mod 2 ^ 64) mod 8;
     let remaining_bytes = szsub len pre_block;
     let in_block = remaining_bytes - remaining_bytes mod 8;
     st \<leftarrow> crc_bytes u8 buf 0 pre_block st;
     cassert (\<not> (pre_block < in_block \<and> (addr + pre_block) mod 8 \<noteq> 0));
     (i, st) \<leftarrow> crc_blocks u64 buf pre_block in_block st;
     cassert (szsub len i < 8);
     crc_bytes u8 buf i (len - i) st
   }"

definition CRC32C_Update_SSE42 :: "crc_cpu \<Rightarrow> u32 \<Rightarrow> nat \<Rightarrow> bytes \<Rightarrow> nat \<Rightarrow> u32 option" where
  "CRC32C_Update_SSE42 cpu = crc_update_hw (crc_u8 cpu) (crc_u64 cpu)"

definition CRC32C_Update_ARM :: "crc_cpu \<Rightarrow> u32 \<Rightarrow> nat \<Rightarrow> bytes \<Rightarrow> nat \<Rightarrow> u32 option" where
  "CRC32C_Update_ARM cpu = crc_update_hw (crc_u8 cpu) (crc_u64 cpu)"

text \<open>\<open>hwtest\<close>; the test string is a static array at address \<open>addr\<close>.\<close>

definition hello_world :: bytes where
  "hello_world = [0x68, 0x65, 0x6c, 0x6c, 0x6f, 0x20, 0x77, 0x6f, 0x72, 0x6c, 0x64]"

definition crc_hwtest :: "crc_cpu \<Rightarrow> crc_hw \<Rightarrow> nat \<Rightarrow> bool option" where
  "crc_hwtest cpu hw addr = do {
     st \<leftarrow> (if hw = HW_X86_CRC32 then CRC32C_Update_SSE42 cpu T_0_0x80 addr hello_world 11
           else CRC32C_Update_ARM cpu T_0_0x80 addr hello_world 11);
     Some (le32enc st = [0xca, 0x13, 0x0b, 0xaa])
   }"

definition crc_hwaccel_init :: "crc_cpu \<Rightarrow> nat \<Rightarrow> crc_static \<Rightarrow> crc_static option" where
  "crc_hwaccel_init cpu addr g =
     (if hwaccel g \<noteq> HW_UNSET then Some g
      else let g = g\<lparr>hwaccel := HW_SOFTWARE\<rparr> in
        case crc_built cpu of
          None \<Rightarrow> Some g
        | Some hw \<Rightarrow>
            (if crc_has cpu then do {
               ok \<leftarrow> crc_hwtest cpu hw addr;
               Some (if ok then g\<lparr>hwaccel := hw\<rparr> else g)
             } else Some g))"

record CRC32C_CTX =
  crc_state :: u32

definition CRC32C_Init :: "crc_cpu \<Rightarrow> nat \<Rightarrow> crc_static \<Rightarrow> (crc_static \<times> CRC32C_CTX) option" where
  "CRC32C_Init cpu addr g = do {
     g \<leftarrow> (if \<not> initdone g then do {
             g \<leftarrow> crc_init g;
             Some (g\<lparr>initdone := True\<rparr>)
           } else Some g);
     let ctx = \<lparr>crc_state = T_0_0x80\<rparr>;
     g \<leftarrow> crc_hwaccel_init cpu addr g;
     Some (g, ctx)
   }"

text \<open>The software loops: blocks of four bytes, then single bytes.\<close>

definition crc_idx :: "u32 \<Rightarrow> nat \<Rightarrow> u8 \<Rightarrow> nat" where
  "crc_idx st n b = unat ((drop_bit n st AND 0xff) XOR ucast b)"

fun crc_soft :: "crc_static \<Rightarrow> u32 \<Rightarrow> bytes \<Rightarrow> u32" where
  "crc_soft g st (b0 # b1 # b2 # b3 # buf) =
     crc_soft g (T0 g ! crc_idx st 24 b3 XOR T1 g ! crc_idx st 16 b2 XOR
                 T2 g ! crc_idx st 8 b1 XOR T3 g ! crc_idx st 0 b0) buf"
| "crc_soft g st (b # buf) = crc_soft g (drop_bit 8 st XOR T0 g ! crc_idx st 0 b) buf"
| "crc_soft g st [] = st"

definition CRC32C_Update ::
  "crc_cpu \<Rightarrow> crc_static \<Rightarrow> CRC32C_CTX \<Rightarrow> nat \<Rightarrow> bytes \<Rightarrow> CRC32C_CTX option" where
  "CRC32C_Update cpu g ctx addr buf =
     (let len = length buf in
      if len \<ge> 8 \<and> hwaccel g = HW_X86_CRC32 then do {
        st \<leftarrow> CRC32C_Update_SSE42 cpu (crc_state ctx) addr buf len;
        Some (ctx\<lparr>crc_state := st\<rparr>)
      } else if len \<ge> 8 \<and> hwaccel g = HW_ARM_CRC32_64 then do {
        st \<leftarrow> CRC32C_Update_ARM cpu (crc_state ctx) addr buf len;
        Some (ctx\<lparr>crc_state := st\<rparr>)
      } else Some (ctx\<lparr>crc_state := crc_soft g (crc_state ctx) buf\<rparr>))"

definition CRC32C_Final :: "CRC32C_CTX \<Rightarrow> bytes" where
  "CRC32C_Final ctx =
     [ucast (crc_state ctx AND 0xff), ucast (drop_bit 8 (crc_state ctx) AND 0xff),
      ucast (drop_bit 16 (crc_state ctx) AND 0xff), ucast (drop_bit 24 (crc_state ctx) AND 0xff)]"


section \<open>Shifts and reversal are linear\<close>

lemma and_push1: "r AND push_bit k 1 = (if bit (r :: 'a::len word) k then push_bit k 1 else 0)"
  by (rule bit_word_eqI) (auto simp: bit_simps)

lemma and_bit31: "r AND 0x80000000 \<noteq> 0 \<longleftrightarrow> bit (r :: u32) 31"
  using and_push1 [of r 31] by simp

lemma times2_eq: "times2 r = push_bit 1 r XOR (if bit r 31 then 0x1EDC6F41 else 0)"
  by (simp add: times2_def and_bit31)

lemma times2_xor [simp]: "times2 (a XOR b) = times2 a XOR times2 b"
  by (simp add: times2_eq bit_xor_iff push_bit_xor ac_simps del: push_bit_of_Suc_0)

lemma times2_pow_xor [simp]: "(times2 ^^ n) (a XOR b) = (times2 ^^ n) a XOR (times2 ^^ n) b"
  by (induction n) simp_all

lemma times2_pow_shift:
  "n \<le> 32 \<Longrightarrow> (\<And>m. 32 - n \<le> m \<Longrightarrow> \<not> bit x m) \<Longrightarrow> (times2 ^^ n) x = push_bit n x"
proof (induction n)
  case (Suc n)
  then have IH: "(times2 ^^ n) x = push_bit n x" by simp
  have "\<not> bit (push_bit n x) 31" using Suc.prems(2) [of "31 - n"] Suc.prems(1) by (simp add: bit_push_bit_iff)
  with IH have "times2 ((times2 ^^ n) x) = push_bit 1 (push_bit n x)" by (simp only: times2_eq if_False xor.right_neutral)
  then show ?case by (simp add: push_bit_push_bit del: push_bit_of_1)
qed simp

lemma nat_32_set:
  "n < 32 \<Longrightarrow> n \<in> {0, 1, 2, 3, 4, 5, 6, 7, 8, 9, 10, 11, 12, 13, 14, 15,
    16, 17, 18, 19, 20, 21, 22, 23, 24, 25, 26, 27, 28, 29, 30, 31 :: nat}"
  by (simp only: insert_iff empty_iff) presburger

text \<open>Each line of \<open>reverse\<close> exchanges neighbouring groups of \<open>k\<close> bits.\<close>

definition flip :: "nat \<Rightarrow> nat \<Rightarrow> nat" where
  "flip k n = (if n div k mod 2 = 0 then n + k else n - k)"

lemma flip_less: "n < 32 \<Longrightarrow> flip 16 n < 32" "n < 32 \<Longrightarrow> flip 8 n < 32" "n < 32 \<Longrightarrow> flip 4 n < 32"
  "n < 32 \<Longrightarrow> flip 2 n < 32" "n < 32 \<Longrightarrow> flip 1 n < 32"
  by ((drule nat_32_set, elim insertE emptyE); simp add: flip_def)+

lemma flips: "n < 32 \<Longrightarrow> flip 16 (flip 8 (flip 4 (flip 2 (flip 1 n)))) = 31 - n"
  by (drule nat_32_set, elim insertE emptyE) (simp_all add: flip_def)

lemma reverse_stage_16:
  "n < 32 \<Longrightarrow> bit (drop_bit 16 (x AND 0xffff0000) OR push_bit 16 (x AND 0x0000ffff) :: u32) n \<longleftrightarrow> bit x (flip 16 n)"
  by (drule nat_32_set, elim insertE emptyE) (simp_all add: bit_simps flip_def)

lemma reverse_stage_8:
  "n < 32 \<Longrightarrow> bit (drop_bit 8 (x AND 0xff00ff00) OR push_bit 8 (x AND 0x00ff00ff) :: u32) n \<longleftrightarrow> bit x (flip 8 n)"
  by (drule nat_32_set, elim insertE emptyE) (simp_all add: bit_simps flip_def)

lemma reverse_stage_4:
  "n < 32 \<Longrightarrow> bit (drop_bit 4 (x AND 0xf0f0f0f0) OR push_bit 4 (x AND 0x0f0f0f0f) :: u32) n \<longleftrightarrow> bit x (flip 4 n)"
  by (drule nat_32_set, elim insertE emptyE) (simp_all add: bit_simps flip_def)

lemma reverse_stage_2:
  "n < 32 \<Longrightarrow> bit (drop_bit 2 (x AND 0xcccccccc) OR push_bit 2 (x AND 0x33333333) :: u32) n \<longleftrightarrow> bit x (flip 2 n)"
  by (drule nat_32_set, elim insertE emptyE) (simp_all add: bit_simps flip_def flip: numeral_2_eq_2 numeral_3_eq_3)

lemma reverse_stage_1:
  "n < 32 \<Longrightarrow> bit (drop_bit 1 (x AND 0xaaaaaaaa) OR push_bit 1 (x AND 0x55555555) :: u32) n \<longleftrightarrow> bit x (flip 1 n)"
  by (drule nat_32_set, elim insertE emptyE) (simp_all add: bit_simps flip_def bit_double_iff mult.commute [of x 2] flip: numeral_2_eq_2 numeral_3_eq_3)

lemma bit_reverse: "bit (reverse x) n \<longleftrightarrow> n < 32 \<and> bit x (31 - n)"
proof (cases "n < 32")
  case True
  then have "bit (reverse x) n \<longleftrightarrow> bit x (31 - n)"
    unfolding reverse_def Let_def
    by (simp only: reverse_stage_1 reverse_stage_2 reverse_stage_4 reverse_stage_8 reverse_stage_16 flip_less flips)
  with True show ?thesis by simp
qed (auto dest: bit_imp_le_length)

lemma reverse_xor [simp]: "reverse (a XOR b) = reverse a XOR reverse b"
  by (rule bit_word_eqI) (auto simp: bit_reverse bit_simps)

lemma reverse_reverse [simp]: "reverse (reverse x) = x"
  by (rule bit_word_eqI) (auto simp: bit_reverse)

lemma reverse_push: "reverse (push_bit n x) = drop_bit n (reverse x)"
proof (rule bit_word_eqI)
  fix k assume "k < LENGTH(32)"
  then show "bit (reverse (push_bit n x)) k = bit (drop_bit n (reverse x)) k"
    by (simp add: bit_reverse bit_push_bit_iff bit_drop_bit_eq add.commute less_diff_conv le_diff_conv) auto
qed

lemma reverse_drop: "reverse (drop_bit n x) = push_bit n (reverse x)"
  using reverse_push [of n "reverse x"] by (metis reverse_reverse)

text \<open>A byte, reversed, occupies the top eight bits, so that shifting it down and then multiplying is exact.\<close>

lemma times2_pow_byte:
  assumes "n \<le> 24"
  shows "(times2 ^^ n) (drop_bit n (reverse (ucast (b :: u8)))) = reverse (ucast b)"
proof -
  have low: "\<not> bit (reverse (ucast b)) m" if "m < 24" for m
    using that by (auto simp: bit_reverse bit_simps dest: bit_imp_le_length)
  have "(times2 ^^ n) (drop_bit n (reverse (ucast b))) = push_bit n (drop_bit n (reverse (ucast b)))"
    using assms by (intro times2_pow_shift) (auto simp: bit_simps dest: bit_imp_le_length)
  also have "\<dots> = reverse (ucast b)"
  proof (rule bit_word_eqI)
    fix k assume "k < LENGTH(32)"
    moreover have "n \<le> k" if "bit (reverse (ucast b)) k" using that low [of k] assms by (cases "k < 24") auto
    ultimately show "bit (push_bit n (drop_bit n (reverse (ucast b)))) k = bit (reverse (ucast b)) k"
      by (auto simp: bit_push_bit_iff bit_drop_bit_eq)
  qed
  finally show ?thesis .
qed


section \<open>The table-driven loops\<close>

text \<open>The effect of one byte, and of a message, on the state.\<close>

definition crc_byte :: "u32 \<Rightarrow> u8 \<Rightarrow> u32" where
  "crc_byte st b = reverse ((times2 ^^ 8) (reverse st XOR reverse (ucast b)))"

definition crc_msg :: "u32 \<Rightarrow> bytes \<Rightarrow> u32" where
  "crc_msg st buf = foldl crc_byte st buf"

lemma crc_msg_simps [simp]:
  "crc_msg st [] = st" "crc_msg st (b # buf) = crc_msg (crc_byte st b) buf"
  "crc_msg st (buf @ buf') = crc_msg (crc_msg st buf) buf'"
  by (simp_all add: crc_msg_def)

definition crc_tabs :: "crc_static \<Rightarrow> bool" where
  "crc_tabs g \<longleftrightarrow> T0 g = map (crc_entry 1) [0..<256] \<and> T1 g = map (crc_entry 2) [0..<256] \<and>
     T2 g = map (crc_entry 3) [0..<256] \<and> T3 g = map (crc_entry 4) [0..<256]"

lemma crc_entry_eq: "crc_entry k i = reverse ((times2 ^^ (8 * k)) (reverse (of_nat i)))"
proof -
  have eq: "times256 = times2 ^^ 8" by (rule ext) (simp add: times256_def)
  show ?thesis unfolding crc_entry_def eq funpow_mult ..
qed

definition st_byte :: "u32 \<Rightarrow> nat \<Rightarrow> u8" where
  "st_byte st n = ucast (drop_bit n st)"

lemma crc_idx_eq: "crc_idx st n b = unat (st_byte st n XOR b)"
proof -
  have "drop_bit n st AND 0xff = ucast (st_byte st n)"
    by (rule bit_word_eqI) (auto simp: st_byte_def bit_simps)
  then have "(drop_bit n st AND 0xff) XOR ucast b = (ucast (st_byte st n XOR b) :: u32)"
    by (simp add: unsigned_xor_eq)
  moreover have "unat (st_byte st n XOR b) < 2 ^ 32"
    using unsigned_less [of "st_byte st n XOR b", where 'a = nat] by simp
  ultimately show ?thesis by (simp add: crc_idx_def unsigned_ucast_eq take_bit_nat_eq_self_iff)
qed

lemma crc_idx_less: "crc_idx st n b < 256"
  using unsigned_less [of "st_byte st n XOR b", where 'a = nat] by (simp add: crc_idx_eq)

lemma crc_entry_idx:
  "crc_entry k (crc_idx st n b) =
     reverse ((times2 ^^ (8 * k)) (reverse (ucast (st_byte st n)) XOR reverse (ucast b)))"
proof -
  have "(of_nat (crc_idx st n b) :: u32) = ucast (st_byte st n XOR b)" by (simp add: crc_idx_eq)
  then show ?thesis by (simp add: crc_entry_eq unsigned_xor_eq)
qed

lemmas tab_simps = crc_tabs_def crc_idx_less crc_entry_idx

lemma state_split8: "st = push_bit 8 (drop_bit 8 st) XOR ucast (st_byte st 0)"
  by (rule bit_word_eqI) (auto simp: st_byte_def bit_simps)

lemma times2_pow_drop: "n \<le> 32 \<Longrightarrow> (times2 ^^ n) (drop_bit n x) = push_bit n (drop_bit n x)"
  by (rule times2_pow_shift) (auto simp: bit_simps dest: bit_imp_le_length)

lemma soft_byte:
  assumes "crc_tabs g"
  shows "drop_bit 8 st XOR T0 g ! crc_idx st 0 b = crc_byte st b"
proof -
  let ?R = "reverse st" and ?S = "reverse (ucast (st_byte st 0)) :: u32"
  have "?R = drop_bit 8 (push_bit 8 ?R) XOR ?S"
    using arg_cong [OF state_split8 [of st], of reverse] by (simp only: reverse_xor reverse_push reverse_drop)
  then have "(times2 ^^ 8) ?R = (times2 ^^ 8) (drop_bit 8 (push_bit 8 ?R)) XOR (times2 ^^ 8) ?S"
    by (metis times2_pow_xor)
  also have "(times2 ^^ 8) (drop_bit 8 (push_bit 8 ?R)) = push_bit 8 (drop_bit 8 (push_bit 8 ?R))"
    by (rule times2_pow_drop) simp
  also have "push_bit 8 (drop_bit 8 (push_bit 8 ?R)) = push_bit 8 ?R"
    by (rule bit_word_eqI) (auto simp: bit_simps)
  finally have "(times2 ^^ 8) ?R = reverse (drop_bit 8 st) XOR (times2 ^^ 8) ?S"
    by (simp add: reverse_drop)
  with assms show ?thesis by (simp add: tab_simps crc_byte_def xor.assoc [symmetric])
qed

lemma state_split32:
  "st = ucast (st_byte st 0) XOR (push_bit 8 (ucast (st_byte st 8)) XOR
     (push_bit 16 (ucast (st_byte st 16)) XOR push_bit 24 (ucast (st_byte st 24))))"
  by (rule bit_word_eqI) (auto simp: st_byte_def bit_simps)

lemma soft_block:
  assumes "crc_tabs g"
  shows "T0 g ! crc_idx st 24 b3 XOR T1 g ! crc_idx st 16 b2 XOR T2 g ! crc_idx st 8 b1 XOR T3 g ! crc_idx st 0 b0
    = crc_msg st [b0, b1, b2, b3]"
proof -
  define B where "B b = (reverse (ucast (b :: u8)) :: u32)" for b
  let ?R = "\<lambda>n. B (st_byte st n)"
  have add: "(times2 ^^ m) ((times2 ^^ n) x) = (times2 ^^ (m + n)) x" for m n x by (simp add: funpow_add)
  have rev: "reverse st = ?R 0 XOR (drop_bit 8 (?R 8) XOR (drop_bit 16 (?R 16) XOR drop_bit 24 (?R 24)))"
    using arg_cong [OF state_split32 [of st], of reverse] by (simp add: reverse_push B_def)
  have byte: "(times2 ^^ (m + n)) (drop_bit n (?R k)) = (times2 ^^ m) (?R k)" if "n \<le> 24" for m n k
    using times2_pow_byte [OF that, of "st_byte st k"] by (simp add: B_def funpow_add)
  have "(times2 ^^ 32) (reverse st) =
      (times2 ^^ 32) (?R 0) XOR ((times2 ^^ 24) (?R 8) XOR ((times2 ^^ 16) (?R 16) XOR (times2 ^^ 8) (?R 24)))"
    using byte [of 8 24 8] byte [of 16 16 16] byte [of 24 8 24] unfolding rev by simp
  then show ?thesis
    using assms by (simp add: tab_simps crc_byte_def add B_def [symmetric] ac_simps)
qed

lemma crc_soft_eq: "crc_tabs g \<Longrightarrow> crc_soft g st buf = crc_msg st buf"
  by (induction g st buf rule: crc_soft.induct) (simp_all add: soft_block soft_byte)


section \<open>The accelerated routines\<close>

text \<open>
  What the manuals of the processors say of the instructions: one byte advances the CRC of the
  Castagnoli polynomial in its reflected form, eight bytes are processed lowest address first.
\<close>

definition crc_cpu_ok :: "crc_cpu \<Rightarrow> bool" where
  "crc_cpu_ok cpu \<longleftrightarrow> (\<forall>st b. crc_u8 cpu st b = crc_byte st b) \<and>
     (\<forall>st w. crc_u64 cpu st w = foldl crc_byte st (le64enc w))"

lemma crc_bytes_eq:
  "i + n \<le> length buf \<Longrightarrow> crc_bytes f buf i n st = Some (foldl f st (take n (drop i buf)))"
proof (induction n arbitrary: i st)
  case (Suc n)
  then have "drop i buf = buf ! i # drop (Suc i) buf" by (simp add: Cons_nth_drop_Suc)
  with Suc show ?case by simp
qed simp

lemma crc_blocks_eq:
  assumes f: "\<And>st w. f st w = foldl g st (le64enc w)"
  shows "in_block \<le> i + 8 * k \<Longrightarrow> i + 8 * k < in_block + 8 \<Longrightarrow> i + 8 * k \<le> length buf \<Longrightarrow>
    crc_blocks f buf i in_block st = Some (i + 8 * k, foldl g st (take (8 * k) (drop i buf)))"
proof (induction k arbitrary: i st)
  case (Suc k)
  then have "i < in_block" "mem_load buf i 8 = Some (take 8 (drop i buf))" by (auto simp: mem_load_def)
  moreover have "f st (le64dec (take 8 (drop i buf))) = foldl g st (take 8 (drop i buf))"
    using Suc.prems by (simp add: f)
  moreover have "take (8 * Suc k) (drop i buf) = take 8 (drop i buf) @ take (8 * k) (drop (i + 8) buf)"
    by (simp add: take_add add.commute)
  ultimately show ?case
    using Suc.IH [of "i + 8" "foldl g st (take 8 (drop i buf))"] Suc.prems
    by (simp add: crc_blocks.simps [of f buf i])
qed (simp add: crc_blocks.simps)

lemma pre_block_aligned: "(addr + szsub 8 (addr mod 2 ^ 64) mod 8) mod 8 = 0"
proof -
  define a where "a = addr mod 2 ^ 64"
  have d: "(8 :: nat) dvd 2 ^ 64" by (rule dvd_trans [of _ "2 ^ 3"]) (simp, rule le_imp_power_dvd, simp)
  have "a < 2 ^ 64" by (simp add: a_def del: power_numeral)
  then have ax: "a + (8 + 2 ^ 64 - a) = 8 + 2 ^ 64" by linarith
  have "szsub 8 a mod 8 = (8 + 2 ^ 64 - a) mod 8"
    unfolding szsub_def by (rule mod_mod_cancel [OF d])
  moreover have "addr mod 8 = a mod 8" unfolding a_def by (rule mod_mod_cancel [OF d, symmetric])
  ultimately have "(addr + szsub 8 a mod 8) mod 8 = (a + (8 + 2 ^ 64 - a)) mod 8"
    by (metis mod_add_cong mod_mod_trivial)
  also have "\<dots> = 0" unfolding ax using d by (metis dvd_add dvd_refl mod_0_imp_dvd dvd_imp_mod_0)
  finally show ?thesis by (simp only: a_def)
qed

lemma crc_update_hw_eq:
  assumes u8: "\<And>st b. u8 st b = crc_byte st b" and u64: "\<And>st w. u64 st w = foldl crc_byte st (le64enc w)"
    and len: "8 \<le> len" "len \<le> length buf" "len \<le> SIZE_MAX"
  shows "crc_update_hw u8 u64 st addr buf len = Some (crc_msg st (take len buf))"
proof -
  define p where "p = szsub 8 (addr mod 2 ^ 64) mod 8"
  define k where "k = (len - p) div 8"
  have p: "p < 8" "(addr + p) mod 8 = 0" unfolding p_def by (simp, rule pre_block_aligned)
  have rem: "szsub len p = len - p" using p(1) len by simp
  have q: "len - p - (len - p) mod 8 = 8 * k" unfolding k_def by (rule minus_mod_eq_mult_div)
  have k: "8 * k \<le> len - p" "len - p < 8 * k + 8"
    unfolding k_def by (simp_all add: mult.commute dividend_less_times_div)
  have i: "p + 8 * k \<le> len" "len - (p + 8 * k) < 8" using p(1) len k by linarith+
  have f: "u8 = crc_byte" using u8 by blast
  have "8 * k \<le> p + 8 * k" "p + 8 * k < 8 * k + 8" "p + 8 * k \<le> length buf" using p(1) i len by linarith+
  then have blk: "crc_blocks u64 buf p (8 * k) s = Some (p + 8 * k, foldl crc_byte s (take (8 * k) (drop p buf)))" for s
    by (rule crc_blocks_eq [OF u64])
  have "take len buf = take p buf @ take (8 * k) (drop p buf) @ take (len - (p + 8 * k)) (drop (p + 8 * k) buf)"
    using i(1) by (metis append_assoc le_add_diff_inverse take_add)
  then have "foldl crc_byte st (take len buf) = foldl crc_byte (foldl crc_byte (foldl crc_byte st (take p buf))
      (take (8 * k) (drop p buf))) (take (len - (p + 8 * k)) (drop (p + 8 * k) buf))"
    by (simp only: foldl_append)
  moreover have "szsub len (p + 8 * k) = len - (p + 8 * k)" using i len by simp
  ultimately show ?thesis
    unfolding crc_update_hw_def Let_def p_def [symmetric] rem q
    using len p i blk by (simp add: crc_bytes_eq crc_msg_def f)
qed


section \<open>The whole computation\<close>

lemma times2_pow_one: "n \<le> 31 \<Longrightarrow> (times2 ^^ n) 1 = push_bit n 1"
  by (rule times2_pow_shift) (auto simp: bit_1_iff)

lemma times2_top: "times2 (push_bit 31 1) = 0x1EDC6F41"
  by (simp add: times2_def)

lemma T0_0x80: "crc_entry 1 0x80 = T_0_0x80"
proof -
  have r: "reverse 0x80 = push_bit 24 1" by (simp add: reverse_def)
  have e: "(8 + 24 :: nat) = Suc 31" by simp
  have "times256 (push_bit 24 1) = (times2 ^^ (8 + 24)) 1"
    using times2_pow_one [of 24] by (simp only: times256_def funpow_add comp_apply)
  also have "\<dots> = times2 ((times2 ^^ 31) 1)" unfolding e funpow.simps(2) comp_apply ..
  also have "\<dots> = 0x1EDC6F41" by (simp only: times2_pow_one times2_top order_refl)
  finally show ?thesis using r by (simp add: crc_entry_def T_0_0x80_def reverse_def)
qed

lemma times2_32: "(times2 ^^ 32) 1 = reverse T_0_0x80"
proof -
  have e: "(32 :: nat) = Suc 31" by simp
  have "(times2 ^^ 32) 1 = times2 ((times2 ^^ 31) 1)" unfolding e funpow.simps(2) comp_apply ..
  then show ?thesis by (simp only: times2_pow_one times2_top order_refl) (simp add: T_0_0x80_def reverse_def)
qed

text \<open>
  Polynomials over GF(2) as bit strings, the highest power first: their value, and the product of
  a polynomial with the Castagnoli polynomial, \<open>0x11EDC6F41\<close>, by shifts and sums.
\<close>

definition gf2_poly :: "bool list \<Rightarrow> nat" where
  "gf2_poly cs = foldl (\<lambda>m c. 2 * m + of_bool c) 0 cs"

definition times_castagnoli :: "bool list \<Rightarrow> nat" where
  "times_castagnoli q = foldl (\<lambda>m c. (2 * m) XOR (if c then 0x11EDC6F41 else 0)) 0 q"

definition byte_bits :: "u8 \<Rightarrow> bool list" where
  "byte_bits b = map (bit b) [0..<8]"

definition msg_bits :: "bytes \<Rightarrow> bool list" where
  "msg_bits buf = concat (map byte_bits buf)"

text \<open>Long division: the remainder after each bit.\<close>

definition rem_step :: "u32 \<Rightarrow> bool \<Rightarrow> u32" where
  "rem_step r c = times2 r XOR of_bool c"

lemma unat_times2:
  "unat (times2 r) = (2 * unat r) XOR (if bit r 31 then 0x11EDC6F41 else 0)"
proof -
  have p: "(0x11EDC6F41 :: nat) = push_bit 32 1 XOR unat (0x1EDC6F41 :: u32)" by simp
  have "unat (push_bit 1 r) = (2 * unat r) XOR (if bit r 31 then push_bit 32 1 else 0)"
  proof (rule bit_eqI)
    fix n
    have a: "bit (2 * unat r) n \<longleftrightarrow> n \<noteq> 0 \<and> bit r (n - 1)"
      by (simp only: bit_double_iff bit_unsigned_iff) (auto dest: bit_imp_le_length)
    have b: "bit (unat (push_bit 1 r)) n \<longleftrightarrow> n < 32 \<and> n \<noteq> 0 \<and> bit r (n - 1)"
      by (simp only: bit_unsigned_iff bit_push_bit_iff) (auto dest: bit_imp_le_length)
    have c: "bit (push_bit 32 (1 :: nat)) n \<longleftrightarrow> n = 32"
      by (simp only: bit_push_bit_iff bit_1_iff) auto
    have d: "bit (if bit r 31 then push_bit 32 (1 :: nat) else 0) n \<longleftrightarrow> bit r 31 \<and> n = 32"
      by (cases "bit r 31") (simp_all only: if_True if_False c, simp_all)
    have "n - 1 < 32" if "bit r (n - 1)" using that by (auto dest: bit_imp_le_length)
    then show "bit (unat (push_bit 1 r)) n = bit ((2 * unat r) XOR (if bit r 31 then push_bit 32 1 else 0)) n"
      unfolding bit_xor_iff a b d by (cases "n = 32") auto
  qed
  then show ?thesis unfolding times2_eq p by (simp add: unsigned_xor_eq xor.assoc)
qed

lemma long_division:
  "\<exists>q. gf2_poly cs XOR times_castagnoli q = unat (foldl rem_step 0 cs)"
proof (induction cs rule: rev_induct)
  case Nil
  have "gf2_poly [] XOR times_castagnoli [] = unat (foldl rem_step 0 [])"
    by (simp add: gf2_poly_def times_castagnoli_def)
  then show ?case ..
next
  case (snoc c cs)
  then obtain q where q: "gf2_poly cs XOR times_castagnoli q = unat (foldl rem_step 0 cs)" by blast
  let ?r = "foldl rem_step 0 cs"
  have c: "unat (of_bool c :: u32) = of_bool c" by (cases c) simp_all
  have "gf2_poly (cs @ [c]) = (2 * gf2_poly cs) XOR of_bool c"
    by (cases c) (simp_all add: gf2_poly_def xor_Suc_0_eq)
  moreover have "times_castagnoli (q @ [bit ?r 31]) = (2 * times_castagnoli q) XOR (if bit ?r 31 then 0x11EDC6F41 else 0)"
    by (simp add: times_castagnoli_def)
  moreover have "2 * unat ?r = (2 * gf2_poly cs) XOR (2 * times_castagnoli q)"
    unfolding q [symmetric] by (rule bit_eqI) (auto simp: bit_double_iff bit_xor_iff)
  moreover have "unat (foldl rem_step 0 (cs @ [c])) = (2 * unat ?r) XOR (if bit ?r 31 then 0x11EDC6F41 else 0) XOR of_bool c"
    using c by (simp only: foldl_append foldl.simps rem_step_def unsigned_xor_eq unat_times2 xor.assoc)
  ultimately have "gf2_poly (cs @ [c]) XOR times_castagnoli (q @ [bit ?r 31]) = unat (foldl rem_step 0 (cs @ [c]))"
    by (simp only: ac_simps)
  then show ?case ..
qed

lemma rem_linear: "foldl rem_step h cs = (times2 ^^ length cs) h XOR foldl rem_step 0 cs"
proof (induction cs rule: rev_induct)
  case (snoc c cs)
  have step: "foldl rem_step r (cs @ [c]) = times2 (foldl rem_step r cs) XOR of_bool c" for r
    by (simp add: rem_step_def)
  show ?case unfolding step snoc [of] by (simp add: xor.assoc del: of_bool_eq_1_iff)
qed simp

lemma rem_short:
  "length cs \<le> 32 \<Longrightarrow> bit (foldl rem_step 0 cs) n \<longleftrightarrow> n < length cs \<and> cs ! (length cs - 1 - n)"
proof (induction cs arbitrary: n rule: rev_induct)
  case (snoc c cs)
  let ?x = "foldl rem_step 0 cs"
  have b: "bit ?x m \<longleftrightarrow> m < length cs \<and> cs ! (length cs - 1 - m)" for m using snoc by simp
  then have "times2 ?x = push_bit 1 ?x" using snoc.prems by (simp add: times2_eq)
  then have "bit (foldl rem_step 0 (cs @ [c])) n \<longleftrightarrow> (bit (push_bit 1 ?x) n \<noteq> bit (of_bool c :: u32) n)"
    by (simp only: foldl_append foldl.simps rem_step_def bit_xor_iff)
  also have "\<dots> \<longleftrightarrow> (1 \<le> n \<and> n < 32 \<and> bit ?x (n - 1)) \<noteq> (c \<and> n = 0)"
    by (simp only: bit_push_bit_iff bit_of_bool_iff) auto
  also have "\<dots> \<longleftrightarrow> n < length (cs @ [c]) \<and> (cs @ [c]) ! (length (cs @ [c]) - 1 - n)"
    using snoc.prems b [of "n - 1"] by (cases n) (auto simp: nth_append)
  finally show ?case .
qed simp

lemma rem_byte: "foldl rem_step 0 (byte_bits b) = drop_bit 24 (reverse (ucast b))"
proof (rule bit_word_eqI)
  fix n assume "n < LENGTH(32)"
  have "bit (foldl rem_step 0 (byte_bits b)) n \<longleftrightarrow> n < 8 \<and> bit b (7 - n)"
    by (subst rem_short) (auto simp: byte_bits_def)
  then show "bit (foldl rem_step 0 (byte_bits b)) n = bit (drop_bit 24 (reverse (ucast b))) n"
    by (auto simp: bit_reverse bit_drop_bit_eq bit_unsigned_iff dest: bit_imp_le_length)
qed

lemma crc_byte_rem:
  assumes "reverse st = (times2 ^^ 32) h"
  shows "reverse (crc_byte st b) = (times2 ^^ 32) (foldl rem_step h (byte_bits b))"
proof -
  have len: "length (byte_bits b) = 8" by (simp add: byte_bits_def)
  have add: "(times2 ^^ m) ((times2 ^^ n) x) = (times2 ^^ (m + n)) x" for m n x by (simp add: funpow_add)
  have "(times2 ^^ 32) (foldl rem_step h (byte_bits b)) =
      (times2 ^^ (32 + 8)) h XOR (times2 ^^ 32) (drop_bit 24 (reverse (ucast b)))"
    unfolding rem_linear [of h] len rem_byte times2_pow_xor add ..
  also have "(times2 ^^ 32) (drop_bit 24 (reverse (ucast b))) = (times2 ^^ 8) (reverse (ucast b))"
    using times2_pow_byte [of 24 b] add [of 8 24 "drop_bit 24 (reverse (ucast b))"] by simp
  also have "(times2 ^^ (32 + 8)) h = (times2 ^^ 8) (reverse st)"
    unfolding assms add by (simp add: add.commute)
  finally show ?thesis by (simp add: crc_byte_def)
qed

lemma crc_msg_rem:
  "reverse st = (times2 ^^ 32) h \<Longrightarrow> reverse (crc_msg st buf) = (times2 ^^ 32) (foldl rem_step h (msg_bits buf))"
proof (induction buf arbitrary: st h)
  case (Cons b buf)
  then show ?case using crc_byte_rem [of st h b] by (simp add: msg_bits_def)
qed (simp add: msg_bits_def)

lemma byte_bits_drop: "byte_bits (ucast (drop_bit k x AND (0xff :: u32))) = map (bit x) [k..<k + 8]"
proof (rule nth_equalityI)
  fix i assume "i < length (byte_bits (ucast (drop_bit k x AND (0xff :: u32))))"
  then have "i < 8" by (simp add: byte_bits_def)
  moreover have "(0xff :: u32) = mask 8" by (simp add: mask_eq_exp_minus_1)
  ultimately show "byte_bits (ucast (drop_bit k x AND (0xff :: u32))) ! i = map (bit x) [k..<k + 8] ! i"
    by (auto simp: byte_bits_def bit_simps)
qed (simp add: byte_bits_def)

lemma CRC32C_Final_bits: "msg_bits (CRC32C_Final ctx) = map (bit (crc_state ctx)) [0..<32]"
proof -
  have "[0..<32] = [0..<0 + 8] @ [8..<8 + 8] @ [16..<16 + 8] @ [24..<24 + 8 :: nat]"
    by (simp add: upt_conv_Cons)
  moreover have "byte_bits (ucast (crc_state ctx AND 0xff)) = map (bit (crc_state ctx)) [0..<0 + 8]"
    using byte_bits_drop [of 0 "crc_state ctx"] by (simp only: drop_bit_0 id_apply)
  ultimately show ?thesis
    unfolding msg_bits_def CRC32C_Final_def by (simp only: byte_bits_drop list.map concat.simps map_append append_Nil2)
qed

lemma crc_state_multiple:
  assumes "crc_state ctx = crc_msg T_0_0x80 buf"
  shows "\<exists>q. gf2_poly (True # msg_bits buf @ msg_bits (CRC32C_Final ctx)) = times_castagnoli q"
proof -
  let ?h = "foldl rem_step 0 (True # msg_bits buf)"
  have h1: "rem_step 0 True = 1" by (simp add: rem_step_def times2_def)
  have len: "length (msg_bits (CRC32C_Final ctx)) = 32" by (simp add: CRC32C_Final_bits)
  have fin: "foldl rem_step 0 (msg_bits (CRC32C_Final ctx)) = reverse (crc_state ctx)"
    by (rule bit_word_eqI) (auto simp: rem_short CRC32C_Final_bits bit_reverse)
  have rev: "reverse (crc_state ctx) = (times2 ^^ 32) ?h"
    using crc_msg_rem [OF times2_32 [symmetric], of buf] by (simp add: assms h1)
  have "foldl rem_step 0 (True # msg_bits buf @ msg_bits (CRC32C_Final ctx)) =
      foldl rem_step ?h (msg_bits (CRC32C_Final ctx))"
    by simp
  also have "\<dots> = (times2 ^^ 32) ?h XOR reverse (crc_state ctx)"
    unfolding rem_linear [of ?h] len fin ..
  also have "\<dots> = 0" unfolding rev by simp
  finally obtain q where "gf2_poly (True # msg_bits buf @ msg_bits (CRC32C_Final ctx)) XOR times_castagnoli q = 0"
    using long_division [of "True # msg_bits buf @ msg_bits (CRC32C_Final ctx)"] by auto
  then show ?thesis by (metis xor.assoc xor_self_eq xor.right_neutral xor.left_neutral)
qed

text \<open>The static variables that a program can see: after any number of calls of \<open>CRC32C_Init\<close>.\<close>

inductive crc_reach :: "crc_cpu \<Rightarrow> crc_static \<Rightarrow> bool" for cpu where
  crc_start: "crc_reach cpu crc_static0"
| crc_again: "crc_reach cpu g \<Longrightarrow> CRC32C_Init cpu addr g = Some (g', ctx) \<Longrightarrow> crc_reach cpu g'"

fun crc_updates :: "crc_cpu \<Rightarrow> crc_static \<Rightarrow> CRC32C_CTX \<Rightarrow> (nat \<times> bytes) list \<Rightarrow> CRC32C_CTX option" where
  "crc_updates cpu g ctx [] = Some ctx"
| "crc_updates cpu g ctx ((addr, buf) # cs) = do {
     ctx' \<leftarrow> CRC32C_Update cpu g ctx addr buf;
     crc_updates cpu g ctx' cs
   }"

lemma crc_init_ok: "crc_init g = Some (g\<lparr>T0 := map (crc_entry 1) [0..<256], T1 := map (crc_entry 2) [0..<256],
    T2 := map (crc_entry 3) [0..<256], T3 := map (crc_entry 4) [0..<256]\<rparr>)"
  using T0_0x80 by (simp add: crc_init_def Let_def)

lemma crc_hwtest_total: "crc_cpu_ok cpu \<Longrightarrow> \<exists>b. crc_hwtest cpu hw addr = Some b"
proof -
  assume ok: "crc_cpu_ok cpu"
  have "8 \<le> length hello_world" "11 \<le> length hello_world" by (simp_all add: hello_world_def)
  moreover have "(11 :: nat) \<le> SIZE_MAX" by (simp add: SIZE_MAX_def)
  ultimately have "crc_update_hw (crc_u8 cpu) (crc_u64 cpu) T_0_0x80 addr hello_world 11 =
      Some (crc_msg T_0_0x80 (take 11 hello_world))"
    using ok by (intro crc_update_hw_eq) (auto simp: crc_cpu_ok_def)
  then show ?thesis by (simp add: crc_hwtest_def CRC32C_Update_SSE42_def CRC32C_Update_ARM_def)
qed

lemma crc_hwaccel_init_ok:
  assumes "crc_cpu_ok cpu"
  shows "\<exists>hw. crc_hwaccel_init cpu addr g = Some (g\<lparr>hwaccel := hw\<rparr>)"
proof -
  have same: "g = g\<lparr>hwaccel := hwaccel g\<rparr>" by simp
  show ?thesis
  proof (cases "hwaccel g \<noteq> HW_UNSET \<or> crc_built cpu = None \<or> \<not> crc_has cpu")
    case True
    then show ?thesis by (cases "hwaccel g = HW_UNSET")
      (use same in \<open>auto simp: crc_hwaccel_init_def Let_def split: option.splits intro: exI [of _ "hwaccel g"]\<close>)
  next
    case False
    then obtain hw where hw: "crc_built cpu = Some hw" by auto
    from crc_hwtest_total [OF assms, of hw addr] obtain b where "crc_hwtest cpu hw addr = Some b" ..
    with False hw show ?thesis by (cases b) (auto simp: crc_hwaccel_init_def Let_def)
  qed
qed

lemma CRC32C_Init_ok:
  assumes "crc_cpu_ok cpu" "initdone g \<longrightarrow> crc_tabs g"
  shows "okp (CRC32C_Init cpu addr g) (\<lambda>(g', ctx). initdone g' \<and> crc_tabs g' \<and> ctx = \<lparr>crc_state = T_0_0x80\<rparr>)"
proof -
  let ?g = "if initdone g then g else g\<lparr>T0 := map (crc_entry 1) [0..<256], T1 := map (crc_entry 2) [0..<256],
    T2 := map (crc_entry 3) [0..<256], T3 := map (crc_entry 4) [0..<256], initdone := True\<rparr>"
  have g: "initdone ?g" "crc_tabs ?g" using assms(2) by (auto simp: crc_tabs_def)
  from crc_hwaccel_init_ok [OF assms(1), of addr ?g] obtain hw
    where hw: "crc_hwaccel_init cpu addr ?g = Some (?g\<lparr>hwaccel := hw\<rparr>)" ..
  have "CRC32C_Init cpu addr g = Some (?g\<lparr>hwaccel := hw\<rparr>, \<lparr>crc_state = T_0_0x80\<rparr>)"
    using hw by (cases "initdone g") (simp_all add: CRC32C_Init_def crc_init_ok Let_def)
  with g show ?thesis by (simp add: crc_tabs_def)
qed

lemma crc_reach_tabs: "crc_reach cpu g \<Longrightarrow> crc_cpu_ok cpu \<Longrightarrow> initdone g \<longrightarrow> crc_tabs g"
proof (induction rule: crc_reach.induct)
  case (crc_again g addr g' ctx)
  then show ?case using CRC32C_Init_ok [of cpu g addr] by auto
qed (simp add: crc_static0_def)

lemma CRC32C_Update_ok:
  assumes "crc_cpu_ok cpu" "crc_tabs g" "length buf \<le> SIZE_MAX"
  shows "CRC32C_Update cpu g ctx addr buf = Some (ctx\<lparr>crc_state := crc_msg (crc_state ctx) buf\<rparr>)"
proof -
  have "crc_update_hw (crc_u8 cpu) (crc_u64 cpu) (crc_state ctx) addr buf (length buf) =
      Some (crc_msg (crc_state ctx) buf)" if "8 \<le> length buf"
    using crc_update_hw_eq [of "crc_u8 cpu" "crc_u64 cpu" "length buf" buf] that assms
    by (simp add: crc_cpu_ok_def)
  with assms show ?thesis
    by (simp add: CRC32C_Update_def CRC32C_Update_SSE42_def CRC32C_Update_ARM_def crc_soft_eq Let_def)
qed

lemma crc_updates_ok:
  "crc_cpu_ok cpu \<Longrightarrow> crc_tabs g \<Longrightarrow> \<forall>(addr, buf) \<in> set cs. length buf \<le> SIZE_MAX \<Longrightarrow>
   crc_updates cpu g ctx cs = Some (ctx\<lparr>crc_state := crc_msg (crc_state ctx) (concat (map snd cs))\<rparr>)"
  by (induction cs arbitrary: ctx) (auto simp: CRC32C_Update_ok)

text \<open>
  C18.  CRC32C.  Whatever the earlier calls, the hardware support and the addresses of the
  buffers, \<open>CRC32C_Init\<close>, any number of \<open>CRC32C_Update\<close> and \<open>CRC32C_Final\<close> return without a
  failed assertion or a stray access, and \<open>1[buf]...[buf][cbuf]\<close>, read as a bit string, is a
  product of the Castagnoli polynomial.  The accelerated instructions are assumed to compute what
  their manuals say.
\<close>

theorem CRC32C_product:
  assumes "crc_cpu_ok cpu" "crc_reach cpu g" "\<forall>(addr, buf) \<in> set cs. length buf \<le> SIZE_MAX"
  shows "okp (CRC32C_Init cpu a g) (\<lambda>(g', ctx0). okp (crc_updates cpu g' ctx0 cs) (\<lambda>ctx.
    length (CRC32C_Final ctx) = 4 \<and>
    (\<exists>q. gf2_poly (True # msg_bits (concat (map snd cs)) @ msg_bits (CRC32C_Final ctx)) = times_castagnoli q)))"
proof -
  have "okp (CRC32C_Init cpu a g) (\<lambda>(g', ctx). initdone g' \<and> crc_tabs g' \<and> ctx = \<lparr>crc_state = T_0_0x80\<rparr>)"
    using crc_reach_tabs [OF assms(2,1)] assms(1) by (rule CRC32C_Init_ok [rotated])
  then show ?thesis
  proof (rule okp_mono, clarify)
    fix g' assume g': "crc_tabs g'"
    let ?ctx = "\<lparr>crc_state = crc_msg T_0_0x80 (concat (map snd cs))\<rparr>"
    have "crc_updates cpu g' \<lparr>crc_state = T_0_0x80\<rparr> cs = Some ?ctx"
      using crc_updates_ok [OF assms(1) g' assms(3), of "\<lparr>crc_state = T_0_0x80\<rparr>"] by simp
    moreover have "\<exists>q. gf2_poly (True # msg_bits (concat (map snd cs)) @ msg_bits (CRC32C_Final ?ctx)) = times_castagnoli q"
      by (rule crc_state_multiple) simp
    ultimately show "okp (crc_updates cpu g' \<lparr>crc_state = T_0_0x80\<rparr> cs) (\<lambda>ctx. length (CRC32C_Final ctx) = 4 \<and>
        (\<exists>q. gf2_poly (True # msg_bits (concat (map snd cs)) @ msg_bits (CRC32C_Final ctx)) = times_castagnoli q))"
      by (simp only: okp_Some) (simp add: CRC32C_Final_def)
  qed
qed

definition crc_model_cpu :: crc_cpu where
  "crc_model_cpu = \<lparr>crc_built = Some HW_X86_CRC32, crc_has = True, crc_u8 = crc_byte,
     crc_u64 = (\<lambda>st w. foldl crc_byte st (le64enc w))\<rparr>"

theorem CRC32C_product_witness:
  "okp (CRC32C_Init crc_model_cpu 3 crc_static0) (\<lambda>(g', ctx0).
     okp (crc_updates crc_model_cpu g' ctx0 [(5, hello_world), (16, [1, 2])]) (\<lambda>ctx.
       length (CRC32C_Final ctx) = 4 \<and>
       (\<exists>q. gf2_poly (True # msg_bits (hello_world @ [1, 2]) @ msg_bits (CRC32C_Final ctx)) = times_castagnoli q)))"
proof -
  have "crc_cpu_ok crc_model_cpu" by (simp add: crc_cpu_ok_def crc_model_cpu_def)
  moreover have "\<forall>(addr, buf) \<in> set [(5 :: nat, hello_world), (16, [1, 2])]. length buf \<le> SIZE_MAX"
    by (simp add: hello_world_def SIZE_MAX_def)
  ultimately show ?thesis
    using CRC32C_product [OF _ crc_start, of crc_model_cpu "[(5, hello_world), (16, [1, 2])]" 3] by simp
qed

text \<open>
  C36.  The accelerated update of a buffer of at least eight bytes returns for every address: no
  assertion of \<open>CRC32C_Update_SSE42\<close> or \<open>CRC32C_Update_ARM\<close> can fail, every byte is read once
  and none outside of the buffer, and the result is that of the byte instruction applied to the bytes in order.
\<close>

theorem CRC32C_Update_hw_total:
  assumes "crc_cpu_ok cpu" "8 \<le> len" "len \<le> length buf" "len \<le> SIZE_MAX"
  shows "CRC32C_Update_SSE42 cpu st addr buf len = Some (foldl (crc_u8 cpu) st (take len buf)) \<and>
    CRC32C_Update_ARM cpu st addr buf len = Some (foldl (crc_u8 cpu) st (take len buf))"
proof -
  have "crc_u8 cpu = crc_byte" using assms(1) unfolding crc_cpu_ok_def by blast
  with assms have "crc_update_hw (crc_u8 cpu) (crc_u64 cpu) st addr buf len = Some (foldl (crc_u8 cpu) st (take len buf))"
    using crc_update_hw_eq [of "crc_u8 cpu" "crc_u64 cpu" len buf st addr] by (simp add: crc_cpu_ok_def crc_msg_def)
  then show ?thesis by (simp add: CRC32C_Update_SSE42_def CRC32C_Update_ARM_def)
qed

theorem CRC32C_Update_hw_total_witness:
  "CRC32C_Update_SSE42 crc_model_cpu 7 0x1003 hello_world 10 =
     Some (foldl (crc_u8 crc_model_cpu) 7 (take 10 hello_world)) \<and>
   CRC32C_Update_ARM crc_model_cpu 7 0x1003 hello_world 10 =
     Some (foldl (crc_u8 crc_model_cpu) 7 (take 10 hello_world))"
  by (rule CRC32C_Update_hw_total)
     (simp_all add: crc_cpu_ok_def crc_model_cpu_def hello_world_def SIZE_MAX_def)

end
