(* ===== verification/Aes_Ctr.thy ===== *)
theory Aes_Ctr
  imports Sysendian
begin

text \<open>
  AES in counter mode, from \<open>crypto/crypto_aesctr_shared.c\<close>, \<open>crypto_aesctr.c\<close>,
  \<open>crypto_aesctr_aesni.c\<close> and \<open>crypto_aesctr_arm.c\<close>.  The block cipher is a parameter: a
  function of an expanded key and a block, which the code takes from OpenSSL or from the
  processor.  A pointer into a buffer with its length is the list of the bytes that follow;
  output is the list of bytes written.
\<close>

section \<open>Definitions\<close>

record 'k crypto_aesctr =
  ac_key :: "'k option"
  ac_bytectr :: nat
  ac_buf :: bytes
  ac_pblk :: bytes

text \<open>The bytes at \<open>inbuf\<close>, those written to \<open>outbuf\<close>, and \<open>buflen\<close>.\<close>

type_synonym cursor = "bytes \<times> bytes \<times> nat"

definition crypto_aesctr_stream_cipherblock_generate ::
  "('k \<Rightarrow> bytes \<Rightarrow> bytes) \<Rightarrow> 'k crypto_aesctr \<Rightarrow> 'k crypto_aesctr option" where
  "crypto_aesctr_stream_cipherblock_generate aes st = do {
     cassert (ac_bytectr st mod 16 = 0);
     let pblk = (ac_pblk st)[15 := ac_pblk st ! 15 + 1];
     pblk \<leftarrow> (if pblk ! 15 = 0 then mem_store pblk 8 (be64enc (of_nat (ac_bytectr st div 16))) else Some pblk);
     key \<leftarrow> ac_key st;
     Some (st\<lparr>ac_pblk := pblk, ac_buf := aes key pblk\<rparr>)
   }"

definition crypto_aesctr_stream_cipherblock_use ::
  "'k crypto_aesctr \<Rightarrow> cursor \<Rightarrow> nat \<Rightarrow> nat \<Rightarrow> ('k crypto_aesctr \<times> cursor) option" where
  "crypto_aesctr_stream_cipherblock_use st c nbytes bytemod =
     (case c of (inbuf, outbuf, buflen) \<Rightarrow> do {
        src \<leftarrow> mem_load inbuf 0 nbytes;
        ks \<leftarrow> mem_load (ac_buf st) bytemod nbytes;
        Some (st\<lparr>ac_bytectr := szadd (ac_bytectr st) nbytes\<rparr>,
              (drop nbytes inbuf, outbuf @ map2 (XOR) src ks, szsub buflen nbytes))
      })"

text \<open>Process any bytes before a whole block; the flag says that no bytes are left.\<close>

definition crypto_aesctr_stream_pre_wholeblock ::
  "'k crypto_aesctr \<Rightarrow> cursor \<Rightarrow> ('k crypto_aesctr \<times> cursor \<times> bool) option" where
  "crypto_aesctr_stream_pre_wholeblock st c =
     (case c of (inbuf, outbuf, buflen) \<Rightarrow>
        (let bytemod = ac_bytectr st mod 16 in
         if bytemod \<noteq> 0 then
           (if buflen \<le> 16 - bytemod then do {
              (st, c) \<leftarrow> crypto_aesctr_stream_cipherblock_use st c buflen bytemod;
              Some (st, c, True)
            }
            else do {
              (st, c) \<leftarrow> crypto_aesctr_stream_cipherblock_use st c (16 - bytemod) bytemod;
              Some (st, c, False)
            })
         else Some (st, c, False)))"

definition crypto_aesctr_stream_post_wholeblock ::
  "('k \<Rightarrow> bytes \<Rightarrow> bytes) \<Rightarrow> 'k crypto_aesctr \<Rightarrow> cursor \<Rightarrow> ('k crypto_aesctr \<times> cursor) option" where
  "crypto_aesctr_stream_post_wholeblock aes st c =
     (if snd (snd c) > 0 then do {
        st \<leftarrow> crypto_aesctr_stream_cipherblock_generate aes st;
        crypto_aesctr_stream_cipherblock_use st c (snd (snd c)) 0
      }
      else Some (st, c))"

definition crypto_aesctr_init2 :: "'k crypto_aesctr \<Rightarrow> 'k option \<Rightarrow> u64 \<Rightarrow> 'k crypto_aesctr option" where
  "crypto_aesctr_init2 st key nonce = do {
     let st = (if key \<noteq> None then st\<lparr>ac_key := key\<rparr> else st);
     pblk \<leftarrow> mem_store (ac_pblk st) 0 (be64enc nonce);
     let st = st\<lparr>ac_pblk := pblk, ac_bytectr := 0\<rparr>;
     let st = st\<lparr>ac_pblk := (ac_pblk st)[15 := 0xff]\<rparr>;
     cassert (ac_key st \<noteq> None);
     Some st
   }"

text \<open>\<open>new\<close> is what \<open>malloc\<close> returns, a structure with any contents.\<close>

definition crypto_aesctr_init ::
  "'k crypto_aesctr option \<Rightarrow> 'k option \<Rightarrow> u64 \<Rightarrow> 'k crypto_aesctr option option" where
  "crypto_aesctr_init new key nonce = do {
     cassert (key \<noteq> None);
     (case new of None \<Rightarrow> Some None
      | Some st \<Rightarrow> do { st \<leftarrow> crypto_aesctr_init2 st key nonce; Some (Some st) })
   }"

function ctr_wholeblocks ::
  "('k \<Rightarrow> bytes \<Rightarrow> bytes) \<Rightarrow> 'k crypto_aesctr \<Rightarrow> bytes \<Rightarrow> bytes \<Rightarrow> nat \<Rightarrow> ('k crypto_aesctr \<times> cursor) option" where
  "ctr_wholeblocks aes st inbuf outbuf buflen =
     (if buflen \<ge> 16 then do {
        st \<leftarrow> crypto_aesctr_stream_cipherblock_generate aes st;
        (st, c) \<leftarrow> crypto_aesctr_stream_cipherblock_use st (inbuf, outbuf, buflen) 16 0;
        ctr_wholeblocks aes st (fst c) (fst (snd c)) (buflen - 16)
      }
      else Some (st, (inbuf, outbuf, buflen)))"
  by pat_completeness auto
termination by (relation "measure (\<lambda>(_, _, _, _, n). n)") auto

declare ctr_wholeblocks.simps [simp del]

text \<open>
  The version for AES-NI.  A register of 128 bits is the list of its 16 bytes;
  \<open>load_si64\<close> leaves the upper half undefined, which is the argument \<open>upper\<close>.
\<close>

definition load_si64 :: "bytes \<Rightarrow> bytes \<Rightarrow> bytes option" where
  "load_si64 upper m = do { low \<leftarrow> mem_load m 0 8; Some (low @ upper) }"

definition mm_unpacklo_epi64 :: "bytes \<Rightarrow> bytes \<Rightarrow> bytes" where
  "mm_unpacklo_epi64 a b = take 8 a @ take 8 b"

text \<open>\<open>Suc i\<close> blocks are left; the result has the counter that was encoded last.\<close>

fun aesni_blocks :: "bytes \<Rightarrow> (bytes \<Rightarrow> bytes) \<Rightarrow> bytes \<Rightarrow> u64 \<Rightarrow> nat \<Rightarrow> bytes \<Rightarrow> bytes \<Rightarrow> (bytes \<times> bytes \<times> bytes) option" where
  "aesni_blocks upper enc nonce_be block_counter 0 inbuf outbuf = None"
| "aesni_blocks upper enc nonce_be block_counter (Suc i) inbuf outbuf = do {
     let block_counter_be_arr = be64enc block_counter;
     bufsse \<leftarrow> load_si64 upper block_counter_be_arr;
     let bufsse = enc (mm_unpacklo_epi64 nonce_be bufsse);
     inbufsse \<leftarrow> mem_load inbuf 0 16;
     let outbuf = outbuf @ map2 (XOR) inbufsse bufsse;
     let inbuf = drop 16 inbuf;
     if i > 0 then aesni_blocks upper enc nonce_be (block_counter + 1) i inbuf outbuf
     else Some (block_counter_be_arr, inbuf, outbuf)
   }"

definition crypto_aesctr_aesni_stream_wholeblocks ::
  "bytes \<Rightarrow> ('k \<Rightarrow> bytes \<Rightarrow> bytes) \<Rightarrow> 'k crypto_aesctr \<Rightarrow> cursor \<Rightarrow> ('k crypto_aesctr \<times> cursor) option" where
  "crypto_aesctr_aesni_stream_wholeblocks upper aes st c =
     (case c of (inbuf, outbuf, buflen) \<Rightarrow> do {
        nonce_be \<leftarrow> load_si64 upper (ac_pblk st);
        let block_counter = of_nat (ac_bytectr st div 16);
        let num_blocks = buflen div 16;
        key \<leftarrow> ac_key st;
        (arr, inbuf, outbuf) \<leftarrow> aesni_blocks upper (aes key) nonce_be block_counter num_blocks inbuf outbuf;
        let buflen = szsub buflen (szmul 16 num_blocks);
        pblk \<leftarrow> mem_store (ac_pblk st) 8 arr;
        Some (st\<lparr>ac_pblk := pblk, ac_bytectr := szadd (ac_bytectr st) (szmul 16 num_blocks)\<rparr>, (inbuf, outbuf, buflen))
      })"

definition crypto_aesctr_aesni_stream ::
  "bytes \<Rightarrow> ('k \<Rightarrow> bytes \<Rightarrow> bytes) \<Rightarrow> 'k crypto_aesctr \<Rightarrow> cursor \<Rightarrow> ('k crypto_aesctr \<times> cursor) option" where
  "crypto_aesctr_aesni_stream upper aes st c = do {
     (st, c, fin) \<leftarrow> crypto_aesctr_stream_pre_wholeblock st c;
     if fin then Some (st, c)
     else do {
       (st, c) \<leftarrow> (if snd (snd c) \<ge> 16 then crypto_aesctr_aesni_stream_wholeblocks upper aes st c else Some (st, c));
       crypto_aesctr_stream_post_wholeblock aes st c
     }
   }"

text \<open>The version for ARM, with registers of 8 and of 16 bytes.\<close>

definition vcombine_u8 :: "bytes \<Rightarrow> bytes \<Rightarrow> bytes" where
  "vcombine_u8 low high = low @ high"

fun arm_blocks :: "(bytes \<Rightarrow> bytes) \<Rightarrow> bytes \<Rightarrow> u64 \<Rightarrow> nat \<Rightarrow> bytes \<Rightarrow> bytes \<Rightarrow> (bytes \<times> bytes \<times> bytes) option" where
  "arm_blocks enc nonce_be block_counter 0 inbuf outbuf = None"
| "arm_blocks enc nonce_be block_counter (Suc i) inbuf outbuf = do {
     let block_counter_be_arr = be64enc block_counter;
     block_counter_be \<leftarrow> mem_load block_counter_be_arr 0 8;
     let bufarm = enc (vcombine_u8 nonce_be block_counter_be);
     inbufarm \<leftarrow> mem_load inbuf 0 16;
     let outbuf = outbuf @ map2 (XOR) inbufarm bufarm;
     let inbuf = drop 16 inbuf;
     if i > 0 then arm_blocks enc nonce_be (block_counter + 1) i inbuf outbuf
     else Some (block_counter_be_arr, inbuf, outbuf)
   }"

definition crypto_aesctr_arm_stream_wholeblocks ::
  "('k \<Rightarrow> bytes \<Rightarrow> bytes) \<Rightarrow> 'k crypto_aesctr \<Rightarrow> cursor \<Rightarrow> ('k crypto_aesctr \<times> cursor) option" where
  "crypto_aesctr_arm_stream_wholeblocks aes st c =
     (case c of (inbuf, outbuf, buflen) \<Rightarrow> do {
        nonce_be \<leftarrow> mem_load (ac_pblk st) 0 8;
        let block_counter = of_nat (ac_bytectr st div 16);
        let num_blocks = buflen div 16;
        key \<leftarrow> ac_key st;
        (arr, inbuf, outbuf) \<leftarrow> arm_blocks (aes key) nonce_be block_counter num_blocks inbuf outbuf;
        let buflen = szsub buflen (szmul 16 num_blocks);
        pblk \<leftarrow> mem_store (ac_pblk st) 8 arr;
        Some (st\<lparr>ac_pblk := pblk, ac_bytectr := szadd (ac_bytectr st) (szmul 16 num_blocks)\<rparr>, (inbuf, outbuf, buflen))
      })"

definition crypto_aesctr_arm_stream ::
  "('k \<Rightarrow> bytes \<Rightarrow> bytes) \<Rightarrow> 'k crypto_aesctr \<Rightarrow> cursor \<Rightarrow> ('k crypto_aesctr \<times> cursor) option" where
  "crypto_aesctr_arm_stream aes st c = do {
     (st, c, fin) \<leftarrow> crypto_aesctr_stream_pre_wholeblock st c;
     if fin then Some (st, c)
     else do {
       (st, c) \<leftarrow> (if snd (snd c) \<ge> 16 then crypto_aesctr_arm_stream_wholeblocks aes st c else Some (st, c));
       crypto_aesctr_stream_post_wholeblock aes st c
     }
   }"

text \<open>The choice of \<open>hwaccel_init\<close>; with AES-NI, also what the upper halves of registers hold.\<close>

datatype hwaccel = HW_SOFTWARE | HW_X86_AESNI bytes | HW_ARM_AES

definition UINT64_MAX :: nat where
  "UINT64_MAX = 2 ^ 64 - 1"

definition crypto_aesctr_stream ::
  "hwaccel \<Rightarrow> ('k \<Rightarrow> bytes \<Rightarrow> bytes) \<Rightarrow> 'k crypto_aesctr \<Rightarrow> bytes \<Rightarrow> nat \<Rightarrow> ('k crypto_aesctr \<times> bytes) option" where
  "crypto_aesctr_stream hw aes st inbuf buflen = do {
     cassert (buflen < UINT64_MAX - ac_bytectr st);
     (case (16 \<le> buflen, hw) of
        (True, HW_X86_AESNI upper) \<Rightarrow> do {
          (st, c) \<leftarrow> crypto_aesctr_aesni_stream upper aes st (inbuf, [], buflen);
          Some (st, fst (snd c))
        }
      | (True, HW_ARM_AES) \<Rightarrow> do {
          (st, c) \<leftarrow> crypto_aesctr_arm_stream aes st (inbuf, [], buflen);
          Some (st, fst (snd c))
        }
      | _ \<Rightarrow> do {
       (st, c, fin) \<leftarrow> crypto_aesctr_stream_pre_wholeblock st (inbuf, [], buflen);
       if fin then Some (st, fst (snd c))
       else do {
         (st, c) \<leftarrow> ctr_wholeblocks aes st (fst c) (fst (snd c)) (snd (snd c));
         (st, c) \<leftarrow> crypto_aesctr_stream_post_wholeblock aes st c;
         Some (st, fst (snd c))
       }
     })
   }"

text \<open>\<open>st\<close> is the uninitialised structure on the stack.\<close>

definition crypto_aesctr_buf ::
  "hwaccel \<Rightarrow> ('k \<Rightarrow> bytes \<Rightarrow> bytes) \<Rightarrow> 'k crypto_aesctr \<Rightarrow> 'k option \<Rightarrow> u64 \<Rightarrow> bytes \<Rightarrow> nat \<Rightarrow> bytes option" where
  "crypto_aesctr_buf hw aes st key nonce inbuf buflen = do {
     cassert (key \<noteq> None);
     st \<leftarrow> crypto_aesctr_init2 st key nonce;
     (st, out) \<leftarrow> crypto_aesctr_stream hw aes st inbuf buflen;
     Some out
   }"


section \<open>The key stream\<close>

definition ctr_block :: "('k \<Rightarrow> bytes \<Rightarrow> bytes) \<Rightarrow> 'k \<Rightarrow> u64 \<Rightarrow> nat \<Rightarrow> bytes" where
  "ctr_block aes k nonce b = aes k (be64enc nonce @ be64enc (of_nat b))"

definition keystream :: "('k \<Rightarrow> bytes \<Rightarrow> bytes) \<Rightarrow> 'k \<Rightarrow> u64 \<Rightarrow> nat \<Rightarrow> u8" where
  "keystream aes k nonce i = ctr_block aes k nonce (i div 16) ! (i mod 16)"

definition ctr_xor :: "('k \<Rightarrow> bytes \<Rightarrow> bytes) \<Rightarrow> 'k \<Rightarrow> u64 \<Rightarrow> nat \<Rightarrow> bytes \<Rightarrow> bytes" where
  "ctr_xor aes k nonce s xs = map2 (XOR) xs (map (keystream aes k nonce) [s..<s + length xs])"

lemma length_ctr_xor [simp]: "length (ctr_xor aes k nonce s xs) = length xs"
  by (simp add: ctr_xor_def)

lemma ctr_xor_Nil [simp]: "ctr_xor aes k nonce s [] = []"
  by (simp add: ctr_xor_def)

lemma ctr_xor_append:
  "ctr_xor aes k nonce s (xs @ ys) = ctr_xor aes k nonce s xs @ ctr_xor aes k nonce (s + length xs) ys"
proof -
  have "[s..<s + length (xs @ ys)] = [s..<s + length xs] @ [s + length xs..<s + length xs + length ys]"
    using upt_add_eq_append [of s "s + length xs" "length ys"] by (simp add: add.assoc)
  then show ?thesis by (simp add: ctr_xor_def zip_append)
qed

lemma ctr_xor_nth: "i < length xs \<Longrightarrow> ctr_xor aes k nonce s xs ! i = xs ! i XOR keystream aes k nonce (s + i)"
  by (simp add: ctr_xor_def)

lemma ctr_xor_involution: "ctr_xor aes k nonce s (ctr_xor aes k nonce s xs) = xs"
  by (rule nth_equalityI) (simp_all add: ctr_xor_nth xor.assoc)

text \<open>Within one block the stream is a piece of that block.\<close>

lemma ctr_xor_block:
  assumes "length (ctr_block aes k nonce b) = 16" "m + length xs \<le> 16"
  shows "map2 (XOR) xs (take (length xs) (drop m (ctr_block aes k nonce b))) = ctr_xor aes k nonce (16 * b + m) xs"
proof (rule nth_equalityI)
  fix i assume "i < length (map2 (XOR) xs (take (length xs) (drop m (ctr_block aes k nonce b))))"
  then have i: "i < length xs" by simp
  have "(16 * b + m + i) div 16 = b" "(16 * b + m + i) mod 16 = m + i"
    using assms i by (auto simp: div_nat_eqI add.assoc)
  then show "map2 (XOR) xs (take (length xs) (drop m (ctr_block aes k nonce b))) ! i = ctr_xor aes k nonce (16 * b + m) xs ! i"
    using assms i by (simp add: ctr_xor_nth keystream_def)
qed (use assms in simp)


section \<open>The invariant of a stream\<close>

text \<open>Block \<open>b\<close> has been generated.\<close>

definition gen_at :: "('k \<Rightarrow> bytes \<Rightarrow> bytes) \<Rightarrow> 'k \<Rightarrow> u64 \<Rightarrow> nat \<Rightarrow> 'k crypto_aesctr \<Rightarrow> bool" where
  "gen_at aes k nonce b st \<longleftrightarrow>
     ac_key st = Some k \<and> ac_pblk st = be64enc nonce @ be64enc (of_nat b) \<and> ac_buf st = ctr_block aes k nonce b"

text \<open>
  Between calls: within a block it has been generated; at the start of a block the counter is
  that of the block before, or is marked by \<open>0xff\<close>.  When the last whole blocks were done by
  the accelerated code the buffer is stale, which the invariant allows.
\<close>

definition ctr_inv :: "('k \<Rightarrow> bytes \<Rightarrow> bytes) \<Rightarrow> 'k \<Rightarrow> u64 \<Rightarrow> 'k crypto_aesctr \<Rightarrow> bool" where
  "ctr_inv aes k nonce st \<longleftrightarrow>
     ac_bytectr st < UINT64_MAX \<and> ac_key st = Some k \<and> length (ac_pblk st) = 16 \<and> take 8 (ac_pblk st) = be64enc nonce \<and>
     (if ac_bytectr st mod 16 = 0
      then ac_pblk st ! 15 = of_nat (ac_bytectr st div 16) - 1 \<and>
           (0 < ac_bytectr st \<longrightarrow> drop 8 (ac_pblk st) = be64enc (of_nat (ac_bytectr st div 16 - 1)))
      else gen_at aes k nonce (ac_bytectr st div 16) st)"

lemma UINT64_MAX_SIZE_MAX: "UINT64_MAX = SIZE_MAX"
  by (simp add: UINT64_MAX_def SIZE_MAX_def)

text \<open>Only the last byte changes when a counter is incremented without a carry.\<close>

lemma byte_of_word: "ucast (drop_bit n x AND 0xff) = (of_nat (unat x div 2 ^ n) :: u8)" for x :: u64
proof (rule bit_word_eqI)
  fix i assume i: "i < LENGTH(8)"
  have "bit (drop_bit n (unat x)) i = bit (drop_bit n x) i"
    by (simp add: bit_drop_bit_eq bit_unsigned_iff)
  then show "bit (ucast (drop_bit n x AND 0xff) :: u8) i = bit (of_nat (unat x div 2 ^ n) :: u8) i"
    using i by (simp add: bit_simps drop_bit_eq_div [symmetric] flip: mask_eq_exp_minus_1)
qed

lemma be64enc_bytes:
  "be64enc x = map (\<lambda>i. of_nat (unat x div 2 ^ i)) [56, 48, 40, 32, 24, 16, 8, 0]"
  using byte_of_word [of 0 x] by (simp add: be64enc_def byte_of_word)

lemma div_pow_pred: "b mod 256 \<noteq> 0 \<Longrightarrow> 8 \<le> i \<Longrightarrow> (b - 1) div 2 ^ i = b div 2 ^ i" for b :: nat
proof -
  assume b: "b mod 256 \<noteq> 0" and i: "8 \<le> i"
  have "256 * (b div 256) + b mod 256 = b" "b mod 256 < 256" by (rule mult_div_mod_eq) simp
  then have "256 * (b div 256) \<le> b - 1" "b - 1 < 256 + 256 * (b div 256)" using b by linarith+
  then have 1: "(b - 1) div 256 = b div 256" by (intro div_nat_eqI) simp_all
  have 2: "(2::nat) ^ i = 256 * 2 ^ (i - 8)"
    using i power_add [of "2::nat" 8 "i - 8"] by simp
  show ?thesis unfolding 2 div_mult2_eq 1 ..
qed

lemma be64enc_pred:
  assumes "b < 2 ^ 64" "b mod 256 \<noteq> 0"
  shows "(be64enc (of_nat (b - 1)))[7 := of_nat b] = be64enc (of_nat b)"
proof -
  have "unat (of_nat b :: u64) = b" "unat (of_nat (b - 1) :: u64) = b - 1"
    using assms by (auto simp: unat_of_nat simp del: of_nat_diff)
  moreover note div_pow_pred [OF assms(2), of 56] div_pow_pred [OF assms(2), of 48]
    div_pow_pred [OF assms(2), of 40] div_pow_pred [OF assms(2), of 32] div_pow_pred [OF assms(2), of 24]
    div_pow_pred [OF assms(2), of 16] div_pow_pred [OF assms(2), of 8]
  ultimately show ?thesis by (simp add: be64enc_bytes)
qed

lemma be64enc_last: "be64enc (of_nat b) ! 7 = of_nat b"
  by (simp add: be64enc_bytes) (simp add: unsigned_of_nat word_of_nat_eq_iff)


section \<open>What the parts of a call do\<close>

text \<open>The first \<open>n\<close> bytes of the input have been encrypted.\<close>

definition ctr_did ::
  "('k \<Rightarrow> bytes \<Rightarrow> bytes) \<Rightarrow> 'k \<Rightarrow> u64 \<Rightarrow> nat \<Rightarrow> cursor \<Rightarrow> nat \<Rightarrow> 'k crypto_aesctr \<Rightarrow> cursor \<Rightarrow> bool" where
  "ctr_did aes k nonce s c n st' c' \<longleftrightarrow>
     (case c of (inbuf, outbuf, buflen) \<Rightarrow>
        ctr_inv aes k nonce st' \<and> ac_bytectr st' = s + n \<and>
        c' = (drop n inbuf, outbuf @ ctr_xor aes k nonce s (take n inbuf), buflen - n))"

lemma ctr_did_0: "ctr_inv aes k nonce st \<Longrightarrow> ac_bytectr st = s \<Longrightarrow> ctr_did aes k nonce s c 0 st c"
  by (simp add: ctr_did_def split: prod.splits)

lemma ctr_did_trans:
  assumes "ctr_did aes k nonce s c n st' c'" "ctr_did aes k nonce (s + n) c' m st'' c''" "n \<le> length (fst c)"
  shows "ctr_did aes k nonce s c (n + m) st'' c''"
proof -
  obtain inbuf outbuf buflen where c: "c = (inbuf, outbuf, buflen)" by (cases c)
  have "take (n + m) inbuf = take n inbuf @ take m (drop n inbuf)" by (rule take_add)
  then show ?thesis using assms
    by (simp add: ctr_did_def c ctr_xor_append add.commute min_absorb2)
qed

lemma use_did:
  assumes gen: "gen_at aes k nonce b st" and s: "ac_bytectr st = 16 * b + m"
    and len: "length (ctr_block aes k nonce b) = 16"
    and n: "m + n \<le> 16" "0 < m + n" "m < 16" "n \<le> length inbuf" "n \<le> buflen" "16 * b + m + buflen < UINT64_MAX"
  shows "okp (crypto_aesctr_stream_cipherblock_use st (inbuf, outbuf, buflen) n m)
    (\<lambda>(st', c'). ctr_did aes k nonce (16 * b + m) (inbuf, outbuf, buflen) n st' c')"
proof -
  let ?st = "st\<lparr>ac_bytectr := 16 * b + m + n\<rparr>"
  have inv: "ctr_inv aes k nonce ?st"
  proof (cases "m + n = 16")
    case True
    then have "16 * b + m + n = 16 * Suc b" by simp
    then have "(16 * b + m + n) mod 16 = 0" "(16 * b + m + n) div 16 = Suc b" by (simp_all only: mod_mult_self1_is_0 nonzero_mult_div_cancel_left)
    then show ?thesis using gen n True by (simp add: ctr_inv_def gen_at_def nth_append be64enc_last)
  next
    case False
    then have "(16 * b + m + n) mod 16 = m + n" "(16 * b + m + n) div 16 = b" using n by (simp_all add: add.assoc)
    then show ?thesis using gen n by (auto simp: ctr_inv_def gen_at_def)
  qed
  have "map2 (XOR) (take n inbuf) (take n (drop m (ac_buf st))) = ctr_xor aes k nonce (16 * b + m) (take n inbuf)"
    using ctr_xor_block [OF len, of m "take n inbuf"] gen n by (simp add: gen_at_def min_absorb2)
  then show ?thesis using inv gen n s len
    by (simp add: crypto_aesctr_stream_cipherblock_use_def wp_rules ctr_did_def gen_at_def UINT64_MAX_SIZE_MAX)
qed

lemma generate_ok:
  assumes inv: "ctr_inv aes k nonce st" and mod: "ac_bytectr st mod 16 = 0"
  shows "okp (crypto_aesctr_stream_cipherblock_generate aes st)
    (\<lambda>st'. gen_at aes k nonce (ac_bytectr st div 16) st' \<and> ac_bytectr st' = ac_bytectr st)"
proof -
  let ?b = "ac_bytectr st div 16" and ?p = "(ac_pblk st)[15 := ac_pblk st ! 15 + 1]"
  have p: "length (ac_pblk st) = 16" "take 8 (ac_pblk st) = be64enc nonce" "ac_key st = Some k"
    and p15: "ac_pblk st ! 15 + 1 = of_nat ?b"
    and p8: "0 < ?b \<Longrightarrow> drop 8 (ac_pblk st) = be64enc (of_nat (?b - 1))"
    using inv mod by (auto simp: ctr_inv_def)
  have "ac_bytectr st < UINT64_MAX" using inv by (simp add: ctr_inv_def)
  then have lt: "?b < 2 ^ 64" unfolding UINT64_MAX_def by linarith
  have "ac_pblk st ! 15 + 1 \<noteq> 0 \<Longrightarrow> ?p = be64enc nonce @ be64enc (of_nat ?b)"
  proof -
    assume nz: "ac_pblk st ! 15 + 1 \<noteq> 0"
    then have m: "?b mod 256 \<noteq> 0" unfolding p15 by (simp add: word_of_nat_eq_0_iff dvd_eq_mod_eq_0)
    have "?p = take 8 (ac_pblk st) @ (drop 8 (ac_pblk st))[7 := of_nat ?b]"
      by (subst append_take_drop_id [of 8 "ac_pblk st", symmetric]) (simp add: list_update_append p p15)
    also have "\<dots> = be64enc nonce @ be64enc (of_nat ?b)"
      using m p8 be64enc_pred [OF lt m] p by (cases "?b = 0") simp_all
    finally show ?thesis .
  qed
  then show ?thesis using mod p
    by (auto simp: crypto_aesctr_stream_cipherblock_generate_def wp_rules gen_at_def ctr_block_def Let_def)
qed

text \<open>Every part of a call is given the rest of the input and its length.\<close>

definition cursor_ok :: "nat \<Rightarrow> cursor \<Rightarrow> bool" where
  "cursor_ok s c \<longleftrightarrow> snd (snd c) \<le> length (fst c) \<and> s + snd (snd c) < UINT64_MAX"

lemma cursor_ok_did:
  "ctr_did aes k nonce s c n st' c' \<Longrightarrow> cursor_ok s c \<Longrightarrow> n \<le> snd (snd c) \<Longrightarrow>
    cursor_ok (s + n) c' \<and> snd (snd c') = snd (snd c) - n \<and> n \<le> length (fst c)"
  by (auto simp: ctr_did_def cursor_ok_def split: prod.splits)

lemma generate_use_did:
  assumes inv: "ctr_inv aes k nonce st" and mod: "ac_bytectr st mod 16 = 0" and s: "ac_bytectr st = s"
    and aes: "\<And>x. length (aes k x) = 16" and c: "cursor_ok s c" and n: "0 < n" "n \<le> 16" "n \<le> snd (snd c)"
  shows "okp (Option.bind (crypto_aesctr_stream_cipherblock_generate aes st)
      (\<lambda>st. crypto_aesctr_stream_cipherblock_use st c n 0)) (\<lambda>(st', c'). ctr_did aes k nonce s c n st' c')"
proof -
  have s16: "16 * (s div 16) + 0 = s" using mod s by auto
  obtain inbuf outbuf buflen where c': "c = (inbuf, outbuf, buflen)" by (cases c)
  show ?thesis unfolding okp_bind
    by (rule okp_mono [OF generate_ok [OF inv mod]])
      (use use_did [where b = "s div 16" and m = 0 and aes = aes and k = k and nonce = nonce] n c s s16 aes
        in \<open>auto simp: c' cursor_ok_def ctr_block_def\<close>)
qed

lemma pre_wholeblock_did:
  assumes inv: "ctr_inv aes k nonce st" and s: "ac_bytectr st = s"
    and aes: "\<And>x. length (aes k x) = 16" and c: "cursor_ok s c"
  shows "okp (crypto_aesctr_stream_pre_wholeblock st c)
    (\<lambda>(st', c', fin). \<exists>n \<le> snd (snd c). ctr_did aes k nonce s c n st' c' \<and>
       (if fin then n = snd (snd c) else (s + n) mod 16 = 0))"
proof (cases "s mod 16 = 0")
  case True
  then show ?thesis using inv s by (auto simp: crypto_aesctr_stream_pre_wholeblock_def ctr_did_0 split: prod.splits)
next
  case False
  obtain inbuf outbuf buflen where c': "c = (inbuf, outbuf, buflen)" by (cases c)
  have gen: "gen_at aes k nonce (s div 16) st" using inv s False by (simp add: ctr_inv_def)
  have s16: "16 * (s div 16) + s mod 16 = s" by simp
  have use: "n \<le> buflen \<Longrightarrow> s mod 16 + n \<le> 16 \<Longrightarrow>
    okp (crypto_aesctr_stream_cipherblock_use st c n (s mod 16)) (\<lambda>(st', c'). ctr_did aes k nonce s c n st' c')" for n
    using use_did [OF gen, where m = "s mod 16" and n = n and inbuf = inbuf and outbuf = outbuf and buflen = buflen]
      c c' s False aes by (simp add: cursor_ok_def ctr_block_def)
  have end_mod: "(s + (16 - s mod 16)) mod 16 = 0"
  proof -
    have "s + (16 - s mod 16) = 16 * (s div 16) + 16" using s16 by linarith
    then show ?thesis by simp
  qed
  show ?thesis
  proof (cases "buflen \<le> 16 - s mod 16")
    case True
    then have "s mod 16 + buflen \<le> 16" using mod_less_divisor [of 16 s] by linarith
    then obtain st' c'' where "crypto_aesctr_stream_cipherblock_use st c buflen (s mod 16) = Some (st', c'')"
      "ctr_did aes k nonce s c buflen st' c''" using use [of buflen] by (auto elim: okp_pairE)
    then show ?thesis using True False s by (auto simp: crypto_aesctr_stream_pre_wholeblock_def c')
  next
    case F: False
    then obtain st' c'' where "crypto_aesctr_stream_cipherblock_use st c (16 - s mod 16) (s mod 16) = Some (st', c'')"
      "ctr_did aes k nonce s c (16 - s mod 16) st' c''" using use [of "16 - s mod 16"]
      by (auto elim: okp_pairE)
    then show ?thesis using F False s end_mod
      by (auto simp: crypto_aesctr_stream_pre_wholeblock_def c' intro!: exI [of _ "16 - s mod 16"])
  qed
qed

lemma post_wholeblock_did:
  assumes "ctr_inv aes k nonce st" "ac_bytectr st = s" "s mod 16 = 0" "\<And>x. length (aes k x) = 16"
    and c: "cursor_ok s c" "snd (snd c) < 16"
  shows "okp (crypto_aesctr_stream_post_wholeblock aes st c) (\<lambda>(st', c'). ctr_did aes k nonce s c (snd (snd c)) st' c')"
proof (cases "snd (snd c) = 0")
  case True
  then show ?thesis using assms by (simp add: crypto_aesctr_stream_post_wholeblock_def ctr_did_0)
next
  case False
  then show ?thesis using assms generate_use_did [of aes k nonce st s c "snd (snd c)"]
    by (simp add: crypto_aesctr_stream_post_wholeblock_def)
qed

lemma ctr_wholeblocks_did:
  assumes "ctr_inv aes k nonce st" "ac_bytectr st = s" "s mod 16 = 0" "\<And>x. length (aes k x) = 16"
    "cursor_ok s (inbuf, outbuf, buflen)"
  shows "okp (ctr_wholeblocks aes st inbuf outbuf buflen)
    (\<lambda>(st', c'). ctr_did aes k nonce s (inbuf, outbuf, buflen) (16 * (buflen div 16)) st' c')"
  using assms
proof (induction buflen arbitrary: st s inbuf outbuf rule: less_induct)
  case (less buflen)
  show ?case
  proof (cases "buflen < 16")
    case True
    then show ?thesis using less.prems by (subst ctr_wholeblocks.simps) (simp add: ctr_did_0)
  next
    case False
    let ?c = "(inbuf, outbuf, buflen)"
    have *: "okp (Option.bind (crypto_aesctr_stream_cipherblock_generate aes st)
        (\<lambda>st. crypto_aesctr_stream_cipherblock_use st ?c 16 0)) (\<lambda>(st', c'). ctr_did aes k nonce s ?c 16 st' c')"
      using less.prems False by (intro generate_use_did) auto
    then obtain st1 st2 c2 where r: "crypto_aesctr_stream_cipherblock_generate aes st = Some st1"
      "crypto_aesctr_stream_cipherblock_use st1 ?c 16 0 = Some (st2, c2)" and did: "ctr_did aes k nonce s ?c 16 st2 c2"
      by (auto simp: okp_iff Option.bind_eq_Some_conv)
    have ok: "cursor_ok (s + 16) c2" using cursor_ok_did [OF did less.prems(5)] False by simp
    obtain in2 out2 where c2: "c2 = (in2, out2, buflen - 16)" using did by (auto simp: ctr_did_def)
    have "okp (ctr_wholeblocks aes st2 in2 out2 (buflen - 16))
       (\<lambda>(st', c'). ctr_did aes k nonce (s + 16) c2 (16 * ((buflen - 16) div 16)) st' c')"
      unfolding c2 using less.prems did ok False by (intro less.IH) (auto simp: ctr_did_def c2)
    moreover have "16 * (buflen div 16) = 16 + 16 * ((buflen - 16) div 16)" using False by (simp add: div_if)
    ultimately show ?thesis using r c2 False did less.prems(5)
      by (subst ctr_wholeblocks.simps) (auto elim!: okp_mono dest: ctr_did_trans simp: cursor_ok_def)
  qed
qed

text \<open>The accelerated loops encode every counter, and so do the same.\<close>

lemma aesni_blocks_arm: "length nonce_be = 8 \<Longrightarrow>
  aesni_blocks upper enc (nonce_be @ upper) bc n inbuf outbuf = arm_blocks enc nonce_be bc n inbuf outbuf"
  by (induction n arbitrary: bc inbuf outbuf)
    (simp_all add: load_si64_def mem_load_def mm_unpacklo_epi64_def vcombine_u8_def Let_def)

lemma aesni_wholeblocks_arm: "length (ac_pblk st) = 16 \<Longrightarrow>
  crypto_aesctr_aesni_stream_wholeblocks upper aes st c = crypto_aesctr_arm_stream_wholeblocks aes st c"
  by (simp add: crypto_aesctr_aesni_stream_wholeblocks_def crypto_aesctr_arm_stream_wholeblocks_def
      load_si64_def mem_load_def aesni_blocks_arm)

lemma arm_blocks_ok:
  assumes "\<And>x. length (aes k x) = 16" "16 * Suc n \<le> length inbuf"
  shows "arm_blocks (aes k) (be64enc nonce) (of_nat b) (Suc n) inbuf outbuf =
    Some (be64enc (of_nat (b + n)), drop (16 * Suc n) inbuf,
          outbuf @ ctr_xor aes k nonce (16 * b) (take (16 * Suc n) inbuf))"
  using assms(2)
proof (induction n arbitrary: b inbuf outbuf)
  case 0
  then show ?case using ctr_xor_block [of aes k nonce b 0 "take 16 inbuf"] assms(1)
    by (simp add: mem_load_def vcombine_u8_def ctr_block_def)
next
  case (Suc n)
  have 1: "map2 (XOR) (take 16 inbuf) (aes k (be64enc nonce @ be64enc (of_nat b))) = ctr_xor aes k nonce (16 * b) (take 16 inbuf)"
    using ctr_xor_block [of aes k nonce b 0 "take 16 inbuf"] assms(1) Suc.prems by (simp add: ctr_block_def)
  have 2: "take (16 * Suc (Suc n)) inbuf = take 16 inbuf @ take (16 * Suc n) (drop 16 inbuf)"
    using take_add [of 16 "16 * Suc n" inbuf] by simp
  have 3: "arm_blocks (aes k) (be64enc nonce) (of_nat (Suc b)) (Suc n) (drop 16 inbuf)
      (outbuf @ ctr_xor aes k nonce (16 * b) (take 16 inbuf)) =
    Some (be64enc (of_nat (Suc b + n)), drop (16 * Suc n) (drop 16 inbuf),
          (outbuf @ ctr_xor aes k nonce (16 * b) (take 16 inbuf)) @ ctr_xor aes k nonce (16 * Suc b) (take (16 * Suc n) (drop 16 inbuf)))"
    using Suc.prems by (intro Suc.IH) simp
  have "arm_blocks (aes k) (be64enc nonce) (of_nat b) (Suc (Suc n)) inbuf outbuf =
    arm_blocks (aes k) (be64enc nonce) (of_nat (Suc b)) (Suc n) (drop 16 inbuf) (outbuf @ ctr_xor aes k nonce (16 * b) (take 16 inbuf))"
    using Suc.prems by (subst arm_blocks.simps) (simp add: mem_load_def vcombine_u8_def 1 add.commute del: arm_blocks.simps)
  then show ?case using Suc.prems unfolding 3 2
    by (simp add: ctr_xor_append add.commute del: arm_blocks.simps)
qed

lemma arm_wholeblocks_did:
  assumes inv: "ctr_inv aes k nonce st" and s: "ac_bytectr st = s" "s mod 16 = 0"
    and aes: "\<And>x. length (aes k x) = 16" and c: "cursor_ok s c" "16 \<le> snd (snd c)"
  shows "okp (crypto_aesctr_arm_stream_wholeblocks aes st c)
    (\<lambda>(st', c'). ctr_did aes k nonce s c (16 * (snd (snd c) div 16)) st' c')"
proof -
  obtain inbuf outbuf buflen where c': "c = (inbuf, outbuf, buflen)" by (cases c)
  define n where "n = buflen div 16 - 1"
  have n: "buflen div 16 = Suc n" using c(2) by (simp add: c' n_def Suc_diff_Suc div_greater_zero_iff)
  have le: "16 * Suc n \<le> buflen" by (simp add: n [symmetric])
  let ?b = "s div 16"
  have s16: "16 * ?b = s" using s by auto
  have p: "length (ac_pblk st) = 16" "take 8 (ac_pblk st) = be64enc nonce" "ac_key st = Some k"
    using inv by (simp_all add: ctr_inv_def)
  have run: "arm_blocks (aes k) (be64enc nonce) (of_nat ?b) (Suc n) inbuf outbuf =
    Some (be64enc (of_nat (?b + n)), drop (16 * Suc n) inbuf, outbuf @ ctr_xor aes k nonce s (take (16 * Suc n) inbuf))"
    using arm_blocks_ok [of aes k n inbuf nonce ?b outbuf] aes le c(1) s16 by (simp add: cursor_ok_def c')
  let ?st = "st\<lparr>ac_pblk := be64enc nonce @ be64enc (of_nat (?b + n)), ac_bytectr := s + 16 * Suc n\<rparr>"
  have m: "(s + 16 * Suc n) mod 16 = 0" "(s + 16 * Suc n) div 16 = ?b + Suc n" using s by (auto simp del: mult_Suc_right)
  have bound: "s + 16 * Suc n < UINT64_MAX" using c(1) le by (simp add: cursor_ok_def c' del: mult_Suc_right)
  have "ctr_inv aes k nonce ?st" unfolding ctr_inv_def using p m bound be64enc_last [of "?b + n"]
    by (simp add: nth_append add.commute del: mult_Suc_right)
  moreover have "buflen \<le> SIZE_MAX" using c(1) by (simp add: cursor_ok_def c' UINT64_MAX_SIZE_MAX)
  ultimately show ?thesis using p run s le bound
    by (simp add: crypto_aesctr_arm_stream_wholeblocks_def c' n wp_rules mem_load_def ctr_did_def UINT64_MAX_SIZE_MAX
        del: mult_Suc_right arm_blocks.simps)
qed


section \<open>Whole calls\<close>

text \<open>All three versions: bytes to the end of a block, whole blocks by some loop, the rest.\<close>

lemma stream_parts_did:
  assumes inv: "ctr_inv aes k nonce st" and s: "ac_bytectr st = s" and aes: "\<And>x. length (aes k x) = 16"
    and c: "cursor_ok s c"
    and blocks: "\<And>st s c. ctr_inv aes k nonce st \<Longrightarrow> ac_bytectr st = s \<Longrightarrow> s mod 16 = 0 \<Longrightarrow> cursor_ok s c \<Longrightarrow>
      okp (blocks st c) (\<lambda>(st', c'). ctr_did aes k nonce s c (16 * (snd (snd c) div 16)) st' c')"
  shows "okp (do {
      (st, c, fin) \<leftarrow> crypto_aesctr_stream_pre_wholeblock st c;
      if fin then Some (st, c)
      else do { (st, c) \<leftarrow> blocks st c; crypto_aesctr_stream_post_wholeblock aes st c } })
    (\<lambda>(st', c'). ctr_did aes k nonce s c (snd (snd c)) st' c')"
proof -
  obtain st1 c1 fin n where pre: "crypto_aesctr_stream_pre_wholeblock st c = Some (st1, c1, fin)"
    and n: "n \<le> snd (snd c)" and did: "ctr_did aes k nonce s c n st1 c1"
    and fin: "if fin then n = snd (snd c) else (s + n) mod 16 = 0"
    using pre_wholeblock_did [of aes k nonce st s c] inv s aes c by (auto simp: okp_iff split_paired_Ex)
  show ?thesis
  proof (cases fin)
    case True
    then show ?thesis using pre did fin by simp
  next
    case False
    let ?len = "snd (snd c) - n" let ?m = "16 * (?len div 16)"
    have c1: "cursor_ok (s + n) c1" "snd (snd c1) = ?len" "n \<le> length (fst c)" using cursor_ok_did [OF did c n] by auto
    have st1: "ctr_inv aes k nonce st1" "ac_bytectr st1 = s + n" using did by (auto simp: ctr_did_def split: prod.splits)
    obtain st2 c2 where two: "blocks st1 c1 = Some (st2, c2)" and did2: "ctr_did aes k nonce (s + n) c1 ?m st2 c2"
      using blocks [OF st1 _ c1(1)] fin False c1(2) by (auto elim: okp_pairE)
    have m: "?m \<le> snd (snd c1)" unfolding c1(2) by simp
    have c2: "cursor_ok (s + n + ?m) c2" "snd (snd c2) = ?len - ?m" "?m \<le> length (fst c1)"
      using cursor_ok_did [OF did2 c1(1) m] c1(2) by auto
    have "?len - ?m = ?len mod 16" by (rule minus_mult_div_eq_mod)
    then have "snd (snd c2) < 16" using c2(2) by simp
    moreover have "ctr_inv aes k nonce st2" "ac_bytectr st2 = s + n + ?m" "(s + n + ?m) mod 16 = 0"
      using did2 fin False by (auto simp: ctr_did_def split: prod.splits)
    ultimately obtain st3 c3 where three: "crypto_aesctr_stream_post_wholeblock aes st2 c2 = Some (st3, c3)"
      and did3: "ctr_did aes k nonce (s + n + ?m) c2 (?len - ?m) st3 c3"
      using post_wholeblock_did [of aes k nonce st2 "s + n + ?m" c2] aes c2 by (auto elim: okp_pairE)
    have "ctr_did aes k nonce s c (n + (?m + (?len - ?m))) st3 c3"
      by (rule ctr_did_trans [OF did ctr_did_trans [OF did2 did3 c2(3)] c1(3)])
    moreover have "n + (?m + (?len - ?m)) = snd (snd c)" using n m c1(2) by simp
    ultimately show ?thesis using pre False two three by simp
  qed
qed

lemma arm_blocks_did:
  assumes "ctr_inv aes k nonce st" "ac_bytectr st = s" "s mod 16 = 0" "\<And>x. length (aes k x) = 16" "cursor_ok s c"
  shows "okp (if snd (snd c) \<ge> 16 then crypto_aesctr_arm_stream_wholeblocks aes st c else Some (st, c))
    (\<lambda>(st', c'). ctr_did aes k nonce s c (16 * (snd (snd c) div 16)) st' c')"
  using arm_wholeblocks_did [of aes k nonce st s c] assms by (simp add: ctr_did_0)

lemma aesni_blocks_did:
  assumes "ctr_inv aes k nonce st" "ac_bytectr st = s" "s mod 16 = 0" "\<And>x. length (aes k x) = 16" "cursor_ok s c"
  shows "okp (if snd (snd c) \<ge> 16 then crypto_aesctr_aesni_stream_wholeblocks upper aes st c else Some (st, c))
    (\<lambda>(st', c'). ctr_did aes k nonce s c (16 * (snd (snd c) div 16)) st' c')"
proof -
  have "length (ac_pblk st) = 16" using assms(1) by (simp add: ctr_inv_def)
  from aesni_wholeblocks_arm [OF this] show ?thesis
    using arm_blocks_did [of aes k nonce st s c] assms by (simp only:)
qed

lemma soft_blocks_did:
  assumes "ctr_inv aes k nonce st" "ac_bytectr st = s" "s mod 16 = 0" "\<And>x. length (aes k x) = 16" "cursor_ok s c"
  shows "okp (ctr_wholeblocks aes st (fst c) (fst (snd c)) (snd (snd c)))
    (\<lambda>(st', c'). ctr_did aes k nonce s c (16 * (snd (snd c) div 16)) st' c')"
  using ctr_wholeblocks_did [of aes k nonce st s "fst c" "fst (snd c)" "snd (snd c)"] assms by simp

lemma stream_soft:
  assumes "buflen < 16 \<or> hw = HW_SOFTWARE"
  shows "crypto_aesctr_stream hw aes st inbuf buflen = do {
     cassert (buflen < UINT64_MAX - ac_bytectr st);
     (st, c) \<leftarrow> do {
       (st, c, fin) \<leftarrow> crypto_aesctr_stream_pre_wholeblock st (inbuf, [], buflen);
       if fin then Some (st, c)
       else do { (st, c) \<leftarrow> ctr_wholeblocks aes st (fst c) (fst (snd c)) (snd (snd c));
                 crypto_aesctr_stream_post_wholeblock aes st c } };
     Some (st, fst (snd c)) }"
proof -
  have "crypto_aesctr_stream hw aes st inbuf buflen = do {
     cassert (buflen < UINT64_MAX - ac_bytectr st);
     (st, c, fin) \<leftarrow> crypto_aesctr_stream_pre_wholeblock st (inbuf, [], buflen);
     if fin then Some (st, fst (snd c))
     else do {
       (st, c) \<leftarrow> ctr_wholeblocks aes st (fst c) (fst (snd c)) (snd (snd c));
       (st, c) \<leftarrow> crypto_aesctr_stream_post_wholeblock aes st c;
       Some (st, fst (snd c)) } }"
    using assms by (auto simp: crypto_aesctr_stream_def split: hwaccel.split bool.split)
  then show ?thesis
    by (cases "crypto_aesctr_stream_pre_wholeblock st (inbuf, [], buflen)") (auto simp: split_def)
qed

lemma crypto_aesctr_stream_ok:
  assumes inv: "ctr_inv aes k nonce st" and aes: "\<And>x. length (aes k x) = 16"
    and len: "ac_bytectr st + length xs < UINT64_MAX"
  shows "okp (crypto_aesctr_stream hw aes st xs (length xs))
    (\<lambda>(st', out). out = ctr_xor aes k nonce (ac_bytectr st) xs \<and> ctr_inv aes k nonce st' \<and>
       ac_bytectr st' = ac_bytectr st + length xs)"
proof -
  let ?s = "ac_bytectr st" let ?c = "(xs, [] :: bytes, length xs)"
  let ?post = "\<lambda>(st', c'). ctr_did aes k nonce ?s ?c (snd (snd ?c)) st' c'"
  have c: "cursor_ok ?s ?c" using len by (simp add: cursor_ok_def)
  note parts = stream_parts_did [where aes = aes and k = k and nonce = nonce and st = st, OF inv refl]
  have ni: "okp (crypto_aesctr_aesni_stream upper aes st ?c) ?post" for upper
    unfolding crypto_aesctr_aesni_stream_def by (rule parts) (rule aes c aesni_blocks_did | assumption)+
  have arm: "okp (crypto_aesctr_arm_stream aes st ?c) ?post"
    unfolding crypto_aesctr_arm_stream_def by (rule parts) (rule aes c arm_blocks_did | assumption)+
  have soft: "okp (do {
      (st, c, fin) \<leftarrow> crypto_aesctr_stream_pre_wholeblock st ?c;
      if fin then Some (st, c)
      else do { (st, c) \<leftarrow> ctr_wholeblocks aes st (fst c) (fst (snd c)) (snd (snd c));
                crypto_aesctr_stream_post_wholeblock aes st c } }) ?post"
    by (rule parts) (rule aes c soft_blocks_did | assumption)+
  have guard: "cassert (length xs < UINT64_MAX - ?s) = Some ()" using len by (simp add: cassert_def less_diff_conv add.commute)
  have fin: "okp m ?post \<Longrightarrow> okp (do { (st, c) \<leftarrow> m; Some (st, fst (snd c)) })
      (\<lambda>(st', out). out = ctr_xor aes k nonce ?s xs \<and> ctr_inv aes k nonce st' \<and> ac_bytectr st' = ?s + length xs)" for m
    by (cases m) (auto simp: ctr_did_def)
  show ?thesis
  proof (cases "length xs < 16 \<or> hw = HW_SOFTWARE")
    case True
    then show ?thesis using fin [OF soft] guard unfolding stream_soft [OF True] by simp
  next
    case False
    then show ?thesis using fin [OF ni] fin [OF arm] guard
      by (cases hw) (simp_all add: crypto_aesctr_stream_def)
  qed
qed

lemma init2_ok:
  assumes "length (ac_pblk st) = 16"
  shows "okp (crypto_aesctr_init2 st (Some k) nonce) (\<lambda>st'. ctr_inv aes k nonce st' \<and> ac_bytectr st' = 0)"
proof -
  have "(0xff :: u8) = - 1" by simp
  then show ?thesis using assms
    by (simp add: crypto_aesctr_init2_def wp_rules ctr_inv_def list_update_append UINT64_MAX_def nth_append)
qed

text \<open>A sequence of calls, each with the code that it uses and its input.\<close>

fun ctr_run ::
  "('k \<Rightarrow> bytes \<Rightarrow> bytes) \<Rightarrow> 'k crypto_aesctr \<Rightarrow> (hwaccel \<times> bytes) list \<Rightarrow> ('k crypto_aesctr \<times> bytes list) option" where
  "ctr_run aes st [] = Some (st, [])"
| "ctr_run aes st ((hw, xs) # reqs) = do {
     (st, out) \<leftarrow> crypto_aesctr_stream hw aes st xs (length xs);
     (st, outs) \<leftarrow> ctr_run aes st reqs;
     Some (st, out # outs)
   }"

lemma ctr_run_ok:
  assumes "ctr_inv aes k nonce st" "\<And>x. length (aes k x) = 16"
    "ac_bytectr st + length (concat (map snd reqs)) < UINT64_MAX"
  shows "okp (ctr_run aes st reqs)
    (\<lambda>(st', outs). ctr_inv aes k nonce st' \<and> map length outs = map (length \<circ> snd) reqs \<and>
       concat outs = ctr_xor aes k nonce (ac_bytectr st) (concat (map snd reqs)))"
  using assms
proof (induction reqs arbitrary: st)
  case (Cons req reqs)
  obtain hw xs where req: "req = (hw, xs)" by (cases req)
  obtain st1 out where one: "crypto_aesctr_stream hw aes st xs (length xs) = Some (st1, out)"
    and st1: "out = ctr_xor aes k nonce (ac_bytectr st) xs" "ctr_inv aes k nonce st1" "ac_bytectr st1 = ac_bytectr st + length xs"
    using crypto_aesctr_stream_ok [of aes k nonce st xs hw] Cons.prems by (auto simp: req elim: okp_pairE)
  obtain st2 outs where "ctr_run aes st1 reqs = Some (st2, outs)" "ctr_inv aes k nonce st2"
    "map length outs = map (length \<circ> snd) reqs" "concat outs = ctr_xor aes k nonce (ac_bytectr st1) (concat (map snd reqs))"
    using Cons.IH [OF st1(2) Cons.prems(2)] Cons.prems(3) st1(3) by (auto simp: req elim: okp_pairE)
  then show ?case using one st1 by (simp add: req ctr_xor_append)
qed simp


section \<open>Properties\<close>

text \<open>
  C15. AES-CTR encrypts a stream given in any pieces: after \<open>crypto_aesctr_init\<close> on memory with
  any contents, any sequence of calls of \<open>crypto_aesctr_stream\<close>, each by the portable, the
  AES-NI or the ARM code, returns without failing an assertion or leaving a buffer, as long as
  the total stays below \<open>UINT64_MAX\<close>, and the outputs joined are the inputs joined XORed with
  the key stream, whose block \<open>b\<close> is the encryption of the nonce and \<open>b\<close>, both big-endian.  The
  cipher is any function that returns 16 bytes.
\<close>

theorem crypto_aesctr_streaming:
  assumes "\<And>x. length (aes k x) = 16"
    and "length (ac_pblk mem) = 16"
    and "length (concat (map snd reqs)) < UINT64_MAX"
  shows "\<exists>st st' outs. crypto_aesctr_init (Some mem) (Some k) nonce = Some (Some st) \<and>
    ctr_run aes st reqs = Some (st', outs) \<and>
    map length outs = map (length \<circ> snd) reqs \<and>
    concat outs = map2 (XOR) (concat (map snd reqs))
      (map (\<lambda>i. aes k (be64enc nonce @ be64enc (of_nat (i div 16))) ! (i mod 16)) [0..<length (concat (map snd reqs))])"
proof -
  obtain st where st: "crypto_aesctr_init2 mem (Some k) nonce = Some st" "ctr_inv aes k nonce st" "ac_bytectr st = 0"
    using init2_ok [of mem k nonce aes] assms(2) by (auto simp: okp_iff)
  obtain st' outs where "ctr_run aes st reqs = Some (st', outs)" "map length outs = map (length \<circ> snd) reqs"
    "concat outs = ctr_xor aes k nonce 0 (concat (map snd reqs))"
    using ctr_run_ok [of aes k nonce st reqs] st assms by (auto elim: okp_pairE)
  then show ?thesis using st(1)
    by (auto simp: crypto_aesctr_init_def ctr_xor_def keystream_def [abs_def] ctr_block_def)
qed

definition toy_aes :: "u8 \<Rightarrow> bytes \<Rightarrow> bytes" where
  "toy_aes k x = map (\<lambda>i. k + foldl (\<lambda>a b. 3 * a + b) (of_nat i) x) [0..<16]"

lemma length_toy_aes: "length (toy_aes k x) = 16"
  by (simp add: toy_aes_def)

definition toy_stream :: "u8 crypto_aesctr" where
  "toy_stream = \<lparr>ac_key = None, ac_bytectr = 99, ac_buf = replicate 16 7, ac_pblk = replicate 16 5\<rparr>"

theorem crypto_aesctr_streaming_witness:
  "\<exists>st st' outs. crypto_aesctr_init (Some toy_stream) (Some 42) 0x0102030405060708 = Some (Some st) \<and>
    ctr_run toy_aes st [(HW_SOFTWARE, replicate 5 1), (HW_X86_AESNI (replicate 8 9), replicate 40 2), (HW_ARM_AES, replicate 3 4)] = Some (st', outs) \<and>
    length (concat outs) = 48"
proof -
  let ?reqs = "[(HW_SOFTWARE, replicate 5 1), (HW_X86_AESNI (replicate 8 9), replicate 40 2), (HW_ARM_AES, replicate 3 4)]"
  have "length (ac_pblk toy_stream) = 16" "length (concat (map snd ?reqs)) < UINT64_MAX"
    by (simp_all add: toy_stream_def UINT64_MAX_def)
  from crypto_aesctr_streaming [where aes = toy_aes and k = 42 and nonce = "0x0102030405060708", OF length_toy_aes this]
  show ?thesis by (auto simp: length_concat)
qed

text \<open>
  \<open>crypto_aesctr_buf\<close> decrypts what it has encrypted, with the same key and nonce, whichever
  of the three implementations is used on each side, for every buffer shorter than \<open>UINT64_MAX\<close>.
\<close>

theorem crypto_aesctr_buf_inverse:
  assumes "\<And>x. length (aes k x) = 16"
    and "length (ac_pblk mem) = 16" "length (ac_pblk mem') = 16" "length plain < UINT64_MAX"
  shows "\<exists>cipher. crypto_aesctr_buf hw aes mem (Some k) nonce plain (length plain) = Some cipher \<and>
    length cipher = length plain \<and>
    crypto_aesctr_buf hw' aes mem' (Some k) nonce cipher (length cipher) = Some plain"
proof -
  have buf: "crypto_aesctr_buf hw aes mem (Some k) nonce xs (length xs) = Some (ctr_xor aes k nonce 0 xs)"
    if "length (ac_pblk mem) = 16" "length xs < UINT64_MAX" for hw xs and mem :: "'a crypto_aesctr"
  proof -
    note len = that
    obtain st where st: "crypto_aesctr_init2 mem (Some k) nonce = Some st" "ctr_inv aes k nonce st" "ac_bytectr st = 0"
      using init2_ok [of mem k nonce aes] len by (auto simp: okp_iff)
    then show ?thesis using crypto_aesctr_stream_ok [of aes k nonce st xs hw] len assms(1)
      by (auto simp: crypto_aesctr_buf_def elim!: okp_pairE)
  qed
  show ?thesis using buf [of mem plain hw] buf [of mem' "ctr_xor aes k nonce 0 plain" hw'] assms(2-)
    by (simp add: ctr_xor_involution)
qed

theorem crypto_aesctr_buf_inverse_witness:
  "\<exists>cipher. crypto_aesctr_buf HW_SOFTWARE toy_aes toy_stream (Some 42) 7 (replicate 37 1) 37 = Some cipher \<and>
    crypto_aesctr_buf HW_ARM_AES toy_aes toy_stream (Some 42) 7 cipher 37 = Some (replicate 37 1)"
proof -
  have "length (ac_pblk toy_stream) = 16" "length (replicate 37 (1 :: u8)) < UINT64_MAX"
    by (simp_all add: toy_stream_def UINT64_MAX_def)
  from crypto_aesctr_buf_inverse [where aes = toy_aes and k = 42 and nonce = 7 and hw = HW_SOFTWARE and hw' = HW_ARM_AES,
      OF length_toy_aes this(1) this]
  show ?thesis by auto
qed

end
