(* ===== verification/Aes.thy ===== *)
theory Aes
  imports Sysendian
begin

text \<open>
  AES as FIPS 197 defines it, and the implementations with the AES instructions of x86 and ARM,
  \<open>crypto/crypto_aes_aesni.c\<close> and \<open>crypto/crypto_aes_arm.c\<close>, which are proved to compute it.
  A vector register is its 16 bytes in the order of the memory.  The AES instructions are
  parameters, with what the manuals of the processors say in the terms of FIPS 197 as hypotheses;
  the instructions that only move bytes or compute XOR are written out.
\<close>

section \<open>FIPS 197\<close>

text \<open>The state is the list of its columns' bytes; a word is four bytes.\<close>

definition sbox :: bytes where
  "sbox =
    [0x63, 0x7c, 0x77, 0x7b, 0xf2, 0x6b, 0x6f, 0xc5, 0x30, 0x01, 0x67, 0x2b, 0xfe, 0xd7, 0xab, 0x76,
     0xca, 0x82, 0xc9, 0x7d, 0xfa, 0x59, 0x47, 0xf0, 0xad, 0xd4, 0xa2, 0xaf, 0x9c, 0xa4, 0x72, 0xc0,
     0xb7, 0xfd, 0x93, 0x26, 0x36, 0x3f, 0xf7, 0xcc, 0x34, 0xa5, 0xe5, 0xf1, 0x71, 0xd8, 0x31, 0x15,
     0x04, 0xc7, 0x23, 0xc3, 0x18, 0x96, 0x05, 0x9a, 0x07, 0x12, 0x80, 0xe2, 0xeb, 0x27, 0xb2, 0x75,
     0x09, 0x83, 0x2c, 0x1a, 0x1b, 0x6e, 0x5a, 0xa0, 0x52, 0x3b, 0xd6, 0xb3, 0x29, 0xe3, 0x2f, 0x84,
     0x53, 0xd1, 0x00, 0xed, 0x20, 0xfc, 0xb1, 0x5b, 0x6a, 0xcb, 0xbe, 0x39, 0x4a, 0x4c, 0x58, 0xcf,
     0xd0, 0xef, 0xaa, 0xfb, 0x43, 0x4d, 0x33, 0x85, 0x45, 0xf9, 0x02, 0x7f, 0x50, 0x3c, 0x9f, 0xa8,
     0x51, 0xa3, 0x40, 0x8f, 0x92, 0x9d, 0x38, 0xf5, 0xbc, 0xb6, 0xda, 0x21, 0x10, 0xff, 0xf3, 0xd2,
     0xcd, 0x0c, 0x13, 0xec, 0x5f, 0x97, 0x44, 0x17, 0xc4, 0xa7, 0x7e, 0x3d, 0x64, 0x5d, 0x19, 0x73,
     0x60, 0x81, 0x4f, 0xdc, 0x22, 0x2a, 0x90, 0x88, 0x46, 0xee, 0xb8, 0x14, 0xde, 0x5e, 0x0b, 0xdb,
     0xe0, 0x32, 0x3a, 0x0a, 0x49, 0x06, 0x24, 0x5c, 0xc2, 0xd3, 0xac, 0x62, 0x91, 0x95, 0xe4, 0x79,
     0xe7, 0xc8, 0x37, 0x6d, 0x8d, 0xd5, 0x4e, 0xa9, 0x6c, 0x56, 0xf4, 0xea, 0x65, 0x7a, 0xae, 0x08,
     0xba, 0x78, 0x25, 0x2e, 0x1c, 0xa6, 0xb4, 0xc6, 0xe8, 0xdd, 0x74, 0x1f, 0x4b, 0xbd, 0x8b, 0x8a,
     0x70, 0x3e, 0xb5, 0x66, 0x48, 0x03, 0xf6, 0x0e, 0x61, 0x35, 0x57, 0xb9, 0x86, 0xc1, 0x1d, 0x9e,
     0xe1, 0xf8, 0x98, 0x11, 0x69, 0xd9, 0x8e, 0x94, 0x9b, 0x1e, 0x87, 0xe9, 0xce, 0x55, 0x28, 0xdf,
     0x8c, 0xa1, 0x89, 0x0d, 0xbf, 0xe6, 0x42, 0x68, 0x41, 0x99, 0x2d, 0x0f, 0xb0, 0x54, 0xbb, 0x16]"

definition xor_bytes :: "bytes \<Rightarrow> bytes \<Rightarrow> bytes" where
  "xor_bytes a b = map2 (XOR) a b"

definition SubBytes :: "bytes \<Rightarrow> bytes" where
  "SubBytes s = map (\<lambda>b. sbox ! unat b) s"

definition ShiftRows :: "bytes \<Rightarrow> bytes" where
  "ShiftRows s = map (\<lambda>i. s ! ((i + 4 * (i mod 4)) mod 16)) [0..<16]"

definition xtime :: "u8 \<Rightarrow> u8" where
  "xtime b = push_bit 1 b XOR (if bit b 7 then 0x1b else 0)"

fun MixColumns :: "bytes \<Rightarrow> bytes" where
  "MixColumns (a # b # c # d # s) =
     (xtime a XOR (xtime b XOR b) XOR c XOR d) # (a XOR xtime b XOR (xtime c XOR c) XOR d) #
     (a XOR b XOR xtime c XOR (xtime d XOR d)) # ((xtime a XOR a) XOR b XOR c XOR xtime d) # MixColumns s"
| "MixColumns s = s"

definition RotWord :: "bytes \<Rightarrow> bytes" where
  "RotWord w = tl w @ [hd w]"

definition Rcon :: "nat \<Rightarrow> u8" where
  "Rcon n = (xtime ^^ (n - 1)) 1"

text \<open>The next word of the key schedule, for keys of \<open>nk\<close> words.\<close>

definition next_word :: "nat \<Rightarrow> bytes list \<Rightarrow> bytes" where
  "next_word nk ws =
     (let i = length ws; t = last ws in
      xor_bytes (ws ! (i - nk))
        (if i mod nk = 0 then xor_bytes (SubBytes (RotWord t)) [Rcon (i div nk), 0, 0, 0]
         else if nk > 6 \<and> i mod nk = 4 then SubBytes t
         else t))"

primrec key_words :: "nat \<Rightarrow> bytes \<Rightarrow> nat \<Rightarrow> bytes list" where
  "key_words nk key 0 = []"
| "key_words nk key (Suc n) =
     (let ws = key_words nk key n in ws @ [if n < nk then take 4 (drop (4 * n) key) else next_word nk ws])"

definition round_key :: "bytes list \<Rightarrow> nat \<Rightarrow> bytes" where
  "round_key ws r = concat (take 4 (drop (4 * r) ws))"

definition aes_round :: "bytes \<Rightarrow> bytes \<Rightarrow> bytes" where
  "aes_round s k = xor_bytes (MixColumns (ShiftRows (SubBytes s))) k"

definition aes_cipher :: "nat \<Rightarrow> (nat \<Rightarrow> bytes) \<Rightarrow> bytes \<Rightarrow> bytes" where
  "aes_cipher nr rk s =
     xor_bytes (ShiftRows (SubBytes (foldl (\<lambda>s r. aes_round s (rk r)) (xor_bytes s (rk 0)) [1..<nr]))) (rk nr)"

text \<open>AES with a key of 16 or 32 bytes.\<close>

definition aes_block :: "bytes \<Rightarrow> bytes \<Rightarrow> bytes" where
  "aes_block key s =
     (let nk = length key div 4; nr = nk + 6; ws = key_words nk key (4 * (nr + 1)) in aes_cipher nr (round_key ws) s)"


section \<open>The instructions\<close>

record x86_aes =
  mm_aesenc_si128 :: "bytes \<Rightarrow> bytes \<Rightarrow> bytes"
  mm_aesenclast_si128 :: "bytes \<Rightarrow> bytes \<Rightarrow> bytes"
  mm_aeskeygenassist_si128 :: "bytes \<Rightarrow> u8 \<Rightarrow> bytes"

record arm_aes =
  vaeseq_u8 :: "bytes \<Rightarrow> bytes \<Rightarrow> bytes"
  vaesmcq_u8 :: "bytes \<Rightarrow> bytes"

text \<open>What the manuals of the processors say, for vectors of 16 bytes.\<close>

definition lane :: "bytes \<Rightarrow> nat \<Rightarrow> bytes" where
  "lane v i = take 4 (drop (4 * i) v)"

definition x86_aes_ok :: "x86_aes \<Rightarrow> bool" where
  "x86_aes_ok I \<longleftrightarrow>
     (\<forall>s k. length s = 16 \<and> length k = 16 \<longrightarrow>
        mm_aesenc_si128 I s k = xor_bytes (MixColumns (SubBytes (ShiftRows s))) k \<and>
        mm_aesenclast_si128 I s k = xor_bytes (SubBytes (ShiftRows s)) k) \<and>
     (\<forall>s rcon. length s = 16 \<longrightarrow>
        mm_aeskeygenassist_si128 I s rcon =
          SubBytes (lane s 1) @ xor_bytes (RotWord (SubBytes (lane s 1))) [rcon, 0, 0, 0] @
          SubBytes (lane s 3) @ xor_bytes (RotWord (SubBytes (lane s 3))) [rcon, 0, 0, 0])"

definition arm_aes_ok :: "arm_aes \<Rightarrow> bool" where
  "arm_aes_ok I \<longleftrightarrow>
     (\<forall>s k. length s = 16 \<and> length k = 16 \<longrightarrow> vaeseq_u8 I s k = SubBytes (ShiftRows (xor_bytes s k))) \<and>
     (\<forall>s. length s = 16 \<longrightarrow> vaesmcq_u8 I s = MixColumns s)"

text \<open>Shifting a vector by bytes, and choosing 32-bit lanes.\<close>

definition mm_slli_si128 :: "bytes \<Rightarrow> nat \<Rightarrow> bytes" where
  "mm_slli_si128 v n = replicate n 0 @ take (16 - n) v"

definition mm_shuffle_epi32 :: "bytes \<Rightarrow> nat \<Rightarrow> bytes" where
  "mm_shuffle_epi32 v imm =
     lane v (imm mod 4) @ lane v (imm div 4 mod 4) @ lane v (imm div 16 mod 4) @ lane v (imm div 64 mod 4)"

definition vextq_u8 :: "bytes \<Rightarrow> bytes \<Rightarrow> nat \<Rightarrow> bytes" where
  "vextq_u8 a b n = drop n a @ take n b"

definition vshlq_n_u128 :: "bytes \<Rightarrow> nat \<Rightarrow> bytes" where
  "vshlq_n_u128 a n = vextq_u8 (replicate 16 0) a (16 - n)"

definition vdupq_laneq_u32_u8 :: "bytes \<Rightarrow> nat \<Rightarrow> bytes" where
  "vdupq_laneq_u32_u8 a i = lane a i @ lane a i @ lane a i @ lane a i"

definition vdupq_n_u32 :: "u32 \<Rightarrow> bytes" where
  "vdupq_n_u32 x = le32enc x @ le32enc x @ le32enc x @ le32enc x"


section \<open>\<open>crypto_aes_aesni.c\<close>\<close>

text \<open>Round keys, and the number of rounds; the same structure is used for ARM.\<close>

record crypto_aes_key_hw =
  hw_rkeys :: "bytes list"
  hw_nr :: nat

definition MKRKEY128_x86 :: "x86_aes \<Rightarrow> bytes list \<Rightarrow> nat \<Rightarrow> u8 \<Rightarrow> bytes list" where
  "MKRKEY128_x86 I rkeys i rcon =
     (let s = rkeys ! (i - 1); t = rkeys ! (i - 1);
          s = xor_bytes s (mm_slli_si128 s 4);
          s = xor_bytes s (mm_slli_si128 s 8);
          t = mm_aeskeygenassist_si128 I t rcon;
          t = mm_shuffle_epi32 t 0xff in
      rkeys[i := xor_bytes s t])"

definition crypto_aes_key_expand_128_aesni :: "x86_aes \<Rightarrow> bytes \<Rightarrow> bytes list \<Rightarrow> bytes list" where
  "crypto_aes_key_expand_128_aesni I key rkeys =
     foldl (\<lambda>rkeys (i, rcon). MKRKEY128_x86 I rkeys i rcon) (rkeys[0 := take 16 key])
       [(1, 0x01), (2, 0x02), (3, 0x04), (4, 0x08), (5, 0x10), (6, 0x20), (7, 0x40), (8, 0x80), (9, 0x1b), (10, 0x36)]"

definition MKRKEY256_x86 :: "x86_aes \<Rightarrow> bytes list \<Rightarrow> nat \<Rightarrow> nat \<Rightarrow> u8 \<Rightarrow> bytes list" where
  "MKRKEY256_x86 I rkeys i shuffle rcon =
     (let s = rkeys ! (i - 2); t = rkeys ! (i - 1);
          s = xor_bytes s (mm_slli_si128 s 4);
          s = xor_bytes s (mm_slli_si128 s 8);
          t = mm_aeskeygenassist_si128 I t rcon;
          t = mm_shuffle_epi32 t shuffle in
      rkeys[i := xor_bytes s t])"

definition crypto_aes_key_expand_256_aesni :: "x86_aes \<Rightarrow> bytes \<Rightarrow> bytes list \<Rightarrow> bytes list" where
  "crypto_aes_key_expand_256_aesni I key rkeys =
     foldl (\<lambda>rkeys (i, shuffle, rcon). MKRKEY256_x86 I rkeys i shuffle rcon)
       (rkeys[0 := take 16 key, 1 := take 16 (drop 16 key)])
       [(2, 0xff, 0x01), (3, 0xaa, 0x00), (4, 0xff, 0x02), (5, 0xaa, 0x00), (6, 0xff, 0x04), (7, 0xaa, 0x00),
        (8, 0xff, 0x08), (9, 0xaa, 0x00), (10, 0xff, 0x10), (11, 0xaa, 0x00), (12, 0xff, 0x20), (13, 0xaa, 0x00),
        (14, 0xff, 0x40)]"

text \<open>\<open>new\<close> is the memory for the structure.\<close>

definition crypto_aes_key_expand_aesni :: "x86_aes \<Rightarrow> crypto_aes_key_hw option \<Rightarrow> bytes \<Rightarrow> nat \<Rightarrow> crypto_aes_key_hw option" where
  "crypto_aes_key_expand_aesni I new key len = do {
     kexp \<leftarrow> new;
     if len = 16 then Some (kexp\<lparr>hw_nr := 10, hw_rkeys := crypto_aes_key_expand_128_aesni I key (hw_rkeys kexp)\<rparr>)
     else if len = 32 then Some (kexp\<lparr>hw_nr := 14, hw_rkeys := crypto_aes_key_expand_256_aesni I key (hw_rkeys kexp)\<rparr>)
     else None
   }"

definition crypto_aes_encrypt_block_aesni_m128i :: "x86_aes \<Rightarrow> bytes \<Rightarrow> crypto_aes_key_hw \<Rightarrow> bytes" where
  "crypto_aes_encrypt_block_aesni_m128i I inp key =
     (let aes_key = hw_rkeys key; n = hw_nr key;
          s = xor_bytes inp (aes_key ! 0);
          s = foldl (\<lambda>s i. mm_aesenc_si128 I s (aes_key ! i)) s [1, 2, 3, 4, 5, 6, 7, 8, 9];
          s = (if n > 10 then foldl (\<lambda>s i. mm_aesenc_si128 I s (aes_key ! i)) s [10, 11, 12, 13] else s) in
      mm_aesenclast_si128 I s (aes_key ! n))"

definition crypto_aes_encrypt_block_aesni :: "x86_aes \<Rightarrow> bytes \<Rightarrow> crypto_aes_key_hw \<Rightarrow> bytes" where
  "crypto_aes_encrypt_block_aesni I inp key = crypto_aes_encrypt_block_aesni_m128i I (take 16 inp) key"


section \<open>\<open>crypto_aes_arm.c\<close>\<close>

definition SubWord_duplicate :: "arm_aes \<Rightarrow> bytes \<Rightarrow> bytes" where
  "SubWord_duplicate I a =
     (let a = vdupq_laneq_u32_u8 a 3 in vaeseq_u8 I a (replicate 16 0))"

definition SubWord_RotWord_XOR_duplicate :: "arm_aes \<Rightarrow> bytes \<Rightarrow> u32 \<Rightarrow> bytes" where
  "SubWord_RotWord_XOR_duplicate I a rcon =
     (let a = SubWord_duplicate I a;
          x3 = le32dec (lane a 0);
          x3 = drop_bit 8 x3 OR push_bit (32 - 8) x3;
          x3 = x3 XOR rcon in
      vdupq_n_u32 x3)"

definition MKRKEY128_arm :: "arm_aes \<Rightarrow> bytes list \<Rightarrow> nat \<Rightarrow> u32 \<Rightarrow> bytes list" where
  "MKRKEY128_arm I rkeys i rcon =
     (let s = rkeys ! (i - 1); t = rkeys ! (i - 1);
          s = xor_bytes s (vshlq_n_u128 s 4);
          s = xor_bytes s (vshlq_n_u128 s 8);
          t = SubWord_RotWord_XOR_duplicate I t rcon in
      rkeys[i := xor_bytes s t])"

definition crypto_aes_key_expand_128_arm :: "arm_aes \<Rightarrow> bytes \<Rightarrow> bytes list \<Rightarrow> bytes list" where
  "crypto_aes_key_expand_128_arm I key rkeys =
     foldl (\<lambda>rkeys (i, rcon). MKRKEY128_arm I rkeys i rcon) (rkeys[0 := take 16 key])
       [(1, 0x01), (2, 0x02), (3, 0x04), (4, 0x08), (5, 0x10), (6, 0x20), (7, 0x40), (8, 0x80), (9, 0x1b), (10, 0x36)]"

definition MKRKEY256_arm :: "arm_aes \<Rightarrow> bytes list \<Rightarrow> nat \<Rightarrow> u32 \<Rightarrow> bytes list" where
  "MKRKEY256_arm I rkeys i rcon =
     (let s = rkeys ! (i - 2); t = rkeys ! (i - 1);
          s = xor_bytes s (vshlq_n_u128 s 4);
          s = xor_bytes s (vshlq_n_u128 s 8);
          t = (if i mod 2 = 1 then SubWord_duplicate I t else SubWord_RotWord_XOR_duplicate I t rcon) in
      rkeys[i := xor_bytes s t])"

definition crypto_aes_key_expand_256_arm :: "arm_aes \<Rightarrow> bytes \<Rightarrow> bytes list \<Rightarrow> bytes list" where
  "crypto_aes_key_expand_256_arm I key rkeys =
     foldl (\<lambda>rkeys (i, rcon). MKRKEY256_arm I rkeys i rcon)
       (rkeys[0 := take 16 key, 1 := take 16 (drop 16 key)])
       [(2, 0x01), (3, 0x00), (4, 0x02), (5, 0x00), (6, 0x04), (7, 0x00), (8, 0x08), (9, 0x00), (10, 0x10), (11, 0x00),
        (12, 0x20), (13, 0x00), (14, 0x40)]"

definition crypto_aes_key_expand_arm :: "arm_aes \<Rightarrow> crypto_aes_key_hw option \<Rightarrow> bytes \<Rightarrow> nat \<Rightarrow> crypto_aes_key_hw option" where
  "crypto_aes_key_expand_arm I new key len = do {
     kexp \<leftarrow> new;
     if len = 16 then Some (kexp\<lparr>hw_nr := 10, hw_rkeys := crypto_aes_key_expand_128_arm I key (hw_rkeys kexp)\<rparr>)
     else if len = 32 then Some (kexp\<lparr>hw_nr := 14, hw_rkeys := crypto_aes_key_expand_256_arm I key (hw_rkeys kexp)\<rparr>)
     else None
   }"

definition crypto_aes_encrypt_block_arm_u8 :: "arm_aes \<Rightarrow> bytes \<Rightarrow> crypto_aes_key_hw \<Rightarrow> bytes" where
  "crypto_aes_encrypt_block_arm_u8 I inp key =
     (let aes_key = hw_rkeys key; n = hw_nr key; s = inp;
          s = foldl (\<lambda>s i. vaesmcq_u8 I (vaeseq_u8 I s (aes_key ! i))) s [0, 1, 2, 3, 4, 5, 6, 7, 8];
          s = (if n > 10 then foldl (\<lambda>s i. vaesmcq_u8 I (vaeseq_u8 I s (aes_key ! i))) s [9, 10, 11, 12] else s);
          s = vaeseq_u8 I s (aes_key ! (n - 1)) in
      xor_bytes s (aes_key ! n))"

definition crypto_aes_encrypt_block_arm :: "arm_aes \<Rightarrow> bytes \<Rightarrow> crypto_aes_key_hw \<Rightarrow> bytes" where
  "crypto_aes_encrypt_block_arm I inp key = crypto_aes_encrypt_block_arm_u8 I (take 16 inp) key"


section \<open>Lengths and vectors\<close>

lemma length_xor_bytes [simp]: "length (xor_bytes a b) = min (length a) (length b)"
  by (simp add: xor_bytes_def)

lemma length_SubBytes [simp]: "length (SubBytes s) = length s"
  by (simp add: SubBytes_def)

lemma length_ShiftRows [simp]: "length (ShiftRows s) = 16"
  by (simp add: ShiftRows_def)

lemma length_MixColumns [simp]: "length (MixColumns s) = length s"
  by (induction s rule: MixColumns.induct) simp_all

lemma length_RotWord [simp]: "w \<noteq> [] \<Longrightarrow> length (RotWord w) = length w"
  by (simp add: RotWord_def)

lemma xor_bytes_nth: "i < length a \<Longrightarrow> i < length b \<Longrightarrow> xor_bytes a b ! i = a ! i XOR b ! i"
  by (simp add: xor_bytes_def)

lemma xor_bytes_append:
  "length a = length b \<Longrightarrow> xor_bytes (a @ a') (b @ b') = xor_bytes a b @ xor_bytes a' b'"
  by (simp add: xor_bytes_def zip_append)

lemma xor_bytes_assoc: "length b = length a \<Longrightarrow> length c = length a \<Longrightarrow> xor_bytes (xor_bytes a b) c = xor_bytes a (xor_bytes b c)"
  by (rule nth_equalityI) (simp_all add: xor_bytes_nth xor.assoc)

lemma xor_bytes_commute: "length b = length a \<Longrightarrow> xor_bytes a b = xor_bytes b a"
  by (rule nth_equalityI) (simp_all add: xor_bytes_nth xor.commute)

lemma xor_bytes_zero [simp]: "n = length a \<Longrightarrow> xor_bytes a (replicate n 0) = a"
  by (rule nth_equalityI) (simp_all add: xor_bytes_nth)

lemma SubBytes_append [simp]: "SubBytes (a @ b) = SubBytes a @ SubBytes b"
  by (simp add: SubBytes_def)

lemma SubBytes_ShiftRows: "length s = 16 \<Longrightarrow> SubBytes (ShiftRows s) = ShiftRows (SubBytes s)"
  by (rule nth_equalityI) (simp_all add: SubBytes_def ShiftRows_def)

lemma SubBytes_RotWord: "w \<noteq> [] \<Longrightarrow> SubBytes (RotWord w) = RotWord (SubBytes w)"
  by (cases w) (simp_all add: RotWord_def SubBytes_def)

text \<open>The words of a vector.\<close>

lemma vector_lanes:
  assumes "length v = 16"
  obtains a b c d where "v = a @ b @ c @ d" "length a = 4" "length b = 4" "length c = 4" "length d = 4"
proof
  show "v = take 4 v @ take 4 (drop 4 v) @ take 4 (drop 8 v) @ drop 12 v"
    using append_take_drop_id [of 4 v] append_take_drop_id [of 4 "drop 4 v"] append_take_drop_id [of 4 "drop 8 v"] by simp
qed (use assms in simp_all)


lemma lanes [simp]:
  assumes "length a = 4" "length b = 4" "length c = 4" "length d = 4"
  shows "lane (a @ b @ c @ d) 0 = a" "lane (a @ b @ c @ d) (Suc 0) = b" "lane (a @ b @ c @ d) 2 = c" "lane (a @ b @ c @ d) 3 = d"
  using assms by (simp_all add: lane_def)

text \<open>Four words of the key schedule from four earlier ones and the word \<open>T\<close> that goes into the first.\<close>

definition next4 :: "bytes \<Rightarrow> bytes \<Rightarrow> bytes" where
  "next4 v T =
     (let w0 = xor_bytes (lane v 0) T; w1 = xor_bytes (lane v 1) w0; w2 = xor_bytes (lane v 2) w1; w3 = xor_bytes (lane v 3) w2 in
      w0 @ w1 @ w2 @ w3)"

lemma length_next4 [simp]: "length v = 16 \<Longrightarrow> length T = 4 \<Longrightarrow> length (next4 v T) = 16"
  by (auto elim!: vector_lanes simp: next4_def Let_def)

lemma slli_4_8:
  assumes "length a = 4" "length b = 4" "length c = 4" "length d = 4"
  shows "mm_slli_si128 (a @ b @ c @ d) 4 = replicate 4 0 @ a @ b @ c"
    and "mm_slli_si128 (a @ b @ c @ d) 8 = replicate 4 0 @ replicate 4 0 @ a @ b"
proof -
  have "replicate 8 0 = replicate 4 0 @ (replicate 4 0 :: bytes)" by (simp add: replicate_add [symmetric])
  then show "mm_slli_si128 (a @ b @ c @ d) 4 = replicate 4 0 @ a @ b @ c"
    "mm_slli_si128 (a @ b @ c @ d) 8 = replicate 4 0 @ replicate 4 0 @ a @ b"
    using assms by (simp_all add: mm_slli_si128_def)
qed

lemma xor_words:
  "length a = 4 \<Longrightarrow> length b = 4 \<Longrightarrow> length c = 4 \<Longrightarrow> xor_bytes (xor_bytes a b) c = xor_bytes a (xor_bytes b c)"
  by (rule xor_bytes_assoc) simp_all

lemma expand_vector:
  assumes v: "length v = 16" and T: "length T = 4"
  shows "xor_bytes (xor_bytes (xor_bytes v (mm_slli_si128 v 4)) (mm_slli_si128 (xor_bytes v (mm_slli_si128 v 4)) 8)) (T @ T @ T @ T) = next4 v T"
proof -
  obtain a b c d where d: "v = a @ b @ c @ d" "length a = 4" "length b = 4" "length c = 4" "length d = 4"
    using v by (rule vector_lanes)
  have 1: "xor_bytes v (mm_slli_si128 v 4) = a @ xor_bytes b a @ xor_bytes c b @ xor_bytes d c"
    unfolding d(1) slli_4_8(1) [OF d(2-5)] using d(2-5) by (simp add: xor_bytes_append)
  have 2: "mm_slli_si128 (a @ xor_bytes b a @ xor_bytes c b @ xor_bytes d c) 8 = replicate 4 0 @ replicate 4 0 @ a @ xor_bytes b a"
    using d(2-5) by (intro slli_4_8(2)) simp_all
  have e: "xor_bytes (xor_bytes b a) T = xor_bytes b (xor_bytes a T)"
    "xor_bytes (xor_bytes (xor_bytes c b) a) T = xor_bytes c (xor_bytes b (xor_bytes a T))"
    "xor_bytes (xor_bytes (xor_bytes d c) (xor_bytes b a)) T = xor_bytes d (xor_bytes c (xor_bytes b (xor_bytes a T)))"
    using d(2-5) T by (simp_all add: xor_words)
  show ?thesis unfolding 1 2 using d(2-5) T by (simp add: xor_bytes_append e next4_def d(1) Let_def)
qed

text \<open>The words that the instructions give.\<close>

definition rot_word :: "bytes \<Rightarrow> u8 \<Rightarrow> bytes" where
  "rot_word t rcon = xor_bytes (SubBytes (RotWord (lane t 3))) [rcon, 0, 0, 0]"

lemma length_lane: "length v = 16 \<Longrightarrow> i < 4 \<Longrightarrow> length (lane v i) = 4"
  by (simp add: lane_def)

lemma length_rot_word [simp]: "length t = 16 \<Longrightarrow> length (rot_word t rcon) = 4"
proof -
  assume "length t = 16"
  then have "length (lane t 3) = 4" by (simp add: length_lane)
  moreover from this have "lane t 3 \<noteq> []" by auto
  ultimately show ?thesis by (simp add: rot_word_def)
qed

lemma assist:
  assumes I: "x86_aes_ok I" and t: "length t = 16"
  shows "mm_shuffle_epi32 (mm_aeskeygenassist_si128 I t rcon) 0xff = (let T = rot_word t rcon in T @ T @ T @ T)"
    and "mm_shuffle_epi32 (mm_aeskeygenassist_si128 I t rcon) 0xaa = (let T = SubBytes (lane t 3) in T @ T @ T @ T)"
proof -
  let ?S1 = "SubBytes (lane t 1)" and ?S3 = "SubBytes (lane t 3)"
  let ?R1 = "xor_bytes (RotWord ?S1) [rcon, 0, 0, 0]" and ?R3 = "xor_bytes (RotWord ?S3) [rcon, 0, 0, 0]"
  have len: "length (lane t 1) = 4" "length (lane t 3) = 4" using t by (simp_all add: length_lane)
  then have ne: "?S1 \<noteq> []" "?S3 \<noteq> []" "lane t 3 \<noteq> []"
    by (metis length_SubBytes list.size(3) zero_neq_numeral)+
  have eq: "mm_aeskeygenassist_si128 I t rcon = ?S1 @ ?R1 @ ?S3 @ ?R3" using I t by (simp add: x86_aes_ok_def)
  have R: "length ?R1 = 4" "length ?R3 = 4" using len ne by simp_all
  have l: "lane (?S1 @ ?R1 @ ?S3 @ ?R3) 2 = ?S3" "lane (?S1 @ ?R1 @ ?S3 @ ?R3) 3 = ?R3"
    using len R by (intro lanes; simp)+
  show "mm_shuffle_epi32 (mm_aeskeygenassist_si128 I t rcon) 0xff = (let T = rot_word t rcon in T @ T @ T @ T)"
    unfolding mm_shuffle_epi32_def eq using l(2) SubBytes_RotWord [OF ne(3)] by (simp add: rot_word_def Let_def)
  show "mm_shuffle_epi32 (mm_aeskeygenassist_si128 I t rcon) 0xaa = (let T = SubBytes (lane t 3) in T @ T @ T @ T)"
    unfolding mm_shuffle_epi32_def eq using l(1) by (simp add: Let_def)
qed

lemma vshlq_slli: "length a = 16 \<Longrightarrow> n \<le> 16 \<Longrightarrow> vshlq_n_u128 a n = mm_slli_si128 a n"
  by (simp add: vshlq_n_u128_def vextq_u8_def mm_slli_si128_def)

lemma upt_16: "[0..<16] = [0, 1, 2, 3, 4, 5, 6, 7, 8, 9, 10, 11, 12, 13, 14, 15]"
  by (simp add: upt_rec)

lemma ShiftRows_same: "length w = 4 \<Longrightarrow> ShiftRows (w @ w @ w @ w) = w @ w @ w @ w"
  by (drule length_4) (auto simp: ShiftRows_def upt_16)

lemma duplicate:
  assumes I: "arm_aes_ok I" and t: "length t = 16"
  shows "SubWord_duplicate I t = (let T = SubBytes (lane t 3) in T @ T @ T @ T)"
proof -
  let ?w = "lane t 3"
  have w: "length ?w = 4" using t by (simp add: length_lane)
  have "xor_bytes (?w @ ?w @ ?w @ ?w) (replicate 16 0) = ?w @ ?w @ ?w @ ?w" using w by simp
  then show ?thesis using I w
    by (simp add: SubWord_duplicate_def vdupq_laneq_u32_u8_def arm_aes_ok_def ShiftRows_same Let_def)
qed

lemma bit_le32dec:
  "bit (le32dec [a, b, c, d]) n \<longleftrightarrow>
     (if n < 8 then bit a n else if n < 16 then bit b (n - 8) else if n < 24 then bit c (n - 16)
      else if n < 32 then bit d (n - 24) else False)"
proof -
  have h: "\<not> bit (x :: u8) m" if "8 \<le> m" for x m
    using that bit_imp_le_length [of x m] by fastforce
  have u: "bit (ucast (x :: u8) :: u32) m = bit x m" for x m
    using bit_imp_le_length [of x m] by (auto simp: bit_simps)
  show ?thesis by (auto simp: le32dec_def bit_or_iff bit_push_bit_iff u h)
qed

lemma rotate_word:
  "le32enc ((drop_bit 8 (le32dec [a, b, c, d]) OR push_bit (32 - 8) (le32dec [a, b, c, d])) XOR ucast (r :: u8)) = [b XOR r, c, d, a]"
proof -
  have u: "bit (ucast (x :: u8) :: u32) m = bit x m" for x m
    using bit_imp_le_length [of x m] by (auto simp: bit_simps)
  have "(drop_bit 8 (le32dec [a, b, c, d]) OR push_bit (32 - 8) (le32dec [a, b, c, d])) XOR ucast r = le32dec [b XOR r, c, d, a]"
    apply (rule bit_word_eqI)
    apply (simp add: bit_or_iff bit_xor_iff bit_push_bit_iff bit_drop_bit_eq bit_le32dec u)
    subgoal for n
      using bit_imp_le_length [of r n] by (auto simp: ac_simps)
    done
  then show ?thesis by simp
qed

lemma rot_duplicate:
  assumes I: "arm_aes_ok I" and t: "length t = 16"
  shows "SubWord_RotWord_XOR_duplicate I t (ucast rcon) = (let T = rot_word t rcon in T @ T @ T @ T)"
proof -
  have w: "length (lane t 3) = 4" using t by (simp add: length_lane)
  obtain a b c d where abcd: "SubBytes (lane t 3) = [a, b, c, d]" using length_4 [of "SubBytes (lane t 3)"] w by auto
  have "lane t 3 \<noteq> []" using w by auto
  then have rot: "rot_word t rcon = [b XOR rcon, c, d, a]"
    unfolding rot_word_def SubBytes_RotWord [OF \<open>lane t 3 \<noteq> []\<close>] abcd by (simp add: RotWord_def xor_bytes_def)
  show ?thesis unfolding rot SubWord_RotWord_XOR_duplicate_def duplicate [OF I t] abcd Let_def
    using rotate_word [of a b c d rcon] by (simp add: lane_def vdupq_n_u32_def)
qed


section \<open>The key schedule\<close>

lemma length_key_words [simp]: "length (key_words nk key n) = n"
  by (induction n) (simp_all add: Let_def)

lemma key_words_nth: "i < m \<Longrightarrow> m \<le> n \<Longrightarrow> key_words nk key n ! i = key_words nk key m ! i"
  by (induction n) (auto simp: Let_def nth_append le_Suc_eq)

definition schedule_word :: "nat \<Rightarrow> bytes \<Rightarrow> nat \<Rightarrow> bytes" where
  "schedule_word nk key i = key_words nk key (Suc i) ! i"

lemma key_words_schedule: "i < n \<Longrightarrow> key_words nk key n ! i = schedule_word nk key i"
  by (simp add: schedule_word_def key_words_nth [of i "Suc i" n])

lemma schedule_word_key: "i < nk \<Longrightarrow> schedule_word nk key i = take 4 (drop (4 * i) key)"
  by (simp add: schedule_word_def Let_def nth_append)

lemma schedule_word_next:
  assumes "0 < nk" "nk \<le> i"
  shows "schedule_word nk key i =
    xor_bytes (schedule_word nk key (i - nk))
      (let t = schedule_word nk key (i - 1) in
       if i mod nk = 0 then xor_bytes (SubBytes (RotWord t)) [Rcon (i div nk), 0, 0, 0]
       else if nk > 6 \<and> i mod nk = 4 then SubBytes t else t)"
proof -
  have "key_words nk key i \<noteq> []" using assms by (metis length_key_words list.size(3) not_less)
  then have "last (key_words nk key i) = schedule_word nk key (i - 1)"
    using assms by (simp add: last_conv_nth key_words_schedule)
  then show ?thesis using assms
    by (simp add: schedule_word_def [of nk key i] Let_def nth_append next_word_def key_words_schedule)
qed

lemma length_schedule_word:
  assumes "0 < nk" "length key = 4 * nk"
  shows "length (schedule_word nk key i) = 4"
proof (induction i rule: less_induct)
  case (less i)
  show ?case
  proof (cases "i < nk")
    case True
    then show ?thesis using assms by (simp add: schedule_word_key)
  next
    case False
    have 1: "length (schedule_word nk key (i - nk)) = 4" "length (schedule_word nk key (i - 1)) = 4"
      using less False assms(1) by simp_all
    from 1(2) have "schedule_word nk key (i - 1) \<noteq> []" by auto
    with 1 show ?thesis using schedule_word_next [of nk i key] False assms(1) by (simp add: Let_def)
  qed
qed

text \<open>Round keys as functions of round keys.\<close>

definition schedule :: "nat \<Rightarrow> bytes \<Rightarrow> nat \<Rightarrow> bytes" where
  "schedule nk key r = schedule_word nk key (4 * r) @ schedule_word nk key (4 * r + 1) @
     schedule_word nk key (4 * r + 2) @ schedule_word nk key (4 * r + 3)"

lemma take4: "length xs \<ge> n + 4 \<Longrightarrow> take 4 (drop n xs) = [xs ! n, xs ! (n + 1), xs ! (n + 2), xs ! (n + 3)]"
  by (rule nth_equalityI) (auto simp: less_Suc_eq numeral_eq_Suc)

lemma round_key_schedule: "4 * r + 4 \<le> n \<Longrightarrow> round_key (key_words nk key n) r = schedule nk key r"
  by (simp add: round_key_def take4 key_words_schedule schedule_def)

lemma length_schedule: "0 < nk \<Longrightarrow> length key = 4 * nk \<Longrightarrow> length (schedule nk key r) = 16"
  by (simp add: schedule_def length_schedule_word)

lemma schedule_lanes:
  assumes "0 < nk" "length key = 4 * nk"
  shows "lane (schedule nk key r) 0 = schedule_word nk key (4 * r)" "lane (schedule nk key r) (Suc 0) = schedule_word nk key (4 * r + 1)"
    "lane (schedule nk key r) 2 = schedule_word nk key (4 * r + 2)" "lane (schedule nk key r) 3 = schedule_word nk key (4 * r + 3)"
  unfolding schedule_def by (rule lanes; simp add: length_schedule_word assms)+

lemma schedule_key:
  assumes "length key = 4 * nk" "4 * r + 4 \<le> nk"
  shows "schedule nk key r = take 16 (drop (16 * r) key)"
proof -
  have "take 16 x = take 4 x @ take 4 (drop 4 x) @ take 4 (drop 8 x) @ take 4 (drop 12 x)" for x :: bytes
    using take_add [of 4 12 x] take_add [of 4 8 "drop 4 x"] take_add [of 4 4 "drop 8 x"] by simp
  then show ?thesis using assms by (simp add: schedule_def schedule_word_key algebra_simps)
qed

lemma schedule_next4:
  assumes key: "length key = 4 * nk" and m: "nk = 4 * m" "m \<in> {1, 2}" and r: "m \<le> r"
  shows "schedule nk key r =
    next4 (schedule nk key (r - m))
      (if r mod m = 0 then rot_word (schedule nk key (r - 1)) (Rcon (r div m)) else SubBytes (lane (schedule nk key (r - 1)) 3))"
proof -
  let ?w = "schedule_word nk key"
  have nk: "0 < nk" using m by auto
  have len: "length (?w i) = 4" for i by (rule length_schedule_word [OF nk key])
  have step: "?w (4 * r + j) = xor_bytes (?w (4 * (r - m) + j)) (?w (4 * r + j - 1))" if "j \<in> {1, 2, 3}" for j
  proof -
    have "(4 * r + j) mod nk \<noteq> 0 \<and> \<not> (nk > 6 \<and> (4 * r + j) mod nk = 4)"
    proof -
      have "(4 * r + j) mod 4 = j" using that by auto
      then have "(4 * r + j) mod nk mod 4 = j" using m by (simp add: mod_mod_cancel)
      then show ?thesis using that by auto
    qed
    moreover have "4 * r + j - nk = 4 * (r - m) + j" using m r by auto
    ultimately show ?thesis using schedule_word_next [of nk "4 * r + j" key] nk m r by (auto simp: Let_def)
  qed
  have "r \<noteq> 0" using m r by auto
  then have last: "?w (4 * r - 1) = lane (schedule nk key (r - 1)) 3"
    by (simp add: schedule_lanes [OF nk key] algebra_simps diff_mult_distrib2)
  have mods: "(4 * r) mod nk = 4 * (r mod m)" "(4 * r) div nk = r div m" using m by simp_all
  have first: "?w (4 * r) = xor_bytes (?w (4 * (r - m)))
      (if r mod m = 0 then rot_word (schedule nk key (r - 1)) (Rcon (r div m)) else SubBytes (lane (schedule nk key (r - 1)) 3))"
  proof -
    have "r mod m = 0 \<or> r mod m = 1 \<and> m = 2" using m(2) by auto
    moreover have "4 * r - nk = 4 * (r - m)" using m by auto
    ultimately show ?thesis
      using schedule_word_next [of nk "4 * r" key] nk m r last mods by (auto simp: Let_def rot_word_def)
  qed
  show ?thesis
    using step [of 1] step [of 2] step [of 3]
    by (simp add: schedule_def [of nk key r] next4_def Let_def schedule_lanes [OF nk key] first [symmetric])
qed


section \<open>Expansion of keys\<close>

text \<open>A loop that stores entry after entry.\<close>

lemma expand_loop:
  assumes step: "\<And>rk i x. (i, x) \<in> set xs \<Longrightarrow> i < length rk \<Longrightarrow> \<forall>j<i. rk ! j = K j \<Longrightarrow> step rk (i, x) = rk[i := K i]"
    and xs: "map fst xs = [m..<e]" "\<forall>j<m. rk ! j = K j" "e \<le> length rk" "m \<le> e"
  shows "\<forall>j<e. foldl step rk xs ! j = K j"
  using assms
proof (induction xs arbitrary: m rk)
  case Nil
  then show ?case by (metis Nil_is_map_conv foldl_Nil le_antisym upt_eq_Nil_conv zero_less_iff_neq_zero not_less0)
next
  case (Cons p xs)
  obtain i x where p: "p = (i, x)" by (cases p)
  have m: "m < e" "i = m" "map fst xs = [Suc m..<e]"
    using Cons.prems(2) p by (cases "m < e"; simp add: upt_conv_Cons)+
  have "step rk p = rk[m := K m]" using Cons.prems(1) [of i x rk] Cons.prems(3,4) m p by simp
  moreover have "\<forall>j<e. foldl step (rk[m := K m]) xs ! j = K j"
    using Cons.prems m by (intro Cons.IH [of "Suc m"]) (auto simp: nth_list_update less_Suc_eq)
  ultimately show ?case by simp
qed

lemma length_slli: "length v = 16 \<Longrightarrow> n \<le> 16 \<Longrightarrow> length (mm_slli_si128 v n) = 16"
  by (simp add: mm_slli_si128_def)

lemma schedule_128:
  assumes "length key = 16" "1 \<le> r"
  shows "schedule 4 key r = next4 (schedule 4 key (r - 1)) (rot_word (schedule 4 key (r - 1)) (Rcon r))"
  using schedule_next4 [of key 4 1 r] assms by simp

lemma schedule_256:
  assumes "length key = 32" "2 \<le> r"
  shows "schedule 8 key r = next4 (schedule 8 key (r - 2))
    (if even r then rot_word (schedule 8 key (r - 1)) (Rcon (r div 2)) else SubBytes (lane (schedule 8 key (r - 1)) 3))"
  unfolding even_iff_mod_2_eq_zero by (rule schedule_next4) (use assms in simp_all)

lemma MKRKEY128_x86_eq:
  assumes "x86_aes_ok I" "length (rk ! (i - 1)) = 16"
  shows "MKRKEY128_x86 I rk i rcon = rk[i := next4 (rk ! (i - 1)) (rot_word (rk ! (i - 1)) rcon)]"
  using assms by (simp add: MKRKEY128_x86_def Let_def assist(1) expand_vector)

lemma MKRKEY256_x86_eq:
  assumes "x86_aes_ok I" "length (rk ! (i - 1)) = 16" "length (rk ! (i - 2)) = 16"
  shows "MKRKEY256_x86 I rk i 0xff rcon = rk[i := next4 (rk ! (i - 2)) (rot_word (rk ! (i - 1)) rcon)]"
    and "MKRKEY256_x86 I rk i 0xaa rcon = rk[i := next4 (rk ! (i - 2)) (SubBytes (lane (rk ! (i - 1)) 3))]"
  using assms by (simp_all add: MKRKEY256_x86_def Let_def assist expand_vector length_lane)

lemma MKRKEY128_arm_eq:
  assumes "arm_aes_ok I" "length (rk ! (i - 1)) = 16"
  shows "MKRKEY128_arm I rk i (ucast rcon) = rk[i := next4 (rk ! (i - 1)) (rot_word (rk ! (i - 1)) rcon)]"
  using assms by (simp add: MKRKEY128_arm_def Let_def rot_duplicate vshlq_slli length_slli expand_vector)

lemma MKRKEY256_arm_eq:
  assumes "arm_aes_ok I" "length (rk ! (i - 1)) = 16" "length (rk ! (i - 2)) = 16"
  shows "MKRKEY256_arm I rk i (ucast rcon) = rk[i := next4 (rk ! (i - 2))
    (if even i then rot_word (rk ! (i - 1)) rcon else SubBytes (lane (rk ! (i - 1)) 3))]"
proof -
  have "i mod 2 = 1 \<longleftrightarrow> odd i" by presburger
  then show ?thesis using assms
    by (simp add: MKRKEY256_arm_def Let_def rot_duplicate duplicate vshlq_slli length_slli expand_vector length_lane)
qed

text \<open>The four expansions.\<close>

definition rcons_128 :: "(nat \<times> u8) list" where
  "rcons_128 = map (\<lambda>i. (i, Rcon i)) [1..<11]"

definition rcons_256 :: "(nat \<times> u8) list" where
  "rcons_256 = map (\<lambda>i. (i, if even i then Rcon (i div 2) else 0)) [2..<15]"

lemma rcons_lists:
  "[(1, 0x01), (2, 0x02), (3, 0x04), (4, 0x08), (5, 0x10), (6, 0x20), (7, 0x40), (8, 0x80), (9, 0x1b), (10, 0x36)] = rcons_128"
  "[(2, 0x01), (3, 0x00), (4, 0x02), (5, 0x00), (6, 0x04), (7, 0x00), (8, 0x08), (9, 0x00), (10, 0x10), (11, 0x00),
    (12, 0x20), (13, 0x00), (14, 0x40)] = rcons_256"
  by code_simp+

lemma expand_128:
  assumes key: "length key = 16" and rk: "length rk = 15"
    and step: "\<And>rk i x. (i, x) \<in> set xs \<Longrightarrow> length (rk ! (i - 1)) = 16 \<Longrightarrow> step rk (i, x) = rk[i := next4 (rk ! (i - 1)) (rot_word (rk ! (i - 1)) (f x))]"
    and xs: "map (\<lambda>(i, x). (i, f x)) xs = rcons_128"
  shows "\<forall>j<11. foldl step (rk[0 := take 16 key]) xs ! j = schedule 4 key j"
proof (rule expand_loop)
  fix rk' :: "bytes list" and i x
  assume i: "(i, x) \<in> set xs" and K: "\<forall>j<i. rk' ! j = schedule 4 key j"
  have "(i, f x) \<in> set (map (\<lambda>(i, x). (i, f x)) xs)" using i by (auto intro: rev_image_eqI)
  then have "1 \<le> i" "f x = Rcon i" unfolding xs by (auto simp: rcons_128_def)
  with K have "rk' ! (i - 1) = schedule 4 key (i - 1)" by simp
  with key schedule_128 [OF key \<open>1 \<le> i\<close>] step [OF i, of rk'] show "step rk' (i, x) = rk'[i := schedule 4 key i]"
    by (simp add: length_schedule \<open>f x = Rcon i\<close>)
next
  have "map fst xs = map fst (map (\<lambda>(i, x). (i, f x)) xs)" by (auto simp: case_prod_beta)
  then show "map fst xs = [1..<11]" unfolding xs by (simp add: rcons_128_def comp_def)
qed (use key rk schedule_key [of key 4 0] in simp_all)

lemma expand_256:
  assumes key: "length key = 32" and rk: "length rk = 15"
    and step: "\<And>rk i x. (i, x) \<in> set xs \<Longrightarrow> length (rk ! (i - 1)) = 16 \<Longrightarrow> length (rk ! (i - 2)) = 16 \<Longrightarrow>
      step rk (i, x) = rk[i := next4 (rk ! (i - 2))
        (if even i then rot_word (rk ! (i - 1)) (f x) else SubBytes (lane (rk ! (i - 1)) 3))]"
    and xs: "map (\<lambda>(i, x). (i, f x)) xs = rcons_256"
  shows "\<forall>j<15. foldl step (rk[0 := take 16 key, 1 := take 16 (drop 16 key)]) xs ! j = schedule 8 key j"
proof (rule expand_loop)
  fix rk' :: "bytes list" and i x
  assume i: "(i, x) \<in> set xs" and K: "\<forall>j<i. rk' ! j = schedule 8 key j"
  have "(i, f x) \<in> set (map (\<lambda>(i, x). (i, f x)) xs)" using i by (auto intro: rev_image_eqI)
  then have "2 \<le> i" "even i \<longrightarrow> f x = Rcon (i div 2)" unfolding xs by (auto simp: rcons_256_def split: if_splits)
  with K have "rk' ! (i - 1) = schedule 8 key (i - 1)" "rk' ! (i - 2) = schedule 8 key (i - 2)" by simp_all
  with key schedule_256 [OF key \<open>2 \<le> i\<close>] step [OF i, of rk'] \<open>even i \<longrightarrow> f x = Rcon (i div 2)\<close>
  show "step rk' (i, x) = rk'[i := schedule 8 key i]"
    by (simp add: length_schedule)
next
  have "map fst xs = map fst (map (\<lambda>(i, x). (i, f x)) xs)" by (auto simp: case_prod_beta)
  then show "map fst xs = [2..<15]" unfolding xs by (simp add: rcons_256_def comp_def)
next
  show "\<forall>j<2. rk[0 := take 16 key, 1 := take 16 (drop 16 key)] ! j = schedule 8 key j"
    using key rk schedule_key [of key 8 0] schedule_key [of key 8 1] by (auto simp: less_Suc_eq numeral_2_eq_2)
qed (use rk in simp_all)

lemma expand_128_aesni:
  assumes "x86_aes_ok I" "length key = 16" "length rk = 15"
  shows "\<forall>j<11. crypto_aes_key_expand_128_aesni I key rk ! j = schedule 4 key j"
  unfolding crypto_aes_key_expand_128_aesni_def rcons_lists
  by (rule expand_128 [where f = "\<lambda>x. x"]) (use assms in \<open>simp_all add: MKRKEY128_x86_eq\<close>)

lemma MKRKEY256_x86_shuffle:
  assumes "x86_aes_ok I" "length (rk ! (i - 1)) = 16" "length (rk ! (i - 2)) = 16"
  shows "MKRKEY256_x86 I rk i (if even i then 0xff else 0xaa) rcon = rk[i := next4 (rk ! (i - 2))
    (if even i then rot_word (rk ! (i - 1)) rcon else SubBytes (lane (rk ! (i - 1)) 3))]"
  using MKRKEY256_x86_eq [OF assms] by simp

lemma expand_256_aesni:
  assumes "x86_aes_ok I" "length key = 32" "length rk = 15"
  shows "\<forall>j<15. crypto_aes_key_expand_256_aesni I key rk ! j = schedule 8 key j"
  unfolding crypto_aes_key_expand_256_aesni_def
proof (rule expand_256 [where f = snd])
  fix rk :: "bytes list" and i and x :: "nat \<times> u8"
  assume i: "(i, x) \<in> set [(2, 0xff, 0x01), (3, 0xaa, 0x00), (4, 0xff, 0x02), (5, 0xaa, 0x00), (6, 0xff, 0x04), (7, 0xaa, 0x00),
        (8, 0xff, 0x08), (9, 0xaa, 0x00), (10, 0xff, 0x10), (11, 0xaa, 0x00), (12, 0xff, 0x20), (13, 0xaa, 0x00),
        (14, 0xff, 0x40)]"
    and len: "length (rk ! (i - 1)) = 16" "length (rk ! (i - 2)) = 16"
  from i have x: "x = (if even i then 0xff else 0xaa, snd x)" by auto
  show "(\<lambda>(i, shuffle, rcon). MKRKEY256_x86 I rk i shuffle rcon) (i, x) = rk[i := next4 (rk ! (i - 2))
    (if even i then rot_word (rk ! (i - 1)) (snd x) else SubBytes (lane (rk ! (i - 1)) 3))]"
    by (subst x) (simp only: prod.case MKRKEY256_x86_shuffle [OF assms(1) len])
next
  show "map (\<lambda>(i, x). (i, snd x)) [(2, 0xff, 0x01), (3, 0xaa, 0x00), (4, 0xff, 0x02), (5, 0xaa, 0x00), (6, 0xff, 0x04), (7, 0xaa, 0x00),
        (8, 0xff, 0x08), (9, 0xaa, 0x00), (10, 0xff, 0x10), (11, 0xaa, 0x00), (12, 0xff, 0x20), (13, 0xaa, 0x00),
        (14, 0xff, 0x40)] = rcons_256"
    by (simp add: rcons_lists(2) [symmetric])
qed (use assms in simp_all)

lemma expand_128_arm:
  assumes "arm_aes_ok I" "length key = 16" "length rk = 15"
  shows "\<forall>j<11. crypto_aes_key_expand_128_arm I key rk ! j = schedule 4 key j"
  unfolding crypto_aes_key_expand_128_arm_def
proof (rule expand_128 [where f = "ucast :: u32 \<Rightarrow> u8"])
  fix rk :: "bytes list" and i and x :: u32
  assume i: "(i, x) \<in> set [(1, 0x01), (2, 0x02), (3, 0x04), (4, 0x08), (5, 0x10), (6, 0x20), (7, 0x40), (8, 0x80), (9, 0x1b), (10, 0x36)]"
    and len: "length (rk ! (i - 1)) = 16"
  from i have x: "x = ucast (ucast x :: u8)" by auto
  show "(\<lambda>(i, rcon). MKRKEY128_arm I rk i rcon) (i, x) = rk[i := next4 (rk ! (i - 1)) (rot_word (rk ! (i - 1)) (ucast x))]"
    by (subst x) (simp only: prod.case MKRKEY128_arm_eq [OF assms(1) len])
qed (use assms in \<open>simp_all add: rcons_lists(1) [symmetric]\<close>)

lemma expand_256_arm:
  assumes "arm_aes_ok I" "length key = 32" "length rk = 15"
  shows "\<forall>j<15. crypto_aes_key_expand_256_arm I key rk ! j = schedule 8 key j"
  unfolding crypto_aes_key_expand_256_arm_def
proof (rule expand_256 [where f = "ucast :: u32 \<Rightarrow> u8"])
  fix rk :: "bytes list" and i and x :: u32
  assume i: "(i, x) \<in> set [(2, 0x01), (3, 0x00), (4, 0x02), (5, 0x00), (6, 0x04), (7, 0x00), (8, 0x08), (9, 0x00), (10, 0x10), (11, 0x00),
        (12, 0x20), (13, 0x00), (14, 0x40)]"
    and len: "length (rk ! (i - 1)) = 16" "length (rk ! (i - 2)) = 16"
  from i have x: "x = ucast (ucast x :: u8)" by auto
  show "(\<lambda>(i, rcon). MKRKEY256_arm I rk i rcon) (i, x) = rk[i := next4 (rk ! (i - 2))
    (if even i then rot_word (rk ! (i - 1)) (ucast x) else SubBytes (lane (rk ! (i - 1)) 3))]"
    by (subst x) (simp only: prod.case MKRKEY256_arm_eq [OF assms(1) len])
qed (use assms in \<open>simp_all add: rcons_lists(2) [symmetric]\<close>)


section \<open>The instructions compute AES\<close>

text \<open>An expanded key, and what it encrypts to.\<close>

definition hw_key_for :: "bytes \<Rightarrow> crypto_aes_key_hw \<Rightarrow> bool" where
  "hw_key_for key k \<longleftrightarrow>
     length key \<in> {16, 32} \<and> hw_nr k = length key div 4 + 6 \<and>
     (\<forall>j \<le> hw_nr k. hw_rkeys k ! j = schedule (length key div 4) key j)"

lemma hw_key_rounds:
  assumes "hw_key_for key k"
  shows "hw_nr k \<in> {10, 14}" and "j \<le> hw_nr k \<Longrightarrow> length (hw_rkeys k ! j) = 16"
  using assms length_schedule [of "length key div 4" key j] by (auto simp: hw_key_for_def)

lemma aes_block_rounds:
  assumes "hw_key_for key k"
  shows "aes_block key s = aes_cipher (hw_nr k) (\<lambda>j. hw_rkeys k ! j) s"
proof -
  let ?nk = "length key div 4"
  let ?ws = "key_words ?nk key (4 * (hw_nr k + 1))"
  have rk: "round_key ?ws j = hw_rkeys k ! j" if "j \<le> hw_nr k" for j
    using that assms by (simp add: round_key_schedule hw_key_for_def)
  have "foldl (\<lambda>s r. aes_round s (round_key ?ws r)) t [1..<hw_nr k] = foldl (\<lambda>s r. aes_round s (hw_rkeys k ! r)) t [1..<hw_nr k]" for t
    by (rule foldl_cong) (use rk in auto)
  then show ?thesis using assms rk [of 0] rk [of "hw_nr k"] by (simp add: aes_block_def aes_cipher_def Let_def hw_key_for_def)
qed

lemma length_aes_round: "length s = 16 \<Longrightarrow> length k = 16 \<Longrightarrow> length (aes_round s k) = 16"
  by (simp add: aes_round_def)

lemma length_aes_rounds:
  "length s = 16 \<Longrightarrow> \<forall>r \<in> set rs. length (rk r) = 16 \<Longrightarrow> length (foldl (\<lambda>s r. aes_round s (rk r)) s rs) = 16"
  by (induction rs arbitrary: s) (simp_all add: length_aes_round)

lemma aesenc_rounds:
  assumes I: "x86_aes_ok I"
  shows "length s = 16 \<Longrightarrow> \<forall>r \<in> set rs. length (rk r) = 16 \<Longrightarrow>
    foldl (\<lambda>s r. mm_aesenc_si128 I s (rk r)) s rs = foldl (\<lambda>s r. aes_round s (rk r)) s rs"
proof (induction rs arbitrary: s)
  case (Cons r rs)
  have "mm_aesenc_si128 I s (rk r) = aes_round s (rk r)"
    using I Cons.prems by (simp add: x86_aes_ok_def aes_round_def SubBytes_ShiftRows)
  then show ?case using Cons by (simp add: length_aes_round)
qed simp

lemma round_numbers: "[1..<10] = [1, 2, 3, 4, 5, 6, 7, 8, 9]" "[10..<14] = [10, 11, 12, 13 :: nat]"
  "[0..<9] = [0, 1, 2, 3, 4, 5, 6, 7, 8]" "[9..<13] = [9, 10, 11, 12 :: nat]"
  by (simp_all add: upt_rec)

lemma round_split:
  assumes "n \<in> {10, 14}"
  shows "[1..<n] = [1, 2, 3, 4, 5, 6, 7, 8, 9] @ (if n > 10 then [10, 11, 12, 13] else [])"
    and "[0..<n - 1] = [0, 1, 2, 3, 4, 5, 6, 7, 8] @ (if n > 10 then [9, 10, 11, 12] else [])"
  using assms by (auto simp: upt_rec)

lemma encrypt_aesni:
  assumes I: "x86_aes_ok I" and k: "hw_key_for key k" and s: "length s = 16"
  shows "crypto_aes_encrypt_block_aesni I s k = aes_block key s"
proof -
  let ?rk = "\<lambda>j. hw_rkeys k ! j"
  have n: "hw_nr k \<in> {10, 14}" and len: "\<And>j. j \<le> hw_nr k \<Longrightarrow> length (?rk j) = 16"
    using hw_key_rounds [OF k] by auto
  let ?x = "xor_bytes s (?rk 0)"
  let ?e = "foldl (\<lambda>s r. mm_aesenc_si128 I s (?rk r)) ?x [1..<hw_nr k]"
  have x: "length ?x = 16" using s len [of 0] by simp
  have e: "?e = foldl (\<lambda>s r. aes_round s (?rk r)) ?x [1..<hw_nr k]"
    using x len by (intro aesenc_rounds [OF I]) auto
  have "length ?e = 16" unfolding e using x len by (intro length_aes_rounds) auto
  then have last: "mm_aesenclast_si128 I ?e (?rk (hw_nr k)) = xor_bytes (ShiftRows (SubBytes ?e)) (?rk (hw_nr k))"
    using I len by (simp add: x86_aes_ok_def SubBytes_ShiftRows)
  have "crypto_aes_encrypt_block_aesni I s k = mm_aesenclast_si128 I ?e (?rk (hw_nr k))"
    unfolding round_split(1) [OF n] crypto_aes_encrypt_block_aesni_def crypto_aes_encrypt_block_aesni_m128i_def Let_def take_all [OF eq_refl [OF s]]
    by (cases "hw_nr k > 10") (simp_all only: if_True if_False foldl_append append_Nil2)
  then show ?thesis unfolding aes_block_rounds [OF k] aes_cipher_def e [symmetric] last [symmetric] .
qed

text \<open>The ARM instructions add the round key before the substitution.\<close>

lemma arm_rounds:
  assumes I: "arm_aes_ok I" and s: "length s = 16" and rk: "\<forall>j \<le> n. length (rk j) = 16"
  shows "length (foldl (\<lambda>s i. vaesmcq_u8 I (vaeseq_u8 I s (rk i))) s [0..<n]) = 16 \<and>
    xor_bytes (foldl (\<lambda>s i. vaesmcq_u8 I (vaeseq_u8 I s (rk i))) s [0..<n]) (rk n) =
    foldl (\<lambda>s r. aes_round s (rk r)) (xor_bytes s (rk 0)) [1..<Suc n]"
  using rk
proof (induction n)
  case (Suc n)
  let ?t = "foldl (\<lambda>s i. vaesmcq_u8 I (vaeseq_u8 I s (rk i))) s [0..<n]"
  let ?a = "foldl (\<lambda>s r. aes_round s (rk r)) (xor_bytes s (rk 0)) [1..<Suc n]"
  from Suc have t: "length ?t = 16" "xor_bytes ?t (rk n) = ?a" by auto
  have k: "length (rk n) = 16" "length (rk (Suc n)) = 16" using Suc.prems by auto
  have a: "length ?a = 16" using t k by (metis length_xor_bytes min.idem)
  have "vaesmcq_u8 I (vaeseq_u8 I ?t (rk n)) = MixColumns (ShiftRows (SubBytes ?a))"
    using I t k a by (simp add: arm_aes_ok_def SubBytes_ShiftRows del: upt_Suc)
  then show ?case using k by (simp add: aes_round_def)
qed (use s in simp)

lemma encrypt_arm:
  assumes I: "arm_aes_ok I" and k: "hw_key_for key k" and s: "length s = 16"
  shows "crypto_aes_encrypt_block_arm I s k = aes_block key s"
proof -
  let ?rk = "\<lambda>j. hw_rkeys k ! j" and ?m = "hw_nr k - 1"
  have n: "hw_nr k \<in> {10, 14}" and len: "\<And>j. j \<le> hw_nr k \<Longrightarrow> length (?rk j) = 16"
    using hw_key_rounds [OF k] by auto
  then have m: "Suc ?m = hw_nr k" by auto
  let ?e = "foldl (\<lambda>s i. vaesmcq_u8 I (vaeseq_u8 I s (?rk i))) s [0..<?m]"
  let ?a = "foldl (\<lambda>s r. aes_round s (?rk r)) (xor_bytes s (?rk 0)) [1..<hw_nr k]"
  have rk: "\<forall>j \<le> ?m. length (?rk j) = 16" using len m by simp
  have e: "length ?e = 16" "xor_bytes ?e (?rk ?m) = ?a"
    using arm_rounds [OF I s rk] unfolding m by blast+
  have "length (xor_bytes ?e (?rk ?m)) = 16" using e(1) rk by simp
  then have a: "length ?a = 16" unfolding e(2) .
  have "vaeseq_u8 I ?e (?rk ?m) = ShiftRows (SubBytes ?a)"
    using I e len [of ?m] a by (simp add: arm_aes_ok_def SubBytes_ShiftRows)
  moreover have "crypto_aes_encrypt_block_arm I s k = xor_bytes (vaeseq_u8 I ?e (?rk ?m)) (?rk (hw_nr k))"
    unfolding round_split(2) [OF n] crypto_aes_encrypt_block_arm_def crypto_aes_encrypt_block_arm_u8_def Let_def take_all [OF eq_refl [OF s]]
    by (cases "hw_nr k > 10") (simp_all only: if_True if_False foldl_append append_Nil2)
  ultimately show ?thesis unfolding aes_block_rounds [OF k] aes_cipher_def by simp
qed

lemma take_key:
  "take 16 (take 16 key) = take 16 key" "take 16 (take 32 key) = take 16 key"
  "take 16 (drop 16 (take 32 key)) = take 16 (drop 16 key)" for key :: bytes
  by (simp_all add: drop_take)

lemma expand_take:
  "crypto_aes_key_expand_128_aesni I (take 16 key) rk = crypto_aes_key_expand_128_aesni I key rk"
  "crypto_aes_key_expand_256_aesni I (take 32 key) rk = crypto_aes_key_expand_256_aesni I key rk"
  "crypto_aes_key_expand_128_arm J (take 16 key) rk = crypto_aes_key_expand_128_arm J key rk"
  "crypto_aes_key_expand_256_arm J (take 32 key) rk = crypto_aes_key_expand_256_arm J key rk"
  unfolding crypto_aes_key_expand_128_aesni_def crypto_aes_key_expand_256_aesni_def
    crypto_aes_key_expand_128_arm_def crypto_aes_key_expand_256_arm_def take_key
  by (rule refl)+

lemma key_expand_aesni:
  assumes "x86_aes_ok I" "len \<in> {16, 32}" "len \<le> length key" "length (hw_rkeys m) = 15"
  shows "\<exists>k. crypto_aes_key_expand_aesni I (Some m) key len = Some k \<and> hw_key_for (take len key) k"
  using assms expand_128_aesni [OF assms(1), of "take len key" "hw_rkeys m"] expand_256_aesni [OF assms(1), of "take len key" "hw_rkeys m"]
  by (auto simp: crypto_aes_key_expand_aesni_def hw_key_for_def expand_take)

lemma key_expand_arm:
  assumes "arm_aes_ok I" "len \<in> {16, 32}" "len \<le> length key" "length (hw_rkeys m) = 15"
  shows "\<exists>k. crypto_aes_key_expand_arm I (Some m) key len = Some k \<and> hw_key_for (take len key) k"
  using assms expand_128_arm [OF assms(1), of "take len key" "hw_rkeys m"] expand_256_arm [OF assms(1), of "take len key" "hw_rkeys m"]
  by (auto simp: crypto_aes_key_expand_arm_def hw_key_for_def expand_take)

end
