(* ===== verification/Crypto_Aes.thy ===== *)
theory Crypto_Aes
  imports Aes
begin

text \<open>
  \<open>crypto/crypto_aes.c\<close>: the choice between the AES instructions of x86, those of ARM and OpenSSL,
  with its self-tests, and the functions that expand, use and free keys.  OpenSSL, what the
  processor and the build offer, and the answers of \<open>malloc\<close> are parameters; an \<open>abort\<close> and a key
  that is read as the wrong structure are faults.  The vectors of the self-test are evaluated on
  FIPS 197 as it is written in \<open>Aes\<close>, and a client of the functions gets AES for any order of calls.
\<close>

section \<open>\<open>crypto_aes.c\<close>\<close>

text \<open>The choice of the implementation, and the vectors for the self-test.\<close>

datatype aes_hwaccel = AES_HW_SOFTWARE | AES_HW_X86_AESNI | AES_HW_ARM_AES | AES_HW_UNSET

record aes_test =
  at_key :: bytes
  at_len :: nat
  at_ptext :: bytes
  at_ctext :: bytes

definition testcases :: "aes_test list" where
  "testcases =
    [\<lparr>at_key = [0x00, 0x01, 0x02, 0x03, 0x04, 0x05, 0x06, 0x07, 0x08, 0x09, 0x0a, 0x0b, 0x0c, 0x0d, 0x0e, 0x0f,
         0, 0, 0, 0, 0, 0, 0, 0, 0, 0, 0, 0, 0, 0, 0, 0],
       at_len = 16,
       at_ptext = [0x00, 0x11, 0x22, 0x33, 0x44, 0x55, 0x66, 0x77, 0x88, 0x99, 0xaa, 0xbb, 0xcc, 0xdd, 0xee, 0xff],
       at_ctext = [0x69, 0xc4, 0xe0, 0xd8, 0x6a, 0x7b, 0x04, 0x30, 0xd8, 0xcd, 0xb7, 0x80, 0x70, 0xb4, 0xc5, 0x5a]\<rparr>,
     \<lparr>at_key = [0x00, 0x01, 0x02, 0x03, 0x04, 0x05, 0x06, 0x07, 0x08, 0x09, 0x0a, 0x0b, 0x0c, 0x0d, 0x0e, 0x0f,
         0x10, 0x11, 0x12, 0x13, 0x14, 0x15, 0x16, 0x17, 0x18, 0x19, 0x1a, 0x1b, 0x1c, 0x1d, 0x1e, 0x1f],
       at_len = 32,
       at_ptext = [0x00, 0x11, 0x22, 0x33, 0x44, 0x55, 0x66, 0x77, 0x88, 0x99, 0xaa, 0xbb, 0xcc, 0xdd, 0xee, 0xff],
       at_ctext = [0x8e, 0xa2, 0xb7, 0xca, 0x51, 0x67, 0x45, 0xbf, 0xea, 0xfc, 0x49, 0x90, 0x4b, 0x49, 0x60, 0x89]\<rparr>]"

text \<open>\<open>functest\<close>: the function is given the number of the test, for what the allocator answers there.\<close>

fun functest_loop :: "(nat \<Rightarrow> bytes \<Rightarrow> nat \<Rightarrow> bytes \<Rightarrow> bytes option) \<Rightarrow> nat \<Rightarrow> aes_test list \<Rightarrow> int option" where
  "functest_loop func i [] = Some 0"
| "functest_loop func i (knowngood # ts) =
     (if \<not> (at_len knowngood = 16 \<or> at_len knowngood = 32) then None
      else case func i (at_key knowngood) (at_len knowngood) (at_ptext knowngood) of
        None \<Rightarrow> Some (-1)
      | Some ctext \<Rightarrow>
          if at_ctext knowngood \<noteq> ctext then Some (-1)
          else functest_loop func (Suc i) ts)"

definition functest :: "(nat \<Rightarrow> bytes \<Rightarrow> nat \<Rightarrow> bytes \<Rightarrow> bytes option) \<Rightarrow> int option" where
  "functest func = functest_loop func 0 testcases"

definition x86_aesni_oneshot :: "x86_aes \<Rightarrow> crypto_aes_key_hw option \<Rightarrow> bytes \<Rightarrow> nat \<Rightarrow> bytes \<Rightarrow> bytes option" where
  "x86_aesni_oneshot I new key len ptext = do {
     kexp_hw \<leftarrow> crypto_aes_key_expand_aesni I new key len;
     Some (crypto_aes_encrypt_block_aesni I ptext kexp_hw)
   }"

definition arm_aes_oneshot :: "arm_aes \<Rightarrow> crypto_aes_key_hw option \<Rightarrow> bytes \<Rightarrow> nat \<Rightarrow> bytes \<Rightarrow> bytes option" where
  "arm_aes_oneshot I new key len ptext = do {
     kexp_hw \<leftarrow> crypto_aes_key_expand_arm I new key len;
     Some (crypto_aes_encrypt_block_arm I ptext kexp_hw)
   }"

text \<open>OpenSSL: \<open>AES_set_encrypt_key\<close> is \<open>None\<close> when it does not return 0.\<close>

record 'k openssl_aes =
  AES_set_encrypt_key :: "bytes \<Rightarrow> nat \<Rightarrow> 'k option"
  AES_encrypt :: "bytes \<Rightarrow> 'k \<Rightarrow> bytes"

definition openssl_oneshot :: "'k openssl_aes \<Rightarrow> bytes \<Rightarrow> nat \<Rightarrow> bytes \<Rightarrow> bytes option" where
  "openssl_oneshot S key len ptext = do {
     kexp \<leftarrow> AES_set_encrypt_key S key (len * 8);
     Some (AES_encrypt S ptext kexp)
   }"

text \<open>
  The machine: the instructions the code is built with and whether \<open>cpusupport\<close> finds them, OpenSSL,
  and the memory that the allocator gives in a self-test on x86 and on ARM.
\<close>

record 'k aes_machine =
  built_x86 :: "x86_aes option"
  cpusupport_x86_aesni :: bool
  built_arm :: "arm_aes option"
  cpusupport_arm_aes :: bool
  openssl :: "'k openssl_aes"
  malloc_x86 :: "nat \<Rightarrow> crypto_aes_key_hw option"
  malloc_arm :: "nat \<Rightarrow> crypto_aes_key_hw option"

definition HWACCEL :: "'k aes_machine \<Rightarrow> bool" where
  "HWACCEL M \<longleftrightarrow> built_x86 M \<noteq> None \<or> built_arm M \<noteq> None"

text \<open>\<open>CPUSUPPORT_VALIDATE\<close> on both, then the test of OpenSSL; \<open>abort\<close> is \<open>None\<close>.\<close>

definition aes_hwaccel_init :: "'k aes_machine \<Rightarrow> aes_hwaccel \<Rightarrow> aes_hwaccel option" where
  "aes_hwaccel_init M hw =
     (if hw \<noteq> AES_HW_UNSET then Some hw
      else do {
        r \<leftarrow> (case built_x86 M of
               None \<Rightarrow> Some (-1)
             | Some I \<Rightarrow> if cpusupport_x86_aesni M then functest (\<lambda>i. x86_aesni_oneshot I (malloc_x86 M i)) else Some (-1));
        if r = 0 then Some AES_HW_X86_AESNI
        else do {
          r \<leftarrow> (case built_arm M of
                 None \<Rightarrow> Some (-1)
               | Some I \<Rightarrow> if cpusupport_arm_aes M then functest (\<lambda>i. arm_aes_oneshot I (malloc_arm M i)) else Some (-1));
          if r = 0 then Some AES_HW_ARM_AES
          else do {
            r \<leftarrow> functest (\<lambda>i. openssl_oneshot (openssl M));
            if r \<noteq> 0 then None else Some AES_HW_SOFTWARE
          }
        }
      })"

definition crypto_aes_can_use_intrinsics :: "'k aes_machine \<Rightarrow> aes_hwaccel \<Rightarrow> (aes_hwaccel \<times> int) option" where
  "crypto_aes_can_use_intrinsics M hw =
     (if HWACCEL M then do {
        hw \<leftarrow> aes_hwaccel_init M hw;
        if built_x86 M \<noteq> None \<and> hw = AES_HW_X86_AESNI then Some (hw, 1)
        else if built_arm M \<noteq> None \<and> hw = AES_HW_ARM_AES then Some (hw, 2)
        else Some (hw, 0)
      } else Some (hw, 0))"

text \<open>
  A key is an opaque pointer; reading it as the wrong structure is a fault.  \<open>new\<close> is the memory
  that \<open>malloc\<close> gives in this call; \<open>live\<close> is the number of structures that are allocated.
\<close>

datatype 'k crypto_aes_key = KEY_AESNI crypto_aes_key_hw | KEY_ARM crypto_aes_key_hw | KEY_OPENSSL 'k

record aes_state =
  hwaccel :: aes_hwaccel
  live :: nat

definition returned_key :: "'k crypto_aes_key option \<Rightarrow> aes_state \<Rightarrow> aes_state \<times> 'k crypto_aes_key option" where
  "returned_key k s = (if k = None then s else s\<lparr>live := live s + 1\<rparr>, k)"

definition crypto_aes_key_expand ::
  "'k aes_machine \<Rightarrow> crypto_aes_key_hw option \<Rightarrow> bytes \<Rightarrow> nat \<Rightarrow> aes_state \<Rightarrow> (aes_state \<times> 'k crypto_aes_key option) option" where
  "crypto_aes_key_expand M new key len s = do {
     cassert (len = 16 \<or> len = 32);
     hw \<leftarrow> (if HWACCEL M then aes_hwaccel_init M (hwaccel s) else Some (hwaccel s));
     let s = s\<lparr>hwaccel := hw\<rparr>;
     Some (if built_x86 M \<noteq> None \<and> hw = AES_HW_X86_AESNI then
             returned_key (map_option KEY_AESNI (crypto_aes_key_expand_aesni (the (built_x86 M)) new key len)) s
           else if built_arm M \<noteq> None \<and> hw = AES_HW_ARM_AES then
             returned_key (map_option KEY_ARM (crypto_aes_key_expand_arm (the (built_arm M)) new key len)) s
           else if new = None then (s, None)
           else returned_key (map_option KEY_OPENSSL (AES_set_encrypt_key (openssl M) key (len * 8))) s)
   }"

definition crypto_aes_encrypt_block :: "'k aes_machine \<Rightarrow> bytes \<Rightarrow> 'k crypto_aes_key \<Rightarrow> aes_state \<Rightarrow> bytes option" where
  "crypto_aes_encrypt_block M inp key s =
     (if built_x86 M \<noteq> None \<and> hwaccel s = AES_HW_X86_AESNI then
        (case key of KEY_AESNI k \<Rightarrow> Some (crypto_aes_encrypt_block_aesni (the (built_x86 M)) inp k) | _ \<Rightarrow> None)
      else if built_arm M \<noteq> None \<and> hwaccel s = AES_HW_ARM_AES then
        (case key of KEY_ARM k \<Rightarrow> Some (crypto_aes_encrypt_block_arm (the (built_arm M)) inp k) | _ \<Rightarrow> None)
      else (case key of KEY_OPENSSL k \<Rightarrow> Some (AES_encrypt (openssl M) inp k) | _ \<Rightarrow> None))"

text \<open>Freeing is the same for each kind of key, but clears the size of the structure that it expects.\<close>

definition free_key :: "bool \<Rightarrow> aes_state \<Rightarrow> aes_state option" where
  "free_key kind s = (if kind \<and> live s > 0 then Some (s\<lparr>live := live s - 1\<rparr>) else None)"

definition crypto_aes_key_free_aesni :: "'k crypto_aes_key option \<Rightarrow> aes_state \<Rightarrow> aes_state option" where
  "crypto_aes_key_free_aesni key s =
     (case key of None \<Rightarrow> Some s | Some k \<Rightarrow> free_key (case k of KEY_AESNI _ \<Rightarrow> True | _ \<Rightarrow> False) s)"

definition crypto_aes_key_free_arm :: "'k crypto_aes_key option \<Rightarrow> aes_state \<Rightarrow> aes_state option" where
  "crypto_aes_key_free_arm key s =
     (case key of None \<Rightarrow> Some s | Some k \<Rightarrow> free_key (case k of KEY_ARM _ \<Rightarrow> True | _ \<Rightarrow> False) s)"

definition crypto_aes_key_free :: "'k aes_machine \<Rightarrow> 'k crypto_aes_key option \<Rightarrow> aes_state \<Rightarrow> aes_state option" where
  "crypto_aes_key_free M key s =
     (if built_x86 M \<noteq> None \<and> hwaccel s = AES_HW_X86_AESNI then crypto_aes_key_free_aesni key s
      else if built_arm M \<noteq> None \<and> hwaccel s = AES_HW_ARM_AES then crypto_aes_key_free_arm key s
      else case key of None \<Rightarrow> Some s | Some k \<Rightarrow> free_key (case k of KEY_OPENSSL _ \<Rightarrow> True | _ \<Rightarrow> False) s)"


section \<open>Clients\<close>

text \<open>A client makes keys, encrypts with those it has and frees them, in any order.\<close>

datatype aes_call =
  Aes_expand "crypto_aes_key_hw option" bytes nat
| Aes_encrypt nat bytes
| Aes_free nat
| Aes_intrinsics

definition drop_nth :: "nat \<Rightarrow> 'a list \<Rightarrow> 'a list" where
  "drop_nth i xs = take i xs @ drop (Suc i) xs"

fun aes_client ::
  "'k aes_machine \<Rightarrow> aes_call list \<Rightarrow> aes_state \<Rightarrow> 'k crypto_aes_key list \<Rightarrow> (aes_state \<times> 'k crypto_aes_key list \<times> bytes list) option" where
  "aes_client M [] s ks = Some (s, ks, [])"
| "aes_client M (Aes_expand new key len # cs) s ks = do {
     (s, k) \<leftarrow> crypto_aes_key_expand M new key len s;
     aes_client M cs s (case k of None \<Rightarrow> ks | Some k \<Rightarrow> ks @ [k])
   }"
| "aes_client M (Aes_encrypt i p # cs) s ks = do {
     c \<leftarrow> crypto_aes_encrypt_block M p (ks ! i) s;
     (s, ks, outs) \<leftarrow> aes_client M cs s ks;
     Some (s, ks, c # outs)
   }"
| "aes_client M (Aes_free i # cs) s ks = do {
     s \<leftarrow> crypto_aes_key_free M (if i < length ks then Some (ks ! i) else None) s;
     aes_client M cs s (drop_nth i ks)
   }"
| "aes_client M (Aes_intrinsics # cs) s ks = do {
     (hw, _) \<leftarrow> crypto_aes_can_use_intrinsics M (hwaccel s);
     aes_client M cs (s\<lparr>hwaccel := hw\<rparr>) ks
   }"

text \<open>What they should get, with the keys themselves in the place of expanded ones.\<close>

fun aes_spec :: "aes_call list \<Rightarrow> bytes list \<Rightarrow> bytes list \<times> bytes list" where
  "aes_spec [] ks = (ks, [])"
| "aes_spec (Aes_expand new key len # cs) ks = aes_spec cs (if new = None then ks else ks @ [take len key])"
| "aes_spec (Aes_encrypt i p # cs) ks = (let (ks', outs) = aes_spec cs ks in (ks', aes_block (ks ! i) (take 16 p) # outs))"
| "aes_spec (Aes_free i # cs) ks = aes_spec cs (drop_nth i ks)"
| "aes_spec (Aes_intrinsics # cs) ks = aes_spec cs ks"

text \<open>The arguments are what the interface asks for.\<close>

fun aes_calls_ok :: "aes_call list \<Rightarrow> nat \<Rightarrow> bool" where
  "aes_calls_ok [] n = True"
| "aes_calls_ok (Aes_expand new key len # cs) n \<longleftrightarrow>
     (len = 16 \<or> len = 32) \<and> len \<le> length key \<and> (case new of None \<Rightarrow> True | Some m \<Rightarrow> length (hw_rkeys m) = 15) \<and>
     aes_calls_ok cs (if new = None then n else n + 1)"
| "aes_calls_ok (Aes_encrypt i p # cs) n \<longleftrightarrow> i < n \<and> 16 \<le> length p \<and> aes_calls_ok cs n"
| "aes_calls_ok (Aes_free i # cs) n \<longleftrightarrow> aes_calls_ok cs (if i < n then n - 1 else n)"
| "aes_calls_ok (Aes_intrinsics # cs) n \<longleftrightarrow> aes_calls_ok cs n"

definition openssl_aes_ok :: "'k openssl_aes \<Rightarrow> bool" where
  "openssl_aes_ok S \<longleftrightarrow> (\<forall>key len. len \<in> {16, 32} \<and> len \<le> length key \<longrightarrow>
     (\<exists>k. AES_set_encrypt_key S key (len * 8) = Some k \<and>
        (\<forall>p. 16 \<le> length p \<longrightarrow> AES_encrypt S p k = aes_block (take len key) (take 16 p))))"

definition aes_machine_ok :: "'k aes_machine \<Rightarrow> bool" where
  "aes_machine_ok M \<longleftrightarrow>
     (case built_x86 M of None \<Rightarrow> True | Some I \<Rightarrow> cpusupport_x86_aesni M \<longrightarrow> x86_aes_ok I) \<and>
     (case built_arm M of None \<Rightarrow> True | Some I \<Rightarrow> cpusupport_arm_aes M \<longrightarrow> arm_aes_ok I) \<and>
     openssl_aes_ok (openssl M)"


section \<open>The test vectors\<close>

lemma sbox_nth:
  shows
    "sbox ! 0 = 0x63"
    "sbox ! Suc 0 = 0x7c"
    "sbox ! 2 = 0x77"
    "sbox ! 3 = 0x7b"
    "sbox ! 4 = 0xf2"
    "sbox ! 5 = 0x6b"
    "sbox ! 6 = 0x6f"
    "sbox ! 7 = 0xc5"
    "sbox ! 8 = 0x30"
    "sbox ! 9 = 0x01"
    "sbox ! 10 = 0x67"
    "sbox ! 11 = 0x2b"
    "sbox ! 12 = 0xfe"
    "sbox ! 13 = 0xd7"
    "sbox ! 14 = 0xab"
    "sbox ! 15 = 0x76"
    "sbox ! 16 = 0xca"
    "sbox ! 17 = 0x82"
    "sbox ! 18 = 0xc9"
    "sbox ! 19 = 0x7d"
    "sbox ! 20 = 0xfa"
    "sbox ! 21 = 0x59"
    "sbox ! 22 = 0x47"
    "sbox ! 23 = 0xf0"
    "sbox ! 24 = 0xad"
    "sbox ! 25 = 0xd4"
    "sbox ! 26 = 0xa2"
    "sbox ! 27 = 0xaf"
    "sbox ! 28 = 0x9c"
    "sbox ! 29 = 0xa4"
    "sbox ! 30 = 0x72"
    "sbox ! 31 = 0xc0"
    "sbox ! 32 = 0xb7"
    "sbox ! 33 = 0xfd"
    "sbox ! 34 = 0x93"
    "sbox ! 35 = 0x26"
    "sbox ! 36 = 0x36"
    "sbox ! 37 = 0x3f"
    "sbox ! 38 = 0xf7"
    "sbox ! 39 = 0xcc"
    "sbox ! 40 = 0x34"
    "sbox ! 41 = 0xa5"
    "sbox ! 42 = 0xe5"
    "sbox ! 43 = 0xf1"
    "sbox ! 44 = 0x71"
    "sbox ! 45 = 0xd8"
    "sbox ! 46 = 0x31"
    "sbox ! 47 = 0x15"
    "sbox ! 48 = 0x04"
    "sbox ! 49 = 0xc7"
    "sbox ! 50 = 0x23"
    "sbox ! 51 = 0xc3"
    "sbox ! 52 = 0x18"
    "sbox ! 53 = 0x96"
    "sbox ! 54 = 0x05"
    "sbox ! 55 = 0x9a"
    "sbox ! 56 = 0x07"
    "sbox ! 57 = 0x12"
    "sbox ! 58 = 0x80"
    "sbox ! 59 = 0xe2"
    "sbox ! 60 = 0xeb"
    "sbox ! 61 = 0x27"
    "sbox ! 62 = 0xb2"
    "sbox ! 63 = 0x75"
    "sbox ! 64 = 0x09"
    "sbox ! 65 = 0x83"
    "sbox ! 66 = 0x2c"
    "sbox ! 67 = 0x1a"
    "sbox ! 68 = 0x1b"
    "sbox ! 69 = 0x6e"
    "sbox ! 70 = 0x5a"
    "sbox ! 71 = 0xa0"
    "sbox ! 72 = 0x52"
    "sbox ! 73 = 0x3b"
    "sbox ! 74 = 0xd6"
    "sbox ! 75 = 0xb3"
    "sbox ! 76 = 0x29"
    "sbox ! 77 = 0xe3"
    "sbox ! 78 = 0x2f"
    "sbox ! 79 = 0x84"
    "sbox ! 80 = 0x53"
    "sbox ! 81 = 0xd1"
    "sbox ! 82 = 0x00"
    "sbox ! 83 = 0xed"
    "sbox ! 84 = 0x20"
    "sbox ! 85 = 0xfc"
    "sbox ! 86 = 0xb1"
    "sbox ! 87 = 0x5b"
    "sbox ! 88 = 0x6a"
    "sbox ! 89 = 0xcb"
    "sbox ! 90 = 0xbe"
    "sbox ! 91 = 0x39"
    "sbox ! 92 = 0x4a"
    "sbox ! 93 = 0x4c"
    "sbox ! 94 = 0x58"
    "sbox ! 95 = 0xcf"
    "sbox ! 96 = 0xd0"
    "sbox ! 97 = 0xef"
    "sbox ! 98 = 0xaa"
    "sbox ! 99 = 0xfb"
    "sbox ! 100 = 0x43"
    "sbox ! 101 = 0x4d"
    "sbox ! 102 = 0x33"
    "sbox ! 103 = 0x85"
    "sbox ! 104 = 0x45"
    "sbox ! 105 = 0xf9"
    "sbox ! 106 = 0x02"
    "sbox ! 107 = 0x7f"
    "sbox ! 108 = 0x50"
    "sbox ! 109 = 0x3c"
    "sbox ! 110 = 0x9f"
    "sbox ! 111 = 0xa8"
    "sbox ! 112 = 0x51"
    "sbox ! 113 = 0xa3"
    "sbox ! 114 = 0x40"
    "sbox ! 115 = 0x8f"
    "sbox ! 116 = 0x92"
    "sbox ! 117 = 0x9d"
    "sbox ! 118 = 0x38"
    "sbox ! 119 = 0xf5"
    "sbox ! 120 = 0xbc"
    "sbox ! 121 = 0xb6"
    "sbox ! 122 = 0xda"
    "sbox ! 123 = 0x21"
    "sbox ! 124 = 0x10"
    "sbox ! 125 = 0xff"
    "sbox ! 126 = 0xf3"
    "sbox ! 127 = 0xd2"
    "sbox ! 128 = 0xcd"
    "sbox ! 129 = 0x0c"
    "sbox ! 130 = 0x13"
    "sbox ! 131 = 0xec"
    "sbox ! 132 = 0x5f"
    "sbox ! 133 = 0x97"
    "sbox ! 134 = 0x44"
    "sbox ! 135 = 0x17"
    "sbox ! 136 = 0xc4"
    "sbox ! 137 = 0xa7"
    "sbox ! 138 = 0x7e"
    "sbox ! 139 = 0x3d"
    "sbox ! 140 = 0x64"
    "sbox ! 141 = 0x5d"
    "sbox ! 142 = 0x19"
    "sbox ! 143 = 0x73"
    "sbox ! 144 = 0x60"
    "sbox ! 145 = 0x81"
    "sbox ! 146 = 0x4f"
    "sbox ! 147 = 0xdc"
    "sbox ! 148 = 0x22"
    "sbox ! 149 = 0x2a"
    "sbox ! 150 = 0x90"
    "sbox ! 151 = 0x88"
    "sbox ! 152 = 0x46"
    "sbox ! 153 = 0xee"
    "sbox ! 154 = 0xb8"
    "sbox ! 155 = 0x14"
    "sbox ! 156 = 0xde"
    "sbox ! 157 = 0x5e"
    "sbox ! 158 = 0x0b"
    "sbox ! 159 = 0xdb"
    "sbox ! 160 = 0xe0"
    "sbox ! 161 = 0x32"
    "sbox ! 162 = 0x3a"
    "sbox ! 163 = 0x0a"
    "sbox ! 164 = 0x49"
    "sbox ! 165 = 0x06"
    "sbox ! 166 = 0x24"
    "sbox ! 167 = 0x5c"
    "sbox ! 168 = 0xc2"
    "sbox ! 169 = 0xd3"
    "sbox ! 170 = 0xac"
    "sbox ! 171 = 0x62"
    "sbox ! 172 = 0x91"
    "sbox ! 173 = 0x95"
    "sbox ! 174 = 0xe4"
    "sbox ! 175 = 0x79"
    "sbox ! 176 = 0xe7"
    "sbox ! 177 = 0xc8"
    "sbox ! 178 = 0x37"
    "sbox ! 179 = 0x6d"
    "sbox ! 180 = 0x8d"
    "sbox ! 181 = 0xd5"
    "sbox ! 182 = 0x4e"
    "sbox ! 183 = 0xa9"
    "sbox ! 184 = 0x6c"
    "sbox ! 185 = 0x56"
    "sbox ! 186 = 0xf4"
    "sbox ! 187 = 0xea"
    "sbox ! 188 = 0x65"
    "sbox ! 189 = 0x7a"
    "sbox ! 190 = 0xae"
    "sbox ! 191 = 0x08"
    "sbox ! 192 = 0xba"
    "sbox ! 193 = 0x78"
    "sbox ! 194 = 0x25"
    "sbox ! 195 = 0x2e"
    "sbox ! 196 = 0x1c"
    "sbox ! 197 = 0xa6"
    "sbox ! 198 = 0xb4"
    "sbox ! 199 = 0xc6"
    "sbox ! 200 = 0xe8"
    "sbox ! 201 = 0xdd"
    "sbox ! 202 = 0x74"
    "sbox ! 203 = 0x1f"
    "sbox ! 204 = 0x4b"
    "sbox ! 205 = 0xbd"
    "sbox ! 206 = 0x8b"
    "sbox ! 207 = 0x8a"
    "sbox ! 208 = 0x70"
    "sbox ! 209 = 0x3e"
    "sbox ! 210 = 0xb5"
    "sbox ! 211 = 0x66"
    "sbox ! 212 = 0x48"
    "sbox ! 213 = 0x03"
    "sbox ! 214 = 0xf6"
    "sbox ! 215 = 0x0e"
    "sbox ! 216 = 0x61"
    "sbox ! 217 = 0x35"
    "sbox ! 218 = 0x57"
    "sbox ! 219 = 0xb9"
    "sbox ! 220 = 0x86"
    "sbox ! 221 = 0xc1"
    "sbox ! 222 = 0x1d"
    "sbox ! 223 = 0x9e"
    "sbox ! 224 = 0xe1"
    "sbox ! 225 = 0xf8"
    "sbox ! 226 = 0x98"
    "sbox ! 227 = 0x11"
    "sbox ! 228 = 0x69"
    "sbox ! 229 = 0xd9"
    "sbox ! 230 = 0x8e"
    "sbox ! 231 = 0x94"
    "sbox ! 232 = 0x9b"
    "sbox ! 233 = 0x1e"
    "sbox ! 234 = 0x87"
    "sbox ! 235 = 0xe9"
    "sbox ! 236 = 0xce"
    "sbox ! 237 = 0x55"
    "sbox ! 238 = 0x28"
    "sbox ! 239 = 0xdf"
    "sbox ! 240 = 0x8c"
    "sbox ! 241 = 0xa1"
    "sbox ! 242 = 0x89"
    "sbox ! 243 = 0x0d"
    "sbox ! 244 = 0xbf"
    "sbox ! 245 = 0xe6"
    "sbox ! 246 = 0x42"
    "sbox ! 247 = 0x68"
    "sbox ! 248 = 0x41"
    "sbox ! 249 = 0x99"
    "sbox ! 250 = 0x2d"
    "sbox ! 251 = 0x0f"
    "sbox ! 252 = 0xb0"
    "sbox ! 253 = 0x54"
    "sbox ! 254 = 0xbb"
    "sbox ! 255 = 0x16"
  by (simp_all add: sbox_def)

lemmas aes_eval = sbox_nth SubBytes_def xor_bytes_def xtime_def ShiftRows_def RotWord_def upt_16
  next4_def rot_word_def lane_def Let_def

text \<open>Round keys and rounds together, in a form that rewriting evaluates fast.\<close>

definition aes_put :: "bytes \<Rightarrow> bytes \<Rightarrow> bytes \<times> bytes" where
  "aes_put k s = (k, aes_round s k)"

fun aes_step_128 :: "bytes \<times> bytes \<Rightarrow> u8 \<Rightarrow> bytes \<times> bytes" where
  "aes_step_128 (k, s) c = aes_put (next4 k (rot_word k c)) s"

fun aes_step_256 :: "bytes \<times> bytes \<times> bytes \<Rightarrow> bool \<times> u8 \<Rightarrow> bytes \<times> bytes \<times> bytes" where
  "aes_step_256 (j, k, s) (even_r, c) = (k, next4 j (if even_r then rot_word k c else SubBytes (lane k 3)), aes_round s k)"

definition aes_last :: "bytes \<Rightarrow> bytes \<Rightarrow> bytes" where
  "aes_last s k = xor_bytes (ShiftRows (SubBytes s)) k"

fun aes_last_128 :: "bytes \<times> bytes \<Rightarrow> bytes" where
  "aes_last_128 (k, s) = aes_last s (next4 k (rot_word k 0x36))"

fun aes_last_256 :: "bytes \<times> bytes \<times> bytes \<Rightarrow> bytes" where
  "aes_last_256 (j, k, s) = aes_last s k"

definition schedule_rounds :: "nat \<Rightarrow> bytes \<Rightarrow> bytes \<Rightarrow> nat \<Rightarrow> bytes" where
  "schedule_rounds nk key s n = foldl (\<lambda>s r. aes_round s (schedule nk key r)) (xor_bytes s (schedule nk key 0)) [1..<n]"

lemma schedule_rounds_Suc: "0 < n \<Longrightarrow> schedule_rounds nk key s (Suc n) = aes_round (schedule_rounds nk key s n) (schedule nk key n)"
  by (simp add: schedule_rounds_def)

lemma aes_block_rounds_of:
  assumes "4 dvd length key"
  shows "aes_block key s = (let nk = length key div 4 in aes_last (schedule_rounds nk key s (nk + 6)) (schedule nk key (nk + 6)))"
proof -
  let ?nk = "length key div 4"
  let ?ws = "key_words ?nk key (4 * (?nk + 6 + 1))"
  have rk: "round_key ?ws r = schedule ?nk key r" if "r \<le> ?nk + 6" for r
    using that by (intro round_key_schedule) simp
  have "foldl (\<lambda>s r. aes_round s (round_key ?ws r)) t [1..<?nk + 6] = foldl (\<lambda>s r. aes_round s (schedule ?nk key r)) t [1..<?nk + 6]" for t
    by (rule foldl_cong) (use rk in auto)
  then show ?thesis using rk [of 0] rk [of "?nk + 6"]
    by (simp add: aes_block_def Let_def aes_cipher_def aes_last_def schedule_rounds_def)
qed

lemma steps_128:
  assumes "length key = 16"
  shows "foldl aes_step_128 (schedule 4 key 0, xor_bytes s (schedule 4 key 0)) (map Rcon [1..<Suc n]) = (schedule 4 key n, schedule_rounds 4 key s (Suc n))"
proof (induction n)
  case (Suc n)
  then show ?case using schedule_128 [OF assms, of "Suc n"] schedule_rounds_Suc [of "Suc n" 4 key s]
    by (simp add: aes_put_def)
qed (simp add: schedule_rounds_def)

lemma steps_256:
  assumes "length key = 32"
  shows "foldl aes_step_256 (schedule 8 key 0, schedule 8 key 1, xor_bytes s (schedule 8 key 0))
      (map (\<lambda>r. (even r, if even r then Rcon (r div 2) else 0)) [2..<Suc (Suc n)]) =
    (schedule 8 key n, schedule 8 key (Suc n), schedule_rounds 8 key s (Suc n))"
proof (induction n)
  case (Suc n)
  then show ?case using schedule_256 [OF assms, of "Suc (Suc n)"] schedule_rounds_Suc [of "Suc n" 8 key s]
    by simp
qed (simp add: schedule_rounds_def numeral_2_eq_2)

lemma aes_block_128:
  assumes "length key = 16"
  shows "aes_block key s =
    aes_last_128 (foldl aes_step_128 (key, xor_bytes s key) [0x01, 0x02, 0x04, 0x08, 0x10, 0x20, 0x40, 0x80, 0x1b])"
proof -
  have k: "schedule 4 key 0 = key" using schedule_key [of key 4 0] assms by simp
  have "map Rcon [1..<Suc 9] = [0x01, 0x02, 0x04, 0x08, 0x10, 0x20, 0x40, 0x80, 0x1b]" "Rcon 10 = 0x36" by code_simp+
  from steps_128 [OF assms, of s 9, unfolded this k] this(2) assms show ?thesis
    using aes_block_rounds_of [of key s] schedule_128 [OF assms, of 10] by simp
qed

lemma aes_block_256:
  assumes "length key = 32"
  shows "aes_block key s =
    aes_last_256 (foldl aes_step_256 (take 16 key, take 16 (drop 16 key), xor_bytes s (take 16 key))
       [(True, 0x01), (False, 0x00), (True, 0x02), (False, 0x00), (True, 0x04), (False, 0x00),
        (True, 0x08), (False, 0x00), (True, 0x10), (False, 0x00), (True, 0x20), (False, 0x00), (True, 0x40)])"
proof -
  have k: "schedule 8 key 0 = take 16 key" "schedule 8 key 1 = take 16 (drop 16 key)"
    using schedule_key [of key 8 0] schedule_key [of key 8 1] assms by simp_all
  have "map (\<lambda>r. (even r, if even r then Rcon (r div 2) else 0)) [2..<Suc (Suc 13)] = [(True, 0x01), (False, 0x00), (True, 0x02), (False, 0x00), (True, 0x04), (False, 0x00),
    (True, 0x08), (False, 0x00), (True, 0x10), (False, 0x00), (True, 0x20), (False, 0x00), (True, 0x40)]" by code_simp
  moreover have "Suc 13 = (14 :: nat)" by simp
  ultimately have st: "foldl aes_step_256 (take 16 key, take 16 (drop 16 key), xor_bytes s (take 16 key))
       [(True, 0x01), (False, 0x00), (True, 0x02), (False, 0x00), (True, 0x04), (False, 0x00),
        (True, 0x08), (False, 0x00), (True, 0x10), (False, 0x00), (True, 0x20), (False, 0x00), (True, 0x40)] =
      (schedule 8 key 13, schedule 8 key 14, schedule_rounds 8 key s 14)"
    using steps_256 [OF assms, of s 13] k by (simp only:)
  show ?thesis unfolding st using aes_block_rounds_of [of key s] assms by simp
qed

lemma testcase_128: "aes_block [0x00, 0x01, 0x02, 0x03, 0x04, 0x05, 0x06, 0x07, 0x08, 0x09, 0x0a, 0x0b, 0x0c, 0x0d, 0x0e, 0x0f] [0x00, 0x11, 0x22, 0x33, 0x44, 0x55, 0x66, 0x77, 0x88, 0x99, 0xaa, 0xbb, 0xcc, 0xdd, 0xee, 0xff] = [0x69, 0xc4, 0xe0, 0xd8, 0x6a, 0x7b, 0x04, 0x30, 0xd8, 0xcd, 0xb7, 0x80, 0x70, 0xb4, 0xc5, 0x5a]"
  by (subst aes_block_128) (simp_all add: aes_put_def aes_last_def aes_eval aes_round_def)

lemma testcase_256: "aes_block [0x00, 0x01, 0x02, 0x03, 0x04, 0x05, 0x06, 0x07, 0x08, 0x09, 0x0a, 0x0b, 0x0c, 0x0d, 0x0e, 0x0f, 0x10, 0x11, 0x12, 0x13, 0x14, 0x15, 0x16, 0x17, 0x18, 0x19, 0x1a, 0x1b, 0x1c, 0x1d, 0x1e, 0x1f] [0x00, 0x11, 0x22, 0x33, 0x44, 0x55, 0x66, 0x77, 0x88, 0x99, 0xaa, 0xbb, 0xcc, 0xdd, 0xee, 0xff] = [0x8e, 0xa2, 0xb7, 0xca, 0x51, 0x67, 0x45, 0xbf, 0xea, 0xfc, 0x49, 0x90, 0x4b, 0x49, 0x60, 0x89]"
  by (subst aes_block_256) (simp_all add: aes_last_def aes_eval aes_round_def)


section \<open>The choice of an implementation\<close>

lemma functest_okp: "\<exists>r. functest func = Some r"
  by (simp add: functest_def testcases_def split: option.split)

lemma functest_openssl:
  assumes "openssl_aes_ok S"
  shows "functest (\<lambda>i. openssl_oneshot S) = Some 0"
proof -
  have one: "openssl_oneshot S key len p = Some (aes_block (take len key) p)" if "len \<in> {16, 32}" "len \<le> length key" "length p = 16" for key len p
    using assms that by (fastforce simp: openssl_aes_ok_def openssl_oneshot_def)
  show ?thesis
    by (simp add: functest_def testcases_def one testcase_128 testcase_256)
qed

text \<open>What has been chosen fits the machine.\<close>

definition hwaccel_ok :: "'k aes_machine \<Rightarrow> aes_hwaccel \<Rightarrow> bool" where
  "hwaccel_ok M hw \<longleftrightarrow>
     (hw = AES_HW_X86_AESNI \<longrightarrow> (\<exists>I. built_x86 M = Some I \<and> x86_aes_ok I)) \<and>
     (hw = AES_HW_ARM_AES \<longrightarrow> (\<exists>I. built_arm M = Some I \<and> arm_aes_ok I))"

lemma aes_hwaccel_init_ok:
  assumes M: "aes_machine_ok M" and hw: "hwaccel_ok M hw"
  shows "okp (aes_hwaccel_init M hw) (\<lambda>hw'. hwaccel_ok M hw' \<and> hw' \<noteq> AES_HW_UNSET \<and> (hw \<noteq> AES_HW_UNSET \<longrightarrow> hw' = hw))"
proof (cases "hw = AES_HW_UNSET")
  case True
  let ?r1 = "case built_x86 M of None \<Rightarrow> Some (-1)
    | Some I \<Rightarrow> if cpusupport_x86_aesni M then functest (\<lambda>i. x86_aesni_oneshot I (malloc_x86 M i)) else Some (-1)"
  let ?r2 = "case built_arm M of None \<Rightarrow> Some (-1)
    | Some I \<Rightarrow> if cpusupport_arm_aes M then functest (\<lambda>i. arm_aes_oneshot I (malloc_arm M i)) else Some (-1)"
  obtain r1 where r1: "?r1 = Some r1" using functest_okp by (fastforce split: option.split)
  obtain r2 where r2: "?r2 = Some r2" using functest_okp by (fastforce split: option.split)
  have 1: "r1 = 0 \<Longrightarrow> hwaccel_ok M AES_HW_X86_AESNI" and 2: "r2 = 0 \<Longrightarrow> hwaccel_ok M AES_HW_ARM_AES"
    using r1 r2 M by (auto simp: hwaccel_ok_def aes_machine_ok_def split: option.splits if_splits)
  have 3: "functest (\<lambda>i. openssl_oneshot (openssl M)) = Some 0"
    using M by (simp add: aes_machine_ok_def functest_openssl)
  show ?thesis using True 1 2
    by (simp add: aes_hwaccel_init_def r1 r2 3) (simp add: hwaccel_ok_def)
next
  case False
  then show ?thesis using hw by (simp add: aes_hwaccel_init_def)
qed

lemma chosen_ok:
  assumes M: "aes_machine_ok M" and hw: "hwaccel_ok M hw"
  shows "okp (if HWACCEL M then aes_hwaccel_init M hw else Some hw)
    (\<lambda>hw'. hwaccel_ok M hw' \<and> (hw \<noteq> AES_HW_UNSET \<longrightarrow> hw' = hw) \<and> (HWACCEL M \<longrightarrow> hw' \<noteq> AES_HW_UNSET))"
  using aes_hwaccel_init_ok [OF M hw] hw by (cases "HWACCEL M") (auto intro: okp_mono)

text \<open>A key that was returned: which structure it is, and that it encrypts as the key it was made from.\<close>

definition aes_key_ok :: "'k aes_machine \<Rightarrow> aes_hwaccel \<Rightarrow> 'k crypto_aes_key \<Rightarrow> bytes \<Rightarrow> bool" where
  "aes_key_ok M hw k key =
     (case k of
        KEY_AESNI k \<Rightarrow> hw = AES_HW_X86_AESNI \<and> hw_key_for key k
      | KEY_ARM k \<Rightarrow> hw = AES_HW_ARM_AES \<and> hw_key_for key k
      | KEY_OPENSSL k \<Rightarrow> hw \<noteq> AES_HW_X86_AESNI \<and> hw \<noteq> AES_HW_ARM_AES \<and>
          (\<forall>p. 16 \<le> length p \<longrightarrow> AES_encrypt (openssl M) p k = aes_block key (take 16 p)))"

definition aes_inv :: "'k aes_machine \<Rightarrow> aes_state \<Rightarrow> 'k crypto_aes_key list \<Rightarrow> bytes list \<Rightarrow> bool" where
  "aes_inv M s ks keys \<longleftrightarrow>
     hwaccel_ok M (hwaccel s) \<and> list_all2 (aes_key_ok M (hwaccel s)) ks keys \<and> live s = length ks \<and>
     (HWACCEL M \<and> hwaccel s = AES_HW_UNSET \<longrightarrow> ks = [])"

lemma crypto_aes_key_expand_ok:
  assumes M: "aes_machine_ok M" and s: "aes_inv M s ks keys"
    and len: "len = 16 \<or> len = 32" "len \<le> length key" and new: "case new of None \<Rightarrow> True | Some m \<Rightarrow> length (hw_rkeys m) = 15"
  shows "okp (crypto_aes_key_expand M new key len s) (\<lambda>(s', k).
    (k = None \<longleftrightarrow> new = None) \<and>
    aes_inv M s' (case k of None \<Rightarrow> ks | Some k \<Rightarrow> ks @ [k]) (if new = None then keys else keys @ [take len key]))"
proof -
  obtain hw where hw: "(if HWACCEL M then aes_hwaccel_init M (hwaccel s) else Some (hwaccel s)) = Some hw"
    and ok: "hwaccel_ok M hw" "hwaccel s \<noteq> AES_HW_UNSET \<longrightarrow> hw = hwaccel s" "HWACCEL M \<longrightarrow> hw \<noteq> AES_HW_UNSET"
    using s by (auto simp: aes_inv_def intro: okpE [OF chosen_ok [OF M, of "hwaccel s"]])
  have ks: "list_all2 (aes_key_ok M hw) ks keys"
    using s ok(2,3) hw by (cases "HWACCEL M"; cases "hwaccel s = AES_HW_UNSET") (auto simp: aes_inv_def)
  have inv: "aes_inv M (s\<lparr>hwaccel := hw\<rparr>) ks keys" using s ks ok by (auto simp: aes_inv_def)
  have add: "aes_inv M (s\<lparr>hwaccel := hw, live := Suc (live s)\<rparr>) (ks @ [k]) (keys @ [take len key])" if "aes_key_ok M hw k (take len key)" for k
    using s ks ok that by (auto simp: aes_inv_def list_all2_appendI)
  show ?thesis
  proof (cases new)
    case None
    then show ?thesis using len inv
      by (auto simp: crypto_aes_key_expand_def hw Let_def crypto_aes_key_expand_aesni_def crypto_aes_key_expand_arm_def returned_key_def)
  next
    case (Some m)
    then have m: "length (hw_rkeys m) = 15" "len \<in> {16, 32}" using new len by auto
    consider (x86) I where "hw = AES_HW_X86_AESNI" "built_x86 M = Some I" "x86_aes_ok I"
      | (arm) I where "hw = AES_HW_ARM_AES" "built_arm M = Some I" "arm_aes_ok I"
      | (soft) "hw \<noteq> AES_HW_X86_AESNI" "hw \<noteq> AES_HW_ARM_AES"
      using ok(1) by (auto simp: hwaccel_ok_def)
    then show ?thesis
    proof cases
      case x86
      with key_expand_aesni [OF x86(3) m(2) len(2) m(1)] obtain k where
        "crypto_aes_key_expand_aesni I new key len = Some k" "hw_key_for (take len key) k" using Some by auto
      then show ?thesis using x86 len add [of "KEY_AESNI k"] Some
        by (auto simp: crypto_aes_key_expand_def hw returned_key_def aes_key_ok_def)
    next
      case arm
      with key_expand_arm [OF arm(3) m(2) len(2) m(1)] obtain k where
        "crypto_aes_key_expand_arm I new key len = Some k" "hw_key_for (take len key) k" using Some by auto
      then show ?thesis using arm len add [of "KEY_ARM k"] Some
        by (auto simp: crypto_aes_key_expand_def hw returned_key_def aes_key_ok_def)
    next
      case soft
      have "openssl_aes_ok (openssl M)" using M by (simp add: aes_machine_ok_def)
      then obtain k where "AES_set_encrypt_key (openssl M) key (len * 8) = Some k"
        "\<forall>p. 16 \<le> length p \<longrightarrow> AES_encrypt (openssl M) p k = aes_block (take len key) (take 16 p)"
        using m(2) len(2) unfolding openssl_aes_ok_def by blast
      then show ?thesis using soft len add [of "KEY_OPENSSL k"] Some
        by (auto simp: crypto_aes_key_expand_def hw returned_key_def aes_key_ok_def)
    qed
  qed
qed

lemma encrypt_take:
  "crypto_aes_encrypt_block_aesni I p k = crypto_aes_encrypt_block_aesni I (take 16 p) k"
  "crypto_aes_encrypt_block_arm J p k = crypto_aes_encrypt_block_arm J (take 16 p) k"
  by (simp_all add: crypto_aes_encrypt_block_aesni_def crypto_aes_encrypt_block_arm_def)

lemma crypto_aes_encrypt_block_ok:
  assumes s: "aes_inv M s ks keys" and i: "i < length keys" and p: "16 \<le> length p"
  shows "crypto_aes_encrypt_block M p (ks ! i) s = Some (aes_block (keys ! i) (take 16 p))"
proof -
  have k: "aes_key_ok M (hwaccel s) (ks ! i) (keys ! i)" and hw: "hwaccel_ok M (hwaccel s)"
    using s i by (auto simp: aes_inv_def list_all2_conv_all_nth)
  have t: "length (take 16 p) = 16" using p by simp
  show ?thesis
  proof (cases "ks ! i")
    case (KEY_AESNI h)
    with k hw obtain I where "hwaccel s = AES_HW_X86_AESNI" "built_x86 M = Some I" "x86_aes_ok I" "hw_key_for (keys ! i) h"
      by (auto simp: aes_key_ok_def hwaccel_ok_def)
    then show ?thesis using KEY_AESNI encrypt_aesni [of I "keys ! i" h "take 16 p"] t encrypt_take(1) [of I p h]
      by (simp add: crypto_aes_encrypt_block_def)
  next
    case (KEY_ARM h)
    with k hw obtain I where "hwaccel s = AES_HW_ARM_AES" "built_arm M = Some I" "arm_aes_ok I" "hw_key_for (keys ! i) h"
      by (auto simp: aes_key_ok_def hwaccel_ok_def)
    then show ?thesis using KEY_ARM encrypt_arm [of I "keys ! i" h "take 16 p"] t encrypt_take(2) [of I p h]
      by (simp add: crypto_aes_encrypt_block_def)
  next
    case (KEY_OPENSSL h)
    with k p show ?thesis by (simp add: aes_key_ok_def crypto_aes_encrypt_block_def)
  qed
qed

lemma list_all2_drop_nth: "list_all2 P xs ys \<Longrightarrow> list_all2 P (drop_nth i xs) (drop_nth i ys)"
  by (auto simp: drop_nth_def intro!: list_all2_appendI)

lemma length_drop_nth: "length (drop_nth i xs) = (if i < length xs then length xs - 1 else length xs)"
  by (auto simp: drop_nth_def)

lemma crypto_aes_key_free_ok:
  assumes s: "aes_inv M s ks keys"
  shows "okp (crypto_aes_key_free M (if i < length ks then Some (ks ! i) else None) s) (\<lambda>s'. aes_inv M s' (drop_nth i ks) (drop_nth i keys))"
proof (cases "i < length ks")
  case False
  then have "drop_nth i ks = ks" "drop_nth i keys = keys"
    using s by (auto simp: drop_nth_def aes_inv_def dest: list_all2_lengthD)
  then show ?thesis using False s
    by (simp add: crypto_aes_key_free_def crypto_aes_key_free_aesni_def crypto_aes_key_free_arm_def)
next
  case True
  then have k: "aes_key_ok M (hwaccel s) (ks ! i) (keys ! i)" and hw: "hwaccel_ok M (hwaccel s)" and live: "live s = length ks"
    using s by (auto simp: aes_inv_def list_all2_conv_all_nth)
  have "aes_inv M (s\<lparr>live := live s - 1\<rparr>) (drop_nth i ks) (drop_nth i keys)"
    using s True by (auto simp: aes_inv_def list_all2_drop_nth length_drop_nth)
  moreover have "crypto_aes_key_free M (Some (ks ! i)) s = Some (s\<lparr>live := live s - 1\<rparr>)"
    using k hw live True
    by (auto simp: crypto_aes_key_free_def crypto_aes_key_free_aesni_def crypto_aes_key_free_arm_def free_key_def
      aes_key_ok_def hwaccel_ok_def split: crypto_aes_key.splits)
  ultimately show ?thesis using True by simp
qed

lemma crypto_aes_can_use_intrinsics_ok:
  assumes M: "aes_machine_ok M" and s: "aes_inv M s ks keys"
  shows "okp (crypto_aes_can_use_intrinsics M (hwaccel s)) (\<lambda>(hw, r). aes_inv M (s\<lparr>hwaccel := hw\<rparr>) ks keys)"
proof -
  obtain hw where hw: "(if HWACCEL M then aes_hwaccel_init M (hwaccel s) else Some (hwaccel s)) = Some hw"
    and ok: "hwaccel_ok M hw" "hwaccel s \<noteq> AES_HW_UNSET \<longrightarrow> hw = hwaccel s" "HWACCEL M \<longrightarrow> hw \<noteq> AES_HW_UNSET"
    using s by (auto simp: aes_inv_def intro: okpE [OF chosen_ok [OF M, of "hwaccel s"]])
  have "aes_inv M (s\<lparr>hwaccel := hw\<rparr>) ks keys"
    using s ok hw by (cases "HWACCEL M"; cases "hwaccel s = AES_HW_UNSET") (auto simp: aes_inv_def)
  then show ?thesis using hw by (auto simp: crypto_aes_can_use_intrinsics_def split: if_splits)
qed

lemma aes_client_inv:
  assumes M: "aes_machine_ok M"
  shows "aes_inv M s ks keys \<Longrightarrow> aes_calls_ok cs (length ks) \<Longrightarrow>
    okp (aes_client M cs s ks) (\<lambda>(s', ks', outs). aes_inv M s' ks' (fst (aes_spec cs keys)) \<and> outs = snd (aes_spec cs keys))"
proof (induction cs arbitrary: s ks keys)
  case (Cons c cs)
  have len: "length keys = length ks" using Cons.prems(1) by (auto simp: aes_inv_def dest: list_all2_lengthD)
  show ?case
  proof (cases c)
    case (Aes_expand new key l)
    have "okp (crypto_aes_key_expand M new key l s) (\<lambda>(s', k). (k = None \<longleftrightarrow> new = None) \<and>
        aes_inv M s' (case k of None \<Rightarrow> ks | Some k \<Rightarrow> ks @ [k]) (if new = None then keys else keys @ [take l key]))"
      using Cons.prems Aes_expand by (intro crypto_aes_key_expand_ok [OF M]) auto
    from okp_pairE [OF this] obtain s' k where e: "crypto_aes_key_expand M new key l s = Some (s', k)" "k = None \<longleftrightarrow> new = None"
        "aes_inv M s' (case k of None \<Rightarrow> ks | Some k \<Rightarrow> ks @ [k]) (if new = None then keys else keys @ [take l key])"
      by blast
    then show ?thesis using Cons.IH [OF e(3)] Cons.prems(2) Aes_expand by (cases k) auto
  next
    case (Aes_encrypt i p)
    with Cons.prems len have "crypto_aes_encrypt_block M p (ks ! i) s = Some (aes_block (keys ! i) (take 16 p))"
      by (intro crypto_aes_encrypt_block_ok) auto
    moreover from Cons.IH [OF Cons.prems(1)] Cons.prems(2) Aes_encrypt obtain r where
      r: "aes_client M cs s ks = Some r"
        "case r of (s', ks', outs) \<Rightarrow> aes_inv M s' ks' (fst (aes_spec cs keys)) \<and> outs = snd (aes_spec cs keys)"
      by (auto elim: okpE)
    ultimately show ?thesis using Aes_encrypt by (cases r) (simp add: Let_def case_prod_beta)
  next
    case (Aes_free i)
    obtain s' where
      e: "crypto_aes_key_free M (if i < length ks then Some (ks ! i) else None) s = Some s'" "aes_inv M s' (drop_nth i ks) (drop_nth i keys)"
      using okpE [OF crypto_aes_key_free_ok [OF Cons.prems(1), of i]] by blast
    then show ?thesis using Cons.IH [OF e(2)] Cons.prems(2) Aes_free by (auto simp: length_drop_nth)
  next
    case Aes_intrinsics
    obtain hw r where
      e: "crypto_aes_can_use_intrinsics M (hwaccel s) = Some (hw, r)" "aes_inv M (s\<lparr>hwaccel := hw\<rparr>) ks keys"
      using okp_pairE [OF crypto_aes_can_use_intrinsics_ok [OF M Cons.prems(1)]] by blast
    then show ?thesis using Cons.IH [OF e(2)] Cons.prems(2) Aes_intrinsics by auto
  qed
qed simp

definition aes_state0 :: aes_state where
  "aes_state0 = \<lparr>hwaccel = AES_HW_UNSET, live = 0\<rparr>"

text \<open>
  C16. Whatever the processor, a client of \<open>crypto_aes.c\<close> gets AES as FIPS 197 defines it: with the
  instructions of x86, those of ARM or OpenSSL, for keys of 16 and 32 bytes, every call of
  \<open>crypto_aes_encrypt_block\<close> gives the block of the standard for the key it was given, in any
  order of making, using and freeing keys.  No call reads a key as the wrong structure or aborts,
  also when the choice of the implementation falls between two calls, and the structures that are
  allocated are those of the keys in use.
\<close>

theorem crypto_aes_is_fips197:
  assumes "aes_machine_ok M" and "aes_calls_ok cs 0"
  shows "okp (aes_client M cs aes_state0 [])
    (\<lambda>(s, ks, outs). outs = snd (aes_spec cs []) \<and> live s = length (fst (aes_spec cs [])))"
proof -
  have "aes_inv M aes_state0 [] []" by (simp add: aes_inv_def aes_state0_def hwaccel_ok_def)
  then have "okp (aes_client M cs aes_state0 []) (\<lambda>(s, ks, outs). aes_inv M s ks (fst (aes_spec cs [])) \<and> outs = snd (aes_spec cs []))"
    by (rule aes_client_inv [OF assms(1)]) (simp add: assms(2))
  then show ?thesis by (rule okp_mono) (auto simp: aes_inv_def dest: list_all2_lengthD)
qed

definition x86_ex :: x86_aes where
  "x86_ex = \<lparr>mm_aesenc_si128 = (\<lambda>s k. xor_bytes (MixColumns (SubBytes (ShiftRows s))) k),
     mm_aesenclast_si128 = (\<lambda>s k. xor_bytes (SubBytes (ShiftRows s)) k),
     mm_aeskeygenassist_si128 = (\<lambda>s rcon.
       SubBytes (lane s 1) @ xor_bytes (RotWord (SubBytes (lane s 1))) [rcon, 0, 0, 0] @
       SubBytes (lane s 3) @ xor_bytes (RotWord (SubBytes (lane s 3))) [rcon, 0, 0, 0])\<rparr>"

definition machine_ex :: "(nat \<Rightarrow> crypto_aes_key_hw option) \<Rightarrow> bytes aes_machine" where
  "machine_ex new = \<lparr>built_x86 = Some x86_ex, cpusupport_x86_aesni = True, built_arm = None, cpusupport_arm_aes = False,
     openssl = \<lparr>AES_set_encrypt_key = (\<lambda>key bits. Some (take (bits div 8) key)), AES_encrypt = (\<lambda>p k. aes_block k (take 16 p))\<rparr>,
     malloc_x86 = new, malloc_arm = (\<lambda>_. None)\<rparr>"

lemma machine_ex_ok: "aes_machine_ok (machine_ex new)"
  by (simp add: aes_machine_ok_def machine_ex_def x86_aes_ok_def x86_ex_def openssl_aes_ok_def)

definition calls_ex :: "aes_call list" where
  "calls_ex =
    [Aes_intrinsics,
     Aes_expand (Some \<lparr>hw_rkeys = replicate 15 [], hw_nr = 0\<rparr>)
       [0x00, 0x01, 0x02, 0x03, 0x04, 0x05, 0x06, 0x07, 0x08, 0x09, 0x0a, 0x0b, 0x0c, 0x0d, 0x0e, 0x0f] 16,
     Aes_expand None (replicate 16 0) 16,
     Aes_encrypt 0 [0x00, 0x11, 0x22, 0x33, 0x44, 0x55, 0x66, 0x77, 0x88, 0x99, 0xaa, 0xbb, 0xcc, 0xdd, 0xee, 0xff],
     Aes_free 0]"

theorem crypto_aes_is_fips197_witness:
  "okp (aes_client (machine_ex (\<lambda>_. Some \<lparr>hw_rkeys = replicate 15 [], hw_nr = 0\<rparr>)) calls_ex aes_state0 [])
     (\<lambda>(s, ks, outs). outs = [[0x69, 0xc4, 0xe0, 0xd8, 0x6a, 0x7b, 0x04, 0x30, 0xd8, 0xcd, 0xb7, 0x80, 0x70, 0xb4, 0xc5, 0x5a]] \<and> live s = 0)"
proof -
  have "aes_spec calls_ex [] = ([], [[0x69, 0xc4, 0xe0, 0xd8, 0x6a, 0x7b, 0x04, 0x30, 0xd8, 0xcd, 0xb7, 0x80, 0x70, 0xb4, 0xc5, 0x5a]])"
    by (simp add: calls_ex_def testcase_128 drop_nth_def)
  moreover have "aes_calls_ok calls_ex 0" by (simp add: calls_ex_def)
  ultimately show ?thesis
    using crypto_aes_is_fips197 [OF machine_ex_ok, of calls_ex] by simp
qed

end
