(* ===== verification/Crypto_Entropy.thy ===== *)
theory Crypto_Entropy
  imports Sha256
begin

text \<open>
  The random number generator of \<open>crypto/crypto_entropy.c\<close>, with its sources of entropy
  \<open>util/entropy.c\<close> and \<open>crypto/crypto_entropy_rdrand.c\<close>, and the comparison of
  \<open>crypto/crypto_verify_bytes.c\<close>.

  The operating system and the processor are a record of their answers: what the system call
  with a given number in the order of calls returns, the bytes of \<open>/dev/urandom\<close> and the
  results of the RDRAND instruction as streams.  The state of the process has the positions in
  these, and counts the cookies that are allocated and the descriptors that are open.
\<close>

section \<open>The operating system\<close>

datatype read_result = Read_EINTR | Read_error | Read_count nat

datatype close_result = Close_EINTR | Close_error | Close_ok

record os =
  os_malloc :: "nat \<Rightarrow> bool"
  os_open :: "nat \<Rightarrow> bool"
  os_read :: "nat \<Rightarrow> read_result"
  os_close :: "nat \<Rightarrow> close_result"
  os_atexit :: "nat \<Rightarrow> bool"
  os_urandom :: "nat \<Rightarrow> u8"
  os_cpu_rdrand :: bool
  os_rdrand :: "nat \<Rightarrow> u32 option"

record proc =
  p_time :: nat
  p_urpos :: nat
  p_rdpos :: nat
  p_cookies :: nat
  p_fds :: nat

definition tick :: "proc \<Rightarrow> proc" where
  "tick p = p\<lparr>p_time := Suc (p_time p)\<rparr>"


section \<open>Reading from the operating system\<close>

text \<open>The cookie exists exactly while \<open>p_cookies\<close> counts it; \<open>free\<close> of no cookie is a fault.\<close>

definition free_cookie :: "proc \<Rightarrow> proc option" where
  "free_cookie p = do { cassert (0 < p_cookies p); Some (p\<lparr>p_cookies := p_cookies p - 1\<rparr>) }"

text \<open>The flag says that a cookie was returned.\<close>

definition entropy_read_init :: "os \<Rightarrow> proc \<Rightarrow> (bool \<times> proc) option" where
  "entropy_read_init os p =
     (if os_malloc os (p_time p) then do {
        let p = tick (p\<lparr>p_cookies := Suc (p_cookies p)\<rparr>);
        if os_open os (p_time p) then Some (True, tick (p\<lparr>p_fds := Suc (p_fds p)\<rparr>))
        else do { p \<leftarrow> free_cookie (tick p); Some (False, p) }
      }
      else Some (False, tick p))"

text \<open>
  \<open>buf\<close> is what has been filled so far.  A \<open>read\<close> returns at most the number of bytes that it
  was asked for, and the bytes are the next of the device.
\<close>

partial_function (option) entropy_read_fill :: "os \<Rightarrow> proc \<Rightarrow> bytes \<Rightarrow> nat \<Rightarrow> (int \<times> bytes \<times> proc) option" where
  "entropy_read_fill os p buf buflen =
     (if buflen > 0 then
        (case os_read os (p_time p) of
           Read_EINTR \<Rightarrow> entropy_read_fill os (tick p) buf buflen
         | Read_error \<Rightarrow> Some (-1, buf, tick p)
         | Read_count k \<Rightarrow>
             (let lenread = min k buflen in
              if lenread = 0 then Some (-1, buf, tick p)
              else entropy_read_fill os (tick (p\<lparr>p_urpos := p_urpos p + lenread\<rparr>))
                     (buf @ map (os_urandom os) [p_urpos p..<p_urpos p + lenread]) (buflen - lenread)))
      else Some (0, buf, p))"

text \<open>After a \<open>close\<close> that fails with \<open>EINTR\<close> the descriptor is taken to be open still.\<close>

partial_function (option) entropy_read_done :: "os \<Rightarrow> proc \<Rightarrow> (int \<times> proc) option" where
  "entropy_read_done os p =
     (case os_close os (p_time p) of
        Close_EINTR \<Rightarrow> entropy_read_done os (tick p)
      | Close_error \<Rightarrow> do { p \<leftarrow> free_cookie (tick p); Some (-1, p) }
      | Close_ok \<Rightarrow> do { p \<leftarrow> free_cookie (tick (p\<lparr>p_fds := p_fds p - 1\<rparr>)); Some (0, p) })"

definition entropy_read :: "os \<Rightarrow> proc \<Rightarrow> nat \<Rightarrow> (int \<times> bytes \<times> proc) option" where
  "entropy_read os p buflen = do {
     cassert (buflen \<le> SSIZE_MAX);
     (er, p) \<leftarrow> entropy_read_init os p;
     if \<not> er then Some (-1, [], p)
     else do {
       (rc, buf, p) \<leftarrow> do { cassert (buflen \<le> SSIZE_MAX); entropy_read_fill os p [] buflen };
       if rc \<noteq> 0 then do { (_, p) \<leftarrow> entropy_read_done os p; Some (-1, buf, p) }
       else do {
         (rc, p) \<leftarrow> entropy_read_done os p;
         if rc \<noteq> 0 then Some (-1, buf, p) else Some (0, buf, p)
       }
     }
   }"

text \<open>The result is \<open>None\<close> for a return value of 1, and otherwise the words in the buffer.\<close>

fun generate_seed_rdrand :: "os \<Rightarrow> proc \<Rightarrow> nat \<Rightarrow> u32 list option \<times> proc" where
  "generate_seed_rdrand os p 0 = (Some [], p)"
| "generate_seed_rdrand os p (Suc len) =
     (case os_rdrand os (p_rdpos p) of
        None \<Rightarrow> (None, p\<lparr>p_rdpos := Suc (p_rdpos p)\<rparr>)
      | Some x \<Rightarrow>
          (case generate_seed_rdrand os (p\<lparr>p_rdpos := Suc (p_rdpos p)\<rparr>) len of
             (None, p) \<Rightarrow> (None, p)
           | (Some xs, p) \<Rightarrow> (Some (x # xs), p)))"


section \<open>The generator\<close>

record drbg_state =
  Key :: bytes
  V :: bytes
  reseed_counter :: u32

record entropy_state =
  drbg :: drbg_state
  instantiated :: bool
  atexit_handlers :: nat

definition RESEED_INTERVAL :: u32 where
  "RESEED_INTERVAL = 256"

definition GENERATE_MAXLEN :: nat where
  "GENERATE_MAXLEN = 65536"

text \<open>\<open>hm\<close> is an uninitialised HMAC context on the stack.\<close>

definition update_mix :: "HMAC_SHA256_CTX \<Rightarrow> HMAC_SHA256_CTX \<Rightarrow> bytes \<Rightarrow> bytes \<Rightarrow> bytes \<Rightarrow> (bytes \<times> bytes \<times> HMAC_SHA256_CTX) option" where
  "update_mix hm ctx K Vx data = do {
     ctx \<leftarrow> HMAC_SHA256_Init ctx K;
     ctx \<leftarrow> HMAC_SHA256_Update ctx Vx;
     ctx \<leftarrow> HMAC_SHA256_Update ctx data;
     (K, ctx) \<leftarrow> HMAC_SHA256_Final ctx;
     V \<leftarrow> HMAC_SHA256_Buf hm K (take 32 Vx);
     Vx \<leftarrow> mem_store Vx 0 V;
     Some (K, Vx, ctx)
   }"

definition update :: "HMAC_SHA256_CTX \<Rightarrow> drbg_state \<Rightarrow> bytes \<Rightarrow> drbg_state option" where
  "update hm d data = do {
     K \<leftarrow> mem_load (Key d) 0 32;
     Vx \<leftarrow> mem_load (V d) 0 32;
     (K, Vx, ctx) \<leftarrow> update_mix hm hm K (Vx @ [0x00]) data;
     (K, Vx, ctx) \<leftarrow> (if data \<noteq> [] then update_mix hm ctx K (Vx[32 := 0x01]) data else Some (K, Vx, ctx));
     Some (d\<lparr>Key := K, V := take 32 Vx\<rparr>)
   }"

definition update_from_rdrand :: "HMAC_SHA256_CTX \<Rightarrow> os \<Rightarrow> proc \<Rightarrow> drbg_state \<Rightarrow> (drbg_state \<times> proc) option" where
  "update_from_rdrand hm os p d =
     (case generate_seed_rdrand os p 8 of
        (None, p) \<Rightarrow> Some (d, p)
      | (Some ws, p) \<Rightarrow> do { d \<leftarrow> update hm d (concat (map le32enc ws)); Some (d, p) })"

definition crypto_entropy_atexit :: "entropy_state \<Rightarrow> entropy_state" where
  "crypto_entropy_atexit st = st\<lparr>drbg := \<lparr>Key = replicate 32 0, V = replicate 32 0, reseed_counter = 0\<rparr>\<rparr>"

definition instantiate :: "HMAC_SHA256_CTX \<Rightarrow> os \<Rightarrow> proc \<Rightarrow> drbg_state \<Rightarrow> (int \<times> drbg_state \<times> proc) option" where
  "instantiate hm os p d = do {
     (rc, seed_material, p) \<leftarrow> entropy_read os p 48;
     if rc \<noteq> 0 then Some (-1, d, p)
     else do {
       let d = d\<lparr>Key := replicate 32 0x00, V := replicate 32 0x01, reseed_counter := 1\<rparr>;
       d \<leftarrow> update hm d seed_material;
       (d, p) \<leftarrow> (if os_cpu_rdrand os then update_from_rdrand hm os p d else Some (d, p));
       Some (0, d, p)
     }
   }"

definition reseed :: "HMAC_SHA256_CTX \<Rightarrow> os \<Rightarrow> proc \<Rightarrow> drbg_state \<Rightarrow> (int \<times> drbg_state \<times> proc) option" where
  "reseed hm os p d = do {
     (rc, seed_material, p) \<leftarrow> entropy_read os p 32;
     if rc \<noteq> 0 then Some (-1, d, p)
     else do {
       d \<leftarrow> update hm d seed_material;
       (d, p) \<leftarrow> (if os_cpu_rdrand os then update_from_rdrand hm os p d else Some (d, p));
       Some (0, d\<lparr>reseed_counter := 1\<rparr>, p)
     }
   }"

text \<open>\<open>off\<close> is where the pointer \<open>buf\<close> points in the caller's buffer.\<close>

function generate_loop :: "HMAC_SHA256_CTX \<Rightarrow> drbg_state \<Rightarrow> bytes \<Rightarrow> nat \<Rightarrow> nat \<Rightarrow> nat \<Rightarrow> (drbg_state \<times> bytes) option" where
  "generate_loop hm d buf off buflen bufpos =
     (if bufpos < buflen then do {
        v \<leftarrow> HMAC_SHA256_Buf hm (Key d) (V d);
        let d = d\<lparr>V := v\<rparr>;
        src \<leftarrow> mem_load (V d) 0 (if buflen - bufpos \<ge> 32 then 32 else buflen - bufpos);
        buf \<leftarrow> mem_store buf (off + bufpos) src;
        generate_loop hm d buf off buflen (bufpos + 32)
      }
      else Some (d, buf))"
  by pat_completeness auto
termination by (relation "measure (\<lambda>(_, _, _, _, buflen, bufpos). buflen - bufpos)") auto

definition generate :: "HMAC_SHA256_CTX \<Rightarrow> drbg_state \<Rightarrow> bytes \<Rightarrow> nat \<Rightarrow> nat \<Rightarrow> (drbg_state \<times> bytes) option" where
  "generate hm d buf off buflen = do {
     cassert (buflen \<le> GENERATE_MAXLEN);
     cassert (reseed_counter d \<le> RESEED_INTERVAL);
     (d, buf) \<leftarrow> generate_loop hm d buf off buflen 0;
     d \<leftarrow> update hm d [];
     Some (d\<lparr>reseed_counter := reseed_counter d + 1\<rparr>, buf)
   }"

function read_loop ::
  "HMAC_SHA256_CTX \<Rightarrow> os \<Rightarrow> proc \<Rightarrow> drbg_state \<Rightarrow> bytes \<Rightarrow> nat \<Rightarrow> nat \<Rightarrow> (int \<times> drbg_state \<times> bytes \<times> proc) option" where
  "read_loop hm os p d buf off buflen =
     (if buflen > 0 then do {
        (rc, d, p) \<leftarrow> (if reseed_counter d > RESEED_INTERVAL then reseed hm os p d else Some (0, d, p));
        if rc \<noteq> 0 then Some (-1, d, buf, p)
        else do {
          let bytes_to_provide = (if buflen > GENERATE_MAXLEN then GENERATE_MAXLEN else buflen);
          (d, buf) \<leftarrow> generate hm d buf off bytes_to_provide;
          read_loop hm os p d buf (off + bytes_to_provide) (buflen - bytes_to_provide)
        }
      }
      else Some (0, d, buf, p))"
  by pat_completeness auto
termination by (relation "measure (\<lambda>(_, _, _, _, _, _, buflen). buflen)") (auto simp: GENERATE_MAXLEN_def)

declare generate_loop.simps [simp del] read_loop.simps [simp del]

text \<open>The buffer has \<open>buflen\<close> bytes; the result has the return value and the buffer.\<close>

definition crypto_entropy_read ::
  "HMAC_SHA256_CTX \<Rightarrow> os \<Rightarrow> proc \<Rightarrow> entropy_state \<Rightarrow> bytes \<Rightarrow> nat \<Rightarrow> (int \<times> entropy_state \<times> bytes \<times> proc) option" where
  "crypto_entropy_read hm os p st buf buflen = do {
     (rc, st, p) \<leftarrow>
       (if \<not> instantiated st then
          (if os_atexit os (p_time p) then do {
             let st = st\<lparr>atexit_handlers := Suc (atexit_handlers st)\<rparr>;
             (rc, d, p) \<leftarrow> instantiate hm os (tick p) (drbg st);
             let st = st\<lparr>drbg := d\<rparr>;
             if rc \<noteq> 0 then Some (-1, st, p) else Some (0, st\<lparr>instantiated := True\<rparr>, p)
           }
           else Some (-1, st, tick p))
        else Some (0 :: int, st, p));
     if rc \<noteq> 0 then Some (-1, st, buf, p)
     else do {
       (rc, d, buf, p) \<leftarrow> read_loop hm os p (drbg st) buf 0 buflen;
       Some (rc, st\<lparr>drbg := d\<rparr>, buf, p)
     }
   }"

text \<open>\<open>rc\<close> is an unsigned byte; the loop runs over \<open>i < len\<close>.\<close>

definition crypto_verify_bytes :: "bytes \<Rightarrow> bytes \<Rightarrow> nat \<Rightarrow> u8 option" where
  "crypto_verify_bytes buf0 buf1 len = do {
     b0 \<leftarrow> mem_load buf0 0 len;
     b1 \<leftarrow> mem_load buf1 0 len;
     Some (fold (\<lambda>i rc. rc OR (b0 ! i XOR b1 ! i)) [0..<len] 0)
   }"


section \<open>The operating system keeps its promises\<close>

text \<open>Calls are not interrupted for ever.\<close>

definition os_fair :: "os \<Rightarrow> bool" where
  "os_fair os \<longleftrightarrow> (\<forall>t. (\<exists>t' \<ge> t. os_read os t' \<noteq> Read_EINTR) \<and> (\<exists>t' \<ge> t. os_close os t' \<noteq> Close_EINTR))"

text \<open>No call fails, and the device has no end.\<close>

definition os_good :: "os \<Rightarrow> bool" where
  "os_good os \<longleftrightarrow> (\<forall>t. os_malloc os t \<and> os_open os t \<and> os_atexit os t \<and> os_read os t \<noteq> Read_error \<and>
     os_read os t \<noteq> Read_count 0 \<and> os_close os t \<noteq> Close_error)"

lemma tick_simps [simp]: "p_urpos (tick p) = p_urpos p" "p_rdpos (tick p) = p_rdpos p"
  "p_cookies (tick p) = p_cookies p" "p_fds (tick p) = p_fds p" "p_time (tick p) = Suc (p_time p)"
  by (simp_all add: tick_def)

lemma fill_skip:
  assumes "0 < n" "os_read os t \<noteq> Read_EINTR" "p_time p \<le> t"
  shows "\<exists>t'. os_read os t' \<noteq> Read_EINTR \<and>
    entropy_read_fill os p buf n = entropy_read_fill os (p\<lparr>p_time := t'\<rparr>) buf n"
  using assms(3)
proof (induction "t - p_time p" arbitrary: p)
  case 0
  then have "p\<lparr>p_time := t\<rparr> = p" by auto
  then show ?case using assms by (intro exI [of _ t]) simp
next
  case (Suc d)
  show ?case
  proof (cases "os_read os (p_time p) = Read_EINTR")
    case True
    have "\<exists>t'. os_read os t' \<noteq> Read_EINTR \<and>
        entropy_read_fill os (tick p) buf n = entropy_read_fill os ((tick p)\<lparr>p_time := t'\<rparr>) buf n"
      using Suc by (intro Suc.hyps(1)) auto
    then show ?thesis using True assms(1) entropy_read_fill.simps [of os p buf n] by (simp add: tick_def)
  next
    case False
    then show ?thesis by (intro exI [of _ "p_time p"]) simp
  qed
qed

definition drawn :: "os \<Rightarrow> proc \<Rightarrow> nat \<Rightarrow> bytes" where
  "drawn os p n = map (os_urandom os) [p_urpos p..<p_urpos p + n]"

lemma length_drawn [simp]: "length (drawn os p n) = n"
  by (simp add: drawn_def)

text \<open>What reading leaves alone, and what a return value of 0 or of -1 means.\<close>

definition read_post :: "os \<Rightarrow> proc \<Rightarrow> nat \<Rightarrow> int \<Rightarrow> proc \<Rightarrow> bool" where
  "read_post os p n rc p' \<longleftrightarrow> p_rdpos p' = p_rdpos p \<and> p_cookies p' = p_cookies p \<and>
     (rc = 0 \<and> p_urpos p' = p_urpos p + n \<or> rc = -1 \<and> \<not> os_good os)"

lemma fill_ok:
  assumes "os_fair os"
  shows "okp (entropy_read_fill os p buf n)
    (\<lambda>(rc, b, p'). read_post os p n rc p' \<and> p_fds p' = p_fds p \<and> (rc = 0 \<longrightarrow> b = buf @ drawn os p n))"
proof (induction n arbitrary: p buf rule: less_induct)
  case (less n)
  show ?case
  proof (cases "n = 0")
    case True
    then show ?thesis by (subst entropy_read_fill.simps) (simp add: read_post_def drawn_def)
  next
    case False
    obtain t where "t \<ge> p_time p" "os_read os t \<noteq> Read_EINTR" using assms by (auto simp: os_fair_def)
    then obtain t' where t': "os_read os t' \<noteq> Read_EINTR"
      and eq: "entropy_read_fill os p buf n = entropy_read_fill os (p\<lparr>p_time := t'\<rparr>) buf n"
      using fill_skip [of n os t p buf] False by auto
    show ?thesis
    proof (cases "\<exists>k > 0. os_read os t' = Read_count k")
      case True
      then obtain k where k: "os_read os t' = Read_count k" "0 < k" by auto
      let ?l = "min k n" let ?p = "tick (p\<lparr>p_time := t', p_urpos := p_urpos p + ?l\<rparr>)"
      have "entropy_read_fill os (p\<lparr>p_time := t'\<rparr>) buf n = entropy_read_fill os ?p (buf @ drawn os p ?l) (n - ?l)"
        using k False by (subst entropy_read_fill.simps) (simp add: drawn_def Let_def tick_def min_def)
      moreover have "okp (entropy_read_fill os ?p (buf @ drawn os p ?l) (n - ?l))
        (\<lambda>(rc, b, p'). read_post os ?p (n - ?l) rc p' \<and> p_fds p' = p_fds ?p \<and>
           (rc = 0 \<longrightarrow> b = (buf @ drawn os p ?l) @ drawn os ?p (n - ?l)))"
        using k False by (intro less.IH) auto
      moreover have "drawn os p ?l @ drawn os ?p (n - ?l) = drawn os p n"
        using upt_add_eq_append [of "p_urpos p" "p_urpos p + ?l" "n - ?l"]
        by (simp add: drawn_def add.assoc flip: map_append)
      ultimately show ?thesis unfolding eq
        by (auto simp: read_post_def elim!: okp_mono)
    next
      case bad: False
      then have "\<not> os_good os" using t' unfolding os_good_def
        by (cases "os_read os t'") auto
      then show ?thesis unfolding eq using bad t' False
        by (subst entropy_read_fill.simps) (cases "os_read os t'", auto simp: read_post_def)
    qed
  qed
qed

lemma done_ok:
  assumes "os_fair os" "0 < p_cookies p" "0 < p_fds p"
  shows "okp (entropy_read_done os p)
    (\<lambda>(rc, p'). p_rdpos p' = p_rdpos p \<and> p_urpos p' = p_urpos p \<and> p_cookies p' = p_cookies p - 1 \<and>
       (rc = 0 \<and> p_fds p' = p_fds p - 1 \<or> rc = -1 \<and> \<not> os_good os))"
proof -
  obtain t where "t \<ge> p_time p" "os_close os t \<noteq> Close_EINTR" using assms by (auto simp: os_fair_def)
  then show ?thesis using assms(2, 3)
  proof (induction "t - p_time p" arbitrary: p)
    case 0
    then have "p_time p = t" by simp
    then show ?case using 0
      by (subst entropy_read_done.simps)
        (auto simp: wp_rules free_cookie_def os_good_def split: close_result.splits)
  next
    case (Suc d)
    show ?case
    proof (cases "os_close os (p_time p)")
      case Close_EINTR
      then show ?thesis using Suc.hyps(1) [of "tick p"] Suc.hyps(2) Suc.prems
        by (subst entropy_read_done.simps) simp
    next
      case Close_error
      then show ?thesis using Suc.prems
        by (subst entropy_read_done.simps) (auto simp: wp_rules free_cookie_def os_good_def)
    next
      case Close_ok
      then show ?thesis using Suc.prems
        by (subst entropy_read_done.simps) (auto simp: wp_rules free_cookie_def)
    qed
  qed
qed

lemma entropy_read_ok:
  assumes fair: "os_fair os" and n: "n \<le> SSIZE_MAX"
  shows "okp (entropy_read os p n)
    (\<lambda>(rc, b, p'). read_post os p n rc p' \<and> (rc = 0 \<longrightarrow> b = drawn os p n \<and> p_fds p' = p_fds p))"
proof (cases "os_malloc os (p_time p) \<and> os_open os (Suc (p_time p))")
  case False
  then have "\<not> os_good os" by (auto simp: os_good_def)
  then show ?thesis using False n
    by (auto simp: entropy_read_def entropy_read_init_def wp_rules free_cookie_def read_post_def Let_def)
next
  case True
  let ?p = "tick (tick (p\<lparr>p_cookies := Suc (p_cookies p)\<rparr>)\<lparr>p_fds := Suc (p_fds p)\<rparr>)"
  have init: "entropy_read_init os p = Some (True, ?p)"
    using True by (simp add: entropy_read_init_def tick_def)
  obtain rc b p1 where fill: "entropy_read_fill os ?p [] n = Some (rc, b, p1)"
    and p1: "read_post os ?p n rc p1" "p_fds p1 = p_fds ?p" "rc = 0 \<longrightarrow> b = drawn os ?p n"
    using fill_ok [OF fair, of ?p "[]" n] by (auto simp: okp_iff)
  obtain rc' p2 where fin: "entropy_read_done os p1 = Some (rc', p2)"
    and p2: "p_rdpos p2 = p_rdpos p1" "p_urpos p2 = p_urpos p1" "p_cookies p2 = p_cookies p1 - 1"
      "rc' = 0 \<and> p_fds p2 = p_fds p1 - 1 \<or> rc' = -1 \<and> \<not> os_good os"
    using done_ok [OF fair, of p1] p1 by (auto simp: okp_iff read_post_def)
  show ?thesis using init fill fin p1 p2 n by (auto simp: entropy_read_def read_post_def drawn_def)
qed


section \<open>HMAC_DRBG\<close>

text \<open>NIST SP 800-90A, section 10.1.2.2, on the pair of \<open>Key\<close> and \<open>V\<close>.\<close>

definition spec_update :: "bytes \<Rightarrow> bytes \<times> bytes \<Rightarrow> bytes \<times> bytes" where
  "spec_update data KV =
     (let K1 = hmac sha256 (fst KV) (snd KV @ [0x00] @ data); V1 = hmac sha256 K1 (snd KV) in
      if data = [] then (K1, V1)
      else let K2 = hmac sha256 K1 (V1 @ [0x01] @ data) in (K2, hmac sha256 K2 V1))"

text \<open>Section 10.1.2.5: \<open>V\<close> is replaced by its HMAC as often as there are blocks, which are the output.\<close>

definition spec_V :: "bytes \<times> bytes \<Rightarrow> nat \<Rightarrow> bytes" where
  "spec_V KV n = (hmac sha256 (fst KV) ^^ n) (snd KV)"

definition spec_blocks :: "nat \<Rightarrow> nat" where
  "spec_blocks n = (n + 31) div 32"

definition spec_generate :: "nat \<Rightarrow> bytes \<times> bytes \<Rightarrow> bytes \<times> bytes \<times> bytes" where
  "spec_generate n KV =
     (take n (concat (map (\<lambda>i. spec_V KV (Suc i)) [0..<spec_blocks n])), spec_update [] (fst KV, spec_V KV (spec_blocks n)))"

lemma HMAC_SHA256_Buf_eq:
  assumes "hm_wf hm"
  shows "HMAC_SHA256_Buf hm K m = Some (hmac sha256 K m)"
proof -
  obtain c1 c2 d c3 where "HMAC_SHA256_Init_internal hm K = Some c1" "hm_keyed K c1 []"
    "HMAC_SHA256_Update_internal c1 m = Some c2" "HMAC_SHA256_Final_internal c2 = Some (d, c3)" "d = hmac sha256 K m"
    using HMAC_SHA256_Init_ok [OF assms, of K] hmac_more [of K _ "[]" m]
    by (fastforce simp: okp_iff Option.bind_eq_Some_conv)
  then show ?thesis by (simp add: HMAC_SHA256_Buf_def)
qed

lemma update_mix_ok:
  assumes "hm_wf hm" "hm_wf ctx" "length Vx = 33"
  shows "okp (update_mix hm ctx K Vx data)
    (\<lambda>(K', Vx', ctx'). hm_wf ctx' \<and> K' = hmac sha256 K (Vx @ data) \<and> Vx' = hmac sha256 K' (take 32 Vx) @ drop 32 Vx)"
proof -
  obtain c1 where c1: "HMAC_SHA256_Init ctx K = Some c1" "hm_keyed K c1 []"
    using HMAC_SHA256_Init_ok [OF assms(2), of K] by (auto simp: HMAC_SHA256_Init_def okp_iff)
  obtain c2 where c2: "HMAC_SHA256_Update c1 Vx = Some c2" "hm_keyed K c2 Vx"
    using HMAC_SHA256_Update_ok [OF c1(2), of Vx] by (auto simp: HMAC_SHA256_Update_def okp_iff)
  obtain c3 where c3: "HMAC_SHA256_Update c2 data = Some c3" "hm_keyed K c3 (Vx @ data)"
    using HMAC_SHA256_Update_ok [OF c2(2), of data] by (auto simp: HMAC_SHA256_Update_def okp_iff)
  obtain c4 where c4: "HMAC_SHA256_Final c3 = Some (hmac sha256 K (Vx @ data), c4)" "hm_wf c4"
    using HMAC_SHA256_Final_ok [OF c3(2)] by (auto simp: HMAC_SHA256_Final_def okp_iff hm_wf_def sha_zero_def)
  show ?thesis using c1(1) c2(1) c3(1) c4 assms
    by (simp add: update_mix_def HMAC_SHA256_Buf_eq wp_rules)
qed

definition drbg_wf :: "drbg_state \<Rightarrow> bool" where
  "drbg_wf d \<longleftrightarrow> length (Key d) = 32 \<and> length (V d) = 32"

lemma length_spec_update [simp]: "length (fst (spec_update data KV)) = 32" "length (snd (spec_update data KV)) = 32"
  by (simp_all add: spec_update_def Let_def)

lemma update_eq:
  assumes "hm_wf hm" "drbg_wf d"
  shows "update hm d data = Some (d\<lparr>Key := fst (spec_update data (Key d, V d)), V := snd (spec_update data (Key d, V d))\<rparr>)"
proof -
  have V: "length (V d) = 32" "length (Key d) = 32" using assms(2) by (simp_all add: drbg_wf_def)
  let ?K1 = "hmac sha256 (Key d) (V d @ [0] @ data)" let ?V1 = "hmac sha256 ?K1 (V d)"
  obtain c1 where 1: "update_mix hm hm (Key d) (V d @ [0]) data = Some (?K1, ?V1 @ [0], c1)" "hm_wf c1"
    using update_mix_ok [OF assms(1, 1), of "V d @ [0]" "Key d" data] V by (auto simp: okp_iff)
  let ?K2 = "hmac sha256 ?K1 (?V1 @ [1] @ data)"
  obtain c2 where 2: "update_mix hm c1 ?K1 (?V1 @ [1]) data = Some (?K2, hmac sha256 ?K2 ?V1 @ [1], c2)"
    using update_mix_ok [OF assms(1) 1(2), of "?V1 @ [1]" ?K1 data] by (auto simp: okp_iff)
  show ?thesis
  proof (cases "data = []")
    case True
    then show ?thesis using 1 V by (simp add: update_def mem_load_def spec_update_def Let_def)
  next
    case False
    then show ?thesis using 1 2 V by (simp add: update_def mem_load_def spec_update_def Let_def list_update_append)
  qed
qed

lemma length_spec_V: "length (snd KV) = 32 \<Longrightarrow> length (spec_V KV n) = 32"
  by (cases n) (simp_all add: spec_V_def)

definition spec_out :: "bytes \<times> bytes \<Rightarrow> nat \<Rightarrow> nat \<Rightarrow> bytes" where
  "spec_out KV i n = take (n - 32 * i) (concat (map (\<lambda>i. spec_V KV (Suc i)) [i..<spec_blocks n]))"

lemma spec_blocks_less: "(i < spec_blocks n) = (32 * i < n)"
  unfolding spec_blocks_def by linarith

lemma length_spec_out: "length (snd KV) = 32 \<Longrightarrow> length (spec_out KV i n) = n - 32 * i"
proof -
  assume "length (snd KV) = 32"
  then have "length (concat (map (\<lambda>i. spec_V KV (Suc i)) [i..<spec_blocks n])) = (spec_blocks n - i) * 32"
    by (subst length_concat_const [where n = 32]) (auto simp: length_spec_V)
  moreover have "n - 32 * i \<le> (spec_blocks n - i) * 32" unfolding spec_blocks_def by linarith
  ultimately show ?thesis by (simp add: spec_out_def)
qed

lemma spec_out_step:
  assumes "32 * i < n" "length (snd KV) = 32"
  shows "spec_out KV i n = take (n - 32 * i) (spec_V KV (Suc i)) @ spec_out KV (Suc i) n"
proof -
  have "[i..<spec_blocks n] = i # [Suc i..<spec_blocks n]" using assms(1) by (simp add: upt_conv_Cons spec_blocks_less)
  then show ?thesis using assms by (simp add: spec_out_def length_spec_V [OF assms(2)] add.commute)
qed

lemma generate_loop_ok:
  assumes hm: "hm_wf hm" and d: "drbg_wf d" and len: "off + n \<le> length buf"
  shows "generate_loop hm (d\<lparr>V := spec_V (Key d, V d) i\<rparr>) buf off n (32 * i) =
    Some (d\<lparr>V := spec_V (Key d, V d) (max i (spec_blocks n))\<rparr>,
          take (off + min (32 * i) n) buf @ spec_out (Key d, V d) i n @ drop (off + n) buf)"
  using len
proof (induction "spec_blocks n - i" arbitrary: i buf)
  case 0
  then have "n \<le> 32 * i" using spec_blocks_less [of i n] by simp
  moreover have "max i (spec_blocks n) = i" using 0 by simp
  ultimately show ?case by (subst generate_loop.simps) (simp add: spec_out_def)
next
  case (Suc m)
  let ?KV = "(Key d, V d)" let ?v = "spec_V ?KV (Suc i)"
  have "i < spec_blocks n" using Suc.hyps(2) by simp
  then have lt: "32 * i < n" by (simp add: spec_blocks_less)
  have V: "length (V d) = 32" "length ?v = 32" using d length_spec_V [of ?KV] by (simp_all add: drbg_wf_def)
  define src where "src = take (if n - 32 * i \<ge> 32 then 32 else n - 32 * i) ?v"
  have src: "src = take (n - 32 * i) ?v" "length src = min 32 (n - 32 * i)" using V by (auto simp: src_def)
  define buf' where "buf' = take (off + 32 * i) buf @ src @ drop (off + 32 * i + length src) buf"
  have buf': "mem_store buf (off + 32 * i) src = Some buf'" "off + n \<le> length buf'"
    using Suc.prems lt src(2) by (auto simp: mem_store_def buf'_def)
  have "generate_loop hm (d\<lparr>V := spec_V ?KV i\<rparr>) buf off n (32 * i) =
      generate_loop hm (d\<lparr>V := ?v\<rparr>) buf' off n (32 * Suc i)"
    using lt V buf'(1) by (subst generate_loop.simps)
      (auto simp: HMAC_SHA256_Buf_eq [OF hm] mem_load_def spec_V_def src_def add.commute)
  also have "\<dots> = Some (d\<lparr>V := spec_V ?KV (max (Suc i) (spec_blocks n))\<rparr>,
      take (off + min (32 * Suc i) n) buf' @ spec_out ?KV (Suc i) n @ drop (off + n) buf')"
    using Suc.hyps buf'(2) by (intro Suc.hyps(1)) auto
  also have "take (off + min (32 * Suc i) n) buf' = take (off + 32 * i) buf @ src"
    using lt Suc.prems src(2) by (auto simp: buf'_def min_def)
  also have "drop (off + n) buf' = drop (off + n) buf"
    using lt Suc.prems src(2) by (auto simp: buf'_def add.commute)
  also have "max (Suc i) (spec_blocks n) = max i (spec_blocks n)" using Suc.hyps(2) by simp
  finally show ?case using lt spec_out_step [of i n ?KV] V src(1) by simp
qed

lemma generate_eq:
  assumes "hm_wf hm" "drbg_wf d" "off + n \<le> length buf" "n \<le> GENERATE_MAXLEN" "reseed_counter d \<le> RESEED_INTERVAL"
  shows "generate hm d buf off n =
    (case spec_generate n (Key d, V d) of (out, K', V') \<Rightarrow>
      Some (d\<lparr>Key := K', V := V', reseed_counter := reseed_counter d + 1\<rparr>, take off buf @ out @ drop (off + n) buf))"
proof -
  let ?d = "d\<lparr>V := spec_V (Key d, V d) (spec_blocks n)\<rparr>"
  have "d\<lparr>V := spec_V (Key d, V d) 0\<rparr> = d" by (simp add: spec_V_def)
  then have "generate_loop hm d buf off n 0 = Some (?d, take off buf @ spec_out (Key d, V d) 0 n @ drop (off + n) buf)"
    using generate_loop_ok [OF assms(1-3), of 0] by simp
  moreover have "drbg_wf ?d" using assms(2) length_spec_V by (simp add: drbg_wf_def)
  ultimately show ?thesis using assms(4, 5) update_eq [OF assms(1), of ?d "[]"]
    by (simp add: generate_def spec_generate_def spec_out_def split: prod.split)
qed


section \<open>The generator with its sources\<close>

text \<open>
  The reference: \<open>Key\<close>, \<open>V\<close>, the number of the next request since the last seed, and the
  positions in \<open>/dev/urandom\<close> and in the results of RDRAND.
\<close>

record ref_state =
  rf_KV :: "bytes \<times> bytes"
  rf_count :: nat
  rf_ur :: nat
  rf_rd :: nat

definition rdrand_words :: "os \<Rightarrow> nat \<Rightarrow> nat \<Rightarrow> u32 option list" where
  "rdrand_words os q n = map (os_rdrand os) [q..<q + n]"

definition ref_rdrand :: "os \<Rightarrow> ref_state \<Rightarrow> ref_state" where
  "ref_rdrand os r =
     (let ws = rdrand_words os (rf_rd r) 8 in
      if None \<in> set ws then r\<lparr>rf_rd := rf_rd r + Suc (length (takeWhile (\<lambda>x. x \<noteq> None) ws))\<rparr>
      else r\<lparr>rf_rd := rf_rd r + 8, rf_KV := spec_update (concat (map (le32enc \<circ> the) ws)) (rf_KV r)\<rparr>)"

definition ref_seed :: "os \<Rightarrow> nat \<Rightarrow> ref_state \<Rightarrow> ref_state" where
  "ref_seed os n r =
     (let r = r\<lparr>rf_KV := spec_update (map (os_urandom os) [rf_ur r..<rf_ur r + n]) (rf_KV r), rf_ur := rf_ur r + n\<rparr>;
          r = (if os_cpu_rdrand os then ref_rdrand os r else r)
      in r\<lparr>rf_count := 1\<rparr>)"

definition ref_instantiate :: "os \<Rightarrow> ref_state \<Rightarrow> ref_state" where
  "ref_instantiate os r = ref_seed os 48 (r\<lparr>rf_KV := (replicate 32 0x00, replicate 32 0x01)\<rparr>)"

text \<open>Requests of at most 65536 bytes, each after a reseed if 256 have been made since the last.\<close>

function ref_read :: "os \<Rightarrow> ref_state \<Rightarrow> nat \<Rightarrow> bytes \<times> ref_state" where
  "ref_read os r len =
     (if len = 0 then ([], r)
      else
        let r = (if 256 < rf_count r then ref_seed os 32 r else r);
            n = min len 65536;
            (out, KV) = spec_generate n (rf_KV r);
            (rest, r) = ref_read os (r\<lparr>rf_KV := KV, rf_count := Suc (rf_count r)\<rparr>) (len - n)
        in (out @ rest, r))"
  by pat_completeness auto
termination by (relation "measure (\<lambda>(_, _, len). len)") auto

declare ref_read.simps [simp del]

definition ref_of :: "drbg_state \<Rightarrow> proc \<Rightarrow> ref_state" where
  "ref_of d p = \<lparr>rf_KV = (Key d, V d), rf_count = unat (reseed_counter d), rf_ur = p_urpos p, rf_rd = p_rdpos p\<rparr>"

lemma ref_of_simps [simp]: "rf_KV (ref_of d p) = (Key d, V d)" "rf_count (ref_of d p) = unat (reseed_counter d)"
  "rf_ur (ref_of d p) = p_urpos p" "rf_rd (ref_of d p) = p_rdpos p"
  by (simp_all add: ref_of_def)

text \<open>The state of a generator that has been instantiated.\<close>

definition drbg_inv :: "drbg_state \<Rightarrow> bool" where
  "drbg_inv d \<longleftrightarrow> drbg_wf d \<and> 1 \<le> unat (reseed_counter d) \<and> unat (reseed_counter d) \<le> 257"

definition ent_inv :: "entropy_state \<Rightarrow> bool" where
  "ent_inv st \<longleftrightarrow> drbg_wf (drbg st) \<and> (instantiated st \<longrightarrow> drbg_inv (drbg st))"

lemma generate_seed_rdrand_eq:
  "generate_seed_rdrand os p n =
     (if None \<in> set (rdrand_words os (p_rdpos p) n)
      then (None, p\<lparr>p_rdpos := p_rdpos p + Suc (length (takeWhile (\<lambda>x. x \<noteq> None) (rdrand_words os (p_rdpos p) n)))\<rparr>)
      else (Some (map the (rdrand_words os (p_rdpos p) n)), p\<lparr>p_rdpos := p_rdpos p + n\<rparr>))"
proof (induction n arbitrary: p)
  case (Suc n)
  have "rdrand_words os (p_rdpos p) (Suc n) = os_rdrand os (p_rdpos p) # rdrand_words os (Suc (p_rdpos p)) n"
    by (simp add: rdrand_words_def upt_conv_Cons del: upt_Suc)
  then show ?case using Suc.IH [of "p\<lparr>p_rdpos := Suc (p_rdpos p)\<rparr>"] by (auto split: option.split)
qed (simp add: rdrand_words_def)

lemma update_from_rdrand_ok:
  assumes "hm_wf hm" "drbg_wf d"
  shows "okp (update_from_rdrand hm os p d)
    (\<lambda>(d', p'). drbg_wf d' \<and> reseed_counter d' = reseed_counter d \<and> p_cookies p' = p_cookies p \<and> p_fds p' = p_fds p \<and>
       ref_of d' p' = ref_rdrand os (ref_of d p))"
  using update_eq [OF assms]
  by (auto simp: update_from_rdrand_def generate_seed_rdrand_eq ref_rdrand_def Let_def ref_of_def drbg_wf_def
      comp_def wp_rules assms(2) [unfolded drbg_wf_def])

text \<open>Seeding, with the result of a read of the device.\<close>

lemma seed_ok:
  assumes hm: "hm_wf hm" and d: "drbg_wf d"
  shows "okp (do {
      d \<leftarrow> update hm d (drawn os p0 n);
      if os_cpu_rdrand os then update_from_rdrand hm os p d else Some (d, p) })
    (\<lambda>(d', p'). drbg_wf d' \<and> reseed_counter d' = reseed_counter d \<and> p_cookies p' = p_cookies p \<and> p_fds p' = p_fds p \<and>
       (p_urpos p = p_urpos p0 + n \<longrightarrow> p_rdpos p = p_rdpos p0 \<longrightarrow>
        (ref_of d' p')\<lparr>rf_count := 1\<rparr> = ref_seed os n (ref_of d p0)))"
proof -
  define d1 where "d1 = d\<lparr>Key := fst (spec_update (drawn os p0 n) (Key d, V d)), V := snd (spec_update (drawn os p0 n) (Key d, V d))\<rparr>"
  have d1: "update hm d (drawn os p0 n) = Some d1" "drbg_wf d1" "reseed_counter d1 = reseed_counter d"
    using update_eq [OF hm d] by (simp_all add: d1_def drbg_wf_def)
  have r: "p_urpos p = p_urpos p0 + n \<Longrightarrow> p_rdpos p = p_rdpos p0 \<Longrightarrow>
    ref_of d1 p = (ref_of d p0)\<lparr>rf_KV := spec_update (map (os_urandom os) [p_urpos p0..<p_urpos p0 + n]) (Key d, V d), rf_ur := p_urpos p0 + n\<rparr>"
    by (simp add: ref_of_def d1_def drawn_def)
  show ?thesis
  proof (cases "os_cpu_rdrand os")
    case True
    then show ?thesis using update_from_rdrand_ok [OF hm d1(2), of os p] d1 r
      by (auto simp: wp_rules ref_seed_def Let_def elim!: okp_mono)
  next
    case False
    then show ?thesis using d1 r by (auto simp: ref_seed_def Let_def)
  qed
qed


text \<open>What a call promises: no cookie is lost, and failure only when the system fails.\<close>

definition seed_post :: "os \<Rightarrow> proc \<Rightarrow> int \<Rightarrow> proc \<Rightarrow> bool" where
  "seed_post os p rc p' \<longleftrightarrow> p_cookies p' = p_cookies p \<and> (rc = 0 \<and> p_fds p' = p_fds p \<or> rc = -1 \<and> \<not> os_good os)"

lemma reseed_ok:
  assumes hm: "hm_wf hm" and fair: "os_fair os" and d: "drbg_wf d"
  shows "okp (reseed hm os p d)
    (\<lambda>(rc, d', p'). seed_post os p rc p' \<and>
       (if rc = 0 then drbg_wf d' \<and> reseed_counter d' = 1 \<and> ref_of d' p' = ref_seed os 32 (ref_of d p) else d' = d))"
proof -
  obtain rc b p1 where r: "entropy_read os p 32 = Some (rc, b, p1)" "read_post os p 32 rc p1"
    "rc = 0 \<longrightarrow> b = drawn os p 32 \<and> p_fds p1 = p_fds p"
    using entropy_read_ok [OF fair, of 32 p] by (auto simp: okp_iff SSIZE_MAX_def)
  show ?thesis
  proof (cases "rc = 0")
    case True
    obtain d' p' where s: "do { d \<leftarrow> update hm d (drawn os p 32);
        if os_cpu_rdrand os then update_from_rdrand hm os p1 d else Some (d, p1) } = Some (d', p')"
      "drbg_wf d'" "p_cookies p' = p_cookies p1" "p_fds p' = p_fds p1"
      "(ref_of d' p')\<lparr>rf_count := 1\<rparr> = ref_seed os 32 (ref_of d p)"
      using seed_ok [OF hm d, of os p 32 p1] r True by (auto simp: okp_iff read_post_def)
    have "ref_of (d'\<lparr>reseed_counter := 1\<rparr>) p' = (ref_of d' p')\<lparr>rf_count := 1\<rparr>" by (simp add: ref_of_def)
    also note s(5)
    finally show ?thesis using r True s
      by (auto simp: reseed_def seed_post_def read_post_def drbg_wf_def Option.bind_eq_Some_conv)
  next
    case False
    then show ?thesis using r by (auto simp: reseed_def seed_post_def read_post_def)
  qed
qed

lemma instantiate_ok:
  assumes hm: "hm_wf hm" and fair: "os_fair os"
  shows "okp (instantiate hm os p d)
    (\<lambda>(rc, d', p'). seed_post os p rc p' \<and>
       (if rc = 0 then drbg_wf d' \<and> reseed_counter d' = 1 \<and> ref_of d' p' = ref_instantiate os (ref_of d p) else d' = d))"
proof -
  obtain rc b p1 where r: "entropy_read os p 48 = Some (rc, b, p1)" "read_post os p 48 rc p1"
    "rc = 0 \<longrightarrow> b = drawn os p 48 \<and> p_fds p1 = p_fds p"
    using entropy_read_ok [OF fair, of 48 p] by (auto simp: okp_iff SSIZE_MAX_def)
  show ?thesis
  proof (cases "rc = 0")
    case True
    let ?d = "d\<lparr>Key := replicate 32 0, V := replicate 32 1, reseed_counter := 1\<rparr>"
    have wf: "drbg_wf ?d" by (simp add: drbg_wf_def)
    obtain d' p' where s: "do { d \<leftarrow> update hm ?d (drawn os p 48);
        if os_cpu_rdrand os then update_from_rdrand hm os p1 d else Some (d, p1) } = Some (d', p')"
      "drbg_wf d'" "reseed_counter d' = 1" "p_cookies p' = p_cookies p1" "p_fds p' = p_fds p1"
      "(ref_of d' p')\<lparr>rf_count := 1\<rparr> = ref_seed os 48 (ref_of ?d p)"
      using seed_ok [OF hm wf, of os p 48 p1] r True by (auto simp: okp_iff read_post_def)
    have "ref_of d' p' = (ref_of d' p')\<lparr>rf_count := 1\<rparr>" using s(3) by (simp add: ref_of_def)
    also note s(6)
    also have "ref_seed os 48 (ref_of ?d p) = ref_instantiate os (ref_of d p)"
      by (auto simp: ref_instantiate_def ref_seed_def ref_of_def Let_def ref_rdrand_def)
    finally show ?thesis using r True s
      by (auto simp: instantiate_def seed_post_def read_post_def Option.bind_eq_Some_conv)
  next
    case False
    then show ?thesis using r by (auto simp: instantiate_def seed_post_def read_post_def)
  qed
qed


lemma length_spec_generate: "length (snd KV) = 32 \<Longrightarrow> length (fst (spec_generate n KV)) = n"
  using length_spec_out [of KV 0 n] by (simp add: spec_generate_def spec_out_def)

lemma read_loop_ok:
  assumes hm: "hm_wf hm" and fair: "os_fair os" and d: "drbg_inv d" and len: "off + n = length buf"
  shows "okp (read_loop hm os p d buf off n)
    (\<lambda>(rc, d', buf', p'). seed_post os p rc p' \<and> drbg_inv d' \<and> length buf' = length buf \<and>
       (rc = 0 \<longrightarrow> (case ref_read os (ref_of d p) n of (out, r) \<Rightarrow> buf' = take off buf @ out \<and> ref_of d' p' = r)))"
  using d len
proof (induction n arbitrary: p d buf off rule: less_induct)
  case (less n)
  show ?case
  proof (cases "n = 0")
    case True
    then show ?thesis using less.prems
      by (subst read_loop.simps, subst ref_read.simps) (simp add: seed_post_def)
  next
    case False
    let ?re = "reseed_counter d > RESEED_INTERVAL"
    have c256: "?re = (256 < unat (reseed_counter d))" by (simp add: RESEED_INTERVAL_def word_less_nat_alt)
    obtain rc d1 p1 where one: "(if ?re then reseed hm os p d else Some (0, d, p)) = Some (rc, d1, p1)"
      and sp: "seed_post os p rc p1" and d1: "if rc = 0 then drbg_wf d1 \<and> 1 \<le> unat (reseed_counter d1) \<and> unat (reseed_counter d1) \<le> 256 \<and>
         ref_of d1 p1 = (if ?re then ref_seed os 32 (ref_of d p) else ref_of d p) else d1 = d"
    proof (cases ?re)
      case True
      have "drbg_wf d" using less.prems(1) by (simp add: drbg_inv_def)
      then obtain rc d1 p1 where "reseed hm os p d = Some (rc, d1, p1)" "seed_post os p rc p1"
        "if rc = 0 then drbg_wf d1 \<and> reseed_counter d1 = 1 \<and> ref_of d1 p1 = ref_seed os 32 (ref_of d p) else d1 = d"
        using reseed_ok [OF hm fair, of d p] by (auto simp: okp_iff)
      then show ?thesis using True that by (auto split: if_splits)
    next
      case F: False
      then show ?thesis using less.prems(1) that [of 0 d p] c256 by (auto simp: drbg_inv_def seed_post_def)
    qed
    show ?thesis
    proof (cases "rc = 0")
      case F: False
      then show ?thesis using False one sp d1 less.prems by (subst read_loop.simps) (auto simp: seed_post_def)
    next
      case True
      let ?n = "min n 65536"
      have d1': "drbg_wf d1" "reseed_counter d1 \<le> RESEED_INTERVAL" "1 \<le> unat (reseed_counter d1)"
        using d1 True by (auto simp: RESEED_INTERVAL_def word_le_nat_alt)
      obtain out K' V' where g: "spec_generate ?n (Key d1, V d1) = (out, K', V')" by (cases "spec_generate ?n (Key d1, V d1)")
      let ?d = "d1\<lparr>Key := K', V := V', reseed_counter := reseed_counter d1 + 1\<rparr>"
      let ?buf = "take off buf @ out @ drop (off + ?n) buf"
      have gen: "generate hm d1 buf off ?n = Some (?d, ?buf)"
        using generate_eq [OF hm d1'(1), of off ?n buf] d1'(2) less.prems(2) g by (simp add: GENERATE_MAXLEN_def)
      have out: "length out = ?n" using length_spec_generate [of "(Key d1, V d1)" ?n] g d1'(1) by (simp add: drbg_wf_def)
      have KV': "length K' = 32" "length V' = 32" using g by (auto simp: spec_generate_def prod_eq_iff)
      have cnt: "unat (reseed_counter d1 + 1) = Suc (unat (reseed_counter d1))"
        using d1 True by (subst unat_add_lem [THEN iffD1]) auto
      have inv: "drbg_inv ?d" using KV' d1 True cnt by (simp add: drbg_inv_def drbg_wf_def)
      have ref: "ref_of ?d p1 = (ref_of d1 p1)\<lparr>rf_KV := (K', V'), rf_count := Suc (unat (reseed_counter d1))\<rparr>"
        using cnt by (simp add: ref_of_def)
      have IH: "okp (read_loop hm os p1 ?d ?buf (off + ?n) (n - ?n))
        (\<lambda>(rc, d', buf', p'). seed_post os p1 rc p' \<and> drbg_inv d' \<and> length buf' = length ?buf \<and>
         (rc = 0 \<longrightarrow> (case ref_read os (ref_of ?d p1) (n - ?n) of (out, r) \<Rightarrow> buf' = take (off + ?n) ?buf @ out \<and> ref_of d' p' = r)))"
        using False inv out less.prems(2) by (intro less.IH) auto
      have "ref_read os (ref_of d p) n =
        (case ref_read os (ref_of ?d p1) (n - ?n) of (rest, r) \<Rightarrow> (out @ rest, r))"
      proof -
        have "(if 256 < rf_count (ref_of d p) then ref_seed os 32 (ref_of d p) else ref_of d p) = ref_of d1 p1"
          using d1 True c256 by simp
        then show ?thesis using False by (subst ref_read.simps) (simp only: Let_def, simp add: g ref)
      qed
      moreover have "(if GENERATE_MAXLEN < n then GENERATE_MAXLEN else n) = ?n" by (simp add: GENERATE_MAXLEN_def min_def)
      ultimately show ?thesis using False one True sp gen IH out less.prems(2)
        by (subst read_loop.simps) (auto simp: seed_post_def Let_def split: prod.splits elim!: okp_mono)
    qed
  qed
qed


section \<open>Comparison of bytes\<close>

lemma fold_or_zero: "(fold (\<lambda>i rc. rc OR f i) is r = 0) = (r = 0 \<and> (\<forall>i \<in> set is. f i = (0 :: u8)))"
  by (induction "is" arbitrary: r) (auto simp: or_eq_0_iff)

lemma xor_eq_0: "(a XOR b = 0) = (a = (b :: u8))"
proof
  assume "a XOR b = 0"
  moreover have "a = (a XOR b) XOR b" by (simp add: xor.assoc)
  ultimately show "a = b" by simp
qed simp

lemma crypto_verify_bytes_zero:
  assumes "length a = n" "length b = n"
  shows "\<exists>r. crypto_verify_bytes a b n = Some r \<and> (r = 0) = (a = b)"
proof -
  have "(a = b) = (\<forall>i < n. a ! i = b ! i)" using assms by (simp add: list_eq_iff_nth_eq)
  then show ?thesis using assms by (simp add: crypto_verify_bytes_def mem_load_def fold_or_zero xor_eq_0 Ball_def)
qed


section \<open>Properties\<close>

text \<open>
  C17. \<open>crypto_entropy_read\<close> is HMAC_DRBG of NIST SP 800-90A over the bytes of \<open>/dev/urandom\<close> and
  the words of RDRAND.  If system calls are not interrupted for ever it returns, whatever they
  answer, and no assertion fails: the reseed counter stays within its limit and requests within
  theirs.  On success the buffer is full of what the reference gives from the same sources, with
  an instantiation at the first call and a reseed after every 256 requests of at most 65536
  bytes, and the state again agrees with the reference, also for the next call.  It fails only
  if a system call fails, leaves a state from which later calls are right, and frees every
  cookie.
\<close>

theorem crypto_entropy_is_hmac_drbg:
  assumes hm: "hm_wf hm" and fair: "os_fair os" and inv: "ent_inv st" and len: "length buf = n"
  shows "okp (crypto_entropy_read hm os p st buf n) (\<lambda>(rc, st', buf', p').
    (rc = 0 \<or> rc = -1) \<and> (os_good os \<longrightarrow> rc = 0) \<and> ent_inv st' \<and> length buf' = n \<and> p_cookies p' = p_cookies p \<and>
    (rc = 0 \<longrightarrow> p_fds p' = p_fds p \<and> instantiated st' \<and>
      (buf', ref_of (drbg st') p') =
        ref_read os (if instantiated st then ref_of (drbg st) p else ref_instantiate os (ref_of (drbg st) p)) n))"
proof (cases "instantiated st")
  case True
  then have "drbg_inv (drbg st)" using inv by (simp add: ent_inv_def)
  then show ?thesis using True len read_loop_ok [OF hm fair, of "drbg st" 0 n buf p]
    by (auto simp: crypto_entropy_read_def wp_rules seed_post_def ent_inv_def drbg_inv_def elim!: okp_mono)
next
  case False
  show ?thesis
  proof (cases "os_atexit os (p_time p)")
    case F: False
    then have "\<not> os_good os" by (auto simp: os_good_def)
    then show ?thesis using F False inv len by (simp add: crypto_entropy_read_def)
  next
    case True
    obtain rc d p1 where one: "instantiate hm os (tick p) (drbg st) = Some (rc, d, p1)" "seed_post os (tick p) rc p1"
      "if rc = 0 then drbg_wf d \<and> reseed_counter d = 1 \<and> ref_of d p1 = ref_instantiate os (ref_of (drbg st) (tick p)) else d = drbg st"
      using instantiate_ok [OF hm fair, of "tick p" "drbg st"] by (auto simp: okp_iff)
    have t: "ref_of (drbg st) (tick p) = ref_of (drbg st) p" by (simp add: ref_of_def)
    show ?thesis
    proof (cases "rc = 0")
      case F: False
      then show ?thesis using one True False inv len
        by (auto simp: crypto_entropy_read_def Let_def seed_post_def ent_inv_def)
    next
      case rc: True
      then have "drbg_inv d" using one by (simp add: drbg_inv_def)
      from read_loop_ok [OF hm fair this, of 0 n buf p1] show ?thesis using one True False rc len t
        by (auto simp: crypto_entropy_read_def wp_rules Let_def seed_post_def ent_inv_def drbg_inv_def elim!: okp_mono)
    qed
  qed
qed

text \<open>A system that delivers one byte per read, is interrupted on every other call, and has no RDRAND.\<close>

definition toy_os :: os where
  "toy_os = \<lparr>os_malloc = \<lambda>_. True, os_open = \<lambda>_. True,
     os_read = \<lambda>t. if even t then Read_EINTR else Read_count 1, os_close = \<lambda>t. if even t then Close_EINTR else Close_ok,
     os_atexit = \<lambda>_. True, os_urandom = \<lambda>i. of_nat (7 * i), os_cpu_rdrand = False, os_rdrand = \<lambda>_. None\<rparr>"

theorem crypto_entropy_is_hmac_drbg_witness:
  "okp (crypto_entropy_read hm_ctx0 toy_os \<lparr>p_time = 0, p_urpos = 0, p_rdpos = 0, p_cookies = 0, p_fds = 3\<rparr>
      \<lparr>drbg = \<lparr>Key = replicate 32 0, V = replicate 32 0, reseed_counter = 0\<rparr>, instantiated = False, atexit_handlers = 0\<rparr>
      (replicate 70000 0) 70000) (\<lambda>(rc, st', buf', p'). rc = 0 \<and> instantiated st' \<and> p_cookies p' = 0 \<and> p_fds p' = 3)"
proof -
  have "os_fair toy_os" unfolding os_fair_def
  proof (intro allI conjI)
    fix t
    show "\<exists>t' \<ge> t. os_read toy_os t' \<noteq> Read_EINTR" by (intro exI [of _ "2 * t + 1"]) (simp add: toy_os_def)
    show "\<exists>t' \<ge> t. os_close toy_os t' \<noteq> Close_EINTR" by (intro exI [of _ "2 * t + 1"]) (simp add: toy_os_def)
  qed
  moreover have "hm_wf hm_ctx0" by (simp add: hm_wf_def hm_ctx0_def sha_ctx0_def)
  moreover have "ent_inv \<lparr>drbg = \<lparr>Key = replicate 32 0, V = replicate 32 0, reseed_counter = 0\<rparr>, instantiated = False, atexit_handlers = 0\<rparr>"
    by (simp add: ent_inv_def drbg_wf_def)
  moreover define buf where "buf = replicate 70000 (0 :: u8)"
  moreover have "length buf = 70000" unfolding buf_def by (rule length_replicate)
  moreover have "os_good toy_os" by (simp add: os_good_def toy_os_def)
  ultimately show ?thesis
    unfolding buf_def [symmetric] by (intro okp_mono [OF crypto_entropy_is_hmac_drbg]) auto
qed

end
