(* ===== verification/Crypto_Dh.thy ===== *)
theory Crypto_Dh
  imports Prelude
begin

text \<open>
  Diffie-Hellman key exchange in group 14: \<open>crypto/crypto_dh.c\<close> and \<open>crypto/crypto_dh_group14.c\<close>.
  The big number functions of OpenSSL are a parameter: functions on a world \<open>'w\<close>, with numbers
  named by pointers.  What their documentation says is the hypothesis \<open>bn_contract\<close>, in terms of
  the numbers and the contexts that are allocated in a world; it says nothing of a call with a
  pointer that is not allocated.  The blinding bytes are the answer of \<open>crypto_entropy_read\<close>.
\<close>

section \<open>Definitions\<close>

record 'w openssl =
  BN_bin2bn :: "bytes \<Rightarrow> 'w \<Rightarrow> nat option \<times> 'w"
  BN_new :: "'w \<Rightarrow> nat option \<times> 'w"
  BN_set_word :: "nat \<Rightarrow> nat \<Rightarrow> 'w \<Rightarrow> bool \<times> 'w"
  BN_add :: "nat \<Rightarrow> nat \<Rightarrow> nat \<Rightarrow> 'w \<Rightarrow> bool \<times> 'w"
  BN_sub :: "nat \<Rightarrow> nat \<Rightarrow> nat \<Rightarrow> 'w \<Rightarrow> bool \<times> 'w"
  BN_mod_exp :: "nat \<Rightarrow> nat \<Rightarrow> nat \<Rightarrow> nat \<Rightarrow> nat \<Rightarrow> 'w \<Rightarrow> bool \<times> 'w"
  BN_mod_mul :: "nat \<Rightarrow> nat \<Rightarrow> nat \<Rightarrow> nat \<Rightarrow> nat \<Rightarrow> 'w \<Rightarrow> bool \<times> 'w"
  BN_num_bytes :: "nat \<Rightarrow> 'w \<Rightarrow> int"
  BN_bn2bin :: "nat \<Rightarrow> 'w \<Rightarrow> bytes"
  BN_free :: "nat \<Rightarrow> 'w \<Rightarrow> 'w"
  BN_clear_free :: "nat \<Rightarrow> 'w \<Rightarrow> 'w"
  BN_CTX_new :: "'w \<Rightarrow> nat option \<times> 'w"
  BN_CTX_free :: "nat \<Rightarrow> 'w \<Rightarrow> 'w"

definition CRYPTO_DH_PRIVLEN :: nat where "CRYPTO_DH_PRIVLEN = 32"
definition CRYPTO_DH_PUBLEN :: nat where "CRYPTO_DH_PUBLEN = 256"

definition two_exp_256 :: bytes where
  "two_exp_256 = 0x01 # replicate 32 0x00"

definition crypto_dh_group14 :: bytes where
  "crypto_dh_group14 =
    [0xff, 0xff, 0xff, 0xff, 0xff, 0xff, 0xff, 0xff, 0xc9, 0x0f, 0xda, 0xa2, 0x21, 0x68, 0xc2, 0x34,
     0xc4, 0xc6, 0x62, 0x8b, 0x80, 0xdc, 0x1c, 0xd1, 0x29, 0x02, 0x4e, 0x08, 0x8a, 0x67, 0xcc, 0x74,
     0x02, 0x0b, 0xbe, 0xa6, 0x3b, 0x13, 0x9b, 0x22, 0x51, 0x4a, 0x08, 0x79, 0x8e, 0x34, 0x04, 0xdd,
     0xef, 0x95, 0x19, 0xb3, 0xcd, 0x3a, 0x43, 0x1b, 0x30, 0x2b, 0x0a, 0x6d, 0xf2, 0x5f, 0x14, 0x37,
     0x4f, 0xe1, 0x35, 0x6d, 0x6d, 0x51, 0xc2, 0x45, 0xe4, 0x85, 0xb5, 0x76, 0x62, 0x5e, 0x7e, 0xc6,
     0xf4, 0x4c, 0x42, 0xe9, 0xa6, 0x37, 0xed, 0x6b, 0x0b, 0xff, 0x5c, 0xb6, 0xf4, 0x06, 0xb7, 0xed,
     0xee, 0x38, 0x6b, 0xfb, 0x5a, 0x89, 0x9f, 0xa5, 0xae, 0x9f, 0x24, 0x11, 0x7c, 0x4b, 0x1f, 0xe6,
     0x49, 0x28, 0x66, 0x51, 0xec, 0xe4, 0x5b, 0x3d, 0xc2, 0x00, 0x7c, 0xb8, 0xa1, 0x63, 0xbf, 0x05,
     0x98, 0xda, 0x48, 0x36, 0x1c, 0x55, 0xd3, 0x9a, 0x69, 0x16, 0x3f, 0xa8, 0xfd, 0x24, 0xcf, 0x5f,
     0x83, 0x65, 0x5d, 0x23, 0xdc, 0xa3, 0xad, 0x96, 0x1c, 0x62, 0xf3, 0x56, 0x20, 0x85, 0x52, 0xbb,
     0x9e, 0xd5, 0x29, 0x07, 0x70, 0x96, 0x96, 0x6d, 0x67, 0x0c, 0x35, 0x4e, 0x4a, 0xbc, 0x98, 0x04,
     0xf1, 0x74, 0x6c, 0x08, 0xca, 0x18, 0x21, 0x7c, 0x32, 0x90, 0x5e, 0x46, 0x2e, 0x36, 0xce, 0x3b,
     0xe3, 0x9e, 0x77, 0x2c, 0x18, 0x0e, 0x86, 0x03, 0x9b, 0x27, 0x83, 0xa2, 0xec, 0x07, 0xa2, 0x8f,
     0xb5, 0xc5, 0x5d, 0xf0, 0x6f, 0x4c, 0x52, 0xc9, 0xde, 0x2b, 0xcb, 0xf6, 0x95, 0x58, 0x17, 0x18,
     0x39, 0x95, 0x49, 0x7c, 0xea, 0x95, 0x6a, 0xe5, 0x15, 0xd2, 0x26, 0x18, 0x98, 0xfa, 0x05, 0x10,
     0x15, 0x72, 0x8e, 0x5a, 0x8a, 0xac, 0xaa, 0x68, 0xff, 0xff, 0xff, 0xff, 0xff, 0xff, 0xff, 0xff]"

text \<open>
  An allocation, what is done with the object, and its release, which the code does on the way
  out, whether it is successful or not.  A function returns \<open>None\<close> for -1.
\<close>

definition with_object ::
  "('w \<Rightarrow> nat option \<times> 'w) \<Rightarrow> (nat \<Rightarrow> 'w \<Rightarrow> 'w) \<Rightarrow> (nat \<Rightarrow> 'w \<Rightarrow> 'a option \<times> 'w) \<Rightarrow> 'w \<Rightarrow> 'a option \<times> 'w" where
  "with_object new free body w =
     (case new w of
        (None, w) \<Rightarrow> (None, w)
      | (Some x, w) \<Rightarrow> (case body x w of (res, w) \<Rightarrow> (res, free x w)))"

text \<open>A call that can fail, and what follows if it does not.\<close>

definition attempt :: "('w \<Rightarrow> bool \<times> 'w) \<Rightarrow> ('w \<Rightarrow> 'a option \<times> 'w) \<Rightarrow> 'w \<Rightarrow> 'a option \<times> 'w" where
  "attempt call rest w = (case call w of (ok, w) \<Rightarrow> if ok then rest w else (None, w))"

text \<open>The result of the exponentiation as a big-endian number of fixed length.\<close>

definition export_result :: "'w openssl \<Rightarrow> nat \<Rightarrow> 'w \<Rightarrow> bytes option \<times> 'w" where
  "export_result L r1 w =
     (let rlen = BN_num_bytes L r1 w in
      if rlen < 0 then (None, w)
      else if rlen > int CRYPTO_DH_PUBLEN then (None, w)
      else (Some (replicate (CRYPTO_DH_PUBLEN - nat rlen) 0 @ BN_bn2bin L r1 w), w))"

definition blinded_modexp :: "'w openssl \<Rightarrow> bytes option \<Rightarrow> nat \<Rightarrow> bytes \<Rightarrow> 'w \<Rightarrow> bytes option \<times> 'w" where
  "blinded_modexp L blinding a priv =
     with_object (BN_bin2bn L two_exp_256) (BN_free L) (\<lambda>two_exp_256_bn.
     with_object (BN_bin2bn L (take CRYPTO_DH_PRIVLEN priv)) (BN_clear_free L) (\<lambda>priv_bn.
     attempt (BN_add L priv_bn priv_bn two_exp_256_bn) (
     attempt (BN_add L priv_bn priv_bn two_exp_256_bn) (
     attempt (BN_add L priv_bn priv_bn two_exp_256_bn) (
     attempt (BN_add L priv_bn priv_bn two_exp_256_bn) (
     case blinding of
       None \<Rightarrow> (\<lambda>w. (None, w))
     | Some blinding \<Rightarrow>
     with_object (BN_bin2bn L (take CRYPTO_DH_PRIVLEN blinding)) (BN_clear_free L) (\<lambda>blinding_bn.
     attempt (BN_add L blinding_bn blinding_bn two_exp_256_bn) (
     with_object (BN_new L) (BN_clear_free L) (\<lambda>priv_blinded.
     attempt (BN_sub L priv_blinded priv_bn blinding_bn) (
     with_object (BN_bin2bn L (take 256 crypto_dh_group14)) (BN_free L) (\<lambda>m_bn.
     with_object (BN_CTX_new L) (BN_CTX_free L) (\<lambda>ctx.
     with_object (BN_new L) (BN_clear_free L) (\<lambda>r1.
     with_object (BN_new L) (BN_clear_free L) (\<lambda>r2.
     attempt (BN_mod_exp L r1 a blinding_bn m_bn ctx) (
     attempt (BN_mod_exp L r2 a priv_blinded m_bn ctx) (
     attempt (BN_mod_mul L r1 r1 r2 m_bn ctx) (
     export_result L r1)))))))))))))))))"

definition crypto_dh_generate_pub :: "'w openssl \<Rightarrow> bytes option \<Rightarrow> bytes \<Rightarrow> 'w \<Rightarrow> bytes option \<times> 'w" where
  "crypto_dh_generate_pub L blinding priv =
     with_object (BN_new L) (BN_free L) (\<lambda>two.
     attempt (BN_set_word L two 2) (blinded_modexp L blinding two priv))"

text \<open>The result is the public and the private key.\<close>

definition crypto_dh_generate ::
  "'w openssl \<Rightarrow> bytes option \<Rightarrow> bytes option \<Rightarrow> 'w \<Rightarrow> (bytes \<times> bytes) option \<times> 'w" where
  "crypto_dh_generate L random blinding w =
     (case random of
        None \<Rightarrow> (None, w)
      | Some priv \<Rightarrow>
          (case crypto_dh_generate_pub L blinding priv w of
             (None, w) \<Rightarrow> (None, w)
           | (Some pub, w) \<Rightarrow> (Some (pub, priv), w)))"

definition crypto_dh_compute :: "'w openssl \<Rightarrow> bytes option \<Rightarrow> bytes \<Rightarrow> bytes \<Rightarrow> 'w \<Rightarrow> bytes option \<times> 'w" where
  "crypto_dh_compute L blinding pub priv =
     with_object (BN_bin2bn L (take CRYPTO_DH_PUBLEN pub)) (BN_free L) (\<lambda>a. blinded_modexp L blinding a priv)"

fun memcmp :: "bytes \<Rightarrow> bytes \<Rightarrow> nat \<Rightarrow> int option" where
  "memcmp a b 0 = Some 0"
| "memcmp (x # a) (y # b) (Suc n) = (if x = y then memcmp a b n else Some (if x < y then -1 else 1))"
| "memcmp _ _ (Suc n) = None"

definition crypto_dh_sanitycheck :: "bytes \<Rightarrow> int option" where
  "crypto_dh_sanitycheck pub = do {
     c \<leftarrow> memcmp pub crypto_dh_group14 256;
     if c \<ge> 0 then Some (-1) else Some 0
   }"


section \<open>Big-endian numbers\<close>

fun be_num :: "bytes \<Rightarrow> nat" where
  "be_num [] = 0"
| "be_num (b # bs) = unat b * 256 ^ length bs + be_num bs"

lemma byte_bound: "unat (b :: u8) < 256"
  using unsigned_less [of b, where ?'a = nat] by simp

lemma be_num_less: "be_num bs < 256 ^ length bs"
proof (induction bs)
  case (Cons b bs)
  have "unat b * 256 ^ length bs + be_num bs < unat b * 256 ^ length bs + 256 ^ length bs" using Cons by simp
  also have "\<dots> = (unat b + 1) * 256 ^ length bs" by simp
  also have "\<dots> \<le> 256 * 256 ^ length bs" using byte_bound [of b] by (intro mult_right_mono) simp_all
  finally show ?case by simp
qed simp

lemma be_num_zeros [simp]: "be_num (replicate n 0 @ bs) = be_num bs"
  by (induction n) simp_all

lemma be_num_less_iff:
  "length a = length b \<Longrightarrow> be_num (x # a) < be_num (y # b) \<longleftrightarrow> x < y \<or> x = y \<and> be_num a < be_num b"
proof -
  assume len: "length a = length b"
  have less: "be_num (u # a) < be_num (v # b)" if "length a = length b" "u < v" for u v a b
  proof -
    have "be_num (u # a) < unat u * 256 ^ length a + 256 ^ length a" using be_num_less [of a] by simp
    also have "\<dots> = (unat u + 1) * 256 ^ length b" using that(1) by simp
    also have "\<dots> \<le> unat v * 256 ^ length b" using that(2) by (intro mult_right_mono) (simp_all add: word_less_nat_alt)
    finally show ?thesis by simp
  qed
  show ?thesis
  proof (cases x y rule: linorder_cases)
    case greater
    then show ?thesis using less [of b a y x] len by auto
  qed (use less len in auto)
qed

lemma be_num_inject: "length a = length b \<Longrightarrow> be_num a = be_num b \<Longrightarrow> a = b"
proof (induction a b rule: list_induct2)
  case (Cons x a y b)
  then show ?case using be_num_less_iff [of a b x y] be_num_less_iff [of b a y x]
    by (cases x y rule: linorder_cases) auto
qed simp

lemma memcmp_be_num:
  "length a = n \<Longrightarrow> length b = n \<Longrightarrow> \<exists>c. memcmp a b n = Some c \<and> (c < 0 \<longleftrightarrow> be_num a < be_num b)"
proof (induction a b n rule: memcmp.induct)
  case (2 x a y b n)
  then show ?case using be_num_less_iff [of a b x y] by (auto simp del: be_num.simps)
qed simp_all

lemma length_group14 [simp]: "length crypto_dh_group14 = 256"
  by (simp add: crypto_dh_group14_def)


section \<open>What OpenSSL promises\<close>

text \<open>
  \<open>heap\<close> are the numbers that are allocated and \<open>ctxs\<close> the contexts.  A call that fails may
  leave anything in the number that it was to write, and an allocation that fails does nothing.
\<close>

definition allocates :: "('w \<Rightarrow> nat \<rightharpoonup> int) \<Rightarrow> ('w \<Rightarrow> nat set) \<Rightarrow> ('w \<Rightarrow> nat option \<times> 'w) \<Rightarrow> (int \<Rightarrow> bool) \<Rightarrow> bool" where
  "allocates heap ctxs f P \<longleftrightarrow>
     (\<forall>w. case f w of
        (None, w') \<Rightarrow> heap w' = heap w \<and> ctxs w' = ctxs w
      | (Some x, w') \<Rightarrow> x \<notin> dom (heap w) \<and> ctxs w' = ctxs w \<and> (\<exists>v. heap w' = (heap w)(x \<mapsto> v) \<and> P v))"

definition frees :: "('w \<Rightarrow> nat \<rightharpoonup> int) \<Rightarrow> ('w \<Rightarrow> nat set) \<Rightarrow> (nat \<Rightarrow> 'w \<Rightarrow> 'w) \<Rightarrow> bool" where
  "frees heap ctxs f \<longleftrightarrow>
     (\<forall>x w. x \<in> dom (heap w) \<longrightarrow> heap (f x w) = (heap w)(x := None) \<and> ctxs (f x w) = ctxs w)"

definition writes :: "('w \<Rightarrow> nat \<rightharpoonup> int) \<Rightarrow> ('w \<Rightarrow> nat set) \<Rightarrow> nat \<Rightarrow> int \<Rightarrow> 'w \<Rightarrow> bool \<times> 'w \<Rightarrow> bool" where
  "writes heap ctxs r v w res \<longleftrightarrow>
     ctxs (snd res) = ctxs w \<and> (\<exists>u. heap (snd res) = (heap w)(r \<mapsto> u) \<and> (fst res \<longrightarrow> u = v))"

definition objects_ok :: "'w openssl \<Rightarrow> ('w \<Rightarrow> nat \<rightharpoonup> int) \<Rightarrow> ('w \<Rightarrow> nat set) \<Rightarrow> bool" where
  "objects_ok L heap ctxs \<longleftrightarrow>
     (\<forall>bs. allocates heap ctxs (BN_bin2bn L bs) (\<lambda>v. v = int (be_num bs))) \<and> allocates heap ctxs (BN_new L) (\<lambda>v. True) \<and>
     frees heap ctxs (BN_free L) \<and> frees heap ctxs (BN_clear_free L)"

definition ctx_ok :: "'w openssl \<Rightarrow> ('w \<Rightarrow> nat \<rightharpoonup> int) \<Rightarrow> ('w \<Rightarrow> nat set) \<Rightarrow> bool" where
  "ctx_ok L heap ctxs \<longleftrightarrow>
     (\<forall>w. case BN_CTX_new L w of
        (None, w') \<Rightarrow> heap w' = heap w \<and> ctxs w' = ctxs w
      | (Some c, w') \<Rightarrow> c \<notin> ctxs w \<and> heap w' = heap w \<and> ctxs w' = insert c (ctxs w)) \<and>
     (\<forall>c w. c \<in> ctxs w \<longrightarrow> heap (BN_CTX_free L c w) = heap w \<and> ctxs (BN_CTX_free L c w) = ctxs w - {c})"

definition sums_ok :: "'w openssl \<Rightarrow> ('w \<Rightarrow> nat \<rightharpoonup> int) \<Rightarrow> ('w \<Rightarrow> nat set) \<Rightarrow> bool" where
  "sums_ok L heap ctxs \<longleftrightarrow>
     (\<forall>r n w. r \<in> dom (heap w) \<longrightarrow> writes heap ctxs r (int n) w (BN_set_word L r n w)) \<and>
     (\<forall>r a b w x y. r \<in> dom (heap w) \<and> heap w a = Some x \<and> heap w b = Some y \<longrightarrow>
        writes heap ctxs r (x + y) w (BN_add L r a b w) \<and> writes heap ctxs r (x - y) w (BN_sub L r a b w))"

definition mods_ok :: "'w openssl \<Rightarrow> ('w \<Rightarrow> nat \<rightharpoonup> int) \<Rightarrow> ('w \<Rightarrow> nat set) \<Rightarrow> bool" where
  "mods_ok L heap ctxs \<longleftrightarrow>
     (\<forall>r a b m c w x y z. r \<in> dom (heap w) \<and> heap w a = Some x \<and> heap w b = Some y \<and> heap w m = Some z \<and>
        c \<in> ctxs w \<and> 0 < z \<longrightarrow>
        (0 \<le> y \<longrightarrow> writes heap ctxs r (x ^ nat y mod z) w (BN_mod_exp L r a b m c w)) \<and>
        writes heap ctxs r (x * y mod z) w (BN_mod_mul L r a b m c w))"

definition bytes_ok :: "'w openssl \<Rightarrow> ('w \<Rightarrow> nat \<rightharpoonup> int) \<Rightarrow> bool" where
  "bytes_ok L heap \<longleftrightarrow>
     (\<forall>r w v. heap w r = Some v \<and> 0 \<le> v \<longrightarrow>
        (\<forall>n. v < 256 ^ n \<longleftrightarrow> BN_num_bytes L r w \<le> int n) \<and> 0 \<le> BN_num_bytes L r w \<and>
        length (BN_bn2bin L r w) = nat (BN_num_bytes L r w) \<and> int (be_num (BN_bn2bin L r w)) = v)"

definition bn_contract :: "'w openssl \<Rightarrow> ('w \<Rightarrow> nat \<rightharpoonup> int) \<Rightarrow> ('w \<Rightarrow> nat set) \<Rightarrow> bool" where
  "bn_contract L heap ctxs \<longleftrightarrow>
     objects_ok L heap ctxs \<and> ctx_ok L heap ctxs \<and> sums_ok L heap ctxs \<and> mods_ok L heap ctxs \<and> bytes_ok L heap"

lemma bn_ctx:
  assumes "bn_contract L heap ctxs"
  shows "case BN_CTX_new L w of
        (None, w') \<Rightarrow> heap w' = heap w \<and> ctxs w' = ctxs w
      | (Some c, w') \<Rightarrow> c \<notin> ctxs w \<and> heap w' = heap w \<and> ctxs w' = insert c (ctxs w)"
    and "c \<in> ctxs w \<Longrightarrow> heap (BN_CTX_free L c w) = heap w \<and> ctxs (BN_CTX_free L c w) = ctxs w - {c}"
proof -
  have ok: "ctx_ok L heap ctxs" using assms by (simp add: bn_contract_def)
  show "case BN_CTX_new L w of
        (None, w') \<Rightarrow> heap w' = heap w \<and> ctxs w' = ctxs w
      | (Some c, w') \<Rightarrow> c \<notin> ctxs w \<and> heap w' = heap w \<and> ctxs w' = insert c (ctxs w)"
    by (rule ok [unfolded ctx_ok_def, THEN conjunct1, THEN spec])
  show "c \<in> ctxs w \<Longrightarrow> heap (BN_CTX_free L c w) = heap w \<and> ctxs (BN_CTX_free L c w) = ctxs w - {c}"
    using ok unfolding ctx_ok_def by blast
qed

lemma bn_objects:
  assumes "bn_contract L heap ctxs"
  shows "allocates heap ctxs (BN_bin2bn L bs) (\<lambda>v. v = int (be_num bs))" "allocates heap ctxs (BN_new L) (\<lambda>v. True)"
    "frees heap ctxs (BN_free L)" "frees heap ctxs (BN_clear_free L)"
  using assms by (simp_all add: bn_contract_def objects_ok_def)

lemma bn_writes:
  assumes "bn_contract L heap ctxs" "r \<in> dom (heap w)"
  shows "writes heap ctxs r (int n) w (BN_set_word L r n w)"
    and "heap w a = Some x \<Longrightarrow> heap w b = Some y \<Longrightarrow> writes heap ctxs r (x + y) w (BN_add L r a b w)"
    and "heap w a = Some x \<Longrightarrow> heap w b = Some y \<Longrightarrow> writes heap ctxs r (x - y) w (BN_sub L r a b w)"
    and "heap w a = Some x \<Longrightarrow> heap w b = Some y \<Longrightarrow> heap w m = Some z \<Longrightarrow> c \<in> ctxs w \<Longrightarrow> 0 < z \<Longrightarrow> 0 \<le> y \<Longrightarrow>
      writes heap ctxs r (x ^ nat y mod z) w (BN_mod_exp L r a b m c w)"
    and "heap w a = Some x \<Longrightarrow> heap w b = Some y \<Longrightarrow> heap w m = Some z \<Longrightarrow> c \<in> ctxs w \<Longrightarrow> 0 < z \<Longrightarrow>
      writes heap ctxs r (x * y mod z) w (BN_mod_mul L r a b m c w)"
proof -
  have "sums_ok L heap ctxs" "mods_ok L heap ctxs" using assms by (simp_all add: bn_contract_def)
  then show "writes heap ctxs r (int n) w (BN_set_word L r n w)"
    and "heap w a = Some x \<Longrightarrow> heap w b = Some y \<Longrightarrow> writes heap ctxs r (x + y) w (BN_add L r a b w)"
    and "heap w a = Some x \<Longrightarrow> heap w b = Some y \<Longrightarrow> writes heap ctxs r (x - y) w (BN_sub L r a b w)"
    and "heap w a = Some x \<Longrightarrow> heap w b = Some y \<Longrightarrow> heap w m = Some z \<Longrightarrow> c \<in> ctxs w \<Longrightarrow> 0 < z \<Longrightarrow> 0 \<le> y \<Longrightarrow>
      writes heap ctxs r (x ^ nat y mod z) w (BN_mod_exp L r a b m c w)"
    and "heap w a = Some x \<Longrightarrow> heap w b = Some y \<Longrightarrow> heap w m = Some z \<Longrightarrow> c \<in> ctxs w \<Longrightarrow> 0 < z \<Longrightarrow>
      writes heap ctxs r (x * y mod z) w (BN_mod_mul L r a b m c w)"
    using assms(2) unfolding sums_ok_def mods_ok_def by blast+
qed

lemma bn_export:
  assumes "bn_contract L heap ctxs" "heap w r = Some v" "0 \<le> v"
  shows "(\<forall>n. v < 256 ^ n \<longleftrightarrow> BN_num_bytes L r w \<le> int n) \<and> 0 \<le> BN_num_bytes L r w \<and>
    length (BN_bn2bin L r w) = nat (BN_num_bytes L r w) \<and> int (be_num (BN_bn2bin L r w)) = v"
proof -
  have "bytes_ok L heap" using assms(1) by (simp add: bn_contract_def)
  then show ?thesis using assms(2, 3) unfolding bytes_ok_def by blast
qed

text \<open>No call ever fails.\<close>

definition bn_reliable :: "'w openssl \<Rightarrow> bool" where
  "bn_reliable L \<longleftrightarrow>
     (\<forall>bs w. fst (BN_bin2bn L bs w) \<noteq> None) \<and> (\<forall>w. fst (BN_new L w) \<noteq> None) \<and> (\<forall>w. fst (BN_CTX_new L w) \<noteq> None) \<and>
     (\<forall>r n w. fst (BN_set_word L r n w)) \<and>
     (\<forall>r a b w. fst (BN_add L r a b w) \<and> fst (BN_sub L r a b w)) \<and>
     (\<forall>r a b m c w. fst (BN_mod_exp L r a b m c w) \<and> fst (BN_mod_mul L r a b m c w))"


section \<open>Steps\<close>

text \<open>
  From heap \<open>H\<close> and contexts \<open>C\<close> the call comes back to them, with a result for which \<open>P\<close> holds;
  it fails only if \<open>fine\<close> does not hold.
\<close>

definition gives :: "('w \<Rightarrow> nat \<rightharpoonup> int) \<Rightarrow> ('w \<Rightarrow> nat set) \<Rightarrow> bool \<Rightarrow> (nat \<rightharpoonup> int) \<Rightarrow> nat set \<Rightarrow> ('a \<Rightarrow> bool) \<Rightarrow> ('w \<Rightarrow> 'a option \<times> 'w) \<Rightarrow> nat set \<Rightarrow> bool" where
  "gives heap ctxs fine H C P f X \<longleftrightarrow>
     (\<forall>w. heap w = H \<and> ctxs w = C \<longrightarrow>
        (case f w of (res, w') \<Rightarrow> (\<forall>x. x \<notin> X \<longrightarrow> heap w' x = H x) \<and> dom (heap w') = dom H \<and> ctxs w' = C \<and>
           (\<forall>r. res = Some r \<longrightarrow> P r) \<and> (fine \<longrightarrow> res \<noteq> None)))"

lemma gives_None: "\<not> fine \<Longrightarrow> gives heap ctxs fine H C P (\<lambda>w. (None, w)) X"
  by (simp add: gives_def)

lemma gives_with_object:
  assumes new: "allocates heap ctxs new Q" and free: "frees heap ctxs fr" and fine: "fine \<Longrightarrow> \<forall>w. fst (new w) \<noteq> None"
    and body: "\<And>x v. x \<notin> dom H \<Longrightarrow> Q v \<Longrightarrow> gives heap ctxs fine (H(x \<mapsto> v)) C P (body x) (insert x X)"
  shows "gives heap ctxs fine H C P (with_object new fr body) X"
  unfolding gives_def
proof (intro allI impI)
  fix w assume w: "heap w = H \<and> ctxs w = C"
  show "case with_object new fr body w of (res, w') \<Rightarrow> (\<forall>x. x \<notin> X \<longrightarrow> heap w' x = H x) \<and> dom (heap w') = dom H \<and> ctxs w' = C \<and>
      (\<forall>r. res = Some r \<longrightarrow> P r) \<and> (fine \<longrightarrow> res \<noteq> None)"
  proof (cases "new w")
    case (Pair p w1)
    show ?thesis
    proof (cases p)
      case None
      moreover have "\<not> fine" using fine None Pair by (metis fst_conv)
      ultimately show ?thesis using Pair w None new [unfolded allocates_def, THEN spec, of w] by (auto simp: with_object_def)
    next
      case (Some x)
      then obtain v where x: "x \<notin> dom H" "ctxs w1 = C" "heap w1 = H(x \<mapsto> v)" "Q v"
        using new [unfolded allocates_def, THEN spec, of w] Pair w by auto
      obtain res w2 where b: "body x w1 = (res, w2)" by fastforce
      then have 2: "\<forall>y. y \<notin> insert x X \<longrightarrow> heap w2 y = (H(x \<mapsto> v)) y" "dom (heap w2) = insert x (dom H)" "ctxs w2 = C"
        "\<forall>r. res = Some r \<longrightarrow> P r" "fine \<longrightarrow> res \<noteq> None"
        using body [OF x(1) x(4), unfolded gives_def, THEN spec, of w1] x by simp_all
      then have "heap (fr x w2) = (heap w2)(x := None)" "ctxs (fr x w2) = C" using free by (auto simp: frees_def)
      then show ?thesis using 2 b Pair Some x(1) by (auto simp: with_object_def domIff)
    qed
  qed
qed

lemma gives_attempt:
  assumes call: "\<And>w. heap w = H \<Longrightarrow> ctxs w = C \<Longrightarrow> writes heap ctxs r v w (call w)" and r: "r \<in> X" "r \<in> dom H"
    and fine: "fine \<Longrightarrow> \<forall>w. fst (call w)"
    and rest: "gives heap ctxs fine (H(r \<mapsto> v)) C P rest X"
  shows "gives heap ctxs fine H C P (attempt call rest) X"
  unfolding gives_def
proof (intro allI impI)
  fix w assume w: "heap w = H \<and> ctxs w = C"
  obtain ok w1 where c: "call w = (ok, w1)" by fastforce
  then obtain u where w1: "ctxs w1 = C" "heap w1 = H(r \<mapsto> u)" "ok \<longrightarrow> u = v"
    using call [of w] w by (auto simp: writes_def)
  show "case attempt call rest w of (res, w') \<Rightarrow> (\<forall>x. x \<notin> X \<longrightarrow> heap w' x = H x) \<and> dom (heap w') = dom H \<and> ctxs w' = C \<and>
      (\<forall>r. res = Some r \<longrightarrow> P r) \<and> (fine \<longrightarrow> res \<noteq> None)"
  proof (cases ok)
    case True
    obtain res w2 where b: "rest w1 = (res, w2)" by fastforce
    then have 2: "\<forall>y. y \<notin> X \<longrightarrow> heap w2 y = (H(r \<mapsto> v)) y" "dom (heap w2) = dom (H(r \<mapsto> v))" "ctxs w2 = C"
      "\<forall>r. res = Some r \<longrightarrow> P r" "fine \<longrightarrow> res \<noteq> None"
      using rest [unfolded gives_def, THEN spec, of w1] w1 True by simp_all
    have "dom (heap w2) = dom H" unfolding 2(2) using r(2) by auto
    then show ?thesis using c b True r(1) 2(1, 3-5) by (auto simp: attempt_def)
  next
    case False
    then have "\<not> fine" using fine c by (metis fst_conv)
    then show ?thesis using c False w1 r by (auto simp: attempt_def)
  qed
qed


text \<open>A context instead of a number.\<close>

lemma gives_with_ctx:
  assumes L: "bn_contract L heap ctxs" and fine: "fine \<Longrightarrow> \<forall>w. fst (BN_CTX_new L w) \<noteq> None"
    and body: "\<And>c. c \<notin> C \<Longrightarrow> gives heap ctxs fine H (insert c C) P (body c) X"
  shows "gives heap ctxs fine H C P (with_object (BN_CTX_new L) (BN_CTX_free L) body) X"
  unfolding gives_def
proof (intro allI impI)
  fix w assume w: "heap w = H \<and> ctxs w = C"
  note new = bn_ctx(1) [OF L, of w] and free = bn_ctx(2) [OF L]
  show "case with_object (BN_CTX_new L) (BN_CTX_free L) body w of (res, w') \<Rightarrow> (\<forall>x. x \<notin> X \<longrightarrow> heap w' x = H x) \<and>
      dom (heap w') = dom H \<and> ctxs w' = C \<and> (\<forall>r. res = Some r \<longrightarrow> P r) \<and> (fine \<longrightarrow> res \<noteq> None)"
  proof (cases "BN_CTX_new L w")
    case (Pair p w1)
    show ?thesis
    proof (cases p)
      case None
      moreover have "\<not> fine" using fine None Pair by (metis fst_conv)
      ultimately show ?thesis using Pair w new by (auto simp: with_object_def)
    next
      case (Some c)
      then have c: "c \<notin> C" "heap w1 = H" "ctxs w1 = insert c C" using new Pair w by auto
      obtain res w2 where b: "body c w1 = (res, w2)" by fastforce
      then have "\<forall>y. y \<notin> X \<longrightarrow> heap w2 y = H y" "dom (heap w2) = dom H" "ctxs w2 = insert c C"
        "\<forall>r. res = Some r \<longrightarrow> P r" "fine \<longrightarrow> res \<noteq> None"
        using body [OF c(1), unfolded gives_def, THEN spec, of w1] c by simp_all
      then show ?thesis using b Pair Some c(1) free [of c w2] by (auto simp: with_object_def)
    qed
  qed
qed

text \<open>The modulus, and the result of the exponentiation.\<close>

definition group_p :: nat where
  "group_p = be_num crypto_dh_group14"

lemma group_p_bounds: "0 < group_p" "group_p < 256 ^ 256"
proof -
  have "crypto_dh_group14 = 0xff # tl crypto_dh_group14" by (simp add: crypto_dh_group14_def)
  then have "be_num crypto_dh_group14 = unat (0xff :: u8) * 256 ^ length (tl crypto_dh_group14) + be_num (tl crypto_dh_group14)"
    by (metis be_num.simps(2))
  then show "0 < group_p" by (simp add: group_p_def)
  show "group_p < 256 ^ 256" using be_num_less [of crypto_dh_group14] by (simp add: group_p_def)
qed

definition dh_power :: "nat \<Rightarrow> bytes \<Rightarrow> bytes \<Rightarrow> bool" where
  "dh_power a priv r \<longleftrightarrow> length r = CRYPTO_DH_PUBLEN \<and> be_num r = a ^ (2 ^ 258 + be_num priv) mod group_p"

lemma gives_export:
  assumes L: "bn_contract L heap ctxs" and v: "H r1 = Some (int v)" "v < group_p"
    and P: "\<And>r. length r = CRYPTO_DH_PUBLEN \<Longrightarrow> be_num r = v \<Longrightarrow> P r"
  shows "gives heap ctxs fine H C P (export_result L r1) X"
  unfolding gives_def
proof (intro allI impI)
  fix w assume w: "heap w = H \<and> ctxs w = C"
  let ?n = "BN_num_bytes L r1 w"
  have n: "\<forall>n. int v < 256 ^ n \<longleftrightarrow> ?n \<le> int n" "0 \<le> ?n" "length (BN_bn2bin L r1 w) = nat ?n" "int (be_num (BN_bn2bin L r1 w)) = int v"
    using bn_export [OF L, of w r1 "int v"] w v(1) by auto
  have "int v < 256 ^ 256"
  proof -
    have "v < 256 ^ 256" using v(2) group_p_bounds(2) by (rule less_trans)
    then have "int v < int (256 ^ 256)" by (simp only: of_nat_less_iff)
    then show ?thesis by simp
  qed
  then have "?n \<le> 256" using n(1) [THEN spec, of 256] by simp
  then have "export_result L r1 w = (Some (replicate (256 - nat ?n) 0 @ BN_bn2bin L r1 w), w)"
    using n(2) by (simp add: export_result_def CRYPTO_DH_PUBLEN_def Let_def)
  moreover have "P (replicate (256 - nat ?n) 0 @ BN_bn2bin L r1 w)"
    using n(2-4) \<open>?n \<le> 256\<close> by (intro P) (simp_all add: CRYPTO_DH_PUBLEN_def)
  ultimately show "case export_result L r1 w of (res, w') \<Rightarrow> (\<forall>x. x \<notin> X \<longrightarrow> heap w' x = H x) \<and> dom (heap w') = dom H \<and>
      ctxs w' = C \<and> (\<forall>r. res = Some r \<longrightarrow> P r) \<and> (fine \<longrightarrow> res \<noteq> None)" using w by simp
qed

lemma be_two_exp_256: "be_num two_exp_256 = 2 ^ 256"
proof -
  have "be_num two_exp_256 = unat (1 :: u8) * 256 ^ 32 + be_num (replicate 32 0 @ [])" by (simp add: two_exp_256_def)
  then show ?thesis unfolding be_num_zeros by simp
qed

text \<open>The blinded exponents add up.\<close>

lemma blinded_power:
  "b + c = e \<Longrightarrow> ((a :: int) ^ b mod m) * (a ^ c mod m) mod m = a ^ e mod m"
  by (auto simp: mod_mult_eq power_add)


text \<open>The steps on numbers, from the contract.\<close>

lemma gives_bin2bn:
  assumes L: "bn_contract L heap ctxs" and fine: "fine \<Longrightarrow> bn_reliable L" and fr: "fr = BN_free L \<or> fr = BN_clear_free L"
    and body: "\<And>x. x \<notin> dom H \<Longrightarrow> gives heap ctxs fine (H(x \<mapsto> int (be_num bs))) C P (body x) (insert x X)"
  shows "gives heap ctxs fine H C P (with_object (BN_bin2bn L bs) fr body) X"
  using fr bn_objects [OF L] by (intro gives_with_object [OF bn_objects(1) [OF L]]) (auto dest: fine simp: bn_reliable_def intro: body)

lemma gives_new:
  assumes L: "bn_contract L heap ctxs" and fine: "fine \<Longrightarrow> bn_reliable L" and fr: "fr = BN_free L \<or> fr = BN_clear_free L"
    and body: "\<And>x v. x \<notin> dom H \<Longrightarrow> gives heap ctxs fine (H(x \<mapsto> v)) C P (body x) (insert x X)"
  shows "gives heap ctxs fine H C P (with_object (BN_new L) fr body) X"
  using fr bn_objects [OF L] by (intro gives_with_object [OF bn_objects(2) [OF L]]) (auto dest: fine simp: bn_reliable_def intro: body)

lemma gives_ctx:
  assumes L: "bn_contract L heap ctxs" and fine: "fine \<Longrightarrow> bn_reliable L"
    and body: "\<And>c. c \<notin> C \<Longrightarrow> gives heap ctxs fine H (insert c C) P (body c) X"
  shows "gives heap ctxs fine H C P (with_object (BN_CTX_new L) (BN_CTX_free L) body) X"
  by (rule gives_with_ctx [OF L]) (auto dest: fine simp: bn_reliable_def intro: body)

lemma gives_set_word:
  assumes L: "bn_contract L heap ctxs" and fine: "fine \<Longrightarrow> bn_reliable L" and r: "r \<in> X" "r \<in> dom H"
    and rest: "gives heap ctxs fine (H(r \<mapsto> int n)) C P rest X"
  shows "gives heap ctxs fine H C P (attempt (BN_set_word L r n) rest) X"
  by (rule gives_attempt [OF _ r _ rest]) (use r in \<open>auto dest: fine simp: bn_reliable_def intro: bn_writes(1) [OF L]\<close>)

lemma gives_add:
  assumes L: "bn_contract L heap ctxs" and fine: "fine \<Longrightarrow> bn_reliable L" and r: "r \<in> X" "r \<in> dom H"
    and ab: "H a = Some x" "H b = Some y"
    and rest: "gives heap ctxs fine (H(r \<mapsto> x + y)) C P rest X"
  shows "gives heap ctxs fine H C P (attempt (BN_add L r a b) rest) X"
  by (rule gives_attempt [OF _ r _ rest]) (use r ab in \<open>auto dest: fine simp: bn_reliable_def intro!: bn_writes(2) [OF L]\<close>)

lemma gives_inc:
  assumes L: "bn_contract L heap ctxs" and fine: "fine \<Longrightarrow> bn_reliable L" and r: "r \<in> X" "b \<noteq> r" "H b = Some y"
    and rest: "gives heap ctxs fine (H(r \<mapsto> x + y)) C P rest X"
  shows "gives heap ctxs fine (H(r \<mapsto> x)) C P (attempt (BN_add L r r b) rest) X"
  by (rule gives_add [OF L fine r(1)]) (use r rest in auto)

lemma gives_sub:
  assumes L: "bn_contract L heap ctxs" and fine: "fine \<Longrightarrow> bn_reliable L" and r: "r \<in> X" "r \<in> dom H"
    and ab: "H a = Some x" "H b = Some y"
    and rest: "gives heap ctxs fine (H(r \<mapsto> x - y)) C P rest X"
  shows "gives heap ctxs fine H C P (attempt (BN_sub L r a b) rest) X"
  by (rule gives_attempt [OF _ r _ rest]) (use r ab in \<open>auto dest: fine simp: bn_reliable_def intro!: bn_writes(3) [OF L]\<close>)

lemma gives_mod_exp:
  assumes L: "bn_contract L heap ctxs" and fine: "fine \<Longrightarrow> bn_reliable L" and r: "r \<in> X" "r \<in> dom H"
    and ab: "H a = Some x" "H b = Some y" "H m = Some z" "c \<in> C" "0 < z" "0 \<le> y"
    and rest: "gives heap ctxs fine (H(r \<mapsto> x ^ nat y mod z)) C P rest X"
  shows "gives heap ctxs fine H C P (attempt (BN_mod_exp L r a b m c) rest) X"
  by (rule gives_attempt [OF _ r _ rest]) (use r ab in \<open>auto dest: fine simp: bn_reliable_def intro!: bn_writes(4) [OF L]\<close>)

lemma gives_mod_mul:
  assumes L: "bn_contract L heap ctxs" and fine: "fine \<Longrightarrow> bn_reliable L" and r: "r \<in> X" "r \<in> dom H"
    and ab: "H a = Some x" "H b = Some y" "H m = Some z" "c \<in> C" "0 < z"
    and rest: "gives heap ctxs fine (H(r \<mapsto> x * y mod z)) C P rest X"
  shows "gives heap ctxs fine H C P (attempt (BN_mod_mul L r a b m c) rest) X"
  by (rule gives_attempt [OF _ r _ rest]) (use r ab in \<open>auto dest: fine simp: bn_reliable_def intro!: bn_writes(5) [OF L]\<close>)


section \<open>Exponentiation\<close>

text \<open>The two exponents of the blinded computation.\<close>

lemma blinded_result:
  fixes bl pr :: nat
  assumes "bl < 2 ^ 256"
  defines "b \<equiv> int bl + 2 ^ 256" and "e \<equiv> int pr + 2 ^ 256 + 2 ^ 256 + 2 ^ 256 + 2 ^ 256"
  shows "0 \<le> b" "0 \<le> e - b"
    "(int a ^ nat b mod int p) * (int a ^ nat (e - b) mod int p) mod int p = int (a ^ (2 ^ 258 + pr) mod p)"
proof -
  have bl: "int bl < 2 ^ 256" using assms(1) by (metis of_nat_less_iff of_nat_numeral of_nat_power)
  show 0: "0 \<le> b" "0 \<le> e - b" using bl by (simp_all add: b_def e_def)
  have "int (nat b + nat (e - b)) = int (2 ^ 258 + pr)" using 0 by (simp add: b_def e_def)
  then have "nat b + nat (e - b) = 2 ^ 258 + pr" by (simp only: of_nat_eq_iff)
  then show "(int a ^ nat b mod int p) * (int a ^ nat (e - b) mod int p) mod int p = int (a ^ (2 ^ 258 + pr) mod p)"
    using blinded_power [of "nat b" "nat (e - b)" "2 ^ 258 + pr" "int a" "int p"] by (simp add: of_nat_mod)
qed

text \<open>From the inside out: the exponentiations, the blinded exponent, the whole function.\<close>

lemma gives_powers:
  assumes L: "bn_contract L heap ctxs" and fine: "fine \<Longrightarrow> bn_reliable L" and c: "c \<in> C"
    and r: "r1 \<in> X" "r2 \<in> X" "r1 \<in> dom H" "r2 \<in> dom H" "r1 \<noteq> r2" "{a, b, e, m} \<inter> {r1, r2} = {}"
    and H: "H a = Some (int av)" "H b = Some B" "H e = Some E" "H m = Some (int group_p)"
    and exp: "0 \<le> B" "0 \<le> E" "(int av ^ nat B mod int group_p) * (int av ^ nat E mod int group_p) mod int group_p =
      int (av ^ (2 ^ 258 + be_num priv) mod group_p)"
  shows "gives heap ctxs fine H C (dh_power av priv)
    (attempt (BN_mod_exp L r1 a b m c) (attempt (BN_mod_exp L r2 a e m c) (attempt (BN_mod_mul L r1 r1 r2 m c) (export_result L r1)))) X"
proof -
  have p: "0 < int group_p" using group_p_bounds by simp
  let ?x1 = "int av ^ nat B mod int group_p" and ?x2 = "int av ^ nat E mod int group_p"
  let ?H = "H(r1 \<mapsto> ?x1, r2 \<mapsto> ?x2)"
  have "gives heap ctxs fine (?H(r1 \<mapsto> ?x1 * ?x2 mod int group_p)) C (dh_power av priv) (export_result L r1) X"
    using group_p_bounds exp(3)
    by (intro gives_export [OF L, where v = "av ^ (2 ^ 258 + be_num priv) mod group_p"]) (simp_all add: dh_power_def)
  then have "gives heap ctxs fine ?H C (dh_power av priv) (attempt (BN_mod_mul L r1 r1 r2 m c) (export_result L r1)) X"
    using r H c p by (intro gives_mod_mul [OF L fine, where x = ?x1 and y = ?x2 and z = "int group_p"]) auto
  then have "gives heap ctxs fine (H(r1 \<mapsto> ?x1)) C (dh_power av priv)
      (attempt (BN_mod_exp L r2 a e m c) (attempt (BN_mod_mul L r1 r1 r2 m c) (export_result L r1))) X"
    using r H c p exp by - (rule gives_mod_exp [OF L fine, where x = "int av" and y = E and z = "int group_p"], auto)
  then show ?thesis
    using r H c p exp by - (rule gives_mod_exp [OF L fine, where x = "int av" and y = B and z = "int group_p"], auto)
qed

lemma gives_blinded:
  assumes L: "bn_contract L heap ctxs" and fine: "fine \<Longrightarrow> bn_reliable L"
    and H: "H a = Some (int av)" "H b = Some B" "H p = Some Q"
    and exp: "0 \<le> B" "0 \<le> Q - B" "(int av ^ nat B mod int group_p) * (int av ^ nat (Q - B) mod int group_p) mod int group_p =
      int (av ^ (2 ^ 258 + be_num priv) mod group_p)"
  shows "gives heap ctxs fine H C (dh_power av priv)
    (with_object (BN_new L) (BN_clear_free L) (\<lambda>priv_blinded.
     attempt (BN_sub L priv_blinded p b) (
     with_object (BN_bin2bn L (take 256 crypto_dh_group14)) (BN_free L) (\<lambda>m_bn.
     with_object (BN_CTX_new L) (BN_CTX_free L) (\<lambda>ctx.
     with_object (BN_new L) (BN_clear_free L) (\<lambda>r1.
     with_object (BN_new L) (BN_clear_free L) (\<lambda>r2.
     attempt (BN_mod_exp L r1 a b m_bn ctx) (
     attempt (BN_mod_exp L r2 a priv_blinded m_bn ctx) (
     attempt (BN_mod_mul L r1 r1 r2 m_bn ctx) (
     export_result L r1))))))))) ) X"
proof (rule gives_new [OF L fine], assumption, simp)
  fix e v assume e: "e \<notin> dom H"
  let ?H = "H(e \<mapsto> Q - B)"
  have ne: "e \<notin> {a, b, p}" using e H by auto
  have "gives heap ctxs fine ?H C (dh_power av priv)
    (with_object (BN_bin2bn L (take 256 crypto_dh_group14)) (BN_free L) (\<lambda>m_bn.
     with_object (BN_CTX_new L) (BN_CTX_free L) (\<lambda>ctx.
     with_object (BN_new L) (BN_clear_free L) (\<lambda>r1.
     with_object (BN_new L) (BN_clear_free L) (\<lambda>r2.
     attempt (BN_mod_exp L r1 a b m_bn ctx) (
     attempt (BN_mod_exp L r2 a e m_bn ctx) (
     attempt (BN_mod_mul L r1 r1 r2 m_bn ctx) (
     export_result L r1)))))))) (insert e X)"
  proof (rule gives_bin2bn [OF L fine], assumption, simp, rule gives_ctx [OF L fine], assumption,
      rule gives_new [OF L fine], assumption, simp, rule gives_new [OF L fine], assumption, simp)
    fix m c r1 v1 r2 v2
    assume m: "m \<notin> dom ?H" and r1: "r1 \<notin> dom (?H(m \<mapsto> int (be_num (take 256 crypto_dh_group14))))"
      and r2: "r2 \<notin> dom (?H(m \<mapsto> int (be_num (take 256 crypto_dh_group14)), r1 \<mapsto> v1))"
    have "{a, b, p, e} \<subseteq> dom ?H" using H by auto
    then have d: "{a, b, e, m} \<inter> {r1, r2} = {}" "r1 \<noteq> r2" "m \<notin> {a, b, e}" using m r1 r2 by auto
    then show "gives heap ctxs fine (?H(m \<mapsto> int (be_num (take 256 crypto_dh_group14)), r1 \<mapsto> v1, r2 \<mapsto> v2)) (insert c C)
        (dh_power av priv) (attempt (BN_mod_exp L r1 a b m c) (attempt (BN_mod_exp L r2 a e m c)
          (attempt (BN_mod_mul L r1 r1 r2 m c) (export_result L r1)))) (insert r2 (insert r1 (insert m (insert e X))))"
      using H exp ne by (intro gives_powers [OF L fine, where B = B and E = "Q - B"]) (auto simp: group_p_def)
  qed
  then show "gives heap ctxs fine (H(e \<mapsto> v)) C (dh_power av priv)
    (attempt (BN_sub L e p b) (
     with_object (BN_bin2bn L (take 256 crypto_dh_group14)) (BN_free L) (\<lambda>m_bn.
     with_object (BN_CTX_new L) (BN_CTX_free L) (\<lambda>ctx.
     with_object (BN_new L) (BN_clear_free L) (\<lambda>r1.
     with_object (BN_new L) (BN_clear_free L) (\<lambda>r2.
     attempt (BN_mod_exp L r1 a b m_bn ctx) (
     attempt (BN_mod_exp L r2 a e m_bn ctx) (
     attempt (BN_mod_mul L r1 r1 r2 m_bn ctx) (
     export_result L r1))))))))) (insert e X)"
    using ne H by (intro gives_sub [OF L fine, where x = Q and y = B]) auto
qed

lemma blinded_modexp_gives:
  assumes L: "bn_contract L heap ctxs" and a: "H a = Some (int av)"
    and len: "length priv = CRYPTO_DH_PRIVLEN" "\<And>bl. blinding = Some bl \<Longrightarrow> length bl = CRYPTO_DH_PRIVLEN"
  shows "gives heap ctxs (bn_reliable L \<and> blinding \<noteq> None) H C (dh_power av priv) (blinded_modexp L blinding a priv) X"
  unfolding blinded_modexp_def
proof (rule gives_bin2bn [OF L], blast, simp, rule gives_bin2bn [OF L], blast, simp)
  fix t p
  let ?t = "int (be_num two_exp_256)" and ?p = "int (be_num (take CRYPTO_DH_PRIVLEN priv))"
  assume t: "t \<notin> dom H" and p: "p \<notin> dom (H(t \<mapsto> ?t))"
  have tp: "p \<noteq> t" "a \<noteq> t" "a \<noteq> p" using t p a by auto
  let ?f = "bn_reliable L \<and> blinding \<noteq> None" and ?X = "insert p (insert t X)"
  let ?H = "H(t \<mapsto> ?t, p \<mapsto> ?p + ?t + ?t + ?t + ?t)"
  have "gives heap ctxs ?f ?H C (dh_power av priv) (case blinding of None \<Rightarrow> \<lambda>w. (None, w) | Some blinding \<Rightarrow>
     with_object (BN_bin2bn L (take CRYPTO_DH_PRIVLEN blinding)) (BN_clear_free L) (\<lambda>blinding_bn.
     attempt (BN_add L blinding_bn blinding_bn t) (
     with_object (BN_new L) (BN_clear_free L) (\<lambda>priv_blinded.
     attempt (BN_sub L priv_blinded p blinding_bn) (
     with_object (BN_bin2bn L (take 256 crypto_dh_group14)) (BN_free L) (\<lambda>m_bn.
     with_object (BN_CTX_new L) (BN_CTX_free L) (\<lambda>ctx.
     with_object (BN_new L) (BN_clear_free L) (\<lambda>r1.
     with_object (BN_new L) (BN_clear_free L) (\<lambda>r2.
     attempt (BN_mod_exp L r1 a blinding_bn m_bn ctx) (
     attempt (BN_mod_exp L r2 a priv_blinded m_bn ctx) (
     attempt (BN_mod_mul L r1 r1 r2 m_bn ctx) (
     export_result L r1)))))))))))) ?X"
  proof (cases blinding)
    case None
    then show ?thesis by (simp add: gives_None)
  next
    case (Some bl)
    have bl: "length bl = 32" "length priv = 32" using len(2) [OF Some] len(1) by (simp_all add: CRYPTO_DH_PRIVLEN_def)
    have "be_num bl < 2 ^ 256" using be_num_less [of bl] bl by simp
    note exp = blinded_result(1) [OF this] blinded_result(2) [OF this, where pr = "be_num priv"]
      blinded_result(3) [OF this, where pr = "be_num priv" and a = av and p = group_p]
    show ?thesis unfolding Some option.case
    proof (rule gives_bin2bn [OF L], blast, simp)
      fix b
      let ?b = "int (be_num (take CRYPTO_DH_PRIVLEN bl))"
      assume b: "b \<notin> dom ?H"
      have ne: "b \<noteq> t" "b \<noteq> p" "a \<noteq> b" using b a by auto
      define B Q where "B = ?b + ?t" and "Q = ?p + ?t + ?t + ?t + ?t"
      have BQ: "B = int (be_num bl) + 2 ^ 256" "Q = int (be_num priv) + 2 ^ 256 + 2 ^ 256 + 2 ^ 256 + 2 ^ 256"
        using bl by (simp_all add: B_def Q_def be_two_exp_256 CRYPTO_DH_PRIVLEN_def)
      have "gives heap ctxs (bn_reliable L \<and> Some bl \<noteq> None) (H(t \<mapsto> ?t, p \<mapsto> Q, b \<mapsto> B)) C (dh_power av priv)
        (
         with_object (BN_new L) (BN_clear_free L) (\<lambda>priv_blinded.
         attempt (BN_sub L priv_blinded p b) (
         with_object (BN_bin2bn L (take 256 crypto_dh_group14)) (BN_free L) (\<lambda>m_bn.
         with_object (BN_CTX_new L) (BN_CTX_free L) (\<lambda>ctx.
         with_object (BN_new L) (BN_clear_free L) (\<lambda>r1.
         with_object (BN_new L) (BN_clear_free L) (\<lambda>r2.
         attempt (BN_mod_exp L r1 a b m_bn ctx) (
         attempt (BN_mod_exp L r2 a priv_blinded m_bn ctx) (
         attempt (BN_mod_mul L r1 r1 r2 m_bn ctx) (
         export_result L r1)))))))))) (insert b ?X)"
        using ne tp a exp [folded BQ] by - (rule gives_blinded [OF L, where B = B and Q = Q], simp_all)
      then show "gives heap ctxs (bn_reliable L \<and> Some bl \<noteq> None) (?H(b \<mapsto> ?b)) C (dh_power av priv)
        (attempt (BN_add L b b t) (
         with_object (BN_new L) (BN_clear_free L) (\<lambda>priv_blinded.
         attempt (BN_sub L priv_blinded p b) (
         with_object (BN_bin2bn L (take 256 crypto_dh_group14)) (BN_free L) (\<lambda>m_bn.
         with_object (BN_CTX_new L) (BN_CTX_free L) (\<lambda>ctx.
         with_object (BN_new L) (BN_clear_free L) (\<lambda>r1.
         with_object (BN_new L) (BN_clear_free L) (\<lambda>r2.
         attempt (BN_mod_exp L r1 a b m_bn ctx) (
         attempt (BN_mod_exp L r2 a priv_blinded m_bn ctx) (
         attempt (BN_mod_mul L r1 r1 r2 m_bn ctx) (
         export_result L r1))))))))))) (insert b ?X)"
        unfolding B_def Q_def using ne tp by - (rule gives_inc [OF L, where y = ?t], simp_all)
    qed
  qed
  then show "gives heap ctxs ?f (H(t \<mapsto> ?t, p \<mapsto> ?p)) C (dh_power av priv)
     (attempt (BN_add L p p t) (attempt (BN_add L p p t) (attempt (BN_add L p p t) (attempt (BN_add L p p t)
     (case blinding of None \<Rightarrow> \<lambda>w. (None, w) | Some blinding \<Rightarrow>
     with_object (BN_bin2bn L (take CRYPTO_DH_PRIVLEN blinding)) (BN_clear_free L) (\<lambda>blinding_bn.
     attempt (BN_add L blinding_bn blinding_bn t) (
     with_object (BN_new L) (BN_clear_free L) (\<lambda>priv_blinded.
     attempt (BN_sub L priv_blinded p blinding_bn) (
     with_object (BN_bin2bn L (take 256 crypto_dh_group14)) (BN_free L) (\<lambda>m_bn.
     with_object (BN_CTX_new L) (BN_CTX_free L) (\<lambda>ctx.
     with_object (BN_new L) (BN_clear_free L) (\<lambda>r1.
     with_object (BN_new L) (BN_clear_free L) (\<lambda>r2.
     attempt (BN_mod_exp L r1 a blinding_bn m_bn ctx) (
     attempt (BN_mod_exp L r2 a priv_blinded m_bn ctx) (
     attempt (BN_mod_mul L r1 r1 r2 m_bn ctx) (
     export_result L r1)))))))))))))))) ?X"
    using tp by (intro gives_inc [OF L, where y = ?t]) simp_all
qed


section \<open>The functions of the interface\<close>

lemma givesD:
  assumes "gives heap ctxs fine (heap w) (ctxs w) P f {}" "f w = (res, w')"
  shows "heap w' = heap w" "ctxs w' = ctxs w" "\<And>r. res = Some r \<Longrightarrow> P r" "fine \<Longrightarrow> res \<noteq> None"
proof -
  have "(\<forall>x. heap w' x = heap w x) \<and> ctxs w' = ctxs w \<and> (\<forall>r. res = Some r \<longrightarrow> P r) \<and> (fine \<longrightarrow> res \<noteq> None)"
    using assms(1) [unfolded gives_def, THEN spec, of w] assms(2) by simp
  then show "heap w' = heap w" "ctxs w' = ctxs w" "\<And>r. res = Some r \<Longrightarrow> P r" "fine \<Longrightarrow> res \<noteq> None"
    by (auto simp: fun_eq_iff)
qed

definition lengths_ok :: "bytes \<Rightarrow> bytes option \<Rightarrow> bool" where
  "lengths_ok priv blinding \<longleftrightarrow>
     length priv = CRYPTO_DH_PRIVLEN \<and> (\<forall>bl. blinding = Some bl \<longrightarrow> length bl = CRYPTO_DH_PRIVLEN)"

lemma generate_pub_gives:
  assumes "bn_contract L heap ctxs" "lengths_ok priv blinding"
  shows "gives heap ctxs (bn_reliable L \<and> blinding \<noteq> None) H C (dh_power 2 priv) (crypto_dh_generate_pub L blinding priv) X"
  unfolding crypto_dh_generate_pub_def
  using assms
  by (intro gives_new gives_set_word blinded_modexp_gives) (auto simp: lengths_ok_def)

lemma compute_gives:
  assumes "bn_contract L heap ctxs" "lengths_ok priv blinding" "length pub = CRYPTO_DH_PUBLEN"
  shows "gives heap ctxs (bn_reliable L \<and> blinding \<noteq> None) H C (dh_power (be_num pub) priv) (crypto_dh_compute L blinding pub priv) X"
  unfolding crypto_dh_compute_def
  using assms
  by (intro gives_bin2bn blinded_modexp_gives) (auto simp: lengths_ok_def)

lemma dh_generate_ok:
  assumes L: "bn_contract L heap ctxs" "lengths_ok priv blinding"
    and eq: "crypto_dh_generate L (Some priv) blinding w = (res, w')"
  shows "heap w' = heap w" "ctxs w' = ctxs w" "\<And>pub x. res = Some (pub, x) \<Longrightarrow> x = priv \<and> dh_power 2 priv pub"
    "bn_reliable L \<and> blinding \<noteq> None \<Longrightarrow> res \<noteq> None"
proof -
  obtain r w1 where r: "crypto_dh_generate_pub L blinding priv w = (r, w1)" by fastforce
  note g = givesD [OF generate_pub_gives [OF L] r]
  have "res = map_option (\<lambda>pub. (pub, priv)) r" "w' = w1"
    using eq r by (auto simp: crypto_dh_generate_def split: option.splits)
  then show "heap w' = heap w" "ctxs w' = ctxs w" "\<And>pub x. res = Some (pub, x) \<Longrightarrow> x = priv \<and> dh_power 2 priv pub"
    "bn_reliable L \<and> blinding \<noteq> None \<Longrightarrow> res \<noteq> None"
    using g by auto
qed


section \<open>An implementation of the contract\<close>

text \<open>Numbers in association lists; no call fails.\<close>

fun to_be :: "nat \<Rightarrow> bytes" where
  "to_be v = (if v = 0 then [] else to_be (v div 256) @ [word_of_nat (v mod 256)])"

declare to_be.simps [simp del]

lemma be_num_append: "be_num (a @ b) = be_num a * 256 ^ length b + be_num b"
  by (induction a) (simp_all add: power_add algebra_simps)

lemma be_num_to_be: "be_num (to_be v) = v"
proof (induction v rule: to_be.induct)
  case (1 v)
  have "unat (word_of_nat (v mod 256) :: u8) = v mod 256" by (simp add: unsigned_of_nat take_bit_eq_mod)
  then show ?case using 1 by (cases "v = 0") (simp_all add: to_be.simps [of v] to_be.simps [of 0] be_num_append)
qed

lemma length_to_be: "v < 256 ^ n \<longleftrightarrow> length (to_be v) \<le> n"
proof (induction v arbitrary: n rule: to_be.induct)
  case (1 v)
  show ?case
  proof (cases "v = 0")
    case False
    then show ?thesis
    proof (cases n)
      case (Suc m)
      have "v < 256 ^ n \<longleftrightarrow> v div 256 < 256 ^ m" by (simp add: Suc div_less_iff_less_mult mult.commute)
      then show ?thesis using 1 [OF False] False Suc by (simp add: to_be.simps [of v])
    qed (simp add: to_be.simps [of v])
  qed (simp add: to_be.simps [of 0])
qed

type_synonym bn_world = "(nat \<times> int) list \<times> nat list"

definition bn_fresh :: "nat list \<Rightarrow> nat" where
  "bn_fresh xs = Suc (sum_list xs)"

definition bn_put :: "nat \<Rightarrow> int \<Rightarrow> bn_world \<Rightarrow> bn_world" where
  "bn_put r v w = ((r, v) # fst w, snd w)"

definition bn_val :: "nat \<Rightarrow> bn_world \<Rightarrow> int" where
  "bn_val r w = (case map_of (fst w) r of None \<Rightarrow> 0 | Some v \<Rightarrow> v)"

definition bn_drop :: "nat \<Rightarrow> bn_world \<Rightarrow> bn_world" where
  "bn_drop r w = (filter (\<lambda>p. fst p \<noteq> r) (fst w), snd w)"

definition sample :: "bn_world openssl" where
  "sample =
     \<lparr>BN_bin2bn = (\<lambda>bs w. let x = bn_fresh (map fst (fst w)) in (Some x, bn_put x (int (be_num bs)) w)),
      BN_new = (\<lambda>w. let x = bn_fresh (map fst (fst w)) in (Some x, bn_put x 0 w)),
      BN_set_word = (\<lambda>r n w. (True, bn_put r (int n) w)),
      BN_add = (\<lambda>r a b w. (True, bn_put r (bn_val a w + bn_val b w) w)),
      BN_sub = (\<lambda>r a b w. (True, bn_put r (bn_val a w - bn_val b w) w)),
      BN_mod_exp = (\<lambda>r a b m c w. (True, bn_put r (bn_val a w ^ nat (bn_val b w) mod bn_val m w) w)),
      BN_mod_mul = (\<lambda>r a b m c w. (True, bn_put r (bn_val a w * bn_val b w mod bn_val m w) w)),
      BN_num_bytes = (\<lambda>r w. int (length (to_be (nat (bn_val r w))))),
      BN_bn2bin = (\<lambda>r w. to_be (nat (bn_val r w))),
      BN_free = bn_drop, BN_clear_free = bn_drop,
      BN_CTX_new = (\<lambda>w. let c = bn_fresh (snd w) in (Some c, (fst w, c # snd w))),
      BN_CTX_free = (\<lambda>c w. (fst w, filter (\<lambda>x. x \<noteq> c) (snd w)))\<rparr>"

lemma bn_fresh_notin: "bn_fresh xs \<notin> set xs"
proof
  assume "bn_fresh xs \<in> set xs"
  then have "bn_fresh xs \<le> sum_list xs" by (intro member_le_sum_list) simp_all
  then show False by (simp add: bn_fresh_def)
qed

lemma bn_drop_heap: "map_of (fst (bn_drop r w)) = (map_of (fst w))(r := None)"
proof -
  have "map_of (filter (\<lambda>p. fst p \<noteq> r) xs) = (map_of xs)(r := None)" for xs :: "(nat \<times> int) list"
    by (induction xs) (auto simp: fun_eq_iff)
  then show ?thesis by (simp add: bn_drop_def)
qed

lemma sample_contract: "bn_contract sample (\<lambda>w. map_of (fst w)) (\<lambda>w. set (snd w))"
proof -
  have fresh: "bn_fresh (map fst (fst w)) \<notin> dom (map_of (fst w))" for w :: bn_world
    using bn_fresh_notin by (metis dom_map_of_conv_image_fst list.set_map)
  have "objects_ok sample (\<lambda>w. map_of (fst w)) (\<lambda>w. set (snd w))"
    using fresh unfolding objects_ok_def allocates_def frees_def
    by (auto simp: sample_def Let_def bn_put_def bn_drop_heap) (simp_all add: bn_drop_def)
  moreover have "ctx_ok sample (\<lambda>w. map_of (fst w)) (\<lambda>w. set (snd w))"
    unfolding ctx_ok_def by (auto simp: sample_def Let_def bn_fresh_notin)
  moreover have "sums_ok sample (\<lambda>w. map_of (fst w)) (\<lambda>w. set (snd w))"
    unfolding sums_ok_def writes_def by (auto simp: sample_def bn_put_def bn_val_def)
  moreover have "mods_ok sample (\<lambda>w. map_of (fst w)) (\<lambda>w. set (snd w))"
    unfolding mods_ok_def writes_def by (auto simp: sample_def bn_put_def bn_val_def)
  moreover have "bytes_ok sample (\<lambda>w. map_of (fst w))"
    unfolding bytes_ok_def
  proof (intro allI impI)
    fix r v and w :: bn_world assume rv: "map_of (fst w) r = Some v \<and> 0 \<le> v"
    have "v < 256 ^ n \<longleftrightarrow> nat v < 256 ^ n" for n
      using rv by (metis nat_less_iff of_nat_numeral of_nat_power)
    then show "(\<forall>n. v < 256 ^ n \<longleftrightarrow> BN_num_bytes sample r w \<le> int n) \<and> 0 \<le> BN_num_bytes sample r w \<and>
        length (BN_bn2bin sample r w) = nat (BN_num_bytes sample r w) \<and> int (be_num (BN_bn2bin sample r w)) = v"
      using rv length_to_be [of "nat v"] be_num_to_be [of "nat v"] by (simp add: sample_def bn_val_def)
  qed
  ultimately show ?thesis by (simp add: bn_contract_def)
qed

lemma sample_reliable: "bn_reliable sample"
  by (simp add: bn_reliable_def sample_def Let_def)


section \<open>Properties\<close>

text \<open>
  C24. Whatever OpenSSL does within its contract, \<open>crypto_dh_compute\<close> writes the power of the
  public value to \<open>2 ^ 258\<close> plus the private key, modulo the prime of group 14, as 256 bytes; the
  blinding does not show in the result.  On every path, with every failure of a call, all numbers
  and contexts that it has allocated are freed, none is used after that, and no number of the
  caller is changed; it fails only if a call of OpenSSL or the source of random bytes does.
\<close>

theorem crypto_dh_compute_correct:
  assumes "bn_contract L heap ctxs" "lengths_ok priv blinding" "length pub = CRYPTO_DH_PUBLEN"
    "crypto_dh_compute L blinding pub priv w = (res, w')"
  shows "heap w' = heap w \<and> ctxs w' = ctxs w \<and> (bn_reliable L \<and> blinding \<noteq> None \<longrightarrow> res \<noteq> None) \<and>
    (\<forall>key. res = Some key \<longrightarrow> length key = CRYPTO_DH_PUBLEN \<and>
       be_num key = be_num pub ^ (2 ^ 258 + be_num priv) mod be_num crypto_dh_group14)"
  using givesD [OF compute_gives [OF assms(1-3)] assms(4)] by (simp add: dh_power_def group_p_def)

theorem crypto_dh_compute_correct_witness:
  "\<exists>key w'. crypto_dh_compute sample (Some (replicate 32 7)) (replicate 256 3) (replicate 32 5) ([], []) = (Some key, w') \<and>
     be_num key = be_num (replicate 256 3) ^ (2 ^ 258 + be_num (replicate 32 5)) mod be_num crypto_dh_group14"
proof -
  obtain res w' where r: "crypto_dh_compute sample (Some (replicate 32 7)) (replicate 256 3) (replicate 32 5) ([], []) = (res, w')"
    by (meson surj_pair)
  have "lengths_ok (replicate 32 5) (Some (replicate 32 7))" "length (replicate 256 (3 :: u8)) = CRYPTO_DH_PUBLEN"
    by (simp_all add: lengths_ok_def CRYPTO_DH_PRIVLEN_def CRYPTO_DH_PUBLEN_def)
  from crypto_dh_compute_correct [OF sample_contract this r] show ?thesis using r sample_reliable by auto
qed

text \<open>
  C23. The key exchange: if two sides, each with its own OpenSSL, random bytes and blinding, have
  generated their keys and computed with the public key of the other, they have the same key,
  \<open>2 ^ ((2 ^ 258 + x) * (2 ^ 258 + y))\<close> in group 14 for the private keys \<open>x\<close> and \<open>y\<close>.
\<close>

theorem crypto_dh_agree:
  assumes L: "bn_contract L heap ctxs" "bn_contract L' heap' ctxs'"
    and len: "lengths_ok x b1" "lengths_ok x b2" "lengths_ok y b3" "lengths_ok y b4"
    and gen: "crypto_dh_generate L (Some x) b1 w = (Some (X, x'), w1)" "crypto_dh_generate L' (Some y) b3 v = (Some (Y, y'), v1)"
    and comp: "crypto_dh_compute L b2 Y x' w1 = (Some k1, w2)" "crypto_dh_compute L' b4 X y' v1 = (Some k2, v2)"
  shows "k1 = k2 \<and> length k1 = 256 \<and>
    be_num k1 = 2 ^ ((2 ^ 258 + be_num x) * (2 ^ 258 + be_num y)) mod be_num crypto_dh_group14"
proof -
  let ?x = "2 ^ 258 + be_num x" and ?y = "2 ^ 258 + be_num y"
  have X: "x' = x" "dh_power 2 x X" and Y: "y' = y" "dh_power 2 y Y"
    using dh_generate_ok(3) [OF L(1) len(1) gen(1)] dh_generate_ok(3) [OF L(2) len(3) gen(2)] by auto
  then have pub: "length X = CRYPTO_DH_PUBLEN" "length Y = CRYPTO_DH_PUBLEN" by (simp_all add: dh_power_def)
  have k1: "dh_power (be_num Y) x k1"
    using givesD(3) [OF compute_gives [OF L(1) len(2) pub(2)]] comp(1) X(1) by blast
  have k2: "dh_power (be_num X) y k2"
    using givesD(3) [OF compute_gives [OF L(2) len(4) pub(1)]] comp(2) Y(1) by blast
  have "be_num k1 = 2 ^ (?x * ?y) mod group_p"
    using k1 Y(2) unfolding dh_power_def by (simp only: power_mod power_mult [symmetric] mult.commute)
  moreover have "be_num k2 = 2 ^ (?x * ?y) mod group_p"
    using k2 X(2) unfolding dh_power_def by (simp only: power_mod power_mult [symmetric] mult.commute)
  moreover have len: "length k1 = 256" "length k2 = 256" using k1 k2 by (simp_all add: dh_power_def CRYPTO_DH_PUBLEN_def)
  ultimately have "k1 = k2" by (intro be_num_inject) simp_all
  then show ?thesis using len \<open>be_num k1 = 2 ^ (?x * ?y) mod group_p\<close> unfolding group_p_def by blast
qed

theorem crypto_dh_agree_witness:
  "\<exists>X Y w1 v1 k w2 v2.
     crypto_dh_generate sample (Some (replicate 32 5)) (Some (replicate 32 7)) ([], []) = (Some (X, replicate 32 5), w1) \<and>
     crypto_dh_generate sample (Some (replicate 32 9)) (Some (replicate 32 8)) ([], []) = (Some (Y, replicate 32 9), v1) \<and>
     crypto_dh_compute sample (Some (replicate 32 1)) Y (replicate 32 5) w1 = (Some k, w2) \<and>
     crypto_dh_compute sample (Some (replicate 32 2)) X (replicate 32 9) v1 = (Some k, v2)"
proof -
  have len: "lengths_ok (replicate 32 a) (Some (replicate 32 b))" for a b
    by (simp add: lengths_ok_def CRYPTO_DH_PRIVLEN_def)
  have gen: "\<exists>X w'. crypto_dh_generate sample (Some (replicate 32 a)) (Some (replicate 32 b)) w = (Some (X, replicate 32 a), w') \<and>
      length X = CRYPTO_DH_PUBLEN" for a b w
  proof -
    obtain res w' where r: "crypto_dh_generate sample (Some (replicate 32 a)) (Some (replicate 32 b)) w = (res, w')" by (meson surj_pair)
    from dh_generate_ok(3, 4) [OF sample_contract len r] show ?thesis
      using r sample_reliable by (auto simp: dh_power_def)
  qed
  have comp: "\<exists>k w'. crypto_dh_compute sample (Some (replicate 32 b)) pub (replicate 32 a) w = (Some k, w')"
    if "length pub = CRYPTO_DH_PUBLEN" for a b w pub
  proof -
    obtain res w' where r: "crypto_dh_compute sample (Some (replicate 32 b)) pub (replicate 32 a) w = (res, w')" by (meson surj_pair)
    from givesD(4) [OF compute_gives [OF sample_contract len that] this] show ?thesis using r sample_reliable by auto
  qed
  obtain X w1 Y v1 where g: "crypto_dh_generate sample (Some (replicate 32 5)) (Some (replicate 32 7)) ([], []) = (Some (X, replicate 32 5), w1)"
    "crypto_dh_generate sample (Some (replicate 32 9)) (Some (replicate 32 8)) ([], []) = (Some (Y, replicate 32 9), v1)"
    "length X = CRYPTO_DH_PUBLEN" "length Y = CRYPTO_DH_PUBLEN"
    using gen [of 5 7 "([], [])"] gen [of 9 8 "([], [])"] by blast
  obtain k1 w2 k2 v2 where k: "crypto_dh_compute sample (Some (replicate 32 1)) Y (replicate 32 5) w1 = (Some k1, w2)"
    "crypto_dh_compute sample (Some (replicate 32 2)) X (replicate 32 9) v1 = (Some k2, v2)"
    using comp [OF g(4), of 1 5 w1] comp [OF g(3), of 2 9 v1] by blast
  have "k1 = k2"
    using crypto_dh_agree [OF sample_contract sample_contract len len len len g(1, 2) k] by blast
  then show ?thesis using g k by blast
qed

text \<open>
  \<open>crypto_dh_sanitycheck\<close> accepts exactly the public values that are less than the modulus.
\<close>

theorem crypto_dh_sanitycheck_correct:
  assumes "length pub = 256"
  shows "crypto_dh_sanitycheck pub = Some (if be_num pub < be_num crypto_dh_group14 then 0 else -1)"
  using memcmp_be_num [of pub 256 crypto_dh_group14] assms by (auto simp: crypto_dh_sanitycheck_def)

theorem crypto_dh_sanitycheck_correct_witness:
  "crypto_dh_sanitycheck (replicate 256 0xff) =
    Some (if be_num (replicate 256 0xff) < be_num crypto_dh_group14 then 0 else -1)"
  by (rule crypto_dh_sanitycheck_correct) simp

end
