(* ===== verification/Network_Connect.thy ===== *)
theory Network_Connect
  imports Prelude
begin

text \<open>
  Making and accepting connections: \<open>network/network_connect.c\<close> and \<open>network/network_accept.c\<close>.
  Sockets, socket events, timers and immediate events are at their interfaces: a record of what
  this connection attempt holds of them.  Closing a socket that is not open, or cancelling an
  event that is not registered, is a fault.
\<close>

section \<open>Connecting\<close>

text \<open>
  The cookie, without the callback and its cookie, which do not change.  An address is a number,
  and the array of addresses, which ends with NULL, is a list.
\<close>

record connect_cookie =
  cc_sas :: "nat list"
  cc_sa_b :: "nat option"
  cc_timeo :: nat
  cc_immediate :: "nat option"
  cc_s :: int
  cc_timeo_enabled :: bool
  cc_cookie_timeo :: "nat option"

text \<open>
  The sockets that are open, the socket that has a write event, the timer and the immediate event
  that are registered, and the arguments of the calls of the upstream callback.
\<close>

record conn_world =
  cw_open :: "int set"
  cw_event :: "int option"
  cw_timer :: "(nat \<times> nat) option"
  cw_immediate :: "nat option"
  cw_log :: "int list"

text \<open>
  What the system answers while a callback runs: the socket for each address or -1, a timer and
  an immediate event or NULL, whether a socket event is registered, the result of the upstream
  callback.
\<close>

record conn_env =
  ce_connect :: "nat \<Rightarrow> int"
  ce_timer :: "nat option"
  ce_register :: bool
  ce_immediate :: "nat option"
  ce_rc :: int

type_synonym conn = "connect_cookie option \<times> conn_world"

definition conn_close :: "int \<Rightarrow> conn_world \<Rightarrow> conn_world option" where
  "conn_close s w = (if s \<in> cw_open w then Some (w\<lparr>cw_open := cw_open w - {s}\<rparr>) else None)"

definition conn_timer_cancel :: "nat \<Rightarrow> conn_world \<Rightarrow> conn_world option" where
  "conn_timer_cancel i w = (if map_option fst (cw_timer w) = Some i then Some (w\<lparr>cw_timer := None\<rparr>) else None)"

definition conn_event_cancel :: "int \<Rightarrow> conn_world \<Rightarrow> conn_world option" where
  "conn_event_cancel s w = (if cw_event w = Some s then Some (w\<lparr>cw_event := None\<rparr>) else None)"

definition conn_immediate_cancel :: "nat \<Rightarrow> conn_world \<Rightarrow> conn_world option" where
  "conn_immediate_cancel i w = (if cw_immediate w = Some i then Some (w\<lparr>cw_immediate := None\<rparr>) else None)"

text \<open>The upstream callback gets the socket, which is its own from then on; the cookie is freed.\<close>

definition conn_docallback :: "conn_env \<Rightarrow> connect_cookie \<Rightarrow> conn_world \<Rightarrow> int \<times> conn" where
  "conn_docallback e C w = (ce_rc e, None, w\<lparr>cw_open := cw_open w - {cc_s C}, cw_log := cw_log w @ [cc_s C]\<rparr>)"

fun try_addresses :: "conn_env \<Rightarrow> nat list \<Rightarrow> connect_cookie \<Rightarrow> conn_world \<Rightarrow> connect_cookie \<times> conn_world" where
  "try_addresses e [] C w = (C\<lparr>cc_sas := []\<rparr>, w)"
| "try_addresses e (sa # sas) C w =
     (let C = C\<lparr>cc_sas := sa # sas, cc_s := ce_connect e sa\<rparr> in
      if cc_s C \<noteq> -1 then (C, w\<lparr>cw_open := insert (cc_s C) (cw_open w)\<rparr>)
      else try_addresses e sas C w)"

definition tryconnect_err1 :: "connect_cookie \<Rightarrow> conn_world \<Rightarrow> (int \<times> connect_cookie \<times> conn_world) option" where
  "tryconnect_err1 C w = do {
     w \<leftarrow> (if cc_s C \<noteq> -1 then conn_close (cc_s C) w else Some w);
     Some (-1, C, w)
   }"

definition tryconnect :: "conn_env \<Rightarrow> connect_cookie \<Rightarrow> conn_world \<Rightarrow> (int \<times> connect_cookie \<times> conn_world) option" where
  "tryconnect e C w =
     (case try_addresses e (cc_sas C) C w of (C, w) \<Rightarrow>
        if cc_sas C = [] then
          (let C = C\<lparr>cc_immediate := ce_immediate e\<rparr> in
           if cc_immediate C = None then tryconnect_err1 C w
           else Some (0, C, w\<lparr>cw_immediate := cc_immediate C\<rparr>))
        else
          (let C = C\<lparr>cc_cookie_timeo := (if cc_timeo_enabled C then ce_timer e else None)\<rparr> in
           if cc_timeo_enabled C \<and> cc_cookie_timeo C = None then tryconnect_err1 C w
           else
             (let w = (case cc_cookie_timeo C of None \<Rightarrow> w | Some i \<Rightarrow> w\<lparr>cw_timer := Some (i, cc_timeo C)\<rparr>) in
              if ce_register e then Some (0, C, w\<lparr>cw_event := Some (cc_s C)\<rparr>)
              else do {
                w \<leftarrow> (case cc_cookie_timeo C of None \<Rightarrow> Some w | Some i \<Rightarrow> conn_timer_cancel i w);
                tryconnect_err1 C w
              })))"

definition dofailed :: "conn_env \<Rightarrow> connect_cookie \<Rightarrow> conn_world \<Rightarrow> (int \<times> conn) option" where
  "dofailed e C w = do {
     w \<leftarrow> conn_close (cc_s C) w;
     let C = C\<lparr>cc_s := -1\<rparr>;
     let C = C\<lparr>cc_sas := tl (cc_sas C)\<rparr>;
     (rc, C, w) \<leftarrow> tryconnect e C w;
     if rc \<noteq> 0 then
       (let C = C\<lparr>cc_s := -1\<rparr> in
        case conn_docallback e C w of (_, c) \<Rightarrow> Some (-1, c))
     else Some (0, Some C, w)
   }"

text \<open>\<open>sockerr\<close> is the error of the socket, or \<open>None\<close> if \<open>getsockopt\<close> fails.\<close>

definition callback_connect :: "conn_env \<Rightarrow> int option \<Rightarrow> connect_cookie \<Rightarrow> conn_world \<Rightarrow> (int \<times> conn) option" where
  "callback_connect e sockerr C w = do {
     (C, w) \<leftarrow> (case cc_cookie_timeo C of
         None \<Rightarrow> Some (C, w)
       | Some i \<Rightarrow> do { w \<leftarrow> conn_timer_cancel i w; Some (C\<lparr>cc_cookie_timeo := None\<rparr>, w) });
     (case sockerr of
        None \<Rightarrow> do {
          w \<leftarrow> conn_close (cc_s C) w;
          let C = C\<lparr>cc_s := -1\<rparr>;
          (case conn_docallback e C w of (_, c) \<Rightarrow> Some (-1, c))
        }
      | Some err \<Rightarrow> if err \<noteq> 0 then dofailed e C w else Some (conn_docallback e C w))
   }"

definition callback_timeo :: "conn_env \<Rightarrow> connect_cookie \<Rightarrow> conn_world \<Rightarrow> (int \<times> conn) option" where
  "callback_timeo e C w = do {
     let C = C\<lparr>cc_cookie_timeo := None\<rparr>;
     w \<leftarrow> conn_event_cancel (cc_s C) w;
     dofailed e C w
   }"

text \<open>\<open>new\<close> is the memory for the cookie; the result is the cookie, if there is one.\<close>

definition network_connect_internal ::
  "connect_cookie option \<Rightarrow> conn_env \<Rightarrow> nat list \<Rightarrow> nat option \<Rightarrow> nat option \<Rightarrow> conn_world \<Rightarrow> conn option" where
  "network_connect_internal new e sas sa_b timeo w =
     (case new of
        None \<Rightarrow> Some (None, w)
      | Some C \<Rightarrow> do {
          let C = C\<lparr>cc_sas := sas, cc_sa_b := sa_b, cc_immediate := None, cc_cookie_timeo := None, cc_s := -1\<rparr>;
          let C = (case timeo of
              Some t \<Rightarrow> C\<lparr>cc_timeo := t, cc_timeo_enabled := True\<rparr>
            | None \<Rightarrow> C\<lparr>cc_timeo_enabled := False\<rparr>);
          (rc, C, w) \<leftarrow> tryconnect e C w;
          if rc \<noteq> 0 then Some (None, w) else Some (Some C, w)
        })"

definition network_connect :: "connect_cookie option \<Rightarrow> conn_env \<Rightarrow> nat list \<Rightarrow> conn_world \<Rightarrow> conn option" where
  "network_connect new e sas w = network_connect_internal new e sas None None w"

definition network_connect_bind ::
  "connect_cookie option \<Rightarrow> conn_env \<Rightarrow> nat list \<Rightarrow> nat option \<Rightarrow> conn_world \<Rightarrow> conn option" where
  "network_connect_bind new e sas sa_b w = network_connect_internal new e sas sa_b None w"

definition network_connect_timeo ::
  "connect_cookie option \<Rightarrow> conn_env \<Rightarrow> nat list \<Rightarrow> nat \<Rightarrow> conn_world \<Rightarrow> conn option" where
  "network_connect_timeo new e sas timeo w = network_connect_internal new e sas None (Some timeo) w"

definition network_connect_cancel :: "connect_cookie \<Rightarrow> conn_world \<Rightarrow> conn option" where
  "network_connect_cancel C w = do {
     cassert (cc_immediate C \<noteq> None \<or> cc_s C \<noteq> -1);
     cassert (cc_immediate C = None \<or> cc_s C = -1);
     w \<leftarrow> (case cc_cookie_timeo C of None \<Rightarrow> Some w | Some i \<Rightarrow> conn_timer_cancel i w);
     w \<leftarrow> (case cc_immediate C of None \<Rightarrow> Some w | Some i \<Rightarrow> conn_immediate_cancel i w);
     w \<leftarrow> (if cc_s C \<noteq> -1 then do { w \<leftarrow> conn_event_cancel (cc_s C) w; conn_close (cc_s C) w } else Some w);
     Some (None, w)
   }"


section \<open>The events of a connection attempt\<close>

datatype conn_step = NReady conn_env "int option" | NTimeout conn_env | NImmediate conn_env | NCancel

text \<open>The event loop removes an event before it runs its callback; without an event nothing happens.\<close>

fun conn_run :: "conn_step \<Rightarrow> conn \<Rightarrow> (conn \<times> int) option" where
  "conn_run (NReady e sockerr) (c, w) =
     (if cw_event w = None then Some ((c, w), 0)
      else do { C \<leftarrow> c; (rc, s) \<leftarrow> callback_connect e sockerr C (w\<lparr>cw_event := None\<rparr>); Some (s, rc) })"
| "conn_run (NTimeout e) (c, w) =
     (if cw_timer w = None then Some ((c, w), 0)
      else do { C \<leftarrow> c; (rc, s) \<leftarrow> callback_timeo e C (w\<lparr>cw_timer := None\<rparr>); Some (s, rc) })"
| "conn_run (NImmediate e) (c, w) =
     (if cw_immediate w = None then Some ((c, w), 0)
      else do { C \<leftarrow> c; let (rc, s) = conn_docallback e C (w\<lparr>cw_immediate := None\<rparr>); Some (s, rc) })"
| "conn_run NCancel (c, w) = do { C \<leftarrow> c; s \<leftarrow> network_connect_cancel C w; Some (s, 0) }"

definition conn_world0 :: conn_world where
  "conn_world0 = \<lparr>cw_open = {}, cw_event = None, cw_timer = None, cw_immediate = None, cw_log = []\<rparr>"

definition conn_init :: "conn \<Rightarrow> bool" where
  "conn_init s \<longleftrightarrow> (\<exists>new e sas sa_b timeo. network_connect_internal new e sas sa_b timeo conn_world0 = Some s)"

definition conn_pre :: "conn_step \<Rightarrow> conn \<Rightarrow> bool" where
  "conn_pre st s \<longleftrightarrow> (st = NCancel \<longrightarrow> fst s \<noteq> None)"


section \<open>What a connection attempt does\<close>

text \<open>
  It is trying the first of some addresses on a socket; or it has run out of addresses; or it is
  over, with the calls of the callback.
\<close>

datatype aconn = ATry "nat list" int bool | AFail bool | AOver "int list"

text \<open>The addresses from the first one for which there is a socket.\<close>

fun usable :: "conn_env \<Rightarrow> nat list \<Rightarrow> nat list" where
  "usable e [] = []"
| "usable e (sa # sas) = (if ce_connect e sa \<noteq> -1 then sa # sas else usable e sas)"

text \<open>Trying the addresses from the first on.\<close>

definition advance :: "conn_env \<Rightarrow> bool \<Rightarrow> nat list \<Rightarrow> aconn option" where
  "advance e timeo sas =
     (case usable e sas of
        [] \<Rightarrow> if ce_immediate e \<noteq> None then Some (AFail timeo) else None
      | sa # sas' \<Rightarrow>
          if (timeo \<longrightarrow> ce_timer e \<noteq> None) \<and> ce_register e then Some (ATry (sa # sas') (ce_connect e sa) timeo)
          else None)"

definition failed_spec :: "conn_env \<Rightarrow> bool \<Rightarrow> nat list \<Rightarrow> int \<Rightarrow> aconn \<Rightarrow> bool" where
  "failed_spec e timeo sas rc a \<longleftrightarrow>
     (case advance e timeo sas of Some a' \<Rightarrow> rc = 0 \<and> a = a' | None \<Rightarrow> rc = -1 \<and> a = AOver [-1])"

fun conn_spec :: "conn_step \<Rightarrow> aconn \<Rightarrow> int \<Rightarrow> aconn \<Rightarrow> bool" where
  "conn_spec (NReady e None) (ATry sas s timeo) rc a \<longleftrightarrow> rc = -1 \<and> a = AOver [-1]"
| "conn_spec (NReady e (Some err)) (ATry sas s timeo) rc a \<longleftrightarrow>
     (if err = 0 then rc = ce_rc e \<and> a = AOver [s] else failed_spec e timeo (tl sas) rc a)"
| "conn_spec (NTimeout e) (ATry sas s timeo) rc a \<longleftrightarrow>
     (if timeo then failed_spec e timeo (tl sas) rc a else rc = 0 \<and> a = ATry sas s timeo)"
| "conn_spec (NImmediate e) (AFail timeo) rc a \<longleftrightarrow> rc = ce_rc e \<and> a = AOver [-1]"
| "conn_spec NCancel a0 rc a \<longleftrightarrow> rc = 0 \<and> a = AOver []"
| "conn_spec st a0 rc a \<longleftrightarrow> rc = 0 \<and> a = a0"

definition conn_abs :: "conn \<Rightarrow> aconn" where
  "conn_abs s =
     (case s of
        (None, w) \<Rightarrow> AOver (cw_log w)
      | (Some C, w) \<Rightarrow>
          if cc_immediate C \<noteq> None then AFail (cc_timeo_enabled C) else ATry (cc_sas C) (cc_s C) (cc_timeo_enabled C))"

text \<open>The cookie holds exactly what is registered and open, and nothing is when it is gone.\<close>

fun conn_inv :: "conn \<Rightarrow> bool" where
  "conn_inv (None, w) \<longleftrightarrow>
     cw_open w = {} \<and> cw_event w = None \<and> cw_timer w = None \<and> cw_immediate w = None \<and> length (cw_log w) \<le> 1"
| "conn_inv (Some C, w) \<longleftrightarrow> cw_log w = [] \<and> cw_immediate w = cc_immediate C \<and>
     (if cc_immediate C \<noteq> None then
        cc_s C = -1 \<and> cw_open w = {} \<and> cw_event w = None \<and> cw_timer w = None \<and> cc_cookie_timeo C = None
      else cc_s C \<noteq> -1 \<and> cw_open w = {cc_s C} \<and> cw_event w = Some (cc_s C) \<and>
        (case cc_cookie_timeo C of
           None \<Rightarrow> cw_timer w = None \<and> \<not> cc_timeo_enabled C
         | Some i \<Rightarrow> cw_timer w = Some (i, cc_timeo C) \<and> cc_timeo_enabled C))"

text \<open>Nothing is held.\<close>

definition conn_idle :: "connect_cookie \<Rightarrow> conn_world \<Rightarrow> bool" where
  "conn_idle C w \<longleftrightarrow> cc_s C = -1 \<and> cc_immediate C = None \<and> cc_cookie_timeo C = None \<and> cw_open w = {} \<and> cw_event w = None \<and>
     cw_timer w = None \<and> cw_immediate w = None \<and> cw_log w = []"

lemma try_addresses_eq:
  "cc_s C = -1 \<Longrightarrow> try_addresses e sas C w =
    (case usable e sas of
       [] \<Rightarrow> (C\<lparr>cc_sas := []\<rparr>, w)
     | sa # sas' \<Rightarrow> (C\<lparr>cc_sas := sa # sas', cc_s := ce_connect e sa\<rparr>, w\<lparr>cw_open := insert (ce_connect e sa) (cw_open w)\<rparr>))"
proof (induction sas arbitrary: C)
  case (Cons sa sas)
  show ?case using Cons.IH [of "C\<lparr>cc_sas := sa # sas, cc_s := -1\<rparr>"] Cons.prems
    by (cases C) (simp add: Let_def split: list.split)
qed simp

lemma usable_head: "usable e sas = sa # sas' \<Longrightarrow> ce_connect e sa \<noteq> -1"
  by (induction sas) (auto split: if_splits)

lemma tryconnect_ok:
  assumes idle: "conn_idle C w"
  shows "okp (tryconnect e C w) (\<lambda>(rc, C', w').
    (case advance e (cc_timeo_enabled C) (cc_sas C) of
       Some a \<Rightarrow> rc = 0 \<and> conn_inv (Some C', w') \<and> conn_abs (Some C', w') = a
     | None \<Rightarrow> rc = -1 \<and> cw_open w' = {} \<and> cw_event w' = None \<and> cw_timer w' = None \<and> cw_immediate w' = None \<and> cw_log w' = []))"
proof (cases "usable e (cc_sas C)")
  case Nil
  then show ?thesis using idle
    by (auto simp: tryconnect_def try_addresses_eq conn_idle_def Let_def tryconnect_err1_def advance_def conn_abs_def)
next
  case (Cons sa sas)
  have "ce_connect e sa \<noteq> -1" by (rule usable_head [OF Cons])
  then show ?thesis using idle Cons
    by (auto simp: tryconnect_def try_addresses_eq conn_idle_def Let_def tryconnect_err1_def advance_def conn_abs_def
        conn_close_def conn_timer_cancel_def split: option.split)
qed

lemma dofailed_ok:
  assumes inv: "conn_idle (C\<lparr>cc_s := -1\<rparr>) (w\<lparr>cw_open := {}\<rparr>)" and s: "cw_open w = {cc_s C}"
  shows "okp (dofailed e C w) (\<lambda>(rc, s'). conn_inv s' \<and> failed_spec e (cc_timeo_enabled C) (tl (cc_sas C)) rc (conn_abs s'))"
proof -
  let ?C = "C\<lparr>cc_s := -1, cc_sas := tl (cc_sas C)\<rparr>" and ?w = "w\<lparr>cw_open := {}\<rparr>"
  have "conn_idle ?C ?w" using inv by (simp add: conn_idle_def)
  from tryconnect_ok [OF this, of e] obtain rc C' w' where t: "tryconnect e ?C ?w = Some (rc, C', w')"
    and a: "case advance e (cc_timeo_enabled C) (tl (cc_sas C)) of
       Some a \<Rightarrow> rc = 0 \<and> conn_inv (Some C', w') \<and> conn_abs (Some C', w') = a
     | None \<Rightarrow> rc = -1 \<and> cw_open w' = {} \<and> cw_event w' = None \<and> cw_timer w' = None \<and> cw_immediate w' = None \<and> cw_log w' = []"
    by (auto simp: okp_iff)
  have "conn_close (cc_s C) w = Some ?w" using s by (simp add: conn_close_def)
  then have "dofailed e C w = (if rc \<noteq> 0 then case conn_docallback e (C'\<lparr>cc_s := -1\<rparr>) w' of (_, c) \<Rightarrow> Some (-1, c) else Some (0, Some C', w'))"
    using t by (simp add: dofailed_def)
  then show ?thesis using a
    by (cases "advance e (cc_timeo_enabled C) (tl (cc_sas C))")
      (simp_all add: conn_docallback_def failed_spec_def conn_abs_def [of "(None, _)"] del: conn_inv.simps(2))
qed

lemma conn_init_inv: "conn_init s \<Longrightarrow> conn_inv s"
proof -
  assume "conn_init s"
  then obtain new e sas sa_b timeo where s: "network_connect_internal new e sas sa_b timeo conn_world0 = Some s"
    by (auto simp: conn_init_def)
  show ?thesis
  proof (cases new)
    case None
    then show ?thesis using s by (auto simp: network_connect_internal_def conn_world0_def)
  next
    case (Some C)
    define C0 where "C0 = C\<lparr>cc_sas := sas, cc_sa_b := sa_b, cc_immediate := None, cc_cookie_timeo := None, cc_s := -1\<rparr>"
    define C1 where "C1 = (case timeo of Some t \<Rightarrow> C0\<lparr>cc_timeo := t, cc_timeo_enabled := True\<rparr> | None \<Rightarrow> C0\<lparr>cc_timeo_enabled := False\<rparr>)"
    have "conn_idle C1 conn_world0" by (simp add: C1_def C0_def conn_idle_def conn_world0_def split: option.split)
    from tryconnect_ok [OF this, of e] have "okp (tryconnect e C1 conn_world0)
        (\<lambda>(rc, C', w'). (rc = 0 \<longrightarrow> conn_inv (Some C', w')) \<and> (rc \<noteq> 0 \<longrightarrow> conn_inv (None, w')))"
      by (cases "advance e (cc_timeo_enabled C1) (cc_sas C1)")
        (auto elim!: okp_mono simp del: conn_inv.simps(2))
    then obtain rc C' w' where t: "tryconnect e C1 conn_world0 = Some (rc, C', w')"
      "(rc = 0 \<longrightarrow> conn_inv (Some C', w')) \<and> (rc \<noteq> 0 \<longrightarrow> conn_inv (None, w'))"
      by (auto simp: okp_iff simp del: conn_inv.simps)
    have "network_connect_internal new e sas sa_b timeo conn_world0 =
        (if rc \<noteq> 0 then Some (None, w') else Some (Some C', w'))"
      using t(1) unfolding network_connect_internal_def Some option.case Let_def C0_def [symmetric] C1_def [symmetric] by simp
    then show ?thesis using s t(2) by (auto split: if_splits simp del: conn_inv.simps)
  qed
qed

interpretation netconn: machine_refinement conn_init conn_pre conn_run conn_inv conn_abs conn_spec
proof (unfold_locales, goal_cases)
  case (1 s)
  then show ?case by (rule conn_init_inv)
next
  case (2 s st)
  obtain c w where s: "s = (c, w)" by (cases s)
  show ?case
  proof (cases c)
    case None
    then show ?thesis using 2 s by (cases st) (auto simp: conn_pre_def conn_abs_def)
  next
    case (Some C)
    show ?thesis
    proof (cases "cc_immediate C")
      case (Some i)
      then show ?thesis using 2 s \<open>c = Some C\<close>
        by (cases st) (auto simp: conn_abs_def conn_docallback_def network_connect_cancel_def conn_immediate_cancel_def)
    next
      case None
      then have inv: "cw_log w = []" "cw_immediate w = None" "cc_s C \<noteq> -1" "cw_open w = {cc_s C}" "cw_event w = Some (cc_s C)"
        "case cc_cookie_timeo C of None \<Rightarrow> cw_timer w = None \<and> \<not> cc_timeo_enabled C
         | Some i \<Rightarrow> cw_timer w = Some (i, cc_timeo C) \<and> cc_timeo_enabled C"
        using 2(1) s Some by simp_all
      have abs: "conn_abs s = ATry (cc_sas C) (cc_s C) (cc_timeo_enabled C)" using None s Some by (simp add: conn_abs_def)
      let ?C = "C\<lparr>cc_cookie_timeo := None\<rparr>" and ?w = "w\<lparr>cw_event := None, cw_timer := None\<rparr>"
      have idle: "conn_idle (?C\<lparr>cc_s := -1\<rparr>) (?w\<lparr>cw_open := {}\<rparr>)" using inv None by (simp add: conn_idle_def)
      note fail = dofailed_ok [OF idle, simplified, OF inv(4)]
      show ?thesis
      proof (cases st)
        case (NReady e sockerr)
        have eq: "callback_connect e sockerr C (w\<lparr>cw_event := None\<rparr>) =
            (case sockerr of
               None \<Rightarrow> do { w \<leftarrow> conn_close (cc_s C) ?w; (case conn_docallback e (?C\<lparr>cc_s := -1\<rparr>) w of (_, c) \<Rightarrow> Some (-1, c)) }
             | Some err \<Rightarrow> if err \<noteq> 0 then dofailed e ?C ?w else Some (conn_docallback e ?C ?w))"
        proof (cases "cc_cookie_timeo C")
          case None
          then have same: "?C = C" "?w = w\<lparr>cw_event := None\<rparr>" using inv(6) by simp_all
          show ?thesis unfolding same using None by (simp add: callback_connect_def split: option.split)
        next
          case (Some i)
          then show ?thesis using inv(6) by (simp add: callback_connect_def conn_timer_cancel_def split: option.split)
        qed
        show ?thesis using NReady s Some eq inv abs fail [of e]
          by (cases sockerr) (auto simp: conn_close_def conn_docallback_def conn_abs_def wp_rules elim!: okp_mono)
      next
        case (NTimeout e)
        have comm: "w\<lparr>cw_timer := None, cw_event := None\<rparr> = ?w" by simp
        have "callback_timeo e C (w\<lparr>cw_timer := None\<rparr>) = dofailed e ?C (w\<lparr>cw_timer := None, cw_event := None\<rparr>)"
          using inv(5) by (simp add: callback_timeo_def conn_event_cancel_def)
        then have eq: "callback_timeo e C (w\<lparr>cw_timer := None\<rparr>) = dofailed e ?C ?w" unfolding comm .
        show ?thesis
        proof (cases "cw_timer w")
          case None
          then show ?thesis using NTimeout s Some inv abs 2(1) by (auto split: option.splits)
        next
          case (Some t)
          then show ?thesis using NTimeout s \<open>c = Some C\<close> inv(6) abs fail [of e] eq
            by (auto simp: wp_rules simp del: conn_inv.simps elim!: okp_mono split: option.splits)
        qed
      next
        case (NImmediate e)
        then show ?thesis using 2(1) s Some inv(2) abs by simp
      next
        case NCancel
        then show ?thesis using s Some inv None
          by (auto simp: network_connect_cancel_def conn_timer_cancel_def conn_event_cancel_def conn_close_def conn_abs_def
              split: option.splits)
      qed
    qed
  qed
qed


section \<open>Accepting\<close>

record accept_cookie =
  ac_fd :: int

text \<open>The socket with a registered read event, and the arguments of the calls of the upstream callback.\<close>

record accept_world =
  aw_event :: "int option"
  aw_log :: "int list"

type_synonym acpt = "accept_cookie option \<times> accept_world"

datatype accept_answer = AcceptAgain | AcceptError | AcceptSocket int

text \<open>\<open>reg\<close> is whether the event is registered, and \<open>rc\<close> the result of the upstream callback.\<close>

definition callback_accept :: "accept_answer \<Rightarrow> bool \<Rightarrow> int \<Rightarrow> accept_cookie \<Rightarrow> accept_world \<Rightarrow> int \<times> acpt" where
  "callback_accept answer reg rc C w =
     (case answer of
        AcceptAgain \<Rightarrow> if reg then (0, Some C, w\<lparr>aw_event := Some (ac_fd C)\<rparr>) else (-1, Some C, w)
      | AcceptError \<Rightarrow> (rc, None, w\<lparr>aw_log := aw_log w @ [-1]\<rparr>)
      | AcceptSocket s \<Rightarrow> (rc, None, w\<lparr>aw_log := aw_log w @ [s]\<rparr>))"

definition network_accept :: "accept_cookie option \<Rightarrow> bool \<Rightarrow> int \<Rightarrow> accept_world \<Rightarrow> acpt" where
  "network_accept new reg fd w =
     (case new of
        None \<Rightarrow> (None, w)
      | Some C \<Rightarrow>
          let C = C\<lparr>ac_fd := fd\<rparr> in
          if reg then (Some C, w\<lparr>aw_event := Some (ac_fd C)\<rparr>) else (None, w))"

text \<open>\<open>events_network_cancel\<close> fails when no event is registered; its result is not looked at.\<close>

definition network_accept_cancel :: "accept_cookie \<Rightarrow> accept_world \<Rightarrow> acpt" where
  "network_accept_cancel C w = (None, if aw_event w = Some (ac_fd C) then w\<lparr>aw_event := None\<rparr> else w)"

text \<open>
  What happens to an accept: the event, if it is still registered, runs with an answer of
  \<open>accept\<close>, and the client cancels, which uses a cookie that is gone after a callback.
\<close>

datatype accept_step = AReady accept_answer bool int | ACancel

fun accept_run :: "accept_step \<Rightarrow> acpt \<Rightarrow> (acpt \<times> int) option" where
  "accept_run (AReady answer reg rc) (c, w) =
     (if aw_event w = None then Some ((c, w), 0)
      else do { C \<leftarrow> c; let (rc, s) = callback_accept answer reg rc C (w\<lparr>aw_event := None\<rparr>); Some (s, rc) })"
| "accept_run ACancel (c, w) = do { C \<leftarrow> c; Some (network_accept_cancel C w, 0) }"

fun accept_runs :: "accept_step list \<Rightarrow> acpt \<Rightarrow> acpt option" where
  "accept_runs [] s = Some s"
| "accept_runs (st # sts) s = do { (s, rc) \<leftarrow> accept_run st s; accept_runs sts s }"

text \<open>What becomes of an accept whose event is given these answers.\<close>

datatype accept_fate = Waiting | Lost | Told int

fun accept_outcome :: "(accept_answer \<times> bool \<times> int) list \<Rightarrow> accept_fate" where
  "accept_outcome [] = Waiting"
| "accept_outcome ((AcceptAgain, reg, rc) # evs) = (if reg then accept_outcome evs else Lost)"
| "accept_outcome ((AcceptError, reg, rc) # evs) = Told (-1)"
| "accept_outcome ((AcceptSocket s, reg, rc) # evs) = Told s"

definition accept_history :: "(accept_answer \<times> bool \<times> int) list \<Rightarrow> bool \<Rightarrow> accept_step list" where
  "accept_history evs cancel = map (\<lambda>(a, reg, rc). AReady a reg rc) evs @ (if cancel then [ACancel] else [])"

lemma accept_runs_idle:
  "aw_event w = None \<Longrightarrow> accept_runs (accept_history evs cancel) (c, w) =
     (if cancel then map_option (\<lambda>C. network_accept_cancel C w) c else Some (c, w))"
  by (induction evs) (cases c, auto simp: accept_history_def split: option.split)

lemma accept_runs_waiting:
  "accept_runs (accept_history evs cancel) (Some C, \<lparr>aw_event = Some (ac_fd C), aw_log = l\<rparr>) =
     (case accept_outcome evs of
        Waiting \<Rightarrow> Some (if cancel then None else Some C, \<lparr>aw_event = if cancel then None else Some (ac_fd C), aw_log = l\<rparr>)
      | Lost \<Rightarrow> Some (if cancel then None else Some C, \<lparr>aw_event = None, aw_log = l\<rparr>)
      | Told s \<Rightarrow> if cancel then None else Some (None, \<lparr>aw_event = None, aw_log = l @ [s]\<rparr>))"
proof (induction evs)
  case Nil
  show ?case by (simp add: accept_history_def network_accept_cancel_def)
next
  case (Cons ev evs)
  obtain a reg rc where ev: "ev = (a, reg, rc)" by (cases ev)
  have step: "accept_runs (accept_history (ev # evs) cancel) s = do { (s, r) \<leftarrow> accept_run (AReady a reg rc) s; accept_runs (accept_history evs cancel) s }" for s
    by (simp add: accept_history_def ev)
  show ?case unfolding step
    using Cons.IH by (cases a; cases reg) (simp_all add: ev callback_accept_def accept_runs_idle network_accept_cancel_def)
qed


section \<open>Properties\<close>

text \<open>
  C20. In every reachable state of a connection attempt every event and the cancellation return
  without closing or cancelling what is not there, and do what is promised: the addresses are
  tried in their order, one at a time, the next one when a socket cannot be made, reports an error
  or takes longer than the time-out; the callback gets the first socket that connects, or -1 when
  there are no more addresses or memory or registration fails.
\<close>

theorem network_connect_refines:
  assumes "reach conn_init conn_pre conn_run s" "conn_pre st s"
  shows "okp (conn_run st s) (\<lambda>(s', rc). conn_spec st (conn_abs s) rc (conn_abs s'))"
  using netconn.reach_spec [OF assms] .

definition conn_env1 :: conn_env where
  "conn_env1 = \<lparr>ce_connect = (\<lambda>sa. if sa = 10 then -1 else int sa), ce_timer = Some 4, ce_register = True, ce_immediate = Some 5, ce_rc = 6\<rparr>"

definition conn_ex1 :: conn where
  "conn_ex1 = (Some \<lparr>cc_sas = [11, 12], cc_sa_b = None, cc_timeo = 7, cc_immediate = None, cc_s = 11, cc_timeo_enabled = True,
       cc_cookie_timeo = Some 4\<rparr>,
     \<lparr>cw_open = {11}, cw_event = Some 11, cw_timer = Some (4, 7), cw_immediate = None, cw_log = []\<rparr>)"

lemma conn_ex1_init: "conn_init conn_ex1"
proof -
  let ?new = "\<lparr>cc_sas = [], cc_sa_b = Some 1, cc_timeo = 2, cc_immediate = Some 3, cc_s = 9, cc_timeo_enabled = False, cc_cookie_timeo = Some 8\<rparr>"
  have "network_connect_internal (Some ?new) conn_env1 [10, 11, 12] None (Some 7) conn_world0 = Some conn_ex1"
    by (simp add: network_connect_internal_def tryconnect_def conn_env1_def conn_world0_def conn_ex1_def Let_def)
  then show ?thesis unfolding conn_init_def by blast
qed

lemma conn_ex1_reach: "reach conn_init conn_pre conn_run conn_ex1"
  by (rule reach_init) (rule conn_ex1_init)

theorem network_connect_refines_witness:
  "okp (conn_run (NTimeout conn_env1) conn_ex1) (\<lambda>(s', rc). conn_spec (NTimeout conn_env1) (conn_abs conn_ex1) rc (conn_abs s'))"
  by (rule network_connect_refines, rule conn_ex1_reach) (simp add: conn_pre_def)

text \<open>
  C21. A connection attempt leaks nothing: as long as there is a cookie, the callback has not been
  called, and either one socket is open, with its event and, if asked for, a timer with the time
  that was asked for, or only an immediate event is registered; when the cookie is gone, after the
  callback, a cancellation or a failure, no socket of the attempt is open, no event is registered,
  and the callback has been called at most once.
\<close>

theorem network_connect_no_leak:
  assumes "reach conn_init conn_pre conn_run (c, w)"
  shows "case c of
      None \<Rightarrow> cw_open w = {} \<and> cw_event w = None \<and> cw_timer w = None \<and> cw_immediate w = None \<and> length (cw_log w) \<le> 1
    | Some C \<Rightarrow> cw_log w = [] \<and>
        (if cc_immediate C \<noteq> None then cw_open w = {} \<and> cw_event w = None \<and> cw_timer w = None \<and> cw_immediate w = cc_immediate C
         else cw_open w = {cc_s C} \<and> cw_event w = Some (cc_s C) \<and> cw_immediate w = None \<and>
           (if cc_timeo_enabled C then map_option snd (cw_timer w) = Some (cc_timeo C) else cw_timer w = None))"
  using netconn.reach_inv [OF assms] by (cases c) (auto split: option.splits if_splits)

theorem network_connect_no_leak_witness:
  "\<exists>C w. conn_ex1 = (Some C, w) \<and> cw_open w = {cc_s C} \<and> map_option snd (cw_timer w) = Some (cc_timeo C)"
  using network_connect_no_leak [OF conn_ex1_reach [unfolded conn_ex1_def]] by (simp add: conn_ex1_def)

text \<open>
  Whatever the answers of \<open>accept\<close>, of the allocation and of the registrations, and whether or
  not the client cancels in the end: \<open>network_accept\<close> returns NULL and nothing ever happens, or the
  client is told once, with the first answer that is not to try again, the cookie is freed,
  so that a cancellation would use it after that; while the answers are to try again the event stays
  registered.  But if the registration fails after such an answer (\<open>Lost\<close>) the client is never told,
  no event is left, and the cookie stays until the client cancels, which frees it.
\<close>

theorem network_accept_outcome:
  "accept_runs (accept_history evs cancel) (network_accept new reg fd \<lparr>aw_event = None, aw_log = []\<rparr>) =
     (case (new, reg) of
        (Some C, True) \<Rightarrow>
          (case accept_outcome evs of
             Waiting \<Rightarrow> Some (if cancel then None else Some (C\<lparr>ac_fd := fd\<rparr>),
                 \<lparr>aw_event = if cancel then None else Some fd, aw_log = []\<rparr>)
           | Lost \<Rightarrow> Some (if cancel then None else Some (C\<lparr>ac_fd := fd\<rparr>), \<lparr>aw_event = None, aw_log = []\<rparr>)
           | Told s \<Rightarrow> if cancel then None else Some (None, \<lparr>aw_event = None, aw_log = [s]\<rparr>))
      | _ \<Rightarrow> if cancel then None else Some (None, \<lparr>aw_event = None, aw_log = []\<rparr>))"
  using accept_runs_waiting [of evs cancel "the new\<lparr>ac_fd := fd\<rparr>" "[]"]
  by (cases new; cases reg; cases "accept_outcome evs"; cases cancel)
    (simp_all add: network_accept_def Let_def accept_runs_idle)

end
