(* ===== verification/Network_Rw.thy ===== *)
theory Network_Rw
  imports Prelude
begin

text \<open>
  Asynchronous reads and writes on one socket: \<open>network/network_read.c\<close> and
  \<open>network/network_write.c\<close>.  An operation in progress is a cookie from a pool, and one socket
  event that has it as its argument; when the socket is ready, \<open>callback_buf\<close> moves some bytes and
  either registers the event again or calls back its client.

  The pool and the events are at their interfaces: the pool hands out an object that is not in use
  or fails, and a cookie is named by a number that is used only once; a registration fails if the event is registered already, or for lack of memory.  The
  memory of the client is a state \<open>'c\<close> with a function that stores or loads bytes at a pointer;
  the client's callback is a function of the number of bytes and the whole state.
\<close>

section \<open>The interface to the pool and the events\<close>

record rw_cookie =
  rw_fd :: int
  rw_buf :: nat
  rw_buflen :: nat
  rw_minlen :: nat
  rw_bufpos :: nat

text \<open>
  The cookies in use, the cookie of the registered socket event, that of the registered immediate
  event, and the bytes that have gone through the socket.
\<close>

record io =
  io_pool :: "nat \<rightharpoonup> rw_cookie"
  io_next :: nat
  io_event :: "nat option"
  io_imm :: "nat option"
  io_stream :: bytes

text \<open>At the start nothing is in progress.\<close>

definition io0 :: io where
  "io0 = \<lparr>io_pool = Map.empty, io_next = 0, io_event = None, io_imm = None, io_stream = []\<rparr>"

definition pool_malloc :: "bool \<Rightarrow> rw_cookie \<Rightarrow> io \<Rightarrow> nat option \<times> io" where
  "pool_malloc ok ck io =
     (if ok then (Some (io_next io), io\<lparr>io_pool := (io_pool io)(io_next io \<mapsto> ck), io_next := Suc (io_next io)\<rparr>)
      else (None, io))"

definition pool_free :: "nat \<Rightarrow> io \<Rightarrow> io option" where
  "pool_free i io = (if i \<in> dom (io_pool io) then Some (io\<lparr>io_pool := (io_pool io)(i := None)\<rparr>) else None)"

definition net_register :: "bool \<Rightarrow> nat \<Rightarrow> io \<Rightarrow> bool \<times> io" where
  "net_register ok i io = (if io_event io = None \<and> ok then (True, io\<lparr>io_event := Some i\<rparr>) else (False, io))"

definition net_cancel :: "io \<Rightarrow> io" where
  "net_cancel io = io\<lparr>io_event := None\<rparr>"


text \<open>\<open>malloc\<close> gives no object larger than \<open>SSIZE_MAX\<close>.\<close>

definition c_malloc :: "alloc \<Rightarrow> nat \<Rightarrow> bytes option" where
  "c_malloc a n = (if n \<le> SSIZE_MAX then c_realloc a [] n else None)"


section \<open>Reading\<close>

text \<open>What \<open>recv\<close> answers: try again, an error, or bytes, with no bytes at the end of the stream.\<close>

datatype recv_answer = RecvAgain | RecvError | RecvData bytes

definition read_docallback ::
  "(int \<Rightarrow> io \<Rightarrow> 'c \<Rightarrow> (int \<times> io \<times> 'c) option) \<Rightarrow> nat \<Rightarrow> int \<Rightarrow> io \<Rightarrow> 'c \<Rightarrow> (int \<times> io \<times> 'c) option" where
  "read_docallback callback C nbytes io c = do {
     (rc, io, c) \<leftarrow> callback nbytes io c;
     io \<leftarrow> pool_free C io;
     Some (rc, io, c)
   }"

definition read_tryagain ::
  "(int \<Rightarrow> io \<Rightarrow> 'c \<Rightarrow> (int \<times> io \<times> 'c) option) \<Rightarrow> bool \<Rightarrow> nat \<Rightarrow> io \<Rightarrow> 'c \<Rightarrow> (int \<times> io \<times> 'c) option" where
  "read_tryagain callback reg C io c =
     (case net_register reg C io of
        (True, io) \<Rightarrow> Some (0, io, c)
      | (False, io) \<Rightarrow> read_docallback callback C (-1) io c)"

text \<open>\<open>C\<close> is the pointer to the cookie; \<open>recv\<close> returns at most \<open>oplen\<close> bytes.\<close>

definition read_callback_buf ::
  "(nat \<Rightarrow> bytes \<Rightarrow> 'c \<Rightarrow> 'c option) \<Rightarrow> (int \<Rightarrow> io \<Rightarrow> 'c \<Rightarrow> (int \<times> io \<times> 'c) option) \<Rightarrow>
   recv_answer \<Rightarrow> bool \<Rightarrow> nat \<Rightarrow> io \<Rightarrow> 'c \<Rightarrow> (int \<times> io \<times> 'c) option" where
  "read_callback_buf store callback recv reg C io c = do {
     ck \<leftarrow> io_pool io C;
     let oplen = szsub (rw_buflen ck) (rw_bufpos ck);
     (case recv of
        RecvAgain \<Rightarrow> read_tryagain callback reg C io c
      | RecvError \<Rightarrow> read_docallback callback C (-1) io c
      | RecvData ws \<Rightarrow>
          (let bs = take oplen ws in
           if bs = [] then read_docallback callback C 0 io c
           else do {
             c \<leftarrow> store (rw_buf ck + rw_bufpos ck) bs c;
             let ck = ck\<lparr>rw_bufpos := szadd (rw_bufpos ck) (length bs)\<rparr>;
             let io = io\<lparr>io_pool := (io_pool io)(C \<mapsto> ck), io_stream := io_stream io @ bs\<rparr>;
             if rw_bufpos ck < rw_minlen ck then read_tryagain callback reg C io c
             else do {
               cassert (rw_bufpos ck \<le> SSIZE_MAX);
               read_docallback callback C (int (rw_bufpos ck)) io c
             }
           }))
   }"

definition network_read :: "bool \<Rightarrow> bool \<Rightarrow> int \<Rightarrow> nat \<Rightarrow> nat \<Rightarrow> nat \<Rightarrow> io \<Rightarrow> (nat option \<times> io) option" where
  "network_read ok reg fd buf buflen minread io = do {
     cassert (buflen \<noteq> 0);
     cassert (buflen \<le> SSIZE_MAX);
     let ck = \<lparr>rw_fd = fd, rw_buf = buf, rw_buflen = buflen, rw_minlen = minread, rw_bufpos = 0\<rparr>;
     (case pool_malloc ok ck io of
        (None, io) \<Rightarrow> Some (None, io)
      | (Some C, io) \<Rightarrow>
          (case net_register reg C io of
             (True, io) \<Rightarrow> Some (Some C, io)
           | (False, io) \<Rightarrow> do { io \<leftarrow> pool_free C io; Some (None, io) }))
   }"

definition network_read_cancel :: "nat \<Rightarrow> io \<Rightarrow> io option" where
  "network_read_cancel C io = do { ck \<leftarrow> io_pool io C; pool_free C (net_cancel io) }"


section \<open>Writing\<close>

datatype send_answer = SendAgain | SendError | SendCount nat

definition write_docallback ::
  "(int \<Rightarrow> io \<Rightarrow> 'c \<Rightarrow> (int \<times> io \<times> 'c) option) \<Rightarrow> nat \<Rightarrow> int \<Rightarrow> io \<Rightarrow> 'c \<Rightarrow> (int \<times> io \<times> 'c) option" where
  "write_docallback callback C nbytes io c = do {
     (rc, io, c) \<leftarrow> callback nbytes io c;
     io \<leftarrow> pool_free C io;
     Some (rc, io, c)
   }"

definition write_tryagain ::
  "(int \<Rightarrow> io \<Rightarrow> 'c \<Rightarrow> (int \<times> io \<times> 'c) option) \<Rightarrow> bool \<Rightarrow> nat \<Rightarrow> io \<Rightarrow> 'c \<Rightarrow> (int \<times> io \<times> 'c) option" where
  "write_tryagain callback reg C io c =
     (case net_register reg C io of
        (True, io) \<Rightarrow> Some (0, io, c)
      | (False, io) \<Rightarrow> write_docallback callback C (-1) io c)"

text \<open>\<open>send\<close> takes at most \<open>oplen\<close> bytes.\<close>

definition write_callback_buf ::
  "(nat \<Rightarrow> nat \<Rightarrow> 'c \<Rightarrow> bytes option) \<Rightarrow> (int \<Rightarrow> io \<Rightarrow> 'c \<Rightarrow> (int \<times> io \<times> 'c) option) \<Rightarrow>
   send_answer \<Rightarrow> bool \<Rightarrow> nat \<Rightarrow> io \<Rightarrow> 'c \<Rightarrow> (int \<times> io \<times> 'c) option" where
  "write_callback_buf fetch callback send reg C io c = do {
     ck \<leftarrow> io_pool io C;
     let oplen = szsub (rw_buflen ck) (rw_bufpos ck);
     (case send of
        SendAgain \<Rightarrow> write_tryagain callback reg C io c
      | SendError \<Rightarrow> write_docallback callback C (-1) io c
      | SendCount n \<Rightarrow>
          (let n = min n oplen in do {
             cassert (n \<noteq> 0);
             bs \<leftarrow> fetch (rw_buf ck + rw_bufpos ck) n c;
             let ck = ck\<lparr>rw_bufpos := szadd (rw_bufpos ck) n\<rparr>;
             let io = io\<lparr>io_pool := (io_pool io)(C \<mapsto> ck), io_stream := io_stream io @ bs\<rparr>;
             if rw_bufpos ck < rw_minlen ck then write_tryagain callback reg C io c
             else do {
               cassert (rw_bufpos ck \<le> SSIZE_MAX);
               write_docallback callback C (int (rw_bufpos ck)) io c
             }
           }))
   }"

definition network_write :: "bool \<Rightarrow> bool \<Rightarrow> int \<Rightarrow> nat \<Rightarrow> nat \<Rightarrow> nat \<Rightarrow> io \<Rightarrow> (nat option \<times> io) option" where
  "network_write ok reg fd buf buflen minwrite io = do {
     cassert (buflen \<noteq> 0);
     cassert (buflen \<le> SSIZE_MAX);
     let ck = \<lparr>rw_fd = fd, rw_buf = buf, rw_buflen = buflen, rw_minlen = minwrite, rw_bufpos = 0\<rparr>;
     (case pool_malloc ok ck io of
        (None, io) \<Rightarrow> Some (None, io)
      | (Some C, io) \<Rightarrow>
          (case net_register reg C io of
             (True, io) \<Rightarrow> Some (Some C, io)
           | (False, io) \<Rightarrow> do { io \<leftarrow> pool_free C io; Some (None, io) }))
   }"

definition network_write_cancel :: "nat \<Rightarrow> io \<Rightarrow> io option" where
  "network_write_cancel C io = do { ck \<leftarrow> io_pool io C; pool_free C (net_cancel io) }"


section \<open>The socket becomes ready\<close>

text \<open>The event loop removes the event and runs its callback with its cookie.\<close>

definition read_ready ::
  "(nat \<Rightarrow> bytes \<Rightarrow> 'c \<Rightarrow> 'c option) \<Rightarrow> (int \<Rightarrow> io \<Rightarrow> 'c \<Rightarrow> (int \<times> io \<times> 'c) option) \<Rightarrow>
   recv_answer \<Rightarrow> bool \<Rightarrow> io \<Rightarrow> 'c \<Rightarrow> (int \<times> io \<times> 'c) option" where
  "read_ready store callback recv reg io c =
     (case io_event io of
        None \<Rightarrow> Some (0, io, c)
      | Some C \<Rightarrow> read_callback_buf store callback recv reg C (io\<lparr>io_event := None\<rparr>) c)"

definition write_ready ::
  "(nat \<Rightarrow> nat \<Rightarrow> 'c \<Rightarrow> bytes option) \<Rightarrow> (int \<Rightarrow> io \<Rightarrow> 'c \<Rightarrow> (int \<times> io \<times> 'c) option) \<Rightarrow>
   send_answer \<Rightarrow> bool \<Rightarrow> io \<Rightarrow> 'c \<Rightarrow> (int \<times> io \<times> 'c) option" where
  "write_ready fetch callback send reg io c =
     (case io_event io of
        None \<Rightarrow> Some (0, io, c)
      | Some C \<Rightarrow> write_callback_buf fetch callback send reg C (io\<lparr>io_event := None\<rparr>) c)"

section \<open>Starting an operation\<close>

lemma SSIZE_SIZE: "n \<le> SSIZE_MAX \<Longrightarrow> n \<le> SIZE_MAX" "n \<le> SSIZE_MAX \<Longrightarrow> m \<le> SSIZE_MAX \<Longrightarrow> n + m \<le> SIZE_MAX"
  "n \<le> SSIZE_MAX \<Longrightarrow> n * 2 \<le> SIZE_MAX"
  by (simp_all add: SSIZE_MAX_def SIZE_MAX_def)

lemma network_read_ok:
  assumes "0 < buflen" "buflen \<le> SSIZE_MAX" "io_event io = None" "\<forall>i \<in> dom (io_pool io). i < io_next io"
  shows "\<exists>n. network_read ok reg fd buf buflen minread io =
    (if ok \<and> reg then Some (Some (io_next io), io\<lparr>io_pool := (io_pool io)(io_next io \<mapsto>
          \<lparr>rw_fd = fd, rw_buf = buf, rw_buflen = buflen, rw_minlen = minread, rw_bufpos = 0\<rparr>),
          io_next := Suc (io_next io), io_event := Some (io_next io)\<rparr>)
     else Some (None, io\<lparr>io_next := n\<rparr>)) \<and> io_next io \<le> n"
proof -
  have "io_pool io (io_next io) = None" using assms(4) by (auto simp: domIff [symmetric])
  then have 1: "(io_pool io)(io_next io := None) = io_pool io" by (simp add: fun_upd_idem)
  have 2: "io = io\<lparr>io_next := io_next io\<rparr>" by simp
  show ?thesis
  proof (cases ok)
    case True
    then show ?thesis using assms(1-3) 1
      by (intro exI [of _ "Suc (io_next io)"])
        (auto simp: network_read_def net_register_def pool_malloc_def pool_free_def)
  next
    case False
    then show ?thesis using assms(1-3) 2
      by (intro exI [of _ "io_next io"]) (auto simp: network_read_def pool_malloc_def)
  qed
qed

lemma network_write_read: "network_write = network_read"
  by (intro ext) (simp add: network_write_def network_read_def)

lemmas network_write_ok = network_read_ok [folded network_write_read]

end
