(* ===== verification/Netbuf_Read.thy ===== *)
theory Netbuf_Read
  imports Network_Rw
begin

text \<open>
  The buffered reader of \<open>netbuf/netbuf_read.c\<close> on a socket, over \<open>network_read\<close>, the socket
  events and the immediate events.  The variant over SSL is not modelled.  The structure has
  exactly one read and one immediate event at most; a user callback is a number, and what it does
  when it is called is a list of calls on the reader.  The log has what the user has seen: return
  values, the data found by \<open>peek\<close>, what was consumed, and the callbacks with their status.
\<close>

section \<open>Definitions\<close>

record netbuf_read =
  nb_s :: int
  nb_callback :: nat
  nb_read_cookie :: "nat option"
  nb_immediate_cookie :: "nat option"
  nb_buf :: bytes
  nb_buflen :: nat
  nb_bufpos :: nat
  nb_datalen :: nat

text \<open>\<open>new\<close> is what the first \<open>malloc\<close> returns, with any contents, and \<open>a\<close> the answer to the second.\<close>

definition netbuf_read_init2 :: "netbuf_read option \<Rightarrow> alloc \<Rightarrow> int \<Rightarrow> netbuf_read option" where
  "netbuf_read_init2 new a s =
     (case new of
        None \<Rightarrow> None
      | Some R \<Rightarrow>
          (let R = R\<lparr>nb_s := s, nb_read_cookie := None, nb_immediate_cookie := None, nb_buflen := 4096\<rparr> in
           (case c_malloc a (nb_buflen R) of
              None \<Rightarrow> None
            | Some b \<Rightarrow> Some (R\<lparr>nb_buf := b, nb_bufpos := 0, nb_datalen := 0\<rparr>))))"

definition netbuf_read_init :: "netbuf_read option \<Rightarrow> alloc \<Rightarrow> int \<Rightarrow> netbuf_read option" where
  "netbuf_read_init new a s = netbuf_read_init2 new a s"

text \<open>The pointer and the length are the bytes that they stand for.\<close>

definition netbuf_read_peek :: "netbuf_read \<Rightarrow> bytes option" where
  "netbuf_read_peek R = mem_load (nb_buf R) (nb_bufpos R) (szsub (nb_datalen R) (nb_bufpos R))"

definition netbuf_read_resize_buffer :: "alloc \<Rightarrow> netbuf_read \<Rightarrow> nat \<Rightarrow> (int \<times> netbuf_read) option" where
  "netbuf_read_resize_buffer a R len =
     (let nbuflen = szmul (nb_buflen R) 2;
          nbuflen = (if nbuflen < len then len else nbuflen) in
      (case c_malloc a nbuflen of
         None \<Rightarrow> Some (-1, R)
       | Some nbuf \<Rightarrow> do {
           src \<leftarrow> mem_load (nb_buf R) (nb_bufpos R) (szsub (nb_datalen R) (nb_bufpos R));
           nbuf \<leftarrow> mem_store nbuf 0 src;
           let R = R\<lparr>nb_buf := nbuf, nb_buflen := nbuflen\<rparr>;
           let R = R\<lparr>nb_datalen := szsub (nb_datalen R) (nb_bufpos R)\<rparr>;
           Some (0, R\<lparr>nb_bufpos := 0\<rparr>)
         }))"

text \<open>\<open>imm\<close>, \<open>a\<close>, \<open>pool\<close> and \<open>reg\<close>: the answers to the immediate event, the buffer, the cookie, the socket event.\<close>

definition netbuf_read_wait ::
  "nat option \<Rightarrow> alloc \<Rightarrow> bool \<Rightarrow> bool \<Rightarrow> io \<Rightarrow> netbuf_read \<Rightarrow> nat \<Rightarrow> nat \<Rightarrow> (int \<times> io \<times> netbuf_read) option" where
  "netbuf_read_wait imm a pool reg io R len callback = do {
     cassert (nb_read_cookie R = None);
     cassert (nb_immediate_cookie R = None);
     let R = R\<lparr>nb_callback := callback\<rparr>;
     if szsub (nb_datalen R) (nb_bufpos R) \<ge> len then
       (let R = R\<lparr>nb_immediate_cookie := imm\<rparr> in
        if imm = None then Some (-1, io, R) else Some (0, io\<lparr>io_imm := imm\<rparr>, R))
     else do {
       (rc, R) \<leftarrow> (if nb_buflen R < len then netbuf_read_resize_buffer a R len else Some (0, R));
       if rc \<noteq> 0 then Some (-1, io, R)
       else do {
         R \<leftarrow> (if szsub (nb_buflen R) (nb_bufpos R) < len then do {
                src \<leftarrow> mem_load (nb_buf R) (nb_bufpos R) (szsub (nb_datalen R) (nb_bufpos R));
                b \<leftarrow> mem_store (nb_buf R) 0 src;
                let R = R\<lparr>nb_buf := b, nb_datalen := szsub (nb_datalen R) (nb_bufpos R)\<rparr>;
                Some (R\<lparr>nb_bufpos := 0\<rparr>)
              } else Some R);
         (ck, io) \<leftarrow> network_read pool reg (nb_s R) (nb_datalen R) (szsub (nb_buflen R) (nb_datalen R))
           (szsub (szadd (nb_bufpos R) len) (nb_datalen R)) io;
         let R = R\<lparr>nb_read_cookie := ck\<rparr>;
         if ck = None then Some (-1, io, R) else Some (0, io, R)
       }
     }
   }"

definition netbuf_read_wait_cancel :: "io \<Rightarrow> netbuf_read \<Rightarrow> (io \<times> netbuf_read) option" where
  "netbuf_read_wait_cancel io R = do {
     (io, R) \<leftarrow> (case nb_read_cookie R of
         None \<Rightarrow> Some (io, R)
       | Some C \<Rightarrow> do { io \<leftarrow> network_read_cancel C io; Some (io, R\<lparr>nb_read_cookie := None\<rparr>) });
     (case nb_immediate_cookie R of
         None \<Rightarrow> Some (io, R)
       | Some i \<Rightarrow> do { cassert (io_imm io = Some i); Some (io\<lparr>io_imm := None\<rparr>, R\<lparr>nb_immediate_cookie := None\<rparr>) })
   }"

definition netbuf_read_consume :: "netbuf_read \<Rightarrow> nat \<Rightarrow> netbuf_read option" where
  "netbuf_read_consume R len = do {
     cassert (szsub (nb_datalen R) (nb_bufpos R) \<ge> len);
     Some (R\<lparr>nb_bufpos := szadd (nb_bufpos R) len\<rparr>)
   }"

text \<open>The result is the reader that remains.\<close>

definition netbuf_read_free :: "netbuf_read option \<Rightarrow> netbuf_read option option" where
  "netbuf_read_free r =
     (case r of
        None \<Rightarrow> Some None
      | Some R \<Rightarrow> do {
          cassert (nb_read_cookie R = None);
          cassert (nb_immediate_cookie R = None);
          Some None
        })"


section \<open>A user and the event loop\<close>

text \<open>A wait has its callback, its length, and the answers to its requests.\<close>

datatype reader_call =
    RWait nat nat "nat option" alloc bool bool
  | RCancel
  | RConsume nat
  | RPeek

datatype read_out = ORc int | OPeek bytes | OConsume nat | OCallback nat int

type_synonym reader = "io \<times> netbuf_read \<times> read_out list"

fun read_call :: "reader_call \<Rightarrow> reader \<Rightarrow> reader option" where
  "read_call (RWait callback len imm a pool reg) (io, R, log) = do {
     (rc, io, R) \<leftarrow> netbuf_read_wait imm a pool reg io R len callback;
     Some (io, R, log @ [ORc rc])
   }"
| "read_call RCancel (io, R, log) = do { (io, R) \<leftarrow> netbuf_read_wait_cancel io R; Some (io, R, log) }"
| "read_call (RConsume n) (io, R, log) = do { R \<leftarrow> netbuf_read_consume R n; Some (io, R, log @ [OConsume n]) }"
| "read_call RPeek (io, R, log) = do { d \<leftarrow> netbuf_read_peek R; Some (io, R, log @ [OPeek d]) }"

text \<open>What the assertions ask of the user: one wait at a time, and only buffered data is consumed.\<close>

fun read_pre :: "reader_call \<Rightarrow> reader \<Rightarrow> bool" where
  "read_pre (RWait callback len imm a pool reg) (io, R, log) \<longleftrightarrow> nb_read_cookie R = None \<and> nb_immediate_cookie R = None"
| "read_pre RCancel s \<longleftrightarrow> True"
| "read_pre (RConsume n) (io, R, log) \<longleftrightarrow> n \<le> nb_datalen R - nb_bufpos R"
| "read_pre RPeek s \<longleftrightarrow> True"

text \<open>A list of calls is a plan; the user leaves out those that are not allowed at their time.\<close>

fun read_calls :: "reader_call list \<Rightarrow> reader \<Rightarrow> reader option" where
  "read_calls [] s = Some s"
| "read_calls (c # cs) s = (if read_pre c s then do { s \<leftarrow> read_call c s; read_calls cs s } else read_calls cs s)"

text \<open>The user's callback, which does \<open>script\<close> and returns \<open>rc\<close>.\<close>

definition user_callback :: "reader_call list \<Rightarrow> int \<Rightarrow> int \<Rightarrow> io \<Rightarrow> netbuf_read \<times> read_out list \<Rightarrow> (int \<times> io \<times> netbuf_read \<times> read_out list) option" where
  "user_callback script rc status io c =
     (case c of (R, log) \<Rightarrow> do {
        (io, R, log) \<leftarrow> read_calls script (io, R, log @ [OCallback (nb_callback R) status]);
        Some (rc, io, R, log)
      })"

definition callback_success :: "reader_call list \<Rightarrow> int \<Rightarrow> io \<Rightarrow> netbuf_read \<times> read_out list \<Rightarrow> (int \<times> io \<times> netbuf_read \<times> read_out list) option" where
  "callback_success script rc io c =
     (case c of (R, log) \<Rightarrow> do {
        cassert (nb_immediate_cookie R \<noteq> None);
        user_callback script rc 0 io (R\<lparr>nb_immediate_cookie := None\<rparr>, log)
      })"

definition callback_read :: "reader_call list \<Rightarrow> int \<Rightarrow> int \<Rightarrow> io \<Rightarrow> netbuf_read \<times> read_out list \<Rightarrow> (int \<times> io \<times> netbuf_read \<times> read_out list) option" where
  "callback_read script rc lenread io c =
     (case c of (R, log) \<Rightarrow> do {
        cassert (nb_read_cookie R \<noteq> None);
        let R = R\<lparr>nb_read_cookie := None\<rparr>;
        if lenread < 0 then user_callback script rc (-1) io (R, log)
        else if lenread = 0 then user_callback script rc 1 io (R, log)
        else user_callback script rc 0 io (R\<lparr>nb_datalen := szadd (nb_datalen R) (nat lenread)\<rparr>, log)
      })"

definition store_reader :: "nat \<Rightarrow> bytes \<Rightarrow> netbuf_read \<times> read_out list \<Rightarrow> (netbuf_read \<times> read_out list) option" where
  "store_reader off bs c = (case c of (R, log) \<Rightarrow> do { b \<leftarrow> mem_store (nb_buf R) off bs; Some (R\<lparr>nb_buf := b\<rparr>, log) })"

text \<open>A call by the user, the socket becoming ready, the immediate event being run.\<close>

datatype reader_step =
    RCall reader_call
  | RReady recv_answer bool "reader_call list" int
  | RImmediate "reader_call list" int

fun read_step :: "reader_step \<Rightarrow> reader \<Rightarrow> (reader \<times> int) option" where
  "read_step (RCall c) s = do { s \<leftarrow> read_call c s; Some (s, 0) }"
| "read_step (RReady recv reg script rc) (io, c) = do {
     (rc, io, c) \<leftarrow> read_ready store_reader (callback_read script rc) recv reg io c;
     Some ((io, c), rc)
   }"
| "read_step (RImmediate script rc) (io, c) =
     (case io_imm io of
        None \<Rightarrow> Some ((io, c), 0)
      | Some i \<Rightarrow> do {
          (rc, io, c) \<leftarrow> callback_success script rc (io\<lparr>io_imm := None\<rparr>) c;
          Some ((io, c), rc)
        })"


section \<open>The specification\<close>

text \<open>
  A reader is the bytes that are buffered, those that a read in progress has received, and how
  many of these it needs.
\<close>

record abs_reader =
  ar_buffered :: bytes
  ar_inflight :: bytes
  ar_need :: "nat option"
  ar_imm :: bool
  ar_callback :: nat
  ar_stream :: bytes
  ar_log :: "read_out list"

definition say :: "read_out \<Rightarrow> abs_reader \<Rightarrow> abs_reader" where
  "say out a = a\<lparr>ar_log := ar_log a @ [out]\<rparr>"

fun read_spec :: "reader_call \<Rightarrow> abs_reader \<Rightarrow> abs_reader \<Rightarrow> bool" where
  "read_spec (RWait callback len imm mem pool reg) a a' \<longleftrightarrow>
     (let b = a\<lparr>ar_callback := callback\<rparr> in
      if len \<le> length (ar_buffered a) then
        a' = (if imm = None then say (ORc (-1)) b else say (ORc 0) (b\<lparr>ar_imm := True\<rparr>))
      else
        a' = say (ORc (-1)) b \<and> (mem = None \<or> \<not> pool \<or> \<not> reg \<or> SSIZE_MAX < 2 * len) \<or>
        a' = say (ORc 0) (b\<lparr>ar_need := Some (len - length (ar_buffered a))\<rparr>) \<and> pool \<and> reg)"
| "read_spec RCancel a a' \<longleftrightarrow> a' = a\<lparr>ar_need := None, ar_inflight := [], ar_imm := False\<rparr>"
| "read_spec (RConsume n) a a' \<longleftrightarrow> a' = say (OConsume n) (a\<lparr>ar_buffered := drop n (ar_buffered a)\<rparr>)"
| "read_spec RPeek a a' \<longleftrightarrow> a' = say (OPeek (ar_buffered a)) a"

fun abs_pre :: "reader_call \<Rightarrow> abs_reader \<Rightarrow> bool" where
  "abs_pre (RWait callback len imm a pool reg) r \<longleftrightarrow> ar_need r = None \<and> \<not> ar_imm r"
| "abs_pre RCancel r \<longleftrightarrow> True"
| "abs_pre (RConsume n) r \<longleftrightarrow> n \<le> length (ar_buffered r)"
| "abs_pre RPeek r \<longleftrightarrow> True"

fun read_specs :: "reader_call list \<Rightarrow> abs_reader \<Rightarrow> abs_reader \<Rightarrow> bool" where
  "read_specs [] a a' \<longleftrightarrow> a' = a"
| "read_specs (c # cs) a a' \<longleftrightarrow> (if abs_pre c a then \<exists>b. read_spec c a b \<and> read_specs cs b a' else read_specs cs a a')"

text \<open>The callback is called with a status, and then the script runs.\<close>

definition spec_callback :: "reader_call list \<Rightarrow> int \<Rightarrow> abs_reader \<Rightarrow> abs_reader \<Rightarrow> bool" where
  "spec_callback script status a a' \<longleftrightarrow> read_specs script (say (OCallback (ar_callback a) status) a) a'"

text \<open>The read ends without adding to the buffer: what it has received is lost.\<close>

definition spec_end :: "reader_call list \<Rightarrow> int \<Rightarrow> abs_reader \<Rightarrow> abs_reader \<Rightarrow> bool" where
  "spec_end script status a a' \<longleftrightarrow> spec_callback script status (a\<lparr>ar_need := None, ar_inflight := []\<rparr>) a'"

fun read_step_spec :: "reader_step \<Rightarrow> abs_reader \<Rightarrow> int \<Rightarrow> abs_reader \<Rightarrow> bool" where
  "read_step_spec (RCall c) a rc a' \<longleftrightarrow> rc = 0 \<and> read_spec c a a'"
| "read_step_spec (RReady recv reg script urc) a rc a' \<longleftrightarrow>
     (case ar_need a of
        None \<Rightarrow> rc = 0 \<and> a' = a
      | Some need \<Rightarrow>
          (case recv of
             RecvError \<Rightarrow> rc = urc \<and> spec_end script (-1) a a'
           | RecvAgain \<Rightarrow> if reg then rc = 0 \<and> a' = a else rc = urc \<and> spec_end script (-1) a a'
           | RecvData [] \<Rightarrow> rc = urc \<and> spec_end script 1 a a'
           | RecvData (w # ws) \<Rightarrow>
               (\<exists>d e b. w # ws = d @ e \<and> d \<noteq> [] \<and>
                  b = a\<lparr>ar_inflight := ar_inflight a @ d, ar_stream := ar_stream a @ d\<rparr> \<and>
                  (if length (ar_inflight b) < need then
                     (if reg then rc = 0 \<and> a' = b else rc = urc \<and> spec_end script (-1) b a')
                   else rc = urc \<and> spec_end script 0 (b\<lparr>ar_buffered := ar_buffered b @ ar_inflight b\<rparr>) a'))))"
| "read_step_spec (RImmediate script urc) a rc a' \<longleftrightarrow>
     (if ar_imm a then rc = urc \<and> spec_callback script 0 (a\<lparr>ar_imm := False\<rparr>) a' else rc = 0 \<and> a' = a)"


section \<open>The abstraction and the invariant\<close>

definition rd_cookie :: "io \<Rightarrow> netbuf_read \<Rightarrow> rw_cookie option" where
  "rd_cookie io R = Option.bind (nb_read_cookie R) (io_pool io)"

fun rd_abs :: "reader \<Rightarrow> abs_reader" where
  "rd_abs (io, R, log) =
     \<lparr>ar_buffered = take (nb_datalen R - nb_bufpos R) (drop (nb_bufpos R) (nb_buf R)),
      ar_inflight = (case rd_cookie io R of None \<Rightarrow> [] | Some ck \<Rightarrow> take (rw_bufpos ck) (drop (nb_datalen R) (nb_buf R))),
      ar_need = map_option rw_minlen (rd_cookie io R),
      ar_imm = (nb_immediate_cookie R \<noteq> None),
      ar_callback = nb_callback R, ar_stream = io_stream io, ar_log = log\<rparr>"

text \<open>\<open>D\<close> are the cookies whose callback is running, which are freed when it has returned.\<close>

fun rd_inv :: "nat set \<Rightarrow> reader \<Rightarrow> bool" where
  "rd_inv D (io, R, log) \<longleftrightarrow>
     length (nb_buf R) = nb_buflen R \<and> nb_bufpos R \<le> nb_datalen R \<and> nb_datalen R \<le> nb_buflen R \<and>
     nb_buflen R \<le> SSIZE_MAX \<and> io_imm io = nb_immediate_cookie R \<and> (\<forall>i \<in> dom (io_pool io). i < io_next io) \<and>
     (case nb_read_cookie R of
        None \<Rightarrow> dom (io_pool io) = D \<and> io_event io = None
      | Some C \<Rightarrow> C \<notin> D \<and> dom (io_pool io) = insert C D \<and> io_event io = Some C \<and> nb_immediate_cookie R = None \<and>
          (\<exists>ck. io_pool io C = Some ck \<and> rw_buf ck = nb_datalen R \<and> rw_buflen ck = nb_buflen R - nb_datalen R \<and>
             rw_bufpos ck < rw_minlen ck \<and> rw_minlen ck \<le> rw_buflen ck))"

text \<open>The buffer is in order and holds the bytes \<open>B\<close>.\<close>

definition rd_buf :: "netbuf_read \<Rightarrow> bytes \<Rightarrow> bool" where
  "rd_buf R B \<longleftrightarrow> length (nb_buf R) = nb_buflen R \<and> nb_bufpos R \<le> nb_datalen R \<and> nb_datalen R \<le> nb_buflen R \<and>
     nb_buflen R \<le> SSIZE_MAX \<and> take (nb_datalen R - nb_bufpos R) (drop (nb_bufpos R) (nb_buf R)) = B"

definition same_reader :: "netbuf_read \<Rightarrow> netbuf_read \<Rightarrow> bool" where
  "same_reader R R' \<longleftrightarrow> nb_s R' = nb_s R \<and> nb_callback R' = nb_callback R \<and> nb_read_cookie R' = nb_read_cookie R \<and>
     nb_immediate_cookie R' = nb_immediate_cookie R"

lemma rd_buf_length: "rd_buf R B \<Longrightarrow> length B = nb_datalen R - nb_bufpos R"
  by (auto simp: rd_buf_def)

lemma rd_buf_sub: "rd_buf R B \<Longrightarrow> szsub (nb_datalen R) (nb_bufpos R) = length B"
  "rd_buf R B \<Longrightarrow> szsub (nb_buflen R) (nb_bufpos R) = nb_buflen R - nb_bufpos R"
  "rd_buf R B \<Longrightarrow> szsub (nb_buflen R) (nb_datalen R) = nb_buflen R - nb_datalen R"
  using SSIZE_SIZE(1) [of "nb_buflen R"] by (auto simp: rd_buf_def)

lemma rd_resize_ok:
  assumes B: "rd_buf R B"
  shows "okp (netbuf_read_resize_buffer a R len) (\<lambda>(rc, R').
    if a = None \<or> SSIZE_MAX < max (2 * nb_buflen R) len then rc = -1 \<and> R' = R else rc = 0 \<and> rd_buf R' B \<and> len \<le> nb_buflen R' \<and> same_reader R R')"
proof -
  let ?n = "max (2 * nb_buflen R) len"
  have n: "(if szmul (nb_buflen R) 2 < len then len else szmul (nb_buflen R) 2) = ?n"
    using B SSIZE_SIZE(3) [of "nb_buflen R"] by (auto simp: max_def mult.commute rd_buf_def)
  have B': "take (length B) (drop (nb_bufpos R) (nb_buf R)) = B" "nb_bufpos R + length B \<le> length (nb_buf R)" "length B \<le> ?n"
    using B rd_buf_length [OF B] by (auto simp: rd_buf_def max_def)
  let ?b = "B @ drop (length B) (map junk [0..<?n])"
  show ?thesis
  proof (cases "a = None \<or> SSIZE_MAX < ?n")
    case True
    then have "c_malloc a ?n = None" by (auto simp: c_malloc_def)
    then show ?thesis unfolding netbuf_read_resize_buffer_def Let_def n using True by simp
  next
    case False
    then obtain junk where junk: "a = Some junk" "?n \<le> SSIZE_MAX" by (cases a) (auto simp: less_max_iff_disj)
    have "netbuf_read_resize_buffer a R len =
        Some (0, R\<lparr>nb_buf := B @ drop (length B) (map junk [0..<?n]), nb_buflen := ?n, nb_datalen := length B, nb_bufpos := 0\<rparr>)"
      unfolding netbuf_read_resize_buffer_def Let_def n
      using junk B' by (simp add: c_malloc_def c_realloc_def rd_buf_sub [OF B] mem_load_def mem_store_def)
    then show ?thesis using False junk B' by (simp add: rd_buf_def same_reader_def less_max_iff_disj)
  qed
qed

lemma memmove_ok:
  assumes B: "rd_buf R B" and len: "len \<le> nb_buflen R"
  shows "okp (if szsub (nb_buflen R) (nb_bufpos R) < len then do {
      src \<leftarrow> mem_load (nb_buf R) (nb_bufpos R) (szsub (nb_datalen R) (nb_bufpos R));
      b \<leftarrow> mem_store (nb_buf R) 0 src;
      let R = R\<lparr>nb_buf := b, nb_datalen := szsub (nb_datalen R) (nb_bufpos R)\<rparr>;
      Some (R\<lparr>nb_bufpos := 0\<rparr>) } else Some R)
    (\<lambda>R'. rd_buf R' B \<and> nb_bufpos R' + len \<le> nb_buflen R' \<and> same_reader R R')"
proof -
  have B': "take (length B) (drop (nb_bufpos R) (nb_buf R)) = B" "nb_bufpos R + length B \<le> length (nb_buf R)"
    using B rd_buf_length [OF B] by (auto simp: rd_buf_def)
  show ?thesis using B B' len
    by (auto simp: rd_buf_sub [OF B] mem_load_def mem_store_def rd_buf_def same_reader_def)
qed

lemma rd_inv_buf: "rd_inv D (io, R, log) \<Longrightarrow> rd_buf R (ar_buffered (rd_abs (io, R, log)))"
  by (simp add: rd_buf_def)

lemma wait_ok:
  assumes inv: "rd_inv D (io, R, log)" and pre: "read_pre (RWait callback len imm a pool reg) (io, R, log)"
  shows "okp (read_call (RWait callback len imm a pool reg) (io, R, log))
    (\<lambda>s'. rd_inv D s' \<and> read_spec (RWait callback len imm a pool reg) (rd_abs (io, R, log)) (rd_abs s'))"
proof -
  define R0 where "R0 = R\<lparr>nb_callback := callback\<rparr>"
  define B where "B = ar_buffered (rd_abs (io, R, log))"
  have B: "rd_buf R0 B" using rd_inv_buf [OF inv] by (simp add: R0_def B_def rd_buf_def)
  have none: "nb_read_cookie R = None" "nb_immediate_cookie R = None" "io_imm io = None" "io_event io = None" "dom (io_pool io) = D"
    and fresh: "\<forall>i \<in> dom (io_pool io). i < io_next io"
    using inv pre by auto
  have abs: "rd_abs (io, R, log) = \<lparr>ar_buffered = B, ar_inflight = [], ar_need = None, ar_imm = False,
      ar_callback = nb_callback R, ar_stream = io_stream io, ar_log = log\<rparr>"
    using none by (simp add: B_def rd_cookie_def)
  have abs': "rd_abs (io', R', log') = \<lparr>ar_buffered = B, ar_inflight = [], ar_need = None, ar_imm = False,
      ar_callback = callback, ar_stream = io_stream io', ar_log = log'\<rparr>"
    if "rd_buf R' B" "same_reader R0 R'" for io' R' log'
    using that none by (simp add: rd_cookie_def rd_buf_def same_reader_def R0_def)
  have inv': "rd_inv D (io\<lparr>io_next := n\<rparr>, R', log')" if "rd_buf R' B" "same_reader R0 R'" "io_next io \<le> n" for R' log' n
  proof -
    have "\<forall>i \<in> dom (io_pool io). i < n" using fresh that(3) by (meson less_le_trans)
    then show ?thesis using that none by (simp add: rd_buf_def same_reader_def R0_def)
  qed
  have io: "io = io\<lparr>io_next := io_next io\<rparr>" by simp
  have inv0: "rd_inv D (io, R', log')" if "rd_buf R' B" "same_reader R0 R'" for R' log'
    using inv' [OF that, of "io_next io"] by simp
  have same0: "same_reader R0 R0" by (simp add: same_reader_def)
  show ?thesis
  proof (cases "len \<le> length B")
    case True
    have eq: "netbuf_read_wait imm a pool reg io R len callback =
        (if imm = None then Some (-1, io, R0\<lparr>nb_immediate_cookie := imm\<rparr>)
         else Some (0, io\<lparr>io_imm := imm\<rparr>, R0\<lparr>nb_immediate_cookie := imm\<rparr>))"
      using True none rd_buf_sub(1) [OF B] by (simp add: netbuf_read_wait_def R0_def [symmetric] Let_def)
    have "R0\<lparr>nb_immediate_cookie := None\<rparr> = R0" using none by (simp add: R0_def)
    then show ?thesis using True eq abs none inv0 [OF B same0] abs' [OF B same0] B
      by (cases imm) (auto simp: Let_def say_def rd_cookie_def R0_def rd_buf_def)
  next
    case False
    obtain rc R1 where s1: "(if nb_buflen R0 < len then netbuf_read_resize_buffer a R0 len else Some (0, R0)) = Some (rc, R1)"
      and R1: "rc = 0 \<and> rd_buf R1 B \<and> len \<le> nb_buflen R1 \<and> same_reader R0 R1 \<or>
        rc = -1 \<and> (a = None \<or> SSIZE_MAX < 2 * len) \<and> R1 = R0"
    proof (cases "nb_buflen R0 < len")
      case True
      from rd_resize_ok [OF B, of a len] obtain rc R1 where "netbuf_read_resize_buffer a R0 len = Some (rc, R1)"
        "if a = None \<or> SSIZE_MAX < max (2 * nb_buflen R0) len then rc = -1 \<and> R1 = R0
         else rc = 0 \<and> rd_buf R1 B \<and> len \<le> nb_buflen R1 \<and> same_reader R0 R1"
        by (elim okp_pairE) blast
      moreover have "SSIZE_MAX < max (2 * nb_buflen R0) len \<Longrightarrow> SSIZE_MAX < 2 * len" using True by auto
      ultimately show ?thesis using True that [of rc R1] by (auto split: if_splits)
    next
      case F: False
      then show ?thesis using that [of 0 R0] B same0 by simp
    qed
    show ?thesis
    proof (cases "rc = 0")
      case F: False
      then have R1': "rc = -1" "a = None \<or> SSIZE_MAX < 2 * len" "R1 = R0" using R1 by auto
      have "netbuf_read_wait imm a pool reg io R len callback = Some (-1, io, R0)"
        using False none rd_buf_sub(1) [OF B] s1 R1'(1, 3) by (simp add: netbuf_read_wait_def R0_def [symmetric])
      then show ?thesis using False R1'(2) abs inv0 [OF B same0] abs' [OF B same0] by (simp add: Let_def say_def)
    next
      case True
      then have R1': "rd_buf R1 B" "len \<le> nb_buflen R1" "same_reader R0 R1" using R1 by auto
      obtain R2 where s2: "(if szsub (nb_buflen R1) (nb_bufpos R1) < len then do {
          src \<leftarrow> mem_load (nb_buf R1) (nb_bufpos R1) (szsub (nb_datalen R1) (nb_bufpos R1));
          b \<leftarrow> mem_store (nb_buf R1) 0 src;
          let R = R1\<lparr>nb_buf := b, nb_datalen := szsub (nb_datalen R1) (nb_bufpos R1)\<rparr>;
          Some (R\<lparr>nb_bufpos := 0\<rparr>) } else Some R1) = Some R2"
        and R2: "rd_buf R2 B" "nb_bufpos R2 + len \<le> nb_buflen R2" "same_reader R1 R2"
        using memmove_ok [OF R1'(1, 2)] unfolding okp_iff by blast
      have same: "same_reader R0 R2" using R1'(3) R2(3) by (simp add: same_reader_def)
      have lenB: "nb_datalen R2 = nb_bufpos R2 + length B" using R2(1) rd_buf_length [OF R2(1)] by (simp add: rd_buf_def)
      have bl: "nb_buflen R2 \<le> SSIZE_MAX" using R2(1) by (simp add: rd_buf_def)
      have "nb_bufpos R2 + len \<le> SIZE_MAX" using SSIZE_SIZE(1) [OF bl] R2(2) by simp
      then have need: "szsub (szadd (nb_bufpos R2) len) (nb_datalen R2) = len - length B"
        using False lenB by simp
      let ?ck = "\<lparr>rw_fd = nb_s R2, rw_buf = nb_datalen R2, rw_buflen = nb_buflen R2 - nb_datalen R2, rw_minlen = len - length B, rw_bufpos = 0\<rparr>"
      have wait_eq: "netbuf_read_wait imm a pool reg io R len callback = do {
          (ck, io) \<leftarrow> network_read pool reg (nb_s R2) (nb_datalen R2) (nb_buflen R2 - nb_datalen R2) (len - length B) io;
          let R = R2\<lparr>nb_read_cookie := ck\<rparr>;
          if ck = None then Some (-1, io, R) else Some (0, io, R) }"
        using False none rd_buf_sub(1) [OF B] s1 s2 True rd_buf_sub(3) [OF R2(1)] need
        by (simp add: netbuf_read_wait_def R0_def [symmetric] Let_def)
      obtain n where nr: "network_read pool reg (nb_s R2) (nb_datalen R2) (nb_buflen R2 - nb_datalen R2) (len - length B) io =
          (if pool \<and> reg then Some (Some (io_next io), io\<lparr>io_pool := (io_pool io)(io_next io \<mapsto> ?ck),
              io_next := Suc (io_next io), io_event := Some (io_next io)\<rparr>)
           else Some (None, io\<lparr>io_next := n\<rparr>))" and n: "io_next io \<le> n"
      proof -
        have "0 < nb_buflen R2 - nb_datalen R2" "nb_buflen R2 - nb_datalen R2 \<le> SSIZE_MAX" using False lenB R2(2) bl by auto
        then show ?thesis
          using network_read_ok [OF _ _ none(4) fresh, of _ pool reg "nb_s R2" "nb_datalen R2" "len - length B"] that by blast
      qed
      have eq: "netbuf_read_wait imm a pool reg io R len callback = do {
          (ck, io) \<leftarrow> (if pool \<and> reg then Some (Some (io_next io), io\<lparr>io_pool := (io_pool io)(io_next io \<mapsto> ?ck),
              io_next := Suc (io_next io), io_event := Some (io_next io)\<rparr>) else Some (None, io\<lparr>io_next := n\<rparr>));
          let R = R2\<lparr>nb_read_cookie := ck\<rparr>;
          if ck = None then Some (-1, io, R) else Some (0, io, R) }"
        unfolding wait_eq nr ..
      show ?thesis
      proof (cases "pool \<and> reg")
        case F: False
        have "R2\<lparr>nb_read_cookie := None\<rparr> = R2" using same none by (simp add: same_reader_def R0_def)
        then have "netbuf_read_wait imm a pool reg io R len callback = Some (-1, io\<lparr>io_next := n\<rparr>, R2)"
          unfolding eq using F by auto
        then show ?thesis using F False abs inv' [OF R2(1) same n] abs' [OF R2(1) same] by (auto simp: Let_def say_def simp del: rd_inv.simps)
      next
        case C: True
        let ?io = "io\<lparr>io_pool := (io_pool io)(io_next io \<mapsto> ?ck), io_next := Suc (io_next io), io_event := Some (io_next io)\<rparr>"
        have "netbuf_read_wait imm a pool reg io R len callback = Some (0, ?io, R2\<lparr>nb_read_cookie := Some (io_next io)\<rparr>)"
          unfolding eq using C by auto
        moreover have "io_next io \<notin> dom (io_pool io)" using fresh by auto
        then have "rd_inv D (?io, R2\<lparr>nb_read_cookie := Some (io_next io)\<rparr>, log @ [ORc 0])"
          using R2 lenB False same none fresh by (auto simp: rd_buf_def same_reader_def R0_def less_Suc_eq)
        moreover have "rd_abs (?io, R2\<lparr>nb_read_cookie := Some (io_next io)\<rparr>, log @ [ORc 0]) =
          \<lparr>ar_buffered = B, ar_inflight = [], ar_need = Some (len - length B), ar_imm = False,
           ar_callback = callback, ar_stream = io_stream io, ar_log = log @ [ORc 0]\<rparr>"
          using R2(1) same none by (simp add: rd_buf_def same_reader_def R0_def rd_cookie_def)
        ultimately show ?thesis using C False abs by (simp add: Let_def say_def del: rd_inv.simps rd_abs.simps)
      qed
    qed
  qed
qed

lemma cancel_ok:
  assumes inv: "rd_inv D (io, R, log)"
  shows "okp (read_call RCancel (io, R, log)) (\<lambda>s'. rd_inv D s' \<and> read_spec RCancel (rd_abs (io, R, log)) (rd_abs s'))"
proof (cases "nb_read_cookie R")
  case None
  then show ?thesis using inv
    by (cases "nb_immediate_cookie R") (auto simp: netbuf_read_wait_cancel_def rd_cookie_def)
next
  case (Some C)
  then obtain ck where "C \<notin> D" "dom (io_pool io) = insert C D" "nb_immediate_cookie R = None" "io_pool io C = Some ck"
    using inv by auto
  then show ?thesis using inv Some
    by (auto simp: netbuf_read_wait_cancel_def network_read_cancel_def pool_free_def net_cancel_def rd_cookie_def)
qed

lemma consume_peek_ok:
  assumes inv: "rd_inv D (io, R, log)"
  shows "n \<le> nb_datalen R - nb_bufpos R \<Longrightarrow>
      okp (read_call (RConsume n) (io, R, log)) (\<lambda>s'. rd_inv D s' \<and> read_spec (RConsume n) (rd_abs (io, R, log)) (rd_abs s'))"
    and "okp (read_call RPeek (io, R, log)) (\<lambda>s'. rd_inv D s' \<and> read_spec RPeek (rd_abs (io, R, log)) (rd_abs s'))"
proof -
  define B where "B = ar_buffered (rd_abs (io, R, log))"
  have B: "rd_buf R B" using rd_inv_buf [OF inv] by (simp add: B_def)
  have le: "nb_bufpos R \<le> nb_datalen R" "nb_datalen R \<le> length (nb_buf R)" "nb_datalen R \<le> SIZE_MAX"
    using B SSIZE_SIZE(1) [of "nb_buflen R"] by (auto simp: rd_buf_def)
  show "okp (read_call RPeek (io, R, log)) (\<lambda>s'. rd_inv D s' \<and> read_spec RPeek (rd_abs (io, R, log)) (rd_abs s'))"
    using inv le by (auto simp: netbuf_read_peek_def wp_rules rd_cookie_def say_def)
  assume n: "n \<le> nb_datalen R - nb_bufpos R"
  have "take (nb_datalen R - (nb_bufpos R + n)) (drop (nb_bufpos R + n) (nb_buf R)) =
      drop n (take (nb_datalen R - nb_bufpos R) (drop (nb_bufpos R) (nb_buf R)))"
    using n le by (simp add: drop_take add.commute)
  then show "okp (read_call (RConsume n) (io, R, log)) (\<lambda>s'. rd_inv D s' \<and> read_spec (RConsume n) (rd_abs (io, R, log)) (rd_abs s'))"
    using inv le n by (auto simp: netbuf_read_consume_def wp_rules rd_cookie_def say_def split: option.splits)
qed

lemma call_ok:
  assumes inv: "rd_inv D s" and pre: "read_pre c s"
  shows "okp (read_call c s) (\<lambda>s'. rd_inv D s' \<and> read_spec c (rd_abs s) (rd_abs s'))"
proof -
  obtain io R log where s: "s = (io, R, log)" by (cases s)
  show ?thesis
  proof (cases c)
    case (RWait callback len imm a pool reg)
    then show ?thesis using wait_ok [of D io R log callback len imm a pool reg] inv pre unfolding s by blast
  next
    case RCancel
    then show ?thesis using cancel_ok [of D io R log] inv unfolding s by blast
  next
    case (RConsume n)
    then show ?thesis using consume_peek_ok(1) [of D io R log n] inv pre unfolding s by simp
  next
    case RPeek
    then show ?thesis using consume_peek_ok(2) [of D io R log] inv unfolding s by simp
  qed
qed

lemma pre_abs: "rd_inv D s \<Longrightarrow> read_pre c s = abs_pre c (rd_abs s)"
  by (cases s; cases c) (auto simp: rd_cookie_def split: option.splits)

lemma calls_ok:
  "rd_inv D s \<Longrightarrow> okp (read_calls cs s) (\<lambda>s'. rd_inv D s' \<and> read_specs cs (rd_abs s) (rd_abs s'))"
proof (induction cs arbitrary: s)
  case (Cons c cs)
  show ?case
  proof (cases "read_pre c s")
    case True
    obtain s1 where s1: "read_call c s = Some s1" "rd_inv D s1" "read_spec c (rd_abs s) (rd_abs s1)"
      using call_ok [OF Cons.prems True] by (auto simp: okp_iff)
    show ?thesis using Cons.IH [OF s1(2)] s1 True pre_abs [OF Cons.prems, of c] by (auto elim!: okp_mono)
  next
    case False
    then show ?thesis using Cons.IH [OF Cons.prems] pre_abs [OF Cons.prems, of c] by (auto elim!: okp_mono)
  qed
qed simp

lemma user_callback_ok:
  assumes "rd_inv D (io, R, log)"
  shows "okp (user_callback script rc status io (R, log))
    (\<lambda>(rc', s'). rc' = rc \<and> rd_inv D s' \<and> spec_callback script status (rd_abs (io, R, log)) (rd_abs s'))"
proof -
  have "rd_inv D (io, R, log @ [OCallback (nb_callback R) status])" using assms by auto
  moreover have "rd_abs (io, R, log @ [OCallback (nb_callback R) status]) =
      say (OCallback (ar_callback (rd_abs (io, R, log))) status) (rd_abs (io, R, log))"
    by (simp add: say_def)
  ultimately show ?thesis
    using calls_ok [of D "(io, R, log @ [OCallback (nb_callback R) status])" script]
    by (auto simp: user_callback_def spec_callback_def wp_rules simp del: rd_inv.simps rd_abs.simps elim!: okp_mono)
qed

text \<open>The cookie is freed when the callback has returned.\<close>

lemma free_ok:
  assumes "rd_inv {C} (io, R, log)"
  shows "\<exists>io'. pool_free C io = Some io' \<and> rd_inv {} (io', R, log) \<and> rd_abs (io', R, log) = rd_abs (io, R, log)"
proof -
  have "C \<in> dom (io_pool io)" "nb_read_cookie R \<noteq> Some C" using assms by (auto split: option.splits)
  then show ?thesis using assms by (auto simp: pool_free_def rd_cookie_def split: option.splits)
qed

definition status_of :: "int \<Rightarrow> int" where
  "status_of n = (if n < 0 then -1 else if n = 0 then 1 else 0)"

lemma read_docallback_ok:
  assumes "nb_read_cookie R \<noteq> None"
    and R': "R' = (if 0 < n then R\<lparr>nb_read_cookie := None, nb_datalen := szadd (nb_datalen R) (nat n)\<rparr> else R\<lparr>nb_read_cookie := None\<rparr>)"
    and inv: "rd_inv {C} (io, R', log)"
  shows "okp (read_docallback (callback_read script rc) C n io (R, log))
    (\<lambda>(rc', s'). rc' = rc \<and> rd_inv {} s' \<and> spec_callback script (status_of n) (rd_abs (io, R', log)) (rd_abs s'))"
proof -
  have "callback_read script rc n io (R, log) = user_callback script rc (status_of n) io (R', log)"
    using assms(1) R' by (auto simp: callback_read_def status_of_def Let_def)
  moreover obtain rc' io1 R1 log1 where "user_callback script rc (status_of n) io (R', log) = Some (rc', io1, R1, log1)"
    and 1: "rc' = rc" "rd_inv {C} (io1, R1, log1)" "spec_callback script (status_of n) (rd_abs (io, R', log)) (rd_abs (io1, R1, log1))"
    using user_callback_ok [OF inv, of script rc "status_of n"] by (auto simp: okp_iff simp del: rd_inv.simps rd_abs.simps)
  moreover obtain io2 where "pool_free C io1 = Some io2" "rd_inv {} (io2, R1, log1)" "rd_abs (io2, R1, log1) = rd_abs (io1, R1, log1)"
    using free_ok [OF 1(2)] by blast
  ultimately show ?thesis by (simp add: read_docallback_def del: rd_inv.simps rd_abs.simps)
qed

text \<open>A read in progress: the parts of the state that the callback sees.\<close>

definition reading :: "nat \<Rightarrow> rw_cookie \<Rightarrow> reader \<Rightarrow> bool" where
  "reading C ck s \<longleftrightarrow> rd_inv {} s \<and> nb_read_cookie (fst (snd s)) = Some C \<and> io_pool (fst s) C = Some ck"

lemma end_ok:
  assumes r: "reading C ck (io, R, log)" and n: "n \<le> 0"
  shows "okp (read_docallback (callback_read script rc) C n (io\<lparr>io_event := None\<rparr>) (R, log))
    (\<lambda>(rc', s'). rc' = rc \<and> rd_inv {} s' \<and> spec_end script (status_of n) (rd_abs (io, R, log)) (rd_abs s'))"
proof -
  let ?R = "R\<lparr>nb_read_cookie := None\<rparr>" and ?io = "io\<lparr>io_event := None\<rparr>"
  have "nb_read_cookie R = Some C" using r by (simp add: reading_def)
  then have "dom (io_pool io) = {C}" using r by (simp add: reading_def)
  then have inv: "rd_inv {C} (?io, ?R, log)" using r by (simp add: reading_def)
  have "rd_abs (?io, ?R, log) = (rd_abs (io, R, log))\<lparr>ar_need := None, ar_inflight := []\<rparr>"
    using r by (simp add: reading_def rd_cookie_def)
  with read_docallback_ok [of R ?R n C ?io log script rc, OF _ _ inv] r n show ?thesis
    by (simp add: spec_end_def reading_def del: rd_inv.simps rd_abs.simps)
qed

lemma again_ok:
  assumes r: "reading C ck (io, R, log)"
  shows "okp (read_tryagain (callback_read script rc) reg C (io\<lparr>io_event := None\<rparr>) (R, log))
    (\<lambda>(rc', s'). rd_inv {} s' \<and>
       (if reg then rc' = 0 \<and> rd_abs s' = rd_abs (io, R, log)
        else rc' = rc \<and> spec_end script (-1) (rd_abs (io, R, log)) (rd_abs s')))"
proof (cases reg)
  case True
  have "io_event io = Some C" using r by (auto simp: reading_def)
  then have "io\<lparr>io_event := Some C\<rparr> = io" by simp
  then show ?thesis using True r by (simp add: read_tryagain_def net_register_def reading_def del: rd_inv.simps rd_abs.simps)
next
  case False
  then show ?thesis using end_ok [OF r, of "-1" script rc]
    by (auto simp: read_tryagain_def net_register_def status_of_def simp del: rd_inv.simps rd_abs.simps elim!: okp_mono)
qed

text \<open>Some bytes have been stored behind those that the read has received so far.\<close>

lemma stored_buf:
  assumes "length buf = n" "bp \<le> dl" "dl + k + length bs \<le> n" and b: "b = take (dl + k) buf @ bs @ drop (dl + k + length bs) buf"
  shows "length b = n" "take (dl - bp) (drop bp b) = take (dl - bp) (drop bp buf)"
    "take (k + length bs) (drop dl b) = take k (drop dl buf) @ bs"
    "take (dl + (k + length bs) - bp) (drop bp b) = take (dl - bp) (drop bp buf) @ take k (drop dl buf) @ bs"
proof -
  show l: "length b = n" using assms by simp
  show 2: "take (dl - bp) (drop bp b) = take (dl - bp) (drop bp buf)" using assms by (simp add: take_drop min_def)
  have "drop dl b = take k (drop dl buf) @ bs @ drop (dl + k + length bs) buf" using assms by (simp add: drop_take)
  moreover have "length (take k (drop dl buf)) = k" using assms(1, 3) by simp
  ultimately show 3: "take (k + length bs) (drop dl b) = take k (drop dl buf) @ bs"
    using take_add [of k "length bs" "drop dl b"] by (metis append_eq_conv_conj)
  have "take (dl + (k + length bs) - bp) (drop bp b) = take (dl - bp) (drop bp b) @ take (k + length bs) (drop dl b)"
    using assms(2) take_add [of "dl - bp" "k + length bs" "drop bp b"] by simp
  then show "take (dl + (k + length bs) - bp) (drop bp b) = take (dl - bp) (drop bp buf) @ take k (drop dl buf) @ bs"
    using 2 3 by simp
qed

lemma ready_ok:
  assumes inv: "rd_inv {} s"
  shows "okp (read_step (RReady recv reg script urc) s)
    (\<lambda>(s', rc). rd_inv {} s' \<and> read_step_spec (RReady recv reg script urc) (rd_abs s) rc (rd_abs s'))"
proof -
  obtain io R log where s: "s = (io, R, log)" by (cases s)
  show ?thesis
  proof (cases "nb_read_cookie R")
    case None
    then have "io_event io = None" using inv s by simp
    then show ?thesis using None inv s by (simp add: read_ready_def rd_cookie_def)
  next
    case (Some C)
    obtain ck where ck: "io_event io = Some C" "io_pool io C = Some ck" "rw_buf ck = nb_datalen R"
        "rw_buflen ck = nb_buflen R - nb_datalen R" "rw_bufpos ck < rw_minlen ck" "rw_minlen ck \<le> rw_buflen ck"
        "dom (io_pool io) = {C}" "nb_immediate_cookie R = None"
      using inv Some s by auto
    have r: "reading C ck (io, R, log)" using inv Some ck s by (simp add: reading_def)
    have a: "ar_need (rd_abs s) = Some (rw_minlen ck)" using ck Some s by (simp add: rd_cookie_def)
    let ?oplen = "rw_buflen ck - rw_bufpos ck"
    have buf: "rd_buf R (ar_buffered (rd_abs s))" using rd_inv_buf inv s by simp
    have sz: "rw_buflen ck \<le> SSIZE_MAX" "rw_buflen ck \<le> SIZE_MAX" "0 < ?oplen"
      using buf ck SSIZE_SIZE(1) [of "rw_buflen ck"] by (auto simp: rd_buf_def)
    have step: "read_step (RReady recv reg script urc) s = do {
        (rc, io, c) \<leftarrow> read_callback_buf store_reader (callback_read script urc) recv reg C (io\<lparr>io_event := None\<rparr>) (R, log);
        Some ((io, c), rc) }" using ck(1) s by (simp add: read_ready_def)
    have wrap: "okp (do { (rc, io, c) \<leftarrow> m; Some ((io, c), rc) }) Q = okp m (\<lambda>(rc, s'). Q (s', rc))" for m and Q :: "reader \<times> int \<Rightarrow> bool"
      by (cases m) auto
    note ends = end_ok [OF r, of "-1" script urc] end_ok [OF r, of 0 script urc] again_ok [OF r, of script urc reg]
    show ?thesis
    proof (cases recv)
      case RecvAgain
      then show ?thesis unfolding step wrap using ends(3) ck sz a s
        by (auto simp: read_callback_buf_def simp del: rd_inv.simps rd_abs.simps elim!: okp_mono)
    next
      case RecvError
      then show ?thesis unfolding step wrap using ends(1) ck sz a s
        by (auto simp: read_callback_buf_def status_of_def simp del: rd_inv.simps rd_abs.simps elim!: okp_mono)
    next
      case (RecvData ws)
      show ?thesis
      proof (cases ws)
        case Nil
        then show ?thesis unfolding step wrap using RecvData ends(2) ck sz a s
          by (auto simp: read_callback_buf_def status_of_def simp del: rd_inv.simps rd_abs.simps elim!: okp_mono)
      next
        case (Cons w ws')
        define bs where "bs = take ?oplen ws"
        have bs: "bs \<noteq> []" "ws = bs @ drop ?oplen ws" "rw_bufpos ck + length bs \<le> rw_buflen ck"
          using sz Cons by (auto simp: bs_def)
        define b where "b = take (nb_datalen R + rw_bufpos ck) (nb_buf R) @ bs @ drop (nb_datalen R + rw_bufpos ck + length bs) (nb_buf R)"
        note sb = stored_buf [OF _ _ _ b_def, of "nb_buflen R" "nb_bufpos R"]
        have len: "length (nb_buf R) = nb_buflen R" "nb_bufpos R \<le> nb_datalen R" "nb_datalen R + rw_bufpos ck + length bs \<le> nb_buflen R"
          using buf bs(3) ck by (auto simp: rd_buf_def)
        define ck' where "ck' = ck\<lparr>rw_bufpos := rw_bufpos ck + length bs\<rparr>"
        let ?R = "R\<lparr>nb_buf := b\<rparr>"
        let ?io = "io\<lparr>io_pool := (io_pool io)(C \<mapsto> ck'), io_stream := io_stream io @ bs\<rparr>"
        have store: "store_reader (rw_buf ck + rw_bufpos ck) bs (R, log) = Some (?R, log)"
          using len ck(3) by (simp add: store_reader_def mem_store_def b_def)
        have cb: "read_callback_buf store_reader (callback_read script urc) recv reg C (io\<lparr>io_event := None\<rparr>) (R, log) =
          (if rw_bufpos ck' < rw_minlen ck' then read_tryagain (callback_read script urc) reg C (?io\<lparr>io_event := None\<rparr>) (?R, log)
           else read_docallback (callback_read script urc) C (int (rw_bufpos ck')) (?io\<lparr>io_event := None\<rparr>) (?R, log))"
        proof -
          have io: "?io\<lparr>io_event := None\<rparr> = io\<lparr>io_event := None, io_pool := (io_pool io)(C \<mapsto> ck'), io_stream := io_stream io @ bs\<rparr>"
            by simp
          have oplen: "take (szsub (rw_buflen ck) (rw_bufpos ck)) ws = bs" using ck sz by (simp add: bs_def)
          have pos: "szadd (rw_bufpos ck) (length bs) = rw_bufpos ck + length bs" using bs sz by simp
          have "rw_bufpos ck' \<le> SSIZE_MAX" using bs sz by (simp add: ck'_def)
          moreover have "szsub (rw_buflen ck) (rw_bufpos ck) \<noteq> 0" "ws \<noteq> []" using sz Cons by simp_all
          ultimately show ?thesis unfolding io using store ck(2) bs(1) RecvData
            by (simp add: read_callback_buf_def Let_def oplen pos ck'_def [symmetric])
        qed
        let ?b = "(rd_abs s)\<lparr>ar_inflight := ar_inflight (rd_abs s) @ bs, ar_stream := ar_stream (rd_abs s) @ bs\<rparr>"
        have abs: "rd_abs (?io, ?R, log) = ?b"
          using sb [OF len] Some ck s by (simp add: rd_cookie_def ck'_def)
        have infl: "length (ar_inflight ?b) = rw_bufpos ck'" using Some ck s len by (simp add: rd_cookie_def ck'_def)
        have spec: "read_step_spec (RReady recv reg script urc) (rd_abs s) rc a'"
          if "if rw_bufpos ck' < rw_minlen ck then if reg then rc = 0 \<and> a' = ?b else rc = urc \<and> spec_end script (-1) ?b a'
              else rc = urc \<and> spec_end script 0 (?b\<lparr>ar_buffered := ar_buffered ?b @ ar_inflight ?b\<rparr>) a'" for rc a'
          using that RecvData Cons a bs(1, 2) infl by fastforce
        have minlen: "rw_minlen ck' = rw_minlen ck" by (simp add: ck'_def)
        show ?thesis
        proof (cases "rw_bufpos ck' < rw_minlen ck'")
          case True
          have "reading C ck' (?io, ?R, log)"
            using inv Some ck s sb(1) [OF len] True by (auto simp: reading_def ck'_def)
          from again_ok [OF this, of script urc reg] show ?thesis
            unfolding step wrap cb abs using True spec by (auto simp: minlen simp del: rd_inv.simps rd_abs.simps read_step_spec.simps elim!: okp_mono)
        next
          case False
          let ?n = "int (rw_bufpos ck')" and ?R' = "?R\<lparr>nb_read_cookie := None, nb_datalen := szadd (nb_datalen ?R) (nat (int (rw_bufpos ck')))\<rparr>"
          have dl: "szadd (nb_datalen R) (rw_bufpos ck') = nb_datalen R + (rw_bufpos ck + length bs)"
            using len buf SSIZE_SIZE(1) [of "nb_buflen R"] by (simp add: ck'_def rd_buf_def)
          have pos: "0 < ?n" using bs(1) by (cases bs) (simp_all add: ck'_def)
          have inv': "rd_inv {C} (?io\<lparr>io_event := None\<rparr>, ?R', log)"
            using inv Some ck s sb(1) [OF len] len dl by auto
          have "rd_abs (?io\<lparr>io_event := None\<rparr>, ?R', log) =
              (?b\<lparr>ar_buffered := ar_buffered ?b @ ar_inflight ?b\<rparr>)\<lparr>ar_need := None, ar_inflight := []\<rparr>"
            using sb(4) [OF len] Some ck s dl by (simp add: rd_cookie_def)
          with read_docallback_ok [of ?R ?R' ?n C "?io\<lparr>io_event := None\<rparr>" log script urc, OF _ _ inv'] show ?thesis
            unfolding step wrap cb using False spec Some pos
            by (auto simp: minlen status_of_def spec_end_def simp del: rd_inv.simps rd_abs.simps read_step_spec.simps elim!: okp_mono)
        qed
      qed
    qed
  qed
qed

lemma immediate_ok:
  assumes inv: "rd_inv {} s"
  shows "okp (read_step (RImmediate script urc) s)
    (\<lambda>(s', rc). rd_inv {} s' \<and> read_step_spec (RImmediate script urc) (rd_abs s) rc (rd_abs s'))"
proof -
  obtain io R log where s: "s = (io, R, log)" by (cases s)
  show ?thesis
  proof (cases "nb_immediate_cookie R")
    case None
    then show ?thesis using inv s by simp
  next
    case (Some i)
    then have none: "nb_read_cookie R = None" "io_imm io = Some i" using inv s by (auto split: option.splits)
    let ?io = "io\<lparr>io_imm := None\<rparr>" and ?R = "R\<lparr>nb_immediate_cookie := None\<rparr>"
    have inv': "rd_inv {} (?io, ?R, log)" using inv s none by simp
    have abs: "rd_abs (?io, ?R, log) = (rd_abs s)\<lparr>ar_imm := False\<rparr>" using s none by (simp add: rd_cookie_def)
    have imm: "ar_imm (rd_abs s)" using s Some by simp
    show ?thesis using user_callback_ok [OF inv', of script urc 0] none(2) Some s imm abs
      by (auto simp: callback_success_def okp_iff simp del: rd_inv.simps rd_abs.simps)
  qed
qed


section \<open>The reader as a machine\<close>

definition rd_init :: "reader \<Rightarrow> bool" where
  "rd_init s \<longleftrightarrow> (\<exists>new a fd R. netbuf_read_init new a fd = Some R \<and> s = (io0, R, []))"

definition rd_pre :: "reader_step \<Rightarrow> reader \<Rightarrow> bool" where
  "rd_pre st s \<longleftrightarrow> (case st of RCall c \<Rightarrow> read_pre c s | _ \<Rightarrow> True)"

lemma netbuf_read_init_ok:
  "netbuf_read_init new a fd = Some R \<Longrightarrow> length (nb_buf R) = 4096 \<and> nb_buflen R = 4096 \<and> nb_bufpos R = 0 \<and>
    nb_datalen R = 0 \<and> nb_read_cookie R = None \<and> nb_immediate_cookie R = None"
  by (auto simp: netbuf_read_init_def netbuf_read_init2_def c_malloc_def Let_def
      dest: length_c_realloc split: option.splits if_splits)

lemma rd_init_inv: "rd_init s \<Longrightarrow> rd_inv {} s"
  using netbuf_read_init_ok by (auto simp: rd_init_def io0_def SSIZE_MAX_def)

interpretation nbread: machine_refinement rd_init rd_pre read_step "rd_inv {}" rd_abs read_step_spec
proof (unfold_locales, goal_cases)
  case (1 s)
  then show ?case by (rule rd_init_inv)
next
  case (2 s st)
  show ?case
  proof (cases st)
    case (RCall c)
    then have "read_pre c s" using 2(2) by (simp add: rd_pre_def)
    from call_ok [OF 2(1) this] show ?thesis using RCall
      by (cases s) (auto simp: wp_rules simp del: rd_inv.simps rd_abs.simps elim!: okp_mono)
  next
    case (RReady recv reg script rc)
    then show ?thesis using ready_ok [OF 2(1)] by blast
  next
    case (RImmediate script rc)
    then show ?thesis using immediate_ok [OF 2(1)] by blast
  qed
qed


section \<open>No byte is lost or doubled\<close>

fun consumed :: "read_out list \<Rightarrow> nat" where
  "consumed [] = 0"
| "consumed (OConsume n # log) = n + consumed log"
| "consumed (_ # log) = consumed log"

lemma consumed_append: "consumed (xs @ ys) = consumed xs + consumed ys"
  by (induction xs rule: consumed.induct) auto

text \<open>What is buffered and what is in flight is what has come out of the socket and is not consumed.\<close>

definition in_order :: "abs_reader \<Rightarrow> bool" where
  "in_order a \<longleftrightarrow> drop (consumed (ar_log a)) (ar_stream a) = ar_buffered a @ ar_inflight a \<and>
     consumed (ar_log a) \<le> length (ar_stream a) \<and> (ar_need a = None \<longrightarrow> ar_inflight a = []) \<and>
     (ar_imm a \<longrightarrow> ar_need a = None)"

text \<open>A step does not end a read that has received something without completing it.\<close>

definition lossless :: "reader_step \<Rightarrow> abs_reader \<Rightarrow> bool" where
  "lossless st a \<longleftrightarrow>
     (case st of
        RCall c \<Rightarrow> c = RCancel \<longrightarrow> ar_inflight a = []
      | RReady recv reg script rc \<Rightarrow>
          (case recv of
             RecvData (w # ws) \<Rightarrow> reg
           | RecvAgain \<Rightarrow> reg \<or> ar_inflight a = []
           | _ \<Rightarrow> ar_inflight a = [])
      | RImmediate script rc \<Rightarrow> True)"

lemma say_simps [simp]: "ar_log (say x a) = ar_log a @ [x]" "ar_stream (say x a) = ar_stream a"
  "ar_buffered (say x a) = ar_buffered a" "ar_inflight (say x a) = ar_inflight a" "ar_need (say x a) = ar_need a"
  "ar_imm (say x a) = ar_imm a"
  by (simp_all add: say_def)

lemma read_spec_in_order:
  assumes "in_order a" "read_spec c a a'" "abs_pre c a" "c = RCancel \<longrightarrow> ar_inflight a = []"
  shows "in_order a'"
proof (cases c)
  case (RWait x1 x2 x3 x4 x5 x6)
  then show ?thesis using assms by (auto simp: in_order_def Let_def consumed_append split: if_splits)
next
  case (RConsume n)
  have le: "n \<le> length (ar_buffered a)" using assms RConsume by simp
  have "length (ar_stream a) = consumed (ar_log a) + length (ar_buffered a) + length (ar_inflight a)"
    using assms(1) unfolding in_order_def by (metis length_append length_drop le_add_diff_inverse add.assoc)
  moreover have "drop (consumed (ar_log a) + n) (ar_stream a) = drop n (ar_buffered a) @ ar_inflight a"
  proof -
    have "drop (consumed (ar_log a) + n) (ar_stream a) = drop n (drop (consumed (ar_log a)) (ar_stream a))"
      by (simp add: add.commute)
    also have "\<dots> = drop n (ar_buffered a @ ar_inflight a)" using assms(1) by (simp add: in_order_def)
    finally show ?thesis using le by simp
  qed
  ultimately show ?thesis using assms RConsume le by (simp add: in_order_def consumed_append)
qed (use assms in \<open>auto simp: in_order_def consumed_append\<close>)

text \<open>A script runs when no read is in progress, and a read that it starts has received nothing.\<close>

lemma read_spec_inflight: "read_spec c a a' \<Longrightarrow> ar_inflight a = [] \<Longrightarrow> ar_inflight a' = []"
  by (cases c) (auto simp: Let_def split: if_splits)

lemma read_specs_in_order:
  "read_specs cs a a' \<Longrightarrow> in_order a \<Longrightarrow> ar_inflight a = [] \<Longrightarrow> in_order a'"
proof (induction cs arbitrary: a)
  case (Cons c cs)
  show ?case
  proof (cases "abs_pre c a")
    case True
    then obtain b where b: "read_spec c a b" "read_specs cs b a'" using Cons.prems(1) by auto
    show ?thesis using Cons.IH [OF b(2)] read_spec_in_order [OF Cons.prems(2) b(1) True] read_spec_inflight [OF b(1)] Cons.prems
      by simp
  qed (use Cons in simp)
qed simp

lemma spec_callback_in_order: "spec_callback script st a a' \<Longrightarrow> in_order a \<Longrightarrow> ar_inflight a = [] \<Longrightarrow> in_order a'"
  unfolding spec_callback_def by (erule read_specs_in_order) (simp_all add: in_order_def consumed_append)

lemma spec_end_in_order: "spec_end script st a a' \<Longrightarrow> in_order a \<Longrightarrow> ar_inflight a = [] \<Longrightarrow> in_order a'"
  unfolding spec_end_def by (erule spec_callback_in_order) (simp_all add: in_order_def)

lemma step_in_order:
  assumes "in_order a" "read_step_spec st a rc a'" "lossless st a" "\<And>c. st = RCall c \<Longrightarrow> abs_pre c a"
  shows "in_order a'"
proof (cases st)
  case (RCall c)
  then show ?thesis using read_spec_in_order [OF assms(1), of c a'] assms by (simp add: lossless_def)
next
  case (RImmediate script urc)
  then show ?thesis using assms(1, 2) spec_callback_in_order [of script 0 "a\<lparr>ar_imm := False\<rparr>" a']
    by (auto simp: in_order_def split: if_splits)
next
  case (RReady recv reg script urc)
  show ?thesis
  proof (cases "ar_need a")
    case None
    then show ?thesis using assms(1, 2) RReady by simp
  next
    case (Some need)
    note fin = spec_end_in_order [OF _ assms(1)]
    show ?thesis
    proof (cases recv)
      case RecvAgain
      then show ?thesis using assms RReady Some fin by (auto simp: lossless_def split: if_splits)
    next
      case RecvError
      then show ?thesis using assms RReady Some fin by (auto simp: lossless_def)
    next
      case (RecvData ws)
      show ?thesis
      proof (cases ws)
        case Nil
        then show ?thesis using assms RReady RecvData Some fin by (auto simp: lossless_def)
      next
        case (Cons w ws')
        then have reg: reg using assms(3) RReady RecvData by (simp add: lossless_def)
        obtain d b where b: "b = a\<lparr>ar_inflight := ar_inflight a @ d, ar_stream := ar_stream a @ d\<rparr>"
          and a': "if length (ar_inflight b) < need then a' = b
            else spec_end script 0 (b\<lparr>ar_buffered := ar_buffered b @ ar_inflight b\<rparr>) a'"
        proof -
          from assms(2) obtain d e b where "b = a\<lparr>ar_inflight := ar_inflight a @ d, ar_stream := ar_stream a @ d\<rparr>"
            "if length (ar_inflight b) < need then (if reg then rc = 0 \<and> a' = b else rc = urc \<and> spec_end script (-1) b a')
             else rc = urc \<and> spec_end script 0 (b\<lparr>ar_buffered := ar_buffered b @ ar_inflight b\<rparr>) a'"
            by (simp add: RReady RecvData Cons Some) blast
          then show ?thesis using that [of b d] reg by (simp split: if_splits)
        qed
        have "in_order b" using assms(1) Some by (simp add: in_order_def b)
        moreover have "in_order ((b\<lparr>ar_buffered := ar_buffered b @ ar_inflight b\<rparr>)\<lparr>ar_need := None, ar_inflight := []\<rparr>)"
          using assms(1) Some by (simp add: in_order_def b)
        ultimately show ?thesis using a' spec_callback_in_order unfolding spec_end_def by (auto split: if_splits)
      qed
    qed
  qed
qed

section \<open>Properties\<close>

text \<open>
  C7. In every state that a reader can reach, by any calls of its user that respect the
  assertions and any answers of the socket, the allocators and the event loop, each call and each
  event returns without a fault and does what the abstract reader does: \<open>peek\<close> shows the bytes
  received and not consumed, in their order, however the buffer has been moved or grown; a wait
  completes with status 0 as soon as, and not before, the bytes that it lacked have arrived, with
  1 at the end of the stream and with -1 on an error; the callback and cookie of the latest wait
  are used, once, and every cookie is freed.
\<close>

theorem netbuf_read_refines:
  assumes "reach rd_init rd_pre read_step s" "rd_pre st s"
  shows "okp (read_step st s) (\<lambda>(s', rc). read_step_spec st (rd_abs s) rc (rd_abs s'))"
  using nbread.reach_spec [OF assms] .

definition rd_ex0 :: reader where
  "rd_ex0 = (io0, \<lparr>nb_s = 3, nb_callback = 0, nb_read_cookie = None, nb_immediate_cookie = None,
     nb_buf = map (\<lambda>_. 0) [0..<4096], nb_buflen = 4096, nb_bufpos = 0, nb_datalen = 0\<rparr>, [])"

lemma rd_ex0_init: "rd_init rd_ex0"
proof -
  let ?new = "\<lparr>nb_s = 0, nb_callback = 0, nb_read_cookie = Some 9, nb_immediate_cookie = Some 8,
     nb_buf = [], nb_buflen = 5, nb_bufpos = 6, nb_datalen = 7\<rparr>"
  have "netbuf_read_init (Some ?new) (Some (\<lambda>_. 0)) 3 = Some (fst (snd rd_ex0))"
    by (simp add: netbuf_read_init_def netbuf_read_init2_def c_malloc_def SSIZE_MAX_def c_realloc_def rd_ex0_def
        del: upt_rec_numeral)
  then show ?thesis unfolding rd_init_def rd_ex0_def by auto
qed

theorem netbuf_read_refines_witness:
  "okp (read_step (RCall (RWait 1 5000 None (Some (\<lambda>_. 0)) True True)) rd_ex0)
     (\<lambda>(s', rc). read_step_spec (RCall (RWait 1 5000 None (Some (\<lambda>_. 0)) True True)) (rd_abs rd_ex0) rc (rd_abs s'))"
  by (rule netbuf_read_refines, rule reach_init, rule rd_ex0_init) (simp add: rd_pre_def rd_ex0_def del: upt_rec_numeral)

text \<open>The steps that end no read which has received something.\<close>

definition rd_keep :: "reader_step \<Rightarrow> reader \<Rightarrow> bool" where
  "rd_keep st s \<longleftrightarrow> rd_pre st s \<and> lossless st (rd_abs s)"

lemma rd_keep_reach:
  "reach rd_init rd_keep read_step s \<Longrightarrow> rd_inv {} s \<and> in_order (rd_abs s)"
proof (induction rule: reach.induct)
  case (reach_init s)
  obtain new a fd R where "netbuf_read_init new a fd = Some R" "s = (io0, R, [])" using reach_init by (auto simp: rd_init_def)
  then have "in_order (rd_abs s)" using netbuf_read_init_ok [of new a fd R] by (simp add: in_order_def rd_cookie_def io0_def)
  then show ?case using rd_init_inv [OF reach_init] by blast
next
  case (reach_step s st s' rc)
  have pre: "rd_pre st s" "lossless st (rd_abs s)" using reach_step by (simp_all add: rd_keep_def)
  have ok: "rd_inv {} s' \<and> read_step_spec st (rd_abs s) rc (rd_abs s')"
    using nbread.step_spec [of s st] pre reach_step by auto
  moreover have "abs_pre c (rd_abs s)" if "st = RCall c" for c
    using that pre reach_step.IH pre_abs [of "{}" s c] by (simp add: rd_pre_def)
  ultimately show ?case using step_in_order [of "rd_abs s" st rc "rd_abs s'"] pre reach_step.IH by blast
qed

text \<open>
  C12. The reader neither loses nor doubles nor reorders a byte: as long as no read that has
  received something is cancelled, fails or meets the end of the stream, in every reachable state
  the bytes received from the socket are those that were consumed, then those that \<open>peek\<close> shows,
  then those that the read in progress has received.
\<close>

theorem netbuf_read_in_order:
  assumes "reach rd_init rd_keep read_step s"
  shows "drop (consumed (ar_log (rd_abs s))) (ar_stream (rd_abs s)) = ar_buffered (rd_abs s) @ ar_inflight (rd_abs s) \<and>
    netbuf_read_peek (fst (snd s)) = Some (ar_buffered (rd_abs s))"
proof -
  have inv: "rd_inv {} s" "in_order (rd_abs s)" using rd_keep_reach [OF assms] by auto
  obtain io R log where s: "s = (io, R, log)" by (cases s)
  have B: "rd_buf R (ar_buffered (rd_abs s))" using rd_inv_buf inv(1) by (simp add: s)
  then have "netbuf_read_peek R = Some (ar_buffered (rd_abs s))"
    using rd_buf_sub(1) [OF B] rd_buf_length [OF B] by (auto simp: netbuf_read_peek_def mem_load_def rd_buf_def)
  then show ?thesis using inv(2) by (simp add: in_order_def s del: rd_abs.simps)
qed

lemma keep_step:
  assumes s: "reach rd_init rd_keep read_step s" and k: "rd_keep st s"
  shows "\<exists>s' rc. read_step st s = Some (s', rc) \<and> reach rd_init rd_keep read_step s' \<and> read_step_spec st (rd_abs s) rc (rd_abs s')"
proof -
  have "okp (read_step st s) (\<lambda>(s', rc). rd_inv {} s' \<and> read_step_spec st (rd_abs s) rc (rd_abs s'))"
    using rd_keep_reach [OF s] k by (intro nbread.step_spec) (auto simp: rd_keep_def)
  then show ?thesis using reach.reach_step [OF s k] by (auto simp: okp_iff)
qed

lemma ready_part:
  assumes "read_step_spec (RReady (RecvData (w # ws)) True script urc) a rc a'" "ar_need a = Some need"
    "length (ar_inflight a) + length (w # ws) < need"
  shows "ar_need a' = Some need \<and> ar_inflight a' \<noteq> []"
proof -
  have "\<exists>d e b. w # ws = d @ e \<and> d \<noteq> [] \<and> b = a\<lparr>ar_inflight := ar_inflight a @ d, ar_stream := ar_stream a @ d\<rparr> \<and>
     (if length (ar_inflight b) < need then (if True then rc = 0 \<and> a' = b else rc = urc \<and> spec_end script (-1) b a')
      else rc = urc \<and> spec_end script 0 (b\<lparr>ar_buffered := ar_buffered b @ ar_inflight b\<rparr>) a')"
    using assms(1) by (simp only: read_step_spec.simps assms(2) option.case recv_answer.case list.case)
  then obtain d e b where d: "w # ws = d @ e" "d \<noteq> []"
    and b: "b = a\<lparr>ar_inflight := ar_inflight a @ d, ar_stream := ar_stream a @ d\<rparr>"
    and a': "if length (ar_inflight b) < need then (if True then rc = 0 \<and> a' = b else rc = urc \<and> spec_end script (-1) b a')
      else rc = urc \<and> spec_end script 0 (b\<lparr>ar_buffered := ar_buffered b @ ar_inflight b\<rparr>) a'"
    by (elim exE conjE) (rule that)
  have "length d \<le> length (w # ws)" unfolding d(1) by simp
  then show ?thesis using assms(2, 3) a' b d(2) by simp
qed

text \<open>The reader waits for ten bytes and has received some, but not all.\<close>

lemma rd_partial: "\<exists>s. reach rd_init rd_keep read_step s \<and> ar_inflight (rd_abs s) \<noteq> [] \<and> ar_need (rd_abs s) \<noteq> None"
proof -
  have ex0: "reach rd_init rd_keep read_step rd_ex0" by (rule reach_init) (rule rd_ex0_init)
  have abs0: "ar_buffered (rd_abs rd_ex0) = []" "ar_inflight (rd_abs rd_ex0) = []" by (simp_all add: rd_ex0_def rd_cookie_def)
  let ?wait = "RCall (RWait 1 10 None (Some (\<lambda>_. 0)) True True)"
  have "rd_keep ?wait rd_ex0" by (simp add: rd_keep_def rd_pre_def lossless_def rd_ex0_def)
  from keep_step [OF ex0 this] obtain s1 rc where r1: "reach rd_init rd_keep read_step s1"
    "read_step_spec ?wait (rd_abs rd_ex0) rc (rd_abs s1)" by blast
  then have "rd_abs s1 = say (ORc 0) ((rd_abs rd_ex0)\<lparr>ar_callback := 1, ar_need := Some 10\<rparr>)"
    using abs0 by (simp add: Let_def SSIZE_MAX_def del: rd_abs.simps)
  then have s1: "reach rd_init rd_keep read_step s1" "ar_need (rd_abs s1) = Some 10" "ar_inflight (rd_abs s1) = []"
    using r1(1) abs0 by simp_all
  let ?ready = "RReady (RecvData [1, 2, 3]) True [] 0"
  have "rd_keep ?ready s1" by (simp add: rd_keep_def rd_pre_def lossless_def)
  from keep_step [OF s1(1) this] obtain s2 rc where s2: "reach rd_init rd_keep read_step s2"
    "read_step_spec ?ready (rd_abs s1) rc (rd_abs s2)" by blast
  have "ar_need (rd_abs s2) = Some 10 \<and> ar_inflight (rd_abs s2) \<noteq> []"
    using ready_part [OF s2(2) s1(2)] s1(3) by (simp del: rd_abs.simps)
  then show ?thesis using s2(1) by (metis option.distinct(1))
qed

text \<open>
  C39. Cancelling a wait that has received something loses it: there is a reachable state in which
  the bytes are still accounted for, and in which \<open>netbuf_read_wait_cancel\<close>, which is allowed at
  any time and after which the reader is used again, leaves bytes that came out of the socket
  neither consumed nor buffered.
\<close>

theorem netbuf_read_cancel_loses:
  "\<exists>s s' rc. reach rd_init rd_keep read_step s \<and> rd_pre (RCall RCancel) s \<and> read_step (RCall RCancel) s = Some (s', rc) \<and>
     drop (consumed (ar_log (rd_abs s))) (ar_stream (rd_abs s)) = ar_buffered (rd_abs s) @ ar_inflight (rd_abs s) \<and>
     drop (consumed (ar_log (rd_abs s'))) (ar_stream (rd_abs s')) \<noteq> ar_buffered (rd_abs s') @ ar_inflight (rd_abs s')"
proof -
  obtain s where s: "reach rd_init rd_keep read_step s" "ar_inflight (rd_abs s) \<noteq> []" using rd_partial by blast
  have inv: "rd_inv {} s" "in_order (rd_abs s)" using rd_keep_reach [OF s(1)] by auto
  have pre: "rd_pre (RCall RCancel) s" by (simp add: rd_pre_def)
  obtain s' rc where "read_step (RCall RCancel) s = Some (s', rc)" "read_step_spec (RCall RCancel) (rd_abs s) rc (rd_abs s')"
    using nbread.step_spec [OF inv(1) pre] by (auto simp: okp_iff simp del: read_step.simps rd_inv.simps)
  then show ?thesis using s pre inv(2)
    by (intro exI [of _ s] exI [of _ s'] exI [of _ rc]) (simp add: in_order_def del: read_step.simps)
qed

theorem netbuf_read_in_order_witness:
  "\<exists>s. ar_inflight (rd_abs s) \<noteq> [] \<and>
     drop (consumed (ar_log (rd_abs s))) (ar_stream (rd_abs s)) = ar_buffered (rd_abs s) @ ar_inflight (rd_abs s)"
  using rd_partial netbuf_read_in_order by blast

end
