(* ===== verification/Netbuf_Write.thy ===== *)
theory Netbuf_Write
  imports Network_Rw "HOL-Library.Sublist"
begin

text \<open>
  The buffered writer of \<open>netbuf/netbuf_write.c\<close> on a socket, over \<open>network_write\<close>.  The variant
  over SSL is not modelled.  Write buffers are objects in a memory of their own, named by numbers
  that are used once; the queue is the list of their names.  The data that the writer has taken is
  recorded beside the state.
\<close>

section \<open>Definitions\<close>

record writebuf =
  wb_buf :: bytes
  wb_buflen :: nat
  wb_datalen :: nat

record netbuf_write =
  nw_s :: int
  nw_reserved :: bool
  nw_failed :: bool
  nw_buffers :: "nat list"
  nw_write_cookie :: "nat option"
  nw_curr :: "nat option"

text \<open>
  The write buffers; the pointer and the length of the reservation that the user holds; the data
  taken so far, and what calls have returned.
\<close>

record wmem =
  wm_bufs :: "nat \<rightharpoonup> writebuf"
  wm_next :: nat
  wm_ptr :: "(nat \<times> nat \<times> nat) option"
  wm_accepted :: bytes
  wm_log :: "int list"

type_synonym writer = "io \<times> netbuf_write option \<times> wmem"

definition WBUFLEN :: nat where
  "WBUFLEN = 4096"

definition wb_free :: "nat \<Rightarrow> wmem \<Rightarrow> wmem option" where
  "wb_free i m = (if i \<in> dom (wm_bufs m) then Some (m\<lparr>wm_bufs := (wm_bufs m)(i := None)\<rparr>) else None)"

text \<open>\<open>pool\<close> and \<open>reg\<close> are the answers to the requests of \<open>network_write\<close>.\<close>

definition poke :: "bool \<Rightarrow> bool \<Rightarrow> io \<Rightarrow> netbuf_write \<Rightarrow> wmem \<Rightarrow> (int \<times> io \<times> netbuf_write) option" where
  "poke pool reg io W m =
     (if nw_write_cookie W \<noteq> None \<or> nw_buffers W = [] then Some (0, io, W)
      else if nw_failed W then Some (0, io, W)
      else do {
        cassert (nw_curr W = None);
        let i = hd (nw_buffers W);
        WB \<leftarrow> wm_bufs m i;
        (C, io) \<leftarrow> network_write pool reg (nw_s W) 0 (wb_datalen WB) (wb_datalen WB) io;
        let W = W\<lparr>nw_write_cookie := C\<rparr>;
        if C = None then Some (-1, io, W)
        else Some (0, io, W\<lparr>nw_curr := Some i, nw_buffers := remove1 i (nw_buffers W)\<rparr>)
      })"

text \<open>\<open>new\<close> is the memory of the structure; the result of \<open>setsockopt\<close> is ignored.\<close>

definition netbuf_write_init2 :: "netbuf_write option \<Rightarrow> int \<Rightarrow> netbuf_write option option" where
  "netbuf_write_init2 new s =
     (case new of
        None \<Rightarrow> Some None
      | Some W \<Rightarrow> do {
          let W = W\<lparr>nw_s := s, nw_reserved := False, nw_failed := False, nw_buffers := [],
                nw_write_cookie := None, nw_curr := None\<rparr>;
          cassert (nw_s W \<ge> 0);
          Some (Some W)
        })"

definition netbuf_write_init :: "netbuf_write option \<Rightarrow> int \<Rightarrow> netbuf_write option option" where
  "netbuf_write_init new s = netbuf_write_init2 new s"

text \<open>\<open>STAILQ_LAST\<close>, which is NULL for an empty queue.\<close>

definition stailq_last :: "'a list \<Rightarrow> 'a option" where
  "stailq_last q = (if q = [] then None else Some (last q))"

text \<open>\<open>ok\<close> and \<open>a\<close> answer the two requests for memory; the result is the pointer, a buffer and an offset.\<close>

definition netbuf_write_reserve ::
  "bool \<Rightarrow> alloc \<Rightarrow> netbuf_write \<Rightarrow> wmem \<Rightarrow> nat \<Rightarrow> ((nat \<times> nat) option \<times> netbuf_write \<times> wmem) option" where
  "netbuf_write_reserve ok a W m len = do {
     cassert (\<not> nw_reserved W);
     let W = W\<lparr>nw_reserved := True\<rparr>;
     old \<leftarrow> (case stailq_last (nw_buffers W) of
         None \<Rightarrow> Some None
       | Some i \<Rightarrow> do {
           WB \<leftarrow> wm_bufs m i;
           Some (if szsub (wb_buflen WB) (wb_datalen WB) \<ge> len then Some (i, wb_datalen WB) else None)
         });
     (case old of
        Some p \<Rightarrow> Some (Some p, W, m)
      | None \<Rightarrow>
          if \<not> ok then Some (None, W, m)
          else
            (let i = wm_next m;
                 WB = \<lparr>wb_buf = [], wb_buflen = (if len > WBUFLEN then len else WBUFLEN), wb_datalen = 0\<rparr>;
                 m = m\<lparr>wm_next := Suc i, wm_bufs := (wm_bufs m)(i \<mapsto> WB)\<rparr> in
             (case c_malloc a (wb_buflen WB) of
                None \<Rightarrow> do { m \<leftarrow> wb_free i m; Some (None, W, m) }
              | Some b \<Rightarrow> Some (Some (i, 0), W\<lparr>nw_buffers := nw_buffers W @ [i]\<rparr>,
                  m\<lparr>wm_bufs := (wm_bufs m)(i \<mapsto> WB\<lparr>wb_buf := b\<rparr>)\<rparr>))))
   }"

text \<open>The bytes that are consumed are added to the record of what has been taken.\<close>

definition netbuf_write_consume ::
  "bool \<Rightarrow> bool \<Rightarrow> io \<Rightarrow> netbuf_write \<Rightarrow> wmem \<Rightarrow> nat \<Rightarrow> (int \<times> io \<times> netbuf_write \<times> wmem) option" where
  "netbuf_write_consume pool reg io W m len = do {
     cassert (nw_reserved W);
     i \<leftarrow> stailq_last (nw_buffers W);
     WB \<leftarrow> wm_bufs m i;
     cassert (szsub (wb_buflen WB) (wb_datalen WB) \<ge> len);
     m \<leftarrow> (if \<not> nw_failed W then do {
             d \<leftarrow> mem_load (wb_buf WB) (wb_datalen WB) len;
             Some (m\<lparr>wm_bufs := (wm_bufs m)(i \<mapsto> WB\<lparr>wb_datalen := szadd (wb_datalen WB) len\<rparr>),
                     wm_accepted := wm_accepted m @ d\<rparr>)
           } else Some m);
     let W = W\<lparr>nw_reserved := False\<rparr>;
     (rc, io, W) \<leftarrow> poke pool reg io W m;
     Some (rc, io, W, m)
   }"

text \<open>A store through the pointer that \<open>netbuf_write_reserve\<close> has returned.\<close>

definition wb_store :: "nat \<times> nat \<Rightarrow> bytes \<Rightarrow> wmem \<Rightarrow> wmem option" where
  "wb_store p d m = do {
     WB \<leftarrow> wm_bufs m (fst p);
     b \<leftarrow> mem_store (wb_buf WB) (snd p) d;
     Some (m\<lparr>wm_bufs := (wm_bufs m)(fst p \<mapsto> WB\<lparr>wb_buf := b\<rparr>)\<rparr>)
   }"

definition netbuf_write_write ::
  "bool \<Rightarrow> alloc \<Rightarrow> bool \<Rightarrow> bool \<Rightarrow> io \<Rightarrow> netbuf_write \<Rightarrow> wmem \<Rightarrow> bytes \<Rightarrow> (int \<times> io \<times> netbuf_write \<times> wmem) option" where
  "netbuf_write_write ok a pool reg io W m buf =
     (if nw_failed W then Some (0, io, W, m)
      else do {
        (wbuf, W, m) \<leftarrow> netbuf_write_reserve ok a W m (length buf);
        (case wbuf of
           None \<Rightarrow> Some (-1, io, W, m)
         | Some p \<Rightarrow> do {
             m \<leftarrow> wb_store p buf m;
             (rc, io, W, m) \<leftarrow> netbuf_write_consume pool reg io W m (length buf);
             if rc \<noteq> 0 then Some (-1, io, W, m) else Some (0, io, W, m)
           })
      })"

fun free_buffers :: "nat list \<Rightarrow> wmem \<Rightarrow> wmem option" where
  "free_buffers [] m = Some m"
| "free_buffers (i # q) m = do { m \<leftarrow> wb_free i m; free_buffers q m }"

definition netbuf_write_free :: "io \<Rightarrow> netbuf_write option \<Rightarrow> wmem \<Rightarrow> (io \<times> netbuf_write option \<times> wmem) option" where
  "netbuf_write_free io w m =
     (case w of
        None \<Rightarrow> Some (io, None, m)
      | Some W \<Rightarrow> do {
          (io, m) \<leftarrow> (case nw_write_cookie W of
              None \<Rightarrow> Some (io, m)
            | Some C \<Rightarrow> do {
                io \<leftarrow> network_write_cancel C io;
                i \<leftarrow> nw_curr W;
                m \<leftarrow> wb_free i m;
                Some (io, m)
              });
          m \<leftarrow> free_buffers (nw_buffers W) m;
          Some (io, None, m)
        })"


section \<open>A user and the event loop\<close>

datatype writer_call =
    WReserve nat bool alloc
  | WFill bytes
  | WConsume nat bool bool
  | WWrite bytes bool alloc bool bool
  | WFree

definition say_rc :: "int \<Rightarrow> wmem \<Rightarrow> wmem" where
  "say_rc rc m = m\<lparr>wm_log := wm_log m @ [rc]\<rparr>"

fun write_call :: "writer_call \<Rightarrow> writer \<Rightarrow> writer option" where
  "write_call (WReserve len ok a) (io, w, m) = do {
     W \<leftarrow> w;
     (p, W, m) \<leftarrow> netbuf_write_reserve ok a W m len;
     (case p of
        None \<Rightarrow> Some (io, Some W, say_rc (-1) (m\<lparr>wm_ptr := None\<rparr>))
      | Some (i, off) \<Rightarrow> Some (io, Some W, say_rc 0 (m\<lparr>wm_ptr := Some (i, off, len)\<rparr>)))
   }"
| "write_call (WFill d) (io, w, m) = do {
     (i, off, len) \<leftarrow> wm_ptr m;
     m \<leftarrow> wb_store (i, off) d m;
     Some (io, w, m)
   }"
| "write_call (WConsume n pool reg) (io, w, m) = do {
     W \<leftarrow> w;
     (rc, io, W, m) \<leftarrow> netbuf_write_consume pool reg io W m n;
     Some (io, Some W, say_rc rc (m\<lparr>wm_ptr := None\<rparr>))
   }"
| "write_call (WWrite buf ok a pool reg) (io, w, m) = do {
     W \<leftarrow> w;
     (rc, io, W, m) \<leftarrow> netbuf_write_write ok a pool reg io W m buf;
     Some (io, Some W, say_rc rc m)
   }"
| "write_call WFree (io, w, m) = do {
     (io, w, m) \<leftarrow> netbuf_write_free io w m;
     Some (io, w, m\<lparr>wm_ptr := None\<rparr>)
   }"

text \<open>
  What the header asks of the user: a reservation that succeeded is followed by a call of
  \<open>netbuf_write_consume\<close> before the next reservation or write.
\<close>

fun write_pre :: "writer_call \<Rightarrow> writer \<Rightarrow> bool" where
  "write_pre (WReserve len ok a) (io, w, m) \<longleftrightarrow> w \<noteq> None \<and> wm_ptr m = None"
| "write_pre (WFill d) (io, w, m) \<longleftrightarrow> (\<exists>i off len. wm_ptr m = Some (i, off, len) \<and> length d \<le> len)"
| "write_pre (WConsume n pool reg) (io, w, m) \<longleftrightarrow>
     w \<noteq> None \<and> (\<exists>i off len. wm_ptr m = Some (i, off, len) \<and> n \<le> len)"
| "write_pre (WWrite buf ok a pool reg) (io, w, m) \<longleftrightarrow> (\<exists>W. w = Some W \<and> (nw_failed W \<or> wm_ptr m = None))"
| "write_pre WFree s \<longleftrightarrow> True"

text \<open>
  The calls that stop the program although they are permitted.  A reservation that fails for lack
  of memory leaves \<open>reserved\<close> set, which the next reservation asserts against; and \<open>network_write\<close>
  asserts that the buffer it is given is not empty, which it is when nothing has been put into the
  first buffer of an idle writer.
\<close>

definition idle :: "netbuf_write \<Rightarrow> bool" where
  "idle W \<longleftrightarrow> \<not> nw_failed W \<and> nw_write_cookie W = None"

definition first_empty :: "netbuf_write \<Rightarrow> wmem \<Rightarrow> bool" where
  "first_empty W m \<longleftrightarrow> nw_buffers W \<noteq> [] \<and> map_option wb_datalen (wm_bufs m (hd (nw_buffers W))) = Some 0"

fun call_aborts :: "writer_call \<Rightarrow> writer \<Rightarrow> bool" where
  "call_aborts (WReserve len ok a) (io, w, m) \<longleftrightarrow> (\<exists>W. w = Some W \<and> nw_reserved W)"
| "call_aborts (WConsume n pool reg) (io, w, m) \<longleftrightarrow>
     (\<exists>W i len. w = Some W \<and> wm_ptr m = Some (i, 0, len) \<and> idle W \<and> n = 0 \<and> hd (nw_buffers W) = i)"
| "call_aborts (WWrite buf ok a pool reg) (io, w, m) \<longleftrightarrow>
     (\<exists>W. w = Some W \<and> \<not> nw_failed W \<and>
        (nw_reserved W \<or> idle W \<and> nw_buffers W = [] \<and> buf = [] \<and> ok \<and> a \<noteq> None))"
| "call_aborts c s \<longleftrightarrow> False"

text \<open>A callback makes calls that are permitted and do not stop the program.\<close>

fun write_calls :: "writer_call list \<Rightarrow> writer \<Rightarrow> writer option" where
  "write_calls [] s = Some s"
| "write_calls (c # cs) s = (if write_pre c s \<and> \<not> call_aborts c s then do { s \<leftarrow> write_call c s; write_calls cs s } else write_calls cs s)"

text \<open>
  The callback of \<open>network_write\<close>.  \<open>script\<close> and \<open>rc\<close> are what the user's failure callback does
  and returns; the callback that \<open>dummyfail\<close> stands for is \<open>[]\<close> and 0.
\<close>

definition writbuf ::
  "writer_call list \<Rightarrow> int \<Rightarrow> bool \<Rightarrow> bool \<Rightarrow> int \<Rightarrow> io \<Rightarrow> netbuf_write option \<times> wmem \<Rightarrow>
   (int \<times> io \<times> netbuf_write option \<times> wmem) option" where
  "writbuf script rc pool reg writelen io c =
     (case c of (w, m) \<Rightarrow> do {
        W \<leftarrow> w;
        cassert (\<not> nw_reserved W);
        cassert (nw_write_cookie W \<noteq> None);
        i \<leftarrow> nw_curr W;
        let W = W\<lparr>nw_write_cookie := None, nw_curr := None\<rparr>;
        cassert (\<not> nw_failed W);
        WB \<leftarrow> wm_bufs m i;
        let W = (if nat (writelen mod 2 ^ 64) \<noteq> wb_datalen WB then W\<lparr>nw_failed := True\<rparr> else W);
        m \<leftarrow> wb_free i m;
        if nw_failed W then do { (io, w, m) \<leftarrow> write_calls script (io, Some W, m); Some (rc, io, w, m) }
        else do { (rc, io, W) \<leftarrow> poke pool reg io W m; Some (rc, io, Some W, m) }
      })"

text \<open>\<open>send\<close> reads from the buffer that is being written.\<close>

definition fetch_writer :: "nat \<Rightarrow> nat \<Rightarrow> netbuf_write option \<times> wmem \<Rightarrow> bytes option" where
  "fetch_writer off n c = do {
     W \<leftarrow> fst c;
     i \<leftarrow> nw_curr W;
     WB \<leftarrow> wm_bufs (snd c) i;
     mem_load (wb_buf WB) off n
   }"

datatype writer_step =
    WCall writer_call
  | WReady send_answer bool "writer_call list" int bool bool

fun write_step :: "writer_step \<Rightarrow> writer \<Rightarrow> (writer \<times> int) option" where
  "write_step (WCall c) s = do { s \<leftarrow> write_call c s; Some (s, 0) }"
| "write_step (WReady send reg script urc pool' reg') (io, c) = do {
     (rc, io, c) \<leftarrow> write_ready fetch_writer (writbuf script urc pool' reg') send reg io c;
     Some ((io, c), rc)
   }"


text \<open>
  The readiness that stops the program, when no reservation is held: the write ends, well or not,
  while \<open>reserved\<close> is still set from a reservation that has failed; or all is written, and the next
  buffer is empty.
\<close>

definition write_done :: "send_answer \<Rightarrow> rw_cookie \<Rightarrow> bool" where
  "write_done send ck = (case send of SendCount n \<Rightarrow> rw_minlen ck \<le> rw_bufpos ck + n | _ \<Rightarrow> False)"

fun step_aborts :: "writer_step \<Rightarrow> writer \<Rightarrow> bool" where
  "step_aborts (WCall c) s = call_aborts c s"
| "step_aborts (WReady send reg script urc pool' reg') (io, w, m) =
     (case (w, Option.bind (io_event io) (io_pool io)) of
        (Some W, Some ck) \<Rightarrow>
          nw_reserved W \<and> (write_done send ck \<or> send = SendError \<or> \<not> reg) \<or> write_done send ck \<and> first_empty W m
      | _ \<Rightarrow> False)"


section \<open>The invariant\<close>

definition wb_data :: "wmem \<Rightarrow> nat \<Rightarrow> bytes" where
  "wb_data m i = (case wm_bufs m i of None \<Rightarrow> [] | Some WB \<Rightarrow> take (wb_datalen WB) (wb_buf WB))"

text \<open>The write buffers: each is in the queue or being written.\<close>

definition wq_inv :: "netbuf_write \<Rightarrow> wmem \<Rightarrow> bool" where
  "wq_inv W m \<longleftrightarrow>
     distinct (nw_buffers W) \<and> dom (wm_bufs m) = set (nw_buffers W) \<union> set_option (nw_curr W) \<and>
     (\<forall>i. nw_curr W = Some i \<longrightarrow> i \<notin> set (nw_buffers W)) \<and> (\<forall>i \<in> dom (wm_bufs m). i < wm_next m) \<and>
     (\<forall>i WB. wm_bufs m i = Some WB \<longrightarrow>
        length (wb_buf WB) = wb_buflen WB \<and> wb_datalen WB \<le> wb_buflen WB \<and> wb_buflen WB \<le> SSIZE_MAX)"

text \<open>The first buffer of an idle writer has data, unless it is the only one and has just been reserved.\<close>

definition first_data :: "netbuf_write \<Rightarrow> wmem \<Rightarrow> bool" where
  "first_data W m \<longleftrightarrow> (idle W \<longrightarrow> \<not> first_empty W m)"

lemma first_data_iff:
  "first_data W m \<longleftrightarrow> (idle W \<and> nw_buffers W \<noteq> [] \<longrightarrow> (\<forall>WB. wm_bufs m (hd (nw_buffers W)) = Some WB \<longrightarrow> 0 < wb_datalen WB))"
  by (auto simp: first_data_def first_empty_def)

definition hd_inv :: "netbuf_write \<Rightarrow> wmem \<Rightarrow> bool" where
  "hd_inv W m \<longleftrightarrow> first_data W m \<or> nw_reserved W \<and> tl (nw_buffers W) = []"

text \<open>The reservation is space at the end of the last buffer.\<close>

definition wb_room :: "netbuf_write \<Rightarrow> wmem \<Rightarrow> nat \<times> nat \<times> nat \<Rightarrow> bool" where
  "wb_room W m p \<longleftrightarrow> (case p of (i, off, len) \<Rightarrow>
     nw_reserved W \<and> nw_buffers W \<noteq> [] \<and> i = last (nw_buffers W) \<and>
     (\<exists>WB. wm_bufs m i = Some WB \<and> off = wb_datalen WB \<and> off + len \<le> wb_buflen WB))"

text \<open>The write in progress, with the cookies \<open>D\<close> whose callbacks are running.\<close>

definition wio_inv :: "nat set \<Rightarrow> io \<Rightarrow> netbuf_write \<Rightarrow> wmem \<Rightarrow> bool" where
  "wio_inv D io W m \<longleftrightarrow>
     (\<forall>i \<in> dom (io_pool io). i < io_next io) \<and>
     (case nw_write_cookie W of
        None \<Rightarrow> nw_curr W = None \<and> dom (io_pool io) = D \<and> io_event io = None
      | Some C \<Rightarrow> \<not> nw_failed W \<and> C \<notin> D \<and> dom (io_pool io) = insert C D \<and> io_event io = Some C \<and>
          (\<exists>i WB ck. nw_curr W = Some i \<and> wm_bufs m i = Some WB \<and> io_pool io C = Some ck \<and> rw_buf ck = 0 \<and>
             rw_buflen ck = wb_datalen WB \<and> rw_minlen ck = wb_datalen WB \<and> rw_bufpos ck < wb_datalen WB))"

text \<open>What has been taken and not been sent.\<close>

definition pending :: "io \<Rightarrow> netbuf_write \<Rightarrow> wmem \<Rightarrow> bytes" where
  "pending io W m =
     (case Option.bind (nw_write_cookie W) (io_pool io) of
        None \<Rightarrow> []
      | Some ck \<Rightarrow> drop (rw_bufpos ck) (wb_data m (the (nw_curr W)))) @ concat (map (wb_data m) (nw_buffers W))"

definition data_inv :: "io \<Rightarrow> netbuf_write \<Rightarrow> wmem \<Rightarrow> bool" where
  "data_inv io W m \<longleftrightarrow>
     (if nw_failed W then prefix (io_stream io) (wm_accepted m) else wm_accepted m = io_stream io @ pending io W m)"

fun wr_inv :: "nat set \<Rightarrow> writer \<Rightarrow> bool" where
  "wr_inv D (io, Some W, m) \<longleftrightarrow> wq_inv W m \<and> wio_inv D io W m \<and> data_inv io W m \<and> hd_inv W m \<and>
     (\<forall>p. wm_ptr m = Some p \<longrightarrow> wb_room W m p)"
| "wr_inv D (io, None, m) \<longleftrightarrow> wm_bufs m = Map.empty \<and> dom (io_pool io) = D \<and> io_event io = None \<and>
     (\<forall>i \<in> dom (io_pool io). i < io_next io) \<and> wm_ptr m = None \<and> prefix (io_stream io) (wm_accepted m)"

lemma wq_first:
  assumes "wq_inv W m" "nw_buffers W \<noteq> []"
  obtains WB where "wm_bufs m (hd (nw_buffers W)) = Some WB"
  using assms unfolding wq_inv_def by (metis UnI1 domD hd_in_set)

lemma poke_ok:
  assumes q: "wq_inv W m" and w: "wio_inv D io W m" and res: "\<not> nw_reserved W" and first: "first_data W m"
  shows "okp (poke pool reg io W m) (\<lambda>(rc, io', W'). wq_inv W' m \<and> wio_inv D io' W' m \<and> first_data W' m \<and> \<not> nw_reserved W' \<and>
    nw_failed W' = nw_failed W \<and> io_stream io' = io_stream io \<and> pending io' W' m = pending io W m \<and>
    (rc = 0 \<or> rc = -1 \<and> \<not> (pool \<and> reg)) \<and>
    (rc = 0 \<longrightarrow> nw_write_cookie W' \<noteq> None \<or> nw_buffers W' = [] \<or> nw_failed W'))"
proof (cases "nw_write_cookie W \<noteq> None \<or> nw_buffers W = [] \<or> nw_failed W")
  case True
  then show ?thesis using assms by (auto simp: poke_def)
next
  case False
  obtain WB where WB: "wm_bufs m (hd (nw_buffers W)) = Some WB" using q False by (auto elim: wq_first)
  have wb: "0 < wb_datalen WB" "wb_datalen WB \<le> SSIZE_MAX"
    using q first WB False unfolding first_data_iff idle_def wq_inv_def by (blast, meson order_trans)
  have io: "nw_curr W = None" "dom (io_pool io) = D" "io_event io = None" "\<forall>i \<in> dom (io_pool io). i < io_next io"
    using w False by (auto simp: wio_inv_def)
  obtain i qs where q1: "nw_buffers W = i # qs" using False by (cases "nw_buffers W") auto
  let ?ck = "\<lparr>rw_fd = nw_s W, rw_buf = 0, rw_buflen = wb_datalen WB, rw_minlen = wb_datalen WB, rw_bufpos = 0\<rparr>"
  obtain n where nw: "network_write pool reg (nw_s W) 0 (wb_datalen WB) (wb_datalen WB) io =
    (if pool \<and> reg then Some (Some (io_next io), io\<lparr>io_pool := (io_pool io)(io_next io \<mapsto> ?ck),
          io_next := Suc (io_next io), io_event := Some (io_next io)\<rparr>)
     else Some (None, io\<lparr>io_next := n\<rparr>))" and n: "io_next io \<le> n"
    using network_write_ok [OF wb io(3, 4), of pool reg "nw_s W" 0 "wb_datalen WB"] by blast
  show ?thesis
  proof (cases "pool \<and> reg")
    case F: False
    have "W\<lparr>nw_write_cookie := None\<rparr> = W" using False by simp
    then have "poke pool reg io W m = Some (-1, io\<lparr>io_next := n\<rparr>, W)"
      using False WB io(1) nw F by (auto simp: poke_def Let_def)
    moreover have "wio_inv D (io\<lparr>io_next := n\<rparr>) W m"
    proof -
      have "\<forall>i \<in> dom (io_pool io). i < n" using io(4) n by (meson less_le_trans)
      then show ?thesis using io False by (simp add: wio_inv_def)
    qed
    moreover have "pending (io\<lparr>io_next := n\<rparr>) W m = pending io W m" using False by (simp add: pending_def)
    ultimately show ?thesis using q res F first by auto
  next
    case True
    let ?C = "io_next io"
    let ?io = "io\<lparr>io_pool := (io_pool io)(?C \<mapsto> ?ck), io_next := Suc ?C, io_event := Some ?C\<rparr>"
    let ?W = "W\<lparr>nw_write_cookie := Some ?C, nw_curr := Some i, nw_buffers := qs\<rparr>"
    have eq: "poke pool reg io W m = Some (0, ?io, ?W)"
      using False WB io(1) nw True q1 by (auto simp: poke_def Let_def)
    have fresh: "?C \<notin> D" using io by auto
    have "wq_inv ?W m" using q q1 io(1) res unfolding wq_inv_def by (auto split: if_splits)
    moreover have "wio_inv D ?io ?W m" using io fresh WB wb q1 False by (auto simp: wio_inv_def less_Suc_eq)
    moreover have "pending ?io ?W m = pending io W m" using False q1 by (simp add: pending_def)
    moreover have "first_data ?W m" by (simp add: first_data_iff idle_def)
    ultimately show ?thesis using eq res by simp
  qed
qed

text \<open>Without data in the first buffer, the assertion of \<open>network_write\<close> fails.\<close>

lemma poke_aborts: "wq_inv W m \<Longrightarrow> \<not> first_data W m \<Longrightarrow> poke pool reg io W m = None"
  by (auto simp: first_data_iff idle_def poke_def network_write_def Let_def)

section \<open>Reserving and consuming\<close>

definition w_inv :: "nat set \<Rightarrow> io \<Rightarrow> netbuf_write \<Rightarrow> wmem \<Rightarrow> bool" where
  "w_inv D io W m \<longleftrightarrow> wq_inv W m \<and> wio_inv D io W m \<and> data_inv io W m \<and> hd_inv W m"

lemma wb_data_other: "wm_bufs m' j = wm_bufs m j \<Longrightarrow> wb_data m' j = wb_data m j"
  by (simp add: wb_data_def)

lemma pending_cong: "wb_data m' = wb_data m \<Longrightarrow> pending io W m' = pending io W m"
  by (simp add: pending_def split: option.split)

lemma pending_reserved [simp]: "pending io (W\<lparr>nw_reserved := r\<rparr>) m = pending io W m"
  by (simp add: pending_def split: option.split)

text \<open>The invariant looks at the memory only through the buffers, the contents and the data taken.\<close>

lemma w_inv_cong:
  assumes "w_inv D io W m" "wm_bufs m' = wm_bufs m" "wm_next m \<le> wm_next m'" "wm_accepted m' = wm_accepted m"
  shows "w_inv D io W m'"
proof -
  have "\<forall>i \<in> dom (wm_bufs m). i < wm_next m'" using assms(1, 3) by (meson less_le_trans w_inv_def wq_inv_def)
  moreover have "wb_data m' = wb_data m" using assms(2) by (simp add: wb_data_def fun_eq_iff)
  moreover from this have "pending io W m' = pending io W m" by (rule pending_cong)
  moreover have "wio_inv D io W m' = wio_inv D io W m" by (simp add: wio_inv_def assms(2) split: option.split)
  ultimately show ?thesis using assms by (simp add: w_inv_def wq_inv_def data_inv_def hd_inv_def first_data_iff)
qed

lemma w_inv_reserved: "w_inv D io W m \<Longrightarrow> w_inv D io (W\<lparr>nw_reserved := True\<rparr>) m"
proof -
  assume inv: "w_inv D io W m"
  then have "wq_inv (W\<lparr>nw_reserved := True\<rparr>) m" unfolding w_inv_def wq_inv_def by simp
  then show ?thesis using inv
    by (auto simp: w_inv_def wio_inv_def data_inv_def hd_inv_def first_data_iff idle_def split: option.splits)
qed

lemma w_inv_new:
  assumes inv: "w_inv D io W m" and res: "nw_reserved W" "first_data W m"
    and WB: "length (wb_buf WB) = wb_buflen WB" "wb_datalen WB = 0" "wb_buflen WB \<le> SSIZE_MAX"
  shows "w_inv D io (W\<lparr>nw_buffers := nw_buffers W @ [wm_next m]\<rparr>) (m\<lparr>wm_next := Suc (wm_next m), wm_bufs := (wm_bufs m)(wm_next m \<mapsto> WB)\<rparr>)"
proof -
  let ?i = "wm_next m" and ?m = "m\<lparr>wm_next := Suc (wm_next m), wm_bufs := (wm_bufs m)(wm_next m \<mapsto> WB)\<rparr>"
  have q: "wq_inv W m" and w: "wio_inv D io W m" and d: "data_inv io W m" using inv by (simp_all add: w_inv_def)
  have fresh: "?i \<notin> dom (wm_bufs m)" using q by (auto simp: wq_inv_def)
  then have i: "?i \<notin> set (nw_buffers W)" "nw_curr W \<noteq> Some ?i" using q by (auto simp: wq_inv_def)
  have data: "j \<noteq> ?i \<Longrightarrow> wb_data ?m j = wb_data m j" for j by (simp add: wb_data_def)
  have queue: "concat (map (wb_data ?m) (nw_buffers W)) = concat (map (wb_data m) (nw_buffers W))"
    using i(1) by (intro arg_cong [where f = concat] map_cong refl data) auto
  have "wb_data ?m ?i = []" using WB by (simp add: wb_data_def)
  then have pend: "pending io (W\<lparr>nw_buffers := nw_buffers W @ [?i]\<rparr>) ?m = pending io W m"
    using i(2) w data queue unfolding pending_def wio_inv_def
    by (auto split: option.splits)
  have "wq_inv (W\<lparr>nw_buffers := nw_buffers W @ [?i]\<rparr>) ?m"
    using q i WB unfolding wq_inv_def by (auto simp: less_Suc_eq)
  moreover have "hd_inv (W\<lparr>nw_buffers := nw_buffers W @ [?i]\<rparr>) ?m"
    using res i(1) by (cases "nw_buffers W") (auto simp: hd_inv_def first_data_iff idle_def)
  moreover have "wio_inv D io (W\<lparr>nw_buffers := nw_buffers W @ [?i]\<rparr>) ?m"
    using w i(2) by (auto simp: wio_inv_def split: option.splits)
  ultimately show ?thesis using d pend by (simp add: w_inv_def data_inv_def)
qed

lemma reserve_ok:
  assumes inv: "w_inv D io W m" and res: "\<not> nw_reserved W"
  shows "okp (netbuf_write_reserve ok a W m len) (\<lambda>(p, W', m'). w_inv D io W' m' \<and> nw_reserved W' \<and> nw_failed W' = nw_failed W \<and>
    wm_accepted m' = wm_accepted m \<and> wm_ptr m' = wm_ptr m \<and> wm_log m' = wm_log m \<and>
    (case p of None \<Rightarrow> \<not> ok \<or> a = None \<or> SSIZE_MAX < max len WBUFLEN | Some (i, off) \<Rightarrow> wb_room W' m' (i, off, len) \<and>
      (idle W' \<and> off = 0 \<and> hd (nw_buffers W') = i \<longrightarrow> idle W \<and> nw_buffers W = [] \<and> ok \<and> a \<noteq> None)))"
proof -
  let ?W = "W\<lparr>nw_reserved := True\<rparr>"
  have q: "wq_inv W m" and first: "first_data W m" using inv res by (simp_all add: w_inv_def hd_inv_def)
  have W: "w_inv D io ?W m" by (rule w_inv_reserved [OF inv])
  define n where "n = (if len > WBUFLEN then len else WBUFLEN)"
  let ?i = "wm_next m" and ?WB = "\<lparr>wb_buf = [], wb_buflen = n, wb_datalen = 0\<rparr>"
  define old where "old = (case stailq_last (nw_buffers W) of None \<Rightarrow> Some None
       | Some i \<Rightarrow> do { WB \<leftarrow> wm_bufs m i;
           Some (if szsub (wb_buflen WB) (wb_datalen WB) \<ge> len then Some (i, wb_datalen WB) else None) })"
  have "\<exists>p. old = Some p \<and> (\<forall>i off. p = Some (i, off) \<longrightarrow> wb_room ?W m (i, off, len) \<and>
      (idle W \<and> off = 0 \<longrightarrow> hd (nw_buffers W) \<noteq> i))"
  proof (cases "nw_buffers W = []")
    case True
    then show ?thesis by (simp add: old_def stailq_last_def)
  next
    case False
    then obtain WB where WB: "wm_bufs m (last (nw_buffers W)) = Some WB"
      using q unfolding wq_inv_def by (metis UnI1 domD last_in_set)
    then have "wb_datalen WB \<le> wb_buflen WB" "wb_buflen WB \<le> SSIZE_MAX" using q by (auto simp: wq_inv_def)
    then show ?thesis using False WB SSIZE_SIZE(1) [of "wb_buflen WB"] first
      by (auto simp: old_def stailq_last_def wb_room_def first_data_iff)
  qed
  then obtain p where p: "old = Some p" "\<forall>i off. p = Some (i, off) \<longrightarrow> wb_room ?W m (i, off, len) \<and>
      (idle W \<and> off = 0 \<longrightarrow> hd (nw_buffers W) \<noteq> i)" by blast
  note reserve = netbuf_write_reserve_def Let_def res p(1) [unfolded old_def] n_def [symmetric]
  show ?thesis
  proof (cases p)
    case (Some x)
    then have "netbuf_write_reserve ok a W m len = Some (Some x, ?W, m)" by (simp add: reserve)
    then show ?thesis using p Some W by (cases x) (auto simp: idle_def)
  next
    case None
    show ?thesis
    proof (cases "ok \<and> c_malloc a n \<noteq> None")
      case False
      have fresh: "?i \<notin> dom (wm_bufs m)" using q by (auto simp: wq_inv_def)
      then have "(wm_bufs m)(?i := None) = wm_bufs m" by (simp add: domIff fun_upd_idem)
      then have "w_inv D io ?W (m\<lparr>wm_next := Suc ?i, wm_bufs := (wm_bufs m)(?i := None)\<rparr>)"
        by (intro w_inv_cong [OF W]) simp_all
      moreover have "c_malloc a n = None \<Longrightarrow> a = None \<or> SSIZE_MAX < max len WBUFLEN"
        by (auto simp: c_malloc_def n_def max_def split: if_splits)
      ultimately show ?thesis using None W False
        by (cases ok) (auto simp: reserve wb_free_def)
    next
      case True
      then obtain b where b: "c_malloc a n = Some b" by auto
      then have len: "length b = n" "n \<le> SSIZE_MAX" by (auto simp: c_malloc_def length_c_realloc split: if_splits)
      have "w_inv D io (?W\<lparr>nw_buffers := nw_buffers ?W @ [?i]\<rparr>) (m\<lparr>wm_next := Suc ?i, wm_bufs := (wm_bufs m)(?i \<mapsto> ?WB\<lparr>wb_buf := b\<rparr>)\<rparr>)"
        using len q inv res by (intro w_inv_new [OF W]) (auto simp: wq_inv_def w_inv_def hd_inv_def first_data_iff idle_def)
      moreover have "netbuf_write_reserve ok a W m len = Some (Some (?i, 0), ?W\<lparr>nw_buffers := nw_buffers W @ [?i]\<rparr>,
          m\<lparr>wm_next := Suc ?i, wm_bufs := (wm_bufs m)(?i \<mapsto> ?WB\<lparr>wb_buf := b\<rparr>)\<rparr>)"
        using None True b by (simp add: reserve)
      moreover have "len \<le> n" by (simp add: n_def)
      moreover have "hd (nw_buffers W @ [?i]) = ?i \<longrightarrow> nw_buffers W = []"
        using q by (cases "nw_buffers W") (auto simp: wq_inv_def)
      moreover have "a \<noteq> None" using b by (auto simp: c_malloc_def c_realloc_def split: if_splits)
      ultimately show ?thesis using True by (simp add: wb_room_def idle_def)
    qed
  qed
qed

text \<open>Filling the reserved space changes no data that has been taken.\<close>

lemma store_ok:
  assumes inv: "w_inv D io W m" and wb_room: "wb_room W m (i, off, len)" and d: "length d \<le> len"
  shows "okp (wb_store (i, off) d m) (\<lambda>m'. w_inv D io W m' \<and> wb_room W m' (i, off, len) \<and>
    (\<exists>b. m' = m\<lparr>wm_bufs := b\<rparr>) \<and> (\<forall>WB. wm_bufs m' i = Some WB \<longrightarrow> take (length d) (drop off (wb_buf WB)) = d))"
proof -
  obtain WB where WB: "wm_bufs m i = Some WB" "off = wb_datalen WB" "off + len \<le> wb_buflen WB"
    and i: "i = last (nw_buffers W)" "nw_buffers W \<noteq> []" "nw_reserved W" using wb_room by (auto simp: wb_room_def)
  have q: "wq_inv W m" and w: "wio_inv D io W m" and dat: "data_inv io W m" using inv by (simp_all add: w_inv_def)
  have len: "length (wb_buf WB) = wb_buflen WB" "wb_buflen WB \<le> SSIZE_MAX" using q WB by (auto simp: wq_inv_def)
  let ?b = "take off (wb_buf WB) @ d @ drop (off + length d) (wb_buf WB)"
  let ?m = "m\<lparr>wm_bufs := (wm_bufs m)(i \<mapsto> WB\<lparr>wb_buf := ?b\<rparr>)\<rparr>"
  have st: "wb_store (i, off) d m = Some ?m" using WB d len by (simp add: wb_store_def mem_store_def)
  have data: "wb_data ?m = wb_data m" using WB len d by (simp add: wb_data_def fun_eq_iff)
  have "wq_inv W ?m" using q WB d len unfolding wq_inv_def by auto
  moreover have "wio_inv D io W ?m" using w WB unfolding wio_inv_def by (fastforce split: option.splits)
  moreover have "data_inv io W ?m" using dat pending_cong [OF data] by (simp add: data_inv_def)
  moreover have "hd_inv W ?m" using inv WB(1) by (auto simp: w_inv_def hd_inv_def first_data_iff)
  ultimately show ?thesis using st WB i d len by (auto simp: w_inv_def wb_room_def)
qed

lemma consume_ok:
  assumes inv: "w_inv D io W m" and wb_room: "wb_room W m (i, off, len)" and n: "n \<le> len"
    and some: "\<not> (idle W \<and> n = 0 \<and> off = 0 \<and> hd (nw_buffers W) = i)"
  shows "okp (netbuf_write_consume pool reg io W m n) (\<lambda>(rc, io', W', m'). w_inv D io' W' m' \<and> \<not> nw_reserved W' \<and>
    nw_failed W' = nw_failed W \<and> io_stream io' = io_stream io \<and> wm_ptr m' = wm_ptr m \<and> wm_log m' = wm_log m \<and>
    (\<exists>WB. wm_bufs m i = Some WB \<and>
       wm_accepted m' = wm_accepted m @ (if nw_failed W then [] else take n (drop off (wb_buf WB)))) \<and>
    (rc = 0 \<or> rc = -1 \<and> \<not> (pool \<and> reg)) \<and>
    (rc = 0 \<longrightarrow> nw_write_cookie W' \<noteq> None \<or> nw_buffers W' = [] \<or> nw_failed W'))"
proof -
  obtain WB where WB: "wm_bufs m i = Some WB" "off = wb_datalen WB" "off + len \<le> wb_buflen WB"
    and i: "i = last (nw_buffers W)" "nw_buffers W \<noteq> []" "nw_reserved W" using wb_room by (auto simp: wb_room_def)
  have q: "wq_inv W m" and w: "wio_inv D io W m" and dat: "data_inv io W m" using inv by (simp_all add: w_inv_def)
  have len: "length (wb_buf WB) = wb_buflen WB" "wb_buflen WB \<le> SSIZE_MAX" "wb_buflen WB \<le> SIZE_MAX"
    using q WB SSIZE_SIZE(1) [of "wb_buflen WB"] by (auto simp: wq_inv_def)
  have fit: "n \<le> wb_buflen WB - wb_datalen WB" using WB n by simp
  let ?W = "W\<lparr>nw_reserved := False\<rparr>"
  define d where "d = take n (drop off (wb_buf WB))"
  define m1 where "m1 = (if nw_failed W then m
    else m\<lparr>wm_bufs := (wm_bufs m)(i \<mapsto> WB\<lparr>wb_datalen := wb_datalen WB + n\<rparr>), wm_accepted := wm_accepted m @ d\<rparr>)"
  have eq: "netbuf_write_consume pool reg io W m n = do { (rc, io, W) \<leftarrow> poke pool reg io ?W m1; Some (rc, io, W, m1) }"
    using i WB n len fit by (simp add: netbuf_write_consume_def stailq_last_def mem_load_def m1_def d_def)
  have first: "first_data ?W m1"
  proof (cases "idle W")
    case True
    obtain j qs where qs: "nw_buffers W = j # qs" using i by (cases "nw_buffers W") auto
    have hd: "qs \<noteq> [] \<Longrightarrow> first_data W m" using inv qs by (simp add: w_inv_def hd_inv_def)
    have "distinct (j # qs)" using q qs by (simp add: wq_inv_def)
    then have "qs \<noteq> [] \<Longrightarrow> j \<noteq> i" using i(1) qs by auto
    then show ?thesis using True hd some qs WB i
      by (cases "qs = []") (auto simp: first_data_iff m1_def idle_def)
  qed (auto simp: first_data_iff idle_def)
  have inv1: "w_inv D io ?W m1"
  proof (cases "nw_failed W")
    case True
    have "wq_inv ?W m" using q unfolding wq_inv_def by simp
    then show ?thesis using True w dat first
      by (auto simp: m1_def w_inv_def wio_inv_def data_inv_def hd_inv_def split: option.splits)
  next
    case False
    let ?m = "m\<lparr>wm_bufs := (wm_bufs m)(i \<mapsto> WB\<lparr>wb_datalen := wb_datalen WB + n\<rparr>), wm_accepted := wm_accepted m @ d\<rparr>"
    have m1: "m1 = ?m" using False by (simp add: m1_def)
    obtain qs where qs: "nw_buffers W = qs @ [i]" using i by (metis append_butlast_last_id)
    have cur: "i \<notin> set qs" "nw_curr W \<noteq> Some i" using q qs by (auto simp: wq_inv_def)
    have "wq_inv ?W ?m" using q WB n len qs unfolding wq_inv_def by auto
    moreover have "wio_inv D io ?W ?m" using w cur(2) by (auto simp: wio_inv_def split: option.splits)
    moreover have other: "j \<noteq> i \<Longrightarrow> wb_data ?m j = wb_data m j" for j by (simp add: wb_data_def)
    have "concat (map (wb_data ?m) qs) = concat (map (wb_data m) qs)"
      using cur(1) by (intro arg_cong [where f = concat] map_cong refl other) auto
    moreover have "wb_data ?m i = wb_data m i @ d" using WB by (simp add: wb_data_def d_def take_add)
    ultimately have "pending io ?W ?m = pending io W m @ d" and "wq_inv ?W ?m" "wio_inv D io ?W ?m"
      using w cur(2) other qs unfolding pending_def wio_inv_def by (auto split: option.splits)
    then show ?thesis using False dat first by (simp add: m1 w_inv_def data_inv_def hd_inv_def)
  qed
  have same: "wm_ptr m1 = wm_ptr m" "wm_log m1 = wm_log m" "wm_accepted m1 = wm_accepted m @ (if nw_failed W then [] else d)"
    by (simp_all add: m1_def)
  have "okp (poke pool reg io ?W m1) (\<lambda>(rc, io', W'). w_inv D io' W' m1 \<and> \<not> nw_reserved W' \<and>
    nw_failed W' = nw_failed W \<and> io_stream io' = io_stream io \<and> (rc = 0 \<or> rc = -1 \<and> \<not> (pool \<and> reg)) \<and>
    (rc = 0 \<longrightarrow> nw_write_cookie W' \<noteq> None \<or> nw_buffers W' = [] \<or> nw_failed W'))"
    using poke_ok [of ?W m1 D io pool reg] inv1 first by (auto simp: w_inv_def data_inv_def hd_inv_def elim!: okp_mono)
  then show ?thesis using eq same WB(1) by (auto simp: okp_iff d_def)
qed

text \<open>Consuming nothing of a fresh buffer while the writer is idle.\<close>

lemma consume_aborts:
  assumes inv: "w_inv D io W m" and wb_room: "wb_room W m (i, 0, len)" and idle: "idle W" "hd (nw_buffers W) = i"
  shows "netbuf_write_consume pool reg io W m 0 = None"
proof -
  obtain WB where WB: "wm_bufs m i = Some WB" "wb_datalen WB = 0"
    and i: "i = last (nw_buffers W)" "nw_buffers W \<noteq> []" "nw_reserved W" using wb_room by (auto simp: wb_room_def)
  have "WB\<lparr>wb_datalen := 0\<rparr> = WB" using WB(2) by (cases WB) simp
  then have m: "m\<lparr>wm_bufs := (wm_bufs m)(i \<mapsto> WB\<lparr>wb_datalen := 0\<rparr>), wm_accepted := wm_accepted m @ []\<rparr> = m"
    using WB(1) by (simp add: fun_upd_idem)
  let ?W = "W\<lparr>nw_reserved := False\<rparr>"
  have "wq_inv ?W m" "\<not> first_data ?W m"
    using inv WB idle i(2) by (auto simp: w_inv_def wq_inv_def first_data_iff idle_def)
  then have "poke pool reg io ?W m = None" by (rule poke_aborts)
  then show ?thesis using i WB m idle(1)
    by (simp add: netbuf_write_consume_def stailq_last_def mem_load_def idle_def)
qed

section \<open>What each call does\<close>

text \<open>The reserved space, and whether a write in progress takes care of the data that is pending.\<close>

definition held :: "wmem \<Rightarrow> bytes" where
  "held m = (case wm_ptr m of
       None \<Rightarrow> []
     | Some (i, off, len) \<Rightarrow> (case wm_bufs m i of None \<Rightarrow> [] | Some WB \<Rightarrow> take len (drop off (wb_buf WB))))"

definition fails :: "writer \<Rightarrow> bool" where
  "fails s = (case fst (snd s) of None \<Rightarrow> True | Some W \<Rightarrow> nw_failed W)"

definition busy :: "writer \<Rightarrow> bool" where
  "busy s \<longleftrightarrow> (case s of (io, w, m) \<Rightarrow>
     (case w of None \<Rightarrow> True | Some W \<Rightarrow> nw_failed W \<or> nw_write_cookie W \<noteq> None \<or> pending io W m = []))"

fun call_spec :: "writer_call \<Rightarrow> writer \<Rightarrow> writer \<Rightarrow> bool" where
  "call_spec (WReserve len ok a) (io, w, m) (io', w', m') \<longleftrightarrow>
     io_stream io' = io_stream io \<and> fails (io', w', m') = fails (io, w, m) \<and> wm_accepted m' = wm_accepted m \<and>
     (\<exists>rc. wm_log m' = wm_log m @ [rc] \<and>
        (rc = 0 \<and> wm_ptr m' \<noteq> None \<and> length (held m') = len \<or>
         rc = -1 \<and> wm_ptr m' = None \<and> (\<not> ok \<or> a = None \<or> SSIZE_MAX < max len WBUFLEN)))"
| "call_spec (WFill d) (io, w, m) (io', w', m') \<longleftrightarrow>
     io_stream io' = io_stream io \<and> fails (io', w', m') = fails (io, w, m) \<and> wm_accepted m' = wm_accepted m \<and>
     wm_log m' = wm_log m \<and> take (length d) (held m') = d"
| "call_spec (WConsume n pool reg) (io, w, m) (io', w', m') \<longleftrightarrow>
     io_stream io' = io_stream io \<and> fails (io', w', m') = fails (io, w, m) \<and> wm_ptr m' = None \<and>
     wm_accepted m' = wm_accepted m @ (if fails (io, w, m) then [] else take n (held m)) \<and>
     (\<exists>rc. wm_log m' = wm_log m @ [rc] \<and> (rc = 0 \<and> busy (io', w', m') \<or> rc = -1 \<and> \<not> (pool \<and> reg)))"
| "call_spec (WWrite buf ok a pool reg) (io, w, m) (io', w', m') \<longleftrightarrow>
     io_stream io' = io_stream io \<and> fails (io', w', m') = fails (io, w, m) \<and>
     (if fails (io, w, m) then io' = io \<and> w' = w \<and> wm_accepted m' = wm_accepted m \<and> wm_log m' = wm_log m @ [0]
      else \<exists>rc. wm_log m' = wm_log m @ [rc] \<and>
        (rc = 0 \<and> wm_accepted m' = wm_accepted m @ buf \<and> busy (io', w', m') \<or>
         rc = -1 \<and> wm_accepted m' = wm_accepted m @ buf \<and> \<not> (pool \<and> reg) \<or>
         rc = -1 \<and> wm_accepted m' = wm_accepted m \<and> (\<not> ok \<or> a = None \<or> SSIZE_MAX < max (length buf) WBUFLEN)))"
| "call_spec WFree (io, w, m) (io', w', m') \<longleftrightarrow>
     io_stream io' = io_stream io \<and> w' = None \<and> wm_bufs m' = Map.empty \<and> io_event io' = None \<and>
     wm_accepted m' = wm_accepted m \<and> wm_log m' = wm_log m"

lemma wr_inv_Some: "wr_inv D (io, Some W, m) \<longleftrightarrow> w_inv D io W m \<and> (\<forall>p. wm_ptr m = Some p \<longrightarrow> wb_room W m p)"
  by (auto simp: w_inv_def)

lemma busyI:
  assumes "w_inv D io W m" "nw_write_cookie W \<noteq> None \<or> nw_buffers W = [] \<or> nw_failed W"
  shows "busy (io, Some W, m)"
  using assms by (auto simp: busy_def pending_def split: option.splits)

text \<open>Notes on the user's side do not touch the invariant.\<close>

lemma w_inv_notes [simp]:
  "w_inv D io W (m\<lparr>wm_ptr := p\<rparr>) = w_inv D io W m" "w_inv D io W (m\<lparr>wm_log := l\<rparr>) = w_inv D io W m"
  by (auto intro: w_inv_cong)

lemma room_notes [simp]:
  "wb_room W (m\<lparr>wm_ptr := q\<rparr>) p = wb_room W m p" "wb_room W (m\<lparr>wm_log := l\<rparr>) p = wb_room W m p"
  by (simp_all add: wb_room_def split: prod.split)

lemma reserve_call_ok:
  assumes inv: "wr_inv D (io, Some W, m)" and res: "\<not> nw_reserved W"
  shows "okp (write_call (WReserve len ok a) (io, Some W, m)) (\<lambda>s'. wr_inv D s' \<and> call_spec (WReserve len ok a) (io, Some W, m) s')"
proof -
  obtain p W' m' where r: "netbuf_write_reserve ok a W m len = Some (p, W', m')" "w_inv D io W' m'" "nw_failed W' = nw_failed W"
    "wm_accepted m' = wm_accepted m" "wm_log m' = wm_log m"
    and p: "case p of None \<Rightarrow> \<not> ok \<or> a = None \<or> SSIZE_MAX < max len WBUFLEN | Some (i, off) \<Rightarrow> wb_room W' m' (i, off, len)"
    using reserve_ok [OF _ res, of D io m ok a len] inv
    by (fastforce simp: wr_inv_Some okp_iff simp del: wr_inv.simps split: option.splits)
  show ?thesis
  proof (cases p)
    case None
    then show ?thesis using r p by (auto simp: wr_inv_Some fails_def say_rc_def simp del: wr_inv.simps)
  next
    case (Some x)
    obtain i off where x: "x = (i, off)" by (cases x)
    obtain WB where WB: "wm_bufs m' i = Some WB" "off = wb_datalen WB" "off + len \<le> wb_buflen WB"
      using p Some x by (auto simp: wb_room_def)
    then have "length (wb_buf WB) = wb_buflen WB" using r(2) by (auto simp: w_inv_def wq_inv_def)
    then show ?thesis using r p Some x WB by (auto simp: wr_inv_Some fails_def say_rc_def held_def simp del: wr_inv.simps)
  qed
qed

lemma fill_call_ok:
  assumes inv: "wr_inv D (io, w, m)" and pre: "wm_ptr m = Some (i, off, len)" "length d \<le> len"
  shows "okp (write_call (WFill d) (io, w, m)) (\<lambda>s'. wr_inv D s' \<and> call_spec (WFill d) (io, w, m) s')"
proof -
  obtain W where w: "w = Some W" using inv pre by (cases w) auto
  obtain m' b where m': "wb_store (i, off) d m = Some m'" "w_inv D io W m'" "wb_room W m' (i, off, len)" "m' = m\<lparr>wm_bufs := b\<rparr>"
    "\<forall>WB. wm_bufs m' i = Some WB \<longrightarrow> take (length d) (drop off (wb_buf WB)) = d"
    using store_ok [of D io W m i off len d] inv pre unfolding w by (auto simp: wr_inv_Some okp_iff simp del: wr_inv.simps)
  then obtain WB where "wm_bufs m' i = Some WB" by (auto simp: wb_room_def)
  then show ?thesis using m' pre w by (auto simp: wr_inv_Some fails_def held_def simp del: wr_inv.simps)
qed

lemma consume_call_ok:
  assumes inv: "wr_inv D (io, Some W, m)" and pre: "wm_ptr m = Some (i, off, len)" "n \<le> len"
    and some: "\<not> (idle W \<and> n = 0 \<and> off = 0 \<and> hd (nw_buffers W) = i)"
  shows "okp (write_call (WConsume n pool reg) (io, Some W, m))
    (\<lambda>s'. wr_inv D s' \<and> call_spec (WConsume n pool reg) (io, Some W, m) s')"
proof -
  have wb_room: "wb_room W m (i, off, len)" "w_inv D io W m" using inv pre by (auto simp: wr_inv_Some simp del: wr_inv.simps)
  obtain rc io' W' m' WB where r: "netbuf_write_consume pool reg io W m n = Some (rc, io', W', m')" "w_inv D io' W' m'"
    "nw_failed W' = nw_failed W" "io_stream io' = io_stream io" "wm_log m' = wm_log m" "wm_bufs m i = Some WB"
    "wm_accepted m' = wm_accepted m @ (if nw_failed W then [] else take n (drop off (wb_buf WB)))"
    "rc = 0 \<or> rc = -1 \<and> \<not> (pool \<and> reg)" "rc = 0 \<longrightarrow> nw_write_cookie W' \<noteq> None \<or> nw_buffers W' = [] \<or> nw_failed W'"
    using consume_ok [OF wb_room(2, 1) pre(2) some, of pool reg] by (auto simp: okp_iff)
  have "take n (held m) = take n (drop off (wb_buf WB))" using r(6) pre by (simp add: held_def min_def)
  moreover have "rc = 0 \<Longrightarrow> busy (io', Some W', say_rc rc (m'\<lparr>wm_ptr := None\<rparr>))"
    using busyI [of D io' W' "say_rc rc (m'\<lparr>wm_ptr := None\<rparr>)"] r by (simp add: say_rc_def)
  moreover have "wr_inv D (io', Some W', say_rc rc (m'\<lparr>wm_ptr := None\<rparr>))"
    using r(2) by (simp add: wr_inv_Some say_rc_def del: wr_inv.simps)
  ultimately show ?thesis using r by (auto simp: fails_def say_rc_def simp del: wr_inv.simps)
qed
text \<open>\<open>netbuf_write_write\<close> reserves, fills and consumes; the reservation is not seen by the user.\<close>

lemma write_ok:
  assumes inv: "w_inv D io W m" and res: "\<not> nw_reserved W" "\<not> nw_failed W"
    and some: "\<not> (idle W \<and> nw_buffers W = [] \<and> buf = [] \<and> ok \<and> a \<noteq> None)"
  shows "okp (netbuf_write_write ok a pool reg io W m buf) (\<lambda>(rc, io', W', m'). w_inv D io' W' m' \<and>
    \<not> nw_failed W' \<and> io_stream io' = io_stream io \<and> wm_ptr m' = wm_ptr m \<and> wm_log m' = wm_log m \<and>
    (rc = 0 \<and> wm_accepted m' = wm_accepted m @ buf \<and> busy (io', Some W', m') \<or>
     rc = -1 \<and> wm_accepted m' = wm_accepted m @ buf \<and> \<not> (pool \<and> reg) \<or>
     rc = -1 \<and> wm_accepted m' = wm_accepted m \<and> (\<not> ok \<or> a = None \<or> SSIZE_MAX < max (length buf) WBUFLEN)))"
proof -
  obtain p W1 m1 where r: "netbuf_write_reserve ok a W m (length buf) = Some (p, W1, m1)" "w_inv D io W1 m1" "\<not> nw_failed W1"
    "wm_accepted m1 = wm_accepted m" "wm_log m1 = wm_log m" "wm_ptr m1 = wm_ptr m"
    and p: "case p of None \<Rightarrow> \<not> ok \<or> a = None \<or> SSIZE_MAX < max (length buf) WBUFLEN
      | Some (i, off) \<Rightarrow> wb_room W1 m1 (i, off, length buf) \<and>
          (idle W1 \<and> off = 0 \<and> hd (nw_buffers W1) = i \<longrightarrow> idle W \<and> nw_buffers W = [] \<and> ok \<and> a \<noteq> None)"
    using reserve_ok [OF inv res(1), of ok a "length buf"] res(2) by (auto simp: okp_iff)
  show ?thesis
  proof (cases p)
    case None
    then show ?thesis using r p res by (auto simp: netbuf_write_write_def)
  next
    case (Some x)
    obtain i off where x: "x = (i, off)" by (cases x)
    have wb_room: "wb_room W1 m1 (i, off, length buf)" using p Some x by simp
    obtain m2 b where m2: "wb_store (i, off) buf m1 = Some m2" "w_inv D io W1 m2" "wb_room W1 m2 (i, off, length buf)"
      "m2 = m1\<lparr>wm_bufs := b\<rparr>" "\<forall>WB. wm_bufs m2 i = Some WB \<longrightarrow> take (length buf) (drop off (wb_buf WB)) = buf"
      using store_ok [OF r(2) wb_room order_refl] by (auto simp: okp_iff)
    have first: "\<not> (idle W1 \<and> length buf = 0 \<and> off = 0 \<and> hd (nw_buffers W1) = i)" using p Some x some by auto
    obtain rc io' W' m' WB where c: "netbuf_write_consume pool reg io W1 m2 (length buf) = Some (rc, io', W', m')" "w_inv D io' W' m'"
      "\<not> nw_failed W'" "io_stream io' = io_stream io" "wm_log m' = wm_log m2" "wm_ptr m' = wm_ptr m2" "wm_bufs m2 i = Some WB"
      "wm_accepted m' = wm_accepted m2 @ take (length buf) (drop off (wb_buf WB))"
      "rc = 0 \<or> rc = -1 \<and> \<not> (pool \<and> reg)" "rc = 0 \<longrightarrow> nw_write_cookie W' \<noteq> None \<or> nw_buffers W' = [] \<or> nw_failed W'"
      using consume_ok [OF m2(2, 3) order_refl first, of pool reg] r(3) by (auto simp: okp_iff)
    have "rc = 0 \<Longrightarrow> busy (io', Some W', m')" using busyI [OF c(2)] c(10) by blast
    moreover have "netbuf_write_write ok a pool reg io W m buf = Some (rc, io', W', m')"
      using r(1) Some x m2(1) c(1, 9) res by (auto simp: netbuf_write_write_def)
    ultimately show ?thesis using c m2(4, 5) r by (auto simp: m2(4))
  qed
qed

text \<open>An idle writer with nothing to write is given no bytes.\<close>

lemma write_aborts:
  assumes inv: "w_inv D io W m" and idle: "idle W" "nw_buffers W = []" "\<not> nw_reserved W"
  shows "netbuf_write_write True (Some f) pool reg io W m [] = None"
proof -
  obtain p W1 m1 where r: "netbuf_write_reserve True (Some f) W m 0 = Some (p, W1, m1)" "w_inv D io W1 m1"
    and p: "case p of None \<Rightarrow> SSIZE_MAX < WBUFLEN | Some (i, off) \<Rightarrow> wb_room W1 m1 (i, off, 0)"
    using reserve_ok [OF inv idle(3), of True "Some f" 0] by (auto simp: okp_iff split: option.splits)
  obtain i where i: "p = Some (i, 0)" "nw_buffers W1 = [i]" "idle W1"
    using r(1) p idle
    by (auto simp: netbuf_write_reserve_def stailq_last_def Let_def idle_def c_malloc_def SSIZE_MAX_def WBUFLEN_def split: option.splits)
  then have room: "wb_room W1 m1 (i, 0, 0)" using p by simp
  obtain m2 where m2: "wb_store (i, 0) [] m1 = Some m2" "w_inv D io W1 m2" "wb_room W1 m2 (i, 0, 0)"
    using store_ok [OF r(2) room, of "[]"] by (auto simp: okp_iff)
  have "netbuf_write_consume pool reg io W1 m2 0 = None"
    by (rule consume_aborts [OF m2(2, 3) i(3)]) (simp add: i)
  then show ?thesis using r(1) i m2(1) idle by (simp add: netbuf_write_write_def idle_def)
qed

lemma write_call_ok:
  assumes inv: "wr_inv D (io, Some W, m)" and pre: "nw_failed W \<or> wm_ptr m = None"
    and some: "\<not> call_aborts (WWrite buf ok a pool reg) (io, Some W, m)"
  shows "okp (write_call (WWrite buf ok a pool reg) (io, Some W, m))
    (\<lambda>s'. wr_inv D s' \<and> call_spec (WWrite buf ok a pool reg) (io, Some W, m) s')"
proof (cases "nw_failed W")
  case True
  then show ?thesis using inv by (auto simp: netbuf_write_write_def wr_inv_Some fails_def say_rc_def simp del: wr_inv.simps)
next
  case False
  have W: "w_inv D io W m" and wb_room: "\<forall>p. wm_ptr m = Some p \<longrightarrow> wb_room W m p"
    using inv unfolding wr_inv_Some by blast+
  have ptr: "wm_ptr m = None" using pre False by simp
  have res: "\<not> nw_reserved W" "\<not> (idle W \<and> nw_buffers W = [] \<and> buf = [] \<and> ok \<and> a \<noteq> None)" using some False by auto
  obtain rc io' W' m' where r: "netbuf_write_write ok a pool reg io W m buf = Some (rc, io', W', m')" "w_inv D io' W' m'"
    "\<not> nw_failed W'" "io_stream io' = io_stream io" "wm_ptr m' = wm_ptr m" "wm_log m' = wm_log m"
    "rc = 0 \<and> wm_accepted m' = wm_accepted m @ buf \<and> busy (io', Some W', m') \<or>
     rc = -1 \<and> wm_accepted m' = wm_accepted m @ buf \<and> \<not> (pool \<and> reg) \<or>
     rc = -1 \<and> wm_accepted m' = wm_accepted m \<and> (\<not> ok \<or> a = None \<or> SSIZE_MAX < max (length buf) WBUFLEN)"
    using write_ok [OF W res(1) False res(2), of pool reg] by (auto simp: okp_iff)
  have "busy (io', Some W', say_rc rc m') = busy (io', Some W', m')"
    using pending_cong [of "say_rc rc m'" m' io' W'] by (simp add: busy_def say_rc_def wb_data_def fun_eq_iff)
  then show ?thesis using r ptr False by (auto simp: wr_inv_Some fails_def say_rc_def simp del: wr_inv.simps)
qed

lemma free_buffers_ok:
  "distinct q \<Longrightarrow> set q \<subseteq> dom (wm_bufs m) \<Longrightarrow>
    free_buffers q m = Some (m\<lparr>wm_bufs := (\<lambda>i. if i \<in> set q then None else wm_bufs m i)\<rparr>)"
proof (induction q arbitrary: m)
  case (Cons i q)
  let ?m = "m\<lparr>wm_bufs := (wm_bufs m)(i := None)\<rparr>"
  have "free_buffers q ?m = Some (?m\<lparr>wm_bufs := (\<lambda>j. if j \<in> set q then None else wm_bufs ?m j)\<rparr>)"
    using Cons.prems by (intro Cons.IH) auto
  moreover have "(\<lambda>j. if j \<in> set q then None else wm_bufs ?m j) = (\<lambda>j. if j \<in> set (i # q) then None else wm_bufs m j)"
    by auto
  ultimately show ?case using Cons.prems by (simp add: wb_free_def)
qed simp

lemma free_call_ok:
  assumes inv: "wr_inv D (io, w, m)"
  shows "okp (write_call WFree (io, w, m)) (\<lambda>s'. wr_inv D s' \<and> call_spec WFree (io, w, m) s')"
proof (cases w)
  case None
  then show ?thesis using inv by (auto simp: netbuf_write_free_def)
next
  case (Some W)
  have q: "wq_inv W m" and wio: "wio_inv D io W m" and dat: "data_inv io W m" using inv Some by auto
  have pre: "prefix (io_stream io) (wm_accepted m)" using dat by (auto simp: data_inv_def split: if_splits)
  have dist: "distinct (nw_buffers W)" using q by (simp add: wq_inv_def)
  show ?thesis
  proof (cases "nw_write_cookie W")
    case None
    have dom: "dom (wm_bufs m) = set (nw_buffers W)" using None q wio by (auto simp: wq_inv_def wio_inv_def)
    then have "(\<lambda>i. if i \<in> set (nw_buffers W) then None else wm_bufs m i) = Map.empty" by (auto simp: fun_eq_iff domIff [symmetric])
    then show ?thesis using free_buffers_ok [OF dist, of m] dom Some None wio pre
      by (auto simp: netbuf_write_free_def wio_inv_def)
  next
    case C: (Some C)
    obtain i where i: "nw_curr W = Some i" "C \<in> dom (io_pool io)" "C \<notin> D" "dom (io_pool io) = insert C D" "\<forall>i \<in> dom (io_pool io). i < io_next io"
      using wio C by (auto simp: wio_inv_def)
    have dom: "dom (wm_bufs m) = insert i (set (nw_buffers W))" "i \<notin> set (nw_buffers W)" using i(1) q by (auto simp: wq_inv_def)
    let ?m = "m\<lparr>wm_bufs := (wm_bufs m)(i := None)\<rparr>"
    have "wb_free i m = Some ?m" using dom(1) by (simp add: wb_free_def)
    moreover have "free_buffers (nw_buffers W) ?m = Some (?m\<lparr>wm_bufs := Map.empty\<rparr>)"
    proof -
      have "(\<lambda>j. if j \<in> set (nw_buffers W) then None else wm_bufs ?m j) = Map.empty" using dom(1) by (auto simp: fun_eq_iff domIff [symmetric])
      then show ?thesis using free_buffers_ok [OF dist, of ?m] dom by auto
    qed
    moreover obtain ck where "io_pool io C = Some ck" using i(2) by auto
    then have "network_write_cancel C io = Some (io\<lparr>io_event := None, io_pool := (io_pool io)(C := None)\<rparr>)"
      by (simp add: network_write_cancel_def pool_free_def net_cancel_def domI)
    ultimately show ?thesis using Some C i pre by (auto simp: netbuf_write_free_def)
  qed
qed

lemma wr_call_aborts:
  assumes inv: "wr_inv D s" and pre: "write_pre c s" and aborts: "call_aborts c s"
  shows "write_call c s = None"
proof -
  obtain io w m where s: "s = (io, w, m)" by (cases s)
  show ?thesis
  proof (cases c)
    case (WReserve len ok a)
    then show ?thesis using aborts by (auto simp: s netbuf_write_reserve_def)
  next
    case (WConsume n pool reg)
    then show ?thesis using aborts inv consume_aborts by (auto simp: s wr_inv_Some simp del: wr_inv.simps)
  next
    case (WWrite buf ok a pool reg)
    then obtain W where W: "w = Some W" "\<not> nw_failed W"
      "nw_reserved W \<or> idle W \<and> nw_buffers W = [] \<and> buf = [] \<and> ok \<and> a \<noteq> None" using aborts by (auto simp: s)
    show ?thesis
    proof (cases "nw_reserved W")
      case True
      then show ?thesis using W WWrite by (auto simp: s netbuf_write_write_def netbuf_write_reserve_def)
    next
      case False
      then show ?thesis using W WWrite inv write_aborts [of D io W m] by (auto simp: s wr_inv_Some simp del: wr_inv.simps)
    qed
  qed (use aborts in auto)
qed

lemma wr_call_ok:
  assumes inv: "wr_inv D s" and pre: "write_pre c s" and some: "\<not> call_aborts c s"
  shows "okp (write_call c s) (\<lambda>s'. wr_inv D s' \<and> call_spec c s s')"
proof -
  obtain io w m where s: "s = (io, w, m)" by (cases s)
  show ?thesis
  proof (cases c)
    case (WReserve len ok a)
    then obtain W where "w = Some W" "\<not> nw_reserved W" using pre some by (auto simp: s)
    then show ?thesis using inv reserve_call_ok WReserve unfolding s by blast
  next
    case (WFill d)
    then show ?thesis using inv pre fill_call_ok unfolding s by fastforce
  next
    case (WConsume n pool reg)
    then obtain W i off len where "w = Some W" "wm_ptr m = Some (i, off, len)" "n \<le> len"
      "\<not> (idle W \<and> n = 0 \<and> off = 0 \<and> hd (nw_buffers W) = i)" using pre some by (auto simp: s)
    then show ?thesis using inv consume_call_ok WConsume unfolding s by blast
  next
    case (WWrite buf ok a pool reg)
    then obtain W where "w = Some W" "nw_failed W \<or> wm_ptr m = None" using pre by (auto simp: s)
    then show ?thesis using inv write_call_ok some WWrite unfolding s by blast
  next
    case WFree
    then show ?thesis using inv free_call_ok unfolding s by fastforce
  qed
qed

text \<open>After a failure, calls take nothing more.\<close>

lemma call_spec_failed: "call_spec c s s' \<Longrightarrow> fails s \<Longrightarrow> fails s' \<and> wm_accepted (snd (snd s')) = wm_accepted (snd (snd s)) \<and>
    io_stream (fst s') = io_stream (fst s)"
  by (cases s; cases s'; cases c) (auto simp: fails_def)

lemma wr_calls_ok:
  "wr_inv D s \<Longrightarrow> fails s \<Longrightarrow> okp (write_calls cs s) (\<lambda>s'. wr_inv D s' \<and> fails s' \<and>
     wm_accepted (snd (snd s')) = wm_accepted (snd (snd s)) \<and> io_stream (fst s') = io_stream (fst s))"
proof (induction cs arbitrary: s)
  case (Cons c cs)
  show ?case
  proof (cases "write_pre c s \<and> \<not> call_aborts c s")
    case True
    then have pre: "write_pre c s" "\<not> call_aborts c s" by simp_all
    obtain s1 where s1: "write_call c s = Some s1" "wr_inv D s1" "call_spec c s s1"
      using wr_call_ok [OF Cons.prems(1) pre] by (auto simp: okp_iff)
    then show ?thesis using Cons.IH [OF s1(2)] call_spec_failed [OF s1(3) Cons.prems(2)] True by simp
  next
    case False
    then show ?thesis using Cons.IH [OF Cons.prems] by (simp only: write_calls.simps if_False)
  qed
qed simp

section \<open>The socket becomes ready\<close>

fun step_spec :: "writer_step \<Rightarrow> writer \<Rightarrow> int \<Rightarrow> writer \<Rightarrow> bool" where
  "step_spec (WCall c) s rc s' \<longleftrightarrow> rc = 0 \<and> call_spec c s s'"
| "step_spec (WReady send reg script urc pool' reg') s rc s' \<longleftrightarrow>
     wm_accepted (snd (snd s')) = wm_accepted (snd (snd s)) \<and>
     (if io_event (fst s) = None then s' = s \<and> rc = 0
      else \<exists>bs. io_stream (fst s') = io_stream (fst s) @ bs \<and>
        (case send of SendCount n \<Rightarrow> bs \<noteq> [] \<and> length bs \<le> n | _ \<Rightarrow> bs = []) \<and> (send = SendError \<longrightarrow> fails s') \<and>
        (if fails s' then rc = urc \<and> (send = SendError \<or> \<not> reg)
         else rc = 0 \<and> busy s' \<or> rc = -1 \<and> \<not> (pool' \<and> reg')))"

lemma wr_free_ok:
  assumes "wr_inv {C} (io, w, m)"
  shows "\<exists>io'. pool_free C io = Some io' \<and> wr_inv {} (io', w, m) \<and> io_stream io' = io_stream io \<and>
    busy (io', w, m) = busy (io, w, m)"
proof (cases w)
  case None
  then have "dom (io_pool io) = {C}" using assms by simp
  moreover from this have "(io_pool io)(C := None) = Map.empty" by (subst dom_eq_empty_conv [symmetric]) simp
  ultimately show ?thesis using assms None by (simp add: pool_free_def busy_def)
next
  case (Some W)
  have C: "C \<in> dom (io_pool io)" "nw_write_cookie W \<noteq> Some C" using assms Some by (auto simp: wio_inv_def split: option.splits)
  let ?io = "io\<lparr>io_pool := (io_pool io)(C := None)\<rparr>"
  have pend: "pending ?io W m = pending io W m" using C(2) by (cases "nw_write_cookie W") (auto simp: pending_def)
  have "wio_inv {} ?io W m" using assms Some C(2) by (auto simp: wio_inv_def split: option.splits)
  then have "wr_inv {} (?io, w, m)" using assms Some pend by (simp add: data_inv_def)
  then show ?thesis using C(1) pend Some by (simp add: pool_free_def busy_def)
qed

text \<open>The write is over: \<open>W\<close> is the writer before the callback, and \<open>io\<close> the state with the event gone.\<close>

lemma writbuf_ok:
  assumes q: "wq_inv W m" and W: "nw_write_cookie W \<noteq> None" "nw_curr W = Some i" "\<not> nw_failed W" "\<not> nw_reserved W"
    and WB: "wm_bufs m i = Some WB" and ptr: "wm_ptr m = None"
    and io: "dom (io_pool io) = {C}" "io_event io = None" "\<forall>i \<in> dom (io_pool io). i < io_next io"
  shows "prefix (io_stream io) (wm_accepted m) \<Longrightarrow>
      okp (writbuf script urc pool reg (-1) io (Some W, m)) (\<lambda>(rc, s'). wr_inv {C} s' \<and> rc = urc \<and> fails s' \<and>
        wm_accepted (snd (snd s')) = wm_accepted m \<and> io_stream (fst s') = io_stream io)"
    and "wm_accepted m = io_stream io @ concat (map (wb_data m) (nw_buffers W)) \<Longrightarrow> \<not> first_empty W m \<Longrightarrow>
      okp (writbuf script urc pool reg (int (wb_datalen WB)) io (Some W, m)) (\<lambda>(rc, s'). wr_inv {C} s' \<and> \<not> fails s' \<and>
        wm_accepted (snd (snd s')) = wm_accepted m \<and> io_stream (fst s') = io_stream io \<and>
        (rc = 0 \<and> busy s' \<or> rc = -1 \<and> \<not> (pool \<and> reg)))"
proof -
  have len: "wb_datalen WB \<le> SSIZE_MAX" using q WB unfolding wq_inv_def by (meson order_trans)
  let ?W = "W\<lparr>nw_write_cookie := None, nw_curr := None\<rparr>" and ?m = "m\<lparr>wm_bufs := (wm_bufs m)(i := None)\<rparr>"
  have free: "wb_free i m = Some ?m" using WB by (simp add: wb_free_def domI)
  have i: "i \<notin> set (nw_buffers W)" using q W(2) by (simp add: wq_inv_def)
  have q': "wq_inv ?W ?m" using q W i unfolding wq_inv_def by auto
  {
    assume pre: "prefix (io_stream io) (wm_accepted m)"
    let ?F = "?W\<lparr>nw_failed := True\<rparr>"
    have "nat (-1 mod 2 ^ 64) \<noteq> wb_datalen WB" using len by (simp add: SSIZE_MAX_def)
    then have eq: "writbuf script urc pool reg (-1) io (Some W, m) = do { (io, w, m) \<leftarrow> write_calls script (io, Some ?F, ?m); Some (urc, io, w, m) }"
      using W WB free by (auto simp: writbuf_def Let_def)
    have "wr_inv {C} (io, Some ?F, ?m)"
      using q' pre io ptr by (auto simp: wq_inv_def wio_inv_def data_inv_def hd_inv_def first_data_def idle_def)
    from wr_calls_ok [OF this, of script]
    show "okp (writbuf script urc pool reg (-1) io (Some W, m)) (\<lambda>(rc, s'). wr_inv {C} s' \<and> rc = urc \<and> fails s' \<and>
        wm_accepted (snd (snd s')) = wm_accepted m \<and> io_stream (fst s') = io_stream io)"
      unfolding eq by (auto simp: okp_bind fails_def simp del: wr_inv.simps elim!: okp_mono)
  next
    assume acc: "wm_accepted m = io_stream io @ concat (map (wb_data m) (nw_buffers W))" and first: "\<not> first_empty W m"
    have first': "first_data ?W ?m" using first i by (auto simp: first_data_def first_empty_def)
    have "nat (int (wb_datalen WB) mod 2 ^ 64) = wb_datalen WB" using len by (simp add: SSIZE_MAX_def)
    then have eq: "writbuf script urc pool reg (int (wb_datalen WB)) io (Some W, m) = do { (rc, io, W) \<leftarrow> poke pool reg io ?W ?m; Some (rc, io, Some W, ?m) }"
      using W WB free by (auto simp: writbuf_def Let_def)
    have wio: "wio_inv {C} io ?W ?m" using io by (simp add: wio_inv_def)
    obtain rc io' W' where p: "poke pool reg io ?W ?m = Some (rc, io', W')" "wq_inv W' ?m" "wio_inv {C} io' W' ?m" "\<not> nw_failed W'" "first_data W' ?m"
      "io_stream io' = io_stream io" "pending io' W' ?m = pending io ?W ?m" "rc = 0 \<or> rc = -1 \<and> \<not> (pool \<and> reg)"
      "rc = 0 \<longrightarrow> nw_write_cookie W' \<noteq> None \<or> nw_buffers W' = [] \<or> nw_failed W'"
      using poke_ok [OF q' wio _ first', of pool reg] W by (auto simp: okp_iff)
    have "concat (map (wb_data ?m) (nw_buffers W)) = concat (map (wb_data m) (nw_buffers W))"
      using i by (intro arg_cong [where f = concat] map_cong refl wb_data_other) auto
    then have "data_inv io' W' ?m" using p acc by (simp add: data_inv_def pending_def)
    then have inv: "w_inv {C} io' W' ?m" using p by (simp add: w_inv_def hd_inv_def)
    then show "okp (writbuf script urc pool reg (int (wb_datalen WB)) io (Some W, m)) (\<lambda>(rc, s'). wr_inv {C} s' \<and> \<not> fails s' \<and>
        wm_accepted (snd (snd s')) = wm_accepted m \<and> io_stream (fst s') = io_stream io \<and>
        (rc = 0 \<and> busy s' \<or> rc = -1 \<and> \<not> (pool \<and> reg)))"
      unfolding eq using p ptr busyI [OF inv] by (auto simp: wr_inv_Some fails_def simp del: wr_inv.simps)
  }
qed

lemma writbuf_aborts:
  assumes q: "wq_inv W m" and W: "nw_write_cookie W \<noteq> None" "nw_curr W = Some i" "\<not> nw_failed W"
    and WB: "wm_bufs m i = Some WB"
  shows "nw_reserved W \<Longrightarrow> writbuf script urc pool reg n io (Some W, m) = None"
    and "first_empty W m \<Longrightarrow> writbuf script urc pool reg (int (wb_datalen WB)) io (Some W, m) = None"
proof -
  let ?W = "W\<lparr>nw_write_cookie := None, nw_curr := None\<rparr>" and ?m = "m\<lparr>wm_bufs := (wm_bufs m)(i := None)\<rparr>"
  show "nw_reserved W \<Longrightarrow> writbuf script urc pool reg n io (Some W, m) = None" by (simp add: writbuf_def)
  assume first: "first_empty W m"
  have i: "i \<notin> set (nw_buffers W)" using q W(2) by (simp add: wq_inv_def)
  have "wq_inv ?W ?m" using q W i unfolding wq_inv_def by auto
  moreover have "\<not> first_data ?W ?m" using first i W(3) by (auto simp: first_data_def first_empty_def idle_def)
  ultimately have "poke pool reg io ?W ?m = None" by (rule poke_aborts)
  moreover have "wb_datalen WB \<le> SSIZE_MAX" using q WB unfolding wq_inv_def by (meson order_trans)
  then have "nat (int (wb_datalen WB) mod 2 ^ 64) = wb_datalen WB" by (simp add: SSIZE_MAX_def)
  ultimately show "writbuf script urc pool reg (int (wb_datalen WB)) io (Some W, m) = None"
    using W WB by (auto simp: writbuf_def Let_def wb_free_def domI cassert_def)
qed

lemma docallback_ok:
  assumes "okp (callback n io c) (\<lambda>(rc, s'). wr_inv {C} s' \<and> P rc (fails s') (busy s') (wm_accepted (snd (snd s'))) (io_stream (fst s')))"
  shows "okp (write_docallback callback C n io c) (\<lambda>(rc, s'). wr_inv {} s' \<and> P rc (fails s') (busy s') (wm_accepted (snd (snd s'))) (io_stream (fst s')))"
proof -
  obtain rc io1 w m where "callback n io c = Some (rc, io1, w, m)" "wr_inv {C} (io1, w, m)"
    and P: "P rc (fails (io1, w, m)) (busy (io1, w, m)) (wm_accepted m) (io_stream io1)"
    using assms by (auto simp: okp_iff simp del: wr_inv.simps)
  then show ?thesis using wr_free_ok [of C io1 w m] by (auto simp: write_docallback_def fails_def simp del: wr_inv.simps)
qed

lemma wr_ready_ok:
  assumes inv: "wr_inv {} s" and pre: "wm_ptr (snd (snd s)) = None" and send: "send \<noteq> SendCount 0"
    and some: "\<not> step_aborts (WReady send reg script urc pool' reg') s"
  shows "okp (write_step (WReady send reg script urc pool' reg') s)
    (\<lambda>(s', rc). wr_inv {} s' \<and> step_spec (WReady send reg script urc pool' reg') s rc s')"
proof -
  obtain io w m where s: "s = (io, w, m)" by (cases s)
  show ?thesis
  proof (cases "io_event io")
    case None
    then show ?thesis using inv by (simp add: s write_ready_def del: wr_inv.simps)
  next
    case (Some C)
    then obtain W where w: "w = Some W" using inv s by (cases w) auto
    have q: "wq_inv W m" and dat: "data_inv io W m" and wio: "wio_inv {} io W m"
      using inv s w by auto
    have ptr: "wm_ptr m = None" using pre s by simp
    obtain i WB ck where C: "nw_write_cookie W = Some C" "\<not> nw_failed W" "dom (io_pool io) = {C}" "nw_curr W = Some i"
      "wm_bufs m i = Some WB" "io_pool io C = Some ck" "rw_buf ck = 0" "rw_buflen ck = wb_datalen WB" "rw_minlen ck = wb_datalen WB"
      "rw_bufpos ck < wb_datalen WB" and nxt: "\<forall>i \<in> dom (io_pool io). i < io_next io"
      using wio Some by (auto simp: wio_inv_def split: option.splits)
    have res: "nw_reserved W \<Longrightarrow> \<not> write_done send ck \<and> send \<noteq> SendError \<and> reg"
      and first: "write_done send ck \<Longrightarrow> \<not> first_empty W m"
      using some s w Some C by auto
    have nres: "\<not> reg \<longrightarrow> \<not> nw_reserved W" using res by blast
    have len: "length (wb_buf WB) = wb_buflen WB" "wb_datalen WB \<le> wb_buflen WB" "wb_buflen WB \<le> SSIZE_MAX"
      using q C(5) by (auto simp: wq_inv_def)
    have wb: "wb_data m i = take (wb_datalen WB) (wb_buf WB)" using C(5) by (simp add: wb_data_def)
    define rest where "rest = concat (map (wb_data m) (nw_buffers W))"
    have acc: "wm_accepted m = io_stream io @ drop (rw_bufpos ck) (wb_data m i) @ rest"
      using dat C by (simp add: data_inv_def pending_def rest_def)
    let ?cb = "writbuf script urc pool' reg'"
    let ?E = "io\<lparr>io_event := None\<rparr>"
    have step: "write_step (WReady send reg script urc pool' reg') s = do {
        (rc, io, c) \<leftarrow> write_callback_buf fetch_writer ?cb send reg C ?E (Some W, m); Some ((io, c), rc) }"
      using Some by (simp add: s w write_ready_def)
    note wok = writbuf_ok [OF q _ C(4) C(2) _ C(5) ptr, of _ C script urc pool' reg']
    \<comment> \<open>a chunk \<open>bs\<close> has gone out, and the cookie is \<open>ck'\<close>\<close>
    have fail: "okp (write_docallback ?cb C (-1) io' (Some W, m)) (\<lambda>(rc, s'). wr_inv {} s' \<and> rc = urc \<and> fails s' \<and>
        wm_accepted (snd (snd s')) = wm_accepted m \<and> io_stream (fst s') = io_stream io')"
      if "dom (io_pool io') = {C}" "io_event io' = None" "io_next io' = io_next io" "prefix (io_stream io') (wm_accepted m)" "\<not> nw_reserved W" for io'
      by (rule docallback_ok [where P = "\<lambda>rc f b a t. rc = urc \<and> f \<and> a = wm_accepted m \<and> t = io_stream io'"])
        (rule wok(1), use that C nxt in auto)
    have again: "okp (write_tryagain ?cb reg C io' (Some W, m)) (\<lambda>(rc, s'). wr_inv {} s' \<and>
        wm_accepted (snd (snd s')) = wm_accepted m \<and> io_stream (fst s') = io_stream io' \<and>
        (if reg then rc = 0 \<and> \<not> fails s' \<and> busy s' else rc = urc \<and> fails s'))"
      if io': "dom (io_pool io') = {C}" "io_event io' = None" "io_next io' = io_next io"
        and ck': "io_pool io' C = Some ck'" "rw_buf ck' = 0" "rw_buflen ck' = wb_datalen WB" "rw_minlen ck' = wb_datalen WB"
        "rw_bufpos ck' < wb_datalen WB" and nres: "\<not> reg \<longrightarrow> \<not> nw_reserved W" and a: "wm_accepted m = io_stream io' @ drop (rw_bufpos ck') (wb_data m i) @ rest" for io' ck'
    proof (cases reg)
      case True
      have "wr_inv {} (io'\<lparr>io_event := Some C\<rparr>, Some W, m)"
        using q ptr io' ck' a C nxt by (simp add: wio_inv_def data_inv_def pending_def rest_def hd_inv_def first_data_def idle_def)
      then show ?thesis using True io'(2) C by (simp add: write_tryagain_def net_register_def busy_def fails_def del: wr_inv.simps)
    next
      case False
      then show ?thesis using fail [OF io'] nres a by (auto simp: write_tryagain_def net_register_def elim!: okp_mono simp del: wr_inv.simps)
    qed
    show ?thesis
    proof (cases send)
      case SendAgain
      have "write_callback_buf fetch_writer ?cb send reg C ?E (Some W, m) = write_tryagain ?cb reg C ?E (Some W, m)"
        using C SendAgain by (simp add: write_callback_buf_def)
      then show ?thesis unfolding step using again [of ?E ck] nres C acc SendAgain Some s w
        by (auto simp: okp_bind simp del: wr_inv.simps elim!: okp_mono split: if_splits)
    next
      case SendError
      have sres: "\<not> nw_reserved W" using res SendError by blast
      have "write_callback_buf fetch_writer ?cb send reg C ?E (Some W, m) = write_docallback ?cb C (-1) ?E (Some W, m)"
        using C SendError by (simp add: write_callback_buf_def)
      then show ?thesis unfolding step using fail [of ?E] sres C acc SendError Some s w
        by (auto simp: okp_bind simp del: wr_inv.simps elim!: okp_mono)
    next
      case (SendCount k)
      define n where "n = min k (wb_datalen WB - rw_bufpos ck)"
      have n: "0 < n" "n \<le> k" "rw_bufpos ck + n \<le> wb_datalen WB" using send SendCount C(10) by (auto simp: n_def)
      define bs where "bs = take n (drop (rw_bufpos ck) (wb_buf WB))"
      have bs: "length bs = n" using n len by (simp add: bs_def)
      define ck' where "ck' = ck\<lparr>rw_bufpos := rw_bufpos ck + n\<rparr>"
      let ?io = "?E\<lparr>io_pool := (io_pool io)(C \<mapsto> ck'), io_stream := io_stream io @ bs\<rparr>"
      have size: "rw_bufpos ck + n \<le> SIZE_MAX" "wb_datalen WB \<le> SIZE_MAX" "rw_bufpos ck + n \<le> SSIZE_MAX"
        using n len SSIZE_SIZE(1) [of "wb_datalen WB"] by auto
      have eq: "write_callback_buf fetch_writer ?cb send reg C ?E (Some W, m) =
          (if rw_bufpos ck' < wb_datalen WB then write_tryagain ?cb reg C ?io (Some W, m)
           else write_docallback ?cb C (int (rw_bufpos ck')) ?io (Some W, m))"
      proof -
        have "fetch_writer (rw_buf ck + rw_bufpos ck) n (Some W, m) = Some bs"
          using C n len by (simp add: fetch_writer_def mem_load_def bs_def)
        moreover have "min k (szsub (rw_buflen ck) (rw_bufpos ck)) = n" using C size by (simp add: n_def)
        moreover from this have "0 < k" "0 < szsub (rw_buflen ck) (rw_bufpos ck)" using n(1) by auto
        moreover have "szadd (rw_bufpos ck) n = rw_bufpos ck + n" using size by simp
        ultimately show ?thesis using C n(1) size(3) SendCount
          by (simp add: write_callback_buf_def Let_def ck'_def)
      qed
      have "drop (rw_bufpos ck) (wb_data m i) = bs @ drop (rw_bufpos ck') (wb_data m i)"
      proof -
        have "bs = take n (drop (rw_bufpos ck) (wb_data m i))" using n by (simp add: bs_def wb drop_take min_def)
        then show ?thesis by (simp add: ck'_def add.commute flip: drop_drop)
      qed
      then have acc': "wm_accepted m = io_stream ?io @ drop (rw_bufpos ck') (wb_data m i) @ rest" using acc by simp
      show ?thesis
      proof (cases "rw_bufpos ck' < wb_datalen WB")
        case True
        then show ?thesis unfolding step eq using again [of ?io ck'] nres C acc' SendCount Some s w n bs
          by (auto simp: okp_bind ck'_def simp del: wr_inv.simps elim!: okp_mono split: if_splits)
      next
        case False
        then have pos: "rw_bufpos ck' = wb_datalen WB" using n by (simp add: ck'_def)
        then have "write_done send ck" using n SendCount C(9) by (simp add: write_done_def ck'_def)
        note ended = this
        have "okp (?cb (int (wb_datalen WB)) ?io (Some W, m)) (\<lambda>(rc, s'). wr_inv {C} s' \<and> \<not> fails s' \<and>
            wm_accepted (snd (snd s')) = wm_accepted m \<and> io_stream (fst s') = io_stream ?io \<and>
            (rc = 0 \<and> busy s' \<or> rc = -1 \<and> \<not> (pool' \<and> reg')))"
          using acc' pos C nxt ended res first by (intro wok(2)) (auto simp: rest_def wb)
        then have "okp (write_docallback ?cb C (int (wb_datalen WB)) ?io (Some W, m)) (\<lambda>(rc, s'). wr_inv {} s' \<and> \<not> fails s' \<and>
            wm_accepted (snd (snd s')) = wm_accepted m \<and> io_stream (fst s') = io_stream ?io \<and>
            (rc = 0 \<and> busy s' \<or> rc = -1 \<and> \<not> (pool' \<and> reg')))"
          by (rule docallback_ok [where P = "\<lambda>rc f b a t. \<not> f \<and> a = wm_accepted m \<and> t = io_stream ?io \<and>
            (rc = 0 \<and> b \<or> rc = -1 \<and> \<not> (pool' \<and> reg'))"])
        then show ?thesis unfolding step eq using False pos C SendCount Some s w n bs
          by (auto simp: okp_bind simp del: wr_inv.simps elim!: okp_mono)
      qed
    qed
  qed
qed

lemma wr_ready_aborts:
  assumes inv: "wr_inv {} s" and aborts: "step_aborts (WReady send reg script urc pool' reg') s" and send: "send \<noteq> SendCount 0"
  shows "write_step (WReady send reg script urc pool' reg') s = None"
proof -
  obtain io w m where s: "s = (io, w, m)" by (cases s)
  obtain W C ck where w: "w = Some W" "io_event io = Some C" "io_pool io C = Some ck"
    and ab: "nw_reserved W \<and> (write_done send ck \<or> send = SendError \<or> \<not> reg) \<or> write_done send ck \<and> first_empty W m"
    using aborts by (auto simp: s bind_eq_Some_conv split: option.splits)
  have q: "wq_inv W m" and wio: "wio_inv {} io W m" using inv s w(1) by auto
  obtain i WB where C: "nw_write_cookie W = Some C" "\<not> nw_failed W" "nw_curr W = Some i"
    "wm_bufs m i = Some WB" "rw_buf ck = 0" "rw_buflen ck = wb_datalen WB" "rw_minlen ck = wb_datalen WB" "rw_bufpos ck < wb_datalen WB"
    using wio w by (auto simp: wio_inv_def split: option.splits)
  have len: "length (wb_buf WB) = wb_buflen WB" "wb_datalen WB \<le> wb_buflen WB" "wb_buflen WB \<le> SSIZE_MAX"
    using q C(4) by (auto simp: wq_inv_def)
  let ?cb = "writbuf script urc pool' reg'"
  have cb: "nw_reserved W \<Longrightarrow> ?cb n io' (Some W, m) = None"
    "first_empty W m \<Longrightarrow> ?cb (int (wb_datalen WB)) io' (Some W, m) = None" for n io'
    using writbuf_aborts [OF q _ C(3) C(2) C(4)] C(1) by auto
  have "write_callback_buf fetch_writer ?cb send reg C (io\<lparr>io_event := None\<rparr>) (Some W, m) = None"
  proof (cases send)
    case SendAgain
    then show ?thesis using w ab cb by (auto simp: write_callback_buf_def write_done_def write_tryagain_def net_register_def write_docallback_def)
  next
    case SendError
    then show ?thesis using w ab cb by (auto simp: write_callback_buf_def write_done_def write_docallback_def)
  next
    case (SendCount k)
    define n where "n = min k (wb_datalen WB - rw_bufpos ck)"
    have n: "0 < n" "rw_bufpos ck + n \<le> wb_datalen WB" using send SendCount C(8) by (auto simp: n_def)
    have size: "rw_bufpos ck + n \<le> SIZE_MAX" "wb_datalen WB \<le> SIZE_MAX" "wb_datalen WB \<le> SSIZE_MAX"
      using n len SSIZE_SIZE(1) [of "wb_datalen WB"] by auto
    have oplen: "min k (szsub (wb_datalen WB) (rw_bufpos ck)) = n" using C(8) size by (simp add: n_def)
    have add: "szadd (rw_bufpos ck) n = rw_bufpos ck + n" using size by simp
    have all: "write_done send ck \<longleftrightarrow> rw_bufpos ck + n = wb_datalen WB"
      using SendCount C(7, 8) by (auto simp: write_done_def n_def)
    have "fetch_writer (rw_bufpos ck) n (Some W, m) = Some (take n (drop (rw_bufpos ck) (wb_buf WB)))"
      using C n len by (simp add: fetch_writer_def mem_load_def)
    then show ?thesis using w ab cb all C n size SendCount
      by (auto simp: write_callback_buf_def Let_def oplen add n_def [symmetric] write_tryagain_def net_register_def write_docallback_def cassert_def)
  qed
  then show ?thesis using w by (simp add: s write_ready_def)
qed

section \<open>The writer as a machine\<close>

definition wr_init :: "writer \<Rightarrow> bool" where
  "wr_init s \<longleftrightarrow> (\<exists>new fd W. netbuf_write_init new fd = Some (Some W) \<and>
     s = (io0, Some W, \<lparr>wm_bufs = Map.empty, wm_next = 0, wm_ptr = None, wm_accepted = [], wm_log = []\<rparr>))"

text \<open>
  Control does not return to the event loop while the user holds a reservation, as the header asks;
  \<open>send\<close> does not take zero of some bytes.
\<close>

definition wr_pre :: "writer_step \<Rightarrow> writer \<Rightarrow> bool" where
  "wr_pre st s \<longleftrightarrow>
     (case st of
        WCall c \<Rightarrow> write_pre c s
      | WReady send reg script rc pool' reg' \<Rightarrow> send \<noteq> SendCount 0 \<and> wm_ptr (snd (snd s)) = None)"

lemma netbuf_write_init_ok:
  "netbuf_write_init new fd = Some (Some W) \<Longrightarrow> \<not> nw_reserved W \<and> \<not> nw_failed W \<and> nw_buffers W = [] \<and>
    nw_write_cookie W = None \<and> nw_curr W = None"
  by (cases new) (auto simp: netbuf_write_init_def netbuf_write_init2_def cassert_def split: if_splits)

lemma wr_init_inv: "wr_init s \<Longrightarrow> wr_inv {} s"
  using netbuf_write_init_ok
  by (fastforce simp: wr_init_def io0_def wq_inv_def wio_inv_def data_inv_def pending_def hd_inv_def first_data_def first_empty_def)

lemma wr_step_ok:
  assumes "wr_inv {} s" "wr_pre st s" "\<not> step_aborts st s"
  shows "okp (write_step st s) (\<lambda>(s', rc). wr_inv {} s' \<and> step_spec st s rc s')"
proof (cases st)
  case (WCall c)
  then have "write_pre c s" "\<not> call_aborts c s" using assms by (simp_all add: wr_pre_def)
  from wr_call_ok [OF assms(1) this] show ?thesis using WCall
    by (cases s) (auto simp: wp_rules simp del: wr_inv.simps elim!: okp_mono)
next
  case (WReady send reg script rc pool' reg')
  then have "wm_ptr (snd (snd s)) = None" "send \<noteq> SendCount 0" using assms by (auto simp: wr_pre_def)
  from wr_ready_ok [OF assms(1) this] assms(3) show ?thesis unfolding WReady by blast
qed

lemma wr_step_aborts:
  assumes "wr_inv {} s" "wr_pre st s" "step_aborts st s"
  shows "write_step st s = None"
proof (cases st)
  case (WCall c)
  then show ?thesis using assms wr_call_aborts [of "{}" s c] by (simp add: wr_pre_def)
next
  case (WReady send reg script rc pool' reg')
  then show ?thesis using assms wr_ready_aborts [of s send reg script rc pool' reg'] by (simp add: wr_pre_def)
qed

text \<open>A step that stops the program leads nowhere, so the machine is that of the other steps.\<close>

interpretation nbwrite: machine_refinement wr_init "\<lambda>st s. wr_pre st s \<and> \<not> step_aborts st s" write_step "wr_inv {}" "\<lambda>s. s"
  "\<lambda>st s rc s'. step_spec st s rc s'"
  by unfold_locales (auto intro: wr_init_inv simp del: wr_inv.simps dest!: wr_step_ok elim: okp_mono)

lemma wr_reach:
  "reach wr_init wr_pre write_step s \<Longrightarrow> reach wr_init (\<lambda>st s. wr_pre st s \<and> \<not> step_aborts st s) write_step s"
proof (induction rule: reach.induct)
  case (reach_step s st s' rc)
  have "\<not> step_aborts st s"
    using wr_step_aborts [OF nbwrite.reach_inv [OF reach_step.IH] reach_step.hyps(2)] reach_step.hyps(3) by auto
  then show ?case using reach.reach_step [OF reach_step.IH _ reach_step.hyps(3)] reach_step.hyps(2) by simp
qed (rule reach.reach_init)

lemmas wr_reach_inv = nbwrite.reach_inv [OF wr_reach]


section \<open>Properties\<close>

text \<open>
  C8. In every state that a writer can reach, each call and each readiness of the socket that the
  header permits, and that is not one of the aborts characterised below, returns without a fault and does
  what it promises, whatever memory and registrations answer: a write that returns 0 has taken all
  its bytes, one that fails before it has a buffer has taken none; as long as no call has failed,
  data that is pending has a write in progress; the failure callback runs, and its result is
  returned, just when the write has failed, and from then on nothing more is taken.
\<close>

theorem netbuf_write_refines:
  assumes "reach wr_init wr_pre write_step s" "wr_pre st s" "\<not> step_aborts st s"
  shows "okp (write_step st s) (\<lambda>(s', rc). step_spec st s rc s')"
  using nbwrite.reach_spec [OF wr_reach [OF assms(1)]] assms(2, 3) by blast

definition wr_ex0 :: writer where
  "wr_ex0 = (io0, Some \<lparr>nw_s = 3, nw_reserved = False, nw_failed = False, nw_buffers = [], nw_write_cookie = None, nw_curr = None\<rparr>,
     \<lparr>wm_bufs = Map.empty, wm_next = 0, wm_ptr = None, wm_accepted = [], wm_log = []\<rparr>)"

lemma wr_ex0_init: "wr_init wr_ex0"
proof -
  let ?new = "\<lparr>nw_s = 0, nw_reserved = True, nw_failed = True, nw_buffers = [4], nw_write_cookie = Some 1, nw_curr = Some 2\<rparr>"
  have "netbuf_write_init (Some ?new) 3 = Some (fst (snd wr_ex0))"
    by (simp add: netbuf_write_init_def netbuf_write_init2_def wr_ex0_def)
  then show ?thesis unfolding wr_init_def wr_ex0_def by auto
qed

theorem netbuf_write_refines_witness:
  "okp (write_step (WCall (WWrite [1, 2, 3] True (Some (\<lambda>_. 0)) True True)) wr_ex0)
     (\<lambda>(s', rc). step_spec (WCall (WWrite [1, 2, 3] True (Some (\<lambda>_. 0)) True True)) wr_ex0 rc s')"
  by (rule netbuf_write_refines, rule reach_init, rule wr_ex0_init) (simp_all add: wr_pre_def wr_ex0_def)

text \<open>
  C13. What has gone out of the socket is always a prefix of what the writer has taken; until a
  write fails, the rest is what the buffers hold, in order.  When the writer has been freed, no
  buffer, no cookie and no event of it is left.
\<close>

theorem netbuf_write_in_order:
  assumes "reach wr_init wr_pre write_step (io, w, m)"
  shows "prefix (io_stream io) (wm_accepted m) \<and>
    (case w of
       None \<Rightarrow> wm_bufs m = Map.empty \<and> io_pool io = Map.empty \<and> io_event io = None
     | Some W \<Rightarrow> nw_failed W \<or> wm_accepted m = io_stream io @ pending io W m)"
proof (cases w)
  case None
  then show ?thesis using wr_reach_inv [OF assms] by simp
next
  case (Some W)
  then have "data_inv io W m" using wr_reach_inv [OF assms] by simp
  then show ?thesis using Some by (auto simp: data_inv_def split: if_splits)
qed

lemma wr_ex1: "\<exists>io w m. reach wr_init wr_pre write_step (io, w, m) \<and> wm_accepted m = [1, 2, 3] \<and> \<not> fails (io, w, m)"
proof -
  let ?c = "WWrite [1, 2, 3] True (Some (\<lambda>_. 0)) True True"
  have 0: "reach wr_init wr_pre write_step wr_ex0" by (rule reach_init) (rule wr_ex0_init)
  have pre: "wr_pre (WCall ?c) wr_ex0" and no: "\<not> step_aborts (WCall ?c) wr_ex0" by (simp_all add: wr_pre_def wr_ex0_def)
  obtain s' rc where s': "write_step (WCall ?c) wr_ex0 = Some (s', rc)" "step_spec (WCall ?c) wr_ex0 rc s'"
    using nbwrite.reach_spec [OF wr_reach [OF 0] conjI [OF pre no]] by (auto simp: okp_iff simp del: write_step.simps step_aborts.simps)
  have "\<not> fails wr_ex0" by (simp add: fails_def wr_ex0_def)
  moreover obtain io w m where "s' = (io, w, m)" by (cases s')
  ultimately show ?thesis using reach_step [OF 0 pre s'(1)] s'(2)
    by (auto simp: wr_ex0_def SSIZE_MAX_def WBUFLEN_def)
qed

theorem netbuf_write_in_order_witness:
  "\<exists>io w m. wm_accepted m = [1, 2, 3] \<and> prefix (io_stream io) (wm_accepted m) \<and>
    (case w of
       None \<Rightarrow> wm_bufs m = Map.empty \<and> io_pool io = Map.empty \<and> io_event io = None
     | Some W \<Rightarrow> nw_failed W \<or> wm_accepted m = io_stream io @ pending io W m)"
  using wr_ex1 netbuf_write_in_order by meson

text \<open>
  C40. Where the header permits a call or control to return to the loop, the program stops in
  exactly these cases: after a reservation (by \<open>netbuf_write_reserve\<close> or inside of
  \<open>netbuf_write_write\<close>) has failed, the next reservation, and the end of a write that was in
  progress, meet the assertion that nothing is reserved; and a write or consumption of no bytes to
  an idle writer, or the end of a write when the next buffer is empty, hands an empty buffer to
  \<open>network_write\<close>, which asserts that it is not.
\<close>

theorem netbuf_write_aborts_iff:
  assumes "reach wr_init wr_pre write_step s" "wr_pre st s"
  shows "write_step st s = None \<longleftrightarrow> step_aborts st s"
  using wr_step_ok [OF wr_reach_inv [OF assms(1)] assms(2)] wr_step_aborts [OF wr_reach_inv [OF assms(1)] assms(2)]
  by (cases "write_step st s") auto

text \<open>A write in progress, a write for which there is no memory, and the socket is ready.\<close>

definition wr_ex_calls :: "writer_step list" where
  "wr_ex_calls = [WCall (WWrite [1, 2, 3] True (Some (\<lambda>_. 0)) True True), WCall (WWrite [4] False None True True)]"

fun wr_run :: "writer_step list \<Rightarrow> writer \<Rightarrow> writer option" where
  "wr_run [] s = Some s"
| "wr_run (st # sts) s = (if wr_pre st s then do { (s, rc) \<leftarrow> write_step st s; wr_run sts s } else None)"

lemma wr_run_reach: "reach wr_init wr_pre write_step s \<Longrightarrow> wr_run sts s = Some s' \<Longrightarrow> reach wr_init wr_pre write_step s'"
proof (induction sts arbitrary: s)
  case (Cons st sts)
  then obtain s1 rc where "wr_pre st s" "write_step st s = Some (s1, rc)" "wr_run sts s1 = Some s'"
    by (auto simp: bind_eq_Some_conv split: if_splits)
  then show ?case using Cons.IH [of s1] reach.reach_step [OF Cons.prems(1)] by blast
qed simp

lemmas write_eval = wr_ex0_def netbuf_write_write_def netbuf_write_reserve_def netbuf_write_consume_def stailq_last_def
  c_malloc_def c_realloc_def SSIZE_MAX_def WBUFLEN_def wb_store_def mem_store_def mem_load_def poke_def network_write_def Let_def
  pool_malloc_def net_register_def io0_def say_rc_def SIZE_MAX_def

lemma wr_ex_stuck:
  "\<exists>s. wr_run wr_ex_calls wr_ex0 = Some s \<and> step_aborts (WReady (SendCount 3) True [] 0 True True) s \<and> wm_ptr (snd (snd s)) = None"
  by (simp add: wr_ex_calls_def wr_pre_def write_eval write_done_def)

theorem netbuf_write_aborts_iff_witness:
  "\<exists>s. wr_run wr_ex_calls wr_ex0 = Some s \<and> wr_pre (WReady (SendCount 3) True [] 0 True True) s \<and>
    write_step (WReady (SendCount 3) True [] 0 True True) s = None"
proof -
  let ?st = "WReady (SendCount 3) True [] 0 True True"
  obtain s where s: "wr_run wr_ex_calls wr_ex0 = Some s" "step_aborts ?st s" "wm_ptr (snd (snd s)) = None"
    using wr_ex_stuck by blast
  have "reach wr_init wr_pre write_step s" by (rule wr_run_reach [OF reach_init s(1)]) (rule wr_ex0_init)
  moreover have "wr_pre ?st s" using s(3) by (simp add: wr_pre_def)
  ultimately show ?thesis using netbuf_write_aborts_iff [of s ?st] s by blast
qed

end
