(* ===== verification/Event_Record.thy ===== *)
theory Event_Record
  imports Prelude
begin

text \<open>
  Event records, from \<open>events/events.c\<close>: a callback and its cookie.  The memory of the records
  is a partial map from addresses; what the record pool answers to a request is an argument (\<open>0\<close>
  for NULL).  Using a record that is not allocated, and freeing one twice, are faults.
\<close>

record eventrec =
  er_func :: nat
  er_cookie :: ptr

type_synonym ermem = "ptr \<Rightarrow> eventrec option"

definition events_mkrec :: "ptr \<Rightarrow> nat \<Rightarrow> ptr \<Rightarrow> ermem \<Rightarrow> ermem \<times> ptr" where
  "events_mkrec r func cookie em =
     (if r = 0 then (em, 0) else (em(r \<mapsto> \<lparr>er_func = func, er_cookie = cookie\<rparr>), r))"

definition events_freerec :: "ptr \<Rightarrow> ermem \<Rightarrow> ermem option" where
  "events_freerec r em = (if em r = None then None else Some (em(r := None)))"

text \<open>What the pool promises: an address that is not in use, or NULL.\<close>

definition fresh_ptr :: "ptr \<Rightarrow> (ptr \<Rightarrow> 'a option) \<Rightarrow> bool" where
  "fresh_ptr r m \<longleftrightarrow> r \<noteq> 0 \<longrightarrow> m r = None"

lemma okp_freerec [wp_rules]: "okp (events_freerec r em) P \<longleftrightarrow> em r \<noteq> None \<and> P (em(r := None))"
  by (simp add: events_freerec_def)

lemma fst_mkrec: "events_mkrec r f c em = (em', p) \<Longrightarrow> p = r \<and> (r = 0 \<longrightarrow> em' = em)"
  by (auto simp: events_mkrec_def split: if_splits)

end
