(* ===== verification/Events_Immediate.thy ===== *)
theory Events_Immediate
  imports Event_Record
begin

text \<open>
  Immediate events, from \<open>events/events_immediate.c\<close>: 32 queues of list nodes, one for each
  priority.  A \<open>TAILQ\<close> is the list of the addresses of its nodes; removing a node that is not in
  the list is a fault.
\<close>

section \<open>State and operations\<close>

record eventq =
  eq_r :: ptr
  eq_prio :: nat

record evimm =
  heads :: "ptr list list"
  minq :: nat
  eq_mem :: "ptr \<Rightarrow> eventq option"

definition evimm0 :: evimm where
  "evimm0 = \<lparr>heads = replicate 32 [], minq = 32, eq_mem = Map.empty\<rparr>"

definition tailq_remove :: "ptr \<Rightarrow> ptr list \<Rightarrow> ptr list option" where
  "tailq_remove q xs = (if q \<in> set xs then Some (remove1 q xs) else None)"

definition head_at :: "evimm \<Rightarrow> nat \<Rightarrow> ptr list option" where
  "head_at I i = (if i < length (heads I) then Some (heads I ! i) else None)"

definition eq_free :: "ptr \<Rightarrow> evimm \<Rightarrow> evimm option" where
  "eq_free q I = (if eq_mem I q = None then None else Some (I\<lparr>eq_mem := (eq_mem I)(q := None)\<rparr>))"

text \<open>\<open>r\<close> and \<open>q\<close> are the answers of the two pools.\<close>

definition events_immediate_register ::
  "ptr \<Rightarrow> ptr \<Rightarrow> nat \<Rightarrow> ptr \<Rightarrow> int \<Rightarrow> evimm \<Rightarrow> ermem \<Rightarrow> (evimm \<times> ermem \<times> ptr) option" where
  "events_immediate_register r q func cookie prio I em = do {
     cassert (0 \<le> prio \<and> prio < 32);
     let p = nat prio;
     let (em, r) = events_mkrec r func cookie em;
     if r = 0 then Some (I, em, 0)
     else if q = 0 then do {
       em \<leftarrow> events_freerec r em;
       Some (I, em, 0)
     }
     else do {
       let I = I\<lparr>eq_mem := (eq_mem I)(q \<mapsto> \<lparr>eq_r = r, eq_prio = p\<rparr>)\<rparr>;
       h \<leftarrow> head_at I p;
       let I = I\<lparr>heads := (heads I)[p := h @ [q]]\<rparr>;
       Some (if p < minq I then I\<lparr>minq := p\<rparr> else I, em, q)
     }
   }"

definition events_immediate_cancel :: "ptr \<Rightarrow> evimm \<Rightarrow> ermem \<Rightarrow> (evimm \<times> ermem) option" where
  "events_immediate_cancel c I em = do {
     q \<leftarrow> eq_mem I c;
     h \<leftarrow> head_at I (eq_prio q);
     h' \<leftarrow> tailq_remove c h;
     let I = I\<lparr>heads := (heads I)[eq_prio q := h']\<rparr>;
     em \<leftarrow> events_freerec (eq_r q) em;
     I \<leftarrow> eq_free c I;
     Some (I, em)
   }"

text \<open>Advance past priorities which have no events.\<close>

function minq_advance :: "evimm \<Rightarrow> nat \<Rightarrow> nat option" where
  "minq_advance I m =
     (if m < 32 then do {
        h \<leftarrow> head_at I m;
        if h = [] then minq_advance I (m + 1) else Some m
      } else Some m)"
  by pat_completeness auto
termination by (relation "measure (\<lambda>(I, m). 32 - m)") auto

declare minq_advance.simps [simp del]

definition events_immediate_get :: "evimm \<Rightarrow> (evimm \<times> ptr) option" where
  "events_immediate_get I = do {
     m \<leftarrow> minq_advance I (minq I);
     let I = I\<lparr>minq := m\<rparr>;
     if minq I = 32 then Some (I, 0)
     else do {
       h \<leftarrow> head_at I m;
       q \<leftarrow> (case h of [] \<Rightarrow> None | q # _ \<Rightarrow> Some q);
       h' \<leftarrow> tailq_remove q h;
       let I = I\<lparr>heads := (heads I)[m := h']\<rparr>;
       n \<leftarrow> eq_mem I q;
       I \<leftarrow> eq_free q I;
       Some (I, eq_r n)
     }
   }"


section \<open>Invariant and abstraction\<close>

text \<open>
  The nodes in the queues are exactly those allocated, each in the queue of its priority; the
  queues below \<open>minq\<close> are empty.
\<close>

definition imm_inv :: "evimm \<Rightarrow> bool" where
  "imm_inv I \<longleftrightarrow> length (heads I) = 32 \<and> minq I \<le> 32 \<and> (\<forall>i < minq I. heads I ! i = []) \<and>
     (\<forall>i < 32. distinct (heads I ! i)) \<and> eq_mem I 0 = None \<and>
     (\<forall>c q. eq_mem I c = Some q \<longrightarrow> eq_prio q < 32 \<and> eq_r q \<noteq> 0 \<and> c \<in> set (heads I ! eq_prio q)) \<and>
     (\<forall>i < 32. \<forall>c \<in> set (heads I ! i). \<exists>q. eq_mem I c = Some q \<and> eq_prio q = i)"

text \<open>The abstract state: for each priority the sequence of cookies and event records.\<close>

definition imm_abs :: "evimm \<Rightarrow> (ptr \<times> ptr) list list" where
  "imm_abs I = map (map (\<lambda>c. (c, case eq_mem I c of Some q \<Rightarrow> eq_r q | None \<Rightarrow> 0))) (heads I)"

lemma imm_abs_nth: "i < length (heads I) \<Longrightarrow>
    imm_abs I ! i = map (\<lambda>c. (c, case eq_mem I c of Some q \<Rightarrow> eq_r q | None \<Rightarrow> 0)) (heads I ! i)"
  by (simp add: imm_abs_def)

lemma length_imm_abs [simp]: "length (imm_abs I) = length (heads I)"
  by (simp add: imm_abs_def)

lemma imm_node:
  assumes "imm_inv I" "i < 32" "c \<in> set (heads I ! i)"
  obtains q where "eq_mem I c = Some q" "eq_prio q = i" "eq_r q \<noteq> 0"
  using assms unfolding imm_inv_def by blast

lemma okp_head_at [wp_rules]: "okp (head_at I i) P \<longleftrightarrow> i < length (heads I) \<and> P (heads I ! i)"
  by (simp add: head_at_def)

lemma okp_tailq_remove [wp_rules]: "okp (tailq_remove q xs) P \<longleftrightarrow> q \<in> set xs \<and> P (remove1 q xs)"
  by (simp add: tailq_remove_def)

lemma okp_eq_free [wp_rules]:
  "okp (eq_free q I) P \<longleftrightarrow> eq_mem I q \<noteq> None \<and> P (I\<lparr>eq_mem := (eq_mem I)(q := None)\<rparr>)"
  by (simp add: eq_free_def)

text \<open>Adding a node at the end of a queue, and taking one out of it.\<close>

definition imm_add :: "ptr \<Rightarrow> ptr \<Rightarrow> nat \<Rightarrow> evimm \<Rightarrow> evimm" where
  "imm_add q r p I = I\<lparr>heads := (heads I)[p := heads I ! p @ [q]],
     eq_mem := (eq_mem I)(q \<mapsto> \<lparr>eq_r = r, eq_prio = p\<rparr>), minq := min (minq I) p\<rparr>"

definition imm_del :: "ptr \<Rightarrow> nat \<Rightarrow> evimm \<Rightarrow> evimm" where
  "imm_del q p I = I\<lparr>heads := (heads I)[p := remove1 q (heads I ! p)], eq_mem := (eq_mem I)(q := None)\<rparr>"

lemma imm_fresh: "imm_inv I \<Longrightarrow> eq_mem I q = None \<Longrightarrow> i < 32 \<Longrightarrow> q \<notin> set (heads I ! i)"
  unfolding imm_inv_def by fastforce

lemma imm_add_inv:
  assumes inv: "imm_inv I" and q: "q \<noteq> 0" "eq_mem I q = None" and r: "r \<noteq> 0" and p: "p < 32"
  shows "imm_inv (imm_add q r p I)"
proof -
  have len: "length (heads I) = 32" and below: "\<forall>i < minq I. heads I ! i = []"
    and dist: "\<forall>i < 32. distinct (heads I ! i)"
    and mem: "\<And>c n. eq_mem I c = Some n \<Longrightarrow> eq_prio n < 32 \<and> eq_r n \<noteq> 0 \<and> c \<in> set (heads I ! eq_prio n)"
    and node: "\<And>i c. i < 32 \<Longrightarrow> c \<in> set (heads I ! i) \<Longrightarrow> \<exists>n. eq_mem I c = Some n \<and> eq_prio n = i"
    using inv unfolding imm_inv_def by auto
  have nth: "heads (imm_add q r p I) ! i = (if i = p then heads I ! p @ [q] else heads I ! i)" if "i < 32" for i
    using that len p by (simp add: imm_add_def nth_list_update)
  have "\<forall>i < 32. distinct (heads (imm_add q r p I) ! i)"
    using nth dist imm_fresh [OF inv q(2)] by auto
  moreover have "\<forall>i < min (minq I) p. heads (imm_add q r p I) ! i = []"
    using below nth p by auto
  moreover have "\<forall>i < 32. \<forall>c \<in> set (heads (imm_add q r p I) ! i).
      \<exists>n. eq_mem (imm_add q r p I) c = Some n \<and> eq_prio n = i"
  proof (intro allI impI ballI)
    fix i c assume i: "i < 32" and c: "c \<in> set (heads (imm_add q r p I) ! i)"
    show "\<exists>n. eq_mem (imm_add q r p I) c = Some n \<and> eq_prio n = i"
    proof (cases "c = q")
      case True
      with c nth [OF i] imm_fresh [OF inv q(2) i] have "i = p" by (auto split: if_splits)
      with True show ?thesis by (simp add: imm_add_def)
    next
      case False
      with c nth [OF i] node [OF i] show ?thesis by (auto simp: imm_add_def split: if_splits)
    qed
  qed
  moreover have "eq_prio n < 32 \<and> eq_r n \<noteq> 0 \<and> c \<in> set (heads (imm_add q r p I) ! eq_prio n)"
    if "eq_mem (imm_add q r p I) c = Some n" for c n
  proof (cases "c = q")
    case True
    with that p r nth show ?thesis by (auto simp: imm_add_def)
  next
    case False
    with that have "eq_mem I c = Some n" by (simp add: imm_add_def)
    with mem [of c n] nth show ?thesis by auto
  qed
  ultimately show ?thesis
    using q p len inv unfolding imm_inv_def by (simp add: imm_add_def)
qed

lemma imm_del_inv:
  assumes inv: "imm_inv I" and q: "eq_mem I q = Some n" and p: "p = eq_prio n"
  shows "imm_inv (imm_del q p I)"
proof -
  have len: "length (heads I) = 32" and below: "\<forall>i < minq I. heads I ! i = []"
    and dist: "\<forall>i < 32. distinct (heads I ! i)"
    and mem: "\<And>c n. eq_mem I c = Some n \<Longrightarrow> eq_prio n < 32 \<and> eq_r n \<noteq> 0 \<and> c \<in> set (heads I ! eq_prio n)"
    and node: "\<And>i c. i < 32 \<Longrightarrow> c \<in> set (heads I ! i) \<Longrightarrow> \<exists>n. eq_mem I c = Some n \<and> eq_prio n = i"
    using inv unfolding imm_inv_def by auto
  have p32: "p < 32" using mem [OF q] p by simp
  have nth: "heads (imm_del q p I) ! i = (if i = p then remove1 q (heads I ! p) else heads I ! i)" if "i < 32" for i
    using that len p32 by (simp add: imm_del_def nth_list_update)
  have out: "q \<notin> set (heads (imm_del q p I) ! i)" if "i < 32" for i
    using nth [OF that] node [OF that, of q] q p dist p32 that by auto
  have sub: "set (heads (imm_del q p I) ! i) \<subseteq> set (heads I ! i)" if "i < 32" for i
    using nth [OF that] by (auto split: if_splits dest: set_remove1_subset [THEN subsetD])
  have "\<forall>i < 32. distinct (heads (imm_del q p I) ! i)"
    using nth dist by (auto intro: distinct_remove1)
  moreover have "\<forall>i < minq I. heads (imm_del q p I) ! i = []"
  proof (intro allI impI)
    fix i assume "i < minq I"
    moreover have "minq I \<le> 32" using inv by (simp add: imm_inv_def)
    ultimately show "heads (imm_del q p I) ! i = []" using below nth [of i] by auto
  qed
  moreover have "\<forall>i < 32. \<forall>c \<in> set (heads (imm_del q p I) ! i).
      \<exists>n. eq_mem (imm_del q p I) c = Some n \<and> eq_prio n = i"
  proof (intro allI impI ballI)
    fix i c assume i: "i < 32" and c: "c \<in> set (heads (imm_del q p I) ! i)"
    with out [OF i] sub [OF i] node [OF i, of c] show "\<exists>n. eq_mem (imm_del q p I) c = Some n \<and> eq_prio n = i"
      by (auto simp: imm_del_def)
  qed
  moreover have "eq_prio n' < 32 \<and> eq_r n' \<noteq> 0 \<and> c \<in> set (heads (imm_del q p I) ! eq_prio n')"
    if "eq_mem (imm_del q p I) c = Some n'" for c n'
  proof -
    from that have "c \<noteq> q" "eq_mem I c = Some n'" by (auto simp: imm_del_def split: if_splits)
    with mem [of c n'] nth show ?thesis by auto
  qed
  ultimately show ?thesis
    using len inv unfolding imm_inv_def by (simp add: imm_del_def)
qed

lemma imm_add_abs:
  assumes "imm_inv I" "eq_mem I q = None" "p < 32"
  shows "imm_abs (imm_add q r p I) = (imm_abs I)[p := imm_abs I ! p @ [(q, r)]]"
proof (rule nth_equalityI)
  have len: "length (heads I) = 32" using assms(1) by (simp add: imm_inv_def)
  show "length (imm_abs (imm_add q r p I)) = length ((imm_abs I)[p := imm_abs I ! p @ [(q, r)]])"
    by (simp add: imm_add_def)
  fix i assume "i < length (imm_abs (imm_add q r p I))"
  then have i: "i < 32" using len by (simp add: imm_add_def)
  with imm_fresh [OF assms(1,2)] have "q \<notin> set (heads I ! i)" by blast
  then show "imm_abs (imm_add q r p I) ! i = (imm_abs I)[p := imm_abs I ! p @ [(q, r)]] ! i"
    using i len assms(3) by (auto simp: imm_abs_def imm_add_def nth_list_update)
qed

lemma imm_del_abs:
  assumes inv: "imm_inv I" and q: "eq_mem I q = Some n" and p: "p = eq_prio n"
  shows "imm_abs (imm_del q p I) = (imm_abs I)[p := remove1 (q, eq_r n) (imm_abs I ! p)]"
proof (rule nth_equalityI)
  have len: "length (heads I) = 32" and p32: "p < 32" using inv q p by (auto simp: imm_inv_def)
  show "length (imm_abs (imm_del q p I)) = length ((imm_abs I)[p := remove1 (q, eq_r n) (imm_abs I ! p)])"
    by (simp add: imm_del_def)
  fix i assume "i < length (imm_abs (imm_del q p I))"
  then have i: "i < 32" using len by (simp add: imm_del_def)
  let ?f = "\<lambda>c. (c, case eq_mem I c of Some q \<Rightarrow> eq_r q | None \<Rightarrow> 0)"
  have "inj ?f" by (rule injI) simp
  then have rem: "remove1 (?f q) (map ?f xs) = map ?f (remove1 q xs)" for xs
    by (induction xs) (auto dest: injD)
  have "q \<notin> set (heads (imm_del q p I) ! i)"
    using imm_del_inv [OF inv q p] i imm_fresh [of "imm_del q p I" q i] by (simp add: imm_del_def)
  then have "imm_abs (imm_del q p I) ! i = map ?f (heads (imm_del q p I) ! i)"
    using i len by (auto simp: imm_abs_def imm_del_def)
  moreover have "heads (imm_del q p I) ! i = (if i = p then remove1 q (heads I ! p) else heads I ! i)"
    using i len p32 by (simp add: imm_del_def nth_list_update)
  ultimately show "imm_abs (imm_del q p I) ! i = (imm_abs I)[p := remove1 (q, eq_r n) (imm_abs I ! p)] ! i"
    using i len p32 q rem [of "heads I ! p"] by (auto simp: imm_abs_nth nth_list_update)
qed


section \<open>What the operations do\<close>

lemma events_immediate_register_ok:
  assumes inv: "imm_inv I" and prio: "0 \<le> prio" "prio < 32"
    and fresh: "fresh_ptr r em" "fresh_ptr q (eq_mem I)"
  shows "okp (events_immediate_register r q func cookie prio I em) (\<lambda>(I', em', c).
     if r = 0 \<or> q = 0 then c = 0 \<and> I' = I \<and> em' = em
     else c = q \<and> imm_inv I' \<and> em' = em(r \<mapsto> \<lparr>er_func = func, er_cookie = cookie\<rparr>) \<and>
          imm_abs I' = (imm_abs I)[nat prio := imm_abs I ! nat prio @ [(q, r)]] \<and> 
          eq_mem I' = (eq_mem I)(q \<mapsto> \<lparr>eq_r = r, eq_prio = nat prio\<rparr>))"
proof -
  have len: "length (heads I) = 32" using inv by (simp add: imm_inv_def)
  let ?p = "nat prio"
  have p: "?p < 32" using prio by simp
  show ?thesis
  proof (cases "r = 0 \<or> q = 0")
    case True
    with fresh prio show ?thesis
      by (auto simp: events_immediate_register_def events_mkrec_def fresh_ptr_def fun_upd_idem wp_rules)
  next
    case False
    with prio p len have "events_immediate_register r q func cookie prio I em =
        Some (imm_add q r ?p I, em(r \<mapsto> \<lparr>er_func = func, er_cookie = cookie\<rparr>), q)"
      by (cases "?p < minq I")
        (simp_all add: events_immediate_register_def events_mkrec_def head_at_def imm_add_def min_def Let_def)
    with False fresh imm_add_inv [OF inv, of q r ?p] imm_add_abs [OF inv, of q ?p r] p show ?thesis
      by (simp add: fresh_ptr_def imm_add_def)
  qed
qed

lemma events_immediate_cancel_ok:
  assumes inv: "imm_inv I" and c: "eq_mem I c = Some n" and live: "em (eq_r n) \<noteq> None"
  shows "okp (events_immediate_cancel c I em) (\<lambda>(I', em'). imm_inv I' \<and> em' = em(eq_r n := None) \<and>
     imm_abs I' = (imm_abs I)[eq_prio n := remove1 (c, eq_r n) (imm_abs I ! eq_prio n)] \<and>
     eq_mem I' = (eq_mem I)(c := None))"
proof -
  have "length (heads I) = 32" "eq_prio n < 32" "c \<in> set (heads I ! eq_prio n)"
    using inv c by (auto simp: imm_inv_def)
  then have "events_immediate_cancel c I em = Some (imm_del c (eq_prio n) I, em(eq_r n := None))"
    using c live by (simp add: events_immediate_cancel_def head_at_def tailq_remove_def events_freerec_def
        eq_free_def imm_del_def Let_def)
  with imm_del_inv [OF inv c refl] imm_del_abs [OF inv c refl] show ?thesis by (simp add: imm_del_def)
qed

lemma minq_advance_ok:
  "length (heads I) = 32 \<Longrightarrow> m \<le> 32 \<Longrightarrow> \<forall>i < m. heads I ! i = [] \<Longrightarrow>
   okp (minq_advance I m) (\<lambda>m'. m' \<le> 32 \<and> (\<forall>i < m'. heads I ! i = []) \<and> (m' < 32 \<longrightarrow> heads I ! m' \<noteq> []))"
proof (induction I m rule: minq_advance.induct)
  case (1 I m)
  show ?case
  proof (cases "m < 32 \<and> heads I ! m = []")
    case True
    then have "minq_advance I m = minq_advance I (m + 1)"
      using 1 by (simp add: minq_advance.simps [of I m] head_at_def)
    moreover have "\<forall>i < m + 1. heads I ! i = []" using True 1 by (auto simp: less_Suc_eq)
    ultimately show ?thesis using 1 True by (simp add: head_at_def)
  next
    case False
    then show ?thesis using 1 by (auto simp: minq_advance.simps [of I m] head_at_def)
  qed
qed

text \<open>The highest priority (the least number) with an event, if there is one.\<close>

definition imm_first :: "(ptr \<times> ptr) list list \<Rightarrow> nat \<Rightarrow> bool" where
  "imm_first A p \<longleftrightarrow> p < length A \<and> A ! p \<noteq> [] \<and> (\<forall>i < p. A ! i = [])"

lemma events_immediate_get_ok:
  assumes inv: "imm_inv I"
  shows "okp (events_immediate_get I) (\<lambda>(I', r). imm_inv I' \<and>
     (if \<forall>q \<in> set (imm_abs I). q = [] then r = 0 \<and> imm_abs I' = imm_abs I \<and> eq_mem I' = eq_mem I
      else \<exists>p c rest. imm_first (imm_abs I) p \<and> imm_abs I ! p = (c, r) # rest \<and> r \<noteq> 0 \<and>
             imm_abs I' = (imm_abs I)[p := rest] \<and> eq_mem I' = (eq_mem I)(c := None)))"
proof -
  have len: "length (heads I) = 32" and mq: "minq I \<le> 32" "\<forall>i < minq I. heads I ! i = []"
    using inv by (auto simp: imm_inv_def)
  from minq_advance_ok [OF len mq] obtain m where
    m: "minq_advance I (minq I) = Some m" "m \<le> 32" "\<forall>i < m. heads I ! i = []" "m < 32 \<longrightarrow> heads I ! m \<noteq> []"
    by (rule okpE) auto
  let ?I = "I\<lparr>minq := m\<rparr>"
  have inv1: "imm_inv ?I" using inv m by (simp add: imm_inv_def)
  have abs1: "imm_abs ?I = imm_abs I" by (simp add: imm_abs_def)
  have emp: "imm_abs I ! i = [] \<longleftrightarrow> heads I ! i = []" if "i < 32" for i
    using that len by (simp add: imm_abs_nth)
  show ?thesis
  proof (cases "m = 32")
    case True
    then have "\<forall>q \<in> set (imm_abs I). q = []" using m(3) emp len by (auto simp: in_set_conv_nth)
    with True m(1) inv1 abs1 show ?thesis by (simp add: events_immediate_get_def Let_def)
  next
    case False
    with m have m32: "m < 32" by simp
    with m(4) obtain q h where h: "heads I ! m = q # h" by (cases "heads I ! m") auto
    from imm_node [OF inv m32, of q] h obtain n where n: "eq_mem I q = Some n" "eq_prio n = m" "eq_r n \<noteq> 0" by auto
    have "events_immediate_get I = Some (imm_del q m ?I, eq_r n)"
      using m(1) False m32 len h n
      by (simp add: events_immediate_get_def head_at_def tailq_remove_def eq_free_def imm_del_def Let_def)
    moreover have "imm_inv (imm_del q m ?I)" by (rule imm_del_inv [OF inv1, of q n]) (simp_all add: n)
    moreover have hd: "imm_abs I ! m = (q, eq_r n) # tl (imm_abs I ! m)" using h n m32 len by (simp add: imm_abs_nth)
    moreover have "imm_abs (imm_del q m ?I) = (imm_abs I)[m := tl (imm_abs I ! m)]"
    proof -
      have "imm_abs (imm_del q m ?I) = (imm_abs I)[m := remove1 (q, eq_r n) (imm_abs I ! m)]"
        unfolding abs1 [symmetric] by (rule imm_del_abs [OF inv1]) (simp_all add: n)
      moreover have "remove1 (q, eq_r n) (imm_abs I ! m) = tl (imm_abs I ! m)" by (subst hd) simp
      ultimately show ?thesis by simp
    qed
    moreover have "imm_first (imm_abs I) m"
      using m32 len m(3) emp hd unfolding imm_first_def by (metis length_imm_abs list.distinct(1) order.strict_trans)
    moreover have "\<not> (\<forall>q \<in> set (imm_abs I). q = [])"
      using hd m32 len by (metis length_imm_abs list.distinct(1) nth_mem)
    ultimately show ?thesis using n by (auto simp: imm_del_def)
  qed
qed

end
