(* ===== verification/Heap_Order.thy ===== *)
theory Heap_Order
  imports Main "HOL-Library.Multiset"
begin

text \<open>
  The order of a binary heap stored in an array, up to one misplaced element: what one step of
  sifting up or down does to the order, and why the first element is a minimum.  Elements are
  compared through a key function \<open>f\<close>; only the first \<open>n\<close> elements of the array count.
\<close>

definition par :: "nat \<Rightarrow> nat" where
  "par j = (j - 1) div 2"

definition lswap :: "'a list \<Rightarrow> nat \<Rightarrow> nat \<Rightarrow> 'a list" where
  "lswap xs i j = xs[i := xs ! j, j := xs ! i]"

text \<open>Every edge whose parent is at or after \<open>m\<close> is in order; \<open>heap_from f xs n 0\<close> is a heap.\<close>

definition heap_from :: "('a \<Rightarrow> 'k::linorder) \<Rightarrow> 'a list \<Rightarrow> nat \<Rightarrow> nat \<Rightarrow> bool" where
  "heap_from f xs n m \<longleftrightarrow> (\<forall>j<n. 0 < j \<longrightarrow> m \<le> par j \<longrightarrow> f (xs ! par j) \<le> f (xs ! j))"

text \<open>The same but for the edges below \<open>i\<close>, whose element may be too large.\<close>

definition heap_hole :: "('a \<Rightarrow> 'k::linorder) \<Rightarrow> 'a list \<Rightarrow> nat \<Rightarrow> nat \<Rightarrow> nat \<Rightarrow> bool" where
  "heap_hole f xs n m i \<longleftrightarrow>
     (\<forall>j<n. 0 < j \<longrightarrow> m \<le> par j \<longrightarrow> par j \<noteq> i \<longrightarrow> f (xs ! par j) \<le> f (xs ! j)) \<and>
     (\<forall>j<n. 0 < j \<longrightarrow> par j = i \<longrightarrow> 0 < i \<longrightarrow> m \<le> par i \<longrightarrow> f (xs ! par i) \<le> f (xs ! j))"

text \<open>A heap but for the edge above \<open>i\<close>, whose element may be too small.\<close>

definition heap_bump :: "('a \<Rightarrow> 'k::linorder) \<Rightarrow> 'a list \<Rightarrow> nat \<Rightarrow> nat \<Rightarrow> bool" where
  "heap_bump f xs n i \<longleftrightarrow>
     (\<forall>j<n. 0 < j \<longrightarrow> j \<noteq> i \<longrightarrow> f (xs ! par j) \<le> f (xs ! j)) \<and>
     (\<forall>j<n. 0 < j \<longrightarrow> par j = i \<longrightarrow> 0 < i \<longrightarrow> f (xs ! par i) \<le> f (xs ! j))"

lemma par_eq: "0 < j \<Longrightarrow> par j = i \<longleftrightarrow> j = 2 * i + 1 \<or> j = 2 * i + 2"
  by (auto simp: par_def)

lemma par_less [simp]: "0 < j \<Longrightarrow> par j < j"
  by (simp add: par_def div_less_iff_less_mult)

lemma par_neq [simp]: "0 < j \<Longrightarrow> par j \<noteq> j"
  using par_less [of j] by linarith

lemma par_bound [simp]: "0 < j \<Longrightarrow> j < n \<Longrightarrow> par j < n"
  using par_less [of j] by linarith

lemma length_lswap [simp]: "length (lswap xs i j) = length xs"
  by (simp add: lswap_def)

lemma nth_lswap:
  "i < length xs \<Longrightarrow> j < length xs \<Longrightarrow> k < length xs \<Longrightarrow>
   lswap xs i j ! k = (if k = i then xs ! j else if k = j then xs ! i else xs ! k)"
  by (auto simp: lswap_def nth_list_update)

lemma mset_lswap [simp]: "i < length xs \<Longrightarrow> j < length xs \<Longrightarrow> mset (lswap xs i j) = mset xs"
  unfolding lswap_def by (rule mset_swap)

lemma take_lswap: "i < n \<Longrightarrow> j < n \<Longrightarrow> n \<le> length xs \<Longrightarrow> take n (lswap xs i j) = lswap (take n xs) i j"
  by (simp add: lswap_def take_update_swap)

lemma drop_lswap [simp]: "i < n \<Longrightarrow> j < n \<Longrightarrow> drop n (lswap xs i j) = drop n xs"
  by (simp add: lswap_def)

lemma heap_min:
  assumes "heap_from f xs n 0" "j < n"
  shows "f (xs ! 0) \<le> f (xs ! j)"
  using assms(2)
proof (induction j rule: less_induct)
  case (less j)
  show ?case
  proof (cases "j = 0")
    case False
    then have "f (xs ! 0) \<le> f (xs ! par j)" using less by simp
    also have "\<dots> \<le> f (xs ! j)" using assms(1) less.prems False by (simp add: heap_from_def)
    finally show ?thesis .
  qed simp
qed

lemma heap_from_hole: "heap_from f xs n (Suc m) \<Longrightarrow> heap_hole f xs n m m"
  by (auto simp: heap_from_def heap_hole_def dest: par_less)

lemma heap_from_last: "n \<le> 2 * m + 1 \<Longrightarrow> heap_from f xs n m"
  by (auto simp: heap_from_def par_def)

lemma hole_done:
  assumes "heap_hole f xs n m i"
    and "\<And>j. j < n \<Longrightarrow> 0 < j \<Longrightarrow> par j = i \<Longrightarrow> f (xs ! i) \<le> f (xs ! j)"
  shows "heap_from f xs n m"
  unfolding heap_from_def
proof (intro allI impI)
  fix j
  assume "j < n" "0 < j" "m \<le> par j"
  with assms show "f (xs ! par j) \<le> f (xs ! j)"
    by (cases "par j = i") (auto simp: heap_hole_def)
qed

lemma hole_step:
  assumes hole: "heap_hole f xs n m i" and c: "c < n" "n \<le> length xs" "0 < c" "par c = i"
    and small: "f (xs ! c) < f (xs ! i)"
    and sib: "\<And>j. j < n \<Longrightarrow> 0 < j \<Longrightarrow> par j = i \<Longrightarrow> f (xs ! c) \<le> f (xs ! j)"
    and mi: "m \<le> i"
  shows "heap_hole f (lswap xs c i) n m c"
proof -
  from c have i: "i < c" by auto
  have nth: "k < n \<Longrightarrow> lswap xs c i ! k = (if k = c then xs ! i else if k = i then xs ! c else xs ! k)" for k
    using c i by (simp add: nth_lswap)
  have "f (lswap xs c i ! par j) \<le> f (lswap xs c i ! j)"
    if j: "j < n" "0 < j" "m \<le> par j" "par j \<noteq> c" for j
  proof -
    have p: "par j < n" using j par_less [of j] by linarith
    consider "par j = i" "j = c" | "par j = i" "j \<noteq> c" | "par j \<noteq> i" "j = i" | "par j \<noteq> i" "j \<noteq> i"
      by blast
    then show ?thesis
    proof cases
      case 1
      then show ?thesis using nth j p small by simp
    next
      case 2
      then show ?thesis using nth j p sib c i by (auto dest: par_less)
    next
      case 3
      then have "f (xs ! par i) \<le> f (xs ! c)" using hole c j by (auto simp: heap_hole_def)
      then show ?thesis using 3 nth j p i by auto
    next
      case 4
      then show ?thesis using nth j p c hole by (auto simp: heap_hole_def)
    qed
  qed
  moreover have "f (lswap xs c i ! par c) \<le> f (lswap xs c i ! j)"
    if j: "j < n" "0 < j" "par j = c" for j
  proof -
    have "c < j" using j by auto
    moreover have "f (xs ! c) \<le> f (xs ! j)"
      using hole j c mi i by (auto simp: heap_hole_def)
    ultimately show ?thesis using nth j c i by simp
  qed
  ultimately show ?thesis by (auto simp: heap_hole_def)
qed

lemma bump_done:
  assumes "heap_bump f xs n i" "0 < i \<Longrightarrow> f (xs ! par i) \<le> f (xs ! i)"
  shows "heap_from f xs n 0"
  unfolding heap_from_def
proof (intro allI impI)
  fix j
  assume "j < n" "0 < j" "0 \<le> par j"
  with assms show "f (xs ! par j) \<le> f (xs ! j)"
    by (cases "j = i") (auto simp: heap_bump_def)
qed

lemma bump_step:
  assumes bump: "heap_bump f xs n i" and i: "0 < i" "i < n" "n \<le> length xs"
    and small: "f (xs ! i) < f (xs ! par i)"
  shows "heap_bump f (lswap xs i (par i)) n (par i)"
proof -
  let ?p = "par i"
  from i have p: "?p < i" by simp
  have nth: "k < n \<Longrightarrow> lswap xs i ?p ! k = (if k = i then xs ! ?p else if k = ?p then xs ! i else xs ! k)" for k
    using i p by (simp add: nth_lswap)
  have edge: "j < n \<Longrightarrow> 0 < j \<Longrightarrow> j \<noteq> i \<Longrightarrow> f (xs ! par j) \<le> f (xs ! j)" for j
    using bump by (simp add: heap_bump_def)
  have "f (lswap xs i ?p ! par j) \<le> f (lswap xs i ?p ! j)"
    if j: "j < n" "0 < j" "j \<noteq> ?p" for j
  proof -
    have q: "par j < n" "par j < j" using j par_less [of j] by linarith+
    consider "j = i" | "j \<noteq> i" "par j = i" | "j \<noteq> i" "par j = ?p" | "j \<noteq> i" "par j \<noteq> i" "par j \<noteq> ?p"
      by blast
    then show ?thesis
    proof cases
      case 1
      then show ?thesis using nth j q small i p by simp
    next
      case 2
      then have "f (xs ! ?p) \<le> f (xs ! j)" using bump j i by (auto simp: heap_bump_def)
      then show ?thesis using 2 nth j q by simp
    next
      case 3
      then have "f (xs ! i) \<le> f (xs ! j)" using edge [of j] j small by auto
      then show ?thesis using 3 nth j q by auto
    next
      case 4
      then show ?thesis using nth j q edge by simp
    qed
  qed
  moreover have "f (lswap xs i ?p ! par ?p) \<le> f (lswap xs i ?p ! j)"
    if j: "j < n" "0 < j" "par j = ?p" "0 < ?p" for j
  proof -
    have q: "par ?p < ?p" "par ?p \<noteq> i" using j p par_less [of ?p] by linarith+
    have up: "f (xs ! par ?p) \<le> f (xs ! ?p)" using edge [of ?p] j p i by auto
    have "j \<noteq> ?p" using par_less [OF j(2)] j(3) by auto
    moreover have "f (xs ! par ?p) \<le> f (xs ! j)" if "j \<noteq> i"
      using edge [OF j(1,2) that] j(3) up by simp
    ultimately show ?thesis using nth [of j] nth [of "par ?p"] j q(2) up i by (cases "j = i") simp_all
  qed
  ultimately show ?thesis by (auto simp: heap_bump_def)
qed

text \<open>What the operations do before they sift.\<close>

lemma hole_of_increase:
  assumes "heap_from f xs n 0" "\<And>j. j < n \<Longrightarrow> j \<noteq> i \<Longrightarrow> g (xs ! j) = f (xs ! j)"
    "f (xs ! i) \<le> g (xs ! i)" "i < n"
  shows "heap_hole g xs n 0 i"
proof -
  have edge: "j < n \<Longrightarrow> 0 < j \<Longrightarrow> f (xs ! par j) \<le> f (xs ! j)" for j
    using assms(1) by (simp add: heap_from_def)
  have "g (xs ! par j) \<le> g (xs ! j)" if "j < n" "0 < j" "par j \<noteq> i" for j
    using edge [of j] that assms(2) [of "par j"] assms(2) [of j] assms(3) par_less [of j]
    by (cases "j = i") auto
  moreover have "g (xs ! par i) \<le> g (xs ! j)" if "j < n" "0 < j" "par j = i" "0 < i" for j
    using edge [of j] edge [of i] that assms(2) [of "par i"] assms(2) [of j] assms(4) par_less [of i]
      par_less [of j] by auto
  ultimately show ?thesis by (simp add: heap_hole_def)
qed

lemma bump_of_decrease:
  assumes "heap_from f xs n 0" "\<And>j. j < n \<Longrightarrow> j \<noteq> i \<Longrightarrow> g (xs ! j) = f (xs ! j)"
    "g (xs ! i) \<le> f (xs ! i)" "i < n"
  shows "heap_bump g xs n i"
proof -
  have edge: "j < n \<Longrightarrow> 0 < j \<Longrightarrow> f (xs ! par j) \<le> f (xs ! j)" for j
    using assms(1) by (simp add: heap_from_def)
  have "g (xs ! par j) \<le> g (xs ! j)" if "j < n" "0 < j" "j \<noteq> i" for j
    using edge [of j] that assms(2) [of "par j"] assms(2) [of j] assms(3) par_less [of j]
    by (cases "par j = i") auto
  moreover have "g (xs ! par i) \<le> g (xs ! j)" if "j < n" "0 < j" "par j = i" "0 < i" for j
    using edge [of j] edge [of i] that assms(2) [of "par i"] assms(2) [of j] assms(4) par_less [of i]
      par_less [of j] by auto
  ultimately show ?thesis by (simp add: heap_bump_def)
qed

lemma heap_shorter: "heap_from f xs n m \<Longrightarrow> n' \<le> n \<Longrightarrow> heap_from f xs n' m"
  by (auto simp: heap_from_def)

lemma heap_cong:
  assumes "heap_from f xs n m" "\<And>j. j < n \<Longrightarrow> f (xs ! j) = g (ys ! j)"
  shows "heap_from g ys n m"
  unfolding heap_from_def
proof (intro allI impI)
  fix j
  assume j: "j < n" "0 < j" "m \<le> par j"
  with par_less [of j] have "par j < n" by linarith
  with assms j show "g (ys ! par j) \<le> g (ys ! j)" by (metis heap_from_def)
qed

lemma hole_cong:
  assumes "heap_hole f xs n m i" "\<And>j. j < n \<Longrightarrow> f (xs ! j) = g (xs ! j)" "i < n"
  shows "heap_hole g xs n m i"
proof -
  have "par j < n" if "j < n" "0 < j" for j using that by simp
  with assms show ?thesis by (auto simp: heap_hole_def)
qed

lemma bump_append:
  assumes "heap_from f xs n 0"
  shows "heap_bump f xs (Suc n) n"
  using assms by (auto simp: heap_bump_def heap_from_def less_Suc_eq dest: par_less)

end
