(* ===== verification/Ptr_Heap.thy ===== *)
theory Ptr_Heap
  imports Elastic_Array Sysendian Heap_Order
begin

text \<open>
  The heap of pointers of \<open>datastruct/ptrheap.c\<close>, over \<open>PTRLIST\<close>, the elastic array of
  \<open>void *\<close> that \<open>ELASTICARRAY_DECL\<close> declares.  The comparison and the record-cookie callback
  act on the memory of the client, which is a state of arbitrary type \<open>'s\<close> here; a callback
  on a dead pointer is a fault.
\<close>

section \<open>PTRLIST\<close>

definition ptrlist_init :: "bool \<Rightarrow> alloc \<Rightarrow> nat \<Rightarrow> elasticarray option option" where
  "ptrlist_init ok a nrec = elasticarray_init ok a nrec 8"

definition ptrlist_resize :: "alloc \<Rightarrow> elasticarray \<Rightarrow> nat \<Rightarrow> (elasticarray \<times> int) option" where
  "ptrlist_resize a EA nrec = elasticarray_resize a EA nrec 8"

definition ptrlist_getsize :: "elasticarray \<Rightarrow> nat option" where
  "ptrlist_getsize EA = elasticarray_getsize EA 8"

definition ptrlist_append :: "alloc \<Rightarrow> elasticarray \<Rightarrow> ptr list \<Rightarrow> nat \<Rightarrow> (elasticarray \<times> int) option" where
  "ptrlist_append a EA ps nrec = elasticarray_append a EA (concat (map le64enc ps)) nrec 8"

definition ptrlist_shrink :: "alloc \<Rightarrow> elasticarray \<Rightarrow> nat \<Rightarrow> elasticarray option" where
  "ptrlist_shrink a EA nrec = elasticarray_shrink a EA nrec 8"

definition ptrlist_truncate :: "alloc \<Rightarrow> elasticarray \<Rightarrow> elasticarray \<times> int" where
  "ptrlist_truncate a EA = elasticarray_truncate a EA"

text \<open>\<open>*ptrlist_get(EA, pos)\<close> as a value and as an assignment.\<close>

definition ptrlist_load :: "elasticarray \<Rightarrow> nat \<Rightarrow> ptr option" where
  "ptrlist_load EA pos = map_option le64dec (ea_load 8 EA pos)"

definition ptrlist_store :: "elasticarray \<Rightarrow> nat \<Rightarrow> ptr \<Rightarrow> elasticarray option" where
  "ptrlist_store EA pos p = ea_store 8 EA pos (le64enc p)"

definition pl_inv :: "elasticarray \<Rightarrow> bool" where
  "pl_inv EA = ea_recinv 8 EA"

definition ptrs :: "elasticarray \<Rightarrow> ptr list" where
  "ptrs EA = map le64dec (ea_records 8 EA)"

definition ptrlist_append1 :: "alloc \<Rightarrow> elasticarray \<Rightarrow> ptr \<Rightarrow> (elasticarray \<times> int) option" where
  "ptrlist_append1 a EA p = ptrlist_append a EA [p] 1"

interpretation ptrcode: coded_array "ea_recinv 8" "ea_records 8" "\<lambda>x. length x = 8"
  "ea_load 8" "ea_store 8" "ea_append1 8" "\<lambda>a EA n. elasticarray_shrink a EA n 8" le64enc le64dec
  using le64dec_enc [of _ "[]"] by unfold_locales simp_all

lemma ptrlist_defs:
  "pl_inv = ea_recinv 8" "ptrs = (\<lambda>e. map le64dec (ea_records 8 e))"
  "ptrlist_load = (\<lambda>e i. map_option le64dec (ea_load 8 e i))"
  "ptrlist_store = (\<lambda>e i t. ea_store 8 e i (le64enc t))"
  "ptrlist_append1 = (\<lambda>a e t. ea_append1 8 a e (le64enc t))"
  "ptrlist_shrink = (\<lambda>a EA n. elasticarray_shrink a EA n 8)"
  by (auto simp: fun_eq_iff pl_inv_def ptrs_def ptrlist_load_def ptrlist_store_def
      ptrlist_append1_def ptrlist_append_def ea_append1_def ptrlist_shrink_def)

interpretation pl: record_array pl_inv ptrs "\<lambda>_. True" ptrlist_load ptrlist_store
  ptrlist_append1 ptrlist_shrink
  unfolding ptrlist_defs by (rule ptrcode.typed.record_array_axioms)

lemma ptrs_bound: "pl_inv e \<Longrightarrow> 8 * length (ptrs e) \<le> SIZE_MAX"
  using ea_inv_sizes [of e] by (auto simp: pl_inv_def ptrs_def ea_records_def ea_recinv_def)

lemma ptrlist_init_ok:
  "okp (ptrlist_init ok a n) (\<lambda>res. case res of
     None \<Rightarrow> \<not> ok \<or> a = None \<or> n * 8 > SIZE_MAX
   | Some e \<Rightarrow> pl_inv e \<and> length (ptrs e) = n)"
  using elasticarray_init_ok [of 8 ok a n]
  by (auto simp: ptrlist_init_def pl_inv_def ptrs_def ea_recinv_def ea_records_def
      split: option.splits elim!: okp_mono)


section \<open>Heap operations\<close>

type_synonym 's compar = "'s \<Rightarrow> ptr \<Rightarrow> ptr \<Rightarrow> int option"
type_synonym 's setrc = "ptr \<Rightarrow> nat \<Rightarrow> 's \<Rightarrow> 's option"

record 's ptrheap =
  h_compar :: "'s compar"
  h_setreccookie :: "'s setrc option"
  h_elems :: elasticarray
  h_nelems :: nat

definition swap :: "elasticarray \<Rightarrow> nat \<Rightarrow> nat \<Rightarrow> 's setrc option \<Rightarrow> 's \<Rightarrow> (elasticarray \<times> 's) option" where
  "swap elems i j setrc s = do {
     tmp \<leftarrow> ptrlist_load elems i;
     y \<leftarrow> ptrlist_load elems j;
     e1 \<leftarrow> ptrlist_store elems i y;
     e2 \<leftarrow> ptrlist_store e1 j tmp;
     (case setrc of
        None \<Rightarrow> Some (e2, s)
      | Some f \<Rightarrow> do {
          p \<leftarrow> ptrlist_load e2 i;
          s1 \<leftarrow> f p i s;
          q \<leftarrow> ptrlist_load e2 j;
          s2 \<leftarrow> f q j s1;
          Some (e2, s2)
        })
   }"

partial_function (option) heapifyup ::
    "'s compar \<Rightarrow> 's setrc option \<Rightarrow> elasticarray \<Rightarrow> nat \<Rightarrow> 's \<Rightarrow> (elasticarray \<times> 's) option" where
  "heapifyup cmp setrc elems i s =
     (if i = 0 then Some (elems, s)
      else do {
        x \<leftarrow> ptrlist_load elems i;
        y \<leftarrow> ptrlist_load elems ((i - 1) div 2);
        c \<leftarrow> cmp s x y;
        if c \<ge> 0 then Some (elems, s)
        else do {
          (elems', s') \<leftarrow> swap elems i ((i - 1) div 2) setrc s;
          heapifyup cmp setrc elems' ((i - 1) div 2) s'
        }
      })"

text \<open>
  The minimum out of the elements \<open>i\<close>, \<open>2i+1\<close>, \<open>2i+2\<close>, in \<open>size_t\<close> arithmetic:
  \<open>heapify_pick\<close> is one of the two tests \<open>compar(min, j) > 0\<close>.
\<close>

definition heapify_pick :: "'s compar \<Rightarrow> elasticarray \<Rightarrow> nat \<Rightarrow> nat \<Rightarrow> 's \<Rightarrow> nat option" where
  "heapify_pick cmp elems m j s = do {
     x \<leftarrow> ptrlist_load elems m;
     y \<leftarrow> ptrlist_load elems j;
     c \<leftarrow> cmp s x y;
     Some (if c > 0 then j else m)
   }"

definition heapify_min :: "'s compar \<Rightarrow> nat \<Rightarrow> elasticarray \<Rightarrow> nat \<Rightarrow> 's \<Rightarrow> nat option" where
  "heapify_min cmp N elems i s = do {
     let l = szadd (szmul 2 i) 1;
     let r = szadd (szmul 2 i) 2;
     m \<leftarrow> (if l < N then heapify_pick cmp elems i l s else Some i);
     (if r < N then heapify_pick cmp elems m r s else Some m)
   }"

partial_function (option) heapify ::
    "'s compar \<Rightarrow> 's setrc option \<Rightarrow> nat \<Rightarrow> elasticarray \<Rightarrow> nat \<Rightarrow> 's \<Rightarrow> (elasticarray \<times> 's) option" where
  "heapify cmp setrc N elems i s = do {
     min \<leftarrow> heapify_min cmp N elems i s;
     if min = i then Some (elems, s)
     else do {
       (elems', s') \<leftarrow> swap elems min i setrc s;
       heapify cmp setrc N elems' min s'
     }
   }"

text \<open>The three loops of \<open>ptrheap_create\<close>; the second relies on the wrap-around of \<open>i--\<close>.\<close>

definition ptr_at :: "ptr list \<Rightarrow> nat \<Rightarrow> ptr option" where
  "ptr_at ps i = (if i < length ps then Some (ps ! i) else None)"

function create_copy :: "nat \<Rightarrow> ptr list \<Rightarrow> nat \<Rightarrow> elasticarray \<Rightarrow> elasticarray option" where
  "create_copy N ps i elems =
     (if i < N then do {
        p \<leftarrow> ptr_at ps i;
        elems' \<leftarrow> ptrlist_store elems i p;
        create_copy N ps (Suc i) elems'
      }
      else Some elems)"
  by pat_completeness auto
termination
  by (relation "measure (\<lambda>(N, ps, i, elems). N - i)") auto

partial_function (option) create_heapify ::
    "'s compar \<Rightarrow> nat \<Rightarrow> nat \<Rightarrow> elasticarray \<Rightarrow> 's \<Rightarrow> (elasticarray \<times> 's) option" where
  "create_heapify cmp N i elems s =
     (if i < N then do {
        (elems', s') \<leftarrow> heapify cmp None N elems i s;
        create_heapify cmp N (szsub i 1) elems' s'
      }
      else Some (elems, s))"

function create_notify :: "'s setrc \<Rightarrow> nat \<Rightarrow> nat \<Rightarrow> elasticarray \<Rightarrow> 's \<Rightarrow> 's option" where
  "create_notify f N i elems s =
     (if i < N then do {
        p \<leftarrow> ptrlist_load elems i;
        s' \<leftarrow> f p i s;
        create_notify f N (Suc i) elems s'
      }
      else Some s)"
  by pat_completeness auto
termination
  by (relation "measure (\<lambda>(f, N, i, elems, s). N - i)") auto

declare create_copy.simps [simp del] create_notify.simps [simp del]

definition ptrheap_create :: "bool \<Rightarrow> bool \<Rightarrow> alloc \<Rightarrow> 's compar \<Rightarrow> 's setrc option \<Rightarrow> nat \<Rightarrow> ptr list \<Rightarrow> 's \<Rightarrow>
    ('s ptrheap option \<times> 's) option" where
  "ptrheap_create ok ok' a cmp setrc N ps s =
     (if \<not> ok then Some (None, s)
      else do {
        el \<leftarrow> ptrlist_init ok' a N;
        (case el of
           None \<Rightarrow> Some (None, s)
         | Some elems \<Rightarrow> do {
             e1 \<leftarrow> create_copy N ps 0 elems;
             (e2, s1) \<leftarrow> create_heapify cmp N (szsub N 1) e1 s;
             s2 \<leftarrow> (case setrc of None \<Rightarrow> Some s1 | Some f \<Rightarrow> create_notify f N 0 e2 s1);
             Some (Some \<lparr>h_compar = cmp, h_setreccookie = setrc, h_elems = e2, h_nelems = N\<rparr>, s2)
           })
      })"

definition ptrheap_init :: "bool \<Rightarrow> bool \<Rightarrow> alloc \<Rightarrow> 's compar \<Rightarrow> 's setrc option \<Rightarrow> 's \<Rightarrow>
    ('s ptrheap option \<times> 's) option" where
  "ptrheap_init ok ok' a cmp setrc s = ptrheap_create ok ok' a cmp setrc 0 [] s"

definition notify :: "'s setrc option \<Rightarrow> ptr \<Rightarrow> nat \<Rightarrow> 's \<Rightarrow> 's option" where
  "notify setrc p i s = (case setrc of None \<Rightarrow> Some s | Some f \<Rightarrow> f p i s)"

definition ptrheap_add :: "alloc \<Rightarrow> 's ptrheap \<Rightarrow> ptr \<Rightarrow> 's \<Rightarrow> ('s ptrheap \<times> 's \<times> int) option" where
  "ptrheap_add a H p s = do {
     (e, r) \<leftarrow> ptrlist_append a (h_elems H) [p] 1;
     if r \<noteq> 0 then Some (H\<lparr>h_elems := e\<rparr>, s, -1)
     else do {
       let n = szadd (h_nelems H) 1;
       s1 \<leftarrow> notify (h_setreccookie H) p (szsub n 1) s;
       (e', s2) \<leftarrow> heapifyup (h_compar H) (h_setreccookie H) e (szsub n 1) s1;
       Some (H\<lparr>h_elems := e', h_nelems := n\<rparr>, s2, 0)
     }
   }"

definition ptrheap_getmin :: "'s ptrheap \<Rightarrow> ptr option" where
  "ptrheap_getmin H = (if h_nelems H \<noteq> 0 then ptrlist_load (h_elems H) 0 else Some 0)"

text \<open>The move of the last element into the position of the deleted one.\<close>

definition delete_move :: "'s ptrheap \<Rightarrow> nat \<Rightarrow> 's \<Rightarrow> (elasticarray \<times> 's) option" where
  "delete_move H rc s = do {
     x \<leftarrow> ptrlist_load (h_elems H) (szsub (h_nelems H) 1);
     e1 \<leftarrow> ptrlist_store (h_elems H) rc x;
     p \<leftarrow> ptrlist_load e1 rc;
     s1 \<leftarrow> notify (h_setreccookie H) p rc s;
     up \<leftarrow> (if rc > 0 then do {
              x \<leftarrow> ptrlist_load e1 rc;
              y \<leftarrow> ptrlist_load e1 ((rc - 1) div 2);
              c \<leftarrow> h_compar H s1 x y;
              Some (c < 0)
            }
            else Some False);
     if up then do {
       (e2, s2) \<leftarrow> swap e1 rc ((rc - 1) div 2) (h_setreccookie H) s1;
       heapifyup (h_compar H) (h_setreccookie H) e2 ((rc - 1) div 2) s2
     }
     else heapify (h_compar H) (h_setreccookie H) (szsub (h_nelems H) 1) e1 rc s1
   }"

definition ptrheap_delete :: "alloc \<Rightarrow> 's ptrheap \<Rightarrow> nat \<Rightarrow> 's \<Rightarrow> ('s ptrheap \<times> 's) option" where
  "ptrheap_delete a H rc s = do {
     (e, s') \<leftarrow> (if rc \<noteq> szsub (h_nelems H) 1 then delete_move H rc s else Some (h_elems H, s));
     e' \<leftarrow> ptrlist_shrink a e 1;
     Some (H\<lparr>h_elems := e', h_nelems := szsub (h_nelems H) 1\<rparr>, s')
   }"

definition ptrheap_deletemin :: "alloc \<Rightarrow> 's ptrheap \<Rightarrow> 's \<Rightarrow> ('s ptrheap \<times> 's) option" where
  "ptrheap_deletemin a H s = ptrheap_delete a H 0 s"

definition ptrheap_decrease :: "'s ptrheap \<Rightarrow> nat \<Rightarrow> 's \<Rightarrow> ('s ptrheap \<times> 's) option" where
  "ptrheap_decrease H rc s = do {
     (e, s') \<leftarrow> heapifyup (h_compar H) (h_setreccookie H) (h_elems H) rc s;
     Some (H\<lparr>h_elems := e\<rparr>, s')
   }"

definition ptrheap_increase :: "'s ptrheap \<Rightarrow> nat \<Rightarrow> 's \<Rightarrow> ('s ptrheap \<times> 's) option" where
  "ptrheap_increase H rc s = do {
     (e, s') \<leftarrow> heapify (h_compar H) (h_setreccookie H) (h_nelems H) (h_elems H) rc s;
     Some (H\<lparr>h_elems := e\<rparr>, s')
   }"

definition ptrheap_increasemin :: "'s ptrheap \<Rightarrow> 's \<Rightarrow> ('s ptrheap \<times> 's) option" where
  "ptrheap_increasemin H s = do {
     (e, s') \<leftarrow> heapify (h_compar H) (h_setreccookie H) (h_nelems H) (h_elems H) 0 s;
     Some (H\<lparr>h_elems := e\<rparr>, s')
   }"


lemma ptrheap_init_state: "ptrheap_init ok ok' a cmp setrc s = Some (H, s') \<Longrightarrow> s' = s"
  by (auto simp: ptrheap_init_def ptrheap_create_def create_copy.simps create_heapify.simps
      create_notify.simps bind_eq_Some_conv split: if_splits option.splits)

lemma ptrheap_delete_last_state:
  "ptrheap_delete a H (szsub (h_nelems H) 1) s = Some (H', s') \<Longrightarrow> s' = s"
  by (auto simp: ptrheap_delete_def bind_eq_Some_conv)


section \<open>The contract of the callbacks\<close>

text \<open>
  What the heap relies on.  The client sees a pointer through \<open>view\<close>, which is undefined on
  dead pointers and on \<open>NULL\<close>; on live pointers the comparison orders by a key of the view,
  and recording a record cookie changes that cookie only.
\<close>

locale heap_client =
  fixes cmp :: "'s compar"
    and setrc :: "'s setrc"
    and view :: "'s \<Rightarrow> ptr \<Rightarrow> 'v option"
    and keyof :: "'v \<Rightarrow> 'k::linorder"
    and rcof :: "'s \<Rightarrow> ptr \<Rightarrow> nat"
  assumes cmp_view: "view s x = Some v \<Longrightarrow> view s y = Some w \<Longrightarrow>
      okp (cmp s x y) (\<lambda>c. (c < 0 \<longleftrightarrow> keyof v < keyof w) \<and> (c > 0 \<longleftrightarrow> keyof w < keyof v))"
    and setrc_view: "view s p = Some v \<Longrightarrow>
      okp (setrc p i s) (\<lambda>s'. view s' = view s \<and> rcof s' = (rcof s)(p := i))"
    and view_null: "view s 0 = None"
begin

abbreviation live :: "'s \<Rightarrow> ptr \<Rightarrow> bool" where
  "live s p \<equiv> view s p \<noteq> None"

definition key :: "'s \<Rightarrow> ptr \<Rightarrow> 'k" where
  "key s p = keyof (the (view s p))"

lemma cmp_ok: "live s x \<Longrightarrow> live s y \<Longrightarrow>
    okp (cmp s x y) (\<lambda>c. (c < 0 \<longleftrightarrow> key s x < key s y) \<and> (c > 0 \<longleftrightarrow> key s y < key s x))"
  using cmp_view [of s x _ y] by (auto simp: key_def)

lemma setrc_ok: "live s p \<Longrightarrow>
    okp (setrc p i s) (\<lambda>s'. view s' = view s \<and> key s' = key s \<and> rcof s' = (rcof s)(p := i))"
  using setrc_view [of s p _ i] by (auto simp: key_def fun_eq_iff elim!: okp_mono)

lemma live_nonnull: "\<not> live s 0"
  by (simp add: view_null)

text \<open>
  The first \<open>n\<close> pointers are distinct and live, and when the heap records cookies, the cookie
  of each of them is its position.
\<close>

definition wfp :: "'s setrc option \<Rightarrow> 's \<Rightarrow> ptr list \<Rightarrow> nat \<Rightarrow> bool" where
  "wfp src s xs n \<longleftrightarrow> n \<le> length xs \<and> distinct (take n xs) \<and> (\<forall>j<n. live s (xs ! j)) \<and>
     (src = None \<or> src = Some setrc \<and> (\<forall>j<n. rcof s (xs ! j) = j))"

text \<open>What sifting leaves behind.\<close>

definition sifted :: "'s setrc option \<Rightarrow> nat \<Rightarrow> nat \<Rightarrow> elasticarray \<Rightarrow> 's \<Rightarrow> elasticarray \<times> 's \<Rightarrow> bool" where
  "sifted src n m e s res \<longleftrightarrow> (case res of (e', s') \<Rightarrow>
     pl_inv e' \<and> wfp src s' (ptrs e') n \<and> view s' = view s \<and> key s' = key s \<and>
     heap_from (key s) (ptrs e') n m \<and>
     mset (take n (ptrs e')) = mset (take n (ptrs e)) \<and> drop n (ptrs e') = drop n (ptrs e))"

lemma wfp_distinct:
  assumes "wfp src s xs n" "i < n" "j < n"
  shows "xs ! i = xs ! j \<longleftrightarrow> i = j"
  using assms nth_eq_iff_index_eq [of "take n xs" i j] by (auto simp: wfp_def)

lemma swap_sound:
  assumes e: "pl_inv e" and wf: "wfp src s (ptrs e) n" and ij: "i < n" "j < n"
  shows "okp (swap e i j src s) (\<lambda>(e', s'). pl_inv e' \<and> ptrs e' = lswap (ptrs e) i j \<and>
     view s' = view s \<and> key s' = key s \<and> wfp src s' (ptrs e') n)"
proof -
  let ?xs = "ptrs e"
  from wf ij have b: "i < length ?xs" "j < length ?xs" "n \<le> length ?xs"
    and lv: "live s (?xs ! i)" "live s (?xs ! j)" by (auto simp: wfp_def)
  from pl.swap_ok [OF e b(1,2)] obtain e1 e2 where
    st: "ptrlist_store e i (?xs ! j) = Some e1" "ptrlist_store e1 j (?xs ! i) = Some e2"
    and e2: "pl_inv e2" "ptrs e2 = lswap ?xs i j"
    using b by (auto simp: pl.load_ok [OF e] lswap_def okp_bind elim!: okpE)
  have nth: "k < n \<Longrightarrow> ptrs e2 ! k = (if k = i then ?xs ! j else if k = j then ?xs ! i else ?xs ! k)" for k
    using b e2 by (simp add: nth_lswap)
  have "mset (take n (ptrs e2)) = mset (take n ?xs)"
    using ij b e2 by (simp add: take_lswap)
  with wf have dist: "distinct (take n (ptrs e2))"
    using mset_eq_imp_distinct_iff by (auto simp: wfp_def)
  have live2: "k < n \<Longrightarrow> live s (ptrs e2 ! k)" for k
    using nth wf lv by (auto simp: wfp_def)
  show ?thesis
  proof (cases src)
    case None
    with st e2 b dist live2 wf show ?thesis
      by (simp add: swap_def pl.load_ok [OF e] wfp_def)
  next
    case (Some f)
    with wf have f: "f = setrc" by (simp add: wfp_def)
    from setrc_ok [OF lv(2), of i] obtain s1 where s1: "setrc (?xs ! j) i s = Some s1"
      "view s1 = view s" "key s1 = key s" "rcof s1 = (rcof s)(?xs ! j := i)" by (auto elim: okpE)
    with setrc_ok [of s1 "?xs ! i" j] lv obtain s2 where s2: "setrc (?xs ! i) j s1 = Some s2"
      "view s2 = view s" "key s2 = key s" "rcof s2 = (rcof s1)(?xs ! i := j)" by (auto elim: okpE)
    have "ptrs e2 ! i = ?xs ! j" "ptrs e2 ! j = ?xs ! i" using nth ij by auto
    then have "swap e i j src s = Some (e2, s2)"
      using st s1 s2 b e2 Some f by (simp add: swap_def pl.load_ok [OF e] pl.load_ok [OF e2(1)])
    moreover have "rcof s2 (ptrs e2 ! k) = k" if "k < n" for k
      using that wf Some ij wfp_distinct [OF wf] by (auto simp: s2(4) s1(4) nth wfp_def)
    ultimately show ?thesis
      using e2 s2 b dist live2 Some f by (simp add: wfp_def)
  qed
qed

lemma sifted_trans:
  assumes "ptrs e1 = lswap (ptrs e) i j" "i < n" "j < n" "n \<le> length (ptrs e)"
    "view s1 = view s" "key s1 = key s" "sifted src n m e1 s1 res"
  shows "sifted src n m e s res"
proof -
  have "mset (take n (ptrs e1)) = mset (take n (ptrs e))" "drop n (ptrs e1) = drop n (ptrs e)"
    using assms by (simp_all add: take_lswap)
  with assms show ?thesis by (auto simp: sifted_def)
qed

lemma heapifyup_sound:
  assumes "pl_inv e" "wfp src s (ptrs e) n" "i < n" "heap_bump (key s) (ptrs e) n i"
  shows "okp (heapifyup cmp src e i s) (sifted src n 0 e s)"
  using assms
proof (induction i arbitrary: e s rule: less_induct)
  case (less i)
  let ?xs = "ptrs e" and ?p = "(i - 1) div 2"
  show ?case
  proof (cases "i = 0")
    case True
    with less.prems bump_done [of "key s" ?xs n 0] show ?thesis
      by (simp add: heapifyup.simps sifted_def)
  next
    case False
    have p: "?p = par i" "par i < i" using False by (auto simp: par_def)
    from less.prems have b: "i < length ?xs" "par i < length ?xs" "par i < n" "n \<le> length ?xs"
      and lv: "live s (?xs ! i)" "live s (?xs ! par i)"
      using p by (auto simp: wfp_def)
    from cmp_ok [OF lv] obtain c where c: "cmp s (?xs ! i) (?xs ! par i) = Some c"
      "c < 0 \<longleftrightarrow> key s (?xs ! i) < key s (?xs ! par i)" by (auto elim: okpE)
    note step = heapifyup.simps [of cmp src e i s]
    show ?thesis
    proof (cases "c < 0")
      case True
      from swap_sound [OF less.prems(1,2,3) b(3)] obtain e1 s1 where
        sw: "swap e i (par i) src s = Some (e1, s1)" "pl_inv e1" "ptrs e1 = lswap ?xs i (par i)"
          "view s1 = view s" "key s1 = key s" "wfp src s1 (ptrs e1) n"
        by (auto elim: okpE)
      have "heap_bump (key s1) (ptrs e1) n (par i)"
        using bump_step [OF less.prems(4)] False less.prems(3) b True c sw by simp
      from less.IH [OF p(2) sw(2,6) b(3) this]
      have "okp (heapifyup cmp src e1 (par i) s1) (sifted src n 0 e s)"
        by (rule okp_mono) (rule sifted_trans [OF sw(3) less.prems(3) b(3,4) sw(4,5)])
      with True False p c b sw show ?thesis
        by (simp add: step pl.load_ok [OF less.prems(1)])
    next
      case False
      with c have "heap_from (key s) ?xs n 0"
        by (intro bump_done [OF less.prems(4)]) auto
      with False c \<open>i \<noteq> 0\<close> b p less.prems show ?thesis
        by (simp add: step pl.load_ok [OF less.prems(1)] sifted_def)
    qed
  qed
qed

lemma heapify_min_sound:
  assumes e: "pl_inv e" and wf: "wfp src s (ptrs e) n" and i: "i < n"
  shows "okp (heapify_min cmp n e i s) (\<lambda>m. (m = i \<or> m < n \<and> 0 < m \<and> par m = i \<and>
       key s (ptrs e ! m) < key s (ptrs e ! i)) \<and>
     (\<forall>j<n. 0 < j \<longrightarrow> par j = i \<longrightarrow> key s (ptrs e ! m) \<le> key s (ptrs e ! j)))"
proof -
  let ?xs = "ptrs e" and ?k = "\<lambda>j. key s (ptrs e ! j)"
  from wf have n: "n \<le> length ?xs" and lv: "\<And>j. j < n \<Longrightarrow> live s (?xs ! j)" by (auto simp: wfp_def)
  from ptrs_bound [OF e] n i have sz: "szmul 2 i = 2 * i" "szadd (2 * i) 1 = 2 * i + 1"
    "szadd (2 * i) 2 = 2 * i + 2" by auto
  have ld: "j < n \<Longrightarrow> ptrlist_load e j = Some (?xs ! j)" for j
    using n by (simp add: pl.load_ok [OF e])
  have pick: "heapify_pick cmp e x y s = Some (if ?k y < ?k x then y else x)"
    if "x < n" "y < n" for x y
    using cmp_ok [OF lv [OF that(1)] lv [OF that(2)]] that by (auto simp: heapify_pick_def ld elim!: okpE)
  have ch: "0 < j \<Longrightarrow> par j = i \<longleftrightarrow> j = Suc (2 * i) \<or> j = Suc (Suc (2 * i))" for j
    by (simp add: par_eq)
  let ?m = "if 2 * i + 1 < n \<and> ?k (2 * i + 1) < ?k i then 2 * i + 1 else i"
  have "heapify_min cmp n e i s = Some (if 2 * i + 2 < n \<and> ?k (2 * i + 2) < ?k ?m then 2 * i + 2 else ?m)"
    using i sz by (simp add: heapify_min_def pick)
  then show ?thesis
    by (cases "2 * i + 1 < n"; cases "2 * i + 2 < n") (auto simp: ch)
qed

lemma heapify_sound:
  assumes "pl_inv e" "wfp src s (ptrs e) n" "i < n" "heap_hole (key s) (ptrs e) n m i" "m \<le> i"
  shows "okp (heapify cmp src n e i s) (sifted src n m e s)"
  using assms
proof (induction "n - i" arbitrary: i e s rule: less_induct)
  case less
  let ?xs = "ptrs e"
  from less.prems have n: "n \<le> length ?xs" by (simp add: wfp_def)
  from heapify_min_sound [OF less.prems(1,2,3)] obtain c where
    c: "heapify_min cmp n e i s = Some c"
      "c = i \<or> c < n \<and> 0 < c \<and> par c = i \<and> key s (?xs ! c) < key s (?xs ! i)"
      "\<And>j. j < n \<Longrightarrow> 0 < j \<Longrightarrow> par j = i \<Longrightarrow> key s (?xs ! c) \<le> key s (?xs ! j)"
    by (auto elim: okpE)
  note step = heapify.simps [of cmp src n e i s]
  show ?case
  proof (cases "c = i")
    case True
    with c(3) have "heap_from (key s) ?xs n m" by (intro hole_done [OF less.prems(4)]) auto
    with True c(1) less.prems show ?thesis by (simp add: step sifted_def)
  next
    case False
    with c(2) have cn: "c < n" "0 < c" "par c = i" "key s (?xs ! c) < key s (?xs ! i)" by auto
    then have ic: "i < c" using par_less [of c] by simp
    from swap_sound [OF less.prems(1,2) cn(1) less.prems(3)] obtain e1 s1 where
      sw: "swap e c i src s = Some (e1, s1)" "pl_inv e1" "ptrs e1 = lswap ?xs c i"
        "view s1 = view s" "key s1 = key s" "wfp src s1 (ptrs e1) n"
      by (auto elim: okpE)
    have "heap_hole (key s) (lswap ?xs c i) n m c"
      by (rule hole_step [OF less.prems(4) cn(1) n cn(2,3,4) c(3) less.prems(5)])
    then have "heap_hole (key s1) (ptrs e1) n m c" by (simp only: sw(3,5))
    from less.hyps [OF _ sw(2,6) cn(1) this] ic cn(1) less.prems(3,5)
    have "okp (heapify cmp src n e1 c s1) (sifted src n m e1 s1)" by simp
    then have "okp (heapify cmp src n e1 c s1) (sifted src n m e s)"
      by (rule okp_mono) (rule sifted_trans [OF sw(3) cn(1) less.prems(3) n sw(4,5)])
    with False c(1) sw(1) show ?thesis by (simp add: step)
  qed
qed


text \<open>The invariant of a heap, and the multiset of its pointers.\<close>

definition heap_ok :: "'s setrc option \<Rightarrow> 's \<Rightarrow> 's ptrheap \<Rightarrow> bool" where
  "heap_ok src s H \<longleftrightarrow> h_compar H = cmp \<and> h_setreccookie H = src \<and> pl_inv (h_elems H) \<and>
     h_nelems H = length (ptrs (h_elems H)) \<and> wfp src s (ptrs (h_elems H)) (h_nelems H) \<and>
     heap_from (key s) (ptrs (h_elems H)) (h_nelems H) 0"

lemma notify_sound:
  assumes "src = None \<or> src = Some setrc" "live s p"
  shows "okp (notify src p i s) (\<lambda>s'. view s' = view s \<and> key s' = key s \<and>
     (src = Some setrc \<longrightarrow> rcof s' = (rcof s)(p := i)))"
  using assms setrc_ok [of s p i] by (auto simp: notify_def elim!: okp_mono)

lemma heap_ok_bound: "heap_ok src s H \<Longrightarrow> 8 * h_nelems H \<le> SIZE_MAX"
  using ptrs_bound by (auto simp: heap_ok_def)

lemma sifted_whole:
  assumes "sifted src n m e s (e', s')" "n = length (ptrs e)"
  shows "mset (ptrs e') = mset (ptrs e)" "length (ptrs e') = n"
proof -
  from assms have "mset (take n (ptrs e')) = mset (take n (ptrs e))" "drop n (ptrs e') = drop n (ptrs e)"
    by (auto simp: sifted_def)
  then show "mset (ptrs e') = mset (ptrs e)" by (metis append_take_drop_id mset_append)
  then show "length (ptrs e') = n" using assms(2) by (metis size_mset)
qed

lemma heap_ok_sifted:
  assumes sf: "sifted src n 0 e s (e', s')" and n: "n = length (ptrs e)"
    and H: "h_compar H = cmp" "h_setreccookie H = src"
  shows "heap_ok src s' (H\<lparr>h_elems := e', h_nelems := n\<rparr>)"
  using sf sifted_whole(2) [OF sf n] H by (simp add: sifted_def heap_ok_def)

lemma ptrheap_add_sound:
  assumes ok: "heap_ok src s H" and p: "live s p" "p \<notin> set (ptrs (h_elems H))"
  shows "okp (ptrheap_add a H p s) (\<lambda>(H', s', r). heap_ok src s' H' \<and> view s' = view s \<and> key s' = key s \<and>
     (r = 0 \<and> mset (ptrs (h_elems H')) = add_mset p (mset (ptrs (h_elems H)))
      \<or> r = -1 \<and> H' = H \<and> s' = s))"
proof -
  let ?e = "h_elems H" and ?n = "h_nelems H"
  from ok have e: "pl_inv ?e" and n: "?n = length (ptrs ?e)" and wf: "wfp src s (ptrs ?e) ?n"
    and hp: "heap_from (key s) (ptrs ?e) ?n 0" and H: "h_compar H = cmp" "h_setreccookie H = src"
    by (auto simp: heap_ok_def)
  from wf have src: "src = None \<or> src = Some setrc" by (auto simp: wfp_def)
  from pl.append1_ok [OF e, where x = p and a = a] obtain e1 r where
    ap: "ptrlist_append a ?e [p] 1 = Some (e1, r)" "pl_inv e1"
      "r = 0 \<and> ptrs e1 = ptrs ?e @ [p] \<or> r = -1 \<and> e1 = ?e"
    by (auto simp: ptrlist_append1_def elim!: okpE)
  show ?thesis
  proof (cases "r = 0")
    case False
    with ap ok show ?thesis by (auto simp: ptrheap_add_def)
  next
    case True
    with ap have xs: "ptrs e1 = ptrs ?e @ [p]" by auto
    from ptrs_bound [OF ap(2)] have "Suc ?n \<le> SIZE_MAX" by (simp add: xs n)
    then have sz: "szadd ?n 1 = Suc ?n" "szsub (Suc ?n) 1 = ?n" by auto
    from notify_sound [OF src p(1), of ?n] obtain s1 where
      nt: "notify src p ?n s = Some s1" "view s1 = view s" "key s1 = key s"
        "src = Some setrc \<longrightarrow> rcof s1 = (rcof s)(p := ?n)"
      by (auto elim: okpE)
    have fresh: "j < ?n \<Longrightarrow> ptrs ?e ! j \<noteq> p" for j using p(2) n by (auto simp: in_set_conv_nth)
    have wf1: "wfp src s1 (ptrs e1) (Suc ?n)"
      using wf p nt src fresh by (auto simp: wfp_def xs n nth_append less_Suc_eq)
    have "heap_from (key s1) (ptrs e1) ?n 0"
      by (rule heap_cong [OF hp]) (simp add: nt xs n nth_append)
    from heapifyup_sound [OF ap(2) wf1 lessI bump_append [OF this]] obtain e2 s2 where
      hu: "heapifyup cmp src e1 ?n s1 = Some (e2, s2)" "sifted src (Suc ?n) 0 e1 s1 (e2, s2)"
      by (auto elim: okpE)
    have l: "Suc ?n = length (ptrs e1)" by (simp add: xs n)
    have "ptrheap_add a H p s = Some (H\<lparr>h_elems := e2, h_nelems := Suc ?n\<rparr>, s2, 0)"
      using True by (simp add: ptrheap_add_def ap(1) [simplified] sz [simplified] nt(1) hu(1) H)
    moreover have "view s2 = view s" "key s2 = key s"
      using hu(2) nt(2,3) by (simp_all add: sifted_def)
    moreover have "mset (ptrs e2) = add_mset p (mset (ptrs ?e))"
      using sifted_whole(1) [OF hu(2) l] by (simp add: xs)
    ultimately show ?thesis
      using heap_ok_sifted [OF hu(2) l H] by simp
  qed
qed

lemma ptrheap_getmin_sound:
  assumes "heap_ok src s H"
  shows "okp (ptrheap_getmin H) (\<lambda>p. if ptrs (h_elems H) = [] then p = 0
     else p \<noteq> 0 \<and> p = ptrs (h_elems H) ! 0 \<and> p \<in> set (ptrs (h_elems H)) \<and>
       (\<forall>q \<in> set (ptrs (h_elems H)). key s p \<le> key s q))"
proof (cases "ptrs (h_elems H) = []")
  case True
  with assms show ?thesis by (simp add: ptrheap_getmin_def heap_ok_def)
next
  case False
  from assms have e: "pl_inv (h_elems H)" "h_nelems H = length (ptrs (h_elems H))"
    "heap_from (key s) (ptrs (h_elems H)) (length (ptrs (h_elems H))) 0"
    "live s (ptrs (h_elems H) ! 0)"
    using False by (auto simp: heap_ok_def wfp_def)
  with False show ?thesis
    using live_nonnull
    by (auto simp: ptrheap_getmin_def pl.load_ok [OF e(1)] in_set_conv_nth intro: heap_min)
qed

text \<open>Removing the last pointer of an array whose first \<open>n\<close> pointers form a heap.\<close>

lemma shrink_sound:
  assumes "pl_inv e" "wfp src s (ptrs e) n" "heap_from (key s) (ptrs e) n 0" "length (ptrs e) = Suc n"
    "h_compar H = cmp" "h_setreccookie H = src"
  shows "okp (ptrlist_shrink a e 1) (\<lambda>e'. heap_ok src s (H\<lparr>h_elems := e', h_nelems := n\<rparr>) \<and>
     ptrs e' = take n (ptrs e))"
proof -
  have "heap_from (key s) (take n (ptrs e)) n 0"
    by (rule heap_cong [OF assms(3)]) simp
  moreover have "wfp src s (take n (ptrs e)) n" using assms(2) by (simp add: wfp_def)
  ultimately show ?thesis
    using pl.shrink_ok [OF assms(1), of a 1] assms by (auto simp: heap_ok_def elim!: okp_mono)
qed

lemma delete_heap:
  assumes hp: "heap_from f xs (Suc n) 0" and r: "rc < n" and l: "length xs = Suc n"
  shows "0 < rc \<Longrightarrow> f (xs ! n) < f (xs ! par rc) \<Longrightarrow> heap_bump f (xs[rc := xs ! n]) n rc"
    "0 < rc \<Longrightarrow> f (xs ! par rc) \<le> f (xs ! n) \<Longrightarrow> heap_hole f (xs[rc := xs ! n]) n 0 rc"
    "rc = 0 \<Longrightarrow> heap_hole f (xs[rc := xs ! n]) n 0 rc"
proof -
  let ?ys = "xs[rc := xs ! n]"
  have edge: "j < n \<Longrightarrow> 0 < j \<Longrightarrow> f (xs ! par j) \<le> f (xs ! j)" for j
    using hp by (simp add: heap_from_def)
  have nth: "?ys ! j = (if j = rc then xs ! n else xs ! j)" if "j < n" for j
    using that l by (simp add: nth_list_update)
  have up: "f (?ys ! par rc) \<le> f (?ys ! j)" if "j < n" "0 < j" "par j = rc" "0 < rc" for j
  proof -
    have "par rc < n" "par rc \<noteq> rc" "j \<noteq> rc"
      using that r par_less [of rc] par_less [of j] by auto
    then show ?thesis using edge [of j] edge [of rc] that r nth by auto
  qed
  have low: "f (?ys ! par j) \<le> f (?ys ! j)" if "j < n" "0 < j" "j \<noteq> rc" "par j \<noteq> rc" for j
    using edge that nth [of j] nth [of "par j"] by simp
  show "heap_bump f ?ys n rc" if "0 < rc" "f (xs ! n) < f (xs ! par rc)"
  proof -
    have "f (?ys ! par j) \<le> f (?ys ! j)" if j: "j < n" "0 < j" "j \<noteq> rc" for j
    proof (cases "par j = rc")
      case True
      have "f (xs ! par rc) \<le> f (xs ! j)" using edge [of j] edge [of rc] j \<open>0 < rc\<close> True r by auto
      with \<open>f (xs ! n) < f (xs ! par rc)\<close> True j nth [of j] nth [of rc] r show ?thesis by simp
    qed (use low j in simp)
    with up show ?thesis by (auto simp: heap_bump_def)
  qed
  show "heap_hole f ?ys n 0 rc" if "0 < rc" "f (xs ! par rc) \<le> f (xs ! n)"
  proof -
    have "f (?ys ! par j) \<le> f (?ys ! j)" if j: "j < n" "0 < j" "par j \<noteq> rc" for j
    proof (cases "j = rc")
      case True
      then show ?thesis using \<open>f (xs ! par rc) \<le> f (xs ! n)\<close> nth [of "par rc"] nth [of rc] j r by auto
    qed (use low j in simp)
    with up show ?thesis by (auto simp: heap_hole_def)
  qed
  show "heap_hole f ?ys n 0 rc" if "rc = 0"
    using that low by (auto simp: heap_hole_def)
qed

lemma delete_mset:
  assumes "rc < n" "length xs = Suc n"
  shows "mset (take n (xs[rc := xs ! n])) = mset xs - {# xs ! rc #}"
proof -
  have "xs = take n xs @ [xs ! n]" using assms by (metis lessI take_Suc_conv_app_nth take_all order_refl)
  then have "mset xs = mset (take n xs) + {# xs ! n #}" by (metis mset.simps mset_append add_mset_add_single)
  moreover have "mset (take n (xs[rc := xs ! n])) = add_mset (xs ! n) (mset (take n xs) - {# xs ! rc #})"
    using assms by (simp add: take_update_swap mset_update)
  moreover have "xs ! rc \<in># mset (take n xs)"
    using assms by (auto simp: in_set_conv_nth intro!: exI [of _ rc])
  ultimately show ?thesis by simp
qed

lemma delete_wfp:
  assumes d: "distinct xs" and r: "rc < n" and l: "length xs = Suc n"
    and src: "src = None \<or> src = Some setrc"
    and lv: "\<And>j. j < Suc n \<Longrightarrow> j \<noteq> rc \<Longrightarrow> live s1 (xs ! j)"
    and trk: "src = Some setrc \<Longrightarrow> rcof s1 (xs ! n) = rc"
      "\<And>j. src = Some setrc \<Longrightarrow> j < n \<Longrightarrow> j \<noteq> rc \<Longrightarrow> rcof s1 (xs ! j) = j"
  shows "wfp src s1 (xs[rc := xs ! n]) n"
proof -
  have nth: "xs[rc := xs ! n] ! j = (if j = rc then xs ! n else xs ! j)" if "j < n" for j
    using that l by (simp add: nth_list_update)
  have "distinct (take n (xs[rc := xs ! n]))"
    using d l r by (auto simp: distinct_conv_nth nth_list_update)
  with r l src lv trk nth show ?thesis by (auto simp: wfp_def)
qed

text \<open>
  The move in \<open>ptrheap_delete\<close>, from what it needs of the array: nothing of the pointer that is
  deleted, which may be dead already.
\<close>

lemma delete_move_core:
  assumes e: "pl_inv (h_elems H)" and xs: "xs = ptrs (h_elems H)" and l: "length xs = Suc n"
    and r: "rc < n" and H: "h_nelems H = Suc n" "h_compar H = cmp" "h_setreccookie H = src"
    and src: "src = None \<or> src = Some setrc"
    and lv: "live s (xs ! n)" "0 < rc \<Longrightarrow> live s (xs ! par rc)"
    and wf: "\<And>s1. view s1 = view s \<Longrightarrow> src = Some setrc \<longrightarrow> rcof s1 = (rcof s)(xs ! n := rc) \<Longrightarrow>
      wfp src s1 (xs[rc := xs ! n]) n"
    and up: "0 < rc \<Longrightarrow> key s (xs ! n) < key s (xs ! par rc) \<Longrightarrow>
      heap_bump (key s) (xs[rc := xs ! n]) n rc"
    and down: "rc = 0 \<or> key s (xs ! par rc) \<le> key s (xs ! n) \<Longrightarrow>
      heap_hole (key s) (xs[rc := xs ! n]) n 0 rc"
  shows "okp (delete_move H rc s) (\<lambda>(e', s'). pl_inv e' \<and> wfp src s' (ptrs e') n \<and>
     view s' = view s \<and> key s' = key s \<and> heap_from (key s) (ptrs e') n 0 \<and>
     length (ptrs e') = Suc n \<and> mset (take n (ptrs e')) = mset xs - {# xs ! rc #})"
    (is "okp _ ?Q")
proof -
  let ?ys = "xs[rc := xs ! n]"
  have sz: "szsub (Suc n) (Suc 0) = n" using ptrs_bound [OF e] l xs by simp
  have ld0: "ptrlist_load (h_elems H) n = Some (xs ! n)" using l xs by (simp add: pl.load_ok [OF e])
  from pl.store_ok [OF e, of rc "xs ! n"] l r xs obtain e1 where
    e1: "ptrlist_store (h_elems H) rc (xs ! n) = Some e1" "pl_inv e1" "ptrs e1 = ?ys"
    by (auto elim: okpE)
  have ld: "ptrlist_load e1 j = Some (?ys ! j)" if "j < n" for j
    using that l e1 by (simp add: pl.load_ok)
  have ysrc: "?ys ! rc = xs ! n" using r l by simp
  from notify_sound [OF src lv(1), of rc] obtain s1 where
    s1: "notify src (xs ! n) rc s = Some s1" "view s1 = view s" "key s1 = key s"
      "src = Some setrc \<longrightarrow> rcof s1 = (rcof s)(xs ! n := rc)"
    by (auto elim: okpE)
  have wf1: "wfp src s1 (ptrs e1) n" unfolding e1(3) by (rule wf [OF s1(2,4)])
  have fin: "okp m (sifted src n 0 e1 s1) \<Longrightarrow> okp m ?Q" for m
  proof (erule okp_mono)
    fix res
    assume "sifted src n 0 e1 s1 res"
    then obtain e' s' where res: "res = (e', s')" and sf: "sifted src n 0 e1 s1 (e', s')"
      by (cases res) auto
    then have "length (take n (ptrs e')) + length (drop n (ptrs e')) = length (ptrs e1)"
      using e1(3) l by (auto simp: sifted_def dest: mset_eq_length)
    then have "length (ptrs e') = Suc n" using e1(3) l by simp
    then show "?Q res" using res sf s1(2,3) delete_mset [OF r l] e1(3) by (simp add: sifted_def)
  qed
  have below: "okp (heapify cmp src n e1 rc s1) (sifted src n 0 e1 s1)"
    if "rc = 0 \<or> key s (xs ! par rc) \<le> key s (xs ! n)"
    using heapify_sound [OF e1(2) wf1 r _ le0] down [OF that] by (simp add: e1(3) s1(3))
  show ?thesis
  proof (cases "0 < rc")
    case False
    with fin [OF below] show ?thesis
      using H r ld0 e1(1) ld ysrc s1(1) by (simp add: delete_move_def sz)
  next
    case True
    have p: "(rc - 1) div 2 = par rc" "par rc < n" "par rc \<noteq> rc" using True r by (auto simp: par_def)
    have yp: "?ys ! par rc = xs ! par rc" using p by simp
    from cmp_ok [of s1 "xs ! n" "xs ! par rc"] lv True obtain c where
      c: "cmp s1 (xs ! n) (xs ! par rc) = Some c" "c < 0 \<longleftrightarrow> key s (xs ! n) < key s (xs ! par rc)"
      by (auto simp: s1(2,3) elim: okpE)
    show ?thesis
    proof (cases "c < 0")
      case True': True
      then have bump: "heap_bump (key s1) (ptrs e1) n rc" using up c True by (simp add: e1(3) s1(3))
      from swap_sound [OF e1(2) wf1 r p(2)] obtain e2 s2 where
        sw: "swap e1 rc (par rc) src s1 = Some (e2, s2)" "pl_inv e2" "ptrs e2 = lswap (ptrs e1) rc (par rc)"
          "view s2 = view s1" "key s2 = key s1" "wfp src s2 (ptrs e2) n"
        by (auto elim: okpE)
      have n: "n \<le> length (ptrs e1)" using wf1 by (simp add: wfp_def)
      have "key s1 (ptrs e1 ! rc) < key s1 (ptrs e1 ! par rc)"
        using True' c by (simp add: e1(3) s1(3) ysrc yp)
      from bump_step [OF bump True r n this] have "heap_bump (key s2) (ptrs e2) n (par rc)"
        by (simp add: sw)
      from heapifyup_sound [OF sw(2,6) p(2) this]
      have "okp (heapifyup cmp src e2 (par rc) s2) (sifted src n 0 e1 s1)"
        by (rule okp_mono) (rule sifted_trans [OF sw(3) r p(2) n sw(4,5)])
      from fin [OF this] show ?thesis
        using True True' H r p(2) ld0 e1(1) ld ysrc yp s1(1) c(1) sw(1)
        by (simp add: delete_move_def sz p(1) [simplified])
    next
      case False
      with c fin [OF below] show ?thesis
        using True H r p(2) ld0 e1(1) ld ysrc yp s1(1) c(1)
        by (simp add: delete_move_def sz p(1) [simplified])
    qed
  qed
qed

lemma delete_move_sound:
  assumes ok: "heap_ok src s H" and rc: "Suc rc < h_nelems H"
  shows "okp (delete_move H rc s) (\<lambda>(e', s'). pl_inv e' \<and> wfp src s' (ptrs e') (h_nelems H - 1) \<and>
     view s' = view s \<and> key s' = key s \<and> heap_from (key s) (ptrs e') (h_nelems H - 1) 0 \<and>
     length (ptrs e') = h_nelems H \<and>
     mset (take (h_nelems H - 1) (ptrs e')) = mset (ptrs (h_elems H)) - {# ptrs (h_elems H) ! rc #})"
proof -
  let ?xs = "ptrs (h_elems H)"
  obtain n where n: "h_nelems H = Suc n" using rc by (cases "h_nelems H") auto
  from ok have e: "pl_inv (h_elems H)" and l: "length ?xs = Suc n" and wf: "wfp src s ?xs (Suc n)"
    and hp: "heap_from (key s) ?xs (Suc n) 0" and H: "h_compar H = cmp" "h_setreccookie H = src"
    using n by (auto simp: heap_ok_def)
  from rc n have r: "rc < n" by simp
  from wf have src: "src = None \<or> src = Some setrc" and lv: "\<And>j. j < Suc n \<Longrightarrow> live s (?xs ! j)"
    and d: "distinct ?xs" using l by (auto simp: wfp_def)
  have tr: "src = Some setrc \<Longrightarrow> j < n \<Longrightarrow> rcof s (?xs ! j) = j" for j using wf by (auto simp: wfp_def)
  have ne: "j < n \<Longrightarrow> ?xs ! j \<noteq> ?xs ! n" for j using wfp_distinct [OF wf, of j n] by simp
  show ?thesis
    unfolding n diff_Suc_1
  proof (rule delete_move_core [OF e refl l r n H src lv [OF lessI]])
    show "live s (?xs ! par rc)" if "0 < rc" using lv [of "par rc"] that r by simp
    show "wfp src s1 (?xs[rc := ?xs ! n]) n"
      if "view s1 = view s" "src = Some setrc \<longrightarrow> rcof s1 = (rcof s)(?xs ! n := rc)" for s1
      using that lv tr ne by (intro delete_wfp [OF d r l src]) auto
  qed (use delete_heap [OF hp r l] in auto)
qed

lemma delete_shrink:
  assumes H: "h_compar H = cmp" "h_setreccookie H = src" "h_nelems H = Suc n" "Suc n \<le> SIZE_MAX"
    and m: "okp (if rc \<noteq> n then delete_move H rc s else Some (h_elems H, s))
     (\<lambda>(e', s'). pl_inv e' \<and> wfp src s' (ptrs e') n \<and>
       view s' = view s \<and> key s' = key s \<and> heap_from (key s) (ptrs e') n 0 \<and>
       length (ptrs e') = Suc n \<and> mset (take n (ptrs e')) = M)"
  shows "okp (ptrheap_delete a H rc s) (\<lambda>(H', s'). heap_ok src s' H' \<and> view s' = view s \<and> key s' = key s \<and>
     mset (ptrs (h_elems H')) = M)"
proof -
  have sz: "szsub (h_nelems H) 1 = n" using H by simp
  from m obtain e' s' where m: "(if rc \<noteq> n then delete_move H rc s else Some (h_elems H, s)) = Some (e', s')"
    "pl_inv e'" "wfp src s' (ptrs e') n" "view s' = view s" "key s' = key s"
    "heap_from (key s') (ptrs e') n 0" "length (ptrs e') = Suc n" "mset (take n (ptrs e')) = M"
    by (auto elim!: okpE)
  from shrink_sound [OF m(2,3,6,7) H(1,2), of a] show ?thesis
    unfolding ptrheap_delete_def sz m(1) using m(4,5,8)
    by (auto simp: okp_bind elim!: okp_mono)
qed

lemma mset_butlast: "length xs = Suc n \<Longrightarrow> mset (take n xs) = mset xs - {# xs ! n #}"
  by (cases xs rule: rev_cases) auto

lemma ptrheap_delete_sound:
  assumes ok: "heap_ok src s H" and rc: "rc < h_nelems H"
  shows "okp (ptrheap_delete a H rc s) (\<lambda>(H', s'). heap_ok src s' H' \<and> view s' = view s \<and> key s' = key s \<and>
     mset (ptrs (h_elems H')) = mset (ptrs (h_elems H)) - {# ptrs (h_elems H) ! rc #})"
proof -
  obtain n where n: "h_nelems H = Suc n" using rc by (cases "h_nelems H") auto
  with ok have H: "h_compar H = cmp" "h_setreccookie H = src" and e: "pl_inv (h_elems H)"
    and l: "length (ptrs (h_elems H)) = Suc n" and hp: "heap_from (key s) (ptrs (h_elems H)) (Suc n) 0"
    and wf: "wfp src s (ptrs (h_elems H)) (Suc n)" by (auto simp: heap_ok_def)
  have sz: "Suc n \<le> SIZE_MAX" using ptrs_bound [OF e] l by simp
  show ?thesis
  proof (rule delete_shrink [OF H n sz], cases "rc = n")
    case True
    have "wfp src s (ptrs (h_elems H)) n" "heap_from (key s) (ptrs (h_elems H)) n 0"
      using wf hp by (auto simp: wfp_def take_Suc_conv_app_nth intro: heap_shorter)
    with True e l mset_butlast [OF l]
    show "okp (if rc \<noteq> n then delete_move H rc s else Some (h_elems H, s)) (\<lambda>(e', s').
        pl_inv e' \<and> wfp src s' (ptrs e') n \<and> view s' = view s \<and> key s' = key s \<and>
        heap_from (key s) (ptrs e') n 0 \<and> length (ptrs e') = Suc n \<and>
        mset (take n (ptrs e')) = mset (ptrs (h_elems H)) - {# ptrs (h_elems H) ! rc #})"
      by simp
  next
    case False
    with rc n have "Suc rc < h_nelems H" by simp
    from delete_move_sound [OF ok this] False n
    show "okp (if rc \<noteq> n then delete_move H rc s else Some (h_elems H, s)) (\<lambda>(e', s').
        pl_inv e' \<and> wfp src s' (ptrs e') n \<and> view s' = view s \<and> key s' = key s \<and>
        heap_from (key s) (ptrs e') n 0 \<and> length (ptrs e') = Suc n \<and>
        mset (take n (ptrs e')) = mset (ptrs (h_elems H)) - {# ptrs (h_elems H) ! rc #})"
      by simp
  qed
qed

text \<open>
  The minimum may be released before it is deleted: \<open>s'\<close> differs from the heap's state in the
  first pointer only, which may be dead in it.
\<close>

lemma ptrheap_deletemin_sound:
  assumes ok: "heap_ok src s H" and ne: "ptrs (h_elems H) \<noteq> []"
    and s': "\<And>p. p \<noteq> ptrs (h_elems H) ! 0 \<Longrightarrow> view s' p = view s p \<and> rcof s' p = rcof s p"
  shows "okp (ptrheap_deletemin a H s') (\<lambda>(H', s''). heap_ok src s'' H' \<and> view s'' = view s' \<and>
     key s'' = key s' \<and> mset (ptrs (h_elems H')) = mset (ptrs (h_elems H)) - {# ptrs (h_elems H) ! 0 #})"
proof -
  let ?xs = "ptrs (h_elems H)"
  obtain n where n: "h_nelems H = Suc n" using ne ok by (cases "h_nelems H") (auto simp: heap_ok_def)
  with ok have H: "h_compar H = cmp" "h_setreccookie H = src" and e: "pl_inv (h_elems H)"
    and l: "length ?xs = Suc n" and hp: "heap_from (key s) ?xs (Suc n) 0"
    and wf: "wfp src s ?xs (Suc n)" by (auto simp: heap_ok_def)
  have sz: "Suc n \<le> SIZE_MAX" using ptrs_bound [OF e] l by simp
  from wf have src: "src = None \<or> src = Some setrc" and lv: "\<And>j. j < Suc n \<Longrightarrow> live s (?xs ! j)"
    and d: "distinct ?xs" using l by (auto simp: wfp_def)
  have tr: "src = Some setrc \<Longrightarrow> j < Suc n \<Longrightarrow> rcof s (?xs ! j) = j" for j using wf by (auto simp: wfp_def)
  have z: "j < Suc n \<Longrightarrow> 0 < j \<Longrightarrow> ?xs ! j \<noteq> ?xs ! 0" for j using wfp_distinct [OF wf, of j 0] by simp
  have ne': "j < n \<Longrightarrow> ?xs ! j \<noteq> ?xs ! n" for j using wfp_distinct [OF wf, of j n] by simp
  have "okp (delete_move H 0 s') (\<lambda>(e', s''). pl_inv e' \<and> wfp src s'' (ptrs e') n \<and>
       view s'' = view s' \<and> key s'' = key s' \<and> heap_from (key s') (ptrs e') n 0 \<and>
       length (ptrs e') = Suc n \<and> mset (take n (ptrs e')) = mset ?xs - {# ?xs ! 0 #})" if "0 < n"
  proof (rule delete_move_core [OF e refl l that n H src])
    show "live s' (?xs ! n)" using lv [of n] s' [OF z [of n]] that by simp
    show "wfp src s1 (?xs[0 := ?xs ! n]) n"
      if "view s1 = view s'" "src = Some setrc \<longrightarrow> rcof s1 = (rcof s')(?xs ! n := 0)" for s1
      using that lv tr ne' z s' \<open>0 < n\<close> by (intro delete_wfp [OF d _ l src]) auto
    have "heap_hole (key s) (?xs[0 := ?xs ! n]) n 0 0" using delete_heap(3) [OF hp that l] by simp
    then show "heap_hole (key s') (?xs[0 := ?xs ! n]) n 0 0"
      by (rule hole_cong) (use that z s' l in \<open>auto simp: nth_list_update key_def\<close>)
  qed simp_all
  moreover have "mset ?xs - {# ?xs ! 0 #} = {#}" "take 0 ?xs = []" if "n = 0"
    using mset_butlast [OF l] that by auto
  ultimately show ?thesis
    unfolding ptrheap_deletemin_def using e l src
    by (intro delete_shrink [OF H n sz]) (auto simp: wfp_def heap_from_def)
qed

lemma heap_ok_cong:
  assumes ok: "heap_ok src s H"
    and s': "\<And>p. p \<in> set (ptrs (h_elems H)) \<Longrightarrow> view s' p = view s p \<and> rcof s' p = rcof s p"
  shows "heap_ok src s' H"
proof -
  from ok have l: "h_nelems H = length (ptrs (h_elems H))"
    and hp: "heap_from (key s) (ptrs (h_elems H)) (h_nelems H) 0" by (auto simp: heap_ok_def)
  have "heap_from (key s') (ptrs (h_elems H)) (h_nelems H) 0"
    by (rule heap_cong [OF hp]) (simp add: key_def s' l)
  with ok l s' show ?thesis by (auto simp: heap_ok_def wfp_def)
qed

text \<open>
  The key of one element has changed (the state \<open>s\<close> differs from the heap's state \<open>s0\<close> in
  that key only); \<open>increase\<close> and \<open>decrease\<close> restore the heap.
\<close>

lemma rekey_wfp:
  assumes "wfp src s0 xs n" "\<And>p. live s p = live s0 p" "rcof s = rcof s0"
  shows "wfp src s xs n"
  using assms by (simp add: wfp_def)

lemma resift_sound:
  assumes ok: "heap_ok src s0 H"
    and m: "okp m (sifted src (h_nelems H) 0 (h_elems H) s)"
  shows "okp (do { (e, s') \<leftarrow> m; Some (H\<lparr>h_elems := e\<rparr>, s') }) (\<lambda>(H', s'). heap_ok src s' H' \<and>
     view s' = view s \<and> key s' = key s \<and> mset (ptrs (h_elems H')) = mset (ptrs (h_elems H)))"
proof -
  from ok have n: "h_nelems H = length (ptrs (h_elems H))"
    and H: "h_compar H = cmp" "h_setreccookie H = src" by (auto simp: heap_ok_def)
  from m obtain e' s' where m': "m = Some (e', s')"
    "sifted src (h_nelems H) 0 (h_elems H) s (e', s')" by (auto elim: okpE)
  have "H\<lparr>h_elems := e', h_nelems := h_nelems H\<rparr> = H\<lparr>h_elems := e'\<rparr>" by simp
  with m' heap_ok_sifted [OF m'(2) n H] sifted_whole(1) [OF m'(2) n] show ?thesis
    by (auto simp: sifted_def)
qed

lemma ptrheap_increase_sound:
  assumes ok: "heap_ok src s0 H" and rc: "rc < h_nelems H"
    and s: "rcof s = rcof s0" "view s = (view s0)(ptrs (h_elems H) ! rc \<mapsto> v)"
      "key s0 (ptrs (h_elems H) ! rc) \<le> keyof v"
  shows "okp (ptrheap_increase H rc s) (\<lambda>(H', s'). heap_ok src s' H' \<and>
     view s' = view s \<and> key s' = key s \<and> mset (ptrs (h_elems H')) = mset (ptrs (h_elems H)))"
proof -
  from ok have e: "pl_inv (h_elems H)" and wf: "wfp src s0 (ptrs (h_elems H)) (h_nelems H)"
    and hp: "heap_from (key s0) (ptrs (h_elems H)) (h_nelems H) 0"
    and H: "h_compar H = cmp" "h_setreccookie H = src"
    by (auto simp: heap_ok_def)
  have "heap_hole (key s) (ptrs (h_elems H)) (h_nelems H) 0 rc"
    using wfp_distinct [OF wf _ rc] s by (intro hole_of_increase [OF hp _ _ rc]) (auto simp: key_def)
  moreover have "wfp src s (ptrs (h_elems H)) (h_nelems H)"
    using wf rc s(1,2) by (intro rekey_wfp [OF wf]) (auto simp: wfp_def)
  ultimately have "okp (heapify cmp src (h_nelems H) (h_elems H) rc s)
      (sifted src (h_nelems H) 0 (h_elems H) s)"
    using heapify_sound [OF e _ rc _ le0] by blast
  then show ?thesis unfolding ptrheap_increase_def H by (rule resift_sound [OF ok])
qed

lemma ptrheap_decrease_sound:
  assumes ok: "heap_ok src s0 H" and rc: "rc < h_nelems H"
    and s: "rcof s = rcof s0" "view s = (view s0)(ptrs (h_elems H) ! rc \<mapsto> v)"
      "keyof v \<le> key s0 (ptrs (h_elems H) ! rc)"
  shows "okp (ptrheap_decrease H rc s) (\<lambda>(H', s'). heap_ok src s' H' \<and>
     view s' = view s \<and> key s' = key s \<and> mset (ptrs (h_elems H')) = mset (ptrs (h_elems H)))"
proof -
  from ok have e: "pl_inv (h_elems H)" and wf: "wfp src s0 (ptrs (h_elems H)) (h_nelems H)"
    and hp: "heap_from (key s0) (ptrs (h_elems H)) (h_nelems H) 0"
    and H: "h_compar H = cmp" "h_setreccookie H = src"
    by (auto simp: heap_ok_def)
  have "heap_bump (key s) (ptrs (h_elems H)) (h_nelems H) rc"
    using wfp_distinct [OF wf _ rc] s by (intro bump_of_decrease [OF hp _ _ rc]) (auto simp: key_def)
  moreover have "wfp src s (ptrs (h_elems H)) (h_nelems H)"
    using wf rc s(1,2) by (intro rekey_wfp [OF wf]) (auto simp: wfp_def)
  ultimately have "okp (heapifyup cmp src (h_elems H) rc s) (sifted src (h_nelems H) 0 (h_elems H) s)"
    using heapifyup_sound [OF e _ rc] by blast
  then show ?thesis unfolding ptrheap_decrease_def H by (rule resift_sound [OF ok])
qed

lemma ptrheap_increasemin_eq: "ptrheap_increasemin H s = ptrheap_increase H 0 s"
  by (simp add: ptrheap_increasemin_def ptrheap_increase_def)


text \<open>The loops of \<open>ptrheap_create\<close>.\<close>

lemma create_copy_sound:
  assumes "pl_inv e" "i \<le> N" "length (ptrs e) = N" "N \<le> length ps" "take i (ptrs e) = take i ps"
  shows "okp (create_copy N ps i e) (\<lambda>e'. pl_inv e' \<and> ptrs e' = take N ps)"
  using assms
proof (induction N ps i e rule: create_copy.induct)
  case (1 N ps i e)
  note step = create_copy.simps [of N ps i e]
  show ?case
  proof (cases "i < N")
    case True
    from pl.store_ok [OF 1(2), of i "ps ! i"] True 1(4) obtain e1 where
      e1: "ptrlist_store e i (ps ! i) = Some e1" "pl_inv e1" "ptrs e1 = (ptrs e)[i := ps ! i]"
      by (auto elim: okpE)
    have "take (Suc i) (ptrs e1) = take (Suc i) ps"
      using 1(4-6) True by (simp add: e1(3) take_Suc_conv_app_nth)
    with 1(1) [OF True, of "ps ! i" e1] 1(4,5) True e1 show ?thesis
      by (simp add: step ptr_at_def)
  next
    case False
    with 1(2-6) show ?thesis by (simp add: create_copy.simps [of N ps])
  qed
qed

lemma create_heapify_sound:
  assumes "pl_inv e" "wfp None s (ptrs e) N" "length (ptrs e) = N" "i < N"
    "heap_from (key s) (ptrs e) N (Suc i)"
  shows "okp (create_heapify cmp N i e s) (sifted None N 0 e s)"
  using assms
proof (induction i arbitrary: e s)
  case 0
  from heapify_sound [OF 0(1,2,4) heap_from_hole [OF 0(5)] le0] obtain e1 s1 where
    h: "heapify cmp None N e 0 s = Some (e1, s1)" "sifted None N 0 e s (e1, s1)" by (auto elim: okpE)
  have "N \<le> SIZE_MAX" using ptrs_bound [OF 0(1)] 0(3) by simp
  with h 0(4) show ?case by (simp add: create_heapify.simps [of cmp N 0] create_heapify.simps [of cmp N SIZE_MAX])
next
  case (Suc i)
  from heapify_sound [OF Suc(2,3,5) heap_from_hole [OF Suc(6)] order_refl] obtain e1 s1 where
    h: "heapify cmp None N e (Suc i) s = Some (e1, s1)" "sifted None N (Suc i) e s (e1, s1)" by (auto elim: okpE)
  from sifted_whole(2) [OF h(2)] Suc(4,5) h(2)
  have "okp (create_heapify cmp N i e1 s1) (sifted None N 0 e1 s1)"
    by (intro Suc(1)) (auto simp: sifted_def)
  then have "okp (create_heapify cmp N i e1 s1) (sifted None N 0 e s)"
    by (rule okp_mono) (use h(2) in \<open>auto simp: sifted_def\<close>)
  moreover have "szsub (Suc i) 1 = i" using ptrs_bound [OF Suc(2)] Suc(4,5) by simp
  ultimately show ?case using h Suc(5) by (simp add: create_heapify.simps [of cmp N "Suc i"])
qed

lemma create_notify_sound:
  assumes "pl_inv e" "wfp None s (ptrs e) N" "i \<le> N" "\<forall>j<i. rcof s (ptrs e ! j) = j"
  shows "okp (create_notify setrc N i e s) (\<lambda>s'. view s' = view s \<and> key s' = key s \<and>
     wfp (Some setrc) s' (ptrs e) N)"
  using assms
proof (induction "N - i" arbitrary: i s)
  case 0
  then show ?case by (simp add: create_notify.simps wfp_def)
next
  case (Suc k)
  then have i: "i < N" by simp
  with Suc.prems have ld: "ptrlist_load e i = Some (ptrs e ! i)" and lv: "live s (ptrs e ! i)"
    by (auto simp: wfp_def pl.load_ok)
  from setrc_ok [OF lv, of i] obtain s1 where s1: "setrc (ptrs e ! i) i s = Some s1"
    "view s1 = view s" "key s1 = key s" "rcof s1 = (rcof s)(ptrs e ! i := i)" by (auto elim: okpE)
  have "\<forall>j<Suc i. rcof s1 (ptrs e ! j) = j"
    using Suc.prems(4) wfp_distinct [OF Suc.prems(2) _ i] i by (auto simp: s1(4) less_Suc_eq)
  moreover have "wfp None s1 (ptrs e) N" using Suc.prems(2) s1(2) by (simp add: wfp_def)
  ultimately have "okp (create_notify setrc N (Suc i) e s1) (\<lambda>s'. view s' = view s1 \<and> key s' = key s1 \<and>
     wfp (Some setrc) s' (ptrs e) N)"
    using Suc.hyps(2) i Suc.prems(1) by (intro Suc.hyps(1)) auto
  with i ld s1 show ?case by (simp add: create_notify.simps [of setrc N i])
qed

lemma ptrheap_create_sound:
  assumes src: "src = None \<or> src = Some setrc" and ps: "N \<le> length ps" "distinct (take N ps)"
    and lv: "\<And>j. j < N \<Longrightarrow> live s (ps ! j)"
  shows "okp (ptrheap_create ok ok' a cmp src N ps s) (\<lambda>(res, s'). view s' = view s \<and> key s' = key s \<and>
     (case res of
        None \<Rightarrow> s' = s \<and> (\<not> ok \<or> \<not> ok' \<or> a = None \<or> N * 8 > SIZE_MAX)
      | Some H \<Rightarrow> heap_ok src s' H \<and> mset (ptrs (h_elems H)) = mset (take N ps)))"
proof (cases ok)
  case True
  from ptrlist_init_ok [of ok' a N] obtain el where el: "ptrlist_init ok' a N = Some el"
    "case el of None \<Rightarrow> \<not> ok' \<or> a = None \<or> N * 8 > SIZE_MAX | Some e \<Rightarrow> pl_inv e \<and> length (ptrs e) = N"
    by (auto elim: okpE)
  show ?thesis
  proof (cases el)
    case None
    with True el show ?thesis by (auto simp: ptrheap_create_def)
  next
    case (Some e)
    from create_copy_sound [of e 0 N ps] ps(1) el(2) Some obtain e1 where
      e1: "create_copy N ps 0 e = Some e1" "pl_inv e1" "ptrs e1 = take N ps" by (auto elim: okpE)
    have l: "length (ptrs e1) = N" using e1(3) ps by simp
    have wf1: "wfp None s (ptrs e1) N" using ps lv by (simp add: wfp_def e1(3))
    have NM: "N \<le> SIZE_MAX" using ptrs_bound [OF e1(2)] l by simp
    have "okp (create_heapify cmp N (szsub N 1) e1 s) (sifted None N 0 e1 s)"
    proof (cases N)
      case 0
      with e1(2) wf1 show ?thesis by (simp add: create_heapify.simps sifted_def heap_from_def)
    next
      case (Suc m)
      have "heap_from (key s) (ptrs e1) N N" by (rule heap_from_last) simp
      with Suc NM create_heapify_sound [OF e1(2) wf1 l, of m] show ?thesis by simp
    qed
    then obtain e2 s1 where ch: "create_heapify cmp N (szsub N 1) e1 s = Some (e2, s1)"
      "sifted None N 0 e1 s (e2, s1)" by (auto elim: okpE)
    note sw = sifted_whole [OF ch(2) l [symmetric]]
    have "okp (case src of None \<Rightarrow> Some s1 | Some f \<Rightarrow> create_notify f N 0 e2 s1)
      (\<lambda>s'. view s' = view s \<and> key s' = key s \<and> wfp src s' (ptrs e2) N)"
      using src ch(2) create_notify_sound [of e2 s1 N 0] by (auto simp: sifted_def elim: okp_mono)
    then obtain s2 where "(case src of None \<Rightarrow> Some s1 | Some f \<Rightarrow> create_notify f N 0 e2 s1) = Some s2"
      "view s2 = view s" "key s2 = key s" "wfp src s2 (ptrs e2) N" by (auto elim: okpE)
    with True el(1) Some e1(1,3) ch sw show ?thesis
      by (simp add: ptrheap_create_def heap_ok_def sifted_def)
  qed
qed (auto simp: ptrheap_create_def)

end

end
