(* ===== verification/Timer_Queue.thy ===== *)
theory Timer_Queue
  imports Ptr_Heap "HOL-Library.Product_Lexorder"
begin

text \<open>
  The timer priority queue of \<open>datastruct/timerqueue.c\<close>: a pointer heap of timer records, each
  holding a time, a user pointer and its current position in the heap.  The memory of the
  timer records is a partial map from addresses to records; following a pointer to a record
  that is not allocated, and freeing one twice, are faults.
\<close>

section \<open>State and operations\<close>

record timeval =
  tv_sec :: int
  tv_usec :: int

record timerrec =
  tr_tv :: timeval
  tr_rc :: nat
  tr_ptr :: ptr

type_synonym tqmem = "ptr \<Rightarrow> timerrec option"

record timerqueue =
  tq_H :: "tqmem ptrheap"

definition tvcmp :: "timeval \<Rightarrow> timeval \<Rightarrow> int" where
  "tvcmp x y =
     (if tv_sec x > tv_sec y then 1
      else if tv_sec x < tv_sec y then -1
      else if tv_usec x > tv_usec y then 1
      else if tv_usec x < tv_usec y then -1
      else 0)"

definition compar :: "tqmem compar" where
  "compar m x y = do { rx \<leftarrow> m x; ry \<leftarrow> m y; Some (tvcmp (tr_tv rx) (tr_tv ry)) }"

definition setreccookie :: "tqmem setrc" where
  "setreccookie p rc m = do { r \<leftarrow> m p; Some (m(p \<mapsto> r\<lparr>tr_rc := rc\<rparr>)) }"

text \<open>\<open>free\<close> of a timer record.\<close>

definition tr_free :: "ptr \<Rightarrow> tqmem \<Rightarrow> tqmem option" where
  "tr_free p m = (if m p = None then None else Some (m(p := None)))"

definition timerqueue_init :: "bool \<Rightarrow> bool \<Rightarrow> bool \<Rightarrow> alloc \<Rightarrow> tqmem \<Rightarrow> (timerqueue option \<times> tqmem) option" where
  "timerqueue_init ok ok1 ok2 a m =
     (if \<not> ok then Some (None, m)
      else do {
        (H, m') \<leftarrow> ptrheap_init ok1 ok2 a compar (Some setreccookie) m;
        Some (case H of None \<Rightarrow> None | Some H \<Rightarrow> Some \<lparr>tq_H = H\<rparr>, m')
      })"

text \<open>
  The answer of \<open>malloc\<close> for the record is the address of a block and the indeterminate value
  its cookie field holds at first.  The result is the cookie, \<open>0\<close> for failure.
\<close>

definition timerqueue_add :: "(ptr \<times> nat) option \<Rightarrow> alloc \<Rightarrow> timerqueue \<Rightarrow> timeval \<Rightarrow> ptr \<Rightarrow> tqmem \<Rightarrow>
    (timerqueue \<times> tqmem \<times> ptr) option" where
  "timerqueue_add r a Q tv p m =
     (case r of
        None \<Rightarrow> Some (Q, m, 0)
      | Some (r, junk) \<Rightarrow> do {
          let m1 = m(r \<mapsto> \<lparr>tr_tv = tv, tr_rc = junk, tr_ptr = p\<rparr>);
          (H, m2, rv) \<leftarrow> ptrheap_add a (tq_H Q) r m1;
          if rv \<noteq> 0 then do {
            m3 \<leftarrow> tr_free r m2;
            Some (Q\<lparr>tq_H := H\<rparr>, m3, 0)
          }
          else Some (Q\<lparr>tq_H := H\<rparr>, m2, r)
        })"

definition timerqueue_delete :: "alloc \<Rightarrow> timerqueue \<Rightarrow> ptr \<Rightarrow> tqmem \<Rightarrow> (timerqueue \<times> tqmem) option" where
  "timerqueue_delete a Q c m = do {
     r \<leftarrow> m c;
     (H, m1) \<leftarrow> ptrheap_delete a (tq_H Q) (tr_rc r) m;
     m2 \<leftarrow> tr_free c m1;
     Some (Q\<lparr>tq_H := H\<rparr>, m2)
   }"

definition timerqueue_increase :: "timerqueue \<Rightarrow> ptr \<Rightarrow> timeval \<Rightarrow> tqmem \<Rightarrow> (timerqueue \<times> tqmem) option" where
  "timerqueue_increase Q c tv m = do {
     r \<leftarrow> m c;
     let m1 = m(c \<mapsto> r\<lparr>tr_tv := tv\<rparr>);
     (H, m2) \<leftarrow> ptrheap_increase (tq_H Q) (tr_rc r) m1;
     Some (Q\<lparr>tq_H := H\<rparr>, m2)
   }"

definition timerqueue_getmin :: "timerqueue \<Rightarrow> tqmem \<Rightarrow> timeval option option" where
  "timerqueue_getmin Q m = do {
     p \<leftarrow> ptrheap_getmin (tq_H Q);
     if p \<noteq> 0 then do { r \<leftarrow> m p; Some (Some (tr_tv r)) } else Some None
   }"

definition timerqueue_getptr :: "alloc \<Rightarrow> timerqueue \<Rightarrow> timeval \<Rightarrow> tqmem \<Rightarrow> (timerqueue \<times> tqmem \<times> ptr) option" where
  "timerqueue_getptr a Q tv m = do {
     p \<leftarrow> ptrheap_getmin (tq_H Q);
     if p = 0 then Some (Q, m, 0)
     else do {
       r \<leftarrow> m p;
       if tvcmp (tr_tv r) tv > 0 then Some (Q, m, 0)
       else do {
         (H, m1) \<leftarrow> ptrheap_deletemin a (tq_H Q) m;
         r' \<leftarrow> m1 p;
         m2 \<leftarrow> tr_free p m1;
         Some (Q\<lparr>tq_H := H\<rparr>, m2, tr_ptr r')
       }
     }
   }"

text \<open>The loop of \<open>timerqueue_free\<close>, which frees a record before it leaves the heap.\<close>

partial_function (option) tq_drain :: "(nat \<Rightarrow> alloc) \<Rightarrow> tqmem ptrheap \<Rightarrow> tqmem \<Rightarrow> tqmem option" where
  "tq_drain a H m = do {
     p \<leftarrow> ptrheap_getmin H;
     if p \<noteq> 0 then do {
       m1 \<leftarrow> tr_free p m;
       (H', m2) \<leftarrow> ptrheap_deletemin (a (h_nelems H)) H m1;
       tq_drain a H' m2
     }
     else Some m
   }"

definition timerqueue_free :: "(nat \<Rightarrow> alloc) \<Rightarrow> timerqueue option \<Rightarrow> tqmem \<Rightarrow> tqmem option" where
  "timerqueue_free a Q m = (case Q of None \<Rightarrow> Some m | Some Q \<Rightarrow> tq_drain a (tq_H Q) m)"


section \<open>The callbacks satisfy the heap's contract\<close>

type_synonym tkey = "int \<times> int"

definition tv_key :: "timeval \<Rightarrow> tkey" where
  "tv_key tv = (tv_sec tv, tv_usec tv)"

text \<open>
  The timers a memory holds: for each cookie, its time and its user pointer (nothing is
  allocated at \<open>NULL\<close>).
\<close>

definition timers :: "tqmem \<Rightarrow> ptr \<Rightarrow> (timeval \<times> ptr) option" where
  "timers m c = (if m 0 \<noteq> None then None else map_option (\<lambda>r. (tr_tv r, tr_ptr r)) (m c))"

definition tq_rc :: "tqmem \<Rightarrow> ptr \<Rightarrow> nat" where
  "tq_rc m p = (case m p of None \<Rightarrow> 0 | Some r \<Rightarrow> tr_rc r)"

lemma tvcmp_key: "tvcmp x y < 0 \<longleftrightarrow> tv_key x < tv_key y" "tvcmp x y > 0 \<longleftrightarrow> tv_key y < tv_key x"
  by (auto simp: tvcmp_def tv_key_def less_prod_def')

interpretation tq: heap_client compar setreccookie timers "tv_key \<circ> fst" tq_rc
proof (unfold_locales, goal_cases)
  case (1 s x v y w)
  then show ?case by (auto simp: timers_def compar_def tvcmp_key split: if_splits)
next
  case (2 s p v i)
  then show ?case
    by (auto simp: timers_def setreccookie_def tq_rc_def fun_eq_iff split: if_splits option.splits)
next
  case (3 s)
  then show ?case by (simp add: timers_def)
qed

text \<open>
  The invariant of a queue: a heap in order whose cookies are positions, over exactly the
  records that are allocated.
\<close>

definition tq_inv :: "timerqueue \<Rightarrow> tqmem \<Rightarrow> bool" where
  "tq_inv Q m \<longleftrightarrow> tq.heap_ok (Some setreccookie) m (tq_H Q) \<and> dom m = set (ptrs (h_elems (tq_H Q)))"

lemma tq_inv_null:
  assumes "tq_inv Q m"
  shows "m 0 = None"
proof -
  have "timers m p \<noteq> None" if "p \<in> set (ptrs (h_elems (tq_H Q)))" for p
    using assms that by (auto simp: tq_inv_def tq.heap_ok_def tq.wfp_def in_set_conv_nth)
  from this [of 0] have "0 \<notin> set (ptrs (h_elems (tq_H Q)))" using tq.view_null by auto
  with assms show ?thesis by (auto simp: tq_inv_def)
qed

lemma tq_inv_timers: "tq_inv Q m \<Longrightarrow> timers m c = map_option (\<lambda>r. (tr_tv r, tr_ptr r)) (m c)"
  using tq_inv_null by (simp add: timers_def)

lemma tq_inv_record:
  assumes "tq_inv Q m" "timers m c = Some (tv, p)"
  obtains r where "m c = Some r" "tr_tv r = tv" "tr_ptr r = p"
  using assms(2) tq_inv_timers [OF assms(1), of c] that by (cases "m c") auto

lemma tq_inv_dom:
  assumes "tq_inv Q m"
  shows "dom (timers m) = set (ptrs (h_elems (tq_H Q)))"
proof -
  have "dom (timers m) = dom m" using tq_inv_timers [OF assms] by (auto simp: dom_def)
  with assms show ?thesis by (simp add: tq_inv_def)
qed

lemma timers_null: "timers m c = Some x \<Longrightarrow> m 0 = None"
  by (simp add: timers_def split: if_splits)

lemma tq_key: "timers m c = Some (tv, p) \<Longrightarrow> tq.key m c = tv_key tv"
  by (simp add: tq.key_def)

lemma timerqueue_init_ok:
  "okp (timerqueue_init ok ok1 ok2 a Map.empty) (\<lambda>(res, m). m = Map.empty \<and> (case res of
     None \<Rightarrow> \<not> ok \<or> \<not> ok1 \<or> \<not> ok2 \<or> a = None
   | Some Q \<Rightarrow> tq_inv Q m))"
proof -
  have "okp (ptrheap_create ok1 ok2 a compar (Some setreccookie) 0 [] Map.empty) (\<lambda>(H, m).
     timers m = timers Map.empty \<and> tq.key m = tq.key Map.empty \<and> (case H of
        None \<Rightarrow> m = Map.empty \<and> (\<not> ok1 \<or> \<not> ok2 \<or> a = None \<or> 0 * 8 > SIZE_MAX)
      | Some H \<Rightarrow> tq.heap_ok (Some setreccookie) m H \<and> mset (ptrs (h_elems H)) = mset (take 0 [])))"
    by (rule tq.ptrheap_create_sound) simp_all
  then obtain H m where
    H: "ptrheap_init ok1 ok2 a compar (Some setreccookie) Map.empty = Some (H, m)"
    "case H of None \<Rightarrow> \<not> ok1 \<or> \<not> ok2 \<or> a = None | Some H \<Rightarrow>
       tq.heap_ok (Some setreccookie) m H \<and> ptrs (h_elems H) = []"
    unfolding ptrheap_init_def by (rule okpE) (auto split: option.splits)
  moreover from H(1) have "m = Map.empty" by (rule ptrheap_init_state)
  ultimately show ?thesis
    by (auto simp: timerqueue_init_def tq_inv_def split: option.splits)
qed

lemma timerqueue_add_ok:
  assumes inv: "tq_inv Q m" and fresh: "r \<noteq> 0" "m r = None"
  shows "okp (timerqueue_add (Some (r, junk)) a Q tv p m) (\<lambda>(Q', m', c). tq_inv Q' m' \<and>
     (c = r \<and> timers m' = (timers m)(r \<mapsto> (tv, p)) \<or> c = 0 \<and> timers m' = timers m))"
proof -
  let ?m = "m(r \<mapsto> \<lparr>tr_tv = tv, tr_rc = junk, tr_ptr = p\<rparr>)" and ?xs = "ptrs (h_elems (tq_H Q))"
  have t1: "timers ?m = (timers m)(r \<mapsto> (tv, p))"
    using tq_inv_null [OF inv] fresh by (auto simp: timers_def fun_eq_iff)
  have xs: "r \<notin> set ?xs" "dom m = set ?xs" using inv fresh by (auto simp: tq_inv_def)
  from inv have ok: "tq.heap_ok (Some setreccookie) ?m (tq_H Q)"
    unfolding tq_inv_def using xs(1) by (auto simp: tq_rc_def t1 intro: tq.heap_ok_cong)
  from tq.ptrheap_add_sound [OF ok _ xs(1), of a] t1 obtain H' m2 rv where
    ad: "ptrheap_add a (tq_H Q) r ?m = Some (H', m2, rv)" "tq.heap_ok (Some setreccookie) m2 H'"
      "timers m2 = timers ?m"
      "rv = 0 \<and> mset (ptrs (h_elems H')) = add_mset r (mset ?xs) \<or> rv = -1 \<and> H' = tq_H Q \<and> m2 = ?m"
    by (auto elim!: okpE)
  have m20: "m2 0 = None" using ad(3) t1 by (intro timers_null [of m2 r]) auto
  show ?thesis
  proof (cases "rv = 0")
    case True
    with ad have "mset (ptrs (h_elems H')) = mset (r # ?xs)" by simp
    then have "set (ptrs (h_elems H')) = insert r (set ?xs)" by (metis set_mset_mset list.simps(15))
    moreover have "dom (timers m2) = insert r (set ?xs)" using ad(3) t1 tq_inv_dom [OF inv] by simp
    then have "dom m2 = insert r (set ?xs)" using m20 by (auto simp: timers_def dom_def)
    ultimately show ?thesis using True ad t1 by (simp add: timerqueue_add_def tq_inv_def)
  next
    case False
    with ad have "H' = tq_H Q" "m2 = ?m" by auto
    moreover have "m(r := None) = m" using fresh by auto
    ultimately show ?thesis
      using False ad(1) inv by (simp add: timerqueue_add_def tr_free_def)
  qed
qed

text \<open>Releasing a record that the heap no longer holds.\<close>

lemma tq_release:
  assumes inv: "tq_inv Q m" and c: "c \<in> set (ptrs (h_elems (tq_H Q)))"
    and H: "tq.heap_ok (Some setreccookie) m1 H'" "timers m1 = timers m"
      "mset (ptrs (h_elems H')) = mset (ptrs (h_elems (tq_H Q))) - {# c #}"
  shows "tr_free c m1 = Some (m1(c := None))" "tq_inv (Q\<lparr>tq_H := H'\<rparr>) (m1(c := None))"
    "timers (m1(c := None)) = (timers m)(c := None)"
proof -
  let ?xs = "ptrs (h_elems (tq_H Q))"
  have "c \<in> dom (timers m1)" using tq_inv_dom [OF inv] c H(2) by simp
  then have tc: "timers m1 c \<noteq> None" by blast
  then have m0: "m1 0 = None" by (auto intro: timers_null)
  from tc m0 show "tr_free c m1 = Some (m1(c := None))" by (auto simp: tr_free_def timers_def)
  have "c \<noteq> 0" using tc tq.view_null [of m1] by auto
  with m0 H(2) show t: "timers (m1(c := None)) = (timers m)(c := None)"
    by (auto simp: timers_def fun_eq_iff)
  have d: "distinct ?xs" using inv by (auto simp: tq_inv_def tq.heap_ok_def tq.wfp_def)
  have "set_mset (mset ?xs - {# c #}) = set ?xs - {c}"
    using set_remove1_eq [OF d, of c] by (metis mset_remove1 set_mset_mset)
  then have st: "set (ptrs (h_elems H')) = set ?xs - {c}" using H(3) by (metis set_mset_mset)
  have "dom m1 = dom (timers m1)" using m0 by (auto simp: timers_def dom_def)
  then have "dom (m1(c := None)) = set ?xs - {c}" using H(2) tq_inv_dom [OF inv] by auto
  moreover have "tq.heap_ok (Some setreccookie) (m1(c := None)) H'"
    by (rule tq.heap_ok_cong [OF H(1)]) (use st t H(2) in \<open>auto simp: tq_rc_def\<close>)
  ultimately show "tq_inv (Q\<lparr>tq_H := H'\<rparr>) (m1(c := None))" using st by (simp add: tq_inv_def)
qed

lemma tq_cookie:
  assumes inv: "tq_inv Q m" and c: "c \<in> dom (timers m)"
  obtains r where "m c = Some r" "tr_rc r < h_nelems (tq_H Q)"
    "ptrs (h_elems (tq_H Q)) ! tr_rc r = c" "c \<in> set (ptrs (h_elems (tq_H Q)))"
proof -
  have cs: "c \<in> set (ptrs (h_elems (tq_H Q)))" using tq_inv_dom [OF inv] c by simp
  then obtain j where j: "j < h_nelems (tq_H Q)" "ptrs (h_elems (tq_H Q)) ! j = c"
    using inv by (auto simp: tq_inv_def tq.heap_ok_def in_set_conv_nth)
  with inv have "tq_rc m c = j" by (auto simp: tq_inv_def tq.heap_ok_def tq.wfp_def)
  moreover from c tq_inv_timers [OF inv] obtain r where "m c = Some r" by auto
  ultimately show thesis using that [of r] j cs by (simp add: tq_rc_def)
qed

lemma timerqueue_delete_ok:
  assumes inv: "tq_inv Q m" and c: "c \<in> dom (timers m)"
  shows "okp (timerqueue_delete a Q c m) (\<lambda>(Q', m'). tq_inv Q' m' \<and> timers m' = (timers m)(c := None))"
proof -
  from tq_cookie [OF assms] obtain r where r: "m c = Some r" "tr_rc r < h_nelems (tq_H Q)"
    "ptrs (h_elems (tq_H Q)) ! tr_rc r = c" "c \<in> set (ptrs (h_elems (tq_H Q)))" .
  from inv have ok: "tq.heap_ok (Some setreccookie) m (tq_H Q)" by (simp add: tq_inv_def)
  from tq.ptrheap_delete_sound [OF ok r(2), of a] r(3) obtain H' m1 where
    d: "ptrheap_delete a (tq_H Q) (tr_rc r) m = Some (H', m1)" "tq.heap_ok (Some setreccookie) m1 H'"
      "timers m1 = timers m" "mset (ptrs (h_elems H')) = mset (ptrs (h_elems (tq_H Q))) - {# c #}"
    by (auto elim: okpE)
  from tq_release [OF inv r(4) d(2-4)] r(1) d(1) show ?thesis by (simp add: timerqueue_delete_def)
qed

lemma timerqueue_increase_ok:
  assumes inv: "tq_inv Q m" and c: "timers m c = Some (tv0, p)" and le: "tv_key tv0 \<le> tv_key tv"
  shows "okp (timerqueue_increase Q c tv m) (\<lambda>(Q', m'). tq_inv Q' m' \<and>
     timers m' = (timers m)(c \<mapsto> (tv, p)))"
proof -
  have "c \<in> dom (timers m)" using c by blast
  from tq_cookie [OF inv this] obtain r where r: "m c = Some r" "tr_rc r < h_nelems (tq_H Q)"
    "ptrs (h_elems (tq_H Q)) ! tr_rc r = c" "c \<in> set (ptrs (h_elems (tq_H Q)))" .
  let ?m = "m(c \<mapsto> r\<lparr>tr_tv := tv\<rparr>)"
  from inv have ok: "tq.heap_ok (Some setreccookie) m (tq_H Q)" by (simp add: tq_inv_def)
  have c0: "c \<noteq> 0" using tq_inv_null [OF inv] r(1) by auto
  have t: "timers ?m = (timers m)(c \<mapsto> (tv, p))"
    using c r(1) c0 tq_inv_null [OF inv] by (auto simp: timers_def fun_eq_iff)
  have rc: "tq_rc ?m = tq_rc m" using r(1) by (auto simp: tq_rc_def fun_eq_iff)
  from tq.ptrheap_increase_sound [OF ok r(2) rc, of "(tv, p)"] t r(3) tq_key [OF c] le
  obtain H' m' where h: "ptrheap_increase (tq_H Q) (tr_rc r) ?m = Some (H', m')"
    "tq.heap_ok (Some setreccookie) m' H'" "timers m' = timers ?m"
    "mset (ptrs (h_elems H')) = mset (ptrs (h_elems (tq_H Q)))"
    by (auto elim: okpE)
  have "m' 0 = None" using h(3) t by (intro timers_null [of m' c]) auto
  then have "dom m' = dom (timers m')" by (auto simp: timers_def dom_def)
  also have "\<dots> = set (ptrs (h_elems H'))"
    using h(3,4) t tq_inv_dom [OF inv] r(4) mset_eq_setD [OF h(4)] by auto
  finally show ?thesis using h t r(1) by (simp add: timerqueue_increase_def tq_inv_def)
qed

text \<open>The first pointer of the heap has a least time.\<close>

definition tq_least :: "(ptr \<Rightarrow> (timeval \<times> ptr) option) \<Rightarrow> ptr \<Rightarrow> bool" where
  "tq_least T c \<longleftrightarrow> (\<exists>tv p. T c = Some (tv, p) \<and> (\<forall>c' tv' p'. T c' = Some (tv', p') \<longrightarrow> tv_key tv \<le> tv_key tv'))"

lemma tq_getmin_cases:
  assumes inv: "tq_inv Q m"
  obtains "ptrheap_getmin (tq_H Q) = Some 0" "timers m = Map.empty"
  | c where "ptrheap_getmin (tq_H Q) = Some c" "c \<noteq> 0" "tq_least (timers m) c"
      "c = ptrs (h_elems (tq_H Q)) ! 0" "c \<in> set (ptrs (h_elems (tq_H Q)))"
proof -
  let ?xs = "ptrs (h_elems (tq_H Q))"
  from inv have ok: "tq.heap_ok (Some setreccookie) m (tq_H Q)" by (simp add: tq_inv_def)
  note D = tq_inv_dom [OF inv]
  from tq.ptrheap_getmin_sound [OF ok] obtain c where c: "ptrheap_getmin (tq_H Q) = Some c"
    "if ?xs = [] then c = 0 else c \<noteq> 0 \<and> c = ?xs ! 0 \<and> c \<in> set ?xs \<and>
       (\<forall>q \<in> set ?xs. tq.key m c \<le> tq.key m q)" by (auto elim: okpE)
  show thesis
  proof (cases "?xs = []")
    case True
    with c D that(1) show ?thesis by simp
  next
    case False
    with c have "c \<in> dom (timers m)" and least: "\<forall>q \<in> dom (timers m). tq.key m c \<le> tq.key m q"
      using D by auto
    then obtain tv p where t: "timers m c = Some (tv, p)" by auto
    have "tv_key tv \<le> tv_key tv'" if "timers m c' = Some (tv', p')" for c' tv' p'
      using bspec [OF least, of c'] that tq_key [OF t] tq_key [OF that] by auto
    with t have "tq_least (timers m) c" by (auto simp: tq_least_def)
    with False c that(2) show ?thesis by auto
  qed
qed

lemma timerqueue_getmin_ok:
  assumes inv: "tq_inv Q m"
  shows "okp (timerqueue_getmin Q m) (\<lambda>res. case res of
     None \<Rightarrow> timers m = Map.empty
   | Some tv \<Rightarrow> \<exists>c p. tq_least (timers m) c \<and> timers m c = Some (tv, p))"
  using inv
proof (cases rule: tq_getmin_cases)
  case (2 c)
  then obtain tv p where t: "timers m c = Some (tv, p)" by (auto simp: tq_least_def)
  from tq_inv_record [OF inv t] obtain r where "m c = Some r" "tr_tv r = tv" .
  with 2(1-3) t show ?thesis by (auto simp: timerqueue_getmin_def)
qed (simp add: timerqueue_getmin_def)

lemma timerqueue_getptr_ok:
  assumes inv: "tq_inv Q m"
  shows "okp (timerqueue_getptr a Q tv m) (\<lambda>(Q', m', p). tq_inv Q' m' \<and>
     (p = 0 \<and> timers m' = timers m \<and> (\<forall>c tvc q. timers m c = Some (tvc, q) \<longrightarrow> tv_key tv < tv_key tvc)
      \<or> (\<exists>c tvc. tq_least (timers m) c \<and> timers m c = Some (tvc, p) \<and> tv_key tvc \<le> tv_key tv \<and>
           timers m' = (timers m)(c := None))))"
  using inv
proof (cases rule: tq_getmin_cases)
  case 1
  with inv show ?thesis by (simp add: timerqueue_getptr_def)
next
  case (2 c)
  from 2(3) obtain tvc p where t: "timers m c = Some (tvc, p)"
    and least: "\<And>c' tv' p'. timers m c' = Some (tv', p') \<Longrightarrow> tv_key tvc \<le> tv_key tv'"
    unfolding tq_least_def by blast
  from tq_inv_record [OF inv t] obtain r where r: "m c = Some r" "tr_tv r = tvc" "tr_ptr r = p" .
  show ?thesis
  proof (cases "tvcmp tvc tv > 0")
    case True
    then have "tv_key tv < tv_key tvc" by (simp only: tvcmp_key)
    with least have "\<forall>c tvc q. timers m c = Some (tvc, q) \<longrightarrow> tv_key tv < tv_key tvc"
      by (blast intro: less_le_trans)
    with True r 2(1,2) inv show ?thesis by (simp add: timerqueue_getptr_def)
  next
    case False
    then have le: "tv_key tvc \<le> tv_key tv" by (simp add: tvcmp_key)
    from inv have ok: "tq.heap_ok (Some setreccookie) m (tq_H Q)" by (simp add: tq_inv_def)
    from 2(5) have "ptrs (h_elems (tq_H Q)) \<noteq> []" by auto
    from tq.ptrheap_deletemin_sound [OF ok this, of m a] 2(4) obtain H' m1 where
      d: "ptrheap_deletemin a (tq_H Q) m = Some (H', m1)" "tq.heap_ok (Some setreccookie) m1 H'"
        "timers m1 = timers m" "mset (ptrs (h_elems H')) = mset (ptrs (h_elems (tq_H Q))) - {# c #}"
      by (auto elim: okpE)
    note rel = tq_release [OF inv 2(5) d(2-4)]
    from d(3) t have "timers m1 c = Some (tvc, p)" by simp
    then obtain r' where "m1 c = Some r'" "tr_ptr r' = p" by (auto simp: timers_def split: if_splits)
    with False r 2(1-3) d(1) rel t le show ?thesis by (auto simp: timerqueue_getptr_def)
  qed
qed

text \<open>
  \<open>timerqueue_free\<close> returns, with every record released exactly once and no released record
  touched again, although it frees each minimum before it deletes it from the heap.
\<close>

lemma tq_drain_ok:
  assumes "tq_inv \<lparr>tq_H = H\<rparr> m"
  shows "tq_drain a H m = Some Map.empty"
  using assms
proof (induction "length (ptrs (h_elems H))" arbitrary: H m)
  case 0
  then have "dom m = {}" by (simp add: tq_inv_def)
  then have "m = Map.empty" by simp
  moreover from 0 have "ptrheap_getmin H = Some 0"
    by (simp add: tq_inv_def tq.heap_ok_def ptrheap_getmin_def)
  ultimately show ?case by (simp add: tq_drain.simps)
next
  case (Suc n)
  let ?xs = "ptrs (h_elems H)"
  from Suc.hyps(2) have ne: "?xs \<noteq> []" by auto
  from Suc.prems obtain c where c: "ptrheap_getmin H = Some c" "c \<noteq> 0" "c = ?xs ! 0" "c \<in> set ?xs"
  proof (cases rule: tq_getmin_cases)
    case 1
    with tq_inv_dom [OF Suc.prems] ne show ?thesis by simp
  qed (use that in simp)
  from Suc.prems have ok: "tq.heap_ok (Some setreccookie) m H" and dm: "dom m = set ?xs"
    by (auto simp: tq_inv_def)
  let ?m = "m(c := None)"
  have fr: "tr_free c m = Some ?m" using c(4) dm by (auto simp: tr_free_def)
  have m0: "m 0 = None" by (rule tq_inv_null [OF Suc.prems])
  have "timers ?m p = timers m p \<and> tq_rc ?m p = tq_rc m p" if "p \<noteq> ?xs ! 0" for p
    using that c(2,3) m0 by (auto simp: timers_def tq_rc_def)
  from tq.ptrheap_deletemin_sound [OF ok ne this, of "a (h_nelems H)"] obtain H' m2 where
    d: "ptrheap_deletemin (a (h_nelems H)) H ?m = Some (H', m2)" "tq.heap_ok (Some setreccookie) m2 H'"
      "timers m2 = timers ?m" "mset (ptrs (h_elems H')) = mset ?xs - {# c #}"
    using c(3) by (auto elim: okpE)
  have "mset (ptrs (h_elems H')) = mset (remove1 c ?xs)" by (simp add: d(4))
  from mset_eq_setD [OF this] mset_eq_length [OF this] c(4) Suc.hyps(2)
  have st: "set (ptrs (h_elems H')) = set (remove1 c ?xs)" "length (ptrs (h_elems H')) = n"
    by (simp_all add: length_remove1)
  have dx: "distinct ?xs" using ok by (auto simp: tq.heap_ok_def tq.wfp_def)
  have "m2 0 = None"
  proof (cases "n = 0")
    case True
    then have "h_nelems H = 1" using Suc.hyps(2) ok by (simp add: tq.heap_ok_def)
    then have "szsub (h_nelems H) 1 = 0" by simp
    with ptrheap_delete_last_state [of _ H] d(1) have "m2 = ?m" by (simp add: ptrheap_deletemin_def)
    with m0 show ?thesis by simp
  next
    case False
    with st(2) d(2) have "timers m2 (ptrs (h_elems H') ! 0) \<noteq> None" by (auto simp: tq.heap_ok_def tq.wfp_def)
    then show ?thesis by (auto intro: timers_null)
  qed
  then have "dom m2 = dom (timers m2)" by (auto simp: timers_def dom_def)
  also have "\<dots> = dom ?m" unfolding d(3) using m0 by (auto simp: timers_def dom_def split: if_splits)
  also have "\<dots> = set (ptrs (h_elems H'))" using st(1) dx dm by auto
  finally have "tq_inv \<lparr>tq_H = H'\<rparr> m2" using d(2) by (simp add: tq_inv_def)
  from Suc.hyps(1) [OF st(2) [symmetric] this] show ?case
    using c(1,2) fr d(1) by (subst tq_drain.simps) simp
qed

lemma timerqueue_free_ok: "tq_inv Q m \<Longrightarrow> timerqueue_free a (Some Q) m = Some Map.empty"
  using tq_drain_ok [of "tq_H Q" m a] by (cases Q) (simp add: timerqueue_free_def tq_inv_def)


section \<open>The timer queue as an abstract set of timers\<close>

datatype tq_op =
    TqAdd "(ptr \<times> nat) option" alloc timeval ptr
  | TqDelete alloc ptr
  | TqIncrease ptr timeval
  | TqGetmin
  | TqGetptr alloc timeval

datatype tq_out = TqCookie ptr | TqVoid | TqMin "timeval option" | TqPtr ptr

fun tq_step :: "tq_op \<Rightarrow> timerqueue \<times> tqmem \<Rightarrow> ((timerqueue \<times> tqmem) \<times> tq_out) option" where
  "tq_step (TqAdd r a tv p) (Q, m) = do {
     (Q', m', c) \<leftarrow> timerqueue_add r a Q tv p m; Some ((Q', m'), TqCookie c) }"
| "tq_step (TqDelete a c) (Q, m) = do {
     (Q', m') \<leftarrow> timerqueue_delete a Q c m; Some ((Q', m'), TqVoid) }"
| "tq_step (TqIncrease c tv) (Q, m) = do {
     (Q', m') \<leftarrow> timerqueue_increase Q c tv m; Some ((Q', m'), TqVoid) }"
| "tq_step TqGetmin (Q, m) = do { t \<leftarrow> timerqueue_getmin Q m; Some ((Q, m), TqMin t) }"
| "tq_step (TqGetptr a tv) (Q, m) = do {
     (Q', m', p) \<leftarrow> timerqueue_getptr a Q tv m; Some ((Q', m'), TqPtr p) }"

text \<open>
  \<open>malloc\<close> returns a block that is not in use; cookies are live; times are only increased; and
  the user pointers are not \<open>NULL\<close>.
\<close>

fun tq_pre :: "tq_op \<Rightarrow> timerqueue \<times> tqmem \<Rightarrow> bool" where
  "tq_pre (TqAdd r a tv p) (Q, m) =
     (p \<noteq> 0 \<and> (case r of None \<Rightarrow> True | Some (r, _) \<Rightarrow> r \<noteq> 0 \<and> m r = None))"
| "tq_pre (TqDelete a c) (Q, m) = (c \<in> dom (timers m))"
| "tq_pre (TqIncrease c tv) (Q, m) =
     (case timers m c of None \<Rightarrow> False | Some (tv0, p) \<Rightarrow> tv_key tv0 \<le> tv_key tv)"
| "tq_pre _ _ = True"

text \<open>The abstract state gives every live cookie its time and pointer.\<close>

type_synonym tqabs = "ptr \<Rightarrow> (timeval \<times> ptr) option"

fun tq_spec :: "tq_op \<Rightarrow> tqabs \<Rightarrow> tq_out \<Rightarrow> tqabs \<Rightarrow> bool" where
  "tq_spec (TqAdd r a tv p) T out T' =
     (out = TqCookie 0 \<and> T' = T
      \<or> (\<exists>c. c \<noteq> 0 \<and> c \<notin> dom T \<and> out = TqCookie c \<and> T' = T(c \<mapsto> (tv, p))))"
| "tq_spec (TqDelete a c) T out T' = (out = TqVoid \<and> T' = T(c := None))"
| "tq_spec (TqIncrease c tv) T out T' =
     (out = TqVoid \<and> T' = T(c := map_option (\<lambda>(_, p). (tv, p)) (T c)))"
| "tq_spec TqGetmin T out T' =
     (T' = T \<and> (if T = Map.empty then out = TqMin None
        else \<exists>c tv p. T c = Some (tv, p) \<and> tq_least T c \<and> out = TqMin (Some tv)))"
| "tq_spec (TqGetptr a tv) T out T' =
     (if \<exists>c tvc q. T c = Some (tvc, q) \<and> tv_key tvc \<le> tv_key tv
      then \<exists>c tvc q. T c = Some (tvc, q) \<and> tq_least T c \<and> out = TqPtr q \<and> T' = T(c := None)
      else out = TqPtr 0 \<and> T' = T)"

definition tq_init :: "timerqueue \<times> tqmem \<Rightarrow> bool" where
  "tq_init s \<longleftrightarrow> (\<exists>ok ok1 ok2 a. timerqueue_init ok ok1 ok2 a Map.empty = Some (Some (fst s), snd s))"

lemma tq_least_least:
  "tq_least T c \<Longrightarrow> T c = Some (tv, p) \<Longrightarrow> T c' = Some (tv', p') \<Longrightarrow> tv_key tv \<le> tv_key tv'"
  by (auto simp: tq_least_def)

lemma timerqueue_getptr_spec:
  assumes "tq_inv Q m"
  shows "okp (timerqueue_getptr a Q tv m)
    (\<lambda>(Q', m', p). tq_inv Q' m' \<and> tq_spec (TqGetptr a tv) (timers m) (TqPtr p) (timers m'))"
  by (rule okp_mono [OF timerqueue_getptr_ok [OF assms]]) (fastforce simp: not_less [symmetric])

lemma timers_fresh: "m r = None \<Longrightarrow> r \<notin> dom (timers m)"
  by (auto simp: timers_def split: if_splits)

interpretation tqueue: machine_refinement tq_init tq_pre tq_step "\<lambda>(Q, m). tq_inv Q m" "\<lambda>(Q, m). timers m" tq_spec
proof (unfold_locales, goal_cases)
  case (1 s)
  then obtain ok ok1 ok2 a where "timerqueue_init ok ok1 ok2 a Map.empty = Some (Some (fst s), snd s)"
    by (auto simp: tq_init_def)
  then show ?case using timerqueue_init_ok [of ok ok1 ok2 a] by (cases s) auto
next
  case (2 s opn)
  obtain Q m where s: "s = (Q, m)" by force
  with 2 have inv: "tq_inv Q m" and pre: "tq_pre opn (Q, m)" by auto
  show ?case
  proof (cases opn)
    case (TqAdd r a tv p)
    show ?thesis
    proof (cases r)
      case None
      with inv TqAdd s show ?thesis by (simp add: timerqueue_add_def)
    next
      case (Some rj)
      obtain r' junk where rj: "rj = (r', junk)" by force
      with pre TqAdd Some have f: "r' \<noteq> 0" "m r' = None" by auto
      from timerqueue_add_ok [OF inv f, of junk a tv p] TqAdd s Some rj f timers_fresh [of m r', OF f(2)]
      show ?thesis by (auto simp: wp_rules elim!: okp_mono)
    qed
  next
    case (TqDelete a c)
    with pre s timerqueue_delete_ok [OF inv, of c a] show ?thesis
      by (auto simp: wp_rules elim!: okp_mono)
  next
    case (TqIncrease c tv)
    with pre obtain tv0 p where c: "timers m c = Some (tv0, p)" "tv_key tv0 \<le> tv_key tv"
      by (auto split: option.splits)
    from timerqueue_increase_ok [OF inv c] TqIncrease s c(1) show ?thesis
      by (auto simp: wp_rules elim!: okp_mono)
  next
    case TqGetmin
    with s inv timerqueue_getmin_ok [OF inv] show ?thesis
      by (fastforce simp: wp_rules split: option.splits elim!: okp_mono)
  next
    case (TqGetptr a tv)
    with s timerqueue_getptr_spec [OF inv, of a tv] show ?thesis
      by (auto simp: wp_rules simp del: tq_spec.simps elim!: okp_mono)
  qed
qed


section \<open>Properties\<close>

text \<open>A queue with no timers, and one with a timer at 5 seconds whose cookie is 16.\<close>

definition tq_ex0 :: timerqueue where
  "tq_ex0 = \<lparr>tq_H = \<lparr>h_compar = compar, h_setreccookie = Some setreccookie,
     h_elems = \<lparr>ea_size = 0, ea_alloc = 0, ea_buf = []\<rparr>, h_nelems = 0\<rparr>\<rparr>"

definition tq_ex1 :: timerqueue where
  "tq_ex1 = \<lparr>tq_H = \<lparr>h_compar = compar, h_setreccookie = Some setreccookie,
     h_elems = \<lparr>ea_size = 8, ea_alloc = 8, ea_buf = le64enc 16\<rparr>, h_nelems = 1\<rparr>\<rparr>"

definition tq_mem1 :: tqmem where
  "tq_mem1 = [16 \<mapsto> \<lparr>tr_tv = \<lparr>tv_sec = 5, tv_usec = 0\<rparr>, tr_rc = 0, tr_ptr = 99\<rparr>]"

lemma tq_ex0_init: "tq_init (tq_ex0, Map.empty)"
proof -
  have "timerqueue_init True True True (Some (\<lambda>_. 0)) Map.empty = Some (Some tq_ex0, Map.empty)"
    by (simp add: tq_ex0_def timerqueue_init_def ptrheap_init_def ptrheap_create_def ptrlist_init_def
        elasticarray_init_def elasticarray_resize_def resize_def resize_nalloc_def create_copy.simps
        create_heapify.simps create_notify.simps)
  then show ?thesis unfolding tq_init_def by fastforce
qed

lemma tq_ex1_step:
  "tq_step (TqAdd (Some (16, 7)) (Some (\<lambda>_. 0)) \<lparr>tv_sec = 5, tv_usec = 0\<rparr> 99) (tq_ex0, Map.empty)
   = Some ((tq_ex1, tq_mem1), TqCookie 16)"
  by (simp add: tq_ex0_def tq_ex1_def tq_mem1_def timerqueue_add_def ptrheap_add_def ptrlist_append_def
      elasticarray_append_def resize_def resize_nalloc_def SIZE_MAX_def szmul_def szsub_def szadd_def
      mem_store_def mem_load_def c_realloc_def notify_def setreccookie_def heapifyup.simps)

lemma tq_ex1_reach: "reach tq_init tq_pre tq_step (tq_ex1, tq_mem1)"
proof -
  have "reach tq_init tq_pre tq_step (tq_ex0, Map.empty)" by (rule reach_init) (rule tq_ex0_init)
  then show ?thesis
    by (rule reach_step [where op = "TqAdd (Some (16, 7)) (Some (\<lambda>_. 0)) \<lparr>tv_sec = 5, tv_usec = 0\<rparr> 99"])
      (simp, rule tq_ex1_step)
qed

text \<open>
  C4.  The timer queue refines the set of its timers.  In every state that a client can reach,
  every call the documentation permits returns without a memory fault or a failed assertion,
  whatever the allocator answers, and its result and effect are those of the abstract type: a
  new timer gets a cookie not in use, a deletion removes exactly that timer, an increase
  changes exactly that time, \<open>timerqueue_getmin\<close> reports a least time and
  \<open>timerqueue_getptr\<close> removes and returns a least timer exactly when some timer is due.
\<close>

theorem timerqueue_refines:
  assumes "reach tq_init tq_pre tq_step (Q, m)" "tq_pre opn (Q, m)"
  shows "okp (tq_step opn (Q, m)) (\<lambda>((Q', m'), out). tq_spec opn (timers m) out (timers m'))"
  using tqueue.reach_spec [OF assms] by (auto elim!: okp_mono)

theorem timerqueue_refines_witness:
  "okp (tq_step (TqGetptr None \<lparr>tv_sec = 6, tv_usec = 0\<rparr>) (tq_ex1, tq_mem1))
     (\<lambda>((Q', m'), out). tq_spec (TqGetptr None \<lparr>tv_sec = 6, tv_usec = 0\<rparr>) (timers tq_mem1) out (timers m'))"
  by (rule timerqueue_refines [OF tq_ex1_reach]) simp

text \<open>
  Freeing a timer queue in any reachable state returns, frees every timer record exactly
  once (a second \<open>free\<close> of a record and any access to a freed one would be a fault), and leaves
  no record behind, although the loop frees each record while the heap still holds its address.
\<close>

theorem timerqueue_free_releases_all:
  assumes "reach tq_init tq_pre tq_step (Q, m)"
  shows "timerqueue_free a (Some Q) m = Some Map.empty"
  using tqueue.reach_inv [OF assms] timerqueue_free_ok by simp

theorem timerqueue_free_releases_all_witness:
  "timerqueue_free (\<lambda>_. None) (Some tq_ex1) tq_mem1 = Some Map.empty \<and> tq_mem1 \<noteq> Map.empty"
  using timerqueue_free_releases_all [OF tq_ex1_reach] by (simp add: tq_mem1_def)

end
