(* ===== verification/Select_Stats.thy ===== *)
theory Select_Stats
  imports Complex_Main Timer_Queue
begin

text \<open>
  Statistics on the time between calls of \<open>poll\<close>, from
  \<open>events/events_network_selectstats.c\<close>.  A \<open>double\<close> is a real number that the format has, and each
  operation rounds to the nearest one as IEEE 754 says; no value gets large enough for an infinity.
  The answer of \<open>monoclock_get\<close> is an argument, \<open>None\<close> for an error.
\<close>

section \<open>Rounding\<close>

definition round_even :: "real \<Rightarrow> int" where
  "round_even q =
     (if q - of_int \<lfloor>q\<rfloor> < 1 / 2 then \<lfloor>q\<rfloor>
      else if q - of_int \<lfloor>q\<rfloor> > 1 / 2 then \<lfloor>q\<rfloor> + 1
      else if even \<lfloor>q\<rfloor> then \<lfloor>q\<rfloor> else \<lfloor>q\<rfloor> + 1)"

text \<open>The exponent of the last of the 53 bits of a number, which is at least that of subnormal numbers.\<close>

definition ulp_exp :: "real \<Rightarrow> int" where
  "ulp_exp x = max (\<lfloor>log 2 \<bar>x\<bar>\<rfloor> - 52) (-1074)"

definition dbl :: "real \<Rightarrow> real" where
  "dbl x = (if x = 0 then 0 else of_int (round_even (x / 2 powi ulp_exp x)) * 2 powi ulp_exp x)"


section \<open>State and operations\<close>

record selstats =
  ss_st :: timeval
  ss_running :: bool
  ss_N :: real
  ss_mu :: real
  ss_M2 :: real
  ss_max :: real

definition selstats0 :: selstats where
  "selstats0 = \<lparr>ss_st = \<lparr>tv_sec = 0, tv_usec = 0\<rparr>, ss_running = False, ss_N = 0, ss_mu = 0, ss_M2 = 0, ss_max = 0\<rparr>"

definition timeval_diff :: "timeval \<Rightarrow> timeval \<Rightarrow> real" where
  "timeval_diff x y =
     dbl (dbl (of_int (tv_sec y - tv_sec x)) + dbl (dbl (of_int (tv_usec y - tv_usec x)) * dbl (1 / 1000000)))"

definition events_network_selectstats_startclock :: "timeval option \<Rightarrow> selstats \<Rightarrow> selstats" where
  "events_network_selectstats_startclock clock s =
     (if ss_running s then s
      else case clock of None \<Rightarrow> s | Some st \<Rightarrow> s\<lparr>ss_st := st, ss_running := True\<rparr>)"

definition events_network_selectstats_stopclock :: "selstats \<Rightarrow> selstats" where
  "events_network_selectstats_stopclock s = s\<lparr>ss_running := False\<rparr>"

definition events_network_selectstats_select :: "timeval option \<Rightarrow> selstats \<Rightarrow> selstats" where
  "events_network_selectstats_select clock s =
     (if \<not> ss_running s then s
      else case clock of
        None \<Rightarrow> s\<lparr>ss_running := False\<rparr>
      | Some tnow \<Rightarrow>
          (let t = timeval_diff (ss_st s) tnow;
               s = s\<lparr>ss_N := dbl (ss_N s + 1)\<rparr>;
               d = dbl (t - ss_mu s);
               s = s\<lparr>ss_mu := dbl (ss_mu s + dbl (d / ss_N s))\<rparr>;
               s = s\<lparr>ss_M2 := dbl (ss_M2 s + dbl (d * dbl (t - ss_mu s)))\<rparr>;
               s = (if ss_max s < t then s\<lparr>ss_max := t\<rparr> else s)
           in s\<lparr>ss_running := False\<rparr>))"

text \<open>The four results \<open>N\<close>, \<open>mu\<close>, \<open>va\<close> and \<open>max\<close>.\<close>

definition events_network_selectstats :: "selstats \<Rightarrow> selstats \<times> real \<times> real \<times> real \<times> real" where
  "events_network_selectstats s =
     (s\<lparr>ss_N := 0, ss_mu := 0, ss_M2 := 0, ss_max := 0\<rparr>,
      ss_N s, ss_mu s, if ss_N s > 1 then dbl (ss_M2 s / dbl (ss_N s - 1)) else 0, ss_max s)"


section \<open>Rounding is monotone\<close>

lemma round_even_near: "\<bar>q - of_int (round_even q)\<bar> \<le> \<bar>q - of_int k\<bar>"
proof -
  have "of_int \<lfloor>q\<rfloor> \<le> q" "q < of_int \<lfloor>q\<rfloor> + 1" by linarith+
  moreover have "k \<le> \<lfloor>q\<rfloor> \<or> \<lfloor>q\<rfloor> + 1 \<le> k" by linarith
  then have "real_of_int k \<le> of_int \<lfloor>q\<rfloor> \<or> of_int \<lfloor>q\<rfloor> + 1 \<le> real_of_int k" by linarith
  ultimately show ?thesis by (auto simp: round_even_def)
qed

text \<open>The numbers of the format, without a bound from above.\<close>

definition doubles :: "real set" where
  "doubles = {of_int m * 2 powi e | m e. \<bar>m\<bar> \<le> 2 ^ 53 \<and> -1074 \<le> e}"

lemma doublesI: "\<bar>m\<bar> \<le> 2 ^ 53 \<Longrightarrow> -1074 \<le> e \<Longrightarrow> of_int m * 2 powi e \<in> doubles"
  by (auto simp: doubles_def)

lemma doubles_pow: "-1074 \<le> e \<Longrightarrow> 2 powi e \<in> doubles" "-1074 \<le> e \<Longrightarrow> - (2 powi e) \<in> doubles"
  using doublesI [of 1 e] doublesI [of "-1" e] by simp_all

lemma doubles_int: "\<bar>m\<bar> \<le> 2 ^ 53 \<Longrightarrow> of_int m \<in> doubles"
  using doublesI [of m 0] by simp

lemma doubles_0 [simp]: "0 \<in> doubles"
  using doubles_int [of 0] by simp

lemma binade:
  assumes "x \<noteq> 0"
  shows "2 powi \<lfloor>log 2 \<bar>x\<bar>\<rfloor> \<le> \<bar>x\<bar>" "\<bar>x\<bar> < 2 powi (\<lfloor>log 2 \<bar>x\<bar>\<rfloor> + 1)"
proof -
  have p: "2 powi k = 2 powr real_of_int k" for k by (simp add: powr_real_of_int')
  have x: "\<bar>x\<bar> = 2 powr log 2 \<bar>x\<bar>" using assms by simp
  show "2 powi \<lfloor>log 2 \<bar>x\<bar>\<rfloor> \<le> \<bar>x\<bar>" unfolding p by (subst (2) x, rule powr_mono) linarith+
  show "\<bar>x\<bar> < 2 powi (\<lfloor>log 2 \<bar>x\<bar>\<rfloor> + 1)" unfolding p by (subst x, rule powr_less_mono) linarith+
qed

lemma powi_grid: "e \<le> e' \<Longrightarrow> \<exists>k. (2 :: real) powi e' = of_int k * 2 powi e"
proof -
  assume "e \<le> e'"
  then have "(2 :: real) powi e' = 2 powi (e' - e) * 2 powi e" by (simp flip: power_int_add)
  moreover have "(2 :: real) powi (e' - e) = of_int (2 ^ nat (e' - e))" using \<open>e \<le> e'\<close> by (simp add: power_int_def)
  ultimately show ?thesis by metis
qed

lemma dbl_near_grid: "x \<noteq> 0 \<Longrightarrow> \<bar>x - dbl x\<bar> \<le> \<bar>x - of_int k * 2 powi ulp_exp x\<bar>"
proof -
  assume "x \<noteq> 0"
  let ?u = "(2 :: real) powi ulp_exp x"
  have u: "0 < ?u" by simp
  have "\<bar>x / ?u - of_int (round_even (x / ?u))\<bar> * ?u \<le> \<bar>x / ?u - of_int k\<bar> * ?u"
    using round_even_near u by (intro mult_right_mono) simp_all
  then have "\<bar>(x / ?u - of_int (round_even (x / ?u))) * ?u\<bar> \<le> \<bar>(x / ?u - of_int k) * ?u\<bar>" by (simp add: abs_mult)
  then show ?thesis using \<open>x \<noteq> 0\<close> by (simp add: dbl_def left_diff_distrib)
qed

lemma dbl_in: "dbl x \<in> doubles"
proof (cases "x = 0")
  case False
  let ?e = "ulp_exp x" and ?m = "round_even (x / 2 powi ulp_exp x)"
  have e: "\<lfloor>log 2 \<bar>x\<bar>\<rfloor> + 1 \<le> 53 + ?e" "-1074 \<le> ?e" by (auto simp: ulp_exp_def)
  have "\<bar>x\<bar> \<le> 2 powi (53 + ?e)"
    using binade(2) [OF False] power_int_increasing [OF e(1), of "2 :: real"] by simp
  then have x: "\<bar>x / 2 powi ?e\<bar> \<le> 2 ^ 53"
    by (simp add: power_int_add abs_divide divide_le_eq)
  define q where "q = x / 2 powi ?e"
  have "\<bar>?m\<bar> \<le> 2 ^ 53"
  proof -
    have "\<bar>q - of_int (round_even q)\<bar> \<le> \<bar>q - of_int (2 ^ 53)\<bar>" "\<bar>q - of_int (round_even q)\<bar> \<le> \<bar>q - of_int (- (2 ^ 53))\<bar>"
      by (rule round_even_near)+
    then have "of_int (round_even q) \<le> (2 ^ 53 :: real)" "- (2 ^ 53 :: real) \<le> of_int (round_even q)"
      using x unfolding q_def [symmetric] by (auto simp: abs_if split: if_splits)
    then have "round_even q \<le> 2 ^ 53" "- (2 ^ 53) \<le> round_even q" by simp_all
    then show ?thesis by (simp add: q_def)
  qed
  then show ?thesis using False doublesI [OF _ e(2)] by (simp add: dbl_def)
qed (simp add: dbl_def)

lemma dbl_near: "f \<in> doubles \<Longrightarrow> \<bar>x - dbl x\<bar> \<le> \<bar>x - f\<bar>"
proof (cases "x = 0")
  case False
  assume "f \<in> doubles"
  then obtain m e where f: "f = of_int m * 2 powi e" "\<bar>m\<bar> \<le> 2 ^ 53" "-1074 \<le> e" by (auto simp: doubles_def)
  let ?u = "ulp_exp x"
  show ?thesis
  proof (cases "?u \<le> e")
    case True
    then obtain k where "(2 :: real) powi e = of_int k * 2 powi ?u" using powi_grid by blast
    then have "f = of_int (m * k) * 2 powi ?u" by (simp add: f(1))
    then show ?thesis using dbl_near_grid [OF False, of "m * k"] by simp
  next
    case out: False
    then have u: "?u = \<lfloor>log 2 \<bar>x\<bar>\<rfloor> - 52" "e + 53 \<le> ?u + 52" using f(3) by (auto simp: ulp_exp_def)
    let ?b = "(2 :: real) powi (?u + 52)"
    have b: "?b \<le> \<bar>x\<bar>" using binade(1) [OF False] u(1) by simp
    have "\<bar>f\<bar> = of_int \<bar>m\<bar> * 2 powi e" using f(1) by (simp add: abs_mult)
    also have "\<dots> \<le> 2 ^ 53 * 2 powi e" using f(2) by (intro mult_right_mono) (simp_all add: of_int_le_iff [of _ "2 ^ 53", simplified] flip: of_int_abs)
    also have "\<dots> = 2 powi (e + 53)" by (simp add: power_int_add)
    also have "\<dots> \<le> ?b" using u(2) by (intro power_int_increasing) simp_all
    finally have fb: "\<bar>f\<bar> \<le> ?b" .
    have grid: "?b = of_int (2 ^ 52) * 2 powi ?u" by (simp add: power_int_add)
    have "\<bar>x - dbl x\<bar> \<le> \<bar>x - ?b\<bar>" "\<bar>x - dbl x\<bar> \<le> \<bar>x - (- ?b)\<bar>"
      using dbl_near_grid [OF False, of "2 ^ 52"] dbl_near_grid [OF False, of "- (2 ^ 52)"] by (simp_all add: grid)
    then show ?thesis using b fb by (auto simp: abs_if split: if_splits)
  qed
qed (simp add: dbl_def)

lemma dbl_id: "f \<in> doubles \<Longrightarrow> dbl f = f"
  using dbl_near [of f f] by simp

lemma dbl_mono: "x \<le> y \<Longrightarrow> dbl x \<le> dbl y"
proof (rule ccontr)
  assume xy: "x \<le> y" "\<not> dbl x \<le> dbl y"
  have "\<bar>x - dbl x\<bar> \<le> \<bar>x - dbl y\<bar>" "\<bar>y - dbl y\<bar> \<le> \<bar>y - dbl x\<bar>" by (rule dbl_near, rule dbl_in)+
  then have "y \<le> x" using xy by (auto simp: abs_if split: if_splits)
  then show False using xy by simp
qed

lemma dbl_le: "x \<le> f \<Longrightarrow> f \<in> doubles \<Longrightarrow> dbl x \<le> f"
  using dbl_mono [of x f] by (simp add: dbl_id)

lemma dbl_ge: "f \<le> x \<Longrightarrow> f \<in> doubles \<Longrightarrow> f \<le> dbl x"
  using dbl_mono [of f x] by (simp add: dbl_id)

lemma dbl_int: "\<bar>m\<bar> \<le> 2 ^ 53 \<Longrightarrow> dbl (of_int m) = of_int m"
  by (rule dbl_id) (rule doubles_int)

lemma doubles_diff:
  assumes "a \<in> doubles" "b \<in> doubles" "a \<noteq> b"
  shows "2 powi (-1074) \<le> \<bar>a - b\<bar>"
proof -
  have grid: "\<exists>k. f = of_int k * 2 powi (-1074)" if f: "f \<in> doubles" for f
  proof -
    obtain m e where m: "f = of_int m * 2 powi e" "-1074 \<le> e" using f unfolding doubles_def by blast
    then obtain k where "(2 :: real) powi e = of_int k * 2 powi (-1074)" using powi_grid by blast
    then have "f = of_int (m * k) * 2 powi (-1074)" by (simp add: m(1))
    then show ?thesis by blast
  qed
  define u :: real where "u = 2 powi (-1074)"
  have u: "0 < u" unfolding u_def by (rule zero_less_power_int) simp
  obtain k l where k: "a = of_int k * u" and l: "b = of_int l * u"
    using assms(1,2) grid unfolding u_def by blast
  have "\<bar>a - b\<bar> = of_int \<bar>k - l\<bar> * u" using u by (simp add: k l left_diff_distrib [symmetric] abs_mult)
  moreover have "1 \<le> \<bar>k - l\<bar>" using assms(3) k l by auto
  then have "(1 :: real) \<le> of_int \<bar>k - l\<bar>" by linarith
  then have "1 * u \<le> of_int \<bar>k - l\<bar> * u" using u by (intro mult_right_mono) simp_all
  ultimately show ?thesis unfolding u_def by linarith
qed

text \<open>The correction of the mean does not go beyond the new value, although it is rounded twice.\<close>

lemma dbl_step:
  assumes "a \<in> doubles" "b \<in> doubles" "2 \<le> n"
  shows "b \<le> a \<Longrightarrow> 0 \<le> dbl (dbl (a - b) / n) \<and> dbl (dbl (a - b) / n) \<le> a - b"
    and "a \<le> b \<Longrightarrow> a - b \<le> dbl (dbl (a - b) / n) \<and> dbl (dbl (a - b) / n) \<le> 0"
proof -
  let ?x = "a - b"
  have z: "dbl 0 = 0" by (simp add: dbl_def)
  {
    assume "a \<noteq> b"
    define e where "e = \<lfloor>log 2 \<bar>?x\<bar>\<rfloor>"
    have x: "2 powi e \<le> \<bar>?x\<bar>" "\<bar>?x\<bar> < 2 * 2 powi e"
      using binade [of ?x] \<open>a \<noteq> b\<close> by (simp_all add: e_def power_int_add_1)
    have "(2 :: real) powi (-1074) < 2 powi (e + 1)"
      using doubles_diff [OF assms(1,2) \<open>a \<noteq> b\<close>] x(2) by (simp add: power_int_add_1)
    then have "-1074 \<le> e" using power_int_increasing [of "e + 1" "-1074" "2 :: real"] by (cases "e + 1 \<le> -1074") auto
    then have g: "2 powi e \<in> doubles" "- (2 powi e) \<in> doubles" "2 * 2 powi e \<in> doubles" "- (2 * 2 powi e) \<in> doubles"
      using doubles_pow [of e] doubles_pow [of "e + 1"] by (simp_all add: power_int_add_1 mult.commute)
    have "- (2 * 2 powi e) \<le> dbl ?x" "dbl ?x \<le> 2 * 2 powi e"
      using x(2) g by (intro dbl_ge dbl_le; simp)+
    moreover have "2 * 2 powi e \<le> n * 2 powi e" using assms(3) by simp
    ultimately have "- (n * 2 powi e) \<le> dbl ?x" "dbl ?x \<le> n * 2 powi e" by linarith+
    then have "- (2 powi e) \<le> dbl ?x / n" "dbl ?x / n \<le> 2 powi e"
      using assms(3) by (simp_all add: field_simps)
    then have "- (2 powi e) \<le> dbl (dbl ?x / n)" "dbl (dbl ?x / n) \<le> 2 powi e"
      using g by (intro dbl_ge dbl_le; simp)+
    then have "\<bar>dbl (dbl ?x / n)\<bar> \<le> \<bar>?x\<bar>" using x(1) by linarith
  }
  then have le: "\<bar>dbl (dbl ?x / n)\<bar> \<le> \<bar>?x\<bar>" by (cases "a = b") (simp_all add: z)
  show "b \<le> a \<Longrightarrow> 0 \<le> dbl (dbl ?x / n) \<and> dbl (dbl ?x / n) \<le> ?x"
    using le assms(3) dbl_ge [of 0 ?x] dbl_ge [of 0 "dbl ?x / n"] by auto
  show "a \<le> b \<Longrightarrow> ?x \<le> dbl (dbl ?x / n) \<and> dbl (dbl ?x / n) \<le> 0"
    using le assms(3) dbl_le [of ?x 0] dbl_le [of "dbl ?x / n" 0] by (auto simp: divide_nonpos_pos)
qed


section \<open>The running values\<close>

text \<open>The state after the durations \<open>ts\<close> since the last report.\<close>

definition stats_of :: "selstats \<Rightarrow> real list \<Rightarrow> bool" where
  "stats_of s ts \<longleftrightarrow> ss_N s = real (length ts) \<and> ss_max s = foldl max 0 ts \<and> ss_mu s \<in> doubles \<and> 0 \<le> ss_M2 s \<and>
     (if ts = [] then ss_mu s = 0 \<and> ss_M2 s = 0 else Min (set ts) \<le> ss_mu s \<and> ss_mu s \<le> Max (set ts))"

lemma timeval_diff_in: "timeval_diff x y \<in> doubles"
  by (simp add: timeval_diff_def dbl_in)

lemma dbl_nonneg: "0 \<le> x \<Longrightarrow> 0 \<le> dbl x"
  by (rule dbl_ge) simp_all

lemma mean_step:
  assumes t: "t \<in> doubles" and mu: "mu \<in> doubles" and n: "2 \<le> n"
  defines "mu' \<equiv> dbl (mu + dbl (dbl (t - mu) / n))"
  shows "min mu t \<le> mu'" "mu' \<le> max mu t" "0 \<le> dbl (t - mu) * dbl (t - mu')"
proof -
  show le: "min mu t \<le> mu'" "mu' \<le> max mu t"
    using dbl_step [OF t mu n] t mu unfolding mu'_def by (intro dbl_ge dbl_le; cases "mu \<le> t"; auto)+
  show "0 \<le> dbl (t - mu) * dbl (t - mu')"
  proof (cases "mu \<le> t")
    case True
    then show ?thesis using le by (simp add: dbl_nonneg)
  next
    case False
    then have "dbl (t - mu) \<le> 0" "dbl (t - mu') \<le> 0" using le by (intro dbl_le; simp)+
    then show ?thesis by (rule mult_nonpos_nonpos)
  qed
qed

lemma select_stats:
  assumes s: "stats_of s ts" "ss_running s" and len: "length ts < 2 ^ 53"
  shows "stats_of (events_network_selectstats_select (Some tnow) s) (ts @ [timeval_diff (ss_st s) tnow])"
proof -
  define t where "t = timeval_diff (ss_st s) tnow"
  define n where "n = real (length ts) + 1"
  define mu where "mu = dbl (ss_mu s + dbl (dbl (t - ss_mu s) / n))"
  define M2 where "M2 = dbl (ss_M2 s + dbl (dbl (t - ss_mu s) * dbl (t - mu)))"
  have "dbl (of_int (int (length ts) + 1)) = of_int (int (length ts) + 1)" using len by (intro dbl_int) simp
  then have N: "dbl (ss_N s + 1) = n" using s(1) by (simp add: stats_of_def n_def)
  have t: "t \<in> doubles" by (simp add: t_def timeval_diff_in)
  have s': "events_network_selectstats_select (Some tnow) s =
     s\<lparr>ss_N := n, ss_mu := mu, ss_M2 := M2, ss_max := max (ss_max s) t, ss_running := False\<rparr>"
    using s(2) by (simp add: events_network_selectstats_select_def t_def [symmetric] N mu_def M2_def max_def Let_def)
  have "0 \<le> M2 \<and> Min (set (ts @ [t])) \<le> mu \<and> mu \<le> Max (set (ts @ [t]))"
  proof (cases "ts = []")
    case True
    then have "mu = t" "M2 = 0" using s(1) t by (simp_all add: stats_of_def mu_def M2_def n_def dbl_id)
    then show ?thesis using True by simp
  next
    case False
    have n2: "2 \<le> n" using False by (cases ts) (simp_all add: n_def)
    have m: "ss_mu s \<in> doubles" "Min (set ts) \<le> ss_mu s" "ss_mu s \<le> Max (set ts)" "0 \<le> ss_M2 s"
      using s(1) False by (simp_all add: stats_of_def)
    have "Min (set (ts @ [t])) = min (Min (set ts)) t" "Max (set (ts @ [t])) = max (Max (set ts)) t"
      using False by (simp_all add: min.commute max.commute)
    moreover have "0 \<le> M2" using m(4) mean_step(3) [OF t m(1) n2] by (simp add: M2_def mu_def dbl_nonneg)
    ultimately show ?thesis using mean_step(1,2) [OF t m(1) n2] m(2,3) unfolding mu_def [symmetric] by auto
  qed
  then show ?thesis using s(1) by (simp add: s' stats_of_def t_def [symmetric] n_def mu_def dbl_in)
qed

text \<open>
  The polls of a run: the clock is started at one time and read at the next poll.
\<close>

definition measure_poll :: "timeval \<Rightarrow> timeval \<Rightarrow> selstats \<Rightarrow> selstats" where
  "measure_poll st tnow s =
     events_network_selectstats_select (Some tnow) (events_network_selectstats_startclock (Some st) s)"

lemma measure_polls:
  "stats_of s ts \<Longrightarrow> \<not> ss_running s \<Longrightarrow> length ts + length ps \<le> 2 ^ 53 \<Longrightarrow>
   stats_of (fold (\<lambda>(st, tnow). measure_poll st tnow) ps s) (ts @ map (\<lambda>(st, tnow). timeval_diff st tnow) ps)"
proof (induction ps arbitrary: s ts)
  case (Cons p ps)
  obtain st tnow where p: "p = (st, tnow)" by force
  let ?s = "events_network_selectstats_startclock (Some st) s"
  have s: "stats_of ?s ts" "ss_running ?s" "ss_st ?s = st"
    using Cons.prems by (auto simp: events_network_selectstats_startclock_def stats_of_def)
  have "\<not> ss_running (measure_poll st tnow s)"
    using s(2) by (simp add: measure_poll_def events_network_selectstats_select_def Let_def)
  moreover have "stats_of (measure_poll st tnow s) (ts @ [timeval_diff st tnow])"
    using select_stats [OF s(1,2), of tnow] Cons.prems(3) s(3) by (simp add: measure_poll_def)
  ultimately show ?case using Cons.IH [of "measure_poll st tnow s" "ts @ [timeval_diff st tnow]"] Cons.prems(3) p by simp
qed simp



end
