(* ===== verification/Events_Network.thy ===== *)
theory Events_Network
  imports Event_Record Select_Stats
begin

text \<open>
  Socket events, from \<open>events/events_network.c\<close>: a list of sockets with the event records for
  reading and writing, and the array of poll structures, which point at each other.  The socket
  list is an elastic array of records, taken here at its interface (a list whose growth can
  fail); the poll array is a block of \<open>fds_alloc\<close> structures.  An access outside of either is a
  fault.
\<close>

section \<open>State and operations\<close>

definition POLLIN :: u16 where "POLLIN = 0x0001"
definition POLLOUT :: u16 where "POLLOUT = 0x0004"
definition POLLERR :: u16 where "POLLERR = 0x0008"
definition POLLHUP :: u16 where "POLLHUP = 0x0010"
definition POLLNVAL :: u16 where "POLLNVAL = 0x0020"

definition INT_MAX :: int where "INT_MAX = 2 ^ 31 - 1"

record socketrec =
  sr_reader :: ptr
  sr_writer :: ptr
  sr_pollpos :: nat

record pollfd =
  pf_fd :: nat
  pf_events :: u16
  pf_revents :: u16

record evnet =
  en_S :: "socketrec list option"
  en_fds :: "pollfd list"
  en_alloc :: nat
  en_nfds :: nat
  en_scan :: nat
  en_stats :: selstats

definition evnet0 :: evnet where
  "evnet0 = \<lparr>en_S = None, en_fds = [], en_alloc = 0, en_nfds = 0, en_scan = 0, en_stats = selstats0\<rparr>"

text \<open>
  The answers of one call: the allocations of \<open>init\<close> (the socket list, \<open>atexit\<close>, the poll
  array), the growth of the socket list, the reallocation of the poll array, the uninitialised
  contents of new memory, the event record pool, and the clock of the statistics.
\<close>

record en_ans =
  na_list :: bool
  na_atexit :: bool
  na_fds :: bool
  na_grow :: bool
  na_realloc :: bool
  na_junk :: "nat \<Rightarrow> pollfd"
  na_sjunk :: "nat \<Rightarrow> socketrec"
  na_r :: ptr
  na_clock :: "timeval option"

datatype net_errno = E_OK | EEXIST | ENOENT | ENOMEM | E_OTHER

definition sock_get :: "evnet \<Rightarrow> nat \<Rightarrow> socketrec option" where
  "sock_get N i = do { S \<leftarrow> en_S N; if i < length S then Some (S ! i) else None }"

definition sock_set :: "evnet \<Rightarrow> nat \<Rightarrow> socketrec \<Rightarrow> evnet option" where
  "sock_set N i x = do { S \<leftarrow> en_S N; if i < length S then Some (N\<lparr>en_S := Some (S[i := x])\<rparr>) else None }"

definition fds_get :: "evnet \<Rightarrow> nat \<Rightarrow> pollfd option" where
  "fds_get N j = (if j < length (en_fds N) then Some (en_fds N ! j) else None)"

definition fds_set :: "evnet \<Rightarrow> nat \<Rightarrow> pollfd \<Rightarrow> evnet option" where
  "fds_set N j x = (if j < length (en_fds N) then Some (N\<lparr>en_fds := (en_fds N)[j := x]\<rparr>) else None)"

definition net_init :: "en_ans \<Rightarrow> evnet \<Rightarrow> evnet \<times> bool" where
  "net_init an N =
     (case en_S N of
        Some S \<Rightarrow> (N, True)
      | None \<Rightarrow>
          (if \<not> na_list an then (N, False)
           else if \<not> na_atexit an then (N, False)
           else let N = N\<lparr>en_nfds := 0, en_scan := 0, en_alloc := 16\<rparr> in
             if \<not> na_fds an then (N\<lparr>en_fds := []\<rparr>, False)
             else (N\<lparr>en_S := Some [], en_fds := map (na_junk an) [0..<16]\<rparr>, True)))"

text \<open>Grow the socket list and initialize new records; a \<open>struct socketrec\<close> has 24 bytes.\<close>

fun grow_fill :: "nat \<Rightarrow> nat \<Rightarrow> evnet \<Rightarrow> evnet option" where
  "grow_fill i 0 N = Some N"
| "grow_fill i (Suc n) N = do {
     N \<leftarrow> sock_set N i \<lparr>sr_reader = 0, sr_writer = 0, sr_pollpos = SIZE_MAX\<rparr>;
     grow_fill (i + 1) n N
   }"

definition growsocketlist :: "en_ans \<Rightarrow> nat \<Rightarrow> evnet \<Rightarrow> (evnet \<times> bool) option" where
  "growsocketlist an nrec N = do {
     S \<leftarrow> en_S N;
     let i = length S;
     if \<not> na_grow an \<or> nrec > SIZE_MAX div 24 then Some (N, False)
     else do {
       let N = N\<lparr>en_S := Some (take nrec S @ map (na_sjunk an) [i..<nrec])\<rparr>;
       N \<leftarrow> grow_fill i (nrec - i) N;
       Some (N, True)
     }
   }"

text \<open>A \<open>struct pollfd\<close> has 8 bytes.\<close>

definition growpollfd :: "en_ans \<Rightarrow> nat \<Rightarrow> evnet \<Rightarrow> (evnet \<times> bool) option" where
  "growpollfd an fd N = do {
     s \<leftarrow> sock_get N fd;
     cassert (sr_pollpos s = SIZE_MAX);
     cassert (en_alloc N \<ge> 16);
     let full = (en_alloc N = en_nfds N);
     let new_alloc = szmul (en_alloc N) 2;
     if full \<and> (new_alloc > SIZE_MAX div 8 \<or> \<not> na_realloc an) then Some (N, False)
     else do {
       let N = (if full then N\<lparr>en_fds := take new_alloc (en_fds N) @ map (na_junk an) [length (en_fds N)..<new_alloc],
                               en_alloc := new_alloc\<rparr> else N);
       cassert (en_nfds N < en_alloc N);
       cassert (int fd < INT_MAX);
       N \<leftarrow> fds_set N (en_nfds N) \<lparr>pf_fd = fd, pf_events = 0, pf_revents = 0\<rparr>;
       s \<leftarrow> sock_get N fd;
       N \<leftarrow> sock_set N fd (s\<lparr>sr_pollpos := en_nfds N\<rparr>);
       Some (N\<lparr>en_nfds := szadd (en_nfds N) 1\<rparr>, True)
     }
   }"

definition clearbit :: "nat \<Rightarrow> u16 \<Rightarrow> evnet \<Rightarrow> evnet option" where
  "clearbit pollpos b N = do {
     p \<leftarrow> fds_get N pollpos;
     let p = p\<lparr>pf_events := pf_events p AND NOT b, pf_revents := pf_revents p AND NOT b\<rparr>;
     N \<leftarrow> fds_set N pollpos p;
     if pf_events p = 0 then do {
       s \<leftarrow> sock_get N (pf_fd p);
       N \<leftarrow> sock_set N (pf_fd p) (s\<lparr>sr_pollpos := SIZE_MAX\<rparr>);
       N \<leftarrow> (if pollpos \<noteq> szsub (en_nfds N) 1 then do {
               q \<leftarrow> fds_get N (szsub (en_nfds N) 1);
               N \<leftarrow> fds_set N pollpos q;
               s \<leftarrow> sock_get N (pf_fd q);
               sock_set N (pf_fd q) (s\<lparr>sr_pollpos := pollpos\<rparr>)
             } else Some N);
       Some (N\<lparr>en_nfds := szsub (en_nfds N) 1\<rparr>)
     }
     else Some N
   }"

text \<open>The event pointer of a socket and an operation (0 is reading, 1 writing).\<close>

definition sr_op :: "int \<Rightarrow> socketrec \<Rightarrow> ptr" where
  "sr_op op s = (if op = 0 then sr_reader s else sr_writer s)"

definition sr_set_op :: "int \<Rightarrow> ptr \<Rightarrow> socketrec \<Rightarrow> socketrec" where
  "sr_set_op op r s = (if op = 0 then s\<lparr>sr_reader := r\<rparr> else s\<lparr>sr_writer := r\<rparr>)"

definition op_bit :: "int \<Rightarrow> u16" where
  "op_bit op = (if op = 0 then POLLIN else POLLOUT)"

text \<open>The part of \<open>events_network_register\<close> after the socket list is long enough.\<close>

definition register_sock ::
  "en_ans \<Rightarrow> nat \<Rightarrow> ptr \<Rightarrow> nat \<Rightarrow> int \<Rightarrow> evnet \<Rightarrow> ermem \<Rightarrow> (evnet \<times> ermem \<times> int \<times> net_errno) option" where
  "register_sock an func cookie fd op N em = do {
     x \<leftarrow> sock_get N fd;
     if sr_op op x \<noteq> 0 then Some (N, em, -1, EEXIST)
     else do {
       let (em, r) = events_mkrec (na_r an) func cookie em;
       N \<leftarrow> sock_set N fd (sr_set_op op r x);
       if r = 0 then Some (N, em, -1, ENOMEM)
       else do {
         let N = (if en_nfds N = 0
                  then N\<lparr>en_stats := events_network_selectstats_startclock (na_clock an) (en_stats N)\<rparr> else N);
         x \<leftarrow> sock_get N fd;
         (N, ok) \<leftarrow> (if sr_pollpos x = SIZE_MAX then growpollfd an fd N else Some (N, True));
         if \<not> ok then do {
           x \<leftarrow> sock_get N fd;
           em \<leftarrow> events_freerec (sr_op op x) em;
           N \<leftarrow> sock_set N fd (sr_set_op op 0 x);
           Some (N, em, -1, ENOMEM)
         }
         else do {
           x \<leftarrow> sock_get N fd;
           p \<leftarrow> fds_get N (sr_pollpos x);
           N \<leftarrow> fds_set N (sr_pollpos x) (p\<lparr>pf_events := pf_events p OR op_bit op\<rparr>);
           Some (N, em, 0, E_OK)
         }
       }
     }
   }"

definition events_network_register ::
  "en_ans \<Rightarrow> nat \<Rightarrow> ptr \<Rightarrow> int \<Rightarrow> int \<Rightarrow> evnet \<Rightarrow> ermem \<Rightarrow> (evnet \<times> ermem \<times> int \<times> net_errno) option" where
  "events_network_register an func cookie s op N em =
     (let (N, ok) = net_init an N in
      if \<not> ok then Some (N, em, -1, E_OTHER)
      else if s < 0 then Some (N, em, -1, E_OTHER)
      else if op \<noteq> 0 \<and> op \<noteq> 1 then Some (N, em, -1, E_OTHER)
      else do {
        let fd = nat s;
        S \<leftarrow> en_S N;
        (N, ok) \<leftarrow> (if fd \<ge> length S then growsocketlist an (fd + 1) N else Some (N, True));
        if \<not> ok then Some (N, em, -1, ENOMEM)
        else register_sock an func cookie fd op N em
      })"

definition events_network_cancel ::
  "en_ans \<Rightarrow> int \<Rightarrow> int \<Rightarrow> evnet \<Rightarrow> ermem \<Rightarrow> (evnet \<times> ermem \<times> int \<times> net_errno) option" where
  "events_network_cancel an s op N em =
     (let (N, ok) = net_init an N in
      if \<not> ok then Some (N, em, -1, E_OTHER)
      else if s < 0 then Some (N, em, -1, E_OTHER)
      else if op \<noteq> 0 \<and> op \<noteq> 1 then Some (N, em, -1, E_OTHER)
      else do {
        let fd = nat s;
        S \<leftarrow> en_S N;
        if fd \<ge> length S then Some (N, em, -1, ENOENT)
        else do {
          x \<leftarrow> sock_get N fd;
          if sr_op op x = 0 then Some (N, em, -1, ENOENT)
          else do {
            em \<leftarrow> events_freerec (sr_op op x) em;
            N \<leftarrow> sock_set N fd (sr_set_op op 0 x);
            N \<leftarrow> clearbit (sr_pollpos x) (op_bit op) N;
            let N = (if en_nfds N = 0
                     then N\<lparr>en_stats := events_network_selectstats_stopclock (en_stats N)\<rparr> else N);
            Some (N, em, 0, E_OK)
          }
        }
      })"

text \<open>
  \<open>poll\<close> reports events, is interrupted by a signal (with the value of \<open>*interrupt_requested\<close>
  that is read then) or fails.  The loop runs through the answers; when they end before it does,
  it is still waiting.
\<close>

datatype poll_ans = PollReady "nat \<Rightarrow> u16" | PollEintr bool | PollFail

fun poll_loop :: "poll_ans list \<Rightarrow> evnet \<Rightarrow> (evnet \<times> bool) option" where
  "poll_loop [] N = None"
| "poll_loop (PollReady rv # as) N =
     Some (N\<lparr>en_fds := map (\<lambda>j. if j < en_nfds N then (en_fds N ! j)\<lparr>pf_revents := rv j\<rparr> else en_fds N ! j)
                          [0..<length (en_fds N)]\<rparr>, True)"
| "poll_loop (PollEintr intr # as) N = (if intr then Some (N, True) else poll_loop as N)"
| "poll_loop (PollFail # as) N = Some (N, False)"

text \<open>The time-out that is passed to \<open>poll\<close>, in milliseconds.\<close>

definition poll_timeout :: "timeval option \<Rightarrow> int" where
  "poll_timeout tv =
     (case tv of None \<Rightarrow> -1
      | Some tv \<Rightarrow>
          (if tv_sec tv \<ge> INT_MAX div 1000 then INT_MAX
           else tv_sec tv * 1000 + (tv_usec tv + 999) div 1000))"

definition events_network_select ::
  "en_ans \<Rightarrow> (int \<Rightarrow> poll_ans list) \<Rightarrow> timeval option \<Rightarrow> evnet \<Rightarrow> (evnet \<times> int) option" where
  "events_network_select an polls tv N =
     (let (N, ok) = net_init an N in
      if \<not> ok then Some (N, -1)
      else do {
        let N = N\<lparr>en_stats := events_network_selectstats_select (na_clock an) (en_stats N)\<rparr>;
        (N, ok) \<leftarrow> poll_loop (polls (poll_timeout tv)) N;
        if \<not> ok then Some (N, -1)
        else do {
          let N = (if en_nfds N > 0
                   then N\<lparr>en_stats := events_network_selectstats_startclock (na_clock an) (en_stats N)\<rparr> else N);
          Some (N\<lparr>en_scan := szsub (en_nfds N) 1\<rparr>, 0)
        }
      })"

text \<open>The scan of \<open>events_network_get\<close>.\<close>

definition get_hup :: "pollfd \<Rightarrow> pollfd" where
  "get_hup p =
     (if pf_revents p AND (POLLERR OR POLLHUP) \<noteq> 0
      then p\<lparr>pf_revents := (pf_revents p AND NOT (POLLERR OR POLLHUP)) OR pf_events p\<rparr> else p)"

text \<open>
  The loop; the decrement of a position 0 gives \<open>SIZE_MAX\<close>, where the loop ends.
\<close>

function net_scan :: "evnet \<Rightarrow> (evnet \<times> ptr) option" where
  "net_scan N =
     (if \<not> en_scan N < en_nfds N then Some (N, 0)
      else do {
        p \<leftarrow> fds_get N (en_scan N);
        cassert (pf_revents p AND POLLNVAL = 0);
        let p = get_hup p;
        N \<leftarrow> fds_set N (en_scan N) p;
        if pf_revents p AND POLLIN \<noteq> 0 then do {
          x \<leftarrow> sock_get N (pf_fd p);
          N \<leftarrow> sock_set N (pf_fd p) (x\<lparr>sr_reader := 0\<rparr>);
          N \<leftarrow> clearbit (en_scan N) POLLIN N;
          Some (N, sr_reader x)
        }
        else if pf_revents p AND POLLOUT \<noteq> 0 then do {
          x \<leftarrow> sock_get N (pf_fd p);
          N \<leftarrow> sock_set N (pf_fd p) (x\<lparr>sr_writer := 0\<rparr>);
          N \<leftarrow> clearbit (en_scan N) POLLOUT N;
          Some (N, sr_writer x)
        }
        else if en_scan N = 0 then Some (N\<lparr>en_scan := SIZE_MAX\<rparr>, 0)
        else net_scan (N\<lparr>en_scan := en_scan N - 1\<rparr>)
      })"
  by pat_completeness auto
termination by (relation "measure en_scan") (auto simp: fds_set_def split: if_splits)

declare net_scan.simps [simp del]

definition events_network_get :: "evnet \<Rightarrow> (evnet \<times> ptr) option" where
  "events_network_get N = do {
     (N, r) \<leftarrow> net_scan N;
     Some (if r \<noteq> 0 \<and> en_nfds N = 0
           then N\<lparr>en_stats := events_network_selectstats_stopclock (en_stats N)\<rparr> else N, r)
   }"

definition events_network_shutdown :: "evnet \<Rightarrow> evnet" where
  "events_network_shutdown N =
     (if en_S N = None then N
      else if en_nfds N > 0 then N
      else N\<lparr>en_fds := [], en_alloc := 0, en_S := None\<rparr>)"


section \<open>Masks\<close>

lemma POLL_exp: "POLLIN = 2 ^ 0" "POLLOUT = 2 ^ 2" "POLLERR = 2 ^ 3" "POLLHUP = 2 ^ 4" "POLLNVAL = 2 ^ 5"
  by (simp_all add: POLLIN_def POLLOUT_def POLLERR_def POLLHUP_def POLLNVAL_def)

lemma bit_POLL [simp]:
  "bit POLLIN n \<longleftrightarrow> n = 0" "bit POLLOUT n \<longleftrightarrow> n = 2" "bit POLLERR n \<longleftrightarrow> n = 3" "bit POLLHUP n \<longleftrightarrow> n = 4"
  "bit POLLNVAL n \<longleftrightarrow> n = 5"
  unfolding POLL_exp by (auto simp only: bit_exp_iff possible_bit_word) simp_all

lemma and_POLL [simp]:
  "w AND POLLIN = 0 \<longleftrightarrow> \<not> bit w 0" "w AND POLLOUT = 0 \<longleftrightarrow> \<not> bit w 2" "w AND POLLNVAL = 0 \<longleftrightarrow> \<not> bit w 5"
  unfolding POLL_exp by (simp_all only: and_exp_eq_0_iff_not_bit)

lemma bit_POLL_le: "bit (w :: u16) n \<Longrightarrow> n < 16"
  using bit_imp_le_length [of w n] by simp

lemma word_zero_iff: "w = (0 :: u16) \<longleftrightarrow> (\<forall>n. \<not> bit w n)"
  by (auto simp: bit_eq_iff dest: bit_POLL_le)

lemma bit_not16: "bit (NOT w) n \<longleftrightarrow> n < 16 \<and> \<not> bit (w :: u16) n"
  by (auto simp: bit_not_iff possible_bit_word)

lemma and_ERR_HUP [simp]: "w AND (POLLERR OR POLLHUP) = 0 \<longleftrightarrow> \<not> bit w 3 \<and> \<not> bit w 4"
  by (simp add: word_zero_iff bit_and_iff bit_or_iff) blast

text \<open>The events a socket wants, and the events that may be reported for a mask.\<close>

definition want_mask :: "socketrec \<Rightarrow> u16" where
  "want_mask x = (if sr_reader x \<noteq> 0 then POLLIN else 0) OR (if sr_writer x \<noteq> 0 then POLLOUT else 0)"

definition rev_ok :: "u16 \<Rightarrow> u16 \<Rightarrow> bool" where
  "rev_ok rv ev \<longleftrightarrow> rv AND NOT (ev OR POLLERR OR POLLHUP) = 0"

lemma bit_want_mask: "bit (want_mask x) n \<longleftrightarrow> n = 0 \<and> sr_reader x \<noteq> 0 \<or> n = 2 \<and> sr_writer x \<noteq> 0"
  by (auto simp: want_mask_def bit_simps)

lemma want_mask_0 [simp]: "want_mask x = 0 \<longleftrightarrow> sr_reader x = 0 \<and> sr_writer x = 0"
  unfolding word_zero_iff bit_want_mask by blast

lemma rev_ok_bits: "rev_ok rv ev \<longleftrightarrow> (\<forall>n. bit rv n \<longrightarrow> bit ev n \<or> n = 3 \<or> n = 4)"
  by (auto simp: rev_ok_def word_zero_iff bit_or_iff bit_and_iff bit_not16 dest: bit_POLL_le)

lemma rev_ok_0 [simp]: "rev_ok 0 ev"
  by (simp add: rev_ok_def)

lemma rev_ok_or: "rev_ok rv ev \<Longrightarrow> rev_ok rv (ev OR b)"
  by (auto simp: rev_ok_bits bit_or_iff)

lemma rev_ok_clear: "rev_ok rv ev \<Longrightarrow> rev_ok (rv AND NOT b) (ev AND NOT b)"
  by (auto simp: rev_ok_bits bit_and_iff bit_not16)

lemma rev_ok_nval: "rev_ok rv (want_mask x) \<Longrightarrow> \<not> bit rv 5"
  by (auto simp: rev_ok_bits bit_want_mask)

definition is_op :: "int \<Rightarrow> bool" where
  "is_op op \<longleftrightarrow> op = 0 \<or> op = 1"

lemma want_mask_add: "is_op op \<Longrightarrow> r \<noteq> 0 \<Longrightarrow> want_mask (sr_set_op op r x) = want_mask x OR op_bit op"
  by (rule bit_word_eqI) (auto simp: is_op_def sr_set_op_def op_bit_def bit_want_mask bit_or_iff)

lemma want_mask_del: "is_op op \<Longrightarrow> want_mask (sr_set_op op 0 x) = want_mask x AND NOT (op_bit op)"
  by (rule bit_word_eqI) (auto simp: is_op_def sr_set_op_def op_bit_def bit_want_mask bit_and_iff bit_not16)

lemma want_mask_pollpos [simp]: "want_mask (x\<lparr>sr_pollpos := j\<rparr>) = want_mask x"
  by (simp add: want_mask_def)

lemma sr_set_op_simps [simp]:
  "sr_pollpos (sr_set_op op r x) = sr_pollpos x"
  "sr_op op (sr_set_op op r x) = r"
  "is_op op \<Longrightarrow> is_op op' \<Longrightarrow> op' \<noteq> op \<Longrightarrow> sr_op op' (sr_set_op op r x) = sr_op op' x"
  "sr_op op (x\<lparr>sr_pollpos := j\<rparr>) = sr_op op x"
  by (auto simp: sr_set_op_def sr_op_def is_op_def)


section \<open>Invariant\<close>

text \<open>
  The documented invariants 1 to 5 on the socket list, the poll structures and their number.  A
  socket outside of the poll array has no events registered; one in the array points at the
  structure with its number, whose mask is what it wants, and which reports nothing else.
\<close>

definition pfd_ok :: "socketrec \<Rightarrow> pollfd \<Rightarrow> bool" where
  "pfd_ok x p \<longleftrightarrow> pf_events p = want_mask x \<and> pf_events p \<noteq> 0 \<and> rev_ok (pf_revents p) (pf_events p)"

lemma pfd_ok_pollpos [simp]: "pfd_ok (x\<lparr>sr_pollpos := j\<rparr>) p = pfd_ok x p"
  by (simp add: pfd_ok_def)

definition sock_ok :: "socketrec list \<Rightarrow> pollfd list \<Rightarrow> nat \<Rightarrow> nat \<Rightarrow> bool" where
  "sock_ok S fds n i \<longleftrightarrow>
     (if sr_pollpos (S ! i) = SIZE_MAX then sr_reader (S ! i) = 0 \<and> sr_writer (S ! i) = 0
      else sr_pollpos (S ! i) < n \<and> pf_fd (fds ! sr_pollpos (S ! i)) = i \<and> pfd_ok (S ! i) (fds ! sr_pollpos (S ! i)))"

definition net_ok :: "socketrec list \<Rightarrow> pollfd list \<Rightarrow> nat \<Rightarrow> bool" where
  "net_ok S fds n \<longleftrightarrow> n \<le> length fds \<and> n < SIZE_MAX \<and> (\<forall>i < length S. sock_ok S fds n i) \<and>
     (\<forall>j < n. pf_fd (fds ! j) < length S \<and> sr_pollpos (S ! pf_fd (fds ! j)) = j)"

lemma net_ok_fd:
  assumes "net_ok S fds n" "j < n"
  shows "pf_fd (fds ! j) < length S" "sr_pollpos (S ! pf_fd (fds ! j)) = j" "pfd_ok (S ! pf_fd (fds ! j)) (fds ! j)"
proof -
  show *: "pf_fd (fds ! j) < length S" "sr_pollpos (S ! pf_fd (fds ! j)) = j" using assms by (auto simp: net_ok_def)
  from assms have "j \<noteq> SIZE_MAX" by (auto simp: net_ok_def)
  moreover from assms * have "sock_ok S fds n (pf_fd (fds ! j))" by (simp add: net_ok_def)
  ultimately show "pfd_ok (S ! pf_fd (fds ! j)) (fds ! j)" using * by (simp add: sock_ok_def)
qed

lemma net_ok_sock:
  assumes "net_ok S fds n" "i < length S" "sr_pollpos (S ! i) \<noteq> SIZE_MAX"
  shows "sr_pollpos (S ! i) < n" "pf_fd (fds ! sr_pollpos (S ! i)) = i" "pfd_ok (S ! i) (fds ! sr_pollpos (S ! i))"
  using assms by (auto simp: net_ok_def sock_ok_def)

lemma net_ok_idle:
  assumes "net_ok S fds n" "i < length S"
  shows "sr_pollpos (S ! i) = SIZE_MAX \<longleftrightarrow> sr_reader (S ! i) = 0 \<and> sr_writer (S ! i) = 0"
proof (cases "sr_pollpos (S ! i) = SIZE_MAX")
  case True
  with assms show ?thesis by (simp add: net_ok_def sock_ok_def)
next
  case False
  from net_ok_sock(3) [OF assms False] have "want_mask (S ! i) \<noteq> 0" unfolding pfd_ok_def by metis
  with False show ?thesis by auto
qed

lemma net_ok_bounds: "net_ok S fds n \<Longrightarrow> n \<le> length fds \<and> n < SIZE_MAX"
  by (simp add: net_ok_def)

text \<open>Two sockets never share a poll structure.\<close>

lemma net_ok_inj:
  assumes "net_ok S fds n" "i < length S" "k < length S" "sr_pollpos (S ! i) < n" "k \<noteq> i"
  shows "sr_pollpos (S ! k) \<noteq> sr_pollpos (S ! i)"
proof
  assume eq: "sr_pollpos (S ! k) = sr_pollpos (S ! i)"
  have "sr_pollpos (S ! i) \<noteq> SIZE_MAX" using assms(1,4) net_ok_bounds by fastforce
  with net_ok_sock(2) [OF assms(1,2)] net_ok_sock(2) [OF assms(1,3)] eq have "k = i" by simp
  with assms(5) show False by simp
qed

lemma net_ok_not_last:
  assumes ok: "net_ok S fds n" and l: "l < length S" "sr_pollpos (S ! l) \<noteq> SIZE_MAX" and j: "j < n"
    and ne: "l \<noteq> pf_fd (fds ! j)" "l \<noteq> pf_fd (fds ! (n - 1))"
  shows "sr_pollpos (S ! l) < n - 1" "sr_pollpos (S ! l) \<noteq> j"
proof -
  note p = net_ok_sock(1,2) [OF ok l]
  from p(2) ne(1) show "sr_pollpos (S ! l) \<noteq> j" by metis
  from p(2) ne(2) have "sr_pollpos (S ! l) \<noteq> n - 1" by metis
  with p(1) show "sr_pollpos (S ! l) < n - 1" by simp
qed

lemma net_ok_fd_inj:
  assumes "net_ok S fds n" "j < n" "l < n"
  shows "pf_fd (fds ! l) = pf_fd (fds ! j) \<longleftrightarrow> j = l"
  using net_ok_fd(2) [OF assms(1,2)] net_ok_fd(2) [OF assms(1,3)] by metis

text \<open>A change of one socket and of its poll structure.\<close>

lemma net_ok_update:
  assumes ok: "net_ok S fds n" and i: "i < length S" "sr_pollpos (S ! i) = j" "j < n"
    and x: "sr_pollpos x = j" "pf_fd p = i" "pfd_ok x p"
  shows "net_ok (S[i := x]) (fds[j := p]) n"
proof -
  have len: "n \<le> length fds" "n < SIZE_MAX" using ok by (auto simp: net_ok_def)
  have "sock_ok (S[i := x]) (fds[j := p]) n k" if k: "k < length S" for k
  proof (cases "k = i")
    case True
    with i x len show ?thesis by (simp add: sock_ok_def)
  next
    case False
    with ok k i have "sock_ok S fds n k" by (simp add: net_ok_def)
    moreover have "sr_pollpos (S ! k) \<noteq> j" using net_ok_inj [OF ok i(1) k] i False by simp
    ultimately show ?thesis using False by (auto simp: sock_ok_def)
  qed
  moreover have "pf_fd (fds[j := p] ! j') < length (S[i := x]) \<and> sr_pollpos (S[i := x] ! pf_fd (fds[j := p] ! j')) = j'"
    if "j' < n" for j'
    using net_ok_fd(1,2) [OF ok that] i x len that by (cases "j' = j") (auto simp: nth_list_update)
  ultimately show ?thesis using len by (simp add: net_ok_def)
qed


text \<open>Adding a socket at the end of the poll array, and taking one out of it.\<close>

lemma net_ok_append:
  assumes ok: "net_ok S fds n" and i: "i < length S" "sr_pollpos (S ! i) = SIZE_MAX"
    and n: "n < length fds" "n + 1 < SIZE_MAX"
    and x: "sr_pollpos x = n" "pf_fd p = i" "pfd_ok x p"
  shows "net_ok (S[i := x]) (fds[n := p]) (n + 1)"
proof -
  have "sock_ok (S[i := x]) (fds[n := p]) (n + 1) k" if k: "k < length S" for k
  proof (cases "k = i")
    case True
    with i x n show ?thesis by (simp add: sock_ok_def)
  next
    case False
    with ok k have "sock_ok S fds n k" by (simp add: net_ok_def)
    with False show ?thesis by (auto simp: sock_ok_def)
  qed
  moreover have "pf_fd (fds[n := p] ! j) < length (S[i := x]) \<and> sr_pollpos (S[i := x] ! pf_fd (fds[n := p] ! j)) = j"
    if j: "j < n + 1" for j
  proof (cases "j = n")
    case False
    with j have "j < n" by simp
    with net_ok_fd(1,2) [OF ok this] i n show ?thesis by (auto simp: nth_list_update)
  qed (use n i x in auto)
  ultimately show ?thesis using n by (simp add: net_ok_def)
qed

lemma net_ok_remove:
  assumes ok: "net_ok S fds n" and j: "j < n" and q: "q = fds ! (n - 1)" and k: "k = pf_fd q" and i: "i = pf_fd (fds ! j)"
    and x: "sr_pollpos x = SIZE_MAX" "sr_reader x = 0" "sr_writer x = 0"
    and fds': "\<And>l. l < n - 1 \<Longrightarrow> fds' ! l = (if l = j then q else fds ! l)" "length fds' = length fds"
    and S': "S' = (if j = n - 1 then S[i := x] else S[i := x, k := (S ! k)\<lparr>sr_pollpos := j\<rparr>])"
  shows "net_ok S' fds' (n - 1)"
proof -
  have len: "n \<le> length fds" "n < SIZE_MAX" using ok by (auto simp: net_ok_def)
  have n: "n - 1 < n" using j by simp
  note last = net_ok_fd [OF ok n, folded q, folded k]
  note jth = net_ok_fd [OF ok j, folded i]
  have ki: "k = i \<longleftrightarrow> j = n - 1" unfolding k i q by (rule net_ok_fd_inj [OF ok j n])
  have S'_nth: "S' ! l = (if l = i then x else if l = k then (S ! k)\<lparr>sr_pollpos := j\<rparr> else S ! l)" if "l < length S" for l
    using that ki S' jth(1) last(1) by (auto simp: nth_list_update)
  have other: "sr_pollpos (S ! l) < n - 1 \<and> sr_pollpos (S ! l) \<noteq> j"
    if "l < length S" "sr_pollpos (S ! l) \<noteq> SIZE_MAX" "l \<noteq> i" "l \<noteq> k" for l
    using net_ok_not_last [OF ok that(1,2) j] that(3,4) i k q by simp
  have "sock_ok S' fds' (n - 1) l" if l: "l < length S" for l
  proof -
    consider "l = i" | "l = k" "l \<noteq> i" | "l \<noteq> i" "l \<noteq> k" by blast
    then show ?thesis
    proof cases
      case 1
      with S'_nth [OF l] x show ?thesis by (simp add: sock_ok_def)
    next
      case 2
      with ki j have "j < n - 1" "j \<noteq> SIZE_MAX" using len by auto
      with 2 S'_nth [OF l] last(3) k fds' len show ?thesis by (simp add: sock_ok_def)
    next
      case 3
      from ok l have "sock_ok S fds n l" by (simp add: net_ok_def)
      with 3 S'_nth [OF l] other [OF l _ 3] fds'(1) show ?thesis by (auto simp: sock_ok_def)
    qed
  qed
  moreover have "pf_fd (fds' ! l) < length S' \<and> sr_pollpos (S' ! pf_fd (fds' ! l)) = l" if l: "l < n - 1" for l
  proof (cases "l = j")
    case True
    with l ki have "k \<noteq> i" by auto
    with True l fds'(1) [OF l] last(1) k S'_nth [OF last(1)] S' show ?thesis by auto
  next
    case False
    from l have l': "l < n" by simp
    note m = net_ok_fd(1,2) [OF ok l']
    have "pf_fd (fds ! l) \<noteq> i" "pf_fd (fds ! l) \<noteq> k" using m(2) jth(2) last(2) False l by auto
    with False fds'(1) [OF l] m S'_nth [OF m(1)] S' show ?thesis by auto
  qed
  ultimately show ?thesis using len fds'(2) S' by (auto simp: net_ok_def)
qed

lemma net_ok_cong: "net_ok S fds n \<Longrightarrow> n \<le> length fds' \<Longrightarrow> (\<And>j. j < n \<Longrightarrow> fds' ! j = fds ! j) \<Longrightarrow> net_ok S fds' n"
  by (auto simp: net_ok_def sock_ok_def)

lemma net_ok_grow:
  assumes "net_ok S fds n"
  shows "net_ok (S @ replicate m \<lparr>sr_reader = 0, sr_writer = 0, sr_pollpos = SIZE_MAX\<rparr>) fds n"
  using assms by (auto simp: net_ok_def sock_ok_def nth_append)


section \<open>The abstract state\<close>

text \<open>
  For each socket the two event records (0 for none) and the events that \<open>poll\<close> reported and
  that have not been handed out.
\<close>

type_synonym netabs = "nat \<Rightarrow> ptr \<times> ptr \<times> u16"

definition sock_view :: "socketrec list \<Rightarrow> pollfd list \<Rightarrow> netabs" where
  "sock_view S fds i =
     (if i < length S
      then (sr_reader (S ! i), sr_writer (S ! i),
            if sr_pollpos (S ! i) = SIZE_MAX then 0 else pf_revents (fds ! sr_pollpos (S ! i)))
      else (0, 0, 0))"

definition net_abs :: "evnet \<Rightarrow> netabs" where
  "net_abs N = (case en_S N of None \<Rightarrow> (\<lambda>_. (0, 0, 0)) | Some S \<Rightarrow> sock_view S (en_fds N))"

definition scan_ok :: "pollfd list \<Rightarrow> nat \<Rightarrow> nat \<Rightarrow> bool" where
  "scan_ok fds n scan \<longleftrightarrow> (\<forall>j < n. pf_revents (fds ! j) \<noteq> 0 \<longrightarrow> j \<le> scan)"

definition net_inv :: "evnet \<Rightarrow> bool" where
  "net_inv N \<longleftrightarrow>
     (case en_S N of
        None \<Rightarrow> en_nfds N = 0
      | Some S \<Rightarrow> 16 \<le> en_alloc N \<and> en_alloc N \<le> SIZE_MAX div 8 \<and> length (en_fds N) = en_alloc N \<and>
          net_ok S (en_fds N) (en_nfds N) \<and> scan_ok (en_fds N) (en_nfds N) (en_scan N))"

lemma net_inv_Some:
  "en_S N = Some S \<Longrightarrow> net_inv N \<longleftrightarrow> 16 \<le> en_alloc N \<and> en_alloc N \<le> SIZE_MAX div 8 \<and> length (en_fds N) = en_alloc N \<and>
     net_ok S (en_fds N) (en_nfds N) \<and> scan_ok (en_fds N) (en_nfds N) (en_scan N)"
  by (simp add: net_inv_def)

lemma net_abs_Some: "en_S N = Some S \<Longrightarrow> net_abs N = sock_view S (en_fds N)"
  by (simp add: net_abs_def)

lemma net_inv0: "net_inv evnet0" "net_abs evnet0 = (\<lambda>_. (0, 0, 0))"
  by (simp_all add: net_inv_def net_abs_def evnet0_def)

lemma net_stats [simp]: "net_inv (N\<lparr>en_stats := st\<rparr>) = net_inv N" "net_abs (N\<lparr>en_stats := st\<rparr>) = net_abs N"
  by (auto simp: net_inv_def net_abs_def split: option.splits)

lemma view_update:
  assumes ok: "net_ok S fds n" and i: "i < length S" "sr_pollpos (S ! i) = j" "j < n" and x: "sr_pollpos x = j"
  shows "sock_view (S[i := x]) (fds[j := p]) = (sock_view S fds)(i := (sr_reader x, sr_writer x, pf_revents p))"
proof (rule ext)
  fix k
  have len: "n \<le> length fds" "n < SIZE_MAX" using ok by (auto simp: net_ok_def)
  have "sr_pollpos (S ! k) \<noteq> j" if "k \<noteq> i" "k < length S"
    using net_ok_inj [OF ok i(1) that(2)] i that by simp
  with i x len show "sock_view (S[i := x]) (fds[j := p]) k = ((sock_view S fds)(i := (sr_reader x, sr_writer x, pf_revents p))) k"
    by (auto simp: sock_view_def)
qed

lemma view_append:
  assumes ok: "net_ok S fds n" and i: "i < length S" and n: "n < length fds" "n < SIZE_MAX" and x: "sr_pollpos x = n"
  shows "sock_view (S[i := x]) (fds[n := p]) = (sock_view S fds)(i := (sr_reader x, sr_writer x, pf_revents p))"
proof (rule ext)
  fix k
  have "sr_pollpos (S ! k) \<noteq> n" if "k < length S"
    using net_ok_sock(1) [OF ok that] n by fastforce
  with i x n show "sock_view (S[i := x]) (fds[n := p]) k = ((sock_view S fds)(i := (sr_reader x, sr_writer x, pf_revents p))) k"
    by (auto simp: sock_view_def)
qed

lemma view_remove:
  assumes ok: "net_ok S fds n" and j: "j < n" and q: "q = fds ! (n - 1)" and k: "k = pf_fd q" and i: "i = pf_fd (fds ! j)"
    and x: "sr_pollpos x = SIZE_MAX"
    and fds': "\<And>l. l < n - 1 \<Longrightarrow> fds' ! l = (if l = j then q else fds ! l)"
    and S': "S' = (if j = n - 1 then S[i := x] else S[i := x, k := (S ! k)\<lparr>sr_pollpos := j\<rparr>])"
  shows "sock_view S' fds' = (sock_view S fds)(i := (sr_reader x, sr_writer x, 0))"
proof (rule ext)
  fix l
  have len: "n \<le> length fds" "n < SIZE_MAX" using ok by (auto simp: net_ok_def)
  have n: "n - 1 < n" using j by simp
  note last = net_ok_fd [OF ok n, folded q, folded k]
  note jth = net_ok_fd [OF ok j, folded i]
  have ki: "k = i \<longleftrightarrow> j = n - 1" unfolding k i q by (rule net_ok_fd_inj [OF ok j n])
  show "sock_view S' fds' l = ((sock_view S fds)(i := (sr_reader x, sr_writer x, 0))) l"
  proof (cases "l < length S \<and> l \<noteq> i \<and> l \<noteq> k \<and> sr_pollpos (S ! l) \<noteq> SIZE_MAX")
    case True
    then have "sr_pollpos (S ! l) < n - 1 \<and> sr_pollpos (S ! l) \<noteq> j"
      using net_ok_not_last [OF ok _ _ j, of l] i k q by simp
    with True S' fds' show ?thesis by (auto simp: sock_view_def)
  next
    case False
    have "fds' ! j = q" if "j \<noteq> n - 1" using fds' [of j] that j by simp
    with False ki S' x last jth q len j show ?thesis by (auto simp: sock_view_def nth_list_update)
  qed
qed

lemma scan_ok_remove:
  assumes "scan_ok fds n scan" "j < n"
    and "\<And>l. l < n - 1 \<Longrightarrow> fds' ! l = (if l = j then fds ! (n - 1) else fds ! l)"
  shows "scan_ok fds' (n - 1) scan"
  unfolding scan_ok_def
proof (intro allI impI)
  fix l assume l: "l < n - 1" "pf_revents (fds' ! l) \<noteq> 0"
  show "l \<le> scan"
  proof (cases "l = j")
    case True
    with l assms(3) [OF l(1)] have "pf_revents (fds ! (n - 1)) \<noteq> 0" by simp
    with assms(1) l(1) have "n - 1 \<le> scan" unfolding scan_ok_def by auto
    with l(1) show ?thesis by simp
  next
    case False
    with l assms(1) assms(3) [OF l(1)] show ?thesis by (auto simp: scan_ok_def)
  qed
qed


section \<open>What the operations do\<close>

text \<open>Adding and removing an event in the abstract state.\<close>

fun view_reg :: "int \<Rightarrow> ptr \<times> ptr \<times> u16 \<Rightarrow> ptr" where
  "view_reg op (r, w, rv) = (if op = 0 then r else w)"

fun view_add :: "int \<Rightarrow> ptr \<Rightarrow> ptr \<times> ptr \<times> u16 \<Rightarrow> ptr \<times> ptr \<times> u16" where
  "view_add op e (r, w, rv) = (if op = 0 then e else r, if op = 0 then w else e, rv)"

fun view_del :: "int \<Rightarrow> ptr \<times> ptr \<times> u16 \<Rightarrow> ptr \<times> ptr \<times> u16" where
  "view_del op (r, w, rv) =
     (if op = 0 then 0 else r, if op = 0 then w else 0,
      if (if op = 0 then w else r) = 0 then 0 else rv AND NOT (op_bit op))"

lemma okp_fds_get [wp_rules]: "okp (fds_get N j) P \<longleftrightarrow> j < length (en_fds N) \<and> P (en_fds N ! j)"
  by (simp add: fds_get_def)

lemma okp_fds_set [wp_rules]:
  "okp (fds_set N j x) P \<longleftrightarrow> j < length (en_fds N) \<and> P (N\<lparr>en_fds := (en_fds N)[j := x]\<rparr>)"
  by (simp add: fds_set_def)

lemma sock_get_Some: "en_S N = Some S \<Longrightarrow> i < length S \<Longrightarrow> sock_get N i = Some (S ! i)"
  by (simp add: sock_get_def)

lemma sock_set_Some: "en_S N = Some S \<Longrightarrow> i < length S \<Longrightarrow> sock_set N i x = Some (N\<lparr>en_S := Some (S[i := x])\<rparr>)"
  by (simp add: sock_set_def)

lemma scan_ok_update:
  "scan_ok fds n scan \<Longrightarrow> (pf_revents p \<noteq> 0 \<Longrightarrow> pf_revents (fds ! j) \<noteq> 0) \<Longrightarrow> j < n \<Longrightarrow> scan_ok (fds[j := p]) n scan"
  unfolding scan_ok_def by (metis nth_list_update_eq nth_list_update_neq list_update_beyond not_le)

lemma sr_del_fields:
  "is_op op \<Longrightarrow> sr_reader (sr_set_op op 0 x) = (if op = 0 then 0 else sr_reader x)"
  "is_op op \<Longrightarrow> sr_writer (sr_set_op op 0 x) = (if op = 0 then sr_writer x else 0)"
  by (auto simp: sr_set_op_def is_op_def)

lemma clearbit_ok:
  assumes inv: "net_inv N" and S: "en_S N = Some S" and i: "i < length S" and op: "is_op op"
    and x: "x = S ! i" "sr_op op x \<noteq> 0"
  shows "okp (clearbit (sr_pollpos x) (op_bit op) (N\<lparr>en_S := Some (S[i := sr_set_op op 0 x])\<rparr>)) (\<lambda>N'.
     net_inv N' \<and> net_abs N' = (net_abs N)(i := view_del op (net_abs N i)) \<and> en_stats N' = en_stats N \<and>
     en_scan N' = en_scan N \<and> en_nfds N' \<le> en_nfds N)"
proof -
  let ?n = "en_nfds N" and ?fds = "en_fds N" and ?j = "sr_pollpos x" and ?x = "sr_set_op op 0 x"
  define p where "p = ?fds ! ?j"
  define p' where "p' = p\<lparr>pf_events := pf_events p AND NOT (op_bit op), pf_revents := pf_revents p AND NOT (op_bit op)\<rparr>"
  have ok: "net_ok S ?fds ?n" and scan: "scan_ok ?fds ?n (en_scan N)"
    and sz: "16 \<le> en_alloc N" "en_alloc N \<le> SIZE_MAX div 8" "length ?fds = en_alloc N"
    using inv net_inv_Some [OF S] by auto
  have jm: "?j \<noteq> SIZE_MAX" using net_ok_idle [OF ok i] x by (auto simp: sr_op_def split: if_splits)
  note j = net_ok_sock [OF ok i, folded x(1), OF jm, folded p_def]
  note len = net_ok_bounds [OF ok]
  have jl: "?j < length ?fds" using j(1) len by simp
  have ev: "pf_events p' = want_mask ?x" using j(3) want_mask_del [OF op, of x] by (simp add: p'_def pfd_ok_def)
  have fd: "pf_fd p' = i" using j(2) by (simp add: p'_def)
  have vi: "net_abs N i = (sr_reader x, sr_writer x, pf_revents p)"
    using i x(1) jm by (simp add: net_abs_Some [OF S] sock_view_def p_def)
  show ?thesis
  proof (cases "pf_events p' = 0")
    case False
    let ?N = "N\<lparr>en_S := Some (S[i := ?x]), en_fds := ?fds[?j := p']\<rparr>"
    have "clearbit ?j (op_bit op) (N\<lparr>en_S := Some (S[i := ?x])\<rparr>) = Some ?N" (is ?eq)
      using False jl by (simp add: clearbit_def fds_get_def fds_set_def p_def [symmetric] p'_def Let_def)
    have "rev_ok (pf_revents p') (pf_events p')"
      using rev_ok_clear [of "pf_revents p" "pf_events p"] j(3) unfolding p'_def pfd_ok_def by (simp del: want_mask_0) metis
    then have "pfd_ok ?x p'" using False ev by (simp add: pfd_ok_def)
    then have "net_ok (S[i := ?x]) (?fds[?j := p']) ?n"
      by (intro net_ok_update [OF ok i _ j(1) _ fd]) (simp_all add: x(1))
    moreover have "scan_ok (?fds[?j := p']) ?n (en_scan N)"
      by (rule scan_ok_update [OF scan _ j(1)]) (auto simp: p'_def p_def)
    ultimately have "net_inv ?N" using sz by (simp add: net_inv_def)
    moreover have "sock_view (S[i := ?x]) (?fds[?j := p']) = (sock_view S ?fds)(i := view_del op (net_abs N i))"
      using view_update [OF ok i _ j(1), of ?x p'] x(1) False ev vi by (auto simp: sr_del_fields [OF op] p'_def)
    then have "net_abs ?N = (net_abs N)(i := view_del op (net_abs N i))" by (simp add: net_abs_def S)
    ultimately show ?thesis using \<open>?eq\<close> by simp
  next
    case True
    define q where "q = ?fds ! (?n - 1)"
    define y where "y = ?x\<lparr>sr_pollpos := SIZE_MAX\<rparr>"
    have y: "sr_pollpos y = SIZE_MAX" "sr_reader y = 0" "sr_writer y = 0" using True ev by (simp_all add: y_def)
    define S' where "S' = (if ?j = ?n - 1 then S[i := y] else S[i := y, pf_fd q := (S ! pf_fd q)\<lparr>sr_pollpos := ?j\<rparr>])"
    define fds' where "fds' = (if ?j = ?n - 1 then ?fds[?j := p'] else ?fds[?j := q])"
    let ?N = "N\<lparr>en_S := Some S', en_fds := fds', en_nfds := ?n - 1\<rparr>"
    have l: "?n - 1 < ?n" "?n - 1 < length ?fds" using j(1) len by auto
    have q: "pf_fd q < length S" "?j \<noteq> ?n - 1 \<Longrightarrow> pf_fd q \<noteq> i"
      using net_ok_fd(1) [OF ok l(1)] net_ok_fd_inj [OF ok j(1) l(1)] j(2) by (auto simp: q_def p_def)
    have "clearbit ?j (op_bit op) (N\<lparr>en_S := Some (S[i := ?x])\<rparr>) = Some ?N"
      using True jl i l q len j(2) q_def [symmetric, simplified]
      by (auto simp: clearbit_def fds_get_def fds_set_def sock_get_def sock_set_def p_def [symmetric] p'_def
          y_def [symmetric] S'_def fds'_def Let_def)
    moreover have fds': "fds' ! m = (if m = ?j then q else ?fds ! m)" if "m < ?n - 1" for m
      using that jl by (auto simp: fds'_def nth_list_update)
    have "net_ok S' fds' (?n - 1)"
      by (rule net_ok_remove [OF ok j(1) q_def refl _ y fds'])
        (use j(2) in \<open>simp_all add: p_def S'_def fds'_def\<close>)
    then have "net_inv ?N"
      using scan_ok_remove [OF scan j(1) fds' [unfolded q_def]] sz by (simp add: net_inv_def fds'_def)
    moreover have "sock_view S' fds' = (sock_view S ?fds)(i := (sr_reader y, sr_writer y, 0))"
      by (rule view_remove [OF ok j(1) q_def refl _ y(1) fds']) (use j(2) in \<open>simp_all add: p_def S'_def\<close>)
    then have "net_abs ?N = (net_abs N)(i := view_del op (net_abs N i))"
      using True ev vi by (auto simp: net_abs_def S sr_del_fields [OF op] y)
    ultimately show ?thesis by simp
  qed
qed


lemma net_init_ok:
  assumes "net_inv N" "net_init an N = (N', ok)"
  shows "net_inv N'" "net_abs N' = net_abs N" "ok \<Longrightarrow> en_S N' \<noteq> None" "en_S N \<noteq> None \<Longrightarrow> N' = N \<and> ok"
    "en_S N = None \<Longrightarrow> en_nfds N' = 0" "en_stats N' = en_stats N"
  using assms
  by (auto simp: net_init_def net_inv_def net_abs_def net_ok_def scan_ok_def sock_view_def SIZE_MAX_def Let_def
      split: option.splits if_splits)

lemma grow_fill_eq:
  "en_S N = Some (S @ T) \<Longrightarrow> i = length S \<Longrightarrow> n = length T \<Longrightarrow>
   grow_fill i n N = Some (N\<lparr>en_S := Some (S @ replicate n \<lparr>sr_reader = 0, sr_writer = 0, sr_pollpos = SIZE_MAX\<rparr>)\<rparr>)"
proof (induction i n N arbitrary: S T rule: grow_fill.induct)
  case (2 i n N)
  let ?x = "\<lparr>sr_reader = 0, sr_writer = 0, sr_pollpos = SIZE_MAX\<rparr>"
  from 2 obtain t T' where T: "T = t # T'" by (cases T) auto
  then have "sock_set N i ?x = Some (N\<lparr>en_S := Some ((S @ [?x]) @ T')\<rparr>)"
    using 2 by (simp add: sock_set_def)
  moreover from this 2 T have "grow_fill (i + 1) n (N\<lparr>en_S := Some ((S @ [?x]) @ T')\<rparr>) =
      Some (N\<lparr>en_S := Some ((S @ [?x]) @ T')\<rparr>\<lparr>en_S := Some ((S @ [?x]) @ replicate n ?x)\<rparr>)"
    by (intro 2(1)) auto
  ultimately show ?case by simp
qed simp

lemma growsocketlist_ok:
  assumes inv: "net_inv N" and S: "en_S N = Some S" and n: "length S \<le> nrec"
  shows "okp (growsocketlist an nrec N) (\<lambda>(N', ok). net_inv N' \<and> net_abs N' = net_abs N \<and>
     (if ok then \<exists>S'. en_S N' = Some S' \<and> length S' = nrec \<and> (\<forall>i < nrec. length S \<le> i \<longrightarrow> sr_pollpos (S' ! i) = SIZE_MAX)
      else N' = N) \<and> ok = (na_grow an \<and> nrec \<le> SIZE_MAX div 24) \<and> en_stats N' = en_stats N \<and>
     en_nfds N' = en_nfds N \<and> en_scan N' = en_scan N \<and> en_alloc N' = en_alloc N)"
proof (cases "\<not> na_grow an \<or> nrec > SIZE_MAX div 24")
  case True
  with S inv show ?thesis by (auto simp: growsocketlist_def)
next
  case False
  let ?x = "\<lparr>sr_reader = 0, sr_writer = 0, sr_pollpos = SIZE_MAX\<rparr>"
  let ?N = "N\<lparr>en_S := Some (S @ replicate (nrec - length S) ?x)\<rparr>"
  have "growsocketlist an nrec N = Some (?N, True)"
    using False S n grow_fill_eq [of "N\<lparr>en_S := Some (S @ map (na_sjunk an) [length S..<nrec])\<rparr>" S
        "map (na_sjunk an) [length S..<nrec]" "length S" "nrec - length S"]
    by (simp add: growsocketlist_def Let_def)
  moreover have "net_inv ?N" using inv net_ok_grow [of S "en_fds N" "en_nfds N"] S by (simp add: net_inv_def)
  moreover have "net_abs ?N = net_abs N" by (auto simp: net_abs_def S sock_view_def nth_append)
  ultimately show ?thesis using n False by (simp add: nth_append)
qed

text \<open>The poll array after \<open>growpollfd\<close> made room.\<close>

definition room :: "en_ans \<Rightarrow> evnet \<Rightarrow> pollfd list" where
  "room an N = (if en_alloc N = en_nfds N
     then en_fds N @ map (na_junk an) [length (en_fds N)..<en_alloc N * 2] else en_fds N)"

lemma growpollfd_eq:
  assumes inv: "net_inv N" and S: "en_S N = Some S" and i: "i < length S" "int i < INT_MAX" and x: "sr_pollpos x = SIZE_MAX"
    and N1: "N1 = N\<lparr>en_S := Some (S[i := x])\<rparr>"
  shows "growpollfd an i N1 =
     Some (if en_alloc N = en_nfds N \<and> (en_alloc N * 2 > SIZE_MAX div 8 \<or> \<not> na_realloc an) then (N1, False)
      else (N\<lparr>en_S := Some (S[i := x\<lparr>sr_pollpos := en_nfds N\<rparr>]),
              en_fds := (room an N)[en_nfds N := \<lparr>pf_fd = i, pf_events = 0, pf_revents = 0\<rparr>],
              en_alloc := length (room an N), en_nfds := en_nfds N + 1\<rparr>, True))"
proof -
  have sz: "16 \<le> en_alloc N" "en_alloc N \<le> SIZE_MAX div 8" "length (en_fds N) = en_alloc N"
    and n: "en_nfds N \<le> en_alloc N" "en_nfds N < SIZE_MAX"
    using inv net_inv_Some [OF S] by (auto simp: net_ok_def)
  have "en_alloc N * 2 \<le> SIZE_MAX" using sz(2) by (simp add: SIZE_MAX_def)
  then show ?thesis
    using sz n i x S by (auto simp: growpollfd_def N1 sock_get_def sock_set_def fds_set_def room_def Let_def)
qed


lemma view_reg_sock:
  assumes "en_S N = Some S" "i < length S"
  shows "view_reg op (net_abs N i) = sr_op op (S ! i)"
  using assms by (simp add: net_abs_Some sock_view_def sr_op_def)

lemma view_reg_beyond: "en_S N = Some S \<Longrightarrow> length S \<le> i \<Longrightarrow> view_reg op (net_abs N i) = 0"
  by (simp add: net_abs_Some sock_view_def)

text \<open>What there must be for a socket to get a poll structure, and for a registration to succeed.\<close>

definition poll_room :: "en_ans \<Rightarrow> evnet \<Rightarrow> bool" where
  "poll_room an N \<longleftrightarrow> (en_alloc N = en_nfds N \<longrightarrow> na_realloc an \<and> en_alloc N * 2 \<le> SIZE_MAX div 8)"

definition net_room :: "en_ans \<Rightarrow> nat \<Rightarrow> evnet \<Rightarrow> bool" where
  "net_room an fd N \<longleftrightarrow> na_r an \<noteq> 0 \<and>
     (case en_S N of
        None \<Rightarrow> na_list an \<and> na_atexit an \<and> na_fds an \<and> na_grow an
      | Some S \<Rightarrow> if fd < length S then sr_pollpos (S ! fd) = SIZE_MAX \<longrightarrow> poll_room an N else na_grow an \<and> poll_room an N)"

text \<open>The tail of \<open>events_network_register\<close>, from the new event record on.\<close>

lemma register_in_array:
  assumes inv: "net_inv N" and S: "en_S N = Some S" and i: "i < length S" and op: "is_op op" and r: "r \<noteq> 0"
    and x: "x = S ! i" "sr_pollpos x \<noteq> SIZE_MAX" "p = en_fds N ! sr_pollpos x"
    and N': "N' = N\<lparr>en_S := Some (S[i := sr_set_op op r x]),
               en_fds := (en_fds N)[sr_pollpos x := p\<lparr>pf_events := pf_events p OR op_bit op\<rparr>]\<rparr>"
  shows "net_inv N' \<and> net_abs N' = (net_abs N)(i := view_add op r (net_abs N i)) \<and> sr_pollpos x < length (en_fds N)"
proof -
  let ?p = "p\<lparr>pf_events := pf_events p OR op_bit op\<rparr>" and ?j = "sr_pollpos x"
  have ok: "net_ok S (en_fds N) (en_nfds N)" and scan: "scan_ok (en_fds N) (en_nfds N) (en_scan N)"
    using inv net_inv_Some [OF S] by auto
  note j = net_ok_sock [OF ok i, folded x(1), OF x(2), folded x(3)]
  have "pfd_ok (sr_set_op op r x) ?p"
    using j(3) want_mask_add [OF op r, of x] rev_ok_or [of "pf_revents p" "pf_events p" "op_bit op"]
    unfolding pfd_ok_def by (auto simp: word_zero_iff bit_or_iff simp del: want_mask_0)
  then have "net_ok (S[i := sr_set_op op r x]) ((en_fds N)[?j := ?p]) (en_nfds N)"
    by (intro net_ok_update [OF ok i _ j(1)]) (simp_all add: x(1) j(2) [symmetric])
  moreover have "scan_ok ((en_fds N)[?j := ?p]) (en_nfds N) (en_scan N)"
    by (rule scan_ok_update [OF scan _ j(1)]) (simp add: x(3))
  moreover have "sock_view (S[i := sr_set_op op r x]) ((en_fds N)[?j := ?p]) = (sock_view S (en_fds N))(i := view_add op r (net_abs N i))"
    using view_update [OF ok i _ j(1), of "sr_set_op op r x" ?p] i x op
    by (auto simp: net_abs_Some [OF S] sock_view_def sr_set_op_def is_op_def)
  ultimately show ?thesis
    using inv j(1) net_ok_bounds [OF ok] unfolding N' by (auto simp: net_inv_def net_abs_def S)
qed

lemma register_new:
  assumes inv: "net_inv N" and S: "en_S N = Some S" and i: "i < length S" and op: "is_op op" and r: "r \<noteq> 0"
    and x: "x = S ! i" "sr_pollpos x = SIZE_MAX"
    and sz: "\<not> (en_alloc N = en_nfds N \<and> en_alloc N * 2 > SIZE_MAX div 8)"
    and N': "N' = N\<lparr>en_S := Some (S[i := (sr_set_op op r x)\<lparr>sr_pollpos := en_nfds N\<rparr>]),
               en_alloc := length (room an N), en_nfds := en_nfds N + 1,
               en_fds := (room an N)[en_nfds N := \<lparr>pf_fd = i, pf_events = op_bit op, pf_revents = 0\<rparr>]\<rparr>"
  shows "net_inv N' \<and> net_abs N' = (net_abs N)(i := view_add op r (net_abs N i)) \<and> en_nfds N < length (room an N)"
proof -
  let ?x = "(sr_set_op op r x)\<lparr>sr_pollpos := en_nfds N\<rparr>" and ?p = "\<lparr>pf_fd = i, pf_events = op_bit op, pf_revents = 0\<rparr>"
  let ?n = "en_nfds N" and ?fds = "room an N"
  have ok: "net_ok S (en_fds N) ?n" and scan: "scan_ok (en_fds N) ?n (en_scan N)"
    and al: "16 \<le> en_alloc N" "en_alloc N \<le> SIZE_MAX div 8" "length (en_fds N) = en_alloc N"
    using inv net_inv_Some [OF S] by auto
  note len = net_ok_bounds [OF ok]
  have room: "?n < length ?fds" "length ?fds \<le> SIZE_MAX div 8" "16 \<le> length ?fds" "\<And>j. j < ?n \<Longrightarrow> ?fds ! j = en_fds N ! j"
    using al len sz by (auto simp: room_def nth_append)
  have n: "?n + 1 < SIZE_MAX" using room(1,2) by (simp add: SIZE_MAX_def)
  have idle: "sr_reader x = 0" "sr_writer x = 0" using net_ok_idle [OF ok i] x by auto
  have ok1: "net_ok S ?fds ?n" using net_ok_cong [OF ok, of ?fds] room by simp
  have "want_mask x = 0" using idle by simp
  then have "want_mask ?x = op_bit op" unfolding want_mask_pollpos want_mask_add [OF op r] by (simp del: want_mask_0)
  then have "pfd_ok ?x ?p" by (simp add: pfd_ok_def op_bit_def POLLIN_def POLLOUT_def)
  then have "net_ok (S[i := ?x]) (?fds[?n := ?p]) (?n + 1)"
    using net_ok_append [OF ok1 i _ room(1) n, of ?x ?p] x by simp
  moreover have "scan_ok (?fds[?n := ?p]) (?n + 1) (en_scan N)"
    using scan room(1,4) by (auto simp: scan_ok_def less_Suc_eq nth_list_update)
  moreover have "sock_view S ?fds = sock_view S (en_fds N)"
    using net_ok_sock(1) [OF ok] room(4) by (auto simp: sock_view_def)
  then have "sock_view (S[i := ?x]) (?fds[?n := ?p]) = (sock_view S (en_fds N))(i := view_add op r (net_abs N i))"
    using view_append [OF ok1 i room(1), of ?x ?p] n i x op idle
    by (auto simp: net_abs_Some [OF S] sock_view_def sr_set_op_def is_op_def)
  ultimately show ?thesis
    using room unfolding N' by (simp add: net_inv_def net_abs_def S)
qed


lemma view_add_0: "view_reg op v = 0 \<Longrightarrow> view_add op 0 v = v"
  by (cases v) (auto split: if_splits)

lemma sr_set_op_same: "is_op op \<Longrightarrow> sr_op op x = 0 \<Longrightarrow> sr_set_op op 0 (sr_set_op op r x) = x"
  by (auto simp: sr_set_op_def sr_op_def is_op_def)

lemma sr_set_op_id: "is_op op \<Longrightarrow> sr_op op x = 0 \<Longrightarrow> sr_set_op op 0 x = x"
  by (auto simp: sr_set_op_def sr_op_def is_op_def)

lemma net_comm: "N\<lparr>en_stats := st, en_S := T\<rparr> = N\<lparr>en_S := T, en_stats := st\<rparr>"
  by (cases N) simp

lemma register_sock_ok:
  assumes inv: "net_inv N" and S: "en_S N = Some S" and i: "i < length S" "int i < INT_MAX" and op: "is_op op"
    and fresh: "fresh_ptr (na_r an) em"
  shows "okp (register_sock an func cookie i op N em) (\<lambda>(N', em', rc, e). net_inv N' \<and>
     (if rc = 0 then e = E_OK \<and> na_r an \<noteq> 0 \<and> view_reg op (net_abs N i) = 0 \<and>
           net_abs N' = (net_abs N)(i := view_add op (na_r an) (net_abs N i)) \<and>
           em' = em(na_r an \<mapsto> \<lparr>er_func = func, er_cookie = cookie\<rparr>)
      else rc = -1 \<and> net_abs N' = net_abs N \<and> em' = em \<and>
           e = (if view_reg op (net_abs N i) \<noteq> 0 then EEXIST else ENOMEM)) \<and>
     (view_reg op (net_abs N i) = 0 \<longrightarrow> (rc = 0 \<longleftrightarrow> na_r an \<noteq> 0 \<and> (sr_pollpos (S ! i) = SIZE_MAX \<longrightarrow> poll_room an N))))"
proof -
  define x where "x = S ! i"
  define r where "r = na_r an"
  have reg: "view_reg op (net_abs N i) = sr_op op x" using view_reg_sock [OF S i(1)] by (simp add: x_def)
  have get: "sock_get N i = Some x" using S i by (simp add: sock_get_def x_def)
  show ?thesis
  proof (cases "sr_op op x \<noteq> 0 \<or> r = 0")
    case True
    then consider "sr_op op x \<noteq> 0" | "sr_op op x = 0" "r = 0" by blast
    then show ?thesis
    proof cases
      case 1
      with get inv reg show ?thesis by (simp add: register_sock_def)
    next
      case 2
      have "N\<lparr>en_S := Some (S[i := x])\<rparr> = N" using S by (simp add: x_def)
      with 2 get inv reg S i sr_set_op_id [OF op] show ?thesis
        by (simp add: register_sock_def sock_set_def events_mkrec_def r_def)
    qed
  next
    case False
    define N0 where "N0 = (if en_nfds N = 0
                  then N\<lparr>en_stats := events_network_selectstats_startclock (na_clock an) (en_stats N)\<rparr> else N)"
    have N0: "net_inv N0" "net_abs N0 = net_abs N" "en_S N0 = Some S" "poll_room an N0 = poll_room an N"
      using inv S by (simp_all add: N0_def poll_room_def)
    let ?N1 = "N0\<lparr>en_S := Some (S[i := sr_set_op op r x])\<rparr>"
    let ?em = "em(r \<mapsto> \<lparr>er_func = func, er_cookie = cookie\<rparr>)"
    have rs: "register_sock an func cookie i op N em = do {
         (N, ok) \<leftarrow> (if sr_pollpos x = SIZE_MAX then growpollfd an i ?N1 else Some (?N1, True));
         if \<not> ok then do {
           x \<leftarrow> sock_get N i;
           em \<leftarrow> events_freerec (sr_op op x) ?em;
           N \<leftarrow> sock_set N i (sr_set_op op 0 x);
           Some (N, em, -1, ENOMEM)
         }
         else do {
           x \<leftarrow> sock_get N i;
           p \<leftarrow> fds_get N (sr_pollpos x);
           N \<leftarrow> fds_set N (sr_pollpos x) (p\<lparr>pf_events := pf_events p OR op_bit op\<rparr>);
           Some (N, ?em, 0, E_OK)
         }
       }"
      using False get S i
      by (cases "en_nfds N = 0")
        (simp_all add: register_sock_def events_mkrec_def r_def [symmetric] sock_set_def sock_get_def N0_def net_comm Let_def)
    show ?thesis
    proof (cases "sr_pollpos x = SIZE_MAX")
      case False
      note ra = register_in_array [OF N0(1,3) i(1) op _ x_def False refl refl, of r]
      with rs False \<open>\<not> (sr_op op x \<noteq> 0 \<or> r = 0)\<close> N0 i reg show ?thesis
        by (simp add: sock_get_def fds_get_def fds_set_def r_def [symmetric] x_def)
    next
      case True
      note gp = growpollfd_eq [OF N0(1,3) i, of "sr_set_op op r x" ?N1 an, OF _ refl]
      show ?thesis
      proof (cases "en_alloc N0 = en_nfds N0 \<and> (en_alloc N0 * 2 > SIZE_MAX div 8 \<or> \<not> na_realloc an)")
        case fail: True
        have "growpollfd an i ?N1 = Some (?N1, False)" using gp True unfolding if_P [OF fail] by simp
        moreover have "\<not> poll_room an N" using fail N0(4) by (auto simp: poll_room_def)
        moreover have "N0\<lparr>en_S := Some (S[i := x])\<rparr> = N0" using N0(3) by (simp add: x_def)
        moreover have "em(r := None) = em" using fresh \<open>\<not> (sr_op op x \<noteq> 0 \<or> r = 0)\<close> by (auto simp: fresh_ptr_def r_def)
        ultimately show ?thesis
          using rs True N0 i reg \<open>\<not> (sr_op op x \<noteq> 0 \<or> r = 0)\<close> sr_set_op_same [OF op]
          by (simp add: sock_get_def sock_set_def events_freerec_def x_def [symmetric])
      next
        case ok: False
        then have room: "poll_room an N" using N0(4) by (auto simp: poll_room_def)
        have sz: "\<not> (en_alloc N0 = en_nfds N0 \<and> en_alloc N0 * 2 > SIZE_MAX div 8)" using ok by blast
        note rn = register_new [OF N0(1,3) i(1) op _ x_def True sz refl, of r an]
        from rn rs True gp ok room N0 i reg \<open>\<not> (sr_op op x \<noteq> 0 \<or> r = 0)\<close> show ?thesis
          by (simp add: sock_get_def fds_get_def fds_set_def r_def [symmetric])
      qed
    qed
  qed
qed


text \<open>
  \<open>events_network_register\<close>: either the pair of socket and operation had no event and now has
  the new record, or the call fails and nothing changes for the callers.
\<close>

lemma events_network_register_ok:
  assumes inv: "net_inv N" and s: "s < INT_MAX" and fresh: "fresh_ptr (na_r an) em"
  shows "okp (events_network_register an func cookie s op N em) (\<lambda>(N', em', rc, e). net_inv N' \<and>
     (if rc = 0 then e = E_OK \<and> 0 \<le> s \<and> is_op op \<and> na_r an \<noteq> 0 \<and> view_reg op (net_abs N (nat s)) = 0 \<and>
           net_abs N' = (net_abs N)(nat s := view_add op (na_r an) (net_abs N (nat s))) \<and>
           em' = em(na_r an \<mapsto> \<lparr>er_func = func, er_cookie = cookie\<rparr>)
      else rc = -1 \<and> net_abs N' = net_abs N \<and> em' = em \<and>
           (e = EEXIST \<longrightarrow> view_reg op (net_abs N (nat s)) \<noteq> 0) \<and>
           (0 \<le> s \<and> is_op op \<and> view_reg op (net_abs N (nat s)) \<noteq> 0 \<longrightarrow> e = EEXIST)) \<and>
     (0 \<le> s \<and> is_op op \<and> view_reg op (net_abs N (nat s)) = 0 \<longrightarrow> (rc = 0 \<longleftrightarrow> net_room an (nat s) N)))"
proof -
  obtain N1 ok where init: "net_init an N = (N1, ok)" by force
  note i = net_init_ok [OF inv init]
  have live: "en_S N \<noteq> None" if "view_reg op (net_abs N (nat s)) \<noteq> 0" using that by (auto simp: net_abs_def split: option.splits)
  show ?thesis
  proof (cases "\<not> ok \<or> s < 0 \<or> \<not> is_op op")
    case True
    have "view_reg op (net_abs N (nat s)) = 0" if "\<not> ok" using i(4) live that by blast
    moreover have "\<not> net_room an (nat s) N" if "\<not> ok"
      using init that by (auto simp: net_init_def net_room_def Let_def split: option.splits if_splits)
    ultimately show ?thesis using True init i(1,2) by (auto simp: events_network_register_def is_op_def)
  next
    case False
    then obtain S where S: "en_S N1 = Some S" using i(3) by auto
    let ?i = "nat s" and ?grow = "nat s \<ge> length S"
    have start: "net_room an ?i N \<longleftrightarrow> na_r an \<noteq> 0 \<and>
        (if ?grow then na_grow an \<and> poll_room an N1 else sr_pollpos (S ! ?i) = SIZE_MAX \<longrightarrow> poll_room an N1)"
    proof (cases "en_S N")
      case None
      then show ?thesis using init S False
        by (auto simp: net_init_def net_room_def poll_room_def Let_def split: if_splits)
    next
      case (Some S0)
      then show ?thesis using i(4) S by (auto simp: net_room_def)
    qed
    have small: "?i + 1 \<le> SIZE_MAX div 24" using s by (simp add: INT_MAX_def SIZE_MAX_def)
    define g where "g = (if ?grow then growsocketlist an (?i + 1) N1 else Some (N1, True))"
    have g: "okp g (\<lambda>(N', ok). net_inv N' \<and> net_abs N' = net_abs N \<and>
        (if ok then \<exists>S'. en_S N' = Some S' \<and> ?i < length S' \<and>
           (net_room an ?i N \<longleftrightarrow> na_r an \<noteq> 0 \<and> (sr_pollpos (S' ! ?i) = SIZE_MAX \<longrightarrow> poll_room an N'))
         else ?grow \<and> \<not> net_room an ?i N))"
    proof (cases ?grow)
      case True
      have n: "length S \<le> ?i + 1" using True by simp
      have "okp (growsocketlist an (?i + 1) N1) (\<lambda>(N', ok). net_inv N' \<and> net_abs N' = net_abs N \<and>
        (if ok then \<exists>S'. en_S N' = Some S' \<and> ?i < length S' \<and>
           (net_room an ?i N \<longleftrightarrow> na_r an \<noteq> 0 \<and> (sr_pollpos (S' ! ?i) = SIZE_MAX \<longrightarrow> poll_room an N'))
         else ?grow \<and> \<not> net_room an ?i N))"
        by (rule okp_mono [OF growsocketlist_ok [OF i(1) S n, of an]])
          (use i(2) start small True in \<open>auto simp: poll_room_def split: if_splits\<close>)
      then show ?thesis using True by (simp add: g_def)
    next
      case False
      then show ?thesis using i S start by (simp add: g_def)
    qed
    then obtain N2 ok2 where N2: "g = Some (N2, ok2)" "net_inv N2" "net_abs N2 = net_abs N"
      "if ok2 then \<exists>S'. en_S N2 = Some S' \<and> ?i < length S' \<and>
           (net_room an ?i N \<longleftrightarrow> na_r an \<noteq> 0 \<and> (sr_pollpos (S' ! ?i) = SIZE_MAX \<longrightarrow> poll_room an N2))
         else ?grow \<and> \<not> net_room an ?i N" by (auto elim!: okpE)
    have reg: "events_network_register an func cookie s op N em =
       (if \<not> ok2 then Some (N2, em, -1, ENOMEM) else register_sock an func cookie ?i op N2 em)"
      using init False S N2(1) unfolding g_def
      by (cases "op = 0") (simp_all add: events_network_register_def is_op_def Let_def)
    show ?thesis
    proof (cases ok2)
      case True
      then obtain S' where S': "en_S N2 = Some S'" "?i < length S'"
        and room: "net_room an ?i N \<longleftrightarrow> na_r an \<noteq> 0 \<and> (sr_pollpos (S' ! ?i) = SIZE_MAX \<longrightarrow> poll_room an N2)"
        using N2(4) by auto
      have "int ?i < INT_MAX" using s False by simp
      from register_sock_ok [OF N2(2) S' this _ fresh, of op func cookie] False True reg N2(3) room show ?thesis
        by (auto elim!: okp_mono split: if_splits)
    next
      case no: False
      have "view_reg op (net_abs N ?i) = 0" using view_reg_beyond [OF S, of ?i op] i(2) N2(4) no by simp
      with reg no N2 show ?thesis by simp
    qed
  qed
qed

lemma events_network_cancel_ok:
  assumes inv: "net_inv N"
    and live: "is_op op \<Longrightarrow> view_reg op (net_abs N (nat s)) \<noteq> 0 \<Longrightarrow> em (view_reg op (net_abs N (nat s))) \<noteq> None"
  shows "okp (events_network_cancel an s op N em) (\<lambda>(N', em', rc, e). net_inv N' \<and>
     (if 0 \<le> s \<and> is_op op \<and> view_reg op (net_abs N (nat s)) \<noteq> 0
      then rc = 0 \<and> e = E_OK \<and> net_abs N' = (net_abs N)(nat s := view_del op (net_abs N (nat s))) \<and>
           em' = em(view_reg op (net_abs N (nat s)) := None)
      else rc = -1 \<and> net_abs N' = net_abs N \<and> em' = em \<and>
           (en_S N \<noteq> None \<and> 0 \<le> s \<and> is_op op \<longrightarrow> e = ENOENT)))"
proof -
  obtain N1 ok where init: "net_init an N = (N1, ok)" by force
  note i = net_init_ok [OF inv init]
  have S0: "en_S N \<noteq> None" if "view_reg op (net_abs N (nat s)) \<noteq> 0" using that by (auto simp: net_abs_def split: option.splits)
  show ?thesis
  proof (cases "\<not> ok \<or> s < 0 \<or> \<not> is_op op")
    case True
    have "view_reg op (net_abs N (nat s)) = 0 \<and> en_S N = None" if "\<not> ok" using i(4) S0 that by blast
    with True init i(1,2) show ?thesis by (auto simp: events_network_cancel_def is_op_def)
  next
    case False
    then obtain S where S: "en_S N1 = Some S" using i(3) by auto
    show ?thesis
    proof (cases "nat s < length S \<and> sr_op op (S ! nat s) \<noteq> 0")
      case no: False
      then have "view_reg op (net_abs N (nat s)) = 0"
        using view_reg_sock [OF S, of "nat s" op] view_reg_beyond [OF S, of "nat s" op] i(2) by (metis not_le)
      with no False init S i show ?thesis
        by (auto simp: events_network_cancel_def sock_get_def is_op_def Let_def)
    next
      case True
      then have reg: "view_reg op (net_abs N (nat s)) = sr_op op (S ! nat s)" using view_reg_sock [OF S] i(2) by simp
      let ?x = "S ! nat s"
      have op: "is_op op" and s: "0 \<le> s" using False by auto
      from clearbit_ok [OF i(1) S _ op refl] True obtain N2 where
        N2: "clearbit (sr_pollpos ?x) (op_bit op) (N1\<lparr>en_S := Some (S[nat s := sr_set_op op 0 ?x])\<rparr>) = Some N2"
        "net_inv N2" "net_abs N2 = (net_abs N1)(nat s := view_del op (net_abs N1 (nat s)))"
        by (auto elim!: okpE)
      let ?N = "if en_nfds N2 = 0 then N2\<lparr>en_stats := events_network_selectstats_stopclock (en_stats N2)\<rparr> else N2"
      have "events_network_cancel an s op N em = Some (?N, em(sr_op op ?x := None), 0, E_OK)"
        using True False init S N2(1) live [OF op] reg
        by (auto simp: events_network_cancel_def sock_get_def sock_set_def events_freerec_def is_op_def Let_def)
      then show ?thesis using N2(2,3) i(2) reg True s op by auto
    qed
  qed
qed


text \<open>What \<open>poll\<close> promises for an answer: nothing but what was asked for, an error or a hang-up.\<close>

definition poll_valid :: "evnet \<Rightarrow> poll_ans \<Rightarrow> bool" where
  "poll_valid N a = (case a of PollReady rv \<Rightarrow> \<forall>j < en_nfds N. rev_ok (rv j) (pf_events (en_fds N ! j)) | _ \<Rightarrow> True)"

text \<open>The answer at which the loop of \<open>events_network_select\<close> stops.\<close>

fun poll_stop :: "poll_ans list \<Rightarrow> poll_ans option" where
  "poll_stop [] = None"
| "poll_stop (PollEintr False # as) = poll_stop as"
| "poll_stop (a # as) = Some a"

definition poll_view :: "evnet \<Rightarrow> (nat \<Rightarrow> u16) \<Rightarrow> netabs" where
  "poll_view N rv i = (case net_abs N i of (r, w, _) \<Rightarrow>
     (r, w, case en_S N of None \<Rightarrow> 0 | Some S \<Rightarrow>
       if i < length S \<and> sr_pollpos (S ! i) \<noteq> SIZE_MAX then rv (sr_pollpos (S ! i)) else 0))"

definition poll_fds :: "(nat \<Rightarrow> u16) \<Rightarrow> evnet \<Rightarrow> pollfd list" where
  "poll_fds rv N = map (\<lambda>j. if j < en_nfds N then (en_fds N ! j)\<lparr>pf_revents := rv j\<rparr> else en_fds N ! j) [0..<length (en_fds N)]"

lemma poll_loop_eq:
  "poll_loop as N = (case poll_stop as of None \<Rightarrow> None
     | Some (PollReady rv) \<Rightarrow> Some (N\<lparr>en_fds := poll_fds rv N\<rparr>, True)
     | Some (PollEintr b) \<Rightarrow> Some (N, True) | Some PollFail \<Rightarrow> Some (N, False))"
  by (induction as rule: poll_stop.induct) (auto simp: poll_fds_def)

lemma poll_fds_nth: "j < length (en_fds N) \<Longrightarrow> j < en_nfds N \<Longrightarrow> poll_fds rv N ! j = (en_fds N ! j)\<lparr>pf_revents := rv j\<rparr>"
  by (simp add: poll_fds_def)

lemma poll_fds_ok:
  assumes ok: "net_ok S (en_fds N) (en_nfds N)" and rv: "poll_valid N (PollReady rv)"
  shows "net_ok S (poll_fds rv N) (en_nfds N)"
proof -
  note len = net_ok_bounds [OF ok]
  have nth: "poll_fds rv N ! j = (en_fds N ! j)\<lparr>pf_revents := rv j\<rparr>" if "j < en_nfds N" for j
    using that len by (simp add: poll_fds_nth)
  have "sock_ok S (poll_fds rv N) (en_nfds N) i" if "i < length S" for i
    using net_ok_sock [OF ok that] net_ok_idle [OF ok that] rv nth
    by (auto simp: sock_ok_def pfd_ok_def poll_valid_def)
  with ok nth len show ?thesis by (simp add: net_ok_def poll_fds_def)
qed

text \<open>
  \<open>events_network_select\<close>: it ends as soon as \<open>poll\<close> reports or fails, or is interrupted with
  an interrupt requested; the registrations are those before, the reported events those of
  \<open>poll\<close>, and the scan starts at the end of the poll array.
\<close>

lemma events_network_select_ok:
  assumes inv: "net_inv N" and init: "net_init an N = (N1, ok)"
    and stop: "poll_stop (polls (poll_timeout tv)) = Some a" "poll_valid N1 a"
  shows "okp (events_network_select an polls tv N) (\<lambda>(N', rc). net_inv N' \<and>
     (if ok \<and> a \<noteq> PollFail then rc = 0 \<and> en_scan N' = szsub (en_nfds N') 1 \<and> en_S N' \<noteq> None \<and>
        net_abs N' = (case a of PollReady rv \<Rightarrow> poll_view N1 rv | _ \<Rightarrow> net_abs N)
      else rc = -1 \<and> net_abs N' = net_abs N))"
proof (cases ok)
  case False
  with init net_init_ok [OF inv init] show ?thesis by (simp add: events_network_select_def)
next
  case True
  note i = net_init_ok [OF inv init]
  then obtain S where S: "en_S N1 = Some S" using True by auto
  have ok: "net_ok S (en_fds N1) (en_nfds N1)" and sz: "16 \<le> en_alloc N1" "en_alloc N1 \<le> SIZE_MAX div 8"
      "length (en_fds N1) = en_alloc N1"
    using i(1) net_inv_Some [OF S] by auto
  note len = net_ok_bounds [OF ok]
  have scan: "scan_ok f (en_nfds N1) (szsub (en_nfds N1) 1)" for f
  proof (cases "en_nfds N1 = 0")
    case False
    then have "szsub (en_nfds N1) 1 = en_nfds N1 - 1" using len by (intro szsub_id) auto
    then show ?thesis by (auto simp: scan_ok_def)
  qed (simp add: scan_ok_def)
  show ?thesis
  proof (cases a)
    case (PollReady rv)
    then have "net_ok S (poll_fds rv N1) (en_nfds N1)" using stop(2) poll_fds_ok [OF ok] by simp
    moreover have "pf_revents (poll_fds rv N1 ! j) = rv j" if "j < en_nfds N1" for j
      using poll_fds_nth [of j N1 rv] that len by simp
    then have "sock_view S (poll_fds rv N1) = poll_view N1 rv"
      using net_ok_sock(1) [OF ok] by (auto simp: fun_eq_iff sock_view_def poll_view_def net_abs_def S)
    moreover have "length (poll_fds rv N1) = length (en_fds N1)" by (simp add: poll_fds_def)
    moreover have "poll_fds rv (N1\<lparr>en_stats := st\<rparr>) = poll_fds rv N1" for st by (simp add: poll_fds_def)
    ultimately show ?thesis
      using init True PollReady stop(1) i(2) S sz scan
      by (cases "en_nfds N1 = 0") (simp_all add: events_network_select_def poll_loop_eq net_inv_def net_abs_def Let_def)
  next
    case (PollEintr b)
    with init True stop(1) i(2) S sz ok scan show ?thesis
      by (cases "en_nfds N1 = 0") (simp_all add: events_network_select_def poll_loop_eq net_inv_def net_abs_def Let_def)
  next
    case PollFail
    with init True stop(1) i(1,2) show ?thesis by (simp add: events_network_select_def poll_loop_eq Let_def)
  qed
qed


text \<open>An event is ready when it is reported, or an error or a hang-up is.\<close>

definition view_rdy :: "int \<Rightarrow> ptr \<times> ptr \<times> u16 \<Rightarrow> bool" where
  "view_rdy op v \<longleftrightarrow> is_op op \<and> view_reg op v \<noteq> 0 \<and> snd (snd v) AND (op_bit op OR POLLERR OR POLLHUP) \<noteq> 0"

fun view_hup :: "ptr \<times> ptr \<times> u16 \<Rightarrow> ptr \<times> ptr \<times> u16" where
  "view_hup (r, w, rv) = (r, w,
     if rv AND (POLLERR OR POLLHUP) \<noteq> 0
     then (rv AND NOT (POLLERR OR POLLHUP)) OR (if r \<noteq> 0 then POLLIN else 0) OR (if w \<noteq> 0 then POLLOUT else 0) else rv)"

text \<open>An event that is ready is handed out, and is no longer registered.\<close>

definition net_got :: "netabs \<Rightarrow> ptr \<Rightarrow> netabs \<Rightarrow> bool" where
  "net_got V r V' \<longleftrightarrow>
     (\<exists>i op. view_rdy op (V i) \<and> r = view_reg op (V i) \<and> V' = V(i := view_del op (view_hup (V i))))"

lemma view_rdy_iff: "view_rdy op v \<longleftrightarrow> is_op op \<and> view_reg op v \<noteq> 0 \<and>
    (bit (snd (snd v)) (if op = 0 then 0 else 2) \<or> bit (snd (snd v)) 3 \<or> bit (snd (snd v)) 4)"
proof -
  have "w AND (op_bit op OR POLLERR OR POLLHUP) \<noteq> 0 \<longleftrightarrow> bit w (if op = 0 then 0 else 2) \<or> bit w 3 \<or> bit w 4" for w
    by (simp add: word_zero_iff bit_and_iff bit_or_iff op_bit_def) blast
  then show ?thesis by (simp add: view_rdy_def)
qed

lemma get_hup_simps [simp]: "pf_fd (get_hup p) = pf_fd p" "pf_events (get_hup p) = pf_events p"
  by (simp_all add: get_hup_def)

lemma get_hup_bits: "bit (pf_revents (get_hup p)) n \<longleftrightarrow>
    (if bit (pf_revents p) 3 \<or> bit (pf_revents p) 4
     then bit (pf_events p) n \<or> bit (pf_revents p) n \<and> n \<noteq> 3 \<and> n \<noteq> 4 else bit (pf_revents p) n)"
  by (auto simp: get_hup_def bit_or_iff bit_and_iff bit_not16 dest: bit_POLL_le)

lemma pfd_ok_hup: "pfd_ok x p \<Longrightarrow> pfd_ok x (get_hup p)"
  unfolding pfd_ok_def by (auto simp: rev_ok_bits get_hup_bits)

lemma pfd_ok_rev:
  assumes "pfd_ok x p" "bit (pf_revents p) n" "n \<noteq> 3" "n \<noteq> 4"
  shows "n = 0 \<and> sr_reader x \<noteq> 0 \<or> n = 2 \<and> sr_writer x \<noteq> 0"
  using assms by (metis bit_want_mask pfd_ok_def rev_ok_bits)

text \<open>A structure over which the scan passes reports nothing.\<close>

lemma get_hup_skip:
  assumes "pfd_ok x p" "\<not> bit (pf_revents (get_hup p)) 0" "\<not> bit (pf_revents (get_hup p)) 2"
  shows "get_hup p = p" "pf_revents p = 0"
proof -
  from assms(1) have "sr_reader x \<noteq> 0 \<or> sr_writer x \<noteq> 0" and ev: "pf_events p = want_mask x"
    by (metis pfd_ok_def want_mask_0)+
  then have "bit (pf_events p) 0 \<or> bit (pf_events p) 2" by (auto simp: bit_want_mask)
  with assms(2,3) have no: "\<not> bit (pf_revents p) 3" "\<not> bit (pf_revents p) 4" by (auto simp: get_hup_bits)
  then show hup: "get_hup p = p" by (simp add: get_hup_def)
  show "pf_revents p = 0" unfolding word_zero_iff using no assms(2,3) pfd_ok_rev [OF assms(1)] hup by metis
qed


lemma view_rdy_bits:
  assumes "pfd_ok x p" "op = 0 \<or> op = 1"
  shows "view_rdy op (sr_reader x, sr_writer x, pf_revents p) \<longleftrightarrow> bit (pf_revents (get_hup p)) (if op = 0 then 0 else 2)"
proof -
  have "bit (pf_events p) n \<longleftrightarrow> n = 0 \<and> sr_reader x \<noteq> 0 \<or> n = 2 \<and> sr_writer x \<noteq> 0" for n
    using assms(1) by (metis bit_want_mask pfd_ok_def)
  then show ?thesis using assms pfd_ok_rev [OF assms(1), of 0] pfd_ok_rev [OF assms(1), of 2]
    by (auto simp: view_rdy_iff is_op_def get_hup_bits)
qed

text \<open>One round of the scan that finds an event.\<close>

lemma net_scan_hit:
  assumes inv: "net_inv N" and S: "en_S N = Some S" and pos: "en_scan N < en_nfds N"
    and p: "p = en_fds N ! en_scan N" and op: "is_op op" and b: "bit (pf_revents (get_hup p)) (if op = 0 then 0 else 2)"
    and x: "x = S ! pf_fd p"
  shows "okp (clearbit (en_scan N) (op_bit op) (N\<lparr>en_fds := (en_fds N)[en_scan N := get_hup p],
            en_S := Some (S[pf_fd p := sr_set_op op 0 x])\<rparr>)) (\<lambda>N'. net_inv N' \<and>
      net_abs N' = (net_abs N)(pf_fd p := view_del op (view_hup (net_abs N (pf_fd p)))))
    \<and> pf_fd p < length S \<and> sr_op op x \<noteq> 0 \<and> view_reg op (net_abs N (pf_fd p)) = sr_op op x \<and> view_rdy op (net_abs N (pf_fd p))"
proof -
  let ?N = "N\<lparr>en_fds := (en_fds N)[en_scan N := get_hup p]\<rparr>" and ?i = "pf_fd p"
  have ok: "net_ok S (en_fds N) (en_nfds N)" and scan: "scan_ok (en_fds N) (en_nfds N) (en_scan N)"
    using inv net_inv_Some [OF S] by auto
  note len = net_ok_bounds [OF ok]
  note fd = net_ok_fd [OF ok pos, folded p, folded x]
  have x_reg: "sr_op op x \<noteq> 0" using pfd_ok_rev [OF pfd_ok_hup [OF fd(3)] b] op by (auto simp: sr_op_def is_op_def split: if_splits)
  have abs: "net_abs N ?i = (sr_reader x, sr_writer x, pf_revents p)"
    using fd pos len by (simp add: net_abs_Some [OF S] sock_view_def x [symmetric] p [symmetric])
  have hup: "view_hup (net_abs N ?i) = (sr_reader x, sr_writer x, pf_revents (get_hup p))"
    using fd(3) unfolding abs pfd_ok_def by (auto simp: get_hup_def want_mask_def)
  have upd: "S[?i := x] = S" by (simp add: x)
  have "net_ok (S[?i := x]) ((en_fds N)[en_scan N := get_hup p]) (en_nfds N)"
    by (rule net_ok_update [OF ok fd(1) _ pos]) (simp_all add: fd pfd_ok_hup x [symmetric])
  then have "net_inv ?N"
    using inv scan pos by (auto simp: net_inv_def S upd scan_ok_def nth_list_update)
  moreover have "net_abs ?N = (net_abs N)(?i := view_hup (net_abs N ?i))"
    using view_update [OF ok fd(1) _ pos, of x "get_hup p"] fd(2) hup
    by (simp add: net_abs_def S upd x [symmetric])
  ultimately have "okp (clearbit (sr_pollpos x) (op_bit op) (?N\<lparr>en_S := Some (S[?i := sr_set_op op 0 x])\<rparr>)) (\<lambda>N'. net_inv N' \<and>
      net_abs N' = (net_abs N)(?i := view_del op (view_hup (net_abs N ?i))))"
    using clearbit_ok [of ?N S ?i op x] S fd(1) op x x_reg by (auto elim!: okp_mono)
  moreover have "view_rdy op (net_abs N ?i)" using view_rdy_bits [OF fd(3), of op] op b abs by (simp add: is_op_def)
  ultimately show ?thesis using fd x_reg abs by (simp add: sr_op_def)
qed

lemma net_scan_ok:
  "net_inv N \<Longrightarrow> okp (net_scan N) (\<lambda>(N', r). net_inv N' \<and>
     (if r = 0 then net_abs N' = net_abs N \<and> (en_scan N < en_nfds N \<longrightarrow> (\<forall>i op. \<not> view_rdy op (net_abs N i)))
      else net_got (net_abs N) r (net_abs N')))"
proof (induction "en_scan N" arbitrary: N rule: less_induct)
  case less
  show ?case
  proof (cases "en_scan N < en_nfds N")
    case False
    with less.prems show ?thesis by (simp add: net_scan.simps [of N])
  next
    case True
    then obtain S where S: "en_S N = Some S" using less.prems by (cases "en_S N") (auto simp: net_inv_def)
    have ok: "net_ok S (en_fds N) (en_nfds N)" and scan: "scan_ok (en_fds N) (en_nfds N) (en_scan N)"
      using less.prems net_inv_Some [OF S] by auto
    note len = net_ok_bounds [OF ok]
    define p where "p = en_fds N ! en_scan N"
    define x where "x = S ! pf_fd p"
    note fd = net_ok_fd [OF ok True, folded p_def, folded x_def]
    have nval: "\<not> bit (pf_revents p) 5" using rev_ok_nval [of _ x] fd(3) by (metis pfd_ok_def)
    let ?q = "get_hup p"
    have del: "x\<lparr>sr_reader := 0\<rparr> = sr_set_op 0 0 x" "x\<lparr>sr_writer := 0\<rparr> = sr_set_op 1 0 x" by (simp_all add: sr_set_op_def)
    note hit = net_scan_hit [OF less.prems S True p_def _ _ x_def]
    consider "bit (pf_revents ?q) 0" | "\<not> bit (pf_revents ?q) 0" "bit (pf_revents ?q) 2"
      | "\<not> bit (pf_revents ?q) 0" "\<not> bit (pf_revents ?q) 2" by blast
    then show ?thesis
    proof cases
      case 1
      have op: "is_op 0" by (simp add: is_op_def)
      note h = hit [OF op]
      then obtain N' where N': "clearbit (en_scan N) (op_bit 0) (N\<lparr>en_fds := (en_fds N)[en_scan N := ?q],
            en_S := Some (S[pf_fd p := sr_set_op 0 0 x])\<rparr>) = Some N'" "net_inv N'"
        "net_abs N' = (net_abs N)(pf_fd p := view_del 0 (view_hup (net_abs N (pf_fd p))))"
        using 1 by (auto elim!: okpE)
      moreover have "net_scan N = do { N' \<leftarrow> clearbit (en_scan N) (op_bit 0) (N\<lparr>en_fds := (en_fds N)[en_scan N := ?q],
            en_S := Some (S[pf_fd p := sr_set_op 0 0 x])\<rparr>); Some (N', sr_reader x) }"
        using True 1 len nval S fd(1)
        by (simp add: net_scan.simps [of N] fds_get_def fds_set_def p_def [symmetric] sock_get_def sock_set_def
            x_def [symmetric] del op_bit_def Let_def)
      moreover have "net_got (net_abs N) (sr_reader x) (net_abs N')"
        unfolding net_got_def using h 1 N'(3) by (intro exI [of _ "pf_fd p"] exI [of _ "0 :: int"]) (simp add: sr_op_def)
      moreover have "sr_reader x \<noteq> 0" using h 1 by (simp add: sr_op_def)
      ultimately show ?thesis by simp
    next
      case 2
      have op: "is_op 1" by (simp add: is_op_def)
      note h = hit [OF op]
      then obtain N' where N': "clearbit (en_scan N) (op_bit 1) (N\<lparr>en_fds := (en_fds N)[en_scan N := ?q],
            en_S := Some (S[pf_fd p := sr_set_op 1 0 x])\<rparr>) = Some N'" "net_inv N'"
        "net_abs N' = (net_abs N)(pf_fd p := view_del 1 (view_hup (net_abs N (pf_fd p))))"
        using 2 by (auto elim!: okpE)
      moreover have "net_scan N = do { N' \<leftarrow> clearbit (en_scan N) (op_bit 1) (N\<lparr>en_fds := (en_fds N)[en_scan N := ?q],
            en_S := Some (S[pf_fd p := sr_set_op 1 0 x])\<rparr>); Some (N', sr_writer x) }"
        using True 2 len nval S fd(1)
        by (simp add: net_scan.simps [of N] fds_get_def fds_set_def p_def [symmetric] sock_get_def sock_set_def
            x_def [symmetric] del op_bit_def Let_def)
      moreover have "net_got (net_abs N) (sr_writer x) (net_abs N')"
        unfolding net_got_def using h 2 N'(3) by (intro exI [of _ "pf_fd p"] exI [of _ "1 :: int"]) (simp add: sr_op_def)
      moreover have "sr_writer x \<noteq> 0" using h 2 by (simp add: sr_op_def)
      ultimately show ?thesis by simp
    next
      case 3
      note skip = get_hup_skip [OF fd(3) 3]
      have N: "(en_fds N)[en_scan N := p] = en_fds N" "en_scan N = 0 \<Longrightarrow> (en_fds N)[0 := p] = en_fds N"
        using list_update_id [of "en_fds N" 0] by (auto simp: p_def)
      have ns: "net_scan N = (if en_scan N = 0 then Some (N\<lparr>en_scan := SIZE_MAX\<rparr>, 0) else net_scan (N\<lparr>en_scan := en_scan N - 1\<rparr>))"
        using True 3 len nval
        by (simp add: net_scan.simps [of N] fds_get_def fds_set_def p_def [symmetric] skip N Let_def)
      have quiet: "j < en_scan N" if "j < en_nfds N" "pf_revents (en_fds N ! j) \<noteq> 0" for j
        using that scan skip(2) by (metis nat_less_le p_def scan_ok_def)
      show ?thesis
      proof (cases "en_scan N = 0")
        case True
        have "pf_revents (en_fds N ! j) = 0" if "j < en_nfds N" for j using quiet that True by fastforce
        then have "snd (snd (net_abs N i)) = 0" for i
          using net_ok_sock(1) [OF ok] by (simp add: net_abs_Some [OF S] sock_view_def)
        then have "\<not> view_rdy op (net_abs N i)" for op i by (simp add: view_rdy_def)
        moreover have "net_inv (N\<lparr>en_scan := SIZE_MAX\<rparr>)" "net_abs (N\<lparr>en_scan := SIZE_MAX\<rparr>) = net_abs N"
          using less.prems quiet True by (auto simp: net_inv_def net_abs_def S scan_ok_def)
        ultimately show ?thesis using ns True by simp
      next
        case False
        let ?N = "N\<lparr>en_scan := en_scan N - 1\<rparr>"
        have "net_inv ?N" using less.prems quiet by (fastforce simp: net_inv_def S scan_ok_def)
        moreover have "net_abs ?N = net_abs N" by (simp add: net_abs_def S)
        ultimately show ?thesis using less.hyps [of ?N] ns False True by (auto elim!: okp_mono split: if_splits)
      qed
    qed
  qed
qed


text \<open>
  Taking an event out of the abstract state: only the pair of socket and operation that is
  handed out stops being registered, or ready.
\<close>

lemma view_del_reg:
  "is_op op \<Longrightarrow> is_op op' \<Longrightarrow> view_reg op' (view_del op (view_hup v)) = (if op' = op then 0 else view_reg op' v)"
  by (cases v) (auto simp: is_op_def)

lemma view_del_rdy:
  assumes "is_op op" "is_op op'" "view_rdy op v"
  shows "view_rdy op' (view_del op (view_hup v)) \<longleftrightarrow> op' \<noteq> op \<and> view_rdy op' v"
proof -
  obtain r w rv where v: "v = (r, w, rv)" by (metis prod_cases3)
  show ?thesis using assms unfolding v
    by (auto simp: is_op_def view_rdy_iff op_bit_def bit_or_iff bit_and_iff bit_not16)
qed

lemma events_network_get_ok:
  assumes "net_inv N"
  shows "okp (events_network_get N) (\<lambda>(N', r). net_inv N' \<and>
     (if r = 0 then net_abs N' = net_abs N \<and> (en_scan N < en_nfds N \<longrightarrow> (\<forall>i op. \<not> view_rdy op (net_abs N i)))
      else net_got (net_abs N) r (net_abs N')))"
  unfolding events_network_get_def okp_bind
  by (rule okp_mono [OF net_scan_ok [OF assms]]) (auto split: if_splits)

lemma events_network_shutdown_ok:
  assumes "net_inv N"
  shows "net_inv (events_network_shutdown N)" "net_abs (events_network_shutdown N) = net_abs N"
    "(\<forall>i. net_abs N i = (0, 0, 0)) \<longrightarrow> en_S (events_network_shutdown N) = None"
proof -
  have idle: "net_abs N i = (0, 0, 0)" if "en_S N = Some S" "en_nfds N = 0" for S i
  proof -
    have "net_ok S (en_fds N) 0" using assms net_inv_Some [OF that(1)] that(2) by simp
    then show ?thesis
      using net_ok_sock(1) net_ok_idle by (fastforce simp: net_abs_Some [OF that(1)] sock_view_def)
  qed
  have busy: "\<exists>i. net_abs N i \<noteq> (0, 0, 0)" if "en_S N = Some S" "en_nfds N > 0" for S
  proof -
    have ok: "net_ok S (en_fds N) (en_nfds N)" using assms net_inv_Some [OF that(1)] by simp
    note f = net_ok_fd [OF ok that(2)]
    have "sr_pollpos (S ! pf_fd (en_fds N ! 0)) \<noteq> SIZE_MAX" using f(2) by simp
    with net_ok_idle [OF ok f(1)] f(1) show ?thesis
      by (intro exI [of _ "pf_fd (en_fds N ! 0)"]) (auto simp: net_abs_Some [OF that(1)] sock_view_def)
  qed
  show "net_inv (events_network_shutdown N)" "net_abs (events_network_shutdown N) = net_abs N"
    "(\<forall>i. net_abs N i = (0, 0, 0)) \<longrightarrow> en_S (events_network_shutdown N) = None"
    using assms idle busy by (auto simp: events_network_shutdown_def net_inv_def net_abs_def split: option.splits)
qed

text \<open>The invariants as the comment of \<open>events_network.c\<close> states them, 1 to 5.\<close>

definition documented_inv :: "socketrec list \<Rightarrow> pollfd list \<Rightarrow> nat \<Rightarrow> bool" where
  "documented_inv S fds n \<longleftrightarrow>
     (\<forall>i < length S. sr_pollpos (S ! i) < n \<longrightarrow> pf_fd (fds ! sr_pollpos (S ! i)) = i) \<and>
     (\<forall>j < n. sr_pollpos (S ! pf_fd (fds ! j)) = j) \<and>
     (\<forall>i < length S. sr_reader (S ! i) \<noteq> 0 \<longrightarrow> sr_pollpos (S ! i) < n) \<and>
     (\<forall>i < length S. sr_writer (S ! i) \<noteq> 0 \<longrightarrow> sr_pollpos (S ! i) < n) \<and>
     (\<forall>i < length S. sr_reader (S ! i) = 0 \<and> sr_writer (S ! i) = 0 \<longrightarrow> sr_pollpos (S ! i) = SIZE_MAX) \<and>
     (\<forall>i < length S. sr_pollpos (S ! i) < n \<longrightarrow>
        (sr_reader (S ! i) \<noteq> 0 \<longleftrightarrow> pf_events (fds ! sr_pollpos (S ! i)) AND POLLIN \<noteq> 0) \<and>
        (sr_writer (S ! i) \<noteq> 0 \<longleftrightarrow> pf_events (fds ! sr_pollpos (S ! i)) AND POLLOUT \<noteq> 0)) \<and>
     (\<forall>j < n. pf_revents (fds ! j) AND (POLLIN OR POLLOUT) AND NOT (pf_events (fds ! j)) = 0)"

lemma net_ok_documented:
  assumes ok: "net_ok S fds n"
  shows "documented_inv S fds n"
proof -
  have sock: "(if sr_pollpos (S ! i) = SIZE_MAX then sr_reader (S ! i) = 0 \<and> sr_writer (S ! i) = 0
      else sr_pollpos (S ! i) < n \<and> pf_fd (fds ! sr_pollpos (S ! i)) = i \<and> pfd_ok (S ! i) (fds ! sr_pollpos (S ! i)))"
    if "i < length S" for i
    using ok that by (simp add: net_ok_def sock_ok_def)
  have mask: "bit (pf_events (fds ! sr_pollpos (S ! i))) m \<longleftrightarrow> m = 0 \<and> sr_reader (S ! i) \<noteq> 0 \<or> m = 2 \<and> sr_writer (S ! i) \<noteq> 0"
    if "i < length S" "sr_pollpos (S ! i) < n" for i m
  proof -
    have "sr_pollpos (S ! i) \<noteq> SIZE_MAX" using that(2) net_ok_bounds [OF ok] by simp
    with sock [OF that(1)] have "pf_events (fds ! sr_pollpos (S ! i)) = want_mask (S ! i)" by (simp add: pfd_ok_def)
    then show ?thesis by (simp add: bit_want_mask)
  qed
  have "pf_revents (fds ! j) AND (POLLIN OR POLLOUT) AND NOT (pf_events (fds ! j)) = 0" if "j < n" for j
    using net_ok_fd(3) [OF ok that] by (auto simp: word_zero_iff pfd_ok_def rev_ok_bits bit_or_iff bit_and_iff bit_not16)
  moreover have "sr_reader (S ! i) \<noteq> 0 \<longrightarrow> sr_pollpos (S ! i) < n" "sr_writer (S ! i) \<noteq> 0 \<longrightarrow> sr_pollpos (S ! i) < n"
    if "i < length S" for i
    using sock [OF that] by (auto split: if_splits)
  moreover have "pf_fd (fds ! sr_pollpos (S ! i)) = i" if "i < length S" "sr_pollpos (S ! i) < n" for i
    using sock [OF that(1)] that(2) net_ok_bounds [OF ok] by (auto split: if_splits)
  ultimately show ?thesis
    using mask net_ok_fd(2) [OF ok] net_ok_idle [OF ok] unfolding documented_inv_def by simp
qed

end
