(* ===== verification/Events_Timer.thy ===== *)
theory Events_Timer
  imports Event_Record Timer_Queue
begin

text \<open>
  Timer events, from \<open>events/events_timer.c\<close>, on top of the timer queue.  The clock, the
  allocators and \<open>atexit\<close> are answers given to each operation.
\<close>

section \<open>State and operations\<close>

record etimer =
  et_r :: ptr
  et_cookie :: ptr
  et_orig :: timeval

record evtimer =
  et_Q :: "timerqueue option"
  et_tq :: tqmem
  et_mem :: "ptr \<Rightarrow> etimer option"

definition evtimer0 :: evtimer where
  "evtimer0 = \<lparr>et_Q = None, et_tq = Map.empty, et_mem = Map.empty\<rparr>"

text \<open>
  The answers of one call: \<open>timerqueue_init\<close>'s four allocations, \<open>atexit\<close>, the event record
  pool, \<open>malloc\<close> for the timer, \<open>monoclock_get\<close> (\<open>None\<close> is an error), \<open>malloc\<close> for the record
  of the queue, and the heap's reallocation.
\<close>

record et_ans =
  an_init :: "bool \<times> bool \<times> bool \<times> alloc"
  an_atexit :: bool
  an_r :: ptr
  an_t :: ptr
  an_clock :: "timeval option"
  an_rec :: "(ptr \<times> nat) option"
  an_alloc :: alloc

text \<open>\<open>time_t\<close> and \<open>suseconds_t\<close> are signed 64-bit integers: overflow is a fault.\<close>

definition time_t :: "int \<Rightarrow> int option" where
  "time_t x = (if - (2 ^ 63) \<le> x \<and> x < 2 ^ 63 then Some x else None)"

definition gettimeout :: "timeval option \<Rightarrow> timeval \<Rightarrow> timeval option option" where
  "gettimeout clock tdelta =
     (case clock of None \<Rightarrow> Some None
      | Some tv \<Rightarrow> do {
          sec \<leftarrow> time_t (tv_sec tv + tv_sec tdelta);
          let tv = tv\<lparr>tv_sec := sec\<rparr>;
          usec \<leftarrow> time_t (tv_usec tv + tv_usec tdelta);
          let tv = tv\<lparr>tv_usec := usec\<rparr>;
          if tv_usec tv \<ge> 1000000 then do {
            sec \<leftarrow> time_t (tv_sec tv + 1);
            Some (Some (tv\<lparr>tv_usec := tv_usec tv - 1000000, tv_sec := sec\<rparr>))
          }
          else Some (Some tv)
        })"

definition t_free :: "ptr \<Rightarrow> evtimer \<Rightarrow> evtimer option" where
  "t_free p T = (if et_mem T p = None then None else Some (T\<lparr>et_mem := (et_mem T)(p := None)\<rparr>))"

text \<open>Create the timer queue if it does not exist yet; \<open>False\<close> is failure.\<close>

definition et_setup :: "et_ans \<Rightarrow> evtimer \<Rightarrow> (evtimer \<times> bool) option" where
  "et_setup an T =
     (case et_Q T of
        Some Q \<Rightarrow> Some (T, True)
      | None \<Rightarrow> do {
          let (ok, ok1, ok2, a) = an_init an;
          (Q, m) \<leftarrow> timerqueue_init ok ok1 ok2 a (et_tq T);
          (case Q of
             None \<Rightarrow> Some (T\<lparr>et_tq := m\<rparr>, False)
           | Some Q \<Rightarrow>
               (if \<not> an_atexit an then do {
                  m \<leftarrow> timerqueue_free (\<lambda>_. an_alloc an) (Some Q) m;
                  Some (T\<lparr>et_Q := None, et_tq := m\<rparr>, False)
                } else Some (T\<lparr>et_Q := Some Q, et_tq := m\<rparr>, True)))
        })"

definition events_timer_register ::
  "et_ans \<Rightarrow> nat \<Rightarrow> ptr \<Rightarrow> timeval \<Rightarrow> evtimer \<Rightarrow> ermem \<Rightarrow> (evtimer \<times> ermem \<times> ptr) option" where
  "events_timer_register an func cookie timeo T em = do {
     (T, ok) \<leftarrow> et_setup an T;
     if \<not> ok then Some (T, em, 0)
     else do {
       let (em, r) = events_mkrec (an_r an) func cookie em;
       if r = 0 then Some (T, em, 0)
       else if an_t an = 0 then do {
         em \<leftarrow> events_freerec r em;
         Some (T, em, 0)
       }
       else do {
         let t = an_t an;
         let T = T\<lparr>et_mem := (et_mem T)(t \<mapsto> \<lparr>et_r = r, et_cookie = 0, et_orig = timeo\<rparr>)\<rparr>;
         tv \<leftarrow> gettimeout (an_clock an) timeo;
         (case tv of
            None \<Rightarrow> do {
              T \<leftarrow> t_free t T;
              em \<leftarrow> events_freerec r em;
              Some (T, em, 0)
            }
          | Some tv \<Rightarrow> do {
              Q \<leftarrow> et_Q T;
              (Q, m, c) \<leftarrow> timerqueue_add (an_rec an) (an_alloc an) Q tv t (et_tq T);
              let T = T\<lparr>et_Q := Some Q, et_tq := m,
                        et_mem := (et_mem T)(t \<mapsto> \<lparr>et_r = r, et_cookie = c, et_orig = timeo\<rparr>)\<rparr>;
              if c = 0 then do {
                T \<leftarrow> t_free t T;
                em \<leftarrow> events_freerec r em;
                Some (T, em, 0)
              }
              else Some (T, em, t)
            })
       }
     }
   }"

definition events_timer_cancel :: "alloc \<Rightarrow> ptr \<Rightarrow> evtimer \<Rightarrow> ermem \<Rightarrow> (evtimer \<times> ermem) option" where
  "events_timer_cancel a p T em = do {
     t \<leftarrow> et_mem T p;
     Q \<leftarrow> et_Q T;
     (Q, m) \<leftarrow> timerqueue_delete a Q (et_cookie t) (et_tq T);
     let T = T\<lparr>et_Q := Some Q, et_tq := m\<rparr>;
     em \<leftarrow> events_freerec (et_r t) em;
     T \<leftarrow> t_free p T;
     Some (T, em)
   }"

definition events_timer_reset :: "timeval option \<Rightarrow> ptr \<Rightarrow> evtimer \<Rightarrow> (evtimer \<times> int) option" where
  "events_timer_reset clock p T = do {
     t \<leftarrow> et_mem T p;
     tv \<leftarrow> gettimeout clock (et_orig t);
     (case tv of
        None \<Rightarrow> Some (T, -1)
      | Some tv \<Rightarrow> do {
          Q \<leftarrow> et_Q T;
          (Q, m) \<leftarrow> timerqueue_increase Q (et_cookie t) tv (et_tq T);
          Some (T\<lparr>et_Q := Some Q, et_tq := m\<rparr>, 0)
        })
   }"

text \<open>The return code and \<open>*timeo\<close>; \<open>ok\<close> is whether \<open>malloc\<close> succeeds.\<close>

definition events_timer_min :: "bool \<Rightarrow> timeval option \<Rightarrow> evtimer \<Rightarrow> (int \<times> timeval option) option" where
  "events_timer_min ok clock T =
     (case et_Q T of
        None \<Rightarrow> Some (0, None)
      | Some Q \<Rightarrow> do {
          tv \<leftarrow> timerqueue_getmin Q (et_tq T);
          (case tv of
             None \<Rightarrow> Some (0, None)
           | Some tv \<Rightarrow>
               (if \<not> ok then Some (-1, None)
                else case clock of
                  None \<Rightarrow> Some (-1, None)
                | Some tnow \<Rightarrow>
                    (if tv_sec tnow > tv_sec tv \<or> tv_sec tnow = tv_sec tv \<and> tv_usec tnow > tv_usec tv
                     then Some (0, Some \<lparr>tv_sec = 0, tv_usec = 0\<rparr>)
                     else do {
                       sec \<leftarrow> time_t (tv_sec tv - tv_sec tnow);
                       usec \<leftarrow> time_t (tv_usec tv - tv_usec tnow);
                       if tv_usec tv < tv_usec tnow then do {
                         usec \<leftarrow> time_t (usec + 1000000);
                         sec \<leftarrow> time_t (sec - 1);
                         Some (0, Some \<lparr>tv_sec = sec, tv_usec = usec\<rparr>)
                       }
                       else Some (0, Some \<lparr>tv_sec = sec, tv_usec = usec\<rparr>)
                     })))
        })"

definition events_timer_get :: "timeval option \<Rightarrow> alloc \<Rightarrow> evtimer \<Rightarrow> (evtimer \<times> int \<times> ptr) option" where
  "events_timer_get clock a T =
     (case et_Q T of
        None \<Rightarrow> Some (T, 0, 0)
      | Some Q \<Rightarrow>
          (case clock of
             None \<Rightarrow> Some (T, -1, 0)
           | Some tnow \<Rightarrow> do {
               (Q, m, p) \<leftarrow> timerqueue_getptr a Q tnow (et_tq T);
               let T = T\<lparr>et_Q := Some Q, et_tq := m\<rparr>;
               if p \<noteq> 0 then do {
                 t \<leftarrow> et_mem T p;
                 T \<leftarrow> t_free p T;
                 Some (T, 0, et_r t)
               }
               else Some (T, 0, 0)
             }))"

definition events_timer_shutdown :: "(nat \<Rightarrow> alloc) \<Rightarrow> evtimer \<Rightarrow> evtimer option" where
  "events_timer_shutdown a T =
     (case et_Q T of
        None \<Rightarrow> Some T
      | Some Q \<Rightarrow> do {
          tv \<leftarrow> timerqueue_getmin Q (et_tq T);
          if tv = None then do {
            m \<leftarrow> timerqueue_free a (Some Q) (et_tq T);
            Some (T\<lparr>et_Q := None, et_tq := m\<rparr>)
          }
          else Some T
        })"


section \<open>Times\<close>

text \<open>
  \<open>tv_norm\<close> is what is asked of the clock and of a client: less than a million microseconds, and no
  more than \<open>2^61\<close> seconds, which is \<open>7 * 10^10\<close> years.  Then the time at which a timer expires is
  \<open>tv_later\<close>, and no sum or difference overflows.
\<close>

definition tv_norm :: "timeval \<Rightarrow> bool" where
  "tv_norm tv \<longleftrightarrow> 0 \<le> tv_usec tv \<and> tv_usec tv < 1000000 \<and> - (2 ^ 61) \<le> tv_sec tv \<and> tv_sec tv < 2 ^ 61"

definition tv_later :: "timeval \<Rightarrow> bool" where
  "tv_later tv \<longleftrightarrow> 0 \<le> tv_usec tv \<and> tv_usec tv < 1000000 \<and> - (2 ^ 62) \<le> tv_sec tv \<and> tv_sec tv < 2 ^ 62"

lemma tv_norm_later: "tv_norm tv \<Longrightarrow> tv_later tv"
  by (simp add: tv_norm_def tv_later_def)

definition tv_us :: "timeval \<Rightarrow> int" where
  "tv_us tv = tv_sec tv * 1000000 + tv_usec tv"

lemma tv_key_us: "tv_later a \<Longrightarrow> tv_later b \<Longrightarrow> tv_key a \<le> tv_key b \<longleftrightarrow> tv_us a \<le> tv_us b"
  unfolding tv_later_def tv_us_def tv_key_def less_eq_prod_simp by (auto; presburger)

lemma gettimeout_us:
  assumes "tv_norm tnow" "tv_norm d"
  shows "\<exists>tv. gettimeout (Some tnow) d = Some (Some tv) \<and> tv_later tv \<and> tv_us tv = tv_us tnow + tv_us d"
  using assms by (simp add: gettimeout_def time_t_def tv_norm_def tv_later_def tv_us_def Let_def)

lemma gettimeout_None [simp]: "gettimeout None d = Some None"
  by (simp add: gettimeout_def)


section \<open>Invariant and abstraction\<close>

text \<open>
  The queue is sound; its user pointers and the cookies of the timers point at each other; no
  time has more than a million microseconds.
\<close>

definition tim_queue :: "evtimer \<Rightarrow> bool" where
  "tim_queue T \<longleftrightarrow> (case et_Q T of None \<Rightarrow> et_tq T = Map.empty | Some Q \<Rightarrow> tq_inv Q (et_tq T))"

definition tim_link :: "tqabs \<Rightarrow> (ptr \<Rightarrow> etimer option) \<Rightarrow> bool" where
  "tim_link A m \<longleftrightarrow> m 0 = None \<and>
     (\<forall>p t. m p = Some t \<longrightarrow> et_r t \<noteq> 0 \<and> tv_norm (et_orig t) \<and> (\<exists>tv. A (et_cookie t) = Some (tv, p))) \<and>
     (\<forall>c tv p. A c = Some (tv, p) \<longrightarrow> tv_later tv \<and> (\<exists>t. m p = Some t \<and> et_cookie t = c))"

definition tim_inv :: "evtimer \<Rightarrow> bool" where
  "tim_inv T \<longleftrightarrow> tim_queue T \<and> tim_link (timers (et_tq T)) (et_mem T)"

text \<open>The abstract state: for each timer when it expires, its period and its event record.\<close>

type_synonym timabs = "ptr \<Rightarrow> (timeval \<times> timeval \<times> ptr) option"

definition tim_view :: "tqabs \<Rightarrow> (ptr \<Rightarrow> etimer option) \<Rightarrow> timabs" where
  "tim_view A m p = do { t \<leftarrow> m p; (tv, _) \<leftarrow> A (et_cookie t); Some (tv, et_orig t, et_r t) }"

definition tim_abs :: "evtimer \<Rightarrow> timabs" where
  "tim_abs T = tim_view (timers (et_tq T)) (et_mem T)"

lemma tim_inv0: "tim_inv evtimer0" "tim_abs evtimer0 = Map.empty"
  by (auto simp: tim_inv_def tim_abs_def tim_view_def tim_queue_def tim_link_def evtimer0_def timers_def)

lemma tim_link_dom: "tim_link A m \<Longrightarrow> tim_view A m p = None \<longleftrightarrow> m p = None"
  by (cases "m p") (fastforce simp: tim_link_def tim_view_def)+

lemma tim_link_cookie:
  assumes "tim_link A m" "m p = Some t" "m p' = Some t'" "et_cookie t = et_cookie t'"
  shows "p = p'"
proof -
  from assms obtain tv tv' where "A (et_cookie t) = Some (tv, p)" "A (et_cookie t') = Some (tv', p')"
    unfolding tim_link_def by blast
  with assms(4) show ?thesis by simp
qed

lemma tim_link_add:
  assumes l: "tim_link A m" and f: "p \<noteq> 0" "m p = None" "c \<notin> dom A" and t: "r \<noteq> 0" "tv_later tv" "tv_norm d"
  shows "tim_link (A(c \<mapsto> (tv, p))) (m(p \<mapsto> \<lparr>et_r = r, et_cookie = c, et_orig = d\<rparr>))"
    and "tim_view (A(c \<mapsto> (tv, p))) (m(p \<mapsto> \<lparr>et_r = r, et_cookie = c, et_orig = d\<rparr>)) = (tim_view A m)(p \<mapsto> (tv, d, r))"
proof -
  have other: "et_cookie t \<noteq> c" if "m q = Some t" for q t using l f(3) that by (fastforce simp: tim_link_def)
  have "q \<noteq> p" if "A c' = Some (tv', q)" for c' tv' q using l f(2) that by (fastforce simp: tim_link_def)
  with other show "tim_link (A(c \<mapsto> (tv, p))) (m(p \<mapsto> \<lparr>et_r = r, et_cookie = c, et_orig = d\<rparr>))"
    using l f t unfolding tim_link_def by auto
  show "tim_view (A(c \<mapsto> (tv, p))) (m(p \<mapsto> \<lparr>et_r = r, et_cookie = c, et_orig = d\<rparr>)) = (tim_view A m)(p \<mapsto> (tv, d, r))"
  proof (rule ext)
    fix q
    show "tim_view (A(c \<mapsto> (tv, p))) (m(p \<mapsto> \<lparr>et_r = r, et_cookie = c, et_orig = d\<rparr>)) q = ((tim_view A m)(p \<mapsto> (tv, d, r))) q"
      using other by (cases "q = p"; cases "m q") (auto simp: tim_view_def)
  qed
qed

lemma tim_link_del:
  assumes l: "tim_link A m" and t: "m p = Some t"
  shows "tim_link (A(et_cookie t := None)) (m(p := None))"
    and "tim_view (A(et_cookie t := None)) (m(p := None)) = (tim_view A m)(p := None)"
proof -
  have other: "et_cookie t' \<noteq> et_cookie t" if "m q = Some t'" "q \<noteq> p" for q t'
    using tim_link_cookie [OF l that(1) t] that(2) by blast
  have "q \<noteq> p" if "A c = Some (tv, q)" "c \<noteq> et_cookie t" for c tv q using l t that by (fastforce simp: tim_link_def)
  with other show "tim_link (A(et_cookie t := None)) (m(p := None))"
    using l unfolding tim_link_def by (auto; metis)
  show "tim_view (A(et_cookie t := None)) (m(p := None)) = (tim_view A m)(p := None)"
  proof (rule ext)
    fix q
    show "tim_view (A(et_cookie t := None)) (m(p := None)) q = ((tim_view A m)(p := None)) q"
      using other by (cases "q = p"; cases "m q") (auto simp: tim_view_def)
  qed
qed

lemma tim_link_reset:
  assumes l: "tim_link A m" and t: "m p = Some t" and tv: "tv_later tv"
  shows "tim_link (A(et_cookie t \<mapsto> (tv, p))) m"
    and "tim_view (A(et_cookie t \<mapsto> (tv, p))) m = (tim_view A m)(p \<mapsto> (tv, et_orig t, et_r t))"
proof -
  have other: "et_cookie t' \<noteq> et_cookie t" if "m q = Some t'" "q \<noteq> p" for q t'
    using tim_link_cookie [OF l that(1) t] that(2) by blast
  then show "tim_link (A(et_cookie t \<mapsto> (tv, p))) m"
    using l t tv unfolding tim_link_def by (auto; metis)
  show "tim_view (A(et_cookie t \<mapsto> (tv, p))) m = (tim_view A m)(p \<mapsto> (tv, et_orig t, et_r t))"
  proof (rule ext)
    fix q
    show "tim_view (A(et_cookie t \<mapsto> (tv, p))) m q = ((tim_view A m)(p \<mapsto> (tv, et_orig t, et_r t))) q"
      using other t by (cases "q = p"; cases "m q") (auto simp: tim_view_def)
  qed
qed


section \<open>What the operations do\<close>

lemma et_setup_ok:
  assumes "tim_inv T"
  shows "okp (et_setup an T) (\<lambda>(T', ok). tim_inv T' \<and> tim_abs T' = tim_abs T \<and> et_mem T' = et_mem T \<and>
     et_tq T' = et_tq T \<and> (ok \<longrightarrow> et_Q T' \<noteq> None))"
proof (cases "et_Q T")
  case (Some Q)
  with assms show ?thesis by (simp add: et_setup_def)
next
  case None
  with assms have m: "et_tq T = Map.empty" by (simp add: tim_inv_def tim_queue_def)
  obtain ok ok1 ok2 a where an: "an_init an = (ok, ok1, ok2, a)" by (metis prod_cases4)
  from timerqueue_init_ok [of ok ok1 ok2 a] obtain res where
    i: "timerqueue_init ok ok1 ok2 a Map.empty = Some (res, Map.empty)" "\<And>Q. res = Some Q \<Longrightarrow> tq_inv Q Map.empty"
    by (auto elim!: okpE split: option.splits)
  show ?thesis
  proof (cases res)
    case None
    with i(1) an m \<open>et_Q T = None\<close> assms show ?thesis
      by (simp add: et_setup_def tim_inv_def tim_queue_def tim_abs_def)
  next
    case (Some Q)
    with i(2) timerqueue_free_ok [of Q Map.empty] have "timerqueue_free (\<lambda>_. an_alloc an) (Some Q) Map.empty = Some Map.empty"
      by blast
    with i Some an m None assms show ?thesis
      by (simp add: et_setup_def tim_inv_def tim_queue_def tim_abs_def)
  qed
qed

text \<open>What the answers promise: new addresses are not in use, and the clock is normal.\<close>

definition an_ok :: "et_ans \<Rightarrow> evtimer \<Rightarrow> ermem \<Rightarrow> bool" where
  "an_ok an T em \<longleftrightarrow> fresh_ptr (an_r an) em \<and> fresh_ptr (an_t an) (et_mem T) \<and>
     (\<forall>tv. an_clock an = Some tv \<longrightarrow> tv_norm tv) \<and>
     (case an_rec an of None \<Rightarrow> True | Some (c, _) \<Rightarrow> c \<noteq> 0 \<and> et_tq T c = None)"

lemma timerqueue_add_spec:
  assumes "tq_inv Q m" "case rc of None \<Rightarrow> True | Some (c, _) \<Rightarrow> c \<noteq> 0 \<and> m c = None"
  shows "okp (timerqueue_add rc a Q tv p m) (\<lambda>(Q', m', c). tq_inv Q' m' \<and>
     (c \<noteq> 0 \<and> c \<notin> dom (timers m) \<and> timers m' = (timers m)(c \<mapsto> (tv, p)) \<or> c = 0 \<and> timers m' = timers m))"
proof (cases rc)
  case None
  with assms show ?thesis by (simp add: timerqueue_add_def)
next
  case (Some x)
  then obtain c junk where x: "rc = Some (c, junk)" by (cases x) auto
  with assms have c: "c \<noteq> 0" "m c = None" by auto
  show ?thesis unfolding x
    by (rule okp_mono [OF timerqueue_add_ok [OF assms(1) c]]) (use c timers_fresh [of m c] in auto)
qed

lemma events_timer_register_ok:
  assumes inv: "tim_inv T" and an: "an_ok an T em" and timeo: "tv_norm timeo"
  shows "okp (events_timer_register an func cookie timeo T em) (\<lambda>(T', em', p). tim_inv T' \<and>
     (p = 0 \<and> em' = em \<and> tim_abs T' = tim_abs T \<and> et_mem T' = et_mem T \<or>
      (\<exists>tnow tv. p \<noteq> 0 \<and> p = an_t an \<and> an_clock an = Some tnow \<and> tv_us tv = tv_us tnow + tv_us timeo \<and> an_r an \<noteq> 0 \<and>
         em' = em(an_r an \<mapsto> \<lparr>er_func = func, er_cookie = cookie\<rparr>) \<and>
         tim_abs T' = (tim_abs T)(p \<mapsto> (tv, timeo, an_r an)))))"
proof -
  from et_setup_ok [OF inv, of an] obtain T1 ok where T1: "et_setup an T = Some (T1, ok)" "tim_inv T1"
    "tim_abs T1 = tim_abs T" "et_mem T1 = et_mem T" "et_tq T1 = et_tq T" "ok \<longrightarrow> et_Q T1 \<noteq> None"
    by (auto elim!: okpE)
  let ?t = "an_t an" and ?r = "an_r an"
  show ?thesis
  proof (cases "ok \<and> ?r \<noteq> 0 \<and> ?t \<noteq> 0")
    case False
    with T1 an show ?thesis
      by (auto simp: events_timer_register_def events_mkrec_def an_ok_def fresh_ptr_def fun_upd_idem wp_rules)
  next
    case True
    then obtain Q where Q: "et_Q T1 = Some Q" using T1(6) by auto
    have fresh: "em ?r = None" "et_mem T1 ?t = None" "et_mem T ?t = None"
      using an True T1(4) by (auto simp: an_ok_def fresh_ptr_def)
    show ?thesis
    proof (cases "an_clock an")
      case None
      with True T1(1) fresh(1,2) have "events_timer_register an func cookie timeo T em = Some (T1, em, 0)"
        by (simp add: events_timer_register_def events_mkrec_def events_freerec_def t_free_def fun_upd_idem)
      with T1 show ?thesis by simp
    next
      case (Some tnow)
      with an have "tv_norm tnow" by (simp add: an_ok_def)
      from gettimeout_us [OF this timeo] obtain tv where
        tv: "gettimeout (Some tnow) timeo = Some (Some tv)" "tv_later tv" "tv_us tv = tv_us tnow + tv_us timeo" by blast
      have tq: "tq_inv Q (et_tq T1)" using T1(2) Q by (simp add: tim_inv_def tim_queue_def)
      have link: "tim_link (timers (et_tq T1)) (et_mem T1)" using T1(2) by (simp add: tim_inv_def)
      have "case an_rec an of None \<Rightarrow> True | Some (c, _) \<Rightarrow> c \<noteq> 0 \<and> et_tq T1 c = None"
        using an unfolding an_ok_def T1(5) by blast
      from timerqueue_add_spec [OF tq this, of "an_alloc an" tv ?t] obtain Q' m' c where
        add: "timerqueue_add (an_rec an) (an_alloc an) Q tv ?t (et_tq T1) = Some (Q', m', c)" "tq_inv Q' m'"
          "c \<noteq> 0 \<and> c \<notin> dom (timers (et_tq T1)) \<and> timers m' = (timers (et_tq T1))(c \<mapsto> (tv, ?t)) \<or>
           c = 0 \<and> timers m' = timers (et_tq T1)"
        by (auto elim!: okpE)
      show ?thesis
      proof (cases "c = 0")
        case True
        with \<open>ok \<and> ?r \<noteq> 0 \<and> ?t \<noteq> 0\<close> T1 Q Some tv add fresh link show ?thesis
          by (simp add: events_timer_register_def events_mkrec_def t_free_def fun_upd_idem wp_rules
              tim_inv_def tim_queue_def tim_abs_def)
      next
        case False
        then have c: "c \<notin> dom (timers (et_tq T1))" "timers m' = (timers (et_tq T1))(c \<mapsto> (tv, ?t))"
          using add(3) by auto
        note new = tim_link_add [OF link _ fresh(2) c(1) _ tv(2) timeo, of ?r]
        have T: "timers (et_tq T1) = timers (et_tq T)" using T1(5) by simp
        from new \<open>ok \<and> ?r \<noteq> 0 \<and> ?t \<noteq> 0\<close> T1(1,4) Q Some tv add(1,2) False c(2) T show ?thesis
          by (simp add: events_timer_register_def events_mkrec_def wp_rules tim_inv_def tim_queue_def tim_abs_def Let_def) blast
      qed
    qed
  qed
qed

lemma events_timer_cancel_ok:
  assumes inv: "tim_inv T" and t: "et_mem T p = Some t" and live: "em (et_r t) \<noteq> None"
  shows "okp (events_timer_cancel a p T em) (\<lambda>(T', em'). tim_inv T' \<and> em' = em(et_r t := None) \<and>
     tim_abs T' = (tim_abs T)(p := None))"
proof -
  have link: "tim_link (timers (et_tq T)) (et_mem T)" using inv by (simp add: tim_inv_def)
  then have c: "et_cookie t \<in> dom (timers (et_tq T))" using t by (fastforce simp: tim_link_def)
  then have "et_tq T \<noteq> Map.empty" by (auto simp: timers_def split: if_splits)
  with inv obtain Q where Q: "et_Q T = Some Q" "tq_inv Q (et_tq T)"
    by (cases "et_Q T") (auto simp: tim_inv_def tim_queue_def)
  from timerqueue_delete_ok [OF Q(2) c, of a] obtain Q' m' where
    "timerqueue_delete a Q (et_cookie t) (et_tq T) = Some (Q', m')" "tq_inv Q' m'"
    "timers m' = (timers (et_tq T))(et_cookie t := None)" by (auto elim!: okpE)
  with Q t live tim_link_del [OF link t] show ?thesis
    by (simp add: events_timer_cancel_def t_free_def wp_rules tim_inv_def tim_queue_def tim_abs_def)
qed

text \<open>A reset needs a clock that has not gone back behind the timer's last start.\<close>

lemma events_timer_reset_ok:
  assumes inv: "tim_inv T" and p: "tim_abs T p = Some (tv0, d, r)"
    and clock: "\<And>tnow. clock = Some tnow \<Longrightarrow> tv_norm tnow \<and> tv_us tv0 \<le> tv_us tnow + tv_us d"
  shows "okp (events_timer_reset clock p T) (\<lambda>(T', rc). tim_inv T' \<and> et_mem T' = et_mem T \<and>
     (case clock of None \<Rightarrow> rc = -1 \<and> T' = T
      | Some tnow \<Rightarrow> rc = 0 \<and> (\<exists>tv. tv_us tv = tv_us tnow + tv_us d \<and> tim_abs T' = (tim_abs T)(p \<mapsto> (tv, d, r)))))"
proof -
  have link: "tim_link (timers (et_tq T)) (et_mem T)" using inv by (simp add: tim_inv_def)
  from p obtain t where t: "et_mem T p = Some t" "d = et_orig t" "r = et_r t"
    and tv0: "\<exists>q. timers (et_tq T) (et_cookie t) = Some (tv0, q)"
    by (auto simp: tim_abs_def tim_view_def bind_eq_Some_conv)
  with link have c: "timers (et_tq T) (et_cookie t) = Some (tv0, p)" "tv_later tv0" "tv_norm d"
    unfolding tim_link_def by fastforce+
  then have "et_tq T \<noteq> Map.empty" by (auto simp: timers_def split: if_splits)
  with inv obtain Q where Q: "et_Q T = Some Q" "tq_inv Q (et_tq T)"
    by (cases "et_Q T") (auto simp: tim_inv_def tim_queue_def)
  show ?thesis
  proof (cases clock)
    case None
    with t inv show ?thesis by (simp add: events_timer_reset_def)
  next
    case (Some tnow)
    with clock have now: "tv_norm tnow" "tv_us tv0 \<le> tv_us tnow + tv_us d" by auto
    from gettimeout_us [OF now(1) c(3)] obtain tv where
      tv: "gettimeout (Some tnow) d = Some (Some tv)" "tv_later tv" "tv_us tv = tv_us tnow + tv_us d" by blast
    have "tv_key tv0 \<le> tv_key tv" using tv now c tv_key_us by simp
    from timerqueue_increase_ok [OF Q(2) c(1) this] obtain Q' m' where
      "timerqueue_increase Q (et_cookie t) tv (et_tq T) = Some (Q', m')" "tq_inv Q' m'"
      "timers m' = (timers (et_tq T))(et_cookie t \<mapsto> (tv, p))" by (auto elim!: okpE)
    with Q t Some tv tim_link_reset [OF link t(1) tv(2)] show ?thesis
      by (auto simp: events_timer_reset_def wp_rules tim_inv_def tim_queue_def tim_abs_def)
  qed
qed

text \<open>A least timer of the abstract state.\<close>

definition tim_least :: "timabs \<Rightarrow> ptr \<Rightarrow> bool" where
  "tim_least A p \<longleftrightarrow> (\<exists>tv d r. A p = Some (tv, d, r) \<and>
     (\<forall>q tv' d' r'. A q = Some (tv', d', r') \<longrightarrow> tv_us tv \<le> tv_us tv'))"

lemma tim_abs_norm:
  assumes "tim_inv T" "tim_abs T p = Some (tv, d, r)"
  shows "tv_later tv" "tv_norm d" "r \<noteq> 0"
proof -
  from assms(2) obtain t where t: "et_mem T p = Some t" "d = et_orig t" "r = et_r t"
    and tv: "\<exists>q. timers (et_tq T) (et_cookie t) = Some (tv, q)"
    by (auto simp: tim_abs_def tim_view_def bind_eq_Some_conv)
  with assms(1) show "tv_later tv" "tv_norm d" "r \<noteq> 0" unfolding tim_inv_def tim_link_def by fastforce+
qed

lemma tim_abs_timer:
  assumes "tim_inv T" "timers (et_tq T) c = Some (tv, p)"
  obtains t where "et_mem T p = Some t" "et_cookie t = c" "tim_abs T p = Some (tv, et_orig t, et_r t)"
proof -
  from assms obtain t where "et_mem T p = Some t" "et_cookie t = c" unfolding tim_inv_def tim_link_def by blast
  with assms(2) that show thesis by (auto simp: tim_abs_def tim_view_def)
qed

lemma tim_abs_queued:
  assumes "tim_abs T q = Some (tv, d, r)"
  obtains c q' where "timers (et_tq T) c = Some (tv, q')"
proof -
  from assms obtain t where "et_mem T q = Some t" by (auto simp: tim_abs_def tim_view_def bind_eq_Some_conv)
  with assms that show thesis by (auto simp: tim_abs_def tim_view_def bind_eq_Some_conv)
qed

lemma tim_least_of:
  assumes inv: "tim_inv T" and least: "tq_least (timers (et_tq T)) c" and c: "timers (et_tq T) c = Some (tv, p)"
  shows "tim_least (tim_abs T) p"
proof -
  from tim_abs_timer [OF inv c] obtain t where "et_mem T p = Some t" "et_cookie t = c" and t: "tim_abs T p = Some (tv, et_orig t, et_r t)" .
  have "tv_us tv \<le> tv_us tv'" if q: "tim_abs T q = Some (tv', d', r')" for q tv' d' r'
  proof -
    from q obtain c' q' where "timers (et_tq T) c' = Some (tv', q')" by (rule tim_abs_queued)
    with tq_least_least [OF least c] have "tv_key tv \<le> tv_key tv'" by blast
    then show ?thesis using tv_key_us tim_abs_norm(1) [OF inv t] tim_abs_norm(1) [OF inv q] by blast
  qed
  with t show ?thesis unfolding tim_least_def by blast
qed

lemma tim_abs_empty: "tim_inv T \<Longrightarrow> tim_abs T = Map.empty \<longleftrightarrow> timers (et_tq T) = Map.empty"
proof
  assume inv: "tim_inv T" and e: "tim_abs T = Map.empty"
  show "timers (et_tq T) = Map.empty"
  proof (rule ext)
    fix c
    show "timers (et_tq T) c = None"
    proof (cases "timers (et_tq T) c")
      case (Some x)
      then obtain tv p where "timers (et_tq T) c = Some (tv, p)" by (cases x) auto
      from tim_abs_timer [OF inv this] obtain t where "et_mem T p = Some t" "et_cookie t = c" "tim_abs T p = Some (tv, et_orig t, et_r t)" .
      with e show ?thesis by simp
    qed
  qed
qed (auto simp: tim_abs_def tim_view_def fun_eq_iff split: Option.bind_splits)

lemma events_timer_min_ok:
  assumes inv: "tim_inv T" and clock: "\<And>tnow. clock = Some tnow \<Longrightarrow> tv_norm tnow"
  shows "okp (events_timer_min ok clock T) (\<lambda>(rc, timeo).
     if tim_abs T = Map.empty then rc = 0 \<and> timeo = None
     else if \<not> ok \<or> clock = None then rc = -1 \<and> timeo = None
     else rc = 0 \<and> (\<exists>tnow p tv d r x. clock = Some tnow \<and> tim_least (tim_abs T) p \<and> tim_abs T p = Some (tv, d, r) \<and>
            timeo = Some x \<and> 0 \<le> tv_usec x \<and> tv_usec x < 1000000 \<and> tv_us x = max 0 (tv_us tv - tv_us tnow)))"
proof (cases "et_Q T")
  case None
  with inv have "timers (et_tq T) = Map.empty" by (auto simp: tim_inv_def tim_queue_def timers_def)
  with None tim_abs_empty [OF inv] show ?thesis by (simp add: events_timer_min_def)
next
  case (Some Q)
  then have "tq_inv Q (et_tq T)" using inv by (simp add: tim_inv_def tim_queue_def)
  from timerqueue_getmin_ok [OF this] obtain res where
    res: "timerqueue_getmin Q (et_tq T) = Some res" "case res of None \<Rightarrow> timers (et_tq T) = Map.empty
       | Some tv \<Rightarrow> \<exists>c p. tq_least (timers (et_tq T)) c \<and> timers (et_tq T) c = Some (tv, p)"
    by (auto elim!: okpE)
  show ?thesis
  proof (cases res)
    case None
    with Some res tim_abs_empty [OF inv] show ?thesis by (simp add: events_timer_min_def)
  next
    case tv: (Some tv)
    with res(2) obtain c p where c: "tq_least (timers (et_tq T)) c" "timers (et_tq T) c = Some (tv, p)" by auto
    from tim_abs_timer [OF inv c(2)] obtain t where "et_mem T p = Some t" "et_cookie t = c" and p: "tim_abs T p = Some (tv, et_orig t, et_r t)" .
    have ne: "tim_abs T \<noteq> Map.empty" using p by auto
    show ?thesis
    proof (cases "\<not> ok \<or> clock = None")
      case True
      with Some res(1) tv ne show ?thesis by (auto simp: events_timer_min_def)
    next
      case False
      then obtain tnow where now: "ok" "clock = Some tnow" "tv_norm tnow" using clock by auto
      note n = tim_abs_norm(1) [OF inv p] now(3)
      define x where "x = (if tv_sec tnow > tv_sec tv \<or> tv_sec tnow = tv_sec tv \<and> tv_usec tnow > tv_usec tv
         then \<lparr>tv_sec = 0, tv_usec = 0\<rparr>
         else if tv_usec tv < tv_usec tnow
         then \<lparr>tv_sec = tv_sec tv - tv_sec tnow - 1, tv_usec = tv_usec tv - tv_usec tnow + 1000000\<rparr>
         else \<lparr>tv_sec = tv_sec tv - tv_sec tnow, tv_usec = tv_usec tv - tv_usec tnow\<rparr>)"
      have "events_timer_min ok clock T = Some (0, Some x)"
        using Some res(1) tv now n by (auto simp: events_timer_min_def time_t_def tv_norm_def tv_later_def x_def)
      moreover have "0 \<le> tv_usec x" "tv_usec x < 1000000" "tv_us x = max 0 (tv_us tv - tv_us tnow)"
        using n by (auto simp: x_def tv_norm_def tv_later_def tv_us_def max_def)
      ultimately show ?thesis
        using ne now(1,2) p tim_least_of [OF inv c] by auto
    qed
  qed
qed

text \<open>Some timer is due at \<open>tnow\<close>.\<close>

definition tim_due :: "timabs \<Rightarrow> timeval \<Rightarrow> bool" where
  "tim_due A tnow \<longleftrightarrow> (\<exists>p tv d r. A p = Some (tv, d, r) \<and> tv_us tv \<le> tv_us tnow)"

lemma events_timer_get_ok:
  assumes inv: "tim_inv T" and clock: "\<And>tnow. clock = Some tnow \<Longrightarrow> tv_norm tnow"
  shows "okp (events_timer_get clock a T) (\<lambda>(T', rc, r). tim_inv T' \<and>
     (case clock of
        None \<Rightarrow> rc = (if et_Q T = None then 0 else -1) \<and> r = 0 \<and> T' = T
      | Some tnow \<Rightarrow> rc = 0 \<and>
         (if tim_due (tim_abs T) tnow
          then \<exists>p tv d. tim_least (tim_abs T) p \<and> tim_abs T p = Some (tv, d, r) \<and> r \<noteq> 0 \<and> tim_abs T' = (tim_abs T)(p := None)
          else r = 0 \<and> tim_abs T' = tim_abs T \<and> et_mem T' = et_mem T)))"
proof (cases "et_Q T = None \<or> clock = None")
  case True
  have "tim_abs T = Map.empty" if "et_Q T = None"
    using inv that tim_abs_empty [OF inv] by (auto simp: tim_inv_def tim_queue_def timers_def)
  with True inv show ?thesis by (auto simp: events_timer_get_def tim_due_def split: option.splits)
next
  case False
  then obtain Q tnow where Q: "et_Q T = Some Q" "clock = Some tnow" "tv_norm tnow" using clock by auto
  have tq: "tq_inv Q (et_tq T)" and link: "tim_link (timers (et_tq T)) (et_mem T)"
    using inv Q by (auto simp: tim_inv_def tim_queue_def)
  from timerqueue_getptr_ok [OF tq, of a tnow] obtain x where
    x: "timerqueue_getptr a Q tnow (et_tq T) = Some x" "case x of (Q', m', p) \<Rightarrow> tq_inv Q' m' \<and>
       (p = 0 \<and> timers m' = timers (et_tq T) \<and>
         (\<forall>c tvc q. timers (et_tq T) c = Some (tvc, q) \<longrightarrow> tv_key tnow < tv_key tvc) \<or>
        (\<exists>c tvc. tq_least (timers (et_tq T)) c \<and> timers (et_tq T) c = Some (tvc, p) \<and> tv_key tvc \<le> tv_key tnow \<and>
          timers m' = (timers (et_tq T))(c := None)))"
    by (rule okpE)
  obtain Q' m' p where x': "x = (Q', m', p)" by (metis prod_cases3)
  note g = x(1) [unfolded x'] x(2) [unfolded x' prod.case, THEN conjunct1] x(2) [unfolded x' prod.case, THEN conjunct2]
  from g(3) show ?thesis
  proof (elim disjE conjE exE)
    assume n: "p = 0" "timers m' = timers (et_tq T)"
      and late: "\<forall>c tvc q. timers (et_tq T) c = Some (tvc, q) \<longrightarrow> tv_key tnow < tv_key tvc"
    have "\<not> tim_due (tim_abs T) tnow"
    proof
      assume "tim_due (tim_abs T) tnow"
      then obtain q tv d r where q: "tim_abs T q = Some (tv, d, r)" "tv_us tv \<le> tv_us tnow" by (auto simp: tim_due_def)
      from q(1) obtain c q' where "timers (et_tq T) c = Some (tv, q')" by (rule tim_abs_queued)
      with late have "tv_key tnow < tv_key tv" by blast
      then show False using tv_key_us [OF tim_abs_norm(1) [OF inv q(1)] tv_norm_later [OF Q(3)]] q(2) by simp
    qed
    with n g Q link show ?thesis
      by (simp add: events_timer_get_def tim_inv_def tim_queue_def tim_abs_def)
  next
    fix c tvc
    assume least: "tq_least (timers (et_tq T)) c" and c: "timers (et_tq T) c = Some (tvc, p)"
      and due: "tv_key tvc \<le> tv_key tnow" and m': "timers m' = (timers (et_tq T))(c := None)"
    from tim_abs_timer [OF inv c] obtain t where
      t: "et_mem T p = Some t" "et_cookie t = c" "tim_abs T p = Some (tvc, et_orig t, et_r t)" .
    have p0: "p \<noteq> 0" using t(1) link by (auto simp: tim_link_def)
    have "tim_due (tim_abs T) tnow"
      using t(3) due tv_key_us [OF tim_abs_norm(1) [OF inv t(3)] tv_norm_later [OF Q(3)]] unfolding tim_due_def by blast
    moreover have "tim_least (tim_abs T) p" by (rule tim_least_of [OF inv least c])
    moreover note tim_abs_norm(3) [OF inv t(3)] tim_link_del [OF link t(1)]
    ultimately show ?thesis
      using g(1,2) Q p0 t m' by (simp add: events_timer_get_def t_free_def tim_inv_def tim_queue_def tim_abs_def) blast
  qed
qed

lemma events_timer_shutdown_ok:
  assumes inv: "tim_inv T"
  shows "okp (events_timer_shutdown a T) (\<lambda>T'. tim_inv T' \<and> tim_abs T' = tim_abs T \<and>
     (tim_abs T = Map.empty \<longrightarrow> et_Q T' = None \<and> et_tq T' = Map.empty) \<and> (tim_abs T \<noteq> Map.empty \<longrightarrow> T' = T))"
proof (cases "et_Q T")
  case None
  then have "et_tq T = Map.empty" using inv by (simp add: tim_inv_def tim_queue_def)
  then have "timers (et_tq T) = Map.empty" by (auto simp: timers_def)
  with None \<open>et_tq T = Map.empty\<close> inv tim_abs_empty [OF inv] show ?thesis by (simp add: events_timer_shutdown_def)
next
  case (Some Q)
  then have tq: "tq_inv Q (et_tq T)" using inv by (simp add: tim_inv_def tim_queue_def)
  from timerqueue_getmin_ok [OF tq] obtain res where
    res: "timerqueue_getmin Q (et_tq T) = Some res" "res = None \<longleftrightarrow> timers (et_tq T) = Map.empty"
    by (fastforce elim!: okpE split: option.splits)
  have "timers Map.empty = Map.empty" by (auto simp: timers_def)
  with Some res timerqueue_free_ok [OF tq, of a] inv tim_abs_empty [OF inv] show ?thesis
    by (cases res) (auto simp: events_timer_shutdown_def tim_inv_def tim_queue_def tim_abs_def)
qed

end
