(* ===== verification/Events.thy ===== *)
theory Events
  imports Events_Immediate Events_Network Events_Timer
begin

text \<open>
  The event loop, from \<open>events/events.c\<close>, over the three kinds of events.  A callback is known
  by the calls of the event interface that it makes (with the answers of the allocators and of
  the clock that these calls get) and by its return code.  Callbacks do not run the event loop
  themselves.
\<close>

section \<open>State and the event interface\<close>

text \<open>\<open>ev_log\<close> is a ghost: the events that have been run, with their return codes.\<close>

record evstate =
  ev_imm :: evimm
  ev_net :: evnet
  ev_tim :: evtimer
  ev_mem :: ermem
  ev_intr :: bool
  ev_log :: "(eventrec \<times> int) list"

definition evstate0 :: evstate where
  "evstate0 = \<lparr>ev_imm = evimm0, ev_net = evnet0, ev_tim = evtimer0, ev_mem = Map.empty, ev_intr = False, ev_log = []\<rparr>"

definition events_interrupt :: "evstate \<Rightarrow> evstate" where
  "events_interrupt E = E\<lparr>ev_intr := True\<rparr>"

datatype evop =
    ImmRegister ptr ptr nat ptr int
  | ImmCancel ptr
  | NetRegister en_ans nat ptr int int
  | NetCancel en_ans int int
  | TimRegister et_ans nat ptr timeval
  | TimCancel alloc ptr
  | TimReset "timeval option" ptr
  | Interrupt

text \<open>One call of the interface.\<close>

definition ev_call :: "evop \<Rightarrow> evstate \<Rightarrow> evstate option" where
  "ev_call op E =
     (case op of
        ImmRegister r q func cookie prio \<Rightarrow> do {
          (I, em, _) \<leftarrow> events_immediate_register r q func cookie prio (ev_imm E) (ev_mem E);
          Some (E\<lparr>ev_imm := I, ev_mem := em\<rparr>)
        }
      | ImmCancel c \<Rightarrow> do {
          (I, em) \<leftarrow> events_immediate_cancel c (ev_imm E) (ev_mem E);
          Some (E\<lparr>ev_imm := I, ev_mem := em\<rparr>)
        }
      | NetRegister an func cookie s op \<Rightarrow> do {
          (N, em, _) \<leftarrow> events_network_register an func cookie s op (ev_net E) (ev_mem E);
          Some (E\<lparr>ev_net := N, ev_mem := em\<rparr>)
        }
      | NetCancel an s op \<Rightarrow> do {
          (N, em, _) \<leftarrow> events_network_cancel an s op (ev_net E) (ev_mem E);
          Some (E\<lparr>ev_net := N, ev_mem := em\<rparr>)
        }
      | TimRegister an func cookie timeo \<Rightarrow> do {
          (T, em, _) \<leftarrow> events_timer_register an func cookie timeo (ev_tim E) (ev_mem E);
          Some (E\<lparr>ev_tim := T, ev_mem := em\<rparr>)
        }
      | TimCancel a p \<Rightarrow> do {
          (T, em) \<leftarrow> events_timer_cancel a p (ev_tim E) (ev_mem E);
          Some (E\<lparr>ev_tim := T, ev_mem := em\<rparr>)
        }
      | TimReset clock p \<Rightarrow> do {
          (T, _) \<leftarrow> events_timer_reset clock p (ev_tim E);
          Some (E\<lparr>ev_tim := T\<rparr>)
        }
      | Interrupt \<Rightarrow> Some (events_interrupt E))"

fun ev_calls :: "evop list \<Rightarrow> evstate \<Rightarrow> evstate option" where
  "ev_calls [] E = Some E"
| "ev_calls (op # ops) E = do { E \<leftarrow> ev_call op E; ev_calls ops E }"


section \<open>The event loop\<close>

text \<open>
  The environment of a run: what the callbacks do, the signals that request an interrupt, the
  answers for \<open>events_timer_min\<close>, for the polls and for \<open>events_timer_get\<close>.  Each may depend on
  the number of events that have been run.
\<close>

record evenv =
  e_cb :: "nat \<Rightarrow> eventrec \<Rightarrow> evstate \<Rightarrow> evop list \<times> int"
  e_sig :: "nat \<Rightarrow> bool"
  e_min :: "nat \<Rightarrow> bool \<times> timeval option"
  e_wait :: "nat \<Rightarrow> evnet \<Rightarrow> en_ans \<times> (int \<Rightarrow> poll_ans list)"
  e_poll :: "nat \<Rightarrow> evnet \<Rightarrow> en_ans \<times> (int \<Rightarrow> poll_ans list)"
  e_tim :: "nat \<Rightarrow> timeval option \<times> alloc"

datatype runres = Running evstate | Returned evstate int

abbreviation ran :: "evstate \<Rightarrow> nat" where
  "ran E \<equiv> length (ev_log E)"

definition doevent :: "evenv \<Rightarrow> ptr \<Rightarrow> evstate \<Rightarrow> (evstate \<times> int) option" where
  "doevent env r E = do {
     er \<leftarrow> ev_mem E r;
     let (ops, rc) = e_cb env (ran E) er E;
     E \<leftarrow> ev_calls ops E;
     em \<leftarrow> events_freerec r (ev_mem E);
     Some (E\<lparr>ev_mem := em, ev_log := ev_log E @ [(er, rc)]\<rparr>, rc)
   }"

text \<open>A signal handler may have requested an interrupt before the flag is read.\<close>

definition signalled :: "evenv \<Rightarrow> evstate \<Rightarrow> evstate" where
  "signalled env E = (if e_sig env (ran E) then events_interrupt E else E)"

text \<open>
  The loop over the immediate events, the first argument bounds the number of its rounds.
\<close>

fun imm_loop :: "nat \<Rightarrow> evenv \<Rightarrow> ptr \<Rightarrow> evstate \<Rightarrow> runres option" where
  "imm_loop fuel env r E =
     (if r = 0 then Some (Returned E 0)
      else case fuel of
        0 \<Rightarrow> Some (Running E)
      | Suc fuel \<Rightarrow> do {
          (E, rc) \<leftarrow> doevent env r E;
          if rc \<noteq> 0 then Some (Returned E rc)
          else do {
            let E = signalled env E;
            if ev_intr E then Some (Returned E rc)
            else do {
              (I, r) \<leftarrow> events_immediate_get (ev_imm E);
              imm_loop fuel env r (E\<lparr>ev_imm := I\<rparr>)
            }
          }
        })"

declare imm_loop.simps [simp del]

text \<open>The calls in one round of the main loop that look for an event.\<close>

definition ev_select :: "en_ans \<times> (int \<Rightarrow> poll_ans list) \<Rightarrow> timeval option \<Rightarrow> evstate \<Rightarrow> (evstate \<times> int) option" where
  "ev_select a tv E = do {
     (N, rc) \<leftarrow> events_network_select (fst a) (snd a) tv (ev_net E);
     Some (E\<lparr>ev_net := N\<rparr>, rc)
   }"

definition tv_zero :: timeval where
  "tv_zero = \<lparr>tv_sec = 0, tv_usec = 0\<rparr>"

text \<open>An event to run, no more events, or an error.\<close>

datatype found = Event ptr | NoEvent | Error

definition find_event :: "evenv \<Rightarrow> evstate \<Rightarrow> (evstate \<times> found) option" where
  "find_event env E = do {
     (I, r) \<leftarrow> events_immediate_get (ev_imm E);
     let E = E\<lparr>ev_imm := I\<rparr>;
     if r \<noteq> 0 then Some (E, Event r)
     else do {
       (N, r) \<leftarrow> events_network_get (ev_net E);
       let E = E\<lparr>ev_net := N\<rparr>;
       if r \<noteq> 0 then Some (E, Event r)
       else do {
         (E, rc) \<leftarrow> ev_select (e_poll env (ran E) (ev_net E)) (Some tv_zero) E;
         if rc \<noteq> 0 then Some (E, Error)
         else do {
           (N, r) \<leftarrow> events_network_get (ev_net E);
           let E = E\<lparr>ev_net := N\<rparr>;
           if r \<noteq> 0 then Some (E, Event r)
           else do {
             let (clock, a) = e_tim env (ran E);
             (T, rc, r) \<leftarrow> events_timer_get clock a (ev_tim E);
             let E = E\<lparr>ev_tim := T\<rparr>;
             if rc \<noteq> 0 then Some (E, Error)
             else if r \<noteq> 0 then Some (E, Event r)
             else Some (E, NoEvent)
           }
         }
       }
     }
   }"

fun main_loop :: "nat \<Rightarrow> evenv \<Rightarrow> evstate \<Rightarrow> runres option" where
  "main_loop 0 env E = Some (Running E)"
| "main_loop (Suc fuel) env E = do {
     let E = signalled env E;
     if ev_intr E then Some (Returned E 0)
     else do {
       (E, f) \<leftarrow> find_event env E;
       (case f of
          Event r \<Rightarrow> do {
            (E, rc) \<leftarrow> doevent env r E;
            if rc \<noteq> 0 then Some (Returned E rc) else main_loop fuel env E
          }
        | NoEvent \<Rightarrow> Some (Returned E 0)
        | Error \<Rightarrow> Some (Returned E (-1)))
     }
   }"

definition events_run_internal :: "nat \<Rightarrow> evenv \<Rightarrow> evstate \<Rightarrow> runres option" where
  "events_run_internal fuel env E = do {
     (I, r) \<leftarrow> events_immediate_get (ev_imm E);
     let E = E\<lparr>ev_imm := I\<rparr>;
     if r \<noteq> 0 then imm_loop fuel env r E
     else do {
       let (ok, clock) = e_min env (ran E);
       (rc, tv) \<leftarrow> events_timer_min ok clock (ev_tim E);
       if rc \<noteq> 0 then Some (Returned E (-1))
       else do {
         (E, rc) \<leftarrow> ev_select (e_wait env (ran E) (ev_net E)) tv E;
         if rc \<noteq> 0 then Some (Returned E (-1))
         else main_loop fuel env E
       }
     }
   }"

definition events_run :: "nat \<Rightarrow> evenv \<Rightarrow> evstate \<Rightarrow> runres option" where
  "events_run fuel env E = do {
     res \<leftarrow> events_run_internal fuel env E;
     Some (case res of Running E \<Rightarrow> Running E | Returned E rc \<Rightarrow> Returned (E\<lparr>ev_intr := False\<rparr>) rc)
   }"

text \<open>\<open>stop\<close> reads \<open>done[0]\<close>, which the callbacks may have set.\<close>

fun spin_loop :: "nat \<Rightarrow> evenv \<Rightarrow> (evstate \<Rightarrow> bool) \<Rightarrow> int \<Rightarrow> evstate \<Rightarrow> runres option" where
  "spin_loop fuel env stop rc E =
     (let E = signalled env E in
      if \<not> stop E \<and> rc = 0 \<and> \<not> ev_intr E then
        (case fuel of
           0 \<Rightarrow> Some (Running E)
         | Suc n \<Rightarrow> do {
             res \<leftarrow> events_run_internal fuel env E;
             (case res of Running E \<Rightarrow> Some (Running E) | Returned E rc \<Rightarrow> spin_loop n env stop rc E)
           })
      else Some (Returned E rc))"

declare spin_loop.simps [simp del]

definition events_spin :: "nat \<Rightarrow> evenv \<Rightarrow> (evstate \<Rightarrow> bool) \<Rightarrow> evstate \<Rightarrow> runres option" where
  "events_spin fuel env stop E = do {
     res \<leftarrow> spin_loop fuel env stop 0 E;
     Some (case res of Running E \<Rightarrow> Running E | Returned E rc \<Rightarrow> Returned (E\<lparr>ev_intr := False\<rparr>) rc)
   }"

section \<open>Ownership of the event records\<close>

text \<open>
  Every allocated event record belongs to exactly one immediate event, one pair of socket and
  operation, one timer, or to the loop (the set \<open>X\<close>: the event that is being run).
\<close>

datatype owner = OImm ptr | ONet nat int | OTim ptr

definition own :: "ptr set \<Rightarrow> (owner \<Rightarrow> ptr) \<Rightarrow> ermem \<Rightarrow> bool" where
  "own X f em \<longleftrightarrow> em 0 = None \<and> finite (dom em) \<and> inj_on f {w. f w \<noteq> 0} \<and> f ` {w. f w \<noteq> 0} \<inter> X = {} \<and>
     dom em = X \<union> f ` {w. f w \<noteq> 0}"

lemma own_live: "own X f em \<Longrightarrow> f w \<noteq> 0 \<Longrightarrow> em (f w) \<noteq> None"
  unfolding own_def by blast

lemma own_loop: "own X f em \<Longrightarrow> r \<in> X \<Longrightarrow> em r \<noteq> None"
  unfolding own_def by blast

lemma own_add:
  assumes "own X f em" "r \<noteq> 0" "em r = None" "f w = 0"
  shows "own X (f(w := r)) (em(r \<mapsto> x))"
proof -
  have new: "r \<notin> X \<union> f ` {w. f w \<noteq> 0}" using assms by (auto simp: own_def)
  have set: "{i. (f(w := r)) i \<noteq> 0} = insert w {i. f i \<noteq> 0}" using assms by auto
  have img: "(f(w := r)) ` insert w {i. f i \<noteq> 0} = insert r (f ` {i. f i \<noteq> 0})" using assms(4) by auto
  have "inj_on (f(w := r)) (insert w {i. f i \<noteq> 0})"
    using assms(1,4) new by (auto simp: own_def inj_on_def)
  with assms new show ?thesis unfolding own_def set img by auto
qed

lemma own_drop:
  assumes "own X f em" "f w = r" "r \<noteq> 0"
  shows "{i. (f(w := 0)) i \<noteq> 0} = {i. f i \<noteq> 0} - {w}" "(f(w := 0)) ` ({i. f i \<noteq> 0} - {w}) = f ` {i. f i \<noteq> 0} - {r}"
    "inj_on (f(w := 0)) ({i. f i \<noteq> 0} - {w})" "r \<in> f ` {i. f i \<noteq> 0}"
proof -
  have inj: "inj_on f {i. f i \<noteq> 0}" using assms by (simp add: own_def)
  then show "(f(w := 0)) ` ({i. f i \<noteq> 0} - {w}) = f ` {i. f i \<noteq> 0} - {r}" "inj_on (f(w := 0)) ({i. f i \<noteq> 0} - {w})"
    using assms(2,3) by (auto simp: inj_on_def)
qed (use assms in auto)

lemma own_del:
  assumes "own X f em" "f w = r" "r \<noteq> 0"
  shows "own X (f(w := 0)) (em(r := None))"
proof -
  define A where "A = f ` {i. f i \<noteq> 0}"
  note d = own_drop [OF assms, folded A_def]
  have "em 0 = None" "finite (dom em)" "A \<inter> X = {}" "dom em = X \<union> A" using assms(1) by (simp_all add: own_def A_def)
  with d(3,4) show ?thesis unfolding own_def d(1) d(2) by auto
qed

lemma own_take:
  assumes "own X f em" "f w = r" "r \<noteq> 0"
  shows "own (insert r X) (f(w := 0)) em"
proof -
  define A where "A = f ` {i. f i \<noteq> 0}"
  note d = own_drop [OF assms, folded A_def]
  have "em 0 = None" "finite (dom em)" "A \<inter> X = {}" "dom em = X \<union> A" using assms(1) by (simp_all add: own_def A_def)
  with d(3,4) show ?thesis unfolding own_def d(1) d(2) by auto
qed

lemma own_free: "own (insert r X) f em \<Longrightarrow> r \<notin> X \<Longrightarrow> own X f (em(r := None))"
  unfolding own_def by auto

lemma own_eq: "own X f em \<Longrightarrow> f' = f \<Longrightarrow> own X f' em"
  by simp

text \<open>The owners in a state.\<close>

fun owned :: "evstate \<Rightarrow> owner \<Rightarrow> ptr" where
  "owned E (OImm c) = (case eq_mem (ev_imm E) c of None \<Rightarrow> 0 | Some q \<Rightarrow> eq_r q)"
| "owned E (ONet i op) = (if is_op op then view_reg op (net_abs (ev_net E) i) else 0)"
| "owned E (OTim p) = (case tim_abs (ev_tim E) p of None \<Rightarrow> 0 | Some (_, _, r) \<Rightarrow> r)"

definition ev_inv :: "ptr set \<Rightarrow> evstate \<Rightarrow> bool" where
  "ev_inv X E \<longleftrightarrow> imm_inv (ev_imm E) \<and> net_inv (ev_net E) \<and> tim_inv (ev_tim E) \<and> own X (owned E) (ev_mem E)"

lemma owned_update [simp]:
  "owned (E\<lparr>ev_mem := em\<rparr>) = owned E" "owned (E\<lparr>ev_intr := b\<rparr>) = owned E" "owned (E\<lparr>ev_log := l\<rparr>) = owned E"
proof -
  have "owned (E\<lparr>ev_mem := em\<rparr>) w = owned E w" "owned (E\<lparr>ev_intr := b\<rparr>) w = owned E w" "owned (E\<lparr>ev_log := l\<rparr>) w = owned E w"
    for w by (cases w; simp)+
  then show "owned (E\<lparr>ev_mem := em\<rparr>) = owned E" "owned (E\<lparr>ev_intr := b\<rparr>) = owned E" "owned (E\<lparr>ev_log := l\<rparr>) = owned E" by auto
qed

lemma owned_imm:
  "eq_mem I = (eq_mem (ev_imm E))(c \<mapsto> q) \<Longrightarrow> owned (E\<lparr>ev_imm := I\<rparr>) = (owned E)(OImm c := eq_r q)"
  "eq_mem I = (eq_mem (ev_imm E))(c := None) \<Longrightarrow> owned (E\<lparr>ev_imm := I\<rparr>) = (owned E)(OImm c := 0)"
  "eq_mem I = eq_mem (ev_imm E) \<Longrightarrow> owned (E\<lparr>ev_imm := I\<rparr>) = owned E"
  by (rule ext, rename_tac w, case_tac w; simp)+

lemma owned_net:
  "is_op op \<Longrightarrow> net_abs N = (net_abs (ev_net E))(i := view_add op r (net_abs (ev_net E) i)) \<Longrightarrow>
     owned (E\<lparr>ev_net := N\<rparr>) = (owned E)(ONet i op := r)"
  "is_op op \<Longrightarrow> net_abs N = (net_abs (ev_net E))(i := view_del op (net_abs (ev_net E) i)) \<Longrightarrow>
     owned (E\<lparr>ev_net := N\<rparr>) = (owned E)(ONet i op := 0)"
  "is_op op \<Longrightarrow> net_abs N = (net_abs (ev_net E))(i := view_del op (view_hup (net_abs (ev_net E) i))) \<Longrightarrow>
     owned (E\<lparr>ev_net := N\<rparr>) = (owned E)(ONet i op := 0)"
  "(\<And>i op. view_reg op (net_abs N i) = view_reg op (net_abs (ev_net E) i)) \<Longrightarrow> owned (E\<lparr>ev_net := N\<rparr>) = owned E"
  by (rule ext, rename_tac w, case_tac w; cases "net_abs (ev_net E) i"; auto simp: is_op_def)+

lemma owned_tim:
  "tim_abs T = (tim_abs (ev_tim E))(p \<mapsto> (tv, d, r)) \<Longrightarrow> owned (E\<lparr>ev_tim := T\<rparr>) = (owned E)(OTim p := r)"
  "tim_abs T = (tim_abs (ev_tim E))(p := None) \<Longrightarrow> owned (E\<lparr>ev_tim := T\<rparr>) = (owned E)(OTim p := 0)"
  "tim_abs T = tim_abs (ev_tim E) \<Longrightarrow> owned (E\<lparr>ev_tim := T\<rparr>) = owned E"
  by (rule ext, rename_tac w, case_tac w; simp)+

lemma ev_inv0: "ev_inv {} evstate0"
proof -
  have "owned evstate0 = (\<lambda>_. 0)"
    by (rule ext, rename_tac w, case_tac w) (simp_all add: evstate0_def evimm0_def net_inv0 tim_inv0)
  moreover have "imm_inv evimm0" by (simp add: imm_inv_def evimm0_def)
  ultimately show ?thesis by (simp add: ev_inv_def evstate0_def net_inv0 tim_inv0 own_def)
qed


section \<open>The interface keeps the invariant\<close>

text \<open>
  What a caller of the interface has to observe: addresses from the allocators are not in use,
  priorities and times are in range, a cookie stands for a registered event, and a timer is not
  reset to an earlier time (the clock is monotonic).
\<close>

definition op_pre :: "evop \<Rightarrow> evstate \<Rightarrow> bool" where
  "op_pre op E \<longleftrightarrow>
     (case op of
        ImmRegister r q func cookie prio \<Rightarrow>
          0 \<le> prio \<and> prio < 32 \<and> fresh_ptr r (ev_mem E) \<and> fresh_ptr q (eq_mem (ev_imm E))
      | ImmCancel c \<Rightarrow> eq_mem (ev_imm E) c \<noteq> None
      | NetRegister an func cookie s op \<Rightarrow> s < INT_MAX \<and> fresh_ptr (na_r an) (ev_mem E)
      | NetCancel an s op \<Rightarrow> True
      | TimRegister an func cookie timeo \<Rightarrow> an_ok an (ev_tim E) (ev_mem E) \<and> tv_norm timeo
      | TimCancel a p \<Rightarrow> et_mem (ev_tim E) p \<noteq> None
      | TimReset clock p \<Rightarrow> tim_abs (ev_tim E) p \<noteq> None \<and>
          (case clock of None \<Rightarrow> True
           | Some tnow \<Rightarrow> tv_norm tnow \<and>
               (\<forall>tv0 d r. tim_abs (ev_tim E) p = Some (tv0, d, r) \<longrightarrow> tv_us tv0 \<le> tv_us tnow + tv_us d))
      | Interrupt \<Rightarrow> True)"

lemma ev_inv_imm:
  "ev_inv X E \<Longrightarrow> imm_inv I \<Longrightarrow> own X (owned (E\<lparr>ev_imm := I\<rparr>)) em \<Longrightarrow> ev_inv X (E\<lparr>ev_imm := I, ev_mem := em\<rparr>)"
  by (simp add: ev_inv_def)

lemma ev_inv_net:
  "ev_inv X E \<Longrightarrow> net_inv N \<Longrightarrow> own X (owned (E\<lparr>ev_net := N\<rparr>)) em \<Longrightarrow> ev_inv X (E\<lparr>ev_net := N, ev_mem := em\<rparr>)"
  by (simp add: ev_inv_def)

lemma ev_inv_tim:
  "ev_inv X E \<Longrightarrow> tim_inv T \<Longrightarrow> own X (owned (E\<lparr>ev_tim := T\<rparr>)) em \<Longrightarrow> ev_inv X (E\<lparr>ev_tim := T, ev_mem := em\<rparr>)"
  by (simp add: ev_inv_def)

lemmas ev_parts = ev_inv_def [THEN iffD1, THEN conjunct1] ev_inv_def [THEN iffD1, THEN conjunct2, THEN conjunct1]
  ev_inv_def [THEN iffD1, THEN conjunct2, THEN conjunct2, THEN conjunct1]
  ev_inv_def [THEN iffD1, THEN conjunct2, THEN conjunct2, THEN conjunct2]

lemma call_imm_register:
  assumes inv: "ev_inv X E" and pre: "op_pre (ImmRegister r q func cookie prio) E"
  shows "okp (ev_call (ImmRegister r q func cookie prio) E) (ev_inv X)"
proof -
  note i = ev_parts [OF inv]
  from pre have p: "0 \<le> prio" "prio < 32" "fresh_ptr r (ev_mem E)" "fresh_ptr q (eq_mem (ev_imm E))"
    by (auto simp: op_pre_def)
  from events_immediate_register_ok [OF i(1) p, of func cookie] obtain I em c where
    e: "events_immediate_register r q func cookie prio (ev_imm E) (ev_mem E) = Some (I, em, c)"
    and s: "if r = 0 \<or> q = 0 then c = 0 \<and> I = ev_imm E \<and> em = ev_mem E
       else c = q \<and> imm_inv I \<and> em = (ev_mem E)(r \<mapsto> \<lparr>er_func = func, er_cookie = cookie\<rparr>) \<and>
         imm_abs I = (imm_abs (ev_imm E))[nat prio := imm_abs (ev_imm E) ! nat prio @ [(q, r)]] \<and>
         eq_mem I = (eq_mem (ev_imm E))(q \<mapsto> \<lparr>eq_r = r, eq_prio = nat prio\<rparr>)"
    by (auto elim!: okpE)
  have "ev_inv X (E\<lparr>ev_imm := I, ev_mem := em\<rparr>)"
  proof (cases "r = 0 \<or> q = 0")
    case True
    with s inv show ?thesis by (simp add: ev_inv_imm owned_imm i)
  next
    case False
    then have "own X ((owned E)(OImm q := r)) em"
      using s p(3,4) own_add [OF i(4), of r "OImm q"] by (simp add: fresh_ptr_def)
    with s False show ?thesis by (intro ev_inv_imm [OF inv]) (simp_all add: owned_imm(1))
  qed
  with e show ?thesis by (simp add: ev_call_def)
qed

lemma call_imm_cancel:
  assumes inv: "ev_inv X E" and pre: "op_pre (ImmCancel c) E"
  shows "okp (ev_call (ImmCancel c) E) (ev_inv X)"
proof -
  note i = ev_parts [OF inv]
  from pre obtain n where n: "eq_mem (ev_imm E) c = Some n" by (auto simp: op_pre_def)
  then have r: "owned E (OImm c) = eq_r n" "eq_r n \<noteq> 0" using i(1) by (auto simp: imm_inv_def)
  from own_live [OF i(4), of "OImm c"] r have "ev_mem E (eq_r n) \<noteq> None" by simp
  from events_immediate_cancel_ok [where em = "ev_mem E", OF i(1) n this] obtain I where
    "events_immediate_cancel c (ev_imm E) (ev_mem E) = Some (I, (ev_mem E)(eq_r n := None))" "imm_inv I"
    "eq_mem I = (eq_mem (ev_imm E))(c := None)" by (auto elim!: okpE)
  with own_del [OF i(4) r] show ?thesis by (simp add: ev_call_def ev_inv_imm [OF inv] owned_imm(2))
qed

lemma call_net_register:
  assumes inv: "ev_inv X E" and pre: "op_pre (NetRegister an func cookie s op) E"
  shows "okp (ev_call (NetRegister an func cookie s op) E) (ev_inv X)"
proof -
  note i = ev_parts [OF inv]
  from pre have p: "s < INT_MAX" "fresh_ptr (na_r an) (ev_mem E)" by (auto simp: op_pre_def)
  from events_network_register_ok [OF i(2) p, of func cookie op] obtain N em rc e where
    c: "events_network_register an func cookie s op (ev_net E) (ev_mem E) = Some (N, em, rc, e)" "net_inv N"
    and q: "if rc = 0 then e = E_OK \<and> 0 \<le> s \<and> is_op op \<and> na_r an \<noteq> 0 \<and> view_reg op (net_abs (ev_net E) (nat s)) = 0 \<and>
           net_abs N = (net_abs (ev_net E))(nat s := view_add op (na_r an) (net_abs (ev_net E) (nat s))) \<and>
           em = (ev_mem E)(na_r an \<mapsto> \<lparr>er_func = func, er_cookie = cookie\<rparr>)
         else net_abs N = net_abs (ev_net E) \<and> em = ev_mem E"
    by (auto elim!: okpE split: if_splits)
  have "own X (owned (E\<lparr>ev_net := N\<rparr>)) em"
  proof (cases "rc = 0")
    case True
    have "owned (E\<lparr>ev_net := N\<rparr>) = (owned E)(ONet (nat s) op := na_r an)" by (rule owned_net(1)) (use q True in auto)
    with True q own_add [OF i(4), of "na_r an" "ONet (nat s) op"] p(2) show ?thesis by (simp add: fresh_ptr_def)
  next
    case False
    with q i(4) show ?thesis by (simp add: owned_net(4))
  qed
  with c show ?thesis by (simp add: ev_call_def ev_inv_net [OF inv])
qed

lemma call_net_cancel:
  assumes inv: "ev_inv X E"
  shows "okp (ev_call (NetCancel an s op) E) (ev_inv X)"
proof -
  note i = ev_parts [OF inv]
  have live: "ev_mem E (view_reg op (net_abs (ev_net E) (nat s))) \<noteq> None"
    if "is_op op" "view_reg op (net_abs (ev_net E) (nat s)) \<noteq> 0"
    using own_live [OF i(4), of "ONet (nat s) op"] that by simp
  from events_network_cancel_ok [where em = "ev_mem E" and op = op and s = s and an = an, OF i(2) live] obtain N em rc e where
    c: "events_network_cancel an s op (ev_net E) (ev_mem E) = Some (N, em, rc, e)" "net_inv N"
    and q: "if 0 \<le> s \<and> is_op op \<and> view_reg op (net_abs (ev_net E) (nat s)) \<noteq> 0
       then net_abs N = (net_abs (ev_net E))(nat s := view_del op (net_abs (ev_net E) (nat s))) \<and>
            em = (ev_mem E)(view_reg op (net_abs (ev_net E) (nat s)) := None)
       else net_abs N = net_abs (ev_net E) \<and> em = ev_mem E"
    by (auto elim!: okpE split: if_splits)
  have "own X (owned (E\<lparr>ev_net := N\<rparr>)) em"
  proof (cases "0 \<le> s \<and> is_op op \<and> view_reg op (net_abs (ev_net E) (nat s)) \<noteq> 0")
    case True
    have "owned (E\<lparr>ev_net := N\<rparr>) = (owned E)(ONet (nat s) op := 0)" by (rule owned_net(2)) (use q True in auto)
    with True q own_del [OF i(4), of "ONet (nat s) op"] show ?thesis by simp
  next
    case False
    with q i(4) show ?thesis by (simp add: owned_net(4))
  qed
  with c show ?thesis by (simp add: ev_call_def ev_inv_net [OF inv])
qed

lemma call_tim_register:
  assumes inv: "ev_inv X E" and pre: "op_pre (TimRegister an func cookie timeo) E"
  shows "okp (ev_call (TimRegister an func cookie timeo) E) (ev_inv X)"
proof -
  note i = ev_parts [OF inv]
  from pre have p: "an_ok an (ev_tim E) (ev_mem E)" "tv_norm timeo" by (auto simp: op_pre_def)
  from events_timer_register_ok [OF i(3) p, of func cookie] obtain T em q where
    c: "events_timer_register an func cookie timeo (ev_tim E) (ev_mem E) = Some (T, em, q)" "tim_inv T"
    and s: "q = 0 \<and> em = ev_mem E \<and> tim_abs T = tim_abs (ev_tim E) \<or>
      (\<exists>tv. q \<noteq> 0 \<and> q = an_t an \<and> an_r an \<noteq> 0 \<and> em = (ev_mem E)(an_r an \<mapsto> \<lparr>er_func = func, er_cookie = cookie\<rparr>) \<and>
         tim_abs T = (tim_abs (ev_tim E))(q \<mapsto> (tv, timeo, an_r an)))"
    by (auto elim!: okpE)
  have "own X (owned (E\<lparr>ev_tim := T\<rparr>)) em"
    using s
  proof (elim disjE conjE exE)
    assume "em = ev_mem E" "tim_abs T = tim_abs (ev_tim E)"
    with i(4) show ?thesis by (simp add: owned_tim(3))
  next
    fix tv
    assume q: "q \<noteq> 0" "q = an_t an" "an_r an \<noteq> 0" "em = (ev_mem E)(an_r an \<mapsto> \<lparr>er_func = func, er_cookie = cookie\<rparr>)"
      "tim_abs T = (tim_abs (ev_tim E))(q \<mapsto> (tv, timeo, an_r an))"
    from p(1) q have "ev_mem E (an_r an) = None" "et_mem (ev_tim E) q = None" by (auto simp: an_ok_def fresh_ptr_def)
    then have "owned E (OTim q) = 0" by (simp add: tim_abs_def tim_view_def)
    with q own_add [OF i(4) q(3) \<open>ev_mem E (an_r an) = None\<close> this] show ?thesis by (simp add: owned_tim(1))
  qed
  with c show ?thesis by (simp add: ev_call_def ev_inv_tim [OF inv])
qed

lemma call_tim_cancel:
  assumes inv: "ev_inv X E" and pre: "op_pre (TimCancel a p) E"
  shows "okp (ev_call (TimCancel a p) E) (ev_inv X)"
proof -
  note i = ev_parts [OF inv]
  from pre obtain t where t: "et_mem (ev_tim E) p = Some t" by (auto simp: op_pre_def)
  then have "tim_abs (ev_tim E) p \<noteq> None" using tim_link_dom i(3) by (auto simp: tim_abs_def tim_inv_def)
  then have r: "owned E (OTim p) = et_r t" "et_r t \<noteq> 0"
    using t tim_abs_norm(3) [OF i(3)] by (fastforce simp: tim_abs_def tim_view_def bind_eq_Some_conv)+
  from own_live [OF i(4), of "OTim p"] r have "ev_mem E (et_r t) \<noteq> None" by simp
  from events_timer_cancel_ok [where em = "ev_mem E" and a = a, OF i(3) t this] obtain T where
    "events_timer_cancel a p (ev_tim E) (ev_mem E) = Some (T, (ev_mem E)(et_r t := None))" "tim_inv T"
    "tim_abs T = (tim_abs (ev_tim E))(p := None)" by (auto elim!: okpE)
  with own_del [OF i(4) r] show ?thesis by (simp add: ev_call_def ev_inv_tim [OF inv] owned_tim(2))
qed

lemma call_tim_reset:
  assumes inv: "ev_inv X E" and pre: "op_pre (TimReset clock p) E"
  shows "okp (ev_call (TimReset clock p) E) (ev_inv X)"
proof -
  note i = ev_parts [OF inv]
  from pre obtain tv0 d r where p: "tim_abs (ev_tim E) p = Some (tv0, d, r)" by (cases "tim_abs (ev_tim E) p") (auto simp: op_pre_def)
  with pre have "tv_norm tnow \<and> tv_us tv0 \<le> tv_us tnow + tv_us d" if "clock = Some tnow" for tnow
    using that by (auto simp: op_pre_def)
  from events_timer_reset_ok [where clock = clock, OF i(3) p this] obtain T rc where
    T: "events_timer_reset clock p (ev_tim E) = Some (T, rc)" "tim_inv T"
      "T = ev_tim E \<or> (\<exists>tv. tim_abs T = (tim_abs (ev_tim E))(p \<mapsto> (tv, d, r)))"
    by (fastforce elim!: okpE split: option.splits)
  have "owned (E\<lparr>ev_tim := T\<rparr>) = owned E"
    using T(3)
  proof
    assume "\<exists>tv. tim_abs T = (tim_abs (ev_tim E))(p \<mapsto> (tv, d, r))"
    then show ?thesis using p by (auto simp: owned_tim(1))
  qed (simp add: owned_tim(3))
  with T i show ?thesis by (simp add: ev_call_def ev_inv_def)
qed

lemma ev_call_ok:
  assumes "ev_inv X E" "op_pre op E"
  shows "okp (ev_call op E) (ev_inv X)"
proof (cases op)
  case (ImmRegister r q func cookie prio)
  then show ?thesis using call_imm_register [OF assms(1)] assms(2) by simp
next
  case (ImmCancel c)
  then show ?thesis using call_imm_cancel [OF assms(1)] assms(2) by simp
next
  case (NetRegister an func cookie s op')
  then show ?thesis using call_net_register [OF assms(1)] assms(2) by simp
next
  case (NetCancel an s op')
  then show ?thesis using call_net_cancel [OF assms(1)] by simp
next
  case (TimRegister an func cookie timeo)
  then show ?thesis using call_tim_register [OF assms(1)] assms(2) by simp
next
  case (TimCancel a p)
  then show ?thesis using call_tim_cancel [OF assms(1)] assms(2) by simp
next
  case (TimReset clock p)
  then show ?thesis using call_tim_reset [OF assms(1)] assms(2) by simp
next
  case Interrupt
  with assms(1) show ?thesis by (simp add: ev_call_def events_interrupt_def ev_inv_def)
qed

text \<open>The calls of a callback, each with its precondition in the state in which it is made.\<close>

fun calls_pre :: "evop list \<Rightarrow> evstate \<Rightarrow> bool" where
  "calls_pre [] E = True"
| "calls_pre (op # ops) E = (op_pre op E \<and> (case ev_call op E of None \<Rightarrow> True | Some E \<Rightarrow> calls_pre ops E))"

lemma ev_calls_ok: "ev_inv X E \<Longrightarrow> calls_pre ops E \<Longrightarrow> okp (ev_calls ops E) (ev_inv X)"
proof (induction ops arbitrary: E)
  case (Cons op ops)
  then obtain E' where "ev_call op E = Some E'" "ev_inv X E'" using ev_call_ok [of X E op] by (auto elim: okpE)
  with Cons show ?case by simp
qed simp

lemma ev_call_log: "ev_call op E = Some E' \<Longrightarrow> ev_log E' = ev_log E"
  by (auto simp: ev_call_def events_interrupt_def bind_eq_Some_conv split: evop.splits)

lemma ev_calls_log: "ev_calls ops E = Some E' \<Longrightarrow> ev_log E' = ev_log E"
  by (induction ops arbitrary: E) (auto simp: bind_eq_Some_conv dest!: ev_call_log)


section \<open>Finding an event\<close>

text \<open>
  What the environment promises: callbacks keep to the preconditions of the interface, clocks
  are normal, and \<open>poll\<close> returns and reports only what it was asked for.
\<close>

definition polls_ok :: "(nat \<Rightarrow> evnet \<Rightarrow> en_ans \<times> (int \<Rightarrow> poll_ans list)) \<Rightarrow> bool" where
  "polls_ok p \<longleftrightarrow> (\<forall>n N t. net_inv N \<longrightarrow>
     (\<exists>a. poll_stop (snd (p n N) t) = Some a \<and> poll_valid (fst (net_init (fst (p n N)) N)) a))"

text \<open>The environment of a \<open>poll\<close> that does not fail.\<close>

definition polls_live :: "(nat \<Rightarrow> evnet \<Rightarrow> en_ans \<times> (int \<Rightarrow> poll_ans list)) \<Rightarrow> bool" where
  "polls_live p \<longleftrightarrow> (\<forall>n N t. net_inv N \<longrightarrow>
     snd (net_init (fst (p n N)) N) \<and> poll_stop (snd (p n N) t) \<noteq> Some PollFail)"

definition env_ok :: "evenv \<Rightarrow> bool" where
  "env_ok env \<longleftrightarrow>
     (\<forall>n er r E. ev_inv {r} E \<longrightarrow> calls_pre (fst (e_cb env n er E)) E) \<and>
     (\<forall>n tv. snd (e_min env n) = Some tv \<longrightarrow> tv_norm tv) \<and>
     (\<forall>n tv. fst (e_tim env n) = Some tv \<longrightarrow> tv_norm tv) \<and>
     polls_ok (e_wait env) \<and> polls_ok (e_poll env)"

text \<open>What a search for an event gives: an event that the loop now owns, or the same owners.\<close>

definition took :: "evstate \<Rightarrow> evstate \<Rightarrow> ptr \<Rightarrow> bool" where
  "took E E' r \<longleftrightarrow> ev_log E' = ev_log E \<and> ev_intr E' = ev_intr E \<and> ev_mem E' = ev_mem E \<and>
     (if r = 0 then ev_inv {} E' \<and> owned E' = owned E
      else ev_inv {r} E' \<and> (\<exists>w. owned E w = r \<and> owned E' = (owned E)(w := 0)))"

lemma took_0: "took E E' 0 \<Longrightarrow> ev_inv {} E' \<and> ran E' = ran E \<and> ev_intr E' = ev_intr E \<and> ev_mem E' = ev_mem E"
  by (simp add: took_def)

lemma took_0_trans: "took E E' 0 \<Longrightarrow> took E' E'' r \<Longrightarrow> took E E'' r"
  by (auto simp: took_def)

lemma took_refl: "ev_inv {} E \<Longrightarrow> took E E 0"
  by (simp add: took_def)

lemma tookI:
  assumes "ev_inv {} E" "owned E w = r" "r \<noteq> 0" "owned E' = (owned E)(w := 0)"
    "imm_inv (ev_imm E')" "net_inv (ev_net E')" "tim_inv (ev_tim E')"
    "ev_mem E' = ev_mem E" "ev_log E' = ev_log E" "ev_intr E' = ev_intr E"
  shows "took E E' r"
proof -
  from own_take [OF ev_parts(4) [OF assms(1)] assms(2,3)] have "ev_inv {r} E'"
    using assms by (simp add: ev_inv_def)
  moreover have "\<exists>w. owned E w = r \<and> owned E' = (owned E)(w := 0)" using assms(2,4) by blast
  ultimately show ?thesis using assms(3,8-10) by (simp add: took_def)
qed

lemma imm_abs_node:
  assumes "imm_inv I" "p < length (imm_abs I)" "(c, r) \<in> set (imm_abs I ! p)"
  shows "\<exists>q. eq_mem I c = Some q \<and> eq_r q = r"
proof -
  from assms have "length (heads I) = 32" "p < 32" by (auto simp: imm_inv_def)
  with assms have c: "c \<in> set (heads I ! p)" "r = (case eq_mem I c of Some q \<Rightarrow> eq_r q | None \<Rightarrow> 0)"
    by (auto simp: imm_abs_nth)
  from imm_node [OF assms(1) \<open>p < 32\<close> c(1)] obtain q where "eq_mem I c = Some q" .
  with c(2) show ?thesis by simp
qed

lemma ev_imm_get:
  assumes inv: "ev_inv {} E"
  shows "okp (events_immediate_get (ev_imm E)) (\<lambda>(I, r). took E (E\<lparr>ev_imm := I\<rparr>) r \<and>
     (r = 0 \<longleftrightarrow> (\<forall>q \<in> set (imm_abs (ev_imm E)). q = [])) \<and>
     (r \<noteq> 0 \<longrightarrow> (\<exists>p c rest. imm_first (imm_abs (ev_imm E)) p \<and> imm_abs (ev_imm E) ! p = (c, r) # rest)))"
proof -
  note i = ev_parts [OF inv]
  obtain I r where e: "events_immediate_get (ev_imm E) = Some (I, r)" "imm_inv I"
    and s: "if \<forall>q \<in> set (imm_abs (ev_imm E)). q = [] then r = 0 \<and> imm_abs I = imm_abs (ev_imm E) \<and> eq_mem I = eq_mem (ev_imm E)
      else \<exists>p c rest. imm_first (imm_abs (ev_imm E)) p \<and> imm_abs (ev_imm E) ! p = (c, r) # rest \<and> r \<noteq> 0 \<and>
             imm_abs I = (imm_abs (ev_imm E))[p := rest] \<and> eq_mem I = (eq_mem (ev_imm E))(c := None)"
    using events_immediate_get_ok [OF i(1)] by (auto elim!: okpE simp only: prod.case split_paired_all)
  show ?thesis
  proof (cases "\<forall>q \<in> set (imm_abs (ev_imm E)). q = []")
    case True
    with s have "r = 0" "eq_mem I = eq_mem (ev_imm E)" by auto
    then have "took E (E\<lparr>ev_imm := I\<rparr>) r" using inv e(2) by (simp add: took_def ev_inv_def owned_imm(3))
    with e \<open>r = 0\<close> True show ?thesis by simp
  next
    case False
    with s obtain p c rest where p: "imm_first (imm_abs (ev_imm E)) p" "imm_abs (ev_imm E) ! p = (c, r) # rest" "r \<noteq> 0"
      "eq_mem I = (eq_mem (ev_imm E))(c := None)" by auto
    have "\<exists>q. eq_mem (ev_imm E) c = Some q \<and> eq_r q = r"
      using p(1,2) imm_abs_node [OF i(1), of p c r] by (simp add: imm_first_def)
    then have r: "owned E (OImm c) = r" by auto
    have "took E (E\<lparr>ev_imm := I\<rparr>) r"
      by (rule tookI [OF inv r p(3) owned_imm(2) [OF p(4)]]) (simp_all add: e(2) i)
    with e p False show ?thesis by auto
  qed
qed

lemma ev_net_get:
  assumes inv: "ev_inv {} E"
  shows "okp (events_network_get (ev_net E)) (\<lambda>(N, r). took E (E\<lparr>ev_net := N\<rparr>) r \<and>
     (en_scan (ev_net E) < en_nfds (ev_net E) \<longrightarrow> (r = 0 \<longleftrightarrow> (\<forall>i op. \<not> view_rdy op (net_abs (ev_net E) i)))))"
proof -
  note i = ev_parts [OF inv]
  obtain N r where e: "events_network_get (ev_net E) = Some (N, r)" "net_inv N"
    and s: "if r = 0 then net_abs N = net_abs (ev_net E) \<and>
        (en_scan (ev_net E) < en_nfds (ev_net E) \<longrightarrow> (\<forall>i op. \<not> view_rdy op (net_abs (ev_net E) i)))
      else net_got (net_abs (ev_net E)) r (net_abs N)"
    using events_network_get_ok [OF i(2)] by (auto elim!: okpE simp only: prod.case split_paired_all)
  show ?thesis
  proof (cases "r = 0")
    case True
    with s e i have "took E (E\<lparr>ev_net := N\<rparr>) r" by (simp add: took_def ev_inv_def owned_net(4))
    with e s True show ?thesis by simp
  next
    case False
    with s obtain j op where j: "view_rdy op (net_abs (ev_net E) j)" "r = view_reg op (net_abs (ev_net E) j)"
      "net_abs N = (net_abs (ev_net E))(j := view_del op (view_hup (net_abs (ev_net E) j)))" by (auto simp: net_got_def)
    from j(1) have op: "is_op op" by (simp add: view_rdy_def)
    have r: "owned E (ONet j op) = r" using j op by simp
    have "took E (E\<lparr>ev_net := N\<rparr>) r"
      by (rule tookI [OF inv r False owned_net(3) [OF op j(3)]]) (simp_all add: e(2) i)
    with e j(1) False show ?thesis by auto
  qed
qed

lemma ev_tim_get:
  assumes inv: "ev_inv {} E" and clock: "\<And>tnow. clock = Some tnow \<Longrightarrow> tv_norm tnow"
  shows "okp (events_timer_get clock a (ev_tim E)) (\<lambda>(T, rc, r). took E (E\<lparr>ev_tim := T\<rparr>) r \<and>
     (rc \<noteq> 0 \<longrightarrow> clock = None \<and> r = 0) \<and>
     (\<forall>tnow. clock = Some tnow \<longrightarrow> (r \<noteq> 0 \<longleftrightarrow> tim_due (tim_abs (ev_tim E)) tnow)))"
proof -
  note i = ev_parts [OF inv]
  obtain T rc r where e: "events_timer_get clock a (ev_tim E) = Some (T, rc, r)" "tim_inv T"
    and s: "case clock of
        None \<Rightarrow> rc = (if et_Q (ev_tim E) = None then 0 else -1) \<and> r = 0 \<and> T = ev_tim E
      | Some tnow \<Rightarrow> rc = 0 \<and>
         (if tim_due (tim_abs (ev_tim E)) tnow
          then \<exists>p tv d. tim_least (tim_abs (ev_tim E)) p \<and> tim_abs (ev_tim E) p = Some (tv, d, r) \<and> r \<noteq> 0 \<and>
                 tim_abs T = (tim_abs (ev_tim E))(p := None)
          else r = 0 \<and> tim_abs T = tim_abs (ev_tim E) \<and> et_mem T = et_mem (ev_tim E))"
    using events_timer_get_ok [OF i(3) clock, of clock a] by (auto elim!: okpE simp only: prod.case split_paired_all)
  have none: "took E (E\<lparr>ev_tim := T\<rparr>) 0" if "tim_abs T = tim_abs (ev_tim E)"
    using that e(2) i by (simp add: took_def ev_inv_def owned_tim(3))
  show ?thesis
  proof (cases clock)
    case None
    with s e none show ?thesis by auto
  next
    case (Some tnow)
    show ?thesis
    proof (cases "tim_due (tim_abs (ev_tim E)) tnow")
      case False
      with s e none Some show ?thesis by auto
    next
      case True
      with s Some obtain p tv d where p: "tim_abs (ev_tim E) p = Some (tv, d, r)" "r \<noteq> 0" "rc = 0"
        "tim_abs T = (tim_abs (ev_tim E))(p := None)" by auto
      then have r: "owned E (OTim p) = r" by simp
      have "took E (E\<lparr>ev_tim := T\<rparr>) r"
        by (rule tookI [OF inv r p(2) owned_tim(2) [OF p(4)]]) (simp_all add: e(2) i)
      with e p True Some show ?thesis by auto
    qed
  qed
qed

lemma poll_view_reg: "view_reg op (poll_view N rv i) = view_reg op (net_abs N i)"
  by (cases "net_abs N i") (simp add: poll_view_def)

lemma ev_select_ok:
  assumes inv: "ev_inv {} E" and p: "polls_ok p"
  shows "okp (ev_select (p n (ev_net E)) tv E) (\<lambda>(E', rc). took E E' 0 \<and> ev_imm E' = ev_imm E \<and> ev_tim E' = ev_tim E \<and>
     (rc = 0 \<longrightarrow> en_scan (ev_net E') = szsub (en_nfds (ev_net E')) 1) \<and> (polls_live p \<longrightarrow> rc = 0))"
proof -
  note i = ev_parts [OF inv]
  let ?an = "fst (p n (ev_net E))" and ?polls = "snd (p n (ev_net E))"
  obtain N1 ok where init: "net_init ?an (ev_net E) = (N1, ok)" by force
  from p i(2) init obtain a where a: "poll_stop (?polls (poll_timeout tv)) = Some a" "poll_valid N1 a"
    unfolding polls_ok_def by (metis fst_conv)
  note init_abs = net_init_ok(2) [OF i(2) init]
  from events_network_select_ok [where polls = ?polls and tv = tv, OF i(2) init a] obtain N rc where
    N: "events_network_select ?an ?polls tv (ev_net E) = Some (N, rc)" "net_inv N"
      "rc = 0 \<longrightarrow> en_scan N = szsub (en_nfds N) 1" "ok \<and> a \<noteq> PollFail \<longrightarrow> rc = 0"
    and abs: "net_abs N = net_abs (ev_net E) \<or> (\<exists>rv. net_abs N = poll_view N1 rv)"
    by (auto elim!: okpE split: if_splits poll_ans.splits)
  have "view_reg op (net_abs N j) = view_reg op (net_abs (ev_net E) j)" for op j
    using abs init_abs by (auto simp: poll_view_reg)
  then have "owned (E\<lparr>ev_net := N\<rparr>) = owned E" by (rule owned_net(4))
  moreover have "ok \<and> a \<noteq> PollFail" if "polls_live p"
    using that i(2) init a(1) unfolding polls_live_def by (metis snd_conv)
  ultimately show ?thesis using N i by (simp add: ev_select_def took_def ev_inv_def)
qed


lemma env_okD:
  assumes "env_ok env"
  shows "ev_inv {r} E \<Longrightarrow> calls_pre (fst (e_cb env n er E)) E" "snd (e_min env n) = Some tv \<Longrightarrow> tv_norm tv"
    "fst (e_tim env n) = Some tv \<Longrightarrow> tv_norm tv" "polls_ok (e_wait env)" "polls_ok (e_poll env)"
  using assms unfolding env_ok_def by blast+

definition found_ok :: "evstate \<Rightarrow> evstate \<Rightarrow> found \<Rightarrow> bool" where
  "found_ok E E' f \<longleftrightarrow> (case f of Event r \<Rightarrow> r \<noteq> 0 \<and> took E E' r | _ \<Rightarrow> took E E' 0)"

text \<open>
  An immediate event is found before the others, the one of the least number; an event that is
  ready is found when the scan is not over; and an expired timer when nothing else is found.
\<close>

definition progress :: "evenv \<Rightarrow> evstate \<Rightarrow> found \<Rightarrow> bool" where
  "progress env E f \<longleftrightarrow>
     (\<forall>p c r rest. imm_first (imm_abs (ev_imm E)) p \<and> imm_abs (ev_imm E) ! p = (c, r) # rest \<longrightarrow> f = Event r) \<and>
     (\<forall>i op. en_scan (ev_net E) < en_nfds (ev_net E) \<and> view_rdy op (net_abs (ev_net E) i) \<longrightarrow> (\<exists>r. f = Event r)) \<and>
     (polls_live (e_poll env) \<and> fst (e_tim env (ran E)) \<noteq> None \<longrightarrow> f \<noteq> Error \<and>
        (tim_due (tim_abs (ev_tim E)) (the (fst (e_tim env (ran E)))) \<longrightarrow> (\<exists>r. f = Event r)))"

lemma imm_first_unique: "imm_first A p \<Longrightarrow> imm_first A p' \<Longrightarrow> p = p'"
  unfolding imm_first_def by (metis linorder_neqE_nat)

lemma imm_first_nonempty: "imm_first A p \<Longrightarrow> \<not> (\<forall>q \<in> set A. q = [])"
  by (auto simp: imm_first_def)

lemma find_event_ok:
  assumes inv: "ev_inv {} E" and env: "env_ok env"
  shows "okp (find_event env E) (\<lambda>(E', f). found_ok E E' f \<and> progress env E f)"
proof -
  from ev_imm_get [OF inv] obtain I r where I: "events_immediate_get (ev_imm E) = Some (I, r)"
    "took E (E\<lparr>ev_imm := I\<rparr>) r" "r = 0 \<longleftrightarrow> (\<forall>q \<in> set (imm_abs (ev_imm E)). q = [])"
    "r \<noteq> 0 \<longrightarrow> (\<exists>p c rest. imm_first (imm_abs (ev_imm E)) p \<and> imm_abs (ev_imm E) ! p = (c, r) # rest)"
    by (elim okp_pairE) blast
  show ?thesis
  proof (cases "r = 0")
    case False
    with I(4) have "progress env E (Event r)" using imm_first_unique by (fastforce simp: progress_def)
    with I False show ?thesis by (simp add: find_event_def found_ok_def)
  next
    case True
    let ?E1 = "E\<lparr>ev_imm := I\<rparr>"
    from True I have t1: "took E ?E1 0" by simp
    have none: "\<not> imm_first (imm_abs (ev_imm E)) p" for p using True I(3) imm_first_nonempty by blast
    from ev_net_get [of ?E1] took_0 [OF t1] obtain N r1 where N: "events_network_get (ev_net E) = Some (N, r1)"
      "took ?E1 (?E1\<lparr>ev_net := N\<rparr>) r1"
      "en_scan (ev_net E) < en_nfds (ev_net E) \<longrightarrow> (r1 = 0 \<longleftrightarrow> (\<forall>i op. \<not> view_rdy op (net_abs (ev_net E) i)))"
      by (auto elim!: okpE)
    show ?thesis
    proof (cases "r1 = 0")
      case False
      with True I N took_0_trans [OF t1 N(2)] none show ?thesis by (auto simp: find_event_def found_ok_def progress_def)
    next
      case r1: True
      let ?E2 = "?E1\<lparr>ev_net := N\<rparr>"
      have t2: "took E ?E2 0" using took_0_trans [OF t1 N(2)] r1 by simp
      have quiet: "\<not> (en_scan (ev_net E) < en_nfds (ev_net E) \<and> view_rdy op (net_abs (ev_net E) i))" for op i
        using N(3) r1 by blast
      from ev_select_ok [of ?E2 "e_poll env" "ran E" "Some tv_zero"] took_0 [OF t2] env_okD(5) [OF env] obtain E3 rc where
        E3: "ev_select (e_poll env (ran E) N) (Some tv_zero) ?E2 = Some (E3, rc)" "took ?E2 E3 0" "ev_tim E3 = ev_tim E"
        "polls_live (e_poll env) \<longrightarrow> rc = 0" by (auto elim!: okpE)
      note t3 = took_0_trans [OF t2 E3(2)]
      from ev_net_get [of E3] took_0 [OF t3] obtain N' r2 where N': "events_network_get (ev_net E3) = Some (N', r2)"
        "took E3 (E3\<lparr>ev_net := N'\<rparr>) r2" by (auto elim!: okpE)
      show ?thesis
      proof (cases "rc \<noteq> 0 \<or> r2 \<noteq> 0")
        case True
        with I(1) \<open>r = 0\<close> N(1) r1 E3 N' t3 took_0_trans [OF t3 N'(2)] none quiet show ?thesis
          by (auto simp: find_event_def found_ok_def progress_def)
      next
        case False
        let ?E4 = "E3\<lparr>ev_net := N'\<rparr>"
        have t4: "took E ?E4 0" using took_0_trans [OF t3 N'(2)] False by simp
        obtain clock a where tim: "e_tim env (ran E) = (clock, a)" by force
        from ev_tim_get [of ?E4 clock a] took_0 [OF t4] env_okD(3) [OF env, of "ran E"] tim E3(3) obtain T rc3 r3 where
          T: "events_timer_get clock a (ev_tim E3) = Some (T, rc3, r3)" "took ?E4 (?E4\<lparr>ev_tim := T\<rparr>) r3"
            "rc3 \<noteq> 0 \<longrightarrow> clock = None \<and> r3 = 0"
            "\<forall>tnow. clock = Some tnow \<longrightarrow> (r3 \<noteq> 0 \<longleftrightarrow> tim_due (tim_abs (ev_tim E)) tnow)" by (auto elim!: okpE)
        from took_0 [OF t3] have "ran E3 = ran E" by simp
        then have fe: "find_event env E = Some (?E4\<lparr>ev_tim := T\<rparr>,
            if rc3 \<noteq> 0 then Error else if r3 \<noteq> 0 then Event r3 else NoEvent)"
          using I(1) \<open>r = 0\<close> N(1) r1 E3(1) N'(1) False T(1) tim by (simp add: find_event_def Let_def)
        from T(3,4) tim none quiet show ?thesis
          unfolding fe using took_0_trans [OF t4 T(2)] by (auto simp: found_ok_def progress_def)
      qed
    qed
  qed
qed

section \<open>Running events\<close>

lemma doevent_ok:
  assumes inv: "ev_inv {r} E" and env: "env_ok env"
  shows "okp (doevent env r E) (\<lambda>(E', rc). ev_inv {} E' \<and> (\<exists>er. ev_mem E r = Some er \<and> ev_log E' = ev_log E @ [(er, rc)]))"
proof -
  note i = ev_parts [OF inv]
  from own_loop [OF i(4), of r] obtain er where er: "ev_mem E r = Some er" by auto
  obtain ops rc where cb: "e_cb env (ran E) er E = (ops, rc)" by force
  from env_okD(1) [OF env inv, of "ran E" er] cb have "calls_pre ops E" by simp
  from ev_calls_ok [OF inv this] obtain E1 where E1: "ev_calls ops E = Some E1" "ev_inv {r} E1" by (rule okpE)
  note i1 = ev_parts [OF E1(2)]
  have "ev_mem E1 r \<noteq> None" using own_loop [OF i1(4), of r] by simp
  moreover have "own {} (owned E1) ((ev_mem E1)(r := None))" using own_free [OF i1(4)] by simp
  ultimately show ?thesis
    using er cb E1 i1 ev_calls_log [OF E1(1)] by (auto simp: doevent_def events_freerec_def ev_inv_def)
qed

lemma signalled_ok [simp]: "ev_inv X (signalled env E) = ev_inv X E" "ev_log (signalled env E) = ev_log E"
  by (simp_all add: signalled_def events_interrupt_def ev_inv_def)

text \<open>
  The return code of a run: the code of the last event that was run when that is not zero, and
  otherwise 0, or -1 for an error.  All events before the last returned zero.
\<close>

definition ran_ok :: "(eventrec \<times> int) list \<Rightarrow> int \<Rightarrow> (eventrec \<times> int) list \<Rightarrow> bool" where
  "ran_ok l rc l' \<longleftrightarrow> (\<exists>new. l' = l @ new \<and> (\<forall>e \<in> set (butlast new). snd e = 0) \<and>
     (if new \<noteq> [] \<and> snd (last new) \<noteq> 0 then rc = snd (last new) else rc = 0 \<or> rc = -1))"

lemma ran_ok_same: "ran_ok l 0 l" "ran_ok l (-1) l"
  by (simp_all add: ran_ok_def)

lemma ran_ok_last: "rc \<noteq> 0 \<Longrightarrow> ran_ok l rc (l @ [(er, rc)])"
  by (simp add: ran_ok_def)

lemma ran_ok_step: "ran_ok (l @ [(er, 0)]) rc l' \<Longrightarrow> ran_ok l rc l'"
  unfolding ran_ok_def
proof (elim exE conjE)
  fix new
  assume n: "l' = (l @ [(er, 0)]) @ new" "\<forall>e \<in> set (butlast new). snd e = 0"
    "if new \<noteq> [] \<and> snd (last new) \<noteq> 0 then rc = snd (last new) else rc = 0 \<or> rc = -1"
  then show "\<exists>new. l' = l @ new \<and> (\<forall>e \<in> set (butlast new). snd e = 0) \<and>
      (if new \<noteq> [] \<and> snd (last new) \<noteq> 0 then rc = snd (last new) else rc = 0 \<or> rc = -1)"
    by (intro exI [of _ "(er, 0) # new"]) (auto split: if_splits)
qed

fun res_ok :: "evstate \<Rightarrow> runres \<Rightarrow> bool" where
  "res_ok E (Running E') = (\<exists>new. ev_log E' = ev_log E @ new)"
| "res_ok E (Returned E' rc) = (ev_inv {} E' \<and> ran_ok (ev_log E) rc (ev_log E'))"

lemma res_ok_step: "ev_log E1 = ev_log E @ [(er, 0)] \<Longrightarrow> res_ok E1 res \<Longrightarrow> res_ok E res"
  by (cases res) (auto intro: ran_ok_step)

lemma res_ok_same: "ev_log E1 = ev_log E \<Longrightarrow> res_ok E1 res \<Longrightarrow> res_ok E res"
  by (cases res) auto

lemma imm_loop_ok:
  assumes env: "env_ok env"
  shows "ev_inv (if r = 0 then {} else {r}) E \<Longrightarrow> okp (imm_loop fuel env r E) (res_ok E)"
proof (induction fuel arbitrary: r E)
  case 0
  then show ?case by (simp add: imm_loop.simps [of 0] ran_ok_same split: if_splits)
next
  case (Suc fuel)
  show ?case
  proof (cases "r = 0")
    case True
    with Suc.prems show ?thesis by (simp add: imm_loop.simps [of "Suc fuel"] ran_ok_same)
  next
    case False
    with Suc.prems doevent_ok [OF _ env, of r E] obtain E1 rc er where
      E1: "doevent env r E = Some (E1, rc)" "ev_inv {} E1" "ev_log E1 = ev_log E @ [(er, rc)]" by (auto elim!: okpE)
    let ?E = "signalled env E1"
    from ev_imm_get [of ?E] E1(2) obtain I r' where I: "events_immediate_get (ev_imm ?E) = Some (I, r')"
      "took ?E (?E\<lparr>ev_imm := I\<rparr>) r'" by (auto elim!: okpE)
    then have inv: "ev_inv (if r' = 0 then {} else {r'}) (?E\<lparr>ev_imm := I\<rparr>)" by (simp add: took_def)
    have "res_ok E res" if "res_ok (?E\<lparr>ev_imm := I\<rparr>) res" "rc = 0" for res
      using that E1(3) by (intro res_ok_step [of "?E\<lparr>ev_imm := I\<rparr>" E er]) simp_all
    with Suc.IH [OF inv] E1 I False show ?thesis
      by (auto simp: imm_loop.simps [of "Suc fuel"] ran_ok_last ran_ok_step [OF ran_ok_same(1)] Let_def elim!: okp_mono)
  qed
qed

lemma main_loop_ok:
  assumes env: "env_ok env"
  shows "ev_inv {} E \<Longrightarrow> okp (main_loop fuel env E) (res_ok E)"
proof (induction fuel arbitrary: E)
  case 0
  then show ?case by simp
next
  case (Suc fuel)
  let ?E = "signalled env E"
  show ?case
  proof (cases "ev_intr ?E")
    case True
    with Suc.prems show ?thesis by (simp add: ran_ok_same)
  next
    case False
    from find_event_ok [OF _ env, of ?E] Suc.prems obtain E1 f where
      f: "find_event env ?E = Some (E1, f)" "found_ok ?E E1 f" by (auto elim!: okpE)
    show ?thesis
    proof (cases f)
      case (Event r)
      with f(2) have t: "took ?E E1 r" "r \<noteq> 0" "ev_inv {r} E1" by (auto simp: found_ok_def took_def)
      from doevent_ok [OF t(3) env] obtain E2 rc er where
        E2: "doevent env r E1 = Some (E2, rc)" "ev_inv {} E2" "ev_log E2 = ev_log E1 @ [(er, rc)]" by (auto elim!: okpE)
      have l: "ev_log E2 = ev_log E @ [(er, rc)]" using E2(3) t(1) by (simp add: took_def)
      have "res_ok E res" if "res_ok E2 res" "rc = 0" for res
        using that l by (intro res_ok_step [of E2 E er]) simp_all
      with Suc.IH [OF E2(2)] E2 l f(1) Event False show ?thesis
        by (auto simp: ran_ok_last Let_def elim!: okp_mono)
    next
      case NoEvent
      with f False show ?thesis by (simp add: found_ok_def took_def ran_ok_same)
    next
      case Error
      with f False show ?thesis by (simp add: found_ok_def took_def ran_ok_same)
    qed
  qed
qed

lemma events_run_internal_ok:
  assumes inv: "ev_inv {} E" and env: "env_ok env"
  shows "okp (events_run_internal fuel env E) (res_ok E)"
proof -
  from ev_imm_get [OF inv] obtain I r where I: "events_immediate_get (ev_imm E) = Some (I, r)"
    "took E (E\<lparr>ev_imm := I\<rparr>) r" by (auto elim!: okpE)
  let ?E = "E\<lparr>ev_imm := I\<rparr>"
  have same: "res_ok E res" if "res_ok ?E res" for res using that by (rule res_ok_same [rotated]) simp
  show ?thesis
  proof (cases "r = 0")
    case False
    with I have "ev_inv (if r = 0 then {} else {r}) ?E" by (simp add: took_def)
    from imm_loop_ok [OF env this, of fuel] I False same show ?thesis
      by (auto simp: events_run_internal_def Let_def elim!: okp_mono)
  next
    case True
    with I have t: "took E ?E 0" by simp
    obtain ok clock where m: "e_min env (ran E) = (ok, clock)" by force
    from took_0 [OF t] have i: "ev_inv {} ?E" by simp
    from events_timer_min_ok [of "ev_tim E" clock ok] ev_parts(3) [OF inv] env_okD(2) [OF env, of "ran E"] m
    obtain rc tv where tv: "events_timer_min ok clock (ev_tim E) = Some (rc, tv)" by (auto elim!: okpE)
    from ev_select_ok [OF i env_okD(4) [OF env], of "ran E" tv] obtain E1 rc1 where
      E1: "ev_select (e_wait env (ran E) (ev_net E)) tv ?E = Some (E1, rc1)" "took ?E E1 0" by (auto elim!: okpE)
    have "res_ok E res" if "res_ok E1 res" for res using that E1(2) by (intro res_ok_same [of E1 E]) (simp_all add: took_def)
    with main_loop_ok [OF env, of E1 fuel] E1 tv m True I i show ?thesis
      by (auto simp: events_run_internal_def Let_def ran_ok_same took_def elim!: okp_mono)
  qed
qed


end
