(* ===== verification/Events_Loop.thy ===== *)
theory Events_Loop
  imports Events
begin

text \<open>
  What the event loop achieves: it makes progress, it returns when callbacks stop registering
  events, it runs immediate events in order, and no sequence of calls and runs breaks the
  invariant.
\<close>

section \<open>Progress and termination\<close>

text \<open>The number of events that a run has started can only grow.\<close>

fun res_state :: "runres \<Rightarrow> evstate" where
  "res_state (Running E) = E"
| "res_state (Returned E rc) = E"

lemma res_ok_prefix: "res_ok E res \<Longrightarrow> ran E \<le> ran (res_state res)"
  by (cases res) (auto simp: ran_ok_def)

text \<open>Something is runnable at the start of \<open>events_run\<close>.\<close>

definition runnable :: "evenv \<Rightarrow> evstate \<Rightarrow> bool" where
  "runnable env E \<longleftrightarrow>
     (\<exists>q \<in> set (imm_abs (ev_imm E)). q \<noteq> []) \<or>
     (\<exists>N rv. net_init (fst (e_wait env (ran E) (ev_net E))) (ev_net E) = (N, True) \<and>
        (\<forall>t. poll_stop (snd (e_wait env (ran E) (ev_net E)) t) = Some (PollReady rv)) \<and>
        (\<exists>i op. view_rdy op (poll_view N rv i))) \<or>
     (\<exists>tnow. fst (e_tim env (ran E)) = Some tnow \<and> tim_due (tim_abs (ev_tim E)) tnow)"

text \<open>None of the system calls of \<open>events_run\<close> fails.\<close>

definition no_failure :: "evenv \<Rightarrow> bool" where
  "no_failure env \<longleftrightarrow> polls_live (e_wait env) \<and> polls_live (e_poll env) \<and>
     (\<forall>n. fst (e_tim env n) \<noteq> None \<and> fst (e_min env n) \<and> snd (e_min env n) \<noteq> None)"

lemma view_rdy_nfds:
  assumes "net_inv N" "view_rdy op (net_abs N i)"
  shows "0 < en_nfds N"
proof (cases "en_S N")
  case None
  with assms(2) show ?thesis by (simp add: net_abs_def view_rdy_def)
next
  case (Some S)
  with assms have "net_ok S (en_fds N) (en_nfds N)" "i < length S" "sr_pollpos (S ! i) \<noteq> SIZE_MAX"
    by (auto simp: net_inv_def net_abs_def view_rdy_def sock_view_def split: if_splits)
  then show ?thesis using net_ok_sock(1) by fastforce
qed

lemma scan_start:
  assumes "net_inv N" "0 < en_nfds N" "en_scan N = szsub (en_nfds N) 1"
  shows "en_scan N < en_nfds N"
proof -
  from assms have "en_nfds N < SIZE_MAX" by (cases "en_S N") (auto simp: net_inv_def net_ok_def)
  with assms show ?thesis by simp
qed

lemma main_loop_progress:
  assumes env: "env_ok env" and inv: "ev_inv {} E" and intr: "\<not> ev_intr E" "\<not> e_sig env (ran E)"
    and nf: "polls_live (e_poll env)" "\<And>n. fst (e_tim env n) \<noteq> None"
    and run: "en_scan (ev_net E) < en_nfds (ev_net E) \<and> view_rdy op (net_abs (ev_net E) i) \<or>
      tim_due (tim_abs (ev_tim E)) (the (fst (e_tim env (ran E))))"
  shows "okp (main_loop (Suc fuel) env E) (\<lambda>res. ran E < ran (res_state res))"
proof -
  have s: "signalled env E = E" using intr by (simp add: signalled_def)
  from find_event_ok [OF inv env] obtain E1 f where
    f: "find_event env E = Some (E1, f)" "found_ok E E1 f" "progress env E f" by (elim okp_pairE) blast
  from f(3) run nf obtain r where r: "f = Event r" unfolding progress_def by blast
  with f(2) have t: "took E E1 r" "ev_inv {r} E1" by (auto simp: found_ok_def took_def)
  from doevent_ok [OF t(2) env] obtain E2 rc er where
    E2: "doevent env r E1 = Some (E2, rc)" "ev_inv {} E2" "ev_log E2 = ev_log E1 @ [(er, rc)]" by (auto elim!: okpE)
  have l: "ran E2 = Suc (ran E)" using E2(3) t(1) by (simp add: took_def)
  have "ran E < ran (res_state res)" if "res_ok E2 res" for res using res_ok_prefix [OF that] l by simp
  with main_loop_ok [OF env E2(2), of fuel] s f(1) r E2(1) l intr show ?thesis
    by (auto elim!: okp_mono)
qed

lemma events_run_internal_progress:
  assumes inv: "ev_inv {} E" and env: "env_ok env" and nf: "no_failure env"
    and intr: "\<not> ev_intr E" "\<not> e_sig env (ran E)" and run: "runnable env E"
  shows "okp (events_run_internal (Suc fuel) env E) (\<lambda>res. ran E < ran (res_state res))"
proof -
  from ev_imm_get [OF inv] obtain I r where I: "events_immediate_get (ev_imm E) = Some (I, r)"
    "took E (E\<lparr>ev_imm := I\<rparr>) r" "r = 0 \<longleftrightarrow> (\<forall>q \<in> set (imm_abs (ev_imm E)). q = [])" by (elim okp_pairE) blast
  let ?E = "E\<lparr>ev_imm := I\<rparr>"
  show ?thesis
  proof (cases "r = 0")
    case False
    with I(2) have "ev_inv {r} ?E" by (simp add: took_def)
    from doevent_ok [OF this env] obtain E1 rc er where
      E1: "doevent env r ?E = Some (E1, rc)" "ev_inv {} E1" "ev_log E1 = ev_log E @ [(er, rc)]" by (auto elim!: okpE)
    let ?E1 = "signalled env E1"
    from ev_imm_get [of ?E1] E1(2) obtain I' r' where I': "events_immediate_get (ev_imm ?E1) = Some (I', r')"
      "took ?E1 (?E1\<lparr>ev_imm := I'\<rparr>) r'" by (auto elim!: okpE)
    then have "ev_inv (if r' = 0 then {} else {r'}) (?E1\<lparr>ev_imm := I'\<rparr>)" by (simp add: took_def)
    from imm_loop_ok [OF env this, of fuel]
    have "okp (imm_loop fuel env r' (?E1\<lparr>ev_imm := I'\<rparr>)) (\<lambda>res. ran E < ran (res_state res))"
      by (rule okp_mono) (use E1(3) in \<open>auto dest!: res_ok_prefix\<close>)
    with E1 I(1) I'(1) False show ?thesis
      by (simp add: events_run_internal_def imm_loop.simps [of "Suc fuel"] Let_def)
  next
    case True
    with I have t: "took E ?E 0" and no_imm: "\<forall>q \<in> set (imm_abs (ev_imm E)). q = []" by auto
    obtain clock where m: "e_min env (ran E) = (True, clock)" "clock \<noteq> None"
      using nf by (metis no_failure_def prod.collapse)
    from took_0 [OF t] have i: "ev_inv {} ?E" by simp
    from events_timer_min_ok [of "ev_tim E" clock True] ev_parts(3) [OF inv] env_okD(2) [OF env, of "ran E"] m
    obtain tv where tv: "events_timer_min True clock (ev_tim E) = Some (0, tv)"
      by (auto elim!: okpE split: if_splits)
    let ?w = "e_wait env (ran E) (ev_net E)"
    from ev_select_ok [OF i env_okD(4) [OF env], of "ran E" tv] nf obtain E1 where
      E1: "ev_select ?w tv ?E = Some (E1, 0)" "took ?E E1 0" "ev_tim E1 = ev_tim E"
        "en_scan (ev_net E1) = szsub (en_nfds (ev_net E1)) 1" by (auto simp: no_failure_def elim!: okpE)
    have inv1: "ev_inv {} E1" and log1: "ev_log E1 = ev_log E" "ev_intr E1 = ev_intr E" using E1(2) by (auto simp: took_def)
    have "\<exists>j op. en_scan (ev_net E1) < en_nfds (ev_net E1) \<and> view_rdy op (net_abs (ev_net E1) j) \<or>
        tim_due (tim_abs (ev_tim E1)) (the (fst (e_tim env (ran E1))))"
    proof (cases "\<exists>tnow. fst (e_tim env (ran E)) = Some tnow \<and> tim_due (tim_abs (ev_tim E)) tnow")
      case True
      then show ?thesis using E1(3) log1 by auto
    next
      case False
      with run no_imm obtain N rv j op where w: "net_init (fst ?w) (ev_net E) = (N, True)"
        "\<And>t. poll_stop (snd ?w t) = Some (PollReady rv)" "view_rdy op (poll_view N rv j)"
        unfolding runnable_def by blast
      have pv: "poll_valid N (PollReady rv)"
        using env_okD(4) [OF env] ev_parts(2) [OF inv] w(1,2) unfolding polls_ok_def by (metis fst_conv option.inject)
      from events_network_select_ok [where polls = "snd ?w" and tv = tv, OF ev_parts(2) [OF inv] w(1) w(2) pv] E1(1)
      have "net_abs (ev_net E1) = poll_view N rv" by (auto simp: ev_select_def elim!: okpE)
      with w(3) have r: "view_rdy op (net_abs (ev_net E1) j)" by simp
      from view_rdy_nfds [OF ev_parts(2) [OF inv1] r] scan_start [OF ev_parts(2) [OF inv1] _ E1(4)] r show ?thesis by blast
    qed
    then obtain j op where "en_scan (ev_net E1) < en_nfds (ev_net E1) \<and> view_rdy op (net_abs (ev_net E1) j) \<or>
        tim_due (tim_abs (ev_tim E1)) (the (fst (e_tim env (ran E1))))" by blast
    from main_loop_progress [OF env inv1 _ _ _ _ this, of fuel] intr log1 nf tv E1(1) I(1) True m(1) show ?thesis
      by (simp add: events_run_internal_def no_failure_def Let_def)
  qed
qed


text \<open>Calls that register no event do not allocate event records.\<close>

fun registers :: "evop \<Rightarrow> bool" where
  "registers (ImmRegister _ _ _ _ _) = True"
| "registers (NetRegister _ _ _ _ _) = True"
| "registers (TimRegister _ _ _ _) = True"
| "registers _ = False"

lemma freerec_le: "events_freerec r em = Some em' \<Longrightarrow> em' \<subseteq>\<^sub>m em"
  by (auto simp: events_freerec_def map_le_def split: if_splits)

lemma ev_call_le:
  assumes "\<not> registers op" "ev_call op E = Some E'"
  shows "ev_mem E' \<subseteq>\<^sub>m ev_mem E"
proof (cases op)
  case (ImmCancel c)
  with assms(2) show ?thesis
    by (auto simp: ev_call_def events_immediate_cancel_def bind_eq_Some_conv Let_def dest!: freerec_le)
next
  case (NetCancel an s op')
  with assms(2) show ?thesis
    by (auto simp: ev_call_def events_network_cancel_def bind_eq_Some_conv Let_def dest!: freerec_le
        split: prod.splits if_splits)
next
  case (TimCancel a p)
  with assms(2) show ?thesis
    by (auto simp: ev_call_def events_timer_cancel_def bind_eq_Some_conv Let_def dest!: freerec_le)
next
  case (TimReset clock p)
  with assms(2) show ?thesis by (auto simp: ev_call_def bind_eq_Some_conv)
next
  case Interrupt
  with assms(2) show ?thesis by (auto simp: ev_call_def events_interrupt_def)
qed (use assms(1) in auto)

lemma ev_calls_le:
  "\<forall>op \<in> set ops. \<not> registers op \<Longrightarrow> ev_calls ops E = Some E' \<Longrightarrow> ev_mem E' \<subseteq>\<^sub>m ev_mem E"
proof (induction ops arbitrary: E)
  case (Cons op ops)
  then obtain E1 where E1: "ev_call op E = Some E1" "ev_calls ops E1 = Some E'" by (auto simp: bind_eq_Some_conv)
  from Cons.prems(1) have "ev_mem E1 \<subseteq>\<^sub>m ev_mem E" using ev_call_le [OF _ E1(1)] by simp
  moreover have "ev_mem E' \<subseteq>\<^sub>m ev_mem E1" using Cons.IH [OF _ E1(2)] Cons.prems(1) by simp
  ultimately show ?case using map_le_trans by blast
qed simp

text \<open>Callbacks that are run after \<open>B\<close> events register no events.\<close>

definition settles :: "evenv \<Rightarrow> nat \<Rightarrow> bool" where
  "settles env B \<longleftrightarrow> (\<forall>n er E. B \<le> n \<longrightarrow> (\<forall>op \<in> set (fst (e_cb env n er E)). \<not> registers op))"

lemma doevent_dom:
  assumes "doevent env r E = Some (E', rc)" "settles env B" "B \<le> ran E"
  shows "dom (ev_mem E') \<subseteq> dom (ev_mem E) - {r}"
proof -
  from assms(1) obtain er where er: "ev_mem E r = Some er" by (auto simp: doevent_def bind_eq_Some_conv)
  obtain ops rc' where cb: "e_cb env (ran E) er E = (ops, rc')" by force
  from assms(1) er cb obtain E1 em where e: "e_cb env (ran E) er E = (ops, rc)" "ev_calls ops E = Some E1"
    "events_freerec r (ev_mem E1) = Some em" "E' = E1\<lparr>ev_mem := em, ev_log := ev_log E1 @ [(er, rc)]\<rparr>"
    by (auto simp: doevent_def bind_eq_Some_conv)
  have "\<forall>op \<in> set ops. \<not> registers op" using assms(2,3) e(1) unfolding settles_def by (metis fst_conv)
  from map_le_implies_dom_le [OF ev_calls_le [OF this e(2)]] have "dom (ev_mem E1) \<subseteq> dom (ev_mem E)" .
  moreover have "dom (ev_mem E') = dom (ev_mem E1) - {r}" using e(3,4) by (auto simp: events_freerec_def split: if_splits)
  ultimately show ?thesis by blast
qed

text \<open>What is left to run: events before the \<open>B\<close>-th, then allocated records.\<close>

definition to_run :: "nat \<Rightarrow> evstate \<Rightarrow> nat \<times> nat" where
  "to_run B E = (B - ran E, card (dom (ev_mem E)))"

lemma doevent_rest:
  assumes d: "doevent env r E = Some (E', rc)" and s: "settles env B" and inv: "ev_inv {r} E"
    and l: "ev_log E' = ev_log E @ [(er, rc)]"
  shows "(to_run B E', to_run B E) \<in> less_than <*lex*> less_than"
proof (cases "B \<le> ran E")
  case False
  then have "B - Suc (ran E) < B - ran E" by simp
  with l show ?thesis by (simp add: to_run_def)
next
  case True
  have fin: "finite (dom (ev_mem E))" and r: "r \<in> dom (ev_mem E)"
    using ev_parts(4) [OF inv] by (auto simp: own_def)
  have "card (dom (ev_mem E')) \<le> card (dom (ev_mem E) - {r})"
    using doevent_dom [OF d s True] fin by (intro card_mono) auto
  also have "\<dots> < card (dom (ev_mem E))" using fin r by (rule card_Diff1_less)
  finally show ?thesis using True l by (simp add: to_run_def)
qed

definition returns :: "(nat \<Rightarrow> runres option) \<Rightarrow> bool" where
  "returns f \<longleftrightarrow> (\<exists>k. \<forall>fuel \<ge> k. \<exists>E rc. f fuel = Some (Returned E rc))"

lemma returnsI: "(\<And>fuel. f (Suc fuel) = Some (Returned (E fuel) (rc fuel))) \<Longrightarrow> returns f"
  unfolding returns_def by (rule exI [of _ 1]) (metis One_nat_def Suc_le_D)

lemma returns_Suc: "returns g \<Longrightarrow> (\<And>fuel. f (Suc fuel) = g fuel) \<Longrightarrow> returns f"
  unfolding returns_def by (metis Suc_le_D Suc_le_mono)

lemma main_loop_returns:
  assumes env: "env_ok env" and s: "settles env B"
  shows "ev_inv {} E \<Longrightarrow> returns (\<lambda>fuel. main_loop fuel env E)"
proof (induction "to_run B E" arbitrary: E rule: wf_induct_rule [OF wf_lex_prod [OF wf_less_than wf_less_than]])
  case 1
  let ?E = "signalled env E"
  show ?case
  proof (cases "ev_intr ?E")
    case True
    then show ?thesis by (intro returnsI) simp
  next
    case False
    from find_event_ok [OF _ env, of ?E] 1(2) obtain E1 f where
      f: "find_event env ?E = Some (E1, f)" "found_ok ?E E1 f" by (auto elim!: okpE)
    show ?thesis
    proof (cases f)
      case (Event r)
      with f(2) have t: "took ?E E1 r" "r \<noteq> 0" "ev_inv {r} E1" by (auto simp: found_ok_def took_def)
      from doevent_ok [OF t(3) env] obtain E2 rc er where
        E2: "doevent env r E1 = Some (E2, rc)" "ev_inv {} E2" "ev_log E2 = ev_log E1 @ [(er, rc)]" by (auto elim!: okpE)
      have "to_run B E1 = to_run B E" using t(1) by (simp add: took_def to_run_def signalled_def events_interrupt_def)
      with doevent_rest [OF E2(1) s t(3) E2(3)] 1(1) E2(2) have IH: "returns (\<lambda>fuel. main_loop fuel env E2)" by simp
      show ?thesis
      proof (cases "rc = 0")
        case True
        from IH show ?thesis by (rule returns_Suc) (use f(1) Event E2(1) False True in simp)
      qed (use f(1) Event E2(1) False in \<open>intro returnsI, simp\<close>)
    qed (use f(1) False in \<open>intro returnsI, simp\<close>)+
  qed
qed

lemma imm_loop_returns:
  assumes env: "env_ok env" and s: "settles env B"
  shows "ev_inv (if r = 0 then {} else {r}) E \<Longrightarrow> returns (\<lambda>fuel. imm_loop fuel env r E)"
proof (induction "to_run B E" arbitrary: E r rule: wf_induct_rule [OF wf_lex_prod [OF wf_less_than wf_less_than]])
  case 1
  show ?case
  proof (cases "r = 0")
    case True
    then show ?thesis by (intro returnsI) (simp add: imm_loop.simps)
  next
    case False
    with 1(2) have inv: "ev_inv {r} E" by simp
    from doevent_ok [OF inv env] obtain E1 rc er where
      E1: "doevent env r E = Some (E1, rc)" "ev_inv {} E1" "ev_log E1 = ev_log E @ [(er, rc)]" by (auto elim!: okpE)
    let ?E = "signalled env E1"
    from ev_imm_get [of ?E] E1(2) obtain I r' where I: "events_immediate_get (ev_imm ?E) = Some (I, r')"
      "took ?E (?E\<lparr>ev_imm := I\<rparr>) r'" by (auto elim!: okpE)
    have "ev_inv (if r' = 0 then {} else {r'}) (?E\<lparr>ev_imm := I\<rparr>)" using I(2) by (simp add: took_def)
    moreover have "to_run B (?E\<lparr>ev_imm := I\<rparr>) = to_run B E1" by (simp add: to_run_def signalled_def events_interrupt_def)
    ultimately have IH: "returns (\<lambda>fuel. imm_loop fuel env r' (?E\<lparr>ev_imm := I\<rparr>))"
      using doevent_rest [OF E1(1) s inv E1(3)] 1(1) by simp
    show ?thesis
    proof (cases "rc = 0 \<and> \<not> ev_intr ?E")
      case True
      from IH show ?thesis
        by (rule returns_Suc) (use True False E1(1) I(1) in \<open>simp add: imm_loop.simps [of "Suc _"] Let_def\<close>)
    next
      case stop: False
      show ?thesis
        by (rule returnsI [of _ "\<lambda>_. if rc = 0 then ?E else E1" "\<lambda>_. rc"])
          (use stop False E1(1) in \<open>auto simp add: imm_loop.simps [of "Suc _"] Let_def\<close>)
    qed
  qed
qed

lemma events_run_internal_returns:
  assumes inv: "ev_inv {} E" and env: "env_ok env" and s: "settles env B"
  shows "returns (\<lambda>fuel. events_run_internal fuel env E)"
proof -
  from ev_imm_get [OF inv] obtain I r where I: "events_immediate_get (ev_imm E) = Some (I, r)"
    "took E (E\<lparr>ev_imm := I\<rparr>) r" by (auto elim!: okpE)
  let ?E = "E\<lparr>ev_imm := I\<rparr>"
  show ?thesis
  proof (cases "r = 0")
    case False
    with I have "ev_inv (if r = 0 then {} else {r}) ?E" by (simp add: took_def)
    from imm_loop_returns [OF env s this] I False show ?thesis by (simp add: events_run_internal_def Let_def)
  next
    case True
    with I have t: "took E ?E 0" by simp
    obtain ok clock where m: "e_min env (ran E) = (ok, clock)" by force
    from took_0 [OF t] have i: "ev_inv {} ?E" by simp
    from events_timer_min_ok [of "ev_tim E" clock ok] ev_parts(3) [OF inv] env_okD(2) [OF env, of "ran E"] m
    obtain rc tv where tv: "events_timer_min ok clock (ev_tim E) = Some (rc, tv)" by (auto elim!: okpE)
    from ev_select_ok [OF i env_okD(4) [OF env], of "ran E" tv] obtain E1 rc1 where
      E1: "ev_select (e_wait env (ran E) (ev_net E)) tv ?E = Some (E1, rc1)" "took ?E E1 0" by (auto elim!: okpE)
    have "returns (\<lambda>fuel. main_loop fuel env E1)" using main_loop_returns [OF env s] took_0 [OF E1(2)] by blast
    with E1 tv m True I show ?thesis by (auto simp: events_run_internal_def returns_def Let_def)
  qed
qed


section \<open>The order of immediate events\<close>

lemma concat_update:
  assumes "imm_first A p" "A ! p = x # rest"
  shows "concat A = x # concat (A[p := rest])"
proof -
  from assms have p: "p < length A" "\<forall>i < p. A ! i = []" by (auto simp: imm_first_def)
  have nil: "concat (take p A) = []" using p by (auto simp: in_set_conv_nth)
  have "A = take p A @ (x # rest) # drop (Suc p) A" using p(1) assms(2) by (metis id_take_nth_drop)
  then have "concat A = concat (take p A) @ x # rest @ concat (drop (Suc p) A)"
    by (metis append_Cons concat.simps(2) concat_append)
  moreover have "concat (A[p := rest]) = concat (take p A) @ rest @ concat (drop (Suc p) A)"
    using p(1) by (simp add: upd_conv_take_nth_drop)
  ultimately show ?thesis unfolding nil by simp
qed

lemma imm_get_concat:
  assumes "imm_inv I"
  shows "okp (events_immediate_get I) (\<lambda>(I', r). imm_inv I' \<and>
     (case concat (imm_abs I) of
        [] \<Rightarrow> r = 0 \<and> concat (imm_abs I') = [] \<and> eq_mem I' = eq_mem I
      | (c, r') # xs \<Rightarrow> r = r' \<and> r \<noteq> 0 \<and> concat (imm_abs I') = xs \<and> eq_mem I' = (eq_mem I)(c := None)))"
proof -
  obtain I' r where e: "events_immediate_get I = Some (I', r)" "imm_inv I'"
    and s: "if \<forall>q \<in> set (imm_abs I). q = [] then r = 0 \<and> imm_abs I' = imm_abs I \<and> eq_mem I' = eq_mem I
      else \<exists>p c rest. imm_first (imm_abs I) p \<and> imm_abs I ! p = (c, r) # rest \<and> r \<noteq> 0 \<and>
             imm_abs I' = (imm_abs I)[p := rest] \<and> eq_mem I' = (eq_mem I)(c := None)"
    using events_immediate_get_ok [OF assms] by (elim okp_pairE) blast
  show ?thesis
  proof (cases "\<forall>q \<in> set (imm_abs I). q = []")
    case True
    then have nil: "concat (imm_abs I) = []" by simp
    from s e True show ?thesis unfolding nil by auto
  next
    case False
    with s obtain p c rest where p: "imm_first (imm_abs I) p" "imm_abs I ! p = (c, r) # rest" "r \<noteq> 0"
      "imm_abs I' = (imm_abs I)[p := rest]" "eq_mem I' = (eq_mem I)(c := None)" by auto
    with e concat_update [OF p(1,2)] show ?thesis by simp
  qed
qed

text \<open>Callbacks that make no calls and return 0, and no signals.\<close>

definition silent :: "evenv \<Rightarrow> bool" where
  "silent env \<longleftrightarrow> (\<forall>n er E. e_cb env n er E = ([], 0)) \<and> (\<forall>n. \<not> e_sig env n)"

definition log_of :: "ermem \<Rightarrow> (ptr \<times> ptr) list \<Rightarrow> (eventrec \<times> int) list" where
  "log_of em xs = map (\<lambda>(c, r). (the (em r), 0)) xs"

lemma log_of_upd: "r \<notin> snd ` set xs \<Longrightarrow> log_of (em(r := None)) xs = log_of em xs"
  by (force simp: log_of_def)

lemma imm_concat_owned:
  assumes "imm_inv (ev_imm E)" "(c, r) \<in> set (concat (imm_abs (ev_imm E)))"
  shows "owned E (OImm c) = r" "r \<noteq> 0"
proof -
  from assms(2) obtain q where "q \<in> set (imm_abs (ev_imm E))" "(c, r) \<in> set q" by auto
  then obtain p where "p < length (imm_abs (ev_imm E))" "(c, r) \<in> set (imm_abs (ev_imm E) ! p)"
    by (metis in_set_conv_nth)
  from imm_abs_node [OF assms(1) this] assms(1) show "owned E (OImm c) = r" "r \<noteq> 0" by (auto simp: imm_inv_def)
qed

lemma imm_loop_order:
  assumes sil: "silent env"
  shows "ev_inv {r} E \<Longrightarrow> ev_mem E r = Some er \<Longrightarrow> \<not> ev_intr E \<Longrightarrow> length (concat (imm_abs (ev_imm E))) < fuel \<Longrightarrow>
    \<exists>E'. imm_loop fuel env r E = Some (Returned E' 0) \<and> concat (imm_abs (ev_imm E')) = [] \<and>
      ev_log E' = ev_log E @ (er, 0) # log_of (ev_mem E) (concat (imm_abs (ev_imm E))) \<and>
      ev_net E' = ev_net E \<and> ev_tim E' = ev_tim E"
proof (induction fuel arbitrary: r er E)
  case (Suc fuel)
  let ?xs = "concat (imm_abs (ev_imm E))"
  note i = ev_parts [OF Suc.prems(1)]
  have r0: "r \<noteq> 0" using i(4) Suc.prems(2) by (auto simp: own_def)
  define E1 where "E1 = E\<lparr>ev_mem := (ev_mem E)(r := None), ev_log := ev_log E @ [(er, 0)]\<rparr>"
  have d: "doevent env r E = Some (E1, 0)"
    using Suc.prems(2) sil by (simp add: doevent_def silent_def events_freerec_def E1_def)
  have s: "signalled env E1 = E1" using sil by (simp add: signalled_def silent_def)
  have inv1: "ev_inv {} E1" using own_free [OF i(4)] i by (simp add: E1_def ev_inv_def)
  have "r \<notin> owned E ` {w. owned E w \<noteq> 0}" using i(4) unfolding own_def by blast
  then have no: "owned E w \<noteq> r" for w using r0 by auto
  have fresh: "r \<notin> snd ` set ?xs"
  proof
    assume "r \<in> snd ` set ?xs"
    then obtain c where "(c, r) \<in> set ?xs" by force
    from imm_concat_owned(1) [OF i(1) this] no show False by blast
  qed
  from ev_imm_get [OF inv1] obtain I r' where I: "events_immediate_get (ev_imm E1) = Some (I, r')"
    "took E1 (E1\<lparr>ev_imm := I\<rparr>) r'" by (elim okp_pairE) blast
  from imm_get_concat [OF i(1)] I(1) have c: "case ?xs of [] \<Rightarrow> r' = 0 \<and> concat (imm_abs I) = []
      | (c, r1) # xs \<Rightarrow> r' = r1 \<and> r' \<noteq> 0 \<and> concat (imm_abs I) = xs"
    by (auto simp: E1_def simp del: concat_eq_Nil_conv split: list.splits prod.splits)
  have step: "imm_loop (Suc fuel) env r E = imm_loop fuel env r' (E1\<lparr>ev_imm := I\<rparr>)"
    using r0 d s I(1) Suc.prems(3) by (simp add: imm_loop.simps [of "Suc fuel"] E1_def)
  show ?case
  proof (cases ?xs)
    case Nil
    with c have "r' = 0" "concat (imm_abs I) = []" by auto
    with step Nil show ?thesis by (simp add: imm_loop.simps [of fuel] E1_def log_of_def)
  next
    case (Cons x xs)
    obtain c1 r1 where x: "x = (c1, r1)" by force
    with c Cons have r': "r' = r1" "r' \<noteq> 0" "concat (imm_abs I) = xs" by auto
    have inv2: "ev_inv {r'} (E1\<lparr>ev_imm := I\<rparr>)" using I(2) r'(2) by (simp add: took_def)
    have "ev_mem E1 r' \<noteq> None" using own_loop [OF ev_parts(4) [OF inv2]] by simp
    then obtain er' where er': "ev_mem E1 r' = Some er'" by auto
    have ne: "r \<noteq> r'" using er' by (auto simp: E1_def)
    have "length (concat (imm_abs (ev_imm (E1\<lparr>ev_imm := I\<rparr>)))) < fuel" using Suc.prems(4) Cons r'(3) by simp
    moreover have n1: "ev_net E1 = ev_net E" "ev_tim E1 = ev_tim E" "ev_intr E1 = ev_intr E" by (simp_all add: E1_def)
    ultimately obtain E' where
      E': "imm_loop fuel env r' (E1\<lparr>ev_imm := I\<rparr>) = Some (Returned E' 0)" "concat (imm_abs (ev_imm E')) = []"
      "ev_log E' = ev_log E1 @ (er', 0) # log_of (ev_mem E1) xs" "ev_net E' = ev_net E" "ev_tim E' = ev_tim E"
      using Suc.IH [OF inv2, of er'] er' Suc.prems(3) r'(3) by auto
    have "log_of (ev_mem E) ?xs = (er', 0) # log_of (ev_mem E1) xs"
      using log_of_upd [of r xs "ev_mem E"] fresh Cons x r'(1) er' ne by (auto simp: log_of_def E1_def)
    with step E' show ?thesis by (auto simp: E1_def)
  qed
qed simp

lemma events_run_order:
  assumes inv: "ev_inv {} E" and sil: "silent env" and intr: "\<not> ev_intr E"
    and xs: "concat (imm_abs (ev_imm E)) \<noteq> []" "length (concat (imm_abs (ev_imm E))) \<le> fuel"
  shows "\<exists>E'. events_run fuel env E = Some (Returned E' 0) \<and> concat (imm_abs (ev_imm E')) = [] \<and>
    ev_log E' = ev_log E @ log_of (ev_mem E) (concat (imm_abs (ev_imm E))) \<and> ev_net E' = ev_net E \<and> ev_tim E' = ev_tim E"
proof -
  from xs(1) obtain c r rest where c: "concat (imm_abs (ev_imm E)) = (c, r) # rest" by (metis list.exhaust surj_pair)
  from ev_imm_get [OF inv] obtain I r' where I: "events_immediate_get (ev_imm E) = Some (I, r')"
    "took E (E\<lparr>ev_imm := I\<rparr>) r'" by (elim okp_pairE) blast
  from imm_get_concat [OF ev_parts(1) [OF inv]] I(1) c have r': "r' = r" "r' \<noteq> 0" "concat (imm_abs I) = rest" by auto
  have inv1: "ev_inv {r} (E\<lparr>ev_imm := I\<rparr>)" using I(2) r' by (simp add: took_def)
  have "ev_mem E r \<noteq> None" using own_loop [OF ev_parts(4) [OF inv1]] by simp
  then obtain er where er: "ev_mem E r = Some er" by auto
  have len: "length (concat (imm_abs (ev_imm (E\<lparr>ev_imm := I\<rparr>)))) < fuel" using xs(2) c r'(3) by simp
  have "\<exists>E'. imm_loop fuel env r (E\<lparr>ev_imm := I\<rparr>) = Some (Returned E' 0) \<and> concat (imm_abs (ev_imm E')) = [] \<and>
      ev_log E' = ev_log E @ (er, 0) # log_of (ev_mem E) rest \<and> ev_net E' = ev_net E \<and> ev_tim E' = ev_tim E"
    using imm_loop_order [OF sil inv1 _ _ len, of er] er intr r'(3) by simp
  with I(1) r' c er show ?thesis by (auto simp: events_run_def events_run_internal_def log_of_def)
qed


section \<open>Registrations in their order\<close>

text \<open>
  The immediate events that a sequence of calls leaves pending, in the order in which they were
  registered: the cookie, the priority and the event.
\<close>

fun imm_pending :: "evop list \<Rightarrow> (ptr \<times> nat \<times> eventrec) list \<Rightarrow> (ptr \<times> nat \<times> eventrec) list" where
  "imm_pending [] ps = ps"
| "imm_pending (op # ops) ps = imm_pending ops
     (case op of
        ImmRegister r q func cookie prio \<Rightarrow>
          if r = 0 \<or> q = 0 then ps else ps @ [(q, nat prio, \<lparr>er_func = func, er_cookie = cookie\<rparr>)]
      | ImmCancel c \<Rightarrow> filter (\<lambda>(q, p, e). q \<noteq> c) ps
      | _ \<Rightarrow> ps)"

text \<open>The queue of each priority holds its pending events in that order.\<close>

definition imm_matches :: "evstate \<Rightarrow> (ptr \<times> nat \<times> eventrec) list \<Rightarrow> bool" where
  "imm_matches E ps \<longleftrightarrow> (\<forall>(q, p, e) \<in> set ps. p < 32) \<and>
     (\<forall>p < 32. map (\<lambda>(c, r). (c, ev_mem E r)) (imm_abs (ev_imm E) ! p) =
        map (\<lambda>(q, p, e). (q, Some e)) (filter (\<lambda>(q, p', e). p' = p) ps))"

lemma imm_other_record:
  assumes inv: "ev_inv X E" and c: "owned E (OImm c) = r" "r \<noteq> 0" and w: "owned E w = r" "w \<noteq> OImm c"
  shows False
proof -
  have "inj_on (owned E) {w. owned E w \<noteq> 0}" using inv by (simp add: ev_inv_def own_def)
  from inj_onD [OF this, of w "OImm c"] c w show False by simp
qed

text \<open>Calls for sockets and timers keep the immediate events and their records.\<close>

lemma call_keeps_imm:
  assumes inv: "ev_inv X E" and pre: "op_pre op E" and call: "ev_call op E = Some E'"
    and op: "\<And>r q func cookie prio. op \<noteq> ImmRegister r q func cookie prio" "\<And>c. op \<noteq> ImmCancel c"
  shows "ev_imm E' = ev_imm E" and "owned E (OImm c) = r \<Longrightarrow> r \<noteq> 0 \<Longrightarrow> ev_mem E' r = ev_mem E r"
proof -
  note i = ev_parts [OF inv]
  show "ev_imm E' = ev_imm E"
  proof (cases op)
    case (ImmRegister r q func cookie prio)
    then show ?thesis using op(1) by blast
  qed (use call op(2) in \<open>auto simp: ev_call_def events_interrupt_def bind_eq_Some_conv\<close>)
  assume r: "owned E (OImm c) = r" "r \<noteq> 0"
  have live: "ev_mem E r \<noteq> None" using own_live [OF i(4), of "OImm c"] r by simp
  show "ev_mem E' r = ev_mem E r"
  proof (cases op)
    case (NetRegister an func cookie s op')
    then have p: "s < INT_MAX" "fresh_ptr (na_r an) (ev_mem E)" using pre by (auto simp: op_pre_def)
    from events_network_register_ok [OF i(2) p, of func cookie op'] obtain N em rc e where
      "events_network_register an func cookie s op' (ev_net E) (ev_mem E) = Some (N, em, rc, e)"
      "em = (ev_mem E)(na_r an \<mapsto> \<lparr>er_func = func, er_cookie = cookie\<rparr>) \<or> em = ev_mem E"
      by (auto elim!: okpE split: if_splits)
    then show ?thesis using call p(2) live r(2) NetRegister by (auto simp: ev_call_def fresh_ptr_def)
  next
    case (NetCancel an s op')
    let ?w = "view_reg op' (net_abs (ev_net E) (nat s))"
    have "ev_mem E ?w \<noteq> None" if "is_op op'" "?w \<noteq> 0"
      using own_live [OF i(4), of "ONet (nat s) op'"] that by simp
    from events_network_cancel_ok [where em = "ev_mem E" and op = op' and s = s and an = an, OF i(2) this] obtain N em rc e where
      e: "events_network_cancel an s op' (ev_net E) (ev_mem E) = Some (N, em, rc, e)"
      "is_op op' \<and> ?w \<noteq> 0 \<and> em = (ev_mem E)(?w := None) \<or> em = ev_mem E"
      by (auto elim!: okpE split: if_splits)
    have "?w \<noteq> r" if "is_op op'" "?w \<noteq> 0"
      using imm_other_record [OF inv r, of "ONet (nat s) op'"] that by auto
    then show ?thesis using call e NetCancel by (auto simp: ev_call_def)
  next
    case (TimRegister an func cookie timeo)
    then have p: "an_ok an (ev_tim E) (ev_mem E)" "tv_norm timeo" using pre by (auto simp: op_pre_def)
    from events_timer_register_ok [OF i(3) p, of func cookie] obtain T em q where
      e: "events_timer_register an func cookie timeo (ev_tim E) (ev_mem E) = Some (T, em, q)"
      "em = ev_mem E \<or> an_r an \<noteq> 0 \<and> em = (ev_mem E)(an_r an \<mapsto> \<lparr>er_func = func, er_cookie = cookie\<rparr>)"
      by (auto elim!: okpE)
    then show ?thesis using call p(1) live r(2) TimRegister
      by (auto simp: ev_call_def an_ok_def fresh_ptr_def split: if_splits)
  next
    case (TimCancel a p)
    then obtain t where t: "et_mem (ev_tim E) p = Some t" using pre by (auto simp: op_pre_def)
    then have "tim_abs (ev_tim E) p \<noteq> None" using tim_link_dom i(3) by (auto simp: tim_abs_def tim_inv_def)
    then have w: "owned E (OTim p) = et_r t" "et_r t \<noteq> 0"
      using t tim_abs_norm(3) [OF i(3)] by (fastforce simp: tim_abs_def tim_view_def bind_eq_Some_conv)+
    from own_live [OF i(4), of "OTim p"] w have "ev_mem E (et_r t) \<noteq> None" by simp
    from events_timer_cancel_ok [where em = "ev_mem E" and a = a, OF i(3) t this] obtain T where
      "events_timer_cancel a p (ev_tim E) (ev_mem E) = Some (T, (ev_mem E)(et_r t := None))"
      by (auto elim!: okpE)
    moreover have "et_r t \<noteq> r" using imm_other_record [OF inv r, of "OTim p"] w by auto
    ultimately show ?thesis using call TimCancel by (auto simp: ev_call_def)
  qed (use call op in \<open>auto simp: ev_call_def events_interrupt_def bind_eq_Some_conv\<close>)
qed

lemma imm_abs_owned:
  assumes "imm_inv (ev_imm E)" "p < 32" "(c, r) \<in> set (imm_abs (ev_imm E) ! p)"
  shows "owned E (OImm c) = r" "r \<noteq> 0" "\<exists>n. eq_mem (ev_imm E) c = Some n \<and> eq_prio n = p \<and> eq_r n = r"
proof -
  have len: "length (heads (ev_imm E)) = 32" using assms(1) by (simp add: imm_inv_def)
  with assms(2, 3) have c: "c \<in> set (heads (ev_imm E) ! p)" by (auto simp: imm_abs_nth)
  from imm_node [OF assms(1, 2) c] obtain n where n: "eq_mem (ev_imm E) c = Some n" "eq_prio n = p" "eq_r n \<noteq> 0" .
  with assms(2, 3) len show "owned E (OImm c) = r" "r \<noteq> 0" "\<exists>n. eq_mem (ev_imm E) c = Some n \<and> eq_prio n = p \<and> eq_r n = r"
    by (auto simp: imm_abs_nth)
qed

lemma imm_abs_distinct:
  assumes "imm_inv I" "p < 32"
  shows "distinct (map fst (imm_abs I ! p))"
  using assms by (simp add: imm_inv_def imm_abs_nth comp_def)

lemma remove1_fst: "distinct (map fst xs) \<Longrightarrow> (c, r) \<in> set xs \<Longrightarrow> remove1 (c, r) xs = filter (\<lambda>x. fst x \<noteq> c) xs"
proof (induction xs)
  case (Cons x xs)
  show ?case
  proof (cases "x = (c, r)")
    case True
    then have "filter (\<lambda>x. fst x \<noteq> c) xs = xs" using Cons.prems(1) by (auto simp: filter_id_conv)
    then show ?thesis using True by simp
  next
    case False
    then have "(c, r) \<in> set xs" using Cons.prems(2) by auto
    then have "c \<in> set (map fst xs)" by (metis fst_conv image_eqI set_map)
    then have "fst x \<noteq> c" using Cons.prems(1) by auto
    then show ?thesis using Cons \<open>(c, r) \<in> set xs\<close> False by simp
  qed
qed simp

text \<open>A change of records that are not those of the queue.\<close>

lemma imm_row_cong:
  assumes "map (\<lambda>(c, r). (c, em r)) xs = ys" "\<And>c r. (c, r) \<in> set xs \<Longrightarrow> em' r = em r"
  shows "map (\<lambda>(c, r). (c, em' r)) xs = ys"
  using assms by (auto intro!: map_cong)

lemma imm_matches_step:
  assumes inv: "ev_inv {} E" and pre: "op_pre op E" and call: "ev_call op E = Some E'" and m: "imm_matches E ps"
  shows "imm_matches E' (imm_pending [op] ps)"
proof -
  note i = ev_parts [OF inv]
  have len: "length (heads (ev_imm E)) = 32" using i(1) by (simp add: imm_inv_def)
  have row: "map (\<lambda>(c, r). (c, ev_mem E r)) (imm_abs (ev_imm E) ! p) =
      map (\<lambda>(q, p, e). (q, Some e)) (filter (\<lambda>(q, p', e). p' = p) ps)" if "p < 32" for p
    using m that by (simp add: imm_matches_def)
  have prio: "\<forall>(q, p, e) \<in> set ps. p < 32" using m by (simp add: imm_matches_def)
  have live: "ev_mem E r \<noteq> None" if "p < 32" "(c, r) \<in> set (imm_abs (ev_imm E) ! p)" for p c r
    using own_live [OF i(4), of "OImm c"] imm_abs_owned [OF i(1) that] by simp
  consider (reg) r q func cookie prio where "op = ImmRegister r q func cookie prio" | (cancel) c where "op = ImmCancel c"
    | (other) "\<And>r q func cookie prio. op \<noteq> ImmRegister r q func cookie prio" "\<And>c. op \<noteq> ImmCancel c"
    by blast
  then show ?thesis
  proof cases
    case (reg r q func cookie prio')
    from pre reg have p: "0 \<le> prio'" "prio' < 32" "fresh_ptr r (ev_mem E)" "fresh_ptr q (eq_mem (ev_imm E))"
      by (auto simp: op_pre_def)
    from events_immediate_register_ok [OF i(1) p, of func cookie] obtain I em c where
      e: "events_immediate_register r q func cookie prio' (ev_imm E) (ev_mem E) = Some (I, em, c)"
      and s: "if r = 0 \<or> q = 0 then c = 0 \<and> I = ev_imm E \<and> em = ev_mem E
         else c = q \<and> imm_inv I \<and> em = (ev_mem E)(r \<mapsto> \<lparr>er_func = func, er_cookie = cookie\<rparr>) \<and>
           imm_abs I = (imm_abs (ev_imm E))[nat prio' := imm_abs (ev_imm E) ! nat prio' @ [(q, r)]] \<and>
           eq_mem I = (eq_mem (ev_imm E))(q \<mapsto> \<lparr>eq_r = r, eq_prio = nat prio'\<rparr>)"
      by (auto elim!: okpE)
    have E': "E' = E\<lparr>ev_imm := I, ev_mem := em\<rparr>" using call e reg by (simp add: ev_call_def)
    show ?thesis
    proof (cases "r = 0 \<or> q = 0")
      case True
      then show ?thesis using s m reg E' by (simp add: imm_matches_def)
    next
      case False
      let ?x = "(q, nat prio', \<lparr>er_func = func, er_cookie = cookie\<rparr>)"
      have np: "nat prio' < 32" using p by simp
      have "map (\<lambda>(c, r). (c, em r)) (imm_abs I ! j) = map (\<lambda>(q, p, e). (q, Some e)) (filter (\<lambda>(q, p', e). p' = j) (ps @ [?x]))"
        if j: "j < 32" for j
      proof -
        have "map (\<lambda>(c, r). (c, em r)) (imm_abs (ev_imm E) ! j) = map (\<lambda>(q, p, e). (q, Some e)) (filter (\<lambda>(q, p', e). p' = j) ps)"
        proof (rule imm_row_cong [OF row [OF j]])
          fix d t assume "(d, t) \<in> set (imm_abs (ev_imm E) ! j)"
          from live [OF j this] have "t \<noteq> r" using p(3) False by (auto simp: fresh_ptr_def)
          then show "em t = ev_mem E t" using s False by simp
        qed
        then show ?thesis using s False j len np by (auto simp: nth_list_update)
      qed
      then show ?thesis using False reg E' prio np by (auto simp: imm_matches_def)
    qed
  next
    case (cancel c)
    from pre cancel obtain n where n: "eq_mem (ev_imm E) c = Some n" by (auto simp: op_pre_def)
    then have r: "owned E (OImm c) = eq_r n" "eq_r n \<noteq> 0" "eq_prio n < 32" using i(1) by (auto simp: imm_inv_def)
    from own_live [OF i(4), of "OImm c"] r have "ev_mem E (eq_r n) \<noteq> None" by simp
    from events_immediate_cancel_ok [where em = "ev_mem E", OF i(1) n this] obtain I where
      e: "events_immediate_cancel c (ev_imm E) (ev_mem E) = Some (I, (ev_mem E)(eq_r n := None))"
      "imm_abs I = (imm_abs (ev_imm E))[eq_prio n := remove1 (c, eq_r n) (imm_abs (ev_imm E) ! eq_prio n)]"
      by (auto elim!: okpE)
    have E': "E' = E\<lparr>ev_imm := I, ev_mem := (ev_mem E)(eq_r n := None)\<rparr>" using call e cancel by (simp add: ev_call_def)
    have "map (\<lambda>(c, r). (c, (ev_mem E' r))) (imm_abs I ! j) =
        map (\<lambda>(q, p, e). (q, Some e)) (filter (\<lambda>(q, p', e). p' = j) (filter (\<lambda>(q, p, e). q \<noteq> c) ps))" if j: "j < 32" for j
    proof -
      let ?row = "imm_abs (ev_imm E) ! j"
      have "c \<in> set (heads (ev_imm E) ! eq_prio n)" using i(1) n by (auto simp: imm_inv_def)
      then have mem: "(c, eq_r n) \<in> set (imm_abs (ev_imm E) ! eq_prio n)" using r(3) len n by (force simp: imm_abs_nth)
      have I: "imm_abs I ! j = filter (\<lambda>x. fst x \<noteq> c) ?row"
      proof (cases "j = eq_prio n")
        case True
        then show ?thesis using e(2) len j remove1_fst [OF imm_abs_distinct [OF i(1) r(3)] mem] by simp
      next
        case False
        have "fst x \<noteq> c" if "x \<in> set ?row" for x
          using imm_abs_owned(3) [OF i(1) j, of "fst x" "snd x"] that n False by auto
        then have "filter (\<lambda>x. fst x \<noteq> c) ?row = ?row" by (simp add: filter_id_conv)
        then show ?thesis using e(2) False len by simp
      qed
      have "map (\<lambda>(c, r). (c, ev_mem E r)) (filter (\<lambda>x. fst x \<noteq> c) ?row) =
          filter (\<lambda>x. fst x \<noteq> c) (map (\<lambda>(c, r). (c, ev_mem E r)) ?row)"
        by (simp add: filter_map comp_def case_prod_beta)
      also have "\<dots> = map (\<lambda>(q, p, e). (q, Some e)) (filter (\<lambda>(q, p', e). p' = j) (filter (\<lambda>(q, p, e). q \<noteq> c) ps))"
        unfolding row [OF j] by (simp add: filter_map comp_def case_prod_beta conj_commute)
      finally have 1: "map (\<lambda>(c, r). (c, ev_mem E r)) (imm_abs I ! j) = \<dots>" unfolding I .
      show ?thesis
      proof (rule imm_row_cong [OF 1])
        fix d s assume "(d, s) \<in> set (imm_abs I ! j)"
        then have d: "(d, s) \<in> set ?row" "d \<noteq> c" using I by auto
        from imm_abs_owned [OF i(1) j d(1)] have "owned E (OImm d) = s" "s \<noteq> 0" by auto
        then have "s \<noteq> eq_r n" using imm_other_record [OF inv r(1, 2), of "OImm d"] d(2) by auto
        then show "ev_mem E' s = ev_mem E s" by (simp add: E')
      qed
    qed
    then show ?thesis using cancel E' prio by (auto simp: imm_matches_def)
  next
    case other
    have ps: "imm_pending [op] ps = ps"
    proof (cases op)
      case (ImmRegister r q func cookie prio)
      then show ?thesis using other(1) by blast
    qed (use other(2) in auto)
    have "ev_imm E' = ev_imm E" by (rule call_keeps_imm(1) [OF inv pre call other])
    moreover have "map (\<lambda>(c, r). (c, ev_mem E' r)) (imm_abs (ev_imm E) ! j) =
        map (\<lambda>(q, p, e). (q, Some e)) (filter (\<lambda>(q, p', e). p' = j) ps)" if j: "j < 32" for j
    proof (rule imm_row_cong [OF row [OF j]])
      fix c r assume "(c, r) \<in> set (imm_abs (ev_imm E) ! j)"
      from imm_abs_owned [OF i(1) j this] call_keeps_imm(2) [OF inv pre call other] show "ev_mem E' r = ev_mem E r" by blast
    qed
    ultimately show ?thesis using m ps by (simp add: imm_matches_def)
  qed
qed

lemma imm_matches_calls:
  "ev_inv {} E \<Longrightarrow> calls_pre ops E \<Longrightarrow> imm_matches E ps \<Longrightarrow>
    okp (ev_calls ops E) (\<lambda>E'. ev_inv {} E' \<and> imm_matches E' (imm_pending ops ps))"
proof (induction ops arbitrary: E ps)
  case (Cons op ops)
  then obtain E1 where E1: "ev_call op E = Some E1" "ev_inv {} E1" using ev_call_ok [of "{}" E op] by (auto elim: okpE)
  then have "imm_matches E1 (imm_pending [op] ps)" using imm_matches_step Cons.prems by auto
  then show ?case using Cons.IH [OF E1(2)] Cons.prems(2) E1(1) by simp
qed simp

text \<open>Row after row is the stable sort by priority.\<close>

lemma filter_eq_sorted: "sorted (map f (filter (\<lambda>x. f x = m) xs))" for f :: "'a \<Rightarrow> nat"
  by (induction xs) auto

lemma sort_key_rows:
  fixes f :: "'a \<Rightarrow> nat"
  assumes "\<forall>x \<in> set xs. f x < n"
  shows "concat (map (\<lambda>p. filter (\<lambda>x. f x = p) xs) [0..<n]) = sort_key f xs"
proof (rule sym, rule properties_for_sort_key)
  let ?ys = "concat (map (\<lambda>p. filter (\<lambda>x. f x = p) xs) [0..<n])"
  have count: "filter (\<lambda>x. f x = k) (concat (map (\<lambda>p. filter (\<lambda>x. f x = p) xs) [0..<m])) = (if k < m then filter (\<lambda>x. f x = k) xs else [])" for k m
  proof (induction m)
    case (Suc m)
    have "filter (\<lambda>x. f x = k) (filter (\<lambda>x. f x = m) xs) = (if k = m then filter (\<lambda>x. f x = k) xs else [])"
      by (auto simp: filter_empty_conv intro: filter_cong)
    then show ?case using Suc by (auto simp: less_Suc_eq)
  qed simp
  show "filter (\<lambda>x. f k = f x) ?ys = filter (\<lambda>x. f k = f x) xs" if "k \<in> set ?ys" for k
  proof -
    have "f k < n" using that by auto
    then show ?thesis using count [of "f k" n] by (simp add: eq_commute [of "f k"])
  qed
  show "mset ?ys = mset xs"
  proof (rule multiset_eqI)
    fix x
    have "count (mset ?ys) x = count (mset (filter (\<lambda>y. f y = f x) ?ys)) x" by simp
    also have "\<dots> = count (mset (if f x < n then filter (\<lambda>y. f y = f x) xs else [])) x" unfolding count ..
    also have "\<dots> = count (mset xs) x" using assms by (auto simp: count_eq_zero_iff not_in_iff [symmetric])
    finally show "count (mset ?ys) x = count (mset xs) x" .
  qed
  show "sorted (map f ?ys)"
  proof -
    have "sorted (map f (concat (map (\<lambda>p. filter (\<lambda>x. f x = p) xs) [0..<m])))" for m
      by (induction m) (auto simp: sorted_append filter_eq_sorted [of f])
    then show ?thesis .
  qed
qed

lemma map_concat_rows: "length A = n \<Longrightarrow> map g (concat A) = concat (map (\<lambda>p. map g (A ! p)) [0..<n])"
  by (subst map_nth [symmetric, of A]) (simp only: map_concat map_map comp_def)

lemma imm_matches_log:
  assumes inv: "imm_inv (ev_imm E)" and m: "imm_matches E ps"
  shows "log_of (ev_mem E) (concat (imm_abs (ev_imm E))) = map (\<lambda>(q, p, e). (e, 0)) (sort_key (\<lambda>(q, p, e). p) ps)"
    and "length (concat (imm_abs (ev_imm E))) = length ps"
proof -
  have len: "length (imm_abs (ev_imm E)) = 32" using inv by (simp add: imm_inv_def)
  let ?g = "\<lambda>(c :: ptr, r). (c, ev_mem E r)" and ?h = "\<lambda>(q :: ptr, p :: nat, e :: eventrec). (q, Some e)"
  have "map ?g (concat (imm_abs (ev_imm E))) = concat (map (\<lambda>p. map ?g (imm_abs (ev_imm E) ! p)) [0..<32])"
    using len by (rule map_concat_rows)
  also have "\<dots> = concat (map (\<lambda>p. map ?h (filter (\<lambda>(q, p', e). p' = p) ps)) [0..<32])"
    using m by (intro arg_cong [where f = concat] map_cong refl) (simp add: imm_matches_def)
  also have "\<dots> = map ?h (concat (map (\<lambda>p. filter (\<lambda>x. (\<lambda>(q, p', e). p') x = p) ps) [0..<32]))"
    by (simp add: map_concat comp_def case_prod_unfold)
  also have "\<dots> = map ?h (sort_key (\<lambda>(q, p, e). p) ps)"
    by (rule arg_cong [where f = "map ?h"], rule sort_key_rows) (use m in \<open>auto simp: imm_matches_def\<close>)
  finally have eq: "map ?g (concat (imm_abs (ev_imm E))) = map ?h (sort_key (\<lambda>(q, p, e). p) ps)" .
  show "length (concat (imm_abs (ev_imm E))) = length ps"
    using arg_cong [OF eq, of length] by (simp only: length_map length_sort)
  have 1: "log_of (ev_mem E) xs = map (\<lambda>(c, e). (the e, 0)) (map ?g xs)" for xs by (induction xs) (auto simp: log_of_def)
  have 2: "map (\<lambda>(c, e). (the e, 0)) (map ?h ys) = map (\<lambda>(q, p, e). (e, 0)) ys" for ys by (induction ys) auto
  show "log_of (ev_mem E) (concat (imm_abs (ev_imm E))) = map (\<lambda>(q, p, e). (e, 0)) (sort_key (\<lambda>(q, p, e). p) ps)"
    unfolding 1 eq 2 ..
qed

lemma imm_matches_empty: "concat (imm_abs (ev_imm E)) = [] \<Longrightarrow> imm_inv (ev_imm E) \<Longrightarrow> imm_matches E []"
  by (auto simp: imm_matches_def imm_inv_def)


section \<open>The machine of the event interface\<close>

lemma ran_ok_trans:
  assumes "ran_ok l 0 l1" "ran_ok l1 rc l2"
  shows "ran_ok l rc l2"
proof -
  from assms(1) obtain new where n: "l1 = l @ new" "\<forall>e \<in> set (butlast new). snd e = 0"
    "\<not> (new \<noteq> [] \<and> snd (last new) \<noteq> 0)" by (auto simp: ran_ok_def split: if_splits)
  have "\<forall>e \<in> set new. snd e = 0" using n(2,3) by (cases new rule: rev_cases) auto
  with n(1) assms(2) show ?thesis
  proof (induction new arbitrary: l)
    case (Cons e new)
    then have "ran_ok (l @ [e]) rc l2" by simp
    moreover have "e = (fst e, 0)" using Cons.prems(3) by (cases e) simp
    ultimately show ?case using ran_ok_step [of l "fst e" rc l2] by simp
  qed simp
qed

lemma res_ok_trans: "ran_ok (ev_log E) 0 (ev_log E1) \<Longrightarrow> res_ok E1 res \<Longrightarrow> res_ok E res"
proof (cases res)
  case (Running E')
  assume "ran_ok (ev_log E) 0 (ev_log E1)" "res_ok E1 res"
  with Running show ?thesis by (auto simp: ran_ok_def)
next
  case (Returned E' rc)
  assume "ran_ok (ev_log E) 0 (ev_log E1)" "res_ok E1 res"
  with Returned show ?thesis using ran_ok_trans by auto
qed

lemma spin_loop_ok:
  assumes env: "env_ok env"
  shows "ev_inv {} E \<Longrightarrow> rc = 0 \<Longrightarrow> okp (spin_loop fuel env stop rc E) (\<lambda>res. res_ok E res \<and>
     (\<forall>E' rc'. res = Returned E' rc' \<longrightarrow> rc' \<noteq> 0 \<or> stop E' \<or> ev_intr E'))"
proof (induction fuel arbitrary: E rc)
  case 0
  then show ?case by (auto simp: spin_loop.simps [of 0] ran_ok_same Let_def)
next
  case (Suc fuel)
  let ?E = "signalled env E"
  show ?case
  proof (cases "\<not> stop ?E \<and> \<not> ev_intr ?E")
    case False
    with Suc.prems show ?thesis by (auto simp: spin_loop.simps [of "Suc fuel"] ran_ok_same Let_def)
  next
    case True
    from events_run_internal_ok [OF _ env, of ?E "Suc fuel"] Suc.prems(1) obtain res where
      r: "events_run_internal (Suc fuel) env ?E = Some res" "res_ok ?E res" by (auto elim: okpE)
    show ?thesis
    proof (cases res)
      case (Running E1)
      with r True Suc.prems show ?thesis by (simp add: spin_loop.simps [of "Suc fuel"] Let_def)
    next
      case (Returned E1 rc1)
      with r(2) have r1: "ev_inv {} E1" "ran_ok (ev_log E) rc1 (ev_log E1)" by auto
      have step: "spin_loop (Suc fuel) env stop rc E = spin_loop fuel env stop rc1 E1"
        using r(1) Returned True Suc.prems by (simp add: spin_loop.simps [of "Suc fuel"] Let_def)
      show ?thesis
      proof (cases "rc1 = 0")
        case True
        have "res_ok E res" if "res_ok E1 res" for res
          using that r1(2) True by (intro res_ok_trans [of E E1]) simp_all
        with Suc.IH [OF r1(1) True] step show ?thesis by (auto elim!: okp_mono)
      next
        case False
        with step r1 show ?thesis by (auto simp: spin_loop.simps [of fuel] Let_def)
      qed
    qed
  qed
qed

datatype evact = Call evop | Run nat evenv | Spin nat evenv "evstate \<Rightarrow> bool"

definition ev_step :: "evact \<Rightarrow> evstate \<Rightarrow> (evstate \<times> int) option" where
  "ev_step act E =
     (let result = (\<lambda>res. case res of Running E \<Rightarrow> (E, 0) | Returned E rc \<Rightarrow> (E, rc)) in
      case act of
        Call op \<Rightarrow> map_option (\<lambda>E. (E, 0)) (ev_call op E)
      | Run fuel env \<Rightarrow> map_option result (events_run fuel env E)
      | Spin fuel env stop \<Rightarrow> map_option result (events_spin fuel env stop E))"

text \<open>A run is a step of a client when it returns.\<close>

definition ev_pre :: "evact \<Rightarrow> evstate \<Rightarrow> bool" where
  "ev_pre act E =
     (case act of
        Call op \<Rightarrow> op_pre op E
      | Run fuel env \<Rightarrow> env_ok env \<and> (\<forall>E'. events_run fuel env E \<noteq> Some (Running E'))
      | Spin fuel env stop \<Rightarrow> env_ok env \<and> (\<forall>E'. events_spin fuel env stop E \<noteq> Some (Running E')))"

definition ev_spec :: "evact \<Rightarrow> (eventrec \<times> int) list \<Rightarrow> int \<Rightarrow> (eventrec \<times> int) list \<Rightarrow> bool" where
  "ev_spec act l rc l' = (case act of Call op \<Rightarrow> l' = l | _ \<Rightarrow> ran_ok l rc l')"

lemma ev_inv_intr [simp]: "ev_inv X (E\<lparr>ev_intr := b\<rparr>) = ev_inv X E"
  by (simp add: ev_inv_def)

interpretation evm: machine_refinement "\<lambda>E. E = evstate0" ev_pre ev_step "ev_inv {}" ev_log ev_spec
proof
  fix E assume "E = evstate0"
  then show "ev_inv {} E" by (simp add: ev_inv0)
next
  fix E act assume inv: "ev_inv {} E" and pre: "ev_pre act E"
  show "okp (ev_step act E) (\<lambda>(E', rc). ev_inv {} E' \<and> ev_spec act (ev_log E) rc (ev_log E'))"
  proof (cases act)
    case (Call op)
    with pre ev_call_ok [OF inv, of op] ev_call_log [of op E] show ?thesis
      by (auto simp: ev_step_def ev_pre_def ev_spec_def elim!: okpE)
  next
    case (Run fuel env)
    with pre have env: "env_ok env" and ret: "\<And>E'. events_run fuel env E \<noteq> Some (Running E')" by (auto simp: ev_pre_def)
    from events_run_internal_ok [OF inv env, of fuel] obtain res where
      r: "events_run_internal fuel env E = Some res" "res_ok E res" by (rule okpE)
    with ret Run show ?thesis by (cases res) (auto simp: ev_step_def ev_spec_def events_run_def)
  next
    case (Spin fuel env stop)
    with pre have env: "env_ok env" and ret: "\<And>E'. events_spin fuel env stop E \<noteq> Some (Running E')" by (auto simp: ev_pre_def)
    from spin_loop_ok [OF env inv refl, of fuel stop] obtain res where
      r: "spin_loop fuel env stop 0 E = Some res" "res_ok E res" by (auto elim: okpE)
    with ret Spin show ?thesis by (cases res) (auto simp: ev_step_def ev_spec_def events_spin_def)
  qed
qed


section \<open>Properties\<close>

abbreviation ev_reach :: "evstate \<Rightarrow> bool" where
  "ev_reach \<equiv> reach (\<lambda>E. E = evstate0) ev_pre ev_step"

lemma ev_reach_inv: "ev_reach E \<Longrightarrow> ev_inv {} E"
  by (rule evm.reach_inv)

text \<open>An environment for examples: callbacks do nothing, nothing is ready, the clock stands at 0.\<close>

definition ans0 :: en_ans where
  "ans0 = \<lparr>na_list = True, na_atexit = True, na_fds = True, na_grow = True, na_realloc = True,
     na_junk = (\<lambda>_. \<lparr>pf_fd = 0, pf_events = 0, pf_revents = 0\<rparr>),
     na_sjunk = (\<lambda>_. \<lparr>sr_reader = 0, sr_writer = 0, sr_pollpos = 0\<rparr>), na_r = 8, na_clock = Some tv_zero\<rparr>"

definition env0 :: evenv where
  "env0 = \<lparr>e_cb = (\<lambda>_ _ _. ([], 0)), e_sig = (\<lambda>_. False), e_min = (\<lambda>_. (True, Some tv_zero)),
     e_wait = (\<lambda>_ _. (ans0, \<lambda>_. [PollReady (\<lambda>_. 0)])), e_poll = (\<lambda>_ _. (ans0, \<lambda>_. [PollReady (\<lambda>_. 0)])),
     e_tim = (\<lambda>_. (Some tv_zero, Some (\<lambda>_. 0)))\<rparr>"

lemma env0_ok: "env_ok env0" "no_failure env0" "settles env0 0" "silent env0"
  by (auto simp: env0_def env_ok_def polls_ok_def poll_valid_def no_failure_def polls_live_def settles_def silent_def
      tv_zero_def tv_norm_def net_init_def ans0_def Let_def split: option.splits)

text \<open>Two immediate events, the second one of higher priority.\<close>

definition two_imm :: evstate where
  "two_imm = evstate0\<lparr>ev_imm := \<lparr>heads = (replicate 32 [])[5 := [16], 2 := [32]], minq = 2,
       eq_mem = [16 \<mapsto> \<lparr>eq_r = 8, eq_prio = 5\<rparr>, 32 \<mapsto> \<lparr>eq_r = 24, eq_prio = 2\<rparr>]\<rparr>,
     ev_mem := [8 \<mapsto> \<lparr>er_func = 1, er_cookie = 1\<rparr>, 24 \<mapsto> \<lparr>er_func = 2, er_cookie = 2\<rparr>]\<rparr>"

lemma two_imm_reach: "ev_reach two_imm"
proof -
  let ?a = "Call (ImmRegister 8 16 1 1 5)" and ?b = "Call (ImmRegister 24 32 2 2 2)"
  have r0: "ev_reach evstate0" by (rule reach_init) simp
  obtain E1 where E1: "ev_step ?a evstate0 = Some (E1, 0)"
    and e1: "E1 = evstate0\<lparr>ev_imm := \<lparr>heads = (replicate 32 [])[5 := [16]], minq = 5, eq_mem = [16 \<mapsto> \<lparr>eq_r = 8, eq_prio = 5\<rparr>]\<rparr>,
      ev_mem := [8 \<mapsto> \<lparr>er_func = 1, er_cookie = 1\<rparr>]\<rparr>"
    by (simp add: ev_step_def ev_call_def events_immediate_register_def events_mkrec_def head_at_def evstate0_def evimm0_def)
  have "ev_pre ?a evstate0" by (simp add: ev_pre_def op_pre_def fresh_ptr_def evstate0_def evimm0_def)
  from reach_step [OF r0 this E1] have r1: "ev_reach E1" .
  have "ev_pre ?b E1" by (simp add: ev_pre_def op_pre_def fresh_ptr_def e1)
  moreover have "ev_step ?b E1 = Some (two_imm, 0)"
    by (simp add: ev_step_def ev_call_def events_immediate_register_def events_mkrec_def head_at_def e1 two_imm_def
        evstate0_def nth_list_update)
  ultimately show ?thesis by (rule reach_step [OF r1])
qed

lemma two_imm_concat: "concat (imm_abs (ev_imm two_imm)) = [(32, 24), (16, 8)]"
  by (simp add: two_imm_def imm_abs_def evstate0_def numeral_eq_Suc)

text \<open>
  C2.  In every state that clients of the event interface can reach (any sequence of
  registrations, cancellations and completed runs of the loop), every allocated event record
  belongs to exactly one registered event, so none is leaked, freed twice or used after it was
  freed; and the invariants 1 to 5 that \<open>events_network.c\<close> documents hold, together with 6 in
  the form that a structure with reported events is at most at the scan position.
\<close>

theorem events_invariant:
  assumes "ev_reach E"
  shows "own {} (owned E) (ev_mem E) \<and>
     (case en_S (ev_net E) of
        None \<Rightarrow> en_nfds (ev_net E) = 0
      | Some S \<Rightarrow> documented_inv S (en_fds (ev_net E)) (en_nfds (ev_net E)) \<and>
          scan_ok (en_fds (ev_net E)) (en_nfds (ev_net E)) (en_scan (ev_net E)))"
  using ev_reach_inv [OF assms] net_ok_documented by (auto simp: ev_inv_def net_inv_def split: option.splits)

theorem events_invariant_witness: "own {} (owned two_imm) (ev_mem two_imm) \<and> en_nfds (ev_net two_imm) = 0"
  using events_invariant [OF two_imm_reach] by (simp add: two_imm_def evstate0_def evnet0_def)

text \<open>
  C1.  \<open>events_run\<close> never goes wrong, whatever the callbacks do within the rules of the
  interface and for however long it runs: it does not touch memory that is not allocated and
  fails no assertion.  When it returns, no event record is lost, \<open>interrupt_requested\<close> is
  reset, all the events it ran but the last returned 0, and its result is the code of the last
  event if that is not 0, and 0 or -1 otherwise.
\<close>

theorem events_run_safe:
  assumes "ev_reach E" "env_ok env"
  shows "okp (events_run fuel env E) (\<lambda>res. case res of
       Running E' \<Rightarrow> True
     | Returned E' rc \<Rightarrow> own {} (owned E') (ev_mem E') \<and> \<not> ev_intr E' \<and> ran_ok (ev_log E) rc (ev_log E'))"
  unfolding events_run_def okp_bind
  by (rule okp_mono [OF events_run_internal_ok [OF ev_reach_inv [OF assms(1)] assms(2)]])
    (auto simp: ev_inv_def split: runres.splits)

theorem events_run_safe_witness:
  "okp (events_run 3 env0 two_imm) (\<lambda>res. case res of
       Running E' \<Rightarrow> True
     | Returned E' rc \<Rightarrow> own {} (owned E') (ev_mem E') \<and> \<not> ev_intr E' \<and> ran_ok (ev_log two_imm) rc (ev_log E'))"
  by (rule events_run_safe [OF two_imm_reach env0_ok(1)])

text \<open>
  C3.  If there are runnable events (an immediate event, a socket that the first \<open>poll\<close>
  reports as ready, or an expired timer), no interrupt is requested and no system call fails,
  \<open>events_run\<close> runs at least one event.
\<close>

theorem events_run_progress:
  assumes "ev_reach E" "env_ok env" "no_failure env" "\<not> ev_intr E" "\<not> e_sig env (ran E)" "runnable env E"
  shows "okp (events_run (Suc fuel) env E) (\<lambda>res. ran E < ran (res_state res))"
  unfolding events_run_def okp_bind
  by (rule okp_mono [OF events_run_internal_progress [OF ev_reach_inv [OF assms(1)] assms(2-6)]])
    (auto split: runres.splits)

theorem events_run_progress_witness: "okp (events_run 1 env0 two_imm) (\<lambda>res. 0 < ran (res_state res))"
proof -
  have "\<exists>q \<in> set (imm_abs (ev_imm two_imm)). q \<noteq> []" using two_imm_concat by (metis concat_eq_Nil_conv list.distinct(1))
  then have "runnable env0 two_imm" by (simp add: runnable_def)
  from events_run_progress [OF two_imm_reach env0_ok(1,2) _ _ this, of 0] show ?thesis
    by (simp add: two_imm_def evstate0_def env0_def)
qed

text \<open>
  C14.  \<open>events_run\<close> returns when only finitely many of the callbacks it runs register new
  events: with a bound \<open>B\<close> after which callbacks register nothing, there is a number of rounds
  within which it returns.
\<close>

theorem events_run_terminates:
  assumes "ev_reach E" "env_ok env" "settles env B"
  shows "\<exists>k. \<forall>fuel. k \<le> fuel \<longrightarrow> (\<exists>E' rc. events_run fuel env E = Some (Returned E' rc))"
  using events_run_internal_returns [OF ev_reach_inv [OF assms(1)] assms(2,3)]
  unfolding returns_def events_run_def by (auto simp: bind_eq_Some_conv) (metis runres.simps(6))

theorem events_run_terminates_witness:
  "\<exists>k. \<forall>fuel. k \<le> fuel \<longrightarrow> (\<exists>E' rc. events_run fuel env0 two_imm = Some (Returned E' rc))"
  by (rule events_run_terminates [OF two_imm_reach env0_ok(1,3)])

text \<open>Two registrations with priority 5, one with 2, one more with 5, and the second is cancelled.\<close>

definition four_calls :: "evop list" where
  "four_calls = [ImmRegister 8 16 1 1 5, ImmRegister 24 32 2 2 5, ImmRegister 40 48 3 3 2, ImmRegister 56 64 4 4 5, ImmCancel 32]"

lemma four_calls_eval:
  "calls_pre four_calls evstate0" "\<exists>E. ev_calls four_calls evstate0 = Some E \<and> \<not> ev_intr E"
  "imm_pending four_calls [] = [(16, 5, \<lparr>er_func = 1, er_cookie = 1\<rparr>), (48, 2, \<lparr>er_func = 3, er_cookie = 3\<rparr>), (64, 5, \<lparr>er_func = 4, er_cookie = 4\<rparr>)]"
  by (simp_all add: four_calls_def op_pre_def ev_call_def events_immediate_register_def events_immediate_cancel_def tailq_remove_def
      eq_free_def events_freerec_def events_mkrec_def head_at_def evstate0_def evimm0_def fresh_ptr_def nth_list_update Let_def)

text \<open>
  C9.  Immediate events run by increasing priority number and, within one priority, in the order in
  which they were registered.  From a reachable state without immediate events, after any
  permitted calls of the interface (registrations and cancellations of all kinds), \<open>events_run\<close>
  with callbacks that make no further calls and return 0 runs exactly the immediate events that
  were registered and not cancelled, in the order of registration sorted stably by priority, and
  no socket or timer event.
\<close>

theorem events_run_immediate_order:
  assumes "ev_reach E" "concat (imm_abs (ev_imm E)) = []" "calls_pre ops E" "ev_calls ops E = Some E1"
    and "imm_pending ops [] \<noteq> []" "length (imm_pending ops []) \<le> fuel" "silent env" "\<not> ev_intr E1"
  shows "\<exists>E'. events_run fuel env E1 = Some (Returned E' 0) \<and> concat (imm_abs (ev_imm E')) = [] \<and>
    ev_log E' = ev_log E @ map (\<lambda>(q, p, e). (e, 0)) (sort_key (\<lambda>(q, p, e). p) (imm_pending ops [])) \<and>
    ev_net E' = ev_net E1 \<and> ev_tim E' = ev_tim E1"
proof -
  note inv = ev_reach_inv [OF assms(1)]
  have "imm_matches E []" by (rule imm_matches_empty [OF assms(2) ev_parts(1) [OF inv]])
  from imm_matches_calls [OF inv assms(3) this] assms(4)
  have E1: "ev_inv {} E1" "imm_matches E1 (imm_pending ops [])" by simp_all
  note log = imm_matches_log [OF ev_parts(1) [OF E1(1)] E1(2)]
  have "concat (imm_abs (ev_imm E1)) \<noteq> []" using log(2) assms(5) by (metis length_0_conv)
  from events_run_order [OF E1(1) assms(7, 8) this] show ?thesis
    using log assms(6) ev_calls_log [OF assms(4)] by simp
qed

theorem events_run_immediate_order_witness:
  "\<exists>E1 E'. ev_calls four_calls evstate0 = Some E1 \<and> events_run 3 env0 E1 = Some (Returned E' 0) \<and>
     ev_log E' = [(\<lparr>er_func = 3, er_cookie = 3\<rparr>, 0), (\<lparr>er_func = 1, er_cookie = 1\<rparr>, 0), (\<lparr>er_func = 4, er_cookie = 4\<rparr>, 0)]"
proof -
  obtain E1 where E1: "ev_calls four_calls evstate0 = Some E1" "\<not> ev_intr E1" using four_calls_eval(2) by blast
  have r: "ev_reach evstate0" by (rule reach_init) simp
  have e: "concat (imm_abs (ev_imm evstate0)) = []" "ev_log evstate0 = []" by (simp_all add: evstate0_def evimm0_def imm_abs_def)
  from events_run_immediate_order [OF r e(1) four_calls_eval(1) E1(1) _ _ env0_ok(4) E1(2), of 3] E1(1) e(2)
  show ?thesis by (auto simp: four_calls_eval(3))
qed


text \<open>
  C25.  \<open>events_network_register\<close> and \<open>events_network_cancel\<close> behave as documented in every
  reachable state.  A registration for a pair of socket and operation that has an event fails
  with \<open>EEXIST\<close>.  One for a free pair adds exactly this event if there is room: the first call can
  set up its data, the record and, where needed, the longer socket list and the larger poll array
  can be allocated; otherwise it fails without a change, also when memory runs out halfway.  A
  cancellation removes the event of the pair and frees its record; without an event it fails with
  \<open>ENOENT\<close> and changes nothing.
\<close>

theorem events_network_register_cancel:
  assumes "ev_reach E" "0 \<le> s" "s < INT_MAX" "is_op op" "fresh_ptr (na_r an) (ev_mem E)"
    and "V = net_abs (ev_net E)" "r = view_reg op (V (nat s))"
  shows "okp (events_network_register an func cookie s op (ev_net E) (ev_mem E)) (\<lambda>(N', em', rc, e).
       if r \<noteq> 0 then rc = -1 \<and> e = EEXIST \<and> net_abs N' = V \<and> em' = ev_mem E
       else if net_room an (nat s) (ev_net E)
       then rc = 0 \<and> net_abs N' = V(nat s := view_add op (na_r an) (V (nat s))) \<and>
              em' = (ev_mem E)(na_r an \<mapsto> \<lparr>er_func = func, er_cookie = cookie\<rparr>)
       else rc = -1 \<and> e \<noteq> EEXIST \<and> net_abs N' = V \<and> em' = ev_mem E)
   \<and> okp (events_network_cancel an s op (ev_net E) (ev_mem E)) (\<lambda>(N', em', rc, e).
       if r \<noteq> 0 then rc = 0 \<and> net_abs N' = V(nat s := view_del op (V (nat s))) \<and> em' = (ev_mem E)(r := None)
       else rc = -1 \<and> net_abs N' = V \<and> em' = ev_mem E \<and> (en_S (ev_net E) \<noteq> None \<longrightarrow> e = ENOENT))"
proof -
  note inv = ev_reach_inv [OF assms(1)]
  note i = ev_parts [OF inv]
  have "ev_mem E (view_reg op (net_abs (ev_net E) (nat s))) \<noteq> None"
    if "is_op op" "view_reg op (net_abs (ev_net E) (nat s)) \<noteq> 0"
    using own_live [OF i(4), of "ONet (nat s) op"] that by simp
  from events_network_register_ok [OF i(2) assms(3,5), of func cookie op]
    events_network_cancel_ok [where em = "ev_mem E" and op = op and s = s and an = an, OF i(2) this]
  show ?thesis using assms(2,4) unfolding assms(6,7)
    by (auto elim!: okp_mono split: if_splits)
qed

theorem events_network_register_cancel_witness:
  "okp (events_network_register ans0 1 1 3 0 (ev_net evstate0) (ev_mem evstate0)) (\<lambda>(N', em', rc, e).
     rc = 0 \<and> view_reg 0 (net_abs N' 3) = 8 \<and> em' 8 = Some \<lparr>er_func = 1, er_cookie = 1\<rparr>)"
proof -
  have "ev_reach evstate0" by (rule reach_init) simp
  moreover have "net_room ans0 3 (ev_net evstate0)" by (simp add: net_room_def ans0_def evstate0_def evnet0_def)
  ultimately show ?thesis using events_network_register_cancel [of evstate0 3 0 ans0 "net_abs (ev_net evstate0)" _ 1 1, OF _ _ _ _ _ refl refl]
    by (auto simp: INT_MAX_def is_op_def fresh_ptr_def evstate0_def net_inv0 ans0_def elim!: okp_mono)
qed

text \<open>
  C29.  After \<open>events_network_select\<close>, the next \<open>events_network_get\<close> returns NULL exactly when
  no registered event is ready (reported by \<open>poll\<close>, or on a descriptor with an error or a
  hang-up).  Otherwise it returns the record of one that is ready, and only this pair of socket
  and operation stops being registered, or ready.
\<close>

theorem events_network_get_complete:
  assumes "ev_reach E" "en_scan (ev_net E) = szsub (en_nfds (ev_net E)) 1" "V = net_abs (ev_net E)"
  shows "okp (events_network_get (ev_net E)) (\<lambda>(N', r).
     if \<forall>i op. \<not> view_rdy op (V i) then r = 0 \<and> net_abs N' = V
     else \<exists>i op. view_rdy op (V i) \<and> r = view_reg op (V i) \<and> r \<noteq> 0 \<and>
       (\<forall>i' op'. is_op op' \<longrightarrow>
          view_reg op' (net_abs N' i') = (if i' = i \<and> op' = op then 0 else view_reg op' (V i')) \<and>
          view_rdy op' (net_abs N' i') = (view_rdy op' (V i') \<and> \<not> (i' = i \<and> op' = op))))"
proof -
  note i = ev_parts [OF ev_reach_inv [OF assms(1)]]
  obtain N r where N: "events_network_get (ev_net E) = Some (N, r)"
    and s: "if r = 0 then net_abs N = V \<and> (en_scan (ev_net E) < en_nfds (ev_net E) \<longrightarrow> (\<forall>i op. \<not> view_rdy op (V i)))
      else net_got V r (net_abs N)"
    using events_network_get_ok [OF i(2)] unfolding assms(3) by (elim okp_pairE) blast
  show ?thesis
  proof (cases "r = 0")
    case True
    have "\<not> view_rdy op (V j)" for j op
      using s True view_rdy_nfds [OF i(2), of op j] scan_start [OF i(2) _ assms(2)] unfolding assms(3) by auto
    with N s True show ?thesis by simp
  next
    case False
    with s obtain j op where j: "view_rdy op (V j)" "r = view_reg op (V j)"
      "net_abs N = V(j := view_del op (view_hup (V j)))" by (auto simp: net_got_def)
    have op: "is_op op" using j(1) by (simp add: view_rdy_def)
    have "view_reg op' (net_abs N i') = (if i' = j \<and> op' = op then 0 else view_reg op' (V i')) \<and>
        view_rdy op' (net_abs N i') = (view_rdy op' (V i') \<and> \<not> (i' = j \<and> op' = op))" if "is_op op'" for i' op'
      using view_del_reg [OF op that, of "V j"] view_del_rdy [OF op that j(1)] j(3) by auto
    with N j False show ?thesis by auto
  qed
qed

text \<open>
  Two sockets that are ready, as a client leaves them behind that registers for both, and whose
  run of the loop is interrupted after the first \<open>poll\<close>.
\<close>

definition two_ready :: "selstats \<Rightarrow> evstate" where
  "two_ready st = evstate0\<lparr>ev_net := \<lparr>
      en_S = Some [\<lparr>sr_reader = 8, sr_writer = 0, sr_pollpos = 0\<rparr>, \<lparr>sr_reader = 16, sr_writer = 0, sr_pollpos = 1\<rparr>],
      en_fds = \<lparr>pf_fd = 0, pf_events = POLLIN, pf_revents = POLLIN\<rparr> # \<lparr>pf_fd = 1, pf_events = POLLIN, pf_revents = POLLIN\<rparr> #
        replicate 14 \<lparr>pf_fd = 0, pf_events = 0, pf_revents = 0\<rparr>,
      en_alloc = 16, en_nfds = 2, en_scan = 1, en_stats = st\<rparr>,
     ev_mem := [8 \<mapsto> \<lparr>er_func = 1, er_cookie = 1\<rparr>, 16 \<mapsto> \<lparr>er_func = 2, er_cookie = 2\<rparr>]\<rparr>"

definition env1 :: evenv where
  "env1 = env0\<lparr>e_sig := (\<lambda>_. True), e_wait := (\<lambda>_ N. (ans0, \<lambda>_. [PollReady (\<lambda>j. pf_events (en_fds N ! j))]))\<rparr>"

lemma env1_ok: "env_ok env1"
  using env0_ok(1)
  by (auto simp: env1_def env_ok_def env0_def polls_ok_def poll_valid_def rev_ok_bits net_init_def net_inv_def Let_def split: option.splits)

lemma two_ready_reach: "\<exists>st. ev_reach (two_ready st)"
proof -
  let ?z = "\<lparr>pf_fd = 0, pf_events = 0, pf_revents = 0 :: u16\<rparr>"
  let ?a = "Call (NetRegister ans0 1 1 0 0)" and ?b = "Call (NetRegister (ans0\<lparr>na_r := 16\<rparr>) 2 2 1 0)"
  note op = ev_step_def ev_call_def events_network_register_def net_init_def growsocketlist_def register_sock_def sock_get_def
    sock_set_def events_mkrec_def sr_op_def sr_set_op_def growpollfd_def fds_get_def fds_set_def op_bit_def INT_MAX_def ans0_def
  have big: "SIZE_MAX div 24 \<noteq> 0" "\<not> SIZE_MAX div 24 < 2" "0 \<noteq> SIZE_MAX" "Suc 0 \<noteq> SIZE_MAX"
    "\<not> SIZE_MAX div 24 < Suc (Suc 0)" "Suc (Suc 0) \<le> SIZE_MAX" by (simp_all add: SIZE_MAX_def)
  have fds: "map (\<lambda>_. ?z) [0..<16] = ?z # ?z # replicate 14 ?z" by (simp add: map_replicate_const numeral_eq_Suc)
  have r0: "ev_reach evstate0" by (rule reach_init) simp
  obtain st1 where s1: "ev_step ?a evstate0 = Some (evstate0\<lparr>ev_net := \<lparr>en_S = Some [\<lparr>sr_reader = 8, sr_writer = 0, sr_pollpos = 0\<rparr>],
      en_fds = \<lparr>pf_fd = 0, pf_events = POLLIN, pf_revents = 0\<rparr> # ?z # replicate 14 ?z,
      en_alloc = 16, en_nfds = 1, en_scan = 0, en_stats = st1\<rparr>, ev_mem := [8 \<mapsto> \<lparr>er_func = 1, er_cookie = 1\<rparr>]\<rparr>, 0)"
    (is "_ = Some (?E1 st1, 0)")
    by (auto simp: op evstate0_def evnet0_def big fds Let_def)
  have "ev_pre ?a evstate0" by (simp add: ev_pre_def op_pre_def fresh_ptr_def evstate0_def INT_MAX_def)
  from reach_step [OF r0 this s1] have r1: "ev_reach (?E1 st1)" .
  obtain st2 where s2: "ev_step ?b (?E1 st1) = Some (evstate0\<lparr>ev_net := \<lparr>en_S = Some [\<lparr>sr_reader = 8, sr_writer = 0, sr_pollpos = 0\<rparr>,
        \<lparr>sr_reader = 16, sr_writer = 0, sr_pollpos = 1\<rparr>],
      en_fds = \<lparr>pf_fd = 0, pf_events = POLLIN, pf_revents = 0\<rparr> # \<lparr>pf_fd = 1, pf_events = POLLIN, pf_revents = 0\<rparr> # replicate 14 ?z,
      en_alloc = 16, en_nfds = 2, en_scan = 0, en_stats = st2\<rparr>,
      ev_mem := [8 \<mapsto> \<lparr>er_func = 1, er_cookie = 1\<rparr>, 16 \<mapsto> \<lparr>er_func = 2, er_cookie = 2\<rparr>]\<rparr>, 0)"
    (is "_ = Some (?E2 st2, 0)")
    by (auto simp: op evstate0_def big Let_def fun_eq_iff)
  have "ev_pre ?b (?E1 st1)" by (simp add: ev_pre_def op_pre_def fresh_ptr_def evstate0_def INT_MAX_def)
  from reach_step [OF r1 this s2] have r2: "ev_reach (?E2 st2)" .
  have sub: "szsub (Suc (Suc 0)) (Suc 0) = Suc 0" using big by (simp add: szsub_id)
  have "\<exists>st3. events_run 1 env1 (?E2 st2) = Some (Returned (two_ready st3) 0)"
    by (auto simp: events_run_def events_run_internal_def events_immediate_get_def minq_advance.simps events_timer_min_def
        ev_select_def events_network_select_def net_init_def env1_def env0_def evstate0_def evimm0_def evtimer0_def
        two_ready_def signalled_def events_interrupt_def numeral_eq_Suc upt_rec sub Let_def)
  then obtain st3 where run: "events_run 1 env1 (?E2 st2) = Some (Returned (two_ready st3) 0)" ..
  have "ev_pre (Run 1 env1) (?E2 st2)" using run env1_ok by (simp add: ev_pre_def)
  moreover have "ev_step (Run 1 env1) (?E2 st2) = Some (two_ready st3, 0)" using run by (simp add: ev_step_def)
  ultimately have "ev_reach (two_ready st3)" by (rule reach_step [OF r2])
  then show ?thesis by blast
qed

lemma two_ready_view: "net_abs (ev_net (two_ready st)) 0 = (8, 0, POLLIN)" "net_abs (ev_net (two_ready st)) 1 = (16, 0, POLLIN)"
  by (simp_all add: two_ready_def net_abs_def sock_view_def SIZE_MAX_def)

lemma rdy_POLLIN: "r \<noteq> 0 \<Longrightarrow> view_rdy 0 (r, w, POLLIN)"
  by (simp add: view_rdy_iff is_op_def)

theorem events_network_get_complete_witness:
  "\<exists>st. okp (events_network_get (ev_net (two_ready st))) (\<lambda>(N', r). r \<noteq> 0)"
proof -
  obtain st where r: "ev_reach (two_ready st)" using two_ready_reach ..
  have "view_rdy 0 (net_abs (ev_net (two_ready st)) 0)" unfolding two_ready_view by (rule rdy_POLLIN) simp
  then have ne: "\<not> (\<forall>i op. \<not> view_rdy op (net_abs (ev_net (two_ready st)) i))" by blast
  have "en_scan (ev_net (two_ready st)) = szsub (en_nfds (ev_net (two_ready st))) 1"
    by (simp add: two_ready_def szsub_def)
  from events_network_get_complete [OF r this refl, unfolded if_not_P [OF ne]] show ?thesis
    by (intro exI [of _ st]) (auto elim!: okp_mono)
qed

text \<open>
  C37.  \<open>events_network_get\<close> can return NULL although a ready event has not been handed out,
  which its description excludes: after it returned the only event of the last structure of the
  poll array, the scan position is equal to the number of structures, and the next call ends at
  once.  (\<open>events_run\<close> polls again, so the event is found then.)  In the reachable state before
  the first call, the last structure has reported events and is at the scan position itself, so
  that the invariant 6 does not hold with the strict inequality of the comment.
\<close>

theorem events_network_get_misses_ready:
  "\<exists>E N' i. ev_reach E \<and> en_scan (ev_net E) = szsub (en_nfds (ev_net E)) 1 \<and>
     (\<exists>j < en_nfds (ev_net E). pf_revents (en_fds (ev_net E) ! j) \<noteq> 0 \<and> \<not> j < en_scan (ev_net E)) \<and>
     events_network_get (ev_net E) = Some (N', 16) \<and> view_rdy 0 (net_abs N' i) \<and> events_network_get N' = Some (N', 0)"
proof -
  obtain st where r: "ev_reach (two_ready st)" using two_ready_reach ..
  let ?N = "ev_net (two_ready st)"
  define N' where "N' = ?N\<lparr>en_S := Some [\<lparr>sr_reader = 8, sr_writer = 0, sr_pollpos = 0\<rparr>, \<lparr>sr_reader = 0, sr_writer = 0, sr_pollpos = SIZE_MAX\<rparr>],
      en_fds := (en_fds ?N)[1 := \<lparr>pf_fd = 1, pf_events = 0, pf_revents = 0\<rparr>], en_nfds := 1\<rparr>"
  have m: "POLLIN AND NOT POLLIN = 0" "POLLIN AND POLLNVAL = 0" by (simp_all add: POLLIN_def POLLNVAL_def)
  have sub: "szsub 2 (Suc 0) = Suc 0" by (simp add: szsub_def)
  have "events_network_get ?N = Some (N', 16)"
    unfolding events_network_get_def
    by (subst net_scan.simps) (simp add: two_ready_def N'_def fds_get_def fds_set_def get_hup_def sock_get_def sock_set_def
        clearbit_def m sub)
  moreover have "events_network_get N' = Some (N', 0)"
    unfolding events_network_get_def by (subst net_scan.simps) (simp add: N'_def two_ready_def)
  moreover have "net_abs N' 0 = (8, 0, POLLIN)" by (simp add: N'_def two_ready_def net_abs_def sock_view_def SIZE_MAX_def)
  then have "view_rdy 0 (net_abs N' 0)" using rdy_POLLIN [of 8] by simp
  moreover have "\<exists>j < en_nfds ?N. pf_revents (en_fds ?N ! j) \<noteq> 0 \<and> \<not> j < en_scan ?N"
    by (intro exI [of _ 1]) (simp add: two_ready_def POLLIN_def)
  moreover have "en_scan ?N = szsub (en_nfds ?N) 1" by (simp add: two_ready_def sub)
  ultimately show ?thesis using r by blast
qed

text \<open>
  \<open>events_timer_get\<close> returns, in every reachable state, the event of a timer only when the
  timer has expired, and then of one that expires first; it returns NULL exactly when no timer
  has expired.
\<close>

theorem events_timer_get_earliest:
  assumes "ev_reach E" "tv_norm tnow" "A = tim_abs (ev_tim E)"
  shows "okp (events_timer_get (Some tnow) a (ev_tim E)) (\<lambda>(T', rc, r). rc = 0 \<and>
     (if tim_due A tnow
      then \<exists>p tv d. A p = Some (tv, d, r) \<and> r \<noteq> 0 \<and> tv_us tv \<le> tv_us tnow \<and> tim_abs T' = A(p := None) \<and>
             (\<forall>q tv' d' r'. A q = Some (tv', d', r') \<longrightarrow> tv_us tv \<le> tv_us tv')
      else r = 0 \<and> tim_abs T' = A))"
proof -
  note i = ev_parts [OF ev_reach_inv [OF assms(1)]]
  have least: "tv_us tv \<le> tv_us tnow \<and> (\<forall>q tv' d' r'. A q = Some (tv', d', r') \<longrightarrow> tv_us tv \<le> tv_us tv')"
    if "tim_due A tnow" "tim_least A p" "A p = Some (tv, d, r)" for p tv d r
    using that by (fastforce simp: tim_due_def tim_least_def)
  from assms(2) have "tv_norm t" if "Some tnow = Some t" for t using that by simp
  from events_timer_get_ok [where clock = "Some tnow" and a = a, OF i(3) this] obtain T rc r where
    T: "events_timer_get (Some tnow) a (ev_tim E) = Some (T, rc, r)" "rc = 0"
    and s: "if tim_due A tnow then \<exists>p tv d. tim_least A p \<and> A p = Some (tv, d, r) \<and> r \<noteq> 0 \<and> tim_abs T = A(p := None)
      else r = 0 \<and> tim_abs T = A \<and> et_mem T = et_mem (ev_tim E)"
    unfolding assms(3) by (auto elim!: okpE simp only: option.case prod.case split_paired_all)
  show ?thesis
  proof (cases "tim_due A tnow")
    case True
    with s obtain p tv d where "tim_least A p" "A p = Some (tv, d, r)" "r \<noteq> 0" "tim_abs T = A(p := None)" by auto
    with least [OF True, of p tv d r] T True show ?thesis by auto
  qed (use s T in simp)
qed

theorem events_timer_get_earliest_witness:
  "okp (events_timer_get (Some tv_zero) None (ev_tim evstate0)) (\<lambda>(T', rc, r). rc = 0 \<and> r = 0)"
proof -
  have "ev_reach evstate0" by (rule reach_init) simp
  from events_timer_get_earliest [OF this _ refl, of tv_zero None] show ?thesis
    by (auto simp: tv_zero_def tv_norm_def tim_due_def evstate0_def tim_inv0 elim!: okp_mono)
qed

text \<open>
  The time-out of \<open>poll\<close> in \<open>events_network_select\<close> fits into an \<open>int\<close>, and is the time
  that was asked for, rounded up to milliseconds, unless that is too long: the loop neither
  misses a timer by a millisecond nor spins before one expires.
\<close>

theorem poll_timeout_rounds_up:
  assumes "tv_norm tv" "0 \<le> tv_sec tv"
  shows "0 \<le> poll_timeout (Some tv) \<and> poll_timeout (Some tv) \<le> INT_MAX \<and>
     (if tv_sec tv < INT_MAX div 1000
      then tv_us tv \<le> 1000 * poll_timeout (Some tv) \<and> 1000 * poll_timeout (Some tv) < tv_us tv + 1000
      else poll_timeout (Some tv) = INT_MAX)"
  using assms by (auto simp: poll_timeout_def tv_norm_def tv_us_def INT_MAX_def)

theorem poll_timeout_rounds_up_witness: "poll_timeout (Some \<lparr>tv_sec = 1, tv_usec = 1\<rparr>) = 1001"
  using poll_timeout_rounds_up [of "\<lparr>tv_sec = 1, tv_usec = 1\<rparr>"] by (simp add: tv_norm_def tv_us_def INT_MAX_def)


end
