(* ===== verification/Spec2Isabelle.thy ===== *)
theory Spec2Isabelle
  imports Seq_Ptr_Map Mpool Sha1 Md5 Hexify Base64 Humansize Json Crc32c Aes_Ctr Crypto_Aes Crypto_Entropy Crypto_Dh Network_Connect Netbuf_Read Netbuf_Write Events_Loop
begin

text \<open>
  A verification of libcperciva, a library of C code for data structures, hashes, cryptography,
  text encodings, and an event loop with asynchronous connections that other programs are built on.  This theory imports the
  others; each of them starts with a description of its own.

  \<^bold>\<open>The program and its parts.\<close>  The sources fall into layers.  At the bottom are
  \<open>util/\<close> (byte order, hexadecimal, base 64, sizes in human form) and \<open>alg/\<close> (SHA-256, SHA-1,
  MD5, HMAC, PBKDF2, CRC32C), which are functions of their arguments.  \<open>datastruct/\<close> holds the
  containers: \<open>elasticarray.c\<close>, on which \<open>elasticqueue.c\<close>, \<open>seqptrmap.c\<close> (over the queue) and
  \<open>ptrheap.c\<close> are built, \<open>timerqueue.c\<close> over the heap, and the object pool \<open>mpool.h\<close>.
  \<open>events/\<close> is the event loop: immediate events, socket events, timer events over the timer
  queue, and \<open>events.c\<close>, which runs them.  \<open>network/\<close> makes and accepts connections and reads and
  writes on sockets by registering events, and \<open>netbuf/\<close> adds buffered readers and writers on top.
  \<open>crypto/\<close> has AES with its accelerated versions, AES in counter mode, a generator of random
  numbers over HMAC-SHA256, and the Diffie-Hellman key exchange.

  \<^bold>\<open>How C is modelled.\<close>  \<open>Prelude\<close> fixes the conventions.  A function that may access memory
  outside of a block, use or free what is not allocated, or fail an assertion is a function
  into \<open>option\<close>, with \<open>None\<close> for the fault; the total correctness predicate \<open>okp\<close> says that a
  call returns without a fault and what it returns.  \<open>size_t\<close> is \<open>nat\<close> with the operations
  \<open>szadd\<close>, \<open>szsub\<close> and \<open>szmul\<close> that wrap at \<open>2 ^ 64\<close>; other fixed-width integers are words.
  What the outside answers (allocators, clocks, \<open>poll\<close>, signals, callbacks, processor
  instructions) is an argument of the operations, and the theorems hold for all answers that
  keep the documented contract of that code.  The locale \<open>machine_refinement\<close> is the interface
  between a component and its clients: an invariant, an abstraction, and a specification of each
  operation; it is interpreted for the arrays, queues, maps, the timer queue, the event loop, the
  connections and the buffered readers and writers, and gives for each the theorem on all states that clients can reach.

  \<^bold>\<open>Theories and sources.\<close>
  \<^item> \<open>Elastic_Array\<close> (\<open>elasticarray.c\<close>, \<open>elasticarray.h\<close>), \<open>Elastic_Queue\<close> (\<open>elasticqueue.c\<close>),
    \<open>Seq_Ptr_Map\<close> (\<open>seqptrmap.c\<close>): each operation is a definition of the same name; the theorems
    are refinements to byte strings, lists of records and finite maps, and a bound on the memory
    that is held.
  \<^item> \<open>Heap_Order\<close>, \<open>Ptr_Heap\<close> (\<open>ptrheap.c\<close>): the binary heap over an array of pointers, with the
    client's comparison and notification callbacks as parameters; \<open>Timer_Queue\<close>
    (\<open>timerqueue.c\<close>): a refinement to a set of timers, and that freeing the queue frees all.
  \<^item> \<open>Mpool\<close> (\<open>mpool.h\<close>): no object is handed out twice or freed while in use.
  \<^item> \<open>Block_Hash\<close>, \<open>Sha256\<close>, \<open>Sha1\<close>, \<open>Md5\<close> (\<open>sha256.c\<close>, \<open>sha1.c\<close>, \<open>md5.c\<close>): the locale of
    block hashes with a buffer, interpreted for the three functions; streaming in any pieces is
    the hash of the standard, HMAC and PBKDF2 are those of the standards.
  \<^item> \<open>Crc32c\<close> (\<open>crc32c.c\<close>, \<open>crc32c_sse42.c\<close>, \<open>crc32c_arm.c\<close>): the checksum as a remainder of
    polynomials, for the table, the accelerated loops and every alignment.
  \<^item> \<open>Sysendian\<close> (\<open>sysendian.h\<close>), \<open>C_String\<close>, \<open>Hexify\<close>, \<open>Base64\<close>, \<open>Humansize\<close> (\<open>hexify.c\<close>,
    \<open>b64encode.c\<close>, \<open>humansize.c\<close>): round trips, and exactly which texts are accepted; \<open>Json\<close>
    (\<open>json.c\<close>): the search for a name stays in the buffer for all bytes and is right for all objects.
  \<^item> \<open>Aes\<close>, \<open>Crypto_Aes\<close> (\<open>crypto_aes_aesni.c\<close>, \<open>crypto_aes_arm.c\<close>, \<open>crypto_aes.c\<close>): FIPS 197, the two
    implementations with instructions of the processor, the choice between them and OpenSSL;
    \<open>Aes_Ctr\<close> (\<open>crypto_aesctr.c\<close>, \<open>crypto_aesctr_shared.c\<close>, \<open>crypto_aesctr_aesni.c\<close>,
    \<open>crypto_aesctr_arm.c\<close>): the key stream in any pieces, over any block cipher.
  \<^item> \<open>Crypto_Entropy\<close> (\<open>entropy.c\<close>, \<open>crypto_entropy.c\<close>, \<open>crypto_entropy_rdrand.c\<close>,
    \<open>crypto_verify_bytes.c\<close>): the generator is HMAC_DRBG; \<open>Crypto_Dh\<close> (\<open>crypto_dh.c\<close>): the blinded
    power is the power, the two sides agree, and nothing that is allocated is left.
  \<^item> \<open>Event_Record\<close>, \<open>Events_Immediate\<close>, \<open>Events_Timer\<close>, \<open>Select_Stats\<close>, \<open>Events_Network\<close> (the
    files of \<open>events/\<close> with these names): each kind of event with its state as a record, its
    invariant and what every operation does to an abstract state; \<open>Events\<close>: the loop of
    \<open>events.c\<close> and the ownership of event records; \<open>Events_Loop\<close>: safety, progress, termination
    and order of the loop, for all sequences of calls and runs.
  \<^item> \<open>Network_Connect\<close> (\<open>network_connect.c\<close>, \<open>network_accept.c\<close>): the addresses are tried in order
    and nothing leaks; \<open>Network_Rw\<close> (\<open>network_read.c\<close>, \<open>network_write.c\<close>), \<open>Netbuf_Read\<close>
    (\<open>netbuf_read.c\<close>), \<open>Netbuf_Write\<close> (\<open>netbuf_write.c\<close>): refinements to a stream that is read and one
    that is written, for all reachable states, with the cases in which the writer aborts.

  \<^bold>\<open>Bounds and fuel.\<close>  The loops of \<open>events.c\<close> run callbacks that may register events for ever,
  so they have a number of rounds as an argument and may end \<open>Running\<close>.  That they do not
  fault is proved for every number of rounds; that they return is proved for callbacks of which
  all but finitely many register nothing.  Loops whose termination depends on an invariant are
  in the \<open>option\<close> monad and are proved to return.  The recursion of \<open>json.c\<close> has
  fuel; three times the length and one is proved to be enough.  All other loops are recursion that
  Isabelle has proved to end.  Times are signed 64-bit integers whose overflow is a fault; clocks
  and time-outs are below \<open>2 ^ 61\<close> seconds, so that none occurs.  A \<open>double\<close> is rounded after each
  operation.

  \<^bold>\<open>Where the code and its descriptions differ.\<close>
  \<^item> \<open>PBKDF2_SHA256\<close> never returns for the greatest iteration count, since its 64-bit counter wraps.
  \<^item> An elastic array can hold up to three bytes more than four times its contents.
  \<^item> \<open>events_network_get\<close> can return NULL while an event is ready, and its invariant 6 holds only
    with \<open>\<le>\<close>; \<open>events_run\<close> polls again, so that the event is not lost.
  \<^item> \<open>netbuf_read_wait_cancel\<close> drops what an incomplete wait has received.
  \<^item> \<open>netbuf_write_write\<close> of no bytes to an idle writer aborts, and so does the next reservation or
    the end of the write in progress after a reservation has failed for want of memory.
  \<^item> \<open>json_find\<close> never finds a name that is written with a \<open>u\<close> escape.
  \<^item> \<open>network_accept\<close> never calls back when its event cannot be registered again.

  \<^bold>\<open>Not modelled.\<close>  The branches of \<open>netbuf/\<close> that call SSL, since OpenSSL is not in
  the sources; SHA-256 with special instructions and its self-test; the contents of freed
  memory and that secrets are zeroed; callbacks that run the loop again; the HTTP client, request
  signing, parsing of options and numbers, addresses and sockets, and the wrappers of the
  operating system, which consist mostly of calls to it.  AES instructions, OpenSSL's big numbers
  and block cipher, and the CRC instructions are parameters with their documented behaviour.
\<close>

end
